(* ===== verification/Agent_Prelude.thy ===== *)
theory Agent_Prelude
  imports Main "HOL-Library.Word" "HOL-Library.Multiset" "HOL-Library.Char_ord"
begin

unbundle bit_operations_syntax

text \<open>
  What every component of the model shares: the machine types of the Rust sources, the
  value types of their errors, the few functions of Rust's standard library that the
  sources call, and the generic facts about them.

  \<^item> \<open>u8\<close> \<dots> \<open>u64\<close> are words of that width, a \<open>usize\<close> is a \<open>nat\<close> (it counts or indexes
    memory that exists), a byte slice is a list of \<open>u8\<close>;
  \<^item> a Rust \<open>String\<close> or \<open>str\<close> is the HOL \<open>string\<close> of its UTF-8 bytes (a HOL \<open>char\<close> has eight
    bits), so \<open>length\<close> is \<open>str::len\<close> and \<open>as_bytes\<close> is a \<open>map\<close>;
  \<^item> \<open>Result<T, E>\<close> is the sum \<open>'e + 't\<close>, \<open>Err\<close> on the left and \<open>Ok\<close> on the right.
\<close>

named_theorems codec_simps \<open>round trips and lengths of the encoders\<close>
named_theorems table_simps \<open>what the operations on vectors and tables keep and change\<close>

section \<open>Types\<close>

type_synonym u8 = "8 word"
type_synonym u16 = "16 word"
type_synonym u32 = "32 word"
type_synonym u64 = "64 word"
type_synonym bytes = "u8 list"

abbreviation Ok :: "'a \<Rightarrow> 'e + 'a" where
  "Ok \<equiv> Inr"

abbreviation Err :: "'e \<Rightarrow> 'e + 'a" where
  "Err \<equiv> Inl"

text \<open>Rust's \<open>?\<close> on a \<open>Result\<close>, and \<open>Option::ok_or\<close>.\<close>

definition and_then :: "'e + 'a \<Rightarrow> ('a \<Rightarrow> 'e + 'b) \<Rightarrow> 'e + 'b" where
  "and_then r f = (case r of Inl e \<Rightarrow> Inl e | Inr x \<Rightarrow> f x)"

definition ok_or :: "'a option \<Rightarrow> 'e \<Rightarrow> 'e + 'a" where
  "ok_or x e = (case x of None \<Rightarrow> Inl e | Some v \<Rightarrow> Inr v)"

lemma and_then_simps [simp]:
  "and_then (Inl e) f = Inl e"
  "and_then (Inr x) f = f x"
  by (simp_all add: and_then_def)

lemma and_then_Inr_iff: "and_then r f = Inr y \<longleftrightarrow> (\<exists>x. r = Inr x \<and> f x = Inr y)"
  by (cases r) auto

lemma ok_or_simps [simp]:
  "ok_or None e = Inl e"
  "ok_or (Some v) e = Inr v"
  by (simp_all add: ok_or_def)

lemma ok_or_Inr_iff: "ok_or x e = Inr v \<longleftrightarrow> x = Some v"
  by (cases x) auto

section \<open>Bytes and text\<close>

definition byte_of :: "char \<Rightarrow> u8" where
  "byte_of c = word_of_nat (of_char c)"

definition chr_of :: "u8 \<Rightarrow> char" where
  "chr_of b = char_of (unat b)"

definition as_bytes :: "string \<Rightarrow> bytes" where
  "as_bytes s = map byte_of s"

definition of_bytes :: "bytes \<Rightarrow> string" where
  "of_bytes bs = map chr_of bs"

lemma unat_lt_256 [simp]: "unat (b :: u8) < 256"
proof -
  have "unat b < 2 ^ LENGTH(8)" by (rule unsigned_less)
  then show ?thesis by simp
qed

lemma unat_byte_of [simp]: "unat (byte_of c) = of_char c"
  by (simp add: byte_of_def unat_of_nat)

lemma chr_of_byte_of [simp]: "chr_of (byte_of c) = c"
  by (simp add: chr_of_def)

lemma byte_of_chr_of [simp]: "byte_of (chr_of b) = b"
proof -
  have "unat b < 256" by (rule unat_lt_256)
  then show ?thesis
    by (simp add: byte_of_def chr_of_def of_char_of)
qed

lemma as_bytes_of_bytes [simp]: "as_bytes (of_bytes bs) = bs"
  by (simp add: as_bytes_def of_bytes_def comp_def)

lemma of_bytes_as_bytes [simp]: "of_bytes (as_bytes s) = s"
  by (simp add: as_bytes_def of_bytes_def comp_def)

lemma length_as_bytes [simp]: "length (as_bytes s) = length s"
  by (simp add: as_bytes_def)

section \<open>Slices and vectors\<close>

text \<open>\<open>slice::chunks(n)\<close> for a positive \<open>n\<close> (a zero chunk size panics; the sources pass constants).\<close>

function chunks :: "nat \<Rightarrow> 'a list \<Rightarrow> 'a list list" where
  "chunks n xs = (if xs = [] \<or> n = 0 then [] else take n xs # chunks n (drop n xs))"
  by pat_completeness auto
termination
  by (relation "measure (\<lambda>(n, xs). length xs)") auto

declare chunks.simps [simp del]

lemma chunks_Nil [simp]: "chunks n [] = []"
  by (simp add: chunks.simps)

lemma chunks_step: "xs \<noteq> [] \<Longrightarrow> 0 < n \<Longrightarrow> chunks n xs = take n xs # chunks n (drop n xs)"
  by (subst chunks.simps) simp

lemma concat_chunks [simp]: "0 < n \<Longrightarrow> concat (chunks n xs) = xs"
  by (induction n xs rule: chunks.induct) (subst chunks.simps, auto)

lemma chunks_bounds: "c \<in> set (chunks n xs) \<Longrightarrow> 0 < length c \<and> length c \<le> n"
proof (induction n xs rule: chunks.induct)
  case (1 n xs)
  show ?case
  proof (cases "xs = [] \<or> n = 0")
    case True
    with "1.prems" show ?thesis by (auto simp: chunks.simps)
  next
    case False
    with "1.prems" have "c = take n xs \<or> c \<in> set (chunks n (drop n xs))"
      by (simp add: chunks_step)
    with False "1.IH" show ?thesis by auto
  qed
qed

text \<open>
  \<open>Vec::swap_remove(i)\<close>: the last element takes the place of the removed one. Out of range it
  panics; every call of the sources passes an index it has just found.
\<close>

definition swap_remove :: "'a list \<Rightarrow> nat \<Rightarrow> 'a list" where
  "swap_remove xs i = butlast (xs[i := last xs])"

lemma mset_swap_remove:
  assumes "i < length xs"
  shows "mset (swap_remove xs i) = mset xs - {#xs ! i#}"
proof -
  from assms have ne: "xs \<noteq> []" by auto
  have all: "mset (xs[i := last xs]) = add_mset (last xs) (mset xs - {#xs ! i#})"
    using assms by (simp add: mset_update)
  have l: "last (xs[i := last xs]) = last xs"
    using assms ne by (auto simp: last_conv_nth nth_list_update)
  have "mset (xs[i := last xs]) = mset (butlast (xs[i := last xs])) + {#last (xs[i := last xs])#}"
    using ne by (metis append_butlast_last_id list_update_nonempty mset.simps(1) mset.simps(2) mset_append)
  with all l show ?thesis
    by (simp add: swap_remove_def)
qed

lemma length_swap_remove [simp]: "length (swap_remove xs i) = length xs - 1"
  by (simp add: swap_remove_def)

lemma set_swap_remove_subset: "i < length xs \<Longrightarrow> set (swap_remove xs i) \<subseteq> set xs"
  by (metis diff_subset_eq_self mset_swap_remove set_mset_mono set_mset_mset)

text \<open>\<open>Iterator::position\<close>.\<close>

fun position :: "('a \<Rightarrow> bool) \<Rightarrow> 'a list \<Rightarrow> nat option" where
  "position p [] = None"
| "position p (x # xs) = (if p x then Some 0 else map_option Suc (position p xs))"

lemma position_None_iff: "position p xs = None \<longleftrightarrow> (\<forall>x \<in> set xs. \<not> p x)"
  by (induction xs) auto

lemma position_SomeD:
  "position p xs = Some i \<Longrightarrow> i < length xs \<and> p (xs ! i) \<and> (\<forall>j < i. \<not> p (xs ! j))"
proof (induction xs arbitrary: i)
  case Nil
  then show ?case by simp
next
  case (Cons x xs)
  show ?case
  proof (cases "p x")
    case True
    with Cons.prems show ?thesis by simp
  next
    case False
    with Cons.prems obtain j where "position p xs = Some j" and "i = Suc j" by auto
    with Cons.IH [of j] False show ?thesis
      by (auto simp: less_Suc_eq_0_disj)
  qed
qed

text \<open>
  \<open>iter().enumerate().min_by_key(k)\<close>: the index of the first element with the least key, among the
  elements that pass the filter \<open>p\<close>.
\<close>

fun min_index_by :: "('a \<Rightarrow> bool) \<Rightarrow> ('a \<Rightarrow> nat) \<Rightarrow> 'a list \<Rightarrow> nat option" where
  "min_index_by p k [] = None"
| "min_index_by p k (x # xs) =
     (case min_index_by p k xs of
        None \<Rightarrow> if p x then Some 0 else None
      | Some i \<Rightarrow> if p x \<and> k x \<le> k (xs ! i) then Some 0 else Some (Suc i))"

lemma min_index_by_None_iff: "min_index_by p k xs = None \<longleftrightarrow> (\<forall>x \<in> set xs. \<not> p x)"
  by (induction xs) (auto split: option.splits if_splits)

lemma min_index_by_all_None_iff [simp]: "min_index_by (\<lambda>_. True) k xs = None \<longleftrightarrow> xs = []"
proof -
  have "min_index_by (\<lambda>_. True) k xs = None \<longleftrightarrow> set xs = {}"
    unfolding min_index_by_None_iff by auto
  then show ?thesis by simp
qed

lemma min_index_by_SomeD:
  "min_index_by p k xs = Some i \<Longrightarrow>
     i < length xs \<and> p (xs ! i) \<and> (\<forall>x \<in> set xs. p x \<longrightarrow> k (xs ! i) \<le> k x)"
proof (induction xs arbitrary: i)
  case Nil
  then show ?case by simp
next
  case (Cons x xs)
  show ?case
  proof (cases "min_index_by p k xs")
    case None
    with Cons.prems show ?thesis
      by (auto simp: min_index_by_None_iff split: if_splits)
  next
    case (Some j)
    from Cons.IH [OF Some] Some Cons.prems show ?thesis
      by (auto split: if_splits)
  qed
qed

text \<open>\<open>iter_mut().find(..)\<close>, with what the code does to the element it finds.\<close>

fun update_first :: "('a \<Rightarrow> bool) \<Rightarrow> ('a \<Rightarrow> 'a) \<Rightarrow> 'a list \<Rightarrow> 'a list" where
  "update_first p f [] = []"
| "update_first p f (x # xs) = (if p x then f x # xs else x # update_first p f xs)"

lemma length_update_first [simp]: "length (update_first p f xs) = length xs"
  by (induction xs) auto

lemma list_all_update_first:
  "list_all P xs \<Longrightarrow> (\<And>x. P x \<Longrightarrow> P (f x)) \<Longrightarrow> list_all P (update_first p f xs)"
  by (induction xs) auto

lemma find_update_first:
  "(\<And>x. p x \<Longrightarrow> p (f x)) \<Longrightarrow> find p (update_first p f xs) = map_option f (find p xs)"
  by (induction xs) auto

lemma find_append: "find p (xs @ ys) = (case find p xs of None \<Rightarrow> find p ys | Some x \<Rightarrow> Some x)"
  by (induction xs) auto

lemma distinct_map_sub:
  assumes "distinct (map f xs)" and "mset ys \<subseteq># mset xs"
  shows "distinct (map f ys)"
proof -
  have sub: "mset (map f ys) \<subseteq># mset (map f xs)"
    using assms(2) by (simp add: image_mset_subseteq_mono)
  show ?thesis
    unfolding distinct_count_atmost_1
  proof
    fix a
    have "count (mset (map f ys)) a \<le> count (mset (map f xs)) a"
      using sub by (rule mset_subset_eq_count)
    also have "\<dots> \<le> 1"
      using assms(1) by (simp add: distinct_count_atmost_1)
    finally show "count (mset (map f ys)) a = (if a \<in> set (map f ys) then 1 else 0)"
      by (metis One_nat_def count_eq_zero_iff le_antisym not_less_eq_eq set_mset_mset zero_less_iff_neq_zero less_one not_le)
  qed
qed

lemma swap_remove_sub: "i < length xs \<Longrightarrow> mset (swap_remove xs i) \<subseteq># mset xs"
  by (simp add: mset_swap_remove)

lemma distinct_map_swap_remove:
  "distinct (map f xs) \<Longrightarrow> i < length xs \<Longrightarrow> distinct (map f (swap_remove xs i))"
  by (erule distinct_map_sub) (rule swap_remove_sub)

lemma length_filter_sub: "mset ys \<subseteq># mset xs \<Longrightarrow> length (filter p ys) \<le> length (filter p xs)"
  using size_mset_mono [OF multiset_filter_mono [of "mset ys" "mset xs" p]] by (simp flip: mset_filter)

lemma length_filter_imp: "(\<And>x. P x \<Longrightarrow> Q x) \<Longrightarrow> length (filter P xs) \<le> length (filter Q xs)"
  by (induction xs) (auto intro: le_SucI)

lemma set_sub: "mset ys \<subseteq># mset xs \<Longrightarrow> set ys \<subseteq> set xs"
  by (metis set_mset_mono set_mset_mset)

lemma swap_remove_remaining:
  assumes "distinct (map f xs)" and "i < length xs"
  shows "set (swap_remove xs i) = {x \<in> set xs. f x \<noteq> f (xs ! i)}"
proof -
  have "distinct xs" using assms(1) by (simp add: distinct_map)
  then have "xs ! i \<notin># mset xs - {#xs ! i#}"
    using assms(2) by (simp add: not_in_iff distinct_count_atmost_1)
  then have "set_mset (mset (swap_remove xs i)) = set_mset (mset xs) - {xs ! i}"
    using assms(2) by (subst mset_swap_remove) (auto dest: at_most_one_mset_mset_diff)
  then have "set (swap_remove xs i) = set xs - {xs ! i}" by simp
  also have "\<dots> = {x \<in> set xs. f x \<noteq> f (xs ! i)}"
    using assms by (auto simp: distinct_map inj_on_def)
  finally show ?thesis .
qed

text \<open>A \<open>for\<close> loop whose body ends the function with \<open>?\<close>.\<close>

fun try_fold :: "('b \<Rightarrow> 'a \<Rightarrow> 'e + 'b) \<Rightarrow> 'b \<Rightarrow> 'a list \<Rightarrow> 'e + 'b" where
  "try_fold f acc [] = Inr acc"
| "try_fold f acc (x # xs) = and_then (f acc x) (\<lambda>acc. try_fold f acc xs)"

lemma try_fold_invariant:
  "try_fold f acc xs = Inr y \<Longrightarrow> P acc \<Longrightarrow>
     (\<And>a x b. P a \<Longrightarrow> x \<in> set xs \<Longrightarrow> f a x = Inr b \<Longrightarrow> P b) \<Longrightarrow> P y"
proof (induction xs arbitrary: acc)
  case (Cons x xs)
  from Cons.prems(1) obtain b where "f acc x = Inr b" "try_fold f b xs = Inr y"
    by (auto simp: and_then_Inr_iff)
  moreover from this(1) have "P b"
    using Cons.prems(2) by (rule_tac Cons.prems(3)) auto
  ultimately show ?case
    using Cons.prems(3) by (rule_tac Cons.IH [of b]) auto
qed simp

lemma list_allD: "list_all P xs \<Longrightarrow> x \<in> set xs \<Longrightarrow> P x"
  by (simp add: list_all_iff)

section \<open>Decimal text\<close>

text \<open>\<open>Display\<close> of an unsigned integer.\<close>

fun show_nat :: "nat \<Rightarrow> string" where
  "show_nat n =
     (if n < 10 then [char_of (48 + n)] else show_nat (n div 10) @ [char_of (48 + n mod 10)])"

declare show_nat.simps [simp del]

definition is_ascii_digit :: "char \<Rightarrow> bool" where
  "is_ascii_digit c \<longleftrightarrow> CHR ''0'' \<le> c \<and> c \<le> CHR ''9''"

lemma length_filter_update:
  assumes "i < length xs"
  shows "length (filter P (xs[i := x])) + (if P (xs ! i) then 1 else 0) =
    length (filter P xs) + (if P x then 1 else 0)"
proof -
  have "length (filter P xs) = length (filter P (take i xs @ xs ! i # drop (Suc i) xs))"
    using assms by (simp add: id_take_nth_drop [symmetric])
  with assms show ?thesis by (simp add: upd_conv_take_nth_drop)
qed

end
