(* ===== verification/Boot_Clock.thy ===== *)
theory Boot_Clock
  imports Agent_Prelude
begin

text \<open>
  \<open>src/zte-agent/src/boottime.rs\<close> and the parts of \<open>std::time::Duration\<close> the agent uses. A
  \<open>Duration\<close> is its number of nanoseconds, at most \<open>dur_max\<close> (\<open>u64::MAX\<close> seconds and 999999999
  nanoseconds); a \<open>BootInstant\<close> is the duration since boot. The clock itself is an argument of every
  operation that reads it (\<open>now\<close>), because it is the kernel's.
\<close>

type_synonym duration = nat
type_synonym boot_instant = duration

definition dur_max :: duration where
  "dur_max = 2 ^ 64 * 1000000000 - 1"

definition from_secs :: "nat \<Rightarrow> duration" where
  "from_secs s = s * 1000000000"

definition dur_saturating_add :: "duration \<Rightarrow> duration \<Rightarrow> duration" where
  "dur_saturating_add a b = min (a + b) dur_max"

definition dur_saturating_mul :: "duration \<Rightarrow> nat \<Rightarrow> duration" where
  "dur_saturating_mul d n = min (d * n) dur_max"

definition dur_as_secs :: "duration \<Rightarrow> nat" where
  "dur_as_secs d = d div 1000000000"

definition dur_subsec_nanos :: "duration \<Rightarrow> nat" where
  "dur_subsec_nanos d = d mod 1000000000"

definition saturating_add :: "boot_instant \<Rightarrow> duration \<Rightarrow> boot_instant" where
  "saturating_add t d = dur_saturating_add t d"

definition saturating_duration_since :: "boot_instant \<Rightarrow> boot_instant \<Rightarrow> duration" where
  "saturating_duration_since t earlier = t - earlier"

definition as_millis :: "boot_instant \<Rightarrow> nat" where
  "as_millis t = (let ms = t div 1000000 in if ms < 2 ^ 64 then ms else 2 ^ 64 - 1)"

definition as_secs :: "boot_instant \<Rightarrow> nat" where
  "as_secs t = dur_as_secs t"

lemma saturating_add_le [simp]: "saturating_add t d \<le> dur_max"
  by (simp add: saturating_add_def dur_saturating_add_def)

lemma saturating_add_exact: "t + d \<le> dur_max \<Longrightarrow> saturating_add t d = t + d"
  by (simp add: saturating_add_def dur_saturating_add_def)

lemma saturating_add_le_plus: "saturating_add t d \<le> t + d"
  by (simp add: saturating_add_def dur_saturating_add_def)

lemma less_saturating_add_iff:
  "t \<le> dur_max \<Longrightarrow> now < saturating_add t d \<longleftrightarrow> now < t + d \<and> now < dur_max"
  by (auto simp: saturating_add_def dur_saturating_add_def)

lemma saturating_add_mono: "t \<le> u \<Longrightarrow> saturating_add t d \<le> saturating_add u d"
  by (auto simp: saturating_add_def dur_saturating_add_def)

text \<open>A deadline computed with saturation is still the exact one after \<open>since\<close> when the clock has not passed it.\<close>

lemma since_saturating_add:
  "now \<le> dur_max \<Longrightarrow> saturating_duration_since (saturating_add t d) now \<le> t + d - now"
  by (simp add: saturating_duration_since_def saturating_add_def dur_saturating_add_def)

end
