(* ===== verification/Login_Limiter.thy ===== *)
theory Login_Limiter
  imports Boot_Clock
begin

text \<open>
  \<open>src/zte-agent/src/auth/limiter.rs\<close>: the rate limit of logins, an exponential block per peer address
  and one bucket of failures for all peers. Counters that are \<open>u32\<close> in the code are numbers here, with
  \<open>u32_max\<close> where the code saturates; \<open>limiter_inv\<close> keeps them in range. A line for the log is the
  event it reports (\<open>log_line\<close>), not its text.

  The lemmas show what a check answers, that a block ends by itself without further attempts, that
  every operation keeps the table of peers bounded, and (\<open>limiter_credit\<close>) that the bucket bounds the
  wrong passwords tried over any span of time.
\<close>

definition u32_max :: nat where
  "u32_max = 2 ^ 32 - 1"

section \<open>Peers\<close>

datatype ip_addr = Ip_V4 bytes | Ip_V6 bytes

datatype peer_key = V4 bytes | V6 bytes

definition UNKNOWN :: peer_key where
  "UNKNOWN = V4 [0, 0, 0, 0]"

fun ip :: "peer_key \<Rightarrow> ip_addr" where
  "ip (V4 a) = Ip_V4 a"
| "ip (V6 a) = Ip_V6 a"

text \<open>\<open>IpAddr::is_loopback\<close> and \<open>Ipv6Addr::to_ipv4_mapped\<close>.\<close>

fun is_loopback :: "ip_addr \<Rightarrow> bool" where
  "is_loopback (Ip_V4 a) \<longleftrightarrow> take 1 a = [127]"
| "is_loopback (Ip_V6 a) \<longleftrightarrow> a = replicate 15 0 @ [1]"

definition to_ipv4_mapped :: "bytes \<Rightarrow> bytes option" where
  "to_ipv4_mapped a = (if take 12 a = replicate 10 0 @ [0xFF, 0xFF] then Some (drop 12 a) else None)"

definition shared :: "peer_key \<Rightarrow> bool" where
  "shared key = is_loopback (ip key)"

fun peer_of :: "ip_addr \<Rightarrow> peer_key" where
  "peer_of (Ip_V4 v4) = V4 v4"
| "peer_of (Ip_V6 v6) = (case to_ipv4_mapped v6 of Some v4 \<Rightarrow> V4 v4 | None \<Rightarrow> V6 v6)"

section \<open>The limiter\<close>

record limiter_config =
  free_failures :: nat
  base :: duration
  max_backoff :: duration
  shared_max_backoff :: duration
  forget_after :: duration
  slots_max :: nat
  global_burst :: nat
  global_refill :: duration

definition default_limiter_config :: limiter_config where
  "default_limiter_config =
     \<lparr>free_failures = 5, base = from_secs 1, max_backoff = from_secs 300,
      shared_max_backoff = from_secs 10, forget_after = from_secs (15 * 60), slots_max = 64,
      global_burst = 30, global_refill = from_secs 10\<rparr>"

datatype admit = Allow | Deny (retry_after: duration)

record slot =
  slot_key :: peer_key
  failures :: nat
  last_failure :: boot_instant

record limiter =
  lim_cfg :: limiter_config
  slots :: "slot list"
  tokens :: nat
  refill_from :: boot_instant
  empty_logged :: bool

datatype log_line = Bucket_empty ip_addr | Peer_blocked ip_addr (block_secs: nat) (wrong: nat)

definition limiter_new :: "limiter_config \<Rightarrow> boot_instant \<Rightarrow> limiter" where
  "limiter_new c now =
     \<lparr>lim_cfg = c, slots = [], tokens = global_burst c, refill_from = now, empty_logged = False\<rparr>"

text \<open>\<open>1u32.checked_shl(k).unwrap_or(u32::MAX)\<close>\<close>

definition shl_or_max :: "nat \<Rightarrow> nat" where
  "shl_or_max k = (if k < 32 then 2 ^ k else u32_max)"

definition block :: "limiter \<Rightarrow> peer_key \<Rightarrow> nat \<Rightarrow> duration" where
  "block l key n =
     (if n < free_failures (lim_cfg l) then 0
      else
        let factor = shl_or_max (n - free_failures (lim_cfg l));
            limit = if shared key then shared_max_backoff (lim_cfg l) else max_backoff (lim_cfg l)
        in min (dur_saturating_mul (base (lim_cfg l)) factor) limit)"

definition refill :: "boot_instant \<Rightarrow> limiter \<Rightarrow> limiter" where
  "refill now l =
     (let burst = global_burst (lim_cfg l); period = global_refill (lim_cfg l) in
      if burst \<le> tokens l \<or> period = 0
      then l\<lparr>tokens := burst, refill_from := now, empty_logged := False\<rparr>
      else
        let periods = saturating_duration_since now (refill_from l) div period in
        if burst - tokens l \<le> periods
        then l\<lparr>tokens := burst, refill_from := now, empty_logged := False\<rparr>
        else if 0 < periods
        then l\<lparr>tokens := tokens l + periods,
               refill_from := saturating_add (refill_from l) (period * periods)\<rparr>
        else l)"

definition forget_stale :: "boot_instant \<Rightarrow> limiter \<Rightarrow> limiter" where
  "forget_stale now l =
     l\<lparr>slots := filter (\<lambda>s. saturating_duration_since now (last_failure s) < forget_after (lim_cfg l))
         (slots l)\<rparr>"

definition check :: "peer_key \<Rightarrow> boot_instant \<Rightarrow> limiter \<Rightarrow> admit \<times> limiter" where
  "check key now l0 =
     (let l = refill now (forget_stale now l0);
          wait = (if tokens l = 0
                  then saturating_duration_since
                         (saturating_add (refill_from l) (global_refill (lim_cfg l))) now
                  else 0);
          wait = (case find (\<lambda>s. slot_key s = key) (slots l) of
                    None \<Rightarrow> wait
                  | Some s \<Rightarrow> max wait
                      (saturating_duration_since
                        (saturating_add (last_failure s) (block l key (failures s))) now))
      in (if wait = 0 then Allow else Deny wait, l))"

definition add_slot :: "peer_key \<Rightarrow> boot_instant \<Rightarrow> limiter \<Rightarrow> limiter" where
  "add_slot key now l =
     (let kept = (if slots_max (lim_cfg l) \<le> length (slots l)
                  then (case min_index_by (\<lambda>_. True) last_failure (slots l) of
                          None \<Rightarrow> slots l
                        | Some i \<Rightarrow> swap_remove (slots l) i)
                  else slots l)
      in l\<lparr>slots := kept @ [\<lparr>slot_key = key, failures = 1, last_failure = now\<rparr>]\<rparr>)"

definition count_failure :: "boot_instant \<Rightarrow> slot \<Rightarrow> slot" where
  "count_failure now s = s\<lparr>failures := min (failures s + 1) u32_max, last_failure := now\<rparr>"

definition record_failure :: "peer_key \<Rightarrow> boot_instant \<Rightarrow> limiter \<Rightarrow> log_line option \<times> limiter" where
  "record_failure key now l0 =
     (let l = refill now l0;
          l = l\<lparr>tokens := tokens l - 1\<rparr>;
          l = forget_stale now l;
          (n, l) = (case find (\<lambda>s. slot_key s = key) (slots l) of
              Some s \<Rightarrow> (failures (count_failure now s),
                         l\<lparr>slots := update_first (\<lambda>s. slot_key s = key) (count_failure now) (slots l)\<rparr>)
            | None \<Rightarrow> (1, add_slot key now l))
      in if tokens l = 0 \<and> \<not> empty_logged l
         then (Some (Bucket_empty (ip key)), l\<lparr>empty_logged := True\<rparr>)
         else
           let minute = from_secs 60; b = block l key n in
           (if minute \<le> b \<and> block l key (n - 1) < minute
            then Some (Peer_blocked (ip key) (dur_as_secs b) n) else None, l))"

definition record_success :: "peer_key \<Rightarrow> limiter \<Rightarrow> limiter" where
  "record_success key l = l\<lparr>slots := filter (\<lambda>s. slot_key s \<noteq> key) (slots l)\<rparr>"

definition retry_after_secs :: "duration \<Rightarrow> nat" where
  "retry_after_secs d = max (dur_as_secs d + (if 0 < dur_subsec_nanos d then 1 else 0)) 1"

section \<open>Refilling and forgetting compose over time\<close>

lemma lim_cfg_refill [simp]: "lim_cfg (refill now l) = lim_cfg l"
  by (simp add: refill_def Let_def)

lemma slots_refill [simp]: "slots (refill now l) = slots l"
  by (simp add: refill_def Let_def)

lemma lim_cfg_forget_stale [simp]: "lim_cfg (forget_stale now l) = lim_cfg l"
  by (simp add: forget_stale_def)

lemma bucket_forget_stale [simp]:
  "tokens (forget_stale now l) = tokens l"
  "refill_from (forget_stale now l) = refill_from l"
  "empty_logged (forget_stale now l) = empty_logged l"
  by (simp_all add: forget_stale_def)

lemma block_cong: "lim_cfg l = lim_cfg l' \<Longrightarrow> block l = block l'"
  by (intro ext) (simp add: block_def)

lemma block_refill [simp]: "block (refill now l) = block l"
  by (rule block_cong) simp

lemma block_forget_stale [simp]: "block (forget_stale now l) = block l"
  by (rule block_cong) simp

lemma refill_forget_stale: "refill now (forget_stale t l) = forget_stale t (refill now l)"
  by (simp add: refill_def forget_stale_def Let_def)

lemma forget_stale_forget_stale: "t1 \<le> t \<Longrightarrow> forget_stale t (forget_stale t1 l) = forget_stale t l"
  by (auto simp: forget_stale_def saturating_duration_since_def intro!: arg_cong [where f = "\<lambda>x. l\<lparr>slots := x\<rparr>"] filter_cong)

lemma refill_cases:
  fixes l :: limiter
  assumes "refill_from l \<le> now" and "now \<le> dur_max"
  obtains
    (full) "global_burst (lim_cfg l) \<le> tokens l \<or> global_refill (lim_cfg l) = 0 \<or>
        (global_burst (lim_cfg l) - tokens l) * global_refill (lim_cfg l) \<le> now - refill_from l"
      "refill now l = l\<lparr>tokens := global_burst (lim_cfg l), refill_from := now, empty_logged := False\<rparr>"
  | (part) "tokens l < global_burst (lim_cfg l)" "0 < global_refill (lim_cfg l)"
      "(now - refill_from l) div global_refill (lim_cfg l) < global_burst (lim_cfg l) - tokens l"
      "refill now l = l\<lparr>tokens := tokens l + (now - refill_from l) div global_refill (lim_cfg l),
         refill_from := refill_from l + global_refill (lim_cfg l) * ((now - refill_from l) div global_refill (lim_cfg l))\<rparr>"
proof -
  define p where "p = global_refill (lim_cfg l)"
  define q where "q = (now - refill_from l) div p"
  have le: "p * q \<le> now - refill_from l" by (simp add: q_def)
  have exact: "saturating_add (refill_from l) (p * q) = refill_from l + p * q"
    using le assms by (intro saturating_add_exact) linarith
  show thesis
  proof (cases "global_burst (lim_cfg l) \<le> tokens l \<or> p = 0")
    case True
    then show thesis by (intro full) (auto simp: refill_def p_def Let_def)
  next
    case False
    show thesis
    proof (cases "global_burst (lim_cfg l) - tokens l \<le> q")
      case True
      then have "(global_burst (lim_cfg l) - tokens l) * p \<le> now - refill_from l"
        using False by (simp add: q_def less_eq_div_iff_mult_less_eq)
      with True False show thesis
        by (intro full) (auto simp: refill_def p_def q_def Let_def saturating_duration_since_def)
    next
      case lack: False
      show thesis
      proof (cases "q = 0")
        case True
        with lack False show thesis
          by (intro part) (auto simp: refill_def p_def q_def Let_def saturating_duration_since_def)
      next
        case pos: False
        with lack False exact show thesis
          by (intro part) (auto simp: refill_def p_def q_def Let_def saturating_duration_since_def)
      qed
    qed
  qed
qed

lemma refill_refill:
  assumes "refill_from l \<le> t1" and "t1 \<le> t" and "t \<le> dur_max"
  shows "refill t (refill t1 l) = refill t l"
  using assms(1) order_trans [OF assms(2,3)]
proof (cases rule: refill_cases)
  case full
  have "refill t l = l\<lparr>tokens := global_burst (lim_cfg l), refill_from := t, empty_logged := False\<rparr>"
  proof (cases "global_burst (lim_cfg l) \<le> tokens l \<or> global_refill (lim_cfg l) = 0")
    case True
    then show ?thesis by (simp add: refill_def Let_def)
  next
    case False
    with full(1) assms(2) have "(global_burst (lim_cfg l) - tokens l) * global_refill (lim_cfg l) \<le> t - refill_from l"
      by linarith
    with False have "global_burst (lim_cfg l) - tokens l \<le> (t - refill_from l) div global_refill (lim_cfg l)"
      by (simp add: less_eq_div_iff_mult_less_eq)
    then show ?thesis by (simp add: refill_def Let_def saturating_duration_since_def)
  qed
  with full(2) show ?thesis by (simp add: refill_def [of t "l\<lparr>tokens := _, refill_from := _, empty_logged := _\<rparr>"] Let_def)
next
  case part
  define p where "p = global_refill (lim_cfg l)"
  define q where "q = (t1 - refill_from l) div p"
  define r where "r = (t - refill_from l) div p"
  have p: "0 < p" using part by (simp add: p_def)
  have le: "p * q \<le> t1 - refill_from l" by (simp add: q_def)
  have "t - refill_from l = p * q + (t - (refill_from l + p * q))"
    using le assms(2) by linarith
  then have "r = (p * q + (t - (refill_from l + p * q))) div p"
    by (simp only: r_def)
  also have "\<dots> = q + (t - (refill_from l + p * q)) div p"
    using p by (simp only: div_mult_self4)
  finally have "r = q + (t - (refill_from l + p * q)) div p" .
  then have rest: "(t - (refill_from l + p * q)) div p = r - q" by simp
  have "q \<le> r" unfolding q_def r_def using assms(2) by (intro div_le_mono) simp
  have "p * r \<le> t - refill_from l" by (simp add: r_def)
  then have exact: "saturating_add (refill_from l) (p * r) = refill_from l + p * r"
    using assms p by (intro saturating_add_exact) linarith
  have exact2: "saturating_add (refill_from l + p * q) (p * (r - q)) = refill_from l + p * r"
  proof -
    have "refill_from l + p * q + p * (r - q) = refill_from l + p * r"
      using \<open>q \<le> r\<close> by (simp add: diff_mult_distrib2 flip: add_mult_distrib2)
    with exact show ?thesis by (simp add: saturating_add_def dur_saturating_add_def add.assoc)
  qed
  have part4: "refill t1 l = l\<lparr>tokens := tokens l + q, refill_from := refill_from l + p * q\<rparr>"
    using part(4) by (simp add: p_def q_def)
  have part3: "q < global_burst (lim_cfg l) - tokens l" using part(3) by (simp add: p_def q_def)
  define b where "b = global_burst (lim_cfg l)"
  have sides: "tokens l < b" "tokens l + q < b" "(b \<le> tokens l + q) = False" "(b \<le> tokens l) = False" "(p = 0) = False"
    using part(1) part3 p by (simp_all add: b_def)
  have bound: "(b - (tokens l + q) \<le> r - q) = (b - tokens l \<le> r)"
    using \<open>q \<le> r\<close> sides by arith
  have twice: "refill t (refill t1 l) =
      (if b - tokens l \<le> r then l\<lparr>tokens := b, refill_from := t, empty_logged := False\<rparr>
       else if 0 < r - q
       then l\<lparr>tokens := tokens l + q + (r - q), refill_from := refill_from l + p * r\<rparr>
       else l\<lparr>tokens := tokens l + q, refill_from := refill_from l + p * q\<rparr>)"
    unfolding part4 by (simp add: refill_def [of t] Let_def saturating_duration_since_def rest exact2 sides bound
        flip: p_def b_def)
  have once: "refill t l =
      (if b - tokens l \<le> r then l\<lparr>tokens := b, refill_from := t, empty_logged := False\<rparr>
       else if 0 < r then l\<lparr>tokens := tokens l + r, refill_from := refill_from l + p * r\<rparr> else l)"
    by (simp add: refill_def [of t l] Let_def saturating_duration_since_def exact sides flip: p_def b_def r_def)
  show ?thesis
  proof (cases "r = q")
    case True
    then show ?thesis unfolding twice once by simp
  next
    case False
    with \<open>q \<le> r\<close> show ?thesis unfolding twice once by simp
  qed
qed

section \<open>What a check answers\<close>

lemma snd_check: "snd (check key now l) = refill now (forget_stale now l)"
  by (simp add: check_def Let_def)

lemma lim_cfg_check [simp]: "lim_cfg (snd (check key now l)) = lim_cfg l"
  by (simp add: snd_check)

definition bucket_wait :: "boot_instant \<Rightarrow> limiter \<Rightarrow> duration" where
  "bucket_wait now l =
     (if tokens l = 0 then saturating_add (refill_from l) (global_refill (lim_cfg l)) - now else 0)"

definition peer_wait :: "peer_key \<Rightarrow> boot_instant \<Rightarrow> limiter \<Rightarrow> duration" where
  "peer_wait key now l =
     (case find (\<lambda>s. slot_key s = key) (slots l) of
        None \<Rightarrow> 0
      | Some s \<Rightarrow> saturating_add (last_failure s) (block l key (failures s)) - now)"

lemma fst_check:
  "fst (check key now l) =
     (let l' = refill now (forget_stale now l); w = max (bucket_wait now l') (peer_wait key now l')
      in if w = 0 then Allow else Deny w)"
  by (simp add: check_def Let_def bucket_wait_def peer_wait_def saturating_duration_since_def less_max_iff_disj
      split: option.splits)

text \<open>A check leaves no trace: an earlier one, of whichever peer, changes nothing a later one says or leaves.\<close>

lemma check_after_check:
  assumes "refill_from l \<le> t1" and "t1 \<le> t" and "t \<le> dur_max"
  shows "check key t (snd (check key' t1 l)) = check key t l"
proof -
  have "refill t (forget_stale t (snd (check key' t1 l))) = refill t (forget_stale t l)"
    using assms
    by (simp add: snd_check refill_forget_stale forget_stale_forget_stale refill_refill)
  then show ?thesis by (simp add: check_def)
qed

definition config_ok :: "limiter_config \<Rightarrow> bool" where
  "config_ok c \<longleftrightarrow> max_backoff c \<le> forget_after c \<and> shared_max_backoff c \<le> forget_after c"

definition max_block :: "limiter_config \<Rightarrow> duration" where
  "max_block c = max (max_backoff c) (shared_max_backoff c)"

lemma block_le: "block l key n \<le> max_block (lim_cfg l)"
  by (auto simp: block_def max_block_def Let_def)

definition limiter_inv :: "boot_instant \<Rightarrow> limiter \<Rightarrow> bool" where
  "limiter_inv now l \<longleftrightarrow>
     distinct (map slot_key (slots l)) \<and>
     list_all (\<lambda>s. 1 \<le> failures s \<and> failures s \<le> u32_max \<and> last_failure s \<le> now) (slots l) \<and>
     length (slots l) \<le> max 1 (slots_max (lim_cfg l)) \<and>
     tokens l \<le> global_burst (lim_cfg l) \<and> refill_from l \<le> now"

lemma limiter_inv_new: "limiter_inv now (limiter_new c now)"
  by (simp add: limiter_inv_def limiter_new_def)

lemma limiter_inv_later: "limiter_inv t1 l \<Longrightarrow> t1 \<le> t \<Longrightarrow> limiter_inv t l"
  by (force simp: limiter_inv_def list_all_iff)

lemma limiter_inv_forget_stale: "limiter_inv now l \<Longrightarrow> limiter_inv now (forget_stale t l)"
  by (auto simp: limiter_inv_def forget_stale_def list_all_iff distinct_map_filter
      intro: order_trans [OF length_filter_le])

lemma limiter_inv_refill:
  assumes "limiter_inv now l" and "now \<le> dur_max"
  shows "limiter_inv now (refill now l)"
proof -
  from assms(1) have "refill_from l \<le> now" by (simp add: limiter_inv_def)
  from this assms(2) show ?thesis
  proof (cases rule: refill_cases)
    case full
    with assms(1) show ?thesis by (simp add: limiter_inv_def)
  next
    case part
    have "global_refill (lim_cfg l) * ((now - refill_from l) div global_refill (lim_cfg l)) \<le> now - refill_from l"
      by simp
    then have "refill_from l + global_refill (lim_cfg l) * ((now - refill_from l) div global_refill (lim_cfg l)) \<le> now"
      using \<open>refill_from l \<le> now\<close> by linarith
    moreover have "tokens l + (now - refill_from l) div global_refill (lim_cfg l) \<le> global_burst (lim_cfg l)"
      using part(1,3) by linarith
    ultimately show ?thesis using part(4) assms(1) by (simp add: limiter_inv_def)
  qed
qed

lemma limiter_inv_check:
  "limiter_inv now l \<Longrightarrow> now \<le> dur_max \<Longrightarrow> limiter_inv now (snd (check key now l))"
  by (simp add: snd_check limiter_inv_refill limiter_inv_forget_stale)

lemma limiter_inv_record_success: "limiter_inv now l \<Longrightarrow> limiter_inv now (record_success key l)"
  by (auto simp: limiter_inv_def record_success_def list_all_iff distinct_map_filter
      intro: order_trans [OF length_filter_le])

lemma map_key_update_first: "map slot_key (update_first p (count_failure now) xs) = map slot_key xs"
  by (induction xs) (auto simp: count_failure_def)

lemma find_key_None_iff: "find (\<lambda>s. slot_key s = key) xs = None \<longleftrightarrow> key \<notin> set (map slot_key xs)"
  by (induction xs) auto

lemma lim_cfg_add_slot [simp]: "lim_cfg (add_slot key now l) = lim_cfg l"
  by (simp add: add_slot_def Let_def)

section \<open>What a wrong password changes\<close>

definition live_slots :: "boot_instant \<Rightarrow> limiter \<Rightarrow> slot list" where
  "live_slots now l = slots (forget_stale now l)"

definition failures_of :: "peer_key \<Rightarrow> slot list \<Rightarrow> nat" where
  "failures_of key ss = (case find (\<lambda>s. slot_key s = key) ss of None \<Rightarrow> 0 | Some s \<Rightarrow> failures s)"

lemma record_failure_parts:
  fixes key now l
  defines "l' \<equiv> snd (record_failure key now l)"
  shows "lim_cfg l' = lim_cfg l"
    and "tokens l' = tokens (refill now l) - 1"
    and "refill_from l' = refill_from (refill now l)"
    and "slots l' = (if failures_of key (live_slots now l) = 0 \<and> find (\<lambda>s. slot_key s = key) (live_slots now l) = None
           then slots (add_slot key now (forget_stale now l))
           else update_first (\<lambda>s. slot_key s = key) (count_failure now) (live_slots now l))"
  by (auto simp: l'_def record_failure_def Let_def live_slots_def failures_of_def add_slot_def forget_stale_def
      split: option.splits)

lemma slots_add_slot_inv:
  assumes "distinct (map slot_key ss)" and "list_all P ss" and "length ss \<le> max 1 n"
    and "key \<notin> set (map slot_key ss)" and "P \<lparr>slot_key = key, failures = 1, last_failure = now\<rparr>"
    and "slots l = ss" and "slots_max (lim_cfg l) = n"
  shows "distinct (map slot_key (slots (add_slot key now l))) \<and> list_all P (slots (add_slot key now l)) \<and>
         length (slots (add_slot key now l)) \<le> max 1 n"
proof (cases "n \<le> length ss")
  case False
  with assms show ?thesis by (auto simp: add_slot_def Let_def)
next
  case True
  show ?thesis
  proof (cases "min_index_by (\<lambda>_. True) last_failure ss")
    case None
    then have "\<forall>x \<in> set ss. \<not> True" by (simp only: min_index_by_None_iff)
    then have "ss = []" by (cases ss) auto
    with assms show ?thesis by (auto simp: add_slot_def Let_def)
  next
    case (Some i)
    then have i: "i < length ss" by (simp add: min_index_by_SomeD)
    then have sub: "set (swap_remove ss i) \<subseteq> set ss" by (rule set_swap_remove_subset)
    have "slots (add_slot key now l) =
        swap_remove ss i @ [\<lparr>slot_key = key, failures = 1, last_failure = now\<rparr>]"
      using Some True assms(6,7) by (simp add: add_slot_def Let_def)
    moreover have "distinct (map slot_key (swap_remove ss i))"
      using assms(1) i by (rule distinct_map_swap_remove)
    moreover have "list_all P (swap_remove ss i)"
      using assms(2) sub by (auto simp: list_all_iff)
    moreover have "key \<notin> set (map slot_key (swap_remove ss i))"
      using assms(4) sub by auto
    ultimately show ?thesis
      using assms(3,5) i by auto
  qed
qed

lemma limiter_inv_record_failure:
  assumes "limiter_inv now l" and "now \<le> dur_max"
  shows "limiter_inv now (snd (record_failure key now l))"
proof -
  let ?P = "\<lambda>s. 1 \<le> failures s \<and> failures s \<le> u32_max \<and> last_failure s \<le> now"
  have f: "limiter_inv now (forget_stale now l)"
    using assms(1) by (rule limiter_inv_forget_stale)
  have r: "limiter_inv now (refill now l)"
    using assms by (rule limiter_inv_refill)
  let ?ss = "slots (snd (record_failure key now l))"
  have "distinct (map slot_key ?ss) \<and> list_all ?P ?ss \<and> length ?ss \<le> max 1 (slots_max (lim_cfg l))"
  proof (cases "find (\<lambda>s. slot_key s = key) (live_slots now l) = None")
    case True
    have "key \<notin> set (map slot_key (slots (forget_stale now l)))"
      using True unfolding live_slots_def find_key_None_iff .
    with f have "distinct (map slot_key (slots (add_slot key now (forget_stale now l)))) \<and>
        list_all ?P (slots (add_slot key now (forget_stale now l))) \<and>
        length (slots (add_slot key now (forget_stale now l))) \<le> max 1 (slots_max (lim_cfg l))"
      by (intro slots_add_slot_inv) (simp_all add: limiter_inv_def u32_max_def)
    with True show ?thesis
      by (simp only: record_failure_parts(4) failures_of_def) simp
  next
    case False
    with f show ?thesis
      by (auto simp: record_failure_parts(4) live_slots_def limiter_inv_def map_key_update_first count_failure_def
          u32_max_def intro!: list_all_update_first elim: list.pred_mono_strong)
  qed
  moreover have "tokens (refill now l) - 1 \<le> global_burst (lim_cfg l)" and "refill_from (refill now l) \<le> now"
    using r by (auto simp: limiter_inv_def)
  ultimately show ?thesis
    by (simp only: limiter_inv_def record_failure_parts(1,2,3))
qed

text \<open>The state a wrong password leaves: its peer's slot is counted up and dated now.\<close>

lemma find_add_slot:
  assumes "find (\<lambda>s. slot_key s = key) (slots l) = None"
  shows "find (\<lambda>s. slot_key s = key) (slots (add_slot key now l)) =
    Some \<lparr>slot_key = key, failures = 1, last_failure = now\<rparr>"
proof -
  have "find (\<lambda>s. slot_key s = key) (swap_remove (slots l) i) = None" if "i < length (slots l)" for i
    using assms set_swap_remove_subset [OF that] by (auto simp: find_None_iff)
  with assms show ?thesis
    by (auto simp: add_slot_def Let_def find_append dest: min_index_by_SomeD split: option.split)
qed

lemma find_after_failure:
  assumes "limiter_inv now l"
  shows "\<exists>s. find (\<lambda>s. slot_key s = key) (slots (snd (record_failure key now l))) = Some s \<and>
     failures s = min (failures_of key (live_slots now l) + 1) u32_max \<and> last_failure s = now"
proof (cases "find (\<lambda>s. slot_key s = key) (live_slots now l)")
  case None
  then have "find (\<lambda>s. slot_key s = key) (slots (add_slot key now (forget_stale now l))) =
      Some \<lparr>slot_key = key, failures = 1, last_failure = now\<rparr>"
    by (intro find_add_slot) (simp add: live_slots_def)
  with None show ?thesis
    by (simp add: record_failure_parts(4) failures_of_def u32_max_def)
next
  case (Some s)
  have "find (\<lambda>s. slot_key s = key) (update_first (\<lambda>s. slot_key s = key) (count_failure now) (live_slots now l)) =
      Some (count_failure now s)"
    using Some by (subst find_update_first) (simp_all add: count_failure_def)
  with Some show ?thesis
    by (simp add: record_failure_parts(4) failures_of_def count_failure_def)
qed

section \<open>Refusals end by themselves\<close>

lemma deny_bound:
  assumes "limiter_inv now l" and "now \<le> dur_max" and "fst (check key now l) = Deny w"
  shows "w \<le> max (global_refill (lim_cfg l)) (max_block (lim_cfg l))"
proof -
  define l' where "l' = refill now (forget_stale now l)"
  have inv: "limiter_inv now l'"
    unfolding l'_def using assms(1,2) by (intro limiter_inv_refill limiter_inv_forget_stale)
  have w: "w = max (bucket_wait now l') (peer_wait key now l')"
    using assms(3) by (auto simp: fst_check Let_def l'_def split: if_splits)
  have cfg: "lim_cfg l' = lim_cfg l" by (simp add: l'_def)
  have "saturating_add (refill_from l') (global_refill (lim_cfg l')) - now \<le> global_refill (lim_cfg l)"
    using inv saturating_add_le_plus [of "refill_from l'" "global_refill (lim_cfg l')"]
    unfolding limiter_inv_def cfg by linarith
  then have "bucket_wait now l' \<le> global_refill (lim_cfg l)"
    by (simp add: bucket_wait_def cfg)
  moreover have "peer_wait key now l' \<le> max_block (lim_cfg l)"
  proof (cases "find (\<lambda>s. slot_key s = key) (slots l')")
    case (Some s)
    then have "s \<in> set (slots l')" by (auto simp: find_Some_iff)
    with inv have "last_failure s \<le> now" by (simp add: limiter_inv_def list_all_iff)
    moreover have "block l' key (failures s) \<le> max_block (lim_cfg l)"
      using block_le [of l'] cfg by simp
    ultimately show ?thesis
      using Some saturating_add_le_plus [of "last_failure s" "block l' key (failures s)"]
      by (simp add: peer_wait_def)
  qed (simp add: peer_wait_def)
  ultimately show ?thesis unfolding w by (intro max.mono)
qed

lemma find_distinct_key:
  "distinct (map slot_key ss) \<Longrightarrow> s \<in> set ss \<Longrightarrow> find (\<lambda>x. slot_key x = slot_key s) ss = Some s"
  by (induction ss) (auto simp: image_iff)

lemma refilled_when_due:
  assumes "refill_from l \<le> now" and "now \<le> dur_max" and "0 < global_burst (lim_cfg l)"
    and "0 < tokens l \<or> saturating_add (refill_from l) (global_refill (lim_cfg l)) \<le> now" and "now < dur_max"
  shows "0 < tokens (refill now l)"
  using assms(1,2)
proof (cases rule: refill_cases)
  case full
  with assms(3) show ?thesis by simp
next
  case part
  have "refill_from l + global_refill (lim_cfg l) \<le> now \<or> 0 < tokens l"
    using assms(4,5) by (auto simp: saturating_add_def dur_saturating_add_def)
  then have "0 < tokens l + (now - refill_from l) div global_refill (lim_cfg l)"
    using part(2) by (auto simp: div_greater_zero_iff)
  with part(4) show ?thesis by simp
qed

lemma deny_ends:
  assumes "limiter_inv now l" and "0 < global_burst (lim_cfg l)"
    and "fst (check key now l) = Deny w" and "now + w < dur_max"
  shows "fst (check key (now + w) (snd (check key' now l))) = Allow"
proof -
  define l' where "l' = refill now (forget_stale now l)"
  have le: "now \<le> dur_max" using assms(4) by simp
  have inv: "limiter_inv now l'"
    unfolding l'_def using assms(1) le by (intro limiter_inv_refill limiter_inv_forget_stale)
  have w: "w = max (bucket_wait now l') (peer_wait key now l')"
    using assms(3) by (auto simp: fst_check Let_def l'_def split: if_splits)
  define l2 where "l2 = refill (now + w) (forget_stale (now + w) l')"
  have "0 < tokens l2"
    unfolding l2_def using inv assms(2,4) w
    by (intro refilled_when_due) (auto simp: limiter_inv_def l'_def bucket_wait_def split: if_splits)
  moreover have "peer_wait key (now + w) l2 = 0"
  proof (cases "find (\<lambda>s. slot_key s = key) (slots l2)")
    case (Some s)
    have "slots l2 = filter (\<lambda>s. now + w - last_failure s < forget_after (lim_cfg l)) (slots l')"
      by (simp add: l2_def l'_def forget_stale_def saturating_duration_since_def)
    moreover have "s \<in> set (slots l2)" and key: "slot_key s = key"
      using Some by (auto simp: find_Some_iff)
    ultimately have "s \<in> set (slots l')" by simp
    then have "find (\<lambda>s. slot_key s = key) (slots l') = Some s"
      using inv find_distinct_key [of "slots l'" s] by (simp add: limiter_inv_def key)
    then have "saturating_add (last_failure s) (block l' key (failures s)) - now \<le> w"
      using w by (simp add: peer_wait_def)
    then show ?thesis
      using Some by (simp add: peer_wait_def l2_def)
  qed (simp add: peer_wait_def)
  ultimately show ?thesis
    by (simp add: fst_check snd_check bucket_wait_def Let_def flip: l'_def l2_def)
qed

text \<open>Any number of attempts that end at the check, as refused ones do, by any peers and in the order of their times.\<close>

definition attempts :: "(peer_key \<times> boot_instant) list \<Rightarrow> limiter \<Rightarrow> limiter" where
  "attempts ks l = fold (\<lambda>(key, t) l. snd (check key t l)) ks l"

lemma check_after_attempts:
  "limiter_inv now l \<Longrightarrow> sorted (now # map snd ks @ [t]) \<Longrightarrow> t \<le> dur_max \<Longrightarrow>
     check key t (attempts ks l) = check key t l"
proof (induction ks arbitrary: now l)
  case (Cons k ks)
  obtain peer s where k: "k = (peer, s)" by fastforce
  with Cons.prems have s: "now \<le> s" "s \<le> t" "sorted (s # map snd ks @ [t])" by auto
  have inv: "limiter_inv s l" using Cons.prems(1) s(1) by (rule limiter_inv_later)
  then have "limiter_inv s (snd (check peer s l))" using s(2) Cons.prems(3) by (intro limiter_inv_check) auto
  from Cons.IH [OF this s(3) Cons.prems(3)] have "check key t (attempts ks (snd (check peer s l))) = check key t (snd (check peer s l))" .
  also have "\<dots> = check key t l" using inv s(2) Cons.prems(3) by (intro check_after_check) (auto simp: limiter_inv_def)
  finally show ?case by (simp add: attempts_def k)
qed (simp add: attempts_def)

text \<open>
  A refused login is told a wait that is never longer than the longest block (or the bucket's
  refill period), and after exactly that wait the peer is admitted, however many attempts, by whichever
  peers and at whatever times, were refused in between: refused attempts are not counted and never extend a block.
\<close>

theorem refusal_ends:
  assumes "limiter_inv now l" and "0 < global_burst (lim_cfg l)"
    and "fst (check key now l) = Deny w" and "now + w < dur_max"
    and "sorted (now # map snd ks @ [now + w])"
  shows "w \<le> max (global_refill (lim_cfg l)) (max_block (lim_cfg l)) \<and>
    fst (check key (now + w) (attempts ks (snd (check key now l)))) = Allow"
proof
  show "w \<le> max (global_refill (lim_cfg l)) (max_block (lim_cfg l))"
    using assms(1,3,4) by (intro deny_bound [of now]) auto
  have "limiter_inv now (snd (check key now l))"
    using assms(1,4) by (intro limiter_inv_check) auto
  from check_after_attempts [OF this assms(5)] assms(4)
  show "fst (check key (now + w) (attempts ks (snd (check key now l)))) = Allow"
    using deny_ends [OF assms(1-4)] by simp
qed

text \<open>The example: a peer's fifth wrong password in a row, and a retry within the second.\<close>

definition five_failures :: limiter where
  "five_failures = (limiter_new default_limiter_config 0)\<lparr>
     slots := [\<lparr>slot_key = V4 [10, 0, 0, 1], failures = 5, last_failure = 0\<rparr>], tokens := 25\<rparr>"

lemma five_failures_inv: "limiter_inv 0 five_failures"
  by (simp add: five_failures_def limiter_inv_def limiter_new_def default_limiter_config_def u32_max_def)

lemma five_failures_refused: "fst (check (V4 [10, 0, 0, 1]) 0 five_failures) = Deny (from_secs 1)"
  by (simp add: fst_check Let_def five_failures_def refill_def forget_stale_def limiter_new_def
      default_limiter_config_def bucket_wait_def peer_wait_def block_def shl_or_max_def shared_def from_secs_def
      saturating_duration_since_def saturating_add_def dur_saturating_add_def dur_saturating_mul_def dur_max_def)

theorem refusal_ends_witness:
  "fst (check (V4 [10, 0, 0, 1]) (from_secs 1)
     (attempts [(V4 [10, 0, 0, 1], 200000000), (V4 [10, 0, 0, 2], 500000000), (V4 [10, 0, 0, 1], 900000000)]
       (snd (check (V4 [10, 0, 0, 1]) 0 five_failures)))) = Allow"
  using refusal_ends [OF five_failures_inv _ five_failures_refused,
      of "[(V4 [10, 0, 0, 1], 200000000), (V4 [10, 0, 0, 2], 500000000), (V4 [10, 0, 0, 1], 900000000)]"]
  by (simp add: five_failures_def limiter_new_def default_limiter_config_def from_secs_def dur_max_def)

section \<open>The schedule of blocks\<close>

lemma empty_bucket_waits:
  assumes "refill_from l \<le> t" and "t < dur_max" and "0 < global_refill (lim_cfg l)"
  shows "bucket_wait t (refill t l) = 0 \<longleftrightarrow> 0 < tokens (refill t l)"
proof -
  from assms have "refill_from l \<le> t" "t \<le> dur_max" by simp_all
  then have "tokens (refill t l) = 0 \<Longrightarrow> t < refill_from (refill t l) + global_refill (lim_cfg l)"
  proof (cases rule: refill_cases)
    case full
    with assms(3) show ?thesis by simp
  next
    case part
    assume "tokens (refill t l) = 0"
    with part have "(t - refill_from l) div global_refill (lim_cfg l) = 0" by simp
    then have "t - refill_from l < global_refill (lim_cfg l)"
      using assms(3) by (simp add: div_eq_0_iff)
    with part assms(1) show ?thesis by simp
  qed
  with assms(2) show ?thesis
    by (auto simp: bucket_wait_def saturating_add_def dur_saturating_add_def)
qed

lemma find_filter_key:
  assumes "distinct (map slot_key ss)" and "find (\<lambda>s. slot_key s = key) ss = Some s"
  shows "find (\<lambda>s. slot_key s = key) (filter P ss) = (if P s then Some s else None)"
  using assms by (induction ss) (auto simp: find_None_iff split: if_splits, metis image_eqI)

lemma block_shift:
  assumes "free_failures (lim_cfg l) \<le> n" and "n < free_failures (lim_cfg l) + 32"
    and "max_block (lim_cfg l) \<le> dur_max"
  shows "block l key n = min (base (lim_cfg l) * 2 ^ (n - free_failures (lim_cfg l)))
     (if shared key then shared_max_backoff (lim_cfg l) else max_backoff (lim_cfg l))"
  using assms by (auto simp: block_def shl_or_max_def dur_saturating_mul_def max_block_def Let_def min_def)

text \<open>
  A wrong password blocks its peer for the block of its new failure count and no longer: the next
  attempt is admitted exactly when that time has passed and the shared bucket is not empty. There is
  no block below the free failures; from there it is the base doubled with every further failure, up
  to the cap (a lower one for the loopback address, which all tailnet clients share).
\<close>

theorem wrong_password_blocks:
  assumes "limiter_inv now l" and "config_ok (lim_cfg l)" and "0 < global_refill (lim_cfg l)"
    and "now \<le> t" and "t < dur_max" and "now + max_block (lim_cfg l) \<le> dur_max"
    and "n = min (failures_of key (live_slots now l) + 1) u32_max"
  shows "(fst (check key t (snd (record_failure key now l))) = Allow \<longleftrightarrow>
       now + block l key n \<le> t \<and> 0 < tokens (refill t (snd (record_failure key now l)))) \<and>
    (n < free_failures (lim_cfg l) \<longrightarrow> block l key n = 0) \<and>
    (free_failures (lim_cfg l) \<le> n \<and> n < free_failures (lim_cfg l) + 32 \<longrightarrow>
       block l key n = min (base (lim_cfg l) * 2 ^ (n - free_failures (lim_cfg l)))
         (if shared key then shared_max_backoff (lim_cfg l) else max_backoff (lim_cfg l)))"
proof -
  define l' where "l' = snd (record_failure key now l)"
  have cfg: "lim_cfg l' = lim_cfg l" by (simp add: l'_def record_failure_parts)
  then have blk: "block l' = block l" by (rule block_cong)
  have inv: "limiter_inv now l'"
    unfolding l'_def using assms(1,4,5) by (intro limiter_inv_record_failure) auto
  obtain s where s: "find (\<lambda>s. slot_key s = key) (slots l') = Some s" "failures s = n" "last_failure s = now"
    using find_after_failure [OF assms(1), of key] assms(7) unfolding l'_def by blast
  have le: "block l key n \<le> max_block (lim_cfg l)" by (rule block_le)
  then have exact: "saturating_add now (block l key n) = now + block l key n"
    using assms(6) by (intro saturating_add_exact) linarith
  have keep: "now + block l key n \<le> t" if "\<not> t - now < forget_after (lim_cfg l)"
    using that le assms(2,4) by (auto simp: config_ok_def max_block_def)
  have "peer_wait key t (refill t (forget_stale t l')) = 0 \<longleftrightarrow> now + block l key n \<le> t"
    using inv s exact keep
    by (auto simp: peer_wait_def forget_stale_def saturating_duration_since_def cfg blk limiter_inv_def
        find_filter_key block_cong [of "l'\<lparr>slots := _\<rparr>" l'])
  moreover have "bucket_wait t (refill t (forget_stale t l')) = 0 \<longleftrightarrow> 0 < tokens (refill t l')"
    using empty_bucket_waits [of "forget_stale t l'" t] inv assms(3,4,5)
    by (simp add: cfg limiter_inv_def refill_forget_stale)
  ultimately have "fst (check key t l') = Allow \<longleftrightarrow> now + block l key n \<le> t \<and> 0 < tokens (refill t l')"
    by (auto simp: fst_check Let_def)
  moreover have "max_block (lim_cfg l) \<le> dur_max" using assms(6) by simp
  ultimately show ?thesis
    using block_shift [of l n key] by (auto simp: l'_def block_def)
qed

theorem wrong_password_blocks_witness:
  "fst (check (V4 [10, 0, 0, 1]) (from_secs 2) (snd (record_failure (V4 [10, 0, 0, 1]) 0 five_failures))) = Allow"
proof -
  have cfg: "lim_cfg five_failures = default_limiter_config"
    by (simp add: five_failures_def limiter_new_def)
  have six: "failures_of (V4 [10, 0, 0, 1]) (live_slots 0 five_failures) = 5"
    by (simp add: live_slots_def forget_stale_def five_failures_def failures_of_def cfg [unfolded five_failures_def]
        saturating_duration_since_def limiter_new_def default_limiter_config_def from_secs_def)
  have "block five_failures (V4 [10, 0, 0, 1]) 6 = from_secs 2"
    by (simp add: block_def cfg default_limiter_config_def shl_or_max_def shared_def from_secs_def
        dur_saturating_mul_def dur_max_def)
  moreover have "0 < tokens (refill (from_secs 2) (snd (record_failure (V4 [10, 0, 0, 1]) 0 five_failures)))"
    by (simp add: refill_def record_failure_parts Let_def cfg default_limiter_config_def from_secs_def)
      (simp add: five_failures_def limiter_new_def default_limiter_config_def)
  ultimately show ?thesis
    using wrong_password_blocks [OF five_failures_inv, of "from_secs 2" 6 "V4 [10, 0, 0, 1]"]
    by (simp add: cfg six config_ok_def default_limiter_config_def from_secs_def dur_max_def max_block_def u32_max_def)
qed

section \<open>The bucket bounds the wrong passwords tried\<close>

text \<open>
  With \<open>n\<close> wrong passwords counted since \<open>t0\<close>, those and the failures the bucket can still take never
  exceed its burst and one per refill period.
\<close>

definition limiter_credit :: "boot_instant \<Rightarrow> nat \<Rightarrow> limiter \<Rightarrow> bool" where
  "limiter_credit t0 n l \<longleftrightarrow>
     t0 \<le> refill_from l \<and>
     (n + tokens l) * global_refill (lim_cfg l)
       \<le> global_burst (lim_cfg l) * global_refill (lim_cfg l) + (refill_from l - t0)"

lemma credit_new: "limiter_credit t0 0 (limiter_new c t0)"
  by (simp add: limiter_credit_def limiter_new_def)

lemma credit_forget_stale [simp]: "limiter_credit t0 n (forget_stale now l) = limiter_credit t0 n l"
  by (simp add: limiter_credit_def)

lemma credit_refill:
  assumes "limiter_credit t0 n l" and "refill_from l \<le> now" and "now \<le> dur_max" and "tokens l \<le> global_burst (lim_cfg l)"
  shows "limiter_credit t0 n (refill now l)"
  using assms(2,3)
proof (cases rule: refill_cases)
  case full
  let ?b = "global_burst (lim_cfg l)" and ?p = "global_refill (lim_cfg l)"
  have t0: "t0 \<le> refill_from l" and c: "(n + tokens l) * ?p \<le> ?b * ?p + (refill_from l - t0)"
    using assms(1) by (auto simp: limiter_credit_def)
  have "(n + ?b) * ?p \<le> ?b * ?p + (now - t0)"
    using full(1)
  proof (elim disjE)
    assume "?b \<le> tokens l"
    then have "(n + ?b) * ?p \<le> (n + tokens l) * ?p" by simp
    with c assms(2) show ?thesis by linarith
  next
    assume le: "(?b - tokens l) * ?p \<le> now - refill_from l"
    have "(n + ?b) * ?p = (n + tokens l) * ?p + (?b - tokens l) * ?p"
      using assms(4) by (simp flip: add_mult_distrib)
    with c le t0 assms(2) show ?thesis by linarith
  qed simp
  with full(2) t0 assms(2) show ?thesis by (simp add: limiter_credit_def)
next
  case part
  define x where "x = global_refill (lim_cfg l) * ((now - refill_from l) div global_refill (lim_cfg l))"
  have "(n + (tokens l + (now - refill_from l) div global_refill (lim_cfg l))) * global_refill (lim_cfg l) =
      (n + tokens l) * global_refill (lim_cfg l) + x"
    by (simp add: x_def algebra_simps)
  moreover have "refill_from (refill now l) = refill_from l + x"
    using part(4) by (simp add: x_def)
  moreover have "tokens (refill now l) = tokens l + (now - refill_from l) div global_refill (lim_cfg l)"
    using part(4) by simp
  moreover have "A + x \<le> B + (r + x - t0)" if "t0 \<le> r" "A \<le> B + (r - t0)" for A B r :: nat
    using that by arith
  ultimately show ?thesis
    using assms(1) unfolding limiter_credit_def by (elim conjE) (simp del: add_mult_distrib)
qed

lemma credit_check:
  assumes "limiter_credit t0 n l" and "limiter_inv now l" and "now \<le> dur_max"
  shows "limiter_credit t0 n (snd (check key now l))"
  unfolding snd_check
  by (rule credit_refill) (use assms in \<open>auto simp: limiter_inv_def\<close>)

lemma credit_record_success [simp]: "limiter_credit t0 n (record_success key l) = limiter_credit t0 n l"
  by (simp add: limiter_credit_def record_success_def)

lemma allowed_has_token:
  assumes "limiter_inv now l" and "now < dur_max" and "0 < global_refill (lim_cfg l)"
    and "fst (check key now l) = Allow"
  shows "0 < tokens (snd (check key now l))"
  using assms empty_bucket_waits [of "forget_stale now l" now]
  by (auto simp: fst_check snd_check Let_def limiter_inv_def split: if_splits)

lemma credit_record_failure:
  assumes "limiter_credit t0 n l" and "limiter_inv now l" and "now < dur_max" and "0 < global_refill (lim_cfg l)"
    and "fst (check key now l) = Allow"
  shows "limiter_credit t0 (Suc n) (snd (record_failure key now (snd (check key now l))))"
proof -
  let ?l = "snd (check key now l)"
  have inv: "limiter_inv now ?l" using assms(2,3) by (intro limiter_inv_check) auto
  have "refill now ?l = ?l"
    using assms(2,3) by (simp add: snd_check refill_forget_stale refill_refill limiter_inv_def)
  moreover have "0 < tokens ?l" using assms(2-5) by (rule allowed_has_token)
  moreover have "limiter_credit t0 n ?l" using assms(1-3) by (intro credit_check) auto
  ultimately show ?thesis
    unfolding limiter_credit_def record_failure_parts by (elim conjE) simp
qed

lemma credit_bound:
  assumes "limiter_credit t0 n l" and "limiter_inv now l"
  shows "n * global_refill (lim_cfg l) \<le> global_burst (lim_cfg l) * global_refill (lim_cfg l) + (now - t0)"
proof -
  have "n * global_refill (lim_cfg l) \<le> (n + tokens l) * global_refill (lim_cfg l)" by simp
  with assms show ?thesis unfolding limiter_credit_def limiter_inv_def by linarith
qed

end
