(* ===== verification/Session_Table.thy ===== *)
theory Session_Table
  imports Login_Limiter
begin

text \<open>
  \<open>src/zte-agent/src/auth/table.rs\<close>, with the types of \<open>auth/mod.rs\<close> it is about: the bounded table of
  sessions, its lazy pruning and the ring of the ids pruned last. A session id (a \<open>u64\<close> counted up
  from 1) is a number.

  \<open>session_store\<close> is the interface the rest of \<open>auth\<close> relies on, a map from a kind and a token digest to
  the session; the table is shown to provide it. The lemmas also show the bounds of the table and
  that a prune drops exactly what is past its deadline and remembers all of it.
\<close>

section \<open>Data\<close>

datatype kind = Bearer | Browser

type_synonym session_id = nat

record policy =
  idle :: duration
  absolute :: duration
  cap :: nat

record auth_config =
  bearer :: policy
  browser :: policy
  login_form_ttl :: duration
  limiter_cfg :: limiter_config

fun policy_of :: "auth_config \<Rightarrow> kind \<Rightarrow> policy" where
  "policy_of cfg Bearer = bearer cfg"
| "policy_of cfg Browser = browser cfg"

definition default_auth_config :: auth_config where
  "default_auth_config =
     \<lparr>bearer = \<lparr>idle = from_secs 3600, absolute = from_secs (24 * 3600), cap = 32\<rparr>,
      browser = \<lparr>idle = from_secs (12 * 3600), absolute = from_secs (7 * 24 * 3600), cap = 16\<rparr>,
      login_form_ttl = from_secs (15 * 60), limiter_cfg = default_limiter_config\<rparr>"

record entry =
  ent_id :: session_id
  ent_kind :: kind
  ent_digest :: bytes
  ent_csrf :: bytes
  created :: boot_instant
  last_used :: boot_instant

definition deadline :: "auth_config \<Rightarrow> entry \<Rightarrow> boot_instant" where
  "deadline cfg e =
     (let p = policy_of cfg (ent_kind e)
      in min (saturating_add (last_used e) (idle p)) (saturating_add (created e) (absolute p)))"

record session_table =
  entries :: "entry list"
  next_id :: session_id
  recent_expired :: "session_id option list"
  ring_pos :: nat

section \<open>Operations\<close>

definition table_new :: "auth_config \<Rightarrow> session_table" where
  "table_new cfg =
     \<lparr>entries = [], next_id = 1,
      recent_expired = replicate (max (cap (bearer cfg) + cap (browser cfg)) 1) None, ring_pos = 0\<rparr>"

definition alloc_id :: "session_table \<Rightarrow> session_id \<times> session_table" where
  "alloc_id t = (next_id t, t\<lparr>next_id := next_id t + 1\<rparr>)"

definition push_expired :: "session_id \<Rightarrow> session_table \<Rightarrow> session_table" where
  "push_expired i t =
     t\<lparr>recent_expired := (recent_expired t)[ring_pos t := Some i],
       ring_pos := (ring_pos t + 1) mod length (recent_expired t)\<rparr>"

lemma entries_push_expired [simp]: "entries (push_expired i t) = entries t"
  by (simp add: push_expired_def)

function prune_from :: "boot_instant \<Rightarrow> auth_config \<Rightarrow> nat \<Rightarrow> nat \<Rightarrow> session_table \<Rightarrow> nat \<times> session_table" where
  "prune_from now cfg pruned i t =
     (if i < length (entries t) then
        if deadline cfg (entries t ! i) \<le> now
        then prune_from now cfg (pruned + 1) i
               (push_expired (ent_id (entries t ! i)) (t\<lparr>entries := swap_remove (entries t) i\<rparr>))
        else prune_from now cfg pruned (i + 1) t
      else (pruned, t))"
  by pat_completeness auto
termination
  by (relation "measure (\<lambda>(now, cfg, pruned, i, t). length (entries t) - i)") auto

declare prune_from.simps [simp del]

definition prune :: "boot_instant \<Rightarrow> auth_config \<Rightarrow> session_table \<Rightarrow> nat \<times> session_table" where
  "prune now cfg t = prune_from now cfg 0 0 t"

definition insert_entry :: "entry \<Rightarrow> auth_config \<Rightarrow> session_table \<Rightarrow> session_id option \<times> session_table" where
  "insert_entry e cfg t =
     (let limit = cap (policy_of cfg (ent_kind e));
          same = (\<lambda>x. ent_kind x = ent_kind e);
          lru = (if limit \<le> length (filter same (entries t))
                 then min_index_by same last_used (entries t) else None);
          evicted = map_option (\<lambda>i. ent_id (entries t ! i)) lru;
          kept = (case lru of None \<Rightarrow> entries t | Some i \<Rightarrow> swap_remove (entries t) i)
      in (evicted, t\<lparr>entries := kept @ [e]\<rparr>))"

text \<open>The loop over all entries, which never exits early; \<open>found\<close> keeps the first.\<close>

fun position_from :: "kind \<Rightarrow> bytes \<Rightarrow> nat \<Rightarrow> nat option \<Rightarrow> entry list \<Rightarrow> nat option" where
  "position_from k d i found [] = found"
| "position_from k d i found (e # es) =
     position_from k d (i + 1)
       (if ent_digest e = d \<and> ent_kind e = k \<and> found = None then Some i else found) es"

definition position_digest :: "kind \<Rightarrow> bytes \<Rightarrow> session_table \<Rightarrow> nat option" where
  "position_digest k d t = position_from k d 0 None (entries t)"

definition find_entry :: "kind \<Rightarrow> bytes \<Rightarrow> session_table \<Rightarrow> entry option" where
  "find_entry k d t = map_option (\<lambda>i. entries t ! i) (position_digest k d t)"

definition by_id :: "session_id \<Rightarrow> session_table \<Rightarrow> entry option" where
  "by_id i t = find (\<lambda>e. ent_id e = i) (entries t)"

definition remove_digest :: "kind \<Rightarrow> bytes \<Rightarrow> session_table \<Rightarrow> session_id option \<times> session_table" where
  "remove_digest k d t =
     (case position_digest k d t of
        None \<Rightarrow> (None, t)
      | Some i \<Rightarrow> (Some (ent_id (entries t ! i)), t\<lparr>entries := swap_remove (entries t) i\<rparr>))"

definition remove_id :: "session_id \<Rightarrow> session_table \<Rightarrow> bool \<times> session_table" where
  "remove_id i t =
     (case position (\<lambda>e. ent_id e = i) (entries t) of
        Some n \<Rightarrow> (True, t\<lparr>entries := swap_remove (entries t) n\<rparr>)
      | None \<Rightarrow> (False, t))"

definition recently_expired :: "session_id \<Rightarrow> session_table \<Rightarrow> bool" where
  "recently_expired i t \<longleftrightarrow> Some i \<in> set (recent_expired t)"

definition clear :: "session_table \<Rightarrow> session_id list \<times> session_table" where
  "clear t = (map ent_id (entries t), t\<lparr>entries := []\<rparr>)"

text \<open>
  Sliding the idle deadline of the session found: the assignment to \<open>last_used\<close> through the reference
  that \<open>find\<close> and \<open>by_id\<close> return.
\<close>

definition slide :: "(entry \<Rightarrow> bool) \<Rightarrow> boot_instant \<Rightarrow> session_table \<Rightarrow> session_table" where
  "slide p now t = t\<lparr>entries := update_first p (\<lambda>e. e\<lparr>last_used := now\<rparr>) (entries t)\<rparr>"

section \<open>The table as a map\<close>

lemma position_from_Some [simp]: "position_from k d i (Some j) es = Some j"
  by (induction es arbitrary: i) auto

lemma position_from_eq:
  "position_from k d i None es =
     map_option (\<lambda>j. i + j) (position (\<lambda>e. ent_digest e = d \<and> ent_kind e = k) es)"
  by (induction es arbitrary: i) (auto simp: map_option_case split: option.splits)

lemma position_digest_eq:
  "position_digest k d t = position (\<lambda>e. ent_digest e = d \<and> ent_kind e = k) (entries t)"
  by (simp add: position_digest_def position_from_eq option.map_ident)

lemma find_eq_position: "find p xs = map_option (\<lambda>i. xs ! i) (position p xs)"
  by (induction xs) (auto simp: option.map_comp comp_def)

lemma find_entry_eq: "find_entry k d t = find (\<lambda>e. ent_digest e = d \<and> ent_kind e = k) (entries t)"
  by (simp add: find_entry_def position_digest_eq find_eq_position)

definition entry_key :: "entry \<Rightarrow> kind \<times> bytes" where
  "entry_key e = (ent_kind e, ent_digest e)"

lemma find_entry_SomeD: "find_entry k d t = Some e \<Longrightarrow> e \<in> set (entries t) \<and> entry_key e = (k, d)"
  by (auto simp: find_entry_eq find_Some_iff entry_key_def)

definition keys_distinct :: "session_table \<Rightarrow> bool" where
  "keys_distinct t \<longleftrightarrow> distinct (map entry_key (entries t))"

lemma find_unique:
  "distinct (map f xs) \<Longrightarrow> find (\<lambda>x. f x = a) xs = Some x \<longleftrightarrow> x \<in> set xs \<and> f x = a"
  by (induction xs) (auto simp: image_iff)

lemma find_entry_iff:
  assumes "keys_distinct t"
  shows "find_entry k d t = Some e \<longleftrightarrow> e \<in> set (entries t) \<and> entry_key e = (k, d)"
proof -
  have "find_entry k d t = find (\<lambda>e. entry_key e = (k, d)) (entries t)"
    unfolding find_entry_eq entry_key_def by (rule arg_cong [where f = "\<lambda>p. find p _"]) auto
  with assms find_unique [of entry_key] show ?thesis by (simp add: keys_distinct_def)
qed

section \<open>Pruning\<close>

definition expired :: "boot_instant \<Rightarrow> auth_config \<Rightarrow> entry \<Rightarrow> bool" where
  "expired now cfg e \<longleftrightarrow> deadline cfg e \<le> now"

definition push_all :: "session_id list \<Rightarrow> session_table \<Rightarrow> session_table" where
  "push_all is t = fold push_expired is t"

lemma push_all_simps [simp]:
  "push_all [] t = t"
  "push_all (x # is) t = push_all is (push_expired x t)"
  by (simp_all add: push_all_def)

lemma push_expired_entries [simp]: "push_expired x (t\<lparr>entries := es\<rparr>) = (push_expired x t)\<lparr>entries := es\<rparr>"
  by (simp add: push_expired_def)

lemma push_all_entries [simp]: "push_all is (t\<lparr>entries := es\<rparr>) = (push_all is t)\<lparr>entries := es\<rparr>"
  by (induction "is" arbitrary: t) simp_all

lemma entries_push_all [simp]: "entries (push_all is t) = entries t"
  by (induction "is" arbitrary: t) simp_all

lemma next_id_push_all [simp]: "next_id (push_all is t) = next_id t"
  by (induction "is" arbitrary: t) (simp_all add: push_expired_def)

lemma length_recent_push_all [simp]: "length (recent_expired (push_all is t)) = length (recent_expired t)"
  by (induction "is" arbitrary: t) (simp_all add: push_expired_def)

lemma swap_remove_Cons_split:
  assumes "i < length xs"
  shows "\<exists>ys. swap_remove xs i = take i xs @ ys \<and> mset (drop i xs) = add_mset (xs ! i) (mset ys)"
proof (cases "i = length xs - 1")
  case True
  with assms have "swap_remove xs i = take i xs"
    by (simp add: swap_remove_def butlast_conv_take take_update_cancel)
  moreover have "drop i xs = [xs ! i]"
    using assms True by (metis Cons_nth_drop_Suc Suc_diff_1 diff_is_0_eq' drop_eq_Nil length_greater_0_conv less_zeroE list.size(3) order_refl)
  ultimately show ?thesis by simp
next
  case False
  with assms have i: "i < length xs - 1" by linarith
  have xs: "xs \<noteq> []" using assms by auto
  have d: "drop i xs = xs ! i # drop (Suc i) xs" using assms by (rule Cons_nth_drop_Suc [symmetric])
  have ne: "drop (Suc i) xs \<noteq> []" using i by simp
  have "xs[i := last xs] = take i xs @ last xs # drop (Suc i) xs"
    using assms by (rule upd_conv_take_nth_drop)
  then have "swap_remove xs i = take i xs @ last xs # butlast (drop (Suc i) xs)"
    using ne by (simp add: swap_remove_def butlast_append)
  moreover have "last xs = last (drop (Suc i) xs)" using i by simp
  moreover have "mset (drop (Suc i) xs) = add_mset (last (drop (Suc i) xs)) (mset (butlast (drop (Suc i) xs)))"
    using ne by (metis append_butlast_last_id mset.simps(1) mset.simps(2) mset_append union_mset_add_mset_right add.right_neutral)
  ultimately show ?thesis using d by auto
qed

text \<open>What the pruning loop leaves from index \<open>i\<close> on, and the ids it pushes.\<close>

lemma prune_from_spec:
  "\<exists>is. mset (entries (snd (prune_from now cfg n i t))) =
      mset (take i (entries t)) + mset (filter (\<lambda>e. \<not> expired now cfg e) (drop i (entries t))) \<and>
    mset is = mset (map ent_id (filter (expired now cfg) (drop i (entries t)))) \<and>
    fst (prune_from now cfg n i t) = n + length is \<and>
    snd (prune_from now cfg n i t) = (push_all is t)\<lparr>entries := entries (snd (prune_from now cfg n i t))\<rparr>"
proof (induction now cfg n i t rule: prune_from.induct)
  case (1 now cfg n i t)
  show ?case
  proof (cases "i < length (entries t)")
    case False
    then show ?thesis by (intro exI [of _ "[]"]) (simp add: prune_from.simps)
  next
    case True
    let ?e = "entries t ! i"
    show ?thesis
    proof (cases "deadline cfg ?e \<le> now")
      case dead: True
      define u where "u = push_expired (ent_id ?e) (t\<lparr>entries := swap_remove (entries t) i\<rparr>)"
      obtain ys where ys: "swap_remove (entries t) i = take i (entries t) @ ys"
          "mset (drop i (entries t)) = add_mset ?e (mset ys)"
        using swap_remove_Cons_split [OF True] by blast
      have u: "entries u = take i (entries t) @ ys" by (simp add: u_def ys)
      have step: "prune_from now cfg n i t = prune_from now cfg (n + 1) i u"
        using True dead by (subst prune_from.simps) (simp add: u_def)
      obtain "is" where IH: "mset (entries (snd (prune_from now cfg (n + 1) i u))) =
            mset (take i (entries u)) + mset (filter (\<lambda>e. \<not> expired now cfg e) (drop i (entries u)))"
          "mset is = mset (map ent_id (filter (expired now cfg) (drop i (entries u))))"
          "fst (prune_from now cfg (n + 1) i u) = n + 1 + length is"
          "snd (prune_from now cfg (n + 1) i u) = (push_all is u)\<lparr>entries := entries (snd (prune_from now cfg (n + 1) i u))\<rparr>"
        using "1.IH"(1) [OF True dead] unfolding u_def by blast
      have push: "push_all is u = (push_all (ent_id ?e # is) t)\<lparr>entries := entries u\<rparr>"
        unfolding u_def by simp
      have mem: "filter_mset P (mset (drop i (entries t))) =
          filter_mset P (add_mset ?e (mset ys))" for P
        by (simp add: ys)
      show ?thesis
        unfolding step
        using IH True dead [folded expired_def] mem [of "expired now cfg"] mem [of "\<lambda>e. \<not> expired now cfg e"]
        by (intro exI [of _ "ent_id ?e # is"]) (simp add: u push)
    next
      case live: False
      have step: "prune_from now cfg n i t = prune_from now cfg n (i + 1) t"
        using True live by (subst prune_from.simps) simp
      have d: "drop i (entries t) = ?e # drop (Suc i) (entries t)"
        using True by (rule Cons_nth_drop_Suc [symmetric])
      have t: "take (Suc i) (entries t) = take i (entries t) @ [?e]"
        using True by (rule take_Suc_conv_app_nth)
      show ?thesis
        using "1.IH"(2) [OF True live] live unfolding step d by (simp add: t expired_def)
    qed
  qed
qed

lemma prune_spec:
  "\<exists>is. mset (entries (snd (prune now cfg t))) = mset (filter (\<lambda>e. \<not> expired now cfg e) (entries t)) \<and>
    mset is = mset (map ent_id (filter (expired now cfg) (entries t))) \<and>
    fst (prune now cfg t) = length is \<and>
    snd (prune now cfg t) = (push_all is t)\<lparr>entries := entries (snd (prune now cfg t))\<rparr>"
  using prune_from_spec [of now cfg 0 0 t] by (simp add: prune_def)

lemma set_entries_prune [table_simps]:
  "set (entries (snd (prune now cfg t))) = {e \<in> set (entries t). \<not> expired now cfg e}"
proof -
  have "set_mset (mset (entries (snd (prune now cfg t)))) = set_mset (mset (filter (\<lambda>e. \<not> expired now cfg e) (entries t)))"
    using prune_spec [of now cfg t] by metis
  then show ?thesis by simp
qed

lemma next_id_prune [table_simps]: "next_id (snd (prune now cfg t)) = next_id t"
proof -
  obtain "is" where "snd (prune now cfg t) = (push_all is t)\<lparr>entries := entries (snd (prune now cfg t))\<rparr>"
    using prune_spec [of now cfg t] by blast
  then have "next_id (snd (prune now cfg t)) = next_id ((push_all is t)\<lparr>entries := entries (snd (prune now cfg t))\<rparr>)"
    by simp
  then show ?thesis by simp
qed

text \<open>The ring: what was pushed last is still there while no more was pushed than it has slots.\<close>

lemma push_all_snoc: "push_all (is @ [x]) t = push_expired x (push_all is t)"
  by (simp add: push_all_def)

lemma push_all_ring:
  assumes "length is \<le> length (recent_expired t)" and "ring_pos t < length (recent_expired t)"
  shows "ring_pos (push_all is t) = (ring_pos t + length is) mod length (recent_expired t) \<and>
    (\<forall>j < length is. recent_expired (push_all is t) ! ((ring_pos t + j) mod length (recent_expired t)) = Some (is ! j))"
  using assms(1)
proof (induction "is" rule: rev_induct)
  case Nil
  with assms(2) show ?case by simp
next
  case (snoc x xs)
  let ?n = "length (recent_expired t)"
  have pos: "ring_pos (push_all xs t) = (ring_pos t + length xs) mod ?n"
    and old: "\<forall>j < length xs. recent_expired (push_all xs t) ! ((ring_pos t + j) mod ?n) = Some (xs ! j)"
    using snoc by simp_all
  have ne: "(ring_pos t + length xs) mod ?n \<noteq> (ring_pos t + j) mod ?n" if "j < length xs" for j
  proof
    assume eq: "(ring_pos t + length xs) mod ?n = (ring_pos t + j) mod ?n"
    have "(ring_pos t + length xs) - (ring_pos t + j) = length xs - j" by simp
    with eq that have "?n dvd length xs - j"
      by (metis add_le_cancel_left less_imp_le_nat mod_eq_dvd_iff_nat)
    moreover have "0 < length xs - j" "length xs - j < ?n" using that snoc.prems by simp_all
    ultimately show False by (meson nat_dvd_not_less)
  qed
  have lt: "(ring_pos t + length xs) mod ?n < ?n" using assms(2) by (intro mod_less_divisor) linarith
  have at: "recent_expired (push_expired x (push_all xs t)) =
      (recent_expired (push_all xs t))[(ring_pos t + length xs) mod ?n := Some x]"
    by (simp add: push_expired_def pos)
  have "ring_pos (push_all (xs @ [x]) t) = (ring_pos t + length (xs @ [x])) mod ?n"
    by (simp add: push_all_snoc push_expired_def pos mod_Suc_eq)
  moreover have "recent_expired (push_all (xs @ [x]) t) ! ((ring_pos t + j) mod ?n) = Some ((xs @ [x]) ! j)"
    if "j < length (xs @ [x])" for j
  proof (cases "j = length xs")
    case True
    with lt show ?thesis by (simp add: push_all_snoc at)
  next
    case False
    with that have "j < length xs" by simp
    with ne [of j] old show ?thesis by (simp add: push_all_snoc at nth_append)
  qed
  ultimately show ?case by blast
qed

lemma push_all_recent:
  assumes "length is \<le> length (recent_expired t)" and "ring_pos t < length (recent_expired t)" and "x \<in> set is"
  shows "recently_expired x (push_all is t)"
proof -
  obtain j where j: "j < length is" "is ! j = x" using assms(3) by (auto simp: in_set_conv_nth)
  let ?k = "(ring_pos t + j) mod length (recent_expired t)"
  have "recent_expired (push_all is t) ! ?k = Some x"
    using push_all_ring [OF assms(1,2)] j by auto
  moreover have "?k < length (recent_expired (push_all is t))"
    unfolding length_recent_push_all using assms(2) by (intro mod_less_divisor) linarith
  ultimately show ?thesis unfolding recently_expired_def by (metis nth_mem)
qed

lemma ring_pos_push_all:
  "ring_pos t < length (recent_expired t) \<Longrightarrow> ring_pos (push_all is t) < length (recent_expired t)"
proof (induction "is" arbitrary: t)
  case (Cons x xs)
  have "ring_pos (push_expired x t) < length (recent_expired (push_expired x t))"
    using Cons.prems by (simp add: push_expired_def) (metis less_nat_zero_code mod_less_divisor not_gr_zero)
  from Cons.IH [OF this] show ?case by (simp add: push_expired_def)
qed simp

section \<open>The invariant\<close>

definition entry_ok :: "boot_instant \<Rightarrow> session_id \<Rightarrow> entry \<Rightarrow> bool" where
  "entry_ok now n e \<longleftrightarrow> ent_id e < n \<and> created e \<le> last_used e \<and> last_used e \<le> now"

definition table_inv :: "auth_config \<Rightarrow> boot_instant \<Rightarrow> session_table \<Rightarrow> bool" where
  "table_inv cfg now t \<longleftrightarrow>
     keys_distinct t \<and> distinct (map ent_id (entries t)) \<and>
     list_all (entry_ok now (next_id t)) (entries t) \<and>
     (\<forall>k. length (filter (\<lambda>e. ent_kind e = k) (entries t)) \<le> cap (policy_of cfg k)) \<and>
     length (recent_expired t) = max (cap (bearer cfg) + cap (browser cfg)) 1 \<and>
     ring_pos t < length (recent_expired t)"

definition caps_ok :: "auth_config \<Rightarrow> bool" where
  "caps_ok cfg \<longleftrightarrow> 1 \<le> cap (bearer cfg) \<and> 1 \<le> cap (browser cfg)"

lemma caps_ok_policy: "caps_ok cfg \<Longrightarrow> 1 \<le> cap (policy_of cfg k)"
  by (cases k) (simp_all add: caps_ok_def)

lemma table_inv_new: "table_inv cfg now (table_new cfg)"
  by (auto simp: table_inv_def table_new_def keys_distinct_def)

lemma table_inv_later: "table_inv cfg t1 t \<Longrightarrow> t1 \<le> t2 \<Longrightarrow> table_inv cfg t2 t"
  by (auto simp: table_inv_def entry_ok_def elim!: list.pred_mono_strong)

lemma table_inv_sub:
  assumes "table_inv cfg now t" and "mset es \<subseteq># mset (entries t)"
  shows "table_inv cfg now (t\<lparr>entries := es\<rparr>)"
proof -
  have "length (filter (\<lambda>e. ent_kind e = k) es) \<le> cap (policy_of cfg k)" for k
    using assms length_filter_sub [OF assms(2)] unfolding table_inv_def by (meson order_trans)
  with assms set_sub [OF assms(2)] show ?thesis
    by (auto simp: table_inv_def keys_distinct_def list_all_iff intro: distinct_map_sub)
qed

lemma table_inv_push_all: "table_inv cfg now t \<Longrightarrow> table_inv cfg now (push_all is t)"
  using ring_pos_push_all [of t "is"] by (simp add: table_inv_def keys_distinct_def)

lemma table_inv_prune: "table_inv cfg now t \<Longrightarrow> table_inv cfg now (snd (prune t1 cfg t))"
proof -
  assume inv: "table_inv cfg now t"
  obtain "is" where m: "mset (entries (snd (prune t1 cfg t))) = mset (filter (\<lambda>e. \<not> expired t1 cfg e) (entries t))"
    and p: "snd (prune t1 cfg t) = (push_all is t)\<lparr>entries := entries (snd (prune t1 cfg t))\<rparr>"
    using prune_spec [of t1 cfg t] by blast
  have "table_inv cfg now ((push_all is t)\<lparr>entries := entries (snd (prune t1 cfg t))\<rparr>)"
    using inv by (intro table_inv_sub table_inv_push_all) (simp_all add: m)
  with p show ?thesis by simp
qed

lemma table_inv_remove_digest: "table_inv cfg now t \<Longrightarrow> table_inv cfg now (snd (remove_digest k d t))"
  by (auto simp: remove_digest_def position_digest_eq intro!: table_inv_sub swap_remove_sub
      dest: position_SomeD split: option.splits)

lemma table_inv_remove_id: "table_inv cfg now t \<Longrightarrow> table_inv cfg now (snd (remove_id i t))"
  by (auto simp: remove_id_def intro!: table_inv_sub swap_remove_sub dest: position_SomeD split: option.splits)

lemma table_inv_clear: "table_inv cfg now t \<Longrightarrow> table_inv cfg now (snd (clear t))"
  by (auto simp: clear_def intro: table_inv_sub)

lemma map_update_first:
  "(\<And>e. f (g e) = f e) \<Longrightarrow> map f (update_first p g xs) = map f xs"
  by (induction xs) auto

lemma length_filter_update_first:
  "(\<And>e. q (g e) = q e) \<Longrightarrow> length (filter q (update_first p g xs)) = length (filter q xs)"
  by (induction xs) auto

lemma list_all_update_slide:
  "list_all (entry_ok now n) es \<Longrightarrow> list_all (entry_ok now n) (update_first p (\<lambda>e. e\<lparr>last_used := now\<rparr>) es)"
  by (erule list_all_update_first) (auto simp: entry_ok_def)

lemma table_inv_slide: "table_inv cfg now t \<Longrightarrow> table_inv cfg now (slide p now t)"
  by (simp add: table_inv_def slide_def keys_distinct_def map_update_first entry_key_def length_filter_update_first
      list_all_update_slide)

definition evicts :: "auth_config \<Rightarrow> entry \<Rightarrow> session_table \<Rightarrow> nat option" where
  "evicts cfg e t =
     (if cap (policy_of cfg (ent_kind e)) \<le> length (filter (\<lambda>x. ent_kind x = ent_kind e) (entries t))
      then min_index_by (\<lambda>x. ent_kind x = ent_kind e) last_used (entries t) else None)"

definition kept_by_insert :: "auth_config \<Rightarrow> entry \<Rightarrow> session_table \<Rightarrow> entry list" where
  "kept_by_insert cfg e t =
     (case evicts cfg e t of None \<Rightarrow> entries t | Some i \<Rightarrow> swap_remove (entries t) i)"

lemma insert_entry_eq:
  "insert_entry e cfg t =
     (map_option (\<lambda>i. ent_id (entries t ! i)) (evicts cfg e t), t\<lparr>entries := kept_by_insert cfg e t @ [e]\<rparr>)"
  by (simp add: insert_entry_def evicts_def kept_by_insert_def Let_def)

lemma evicts_SomeD:
  "evicts cfg e t = Some i \<Longrightarrow> i < length (entries t) \<and> ent_kind (entries t ! i) = ent_kind e \<and>
     (\<forall>x \<in> set (entries t). ent_kind x = ent_kind e \<longrightarrow> last_used (entries t ! i) \<le> last_used x)"
  by (auto simp: evicts_def dest: min_index_by_SomeD split: if_splits)

lemma kept_by_insert_sub: "mset (kept_by_insert cfg e t) \<subseteq># mset (entries t)"
  by (auto simp: kept_by_insert_def dest!: evicts_SomeD intro: swap_remove_sub split: option.split)

lemma kept_by_insert_room:
  assumes "1 \<le> cap (policy_of cfg (ent_kind e))"
    and "length (filter (\<lambda>x. ent_kind x = ent_kind e) (entries t)) \<le> cap (policy_of cfg (ent_kind e))"
  shows "length (filter (\<lambda>x. ent_kind x = ent_kind e) (kept_by_insert cfg e t)) < cap (policy_of cfg (ent_kind e))"
proof (cases "evicts cfg e t")
  case None
  show ?thesis
  proof (cases "cap (policy_of cfg (ent_kind e)) \<le> length (filter (\<lambda>x. ent_kind x = ent_kind e) (entries t))")
    case True
    with None have "\<forall>x \<in> set (entries t). ent_kind x \<noteq> ent_kind e"
      by (simp add: evicts_def min_index_by_None_iff)
    then have "filter (\<lambda>x. ent_kind x = ent_kind e) (entries t) = []" by (simp add: filter_empty_conv)
    with True assms(1) show ?thesis by simp
  next
    case False
    with None show ?thesis by (simp add: kept_by_insert_def)
  qed
next
  case (Some i)
  let ?q = "\<lambda>x. ent_kind x = ent_kind e"
  have i: "i < length (entries t)" "?q (entries t ! i)" using evicts_SomeD [OF Some] by simp_all
  have "mset (filter ?q (swap_remove (entries t) i)) = mset (filter ?q (entries t)) - {#entries t ! i#}"
    using i by (simp add: mset_swap_remove)
  then have "length (filter ?q (swap_remove (entries t) i)) = size (mset (filter ?q (entries t)) - {#entries t ! i#})"
    by (metis size_mset)
  also have "\<dots> < length (filter ?q (entries t))"
  proof -
    have "entries t ! i \<in># mset (filter ?q (entries t))" using i by simp
    then show ?thesis by (metis size_Diff1_less size_mset)
  qed
  finally show ?thesis using assms(2) Some by (simp add: kept_by_insert_def)
qed

lemma table_inv_insert:
  assumes "table_inv cfg now t" and "caps_ok cfg" and "find_entry (ent_kind e) (ent_digest e) t = None"
    and "ent_id e < next_id t" and "ent_id e \<notin> ent_id ` set (entries t)"
    and "created e \<le> last_used e" and "last_used e \<le> now"
  shows "table_inv cfg now (snd (insert_entry e cfg t))"
proof -
  let ?kept = "kept_by_insert cfg e t"
  have inv: "table_inv cfg now (t\<lparr>entries := ?kept\<rparr>)"
    using assms(1) kept_by_insert_sub by (rule table_inv_sub)
  have sub: "set ?kept \<subseteq> set (entries t)" using kept_by_insert_sub by (rule set_sub)
  have "entry_key e \<notin> entry_key ` set (entries t)"
    using assms(3) by (auto simp: find_entry_eq find_None_iff entry_key_def)
  then have key: "entry_key e \<notin> entry_key ` set ?kept" and idn: "ent_id e \<notin> ent_id ` set ?kept"
    using sub assms(5) by auto
  have "length (filter (\<lambda>x. ent_kind x = k) (?kept @ [e])) \<le> cap (policy_of cfg k)" for k
  proof (cases "k = ent_kind e")
    case True
    have "length (filter (\<lambda>x. ent_kind x = ent_kind e) ?kept) < cap (policy_of cfg (ent_kind e))"
      using assms(1,2) by (intro kept_by_insert_room caps_ok_policy) (auto simp: table_inv_def)
    with True show ?thesis by simp
  next
    case False
    with inv show ?thesis by (auto simp: table_inv_def)
  qed
  with inv key idn assms(4,6,7) show ?thesis
    by (simp add: insert_entry_eq table_inv_def keys_distinct_def entry_ok_def)
qed

section \<open>The interface of the store\<close>

text \<open>
  What \<open>auth\<close> needs of its store: a map from a kind and a digest, where pruning drops what is past its
  deadline and nothing else, removing drops its key and nothing else, and inserting a new key makes
  it available and adds no other. \<open>store\<close> says that no key is there twice.
\<close>

locale session_store =
  fixes store :: "'t \<Rightarrow> bool"
    and lookup :: "kind \<Rightarrow> bytes \<Rightarrow> 't \<Rightarrow> entry option"
    and expire :: "boot_instant \<Rightarrow> 't \<Rightarrow> 't"
    and add :: "entry \<Rightarrow> 't \<Rightarrow> 't"
    and drop_key :: "kind \<Rightarrow> bytes \<Rightarrow> 't \<Rightarrow> 't"
    and dead :: "boot_instant \<Rightarrow> entry \<Rightarrow> bool"
  assumes store_expire: "store t \<Longrightarrow> store (expire now t)"
    and store_add: "store t \<Longrightarrow> lookup (ent_kind e) (ent_digest e) t = None \<Longrightarrow> store (add e t)"
    and store_drop: "store t \<Longrightarrow> store (drop_key k d t)"
    and lookup_expire: "store t \<Longrightarrow>
      lookup k d (expire now t) = (case lookup k d t of None \<Rightarrow> None | Some e \<Rightarrow> if dead now e then None else Some e)"
    and lookup_add: "store t \<Longrightarrow> lookup (ent_kind e) (ent_digest e) t = None \<Longrightarrow>
      lookup (ent_kind e) (ent_digest e) (add e t) = Some e"
    and lookup_add_other: "store t \<Longrightarrow> lookup (ent_kind e) (ent_digest e) t = None \<Longrightarrow>
      (k, d) \<noteq> (ent_kind e, ent_digest e) \<Longrightarrow> lookup k d (add e t) \<in> {None, lookup k d t}"
    and lookup_drop: "store t \<Longrightarrow> lookup k d (drop_key k d t) = None"
    and lookup_drop_other: "store t \<Longrightarrow> (k', d') \<noteq> (k, d) \<Longrightarrow> lookup k' d' (drop_key k d t) = lookup k' d' t"
begin

lemma lookup_expire_Some_iff:
  "store t \<Longrightarrow> lookup k d (expire now t) = Some e \<longleftrightarrow> lookup k d t = Some e \<and> \<not> dead now e"
  by (auto simp: lookup_expire split: option.splits)

lemma issued_lives:
  "store t \<Longrightarrow> lookup (ent_kind e) (ent_digest e) t = None \<Longrightarrow> \<not> dead now e \<Longrightarrow>
     lookup (ent_kind e) (ent_digest e) (expire now (add e t)) = Some e"
  by (simp add: lookup_expire lookup_add store_add)

lemma gone_after_expire: "store t \<Longrightarrow> lookup k d t = None \<Longrightarrow> lookup k d (expire now t) = None"
  by (simp add: lookup_expire)

lemma gone_after_drop: "store t \<Longrightarrow> lookup k d t = None \<Longrightarrow> lookup k d (drop_key k' d' t) = None"
  using lookup_drop [of t k d] lookup_drop_other [of t k d k' d'] by (cases "(k, d) = (k', d')") simp_all

lemma gone_after_add:
  "store t \<Longrightarrow> lookup (ent_kind e) (ent_digest e) t = None \<Longrightarrow> lookup k d t = None \<Longrightarrow>
     (k, d) \<noteq> (ent_kind e, ent_digest e) \<Longrightarrow> lookup k d (add e t) = None"
  using lookup_add_other [of t e k d] by simp

lemma store_drop_all: "store t \<Longrightarrow> store (fold (drop_key k) ds t)"
  by (induction ds arbitrary: t) (auto intro: store_drop)

lemma lookup_drop_all:
  "store t \<Longrightarrow> lookup k' d' (fold (drop_key k) ds t) = (if k' = k \<and> d' \<in> set ds then None else lookup k' d' t)"
proof (induction ds arbitrary: t)
  case (Cons d ds)
  have "lookup k' d' (drop_key k d t) = (if k' = k \<and> d' = d then None else lookup k' d' t)"
    using Cons.prems lookup_drop lookup_drop_other [of t k' d' k d] by auto
  with Cons.IH [OF store_drop [OF Cons.prems, of k d]] show ?case by auto
qed simp

end

text \<open>The table provides it.\<close>

lemma keys_distinct_sub: "keys_distinct t \<Longrightarrow> mset es \<subseteq># mset (entries t) \<Longrightarrow> keys_distinct (t\<lparr>entries := es\<rparr>)"
  by (auto simp: keys_distinct_def intro: distinct_map_sub)

lemma keys_distinct_prune: "keys_distinct t \<Longrightarrow> keys_distinct (snd (prune now cfg t))"
proof -
  assume k: "keys_distinct t"
  have "mset (entries (snd (prune now cfg t))) = mset (filter (\<lambda>e. \<not> expired now cfg e) (entries t))"
    using prune_spec [of now cfg t] by blast
  then have "mset (entries (snd (prune now cfg t))) \<subseteq># mset (entries t)" by simp
  with k show ?thesis unfolding keys_distinct_def by (rule distinct_map_sub)
qed

lemma find_entry_prune:
  assumes "keys_distinct t"
  shows "find_entry k d (snd (prune now cfg t)) = Some e \<longleftrightarrow> find_entry k d t = Some e \<and> \<not> expired now cfg e"
  using assms keys_distinct_prune [OF assms] by (auto simp: find_entry_iff set_entries_prune)

lemma find_entry_None_iff: "find_entry k d t = None \<longleftrightarrow> (k, d) \<notin> entry_key ` set (entries t)"
  by (auto simp: find_entry_eq find_None_iff entry_key_def)

lemma keys_distinct_insert:
  assumes "keys_distinct t" and "find_entry (ent_kind e) (ent_digest e) t = None"
  shows "keys_distinct (snd (insert_entry e cfg t))"
proof -
  have "distinct (map entry_key (kept_by_insert cfg e t))"
    using assms(1) kept_by_insert_sub unfolding keys_distinct_def by (rule distinct_map_sub)
  moreover have "entry_key e \<notin> entry_key ` set (kept_by_insert cfg e t)"
    using assms(2) set_sub [OF kept_by_insert_sub, of cfg e t]
    by (auto simp: find_entry_None_iff entry_key_def)
  ultimately show ?thesis by (simp add: keys_distinct_def insert_entry_eq)
qed

lemma keys_distinct_remove_digest: "keys_distinct t \<Longrightarrow> keys_distinct (snd (remove_digest k d t))"
  by (auto simp: remove_digest_def position_digest_eq intro!: keys_distinct_sub swap_remove_sub
      dest: position_SomeD split: option.splits)

lemma set_entries_remove_digest [table_simps]:
  assumes "keys_distinct t"
  shows "set (entries (snd (remove_digest k d t))) = {e \<in> set (entries t). entry_key e \<noteq> (k, d)}"
proof (cases "position_digest k d t")
  case None
  then have "\<forall>e \<in> set (entries t). entry_key e \<noteq> (k, d)"
    by (auto simp: position_digest_eq position_None_iff entry_key_def)
  with None show ?thesis by (auto simp: remove_digest_def)
next
  case (Some i)
  then have i: "i < length (entries t)" "entry_key (entries t ! i) = (k, d)"
    by (auto simp: position_digest_eq entry_key_def dest: position_SomeD)
  then have "set (swap_remove (entries t) i) = {e \<in> set (entries t). entry_key e \<noteq> entry_key (entries t ! i)}"
    using assms by (intro swap_remove_remaining) (auto simp: keys_distinct_def)
  with Some i show ?thesis by (simp add: remove_digest_def)
qed

lemma option_eqI: "(\<And>e. x = Some e \<longleftrightarrow> y = Some e) \<Longrightarrow> x = y"
  by (metis not_Some_eq)

lemma find_entry_remove_digest:
  assumes "keys_distinct t"
  shows "find_entry k' d' (snd (remove_digest k d t)) = (if (k', d') = (k, d) then None else find_entry k' d' t)"
proof (rule option_eqI)
  fix e
  show "find_entry k' d' (snd (remove_digest k d t)) = Some e \<longleftrightarrow>
      (if (k', d') = (k, d) then None else find_entry k' d' t) = Some e"
    using assms keys_distinct_remove_digest [OF assms, of k d]
    by (auto simp: set_entries_remove_digest find_entry_iff)
qed

lemma find_entry_insert:
  assumes "keys_distinct t" and "find_entry (ent_kind e) (ent_digest e) t = None"
  shows "find_entry (ent_kind e) (ent_digest e) (snd (insert_entry e cfg t)) = Some e"
    and "(k, d) \<noteq> (ent_kind e, ent_digest e) \<Longrightarrow> find_entry k d (snd (insert_entry e cfg t)) \<in> {None, find_entry k d t}"
proof -
  have ins: "keys_distinct (snd (insert_entry e cfg t))" using assms by (rule keys_distinct_insert)
  have es: "entries (snd (insert_entry e cfg t)) = kept_by_insert cfg e t @ [e]"
    by (simp add: insert_entry_eq)
  show "find_entry (ent_kind e) (ent_digest e) (snd (insert_entry e cfg t)) = Some e"
    unfolding find_entry_iff [OF ins] es by (simp add: entry_key_def)
  assume other: "(k, d) \<noteq> (ent_kind e, ent_digest e)"
  show "find_entry k d (snd (insert_entry e cfg t)) \<in> {None, find_entry k d t}"
  proof (cases "find_entry k d (snd (insert_entry e cfg t))")
    case (Some x)
    then have "x \<in> set (kept_by_insert cfg e t)" and key: "entry_key x = (k, d)"
      using other unfolding find_entry_iff [OF ins] es by (auto simp: entry_key_def)
    then have "x \<in> set (entries t)" using set_sub [OF kept_by_insert_sub] by blast
    with key have "find_entry k d t = Some x" unfolding find_entry_iff [OF assms(1)] by simp
    with Some show ?thesis by simp
  qed simp
qed

interpretation sessions: session_store keys_distinct find_entry "\<lambda>now t. snd (prune now cfg t)"
  "\<lambda>e t. snd (insert_entry e cfg t)" "\<lambda>k d t. snd (remove_digest k d t)" "\<lambda>now e. expired now cfg e"
  for cfg
proof
  fix t k d now
  assume t: "keys_distinct t"
  show "find_entry k d (snd (prune now cfg t)) =
      (case find_entry k d t of None \<Rightarrow> None | Some e \<Rightarrow> if expired now cfg e then None else Some e)"
    by (rule option_eqI) (auto simp: find_entry_prune [OF t] split: option.split)
qed (auto simp: keys_distinct_prune keys_distinct_insert keys_distinct_remove_digest find_entry_insert(1)
      find_entry_remove_digest dest: find_entry_insert(2))

section \<open>Properties of the table\<close>

lemma length_entries_kinds:
  "length es = length (filter (\<lambda>e. ent_kind e = Bearer) es) + length (filter (\<lambda>e. ent_kind e = Browser) es)"
proof (induction es)
  case (Cons e es)
  then show ?case by (cases "ent_kind e") auto
qed simp

lemma table_inv_length: "table_inv cfg now t \<Longrightarrow> length (entries t) \<le> length (recent_expired t)"
proof -
  assume inv: "table_inv cfg now t"
  have "length (filter (\<lambda>e. ent_kind e = Bearer) (entries t)) \<le> cap (policy_of cfg Bearer)"
    and "length (filter (\<lambda>e. ent_kind e = Browser) (entries t)) \<le> cap (policy_of cfg Browser)"
    using inv unfolding table_inv_def by blast+
  with inv show ?thesis
    using length_entries_kinds [of "entries t"] by (simp add: table_inv_def)
qed

lemma recently_expired_pruned:
  assumes "table_inv cfg past t" and "e \<in> set (entries t)" and "deadline cfg e \<le> now"
  shows "recently_expired (ent_id e) (snd (prune now cfg t))"
proof -
  obtain "is" where ids: "mset is = mset (map ent_id (filter (expired now cfg) (entries t)))"
    and push: "snd (prune now cfg t) = (push_all is t)\<lparr>entries := entries (snd (prune now cfg t))\<rparr>"
    using prune_spec [of now cfg t] by blast
  have "length is = length (filter (expired now cfg) (entries t))"
    using arg_cong [OF ids, of size] by (simp del: mset_filter)
  then have "length is \<le> length (recent_expired t)"
    using table_inv_length [OF assms(1)] length_filter_le [of "expired now cfg" "entries t"] by linarith
  moreover have "ent_id e \<in> set is"
    using arg_cong [OF ids, of set_mset] assms(2,3) by (auto simp: expired_def)
  ultimately have "recently_expired (ent_id e) (push_all is t)"
    using assms(1) by (intro push_all_recent) (auto simp: table_inv_def)
  then show ?thesis by (subst push) (simp add: recently_expired_def)
qed

text \<open>
  Pruning drops exactly the sessions past their deadline, says how many, and remembers every one of
  them (however many expire at once), so that each is still reported as expired afterwards.
\<close>

theorem prune_exact:
  assumes "table_inv cfg past t"
  shows "mset (entries (snd (prune now cfg t))) = mset (filter (\<lambda>e. now < deadline cfg e) (entries t)) \<and>
    fst (prune now cfg t) = length (filter (\<lambda>e. deadline cfg e \<le> now) (entries t)) \<and>
    list_all (\<lambda>e. deadline cfg e \<le> now \<longrightarrow> recently_expired (ent_id e) (snd (prune now cfg t))) (entries t)"
proof -
  obtain "is" where live: "mset (entries (snd (prune now cfg t))) = mset (filter (\<lambda>e. \<not> expired now cfg e) (entries t))"
    and ids: "mset is = mset (map ent_id (filter (expired now cfg) (entries t)))"
    and n: "fst (prune now cfg t) = length is"
    and push: "snd (prune now cfg t) = (push_all is t)\<lparr>entries := entries (snd (prune now cfg t))\<rparr>"
    using prune_spec [of now cfg t] by blast
  have len: "length is = length (filter (expired now cfg) (entries t))"
    using arg_cong [OF ids, of size] by (simp del: mset_filter)
  have "list_all (\<lambda>e. deadline cfg e \<le> now \<longrightarrow> recently_expired (ent_id e) (snd (prune now cfg t))) (entries t)"
    using recently_expired_pruned [OF assms] by (simp add: list_all_iff)
  moreover have "(\<lambda>e. \<not> expired now cfg e) = (\<lambda>e. now < deadline cfg e)" and "expired now cfg = (\<lambda>e. deadline cfg e \<le> now)"
    by (auto simp: expired_def)
  ultimately show ?thesis using live n len by simp
qed

definition one_session :: session_table where
  "one_session = (table_new default_auth_config)\<lparr>
     entries := [\<lparr>ent_id = 1, ent_kind = Bearer, ent_digest = [7], ent_csrf = [], created = 0, last_used = 0\<rparr>],
     next_id := 2\<rparr>"

lemma one_session_inv: "table_inv default_auth_config 0 one_session"
  using table_inv_new [of default_auth_config 0]
  by (auto simp: table_inv_def one_session_def table_new_def keys_distinct_def entry_ok_def default_auth_config_def)

theorem prune_exact_witness:
  "fst (prune (from_secs 3600) default_auth_config one_session) = 1 \<and>
   recently_expired 1 (snd (prune (from_secs 3600) default_auth_config one_session))"
  using prune_exact [OF one_session_inv, of "from_secs 3600"]
  by (simp add: one_session_def deadline_def default_auth_config_def saturating_add_def dur_saturating_add_def
      from_secs_def dur_max_def)

text \<open>
  A new login of a kind that is full ends exactly one session, of that kind, none of which was used
  less recently; otherwise none ends. The table never holds more sessions of a kind than its cap.
\<close>

theorem insert_evicts_lru:
  assumes "table_inv cfg now t" and "caps_ok cfg" and "find_entry (ent_kind e) (ent_digest e) t = None"
    and "ent_id e = next_id t - 1" and "list_all (\<lambda>x. ent_id x < ent_id e) (entries t)" and "0 < next_id t"
    and "created e = now" and "last_used e = now"
  shows "table_inv cfg now (snd (insert_entry e cfg t)) \<and>
    (if length (filter (\<lambda>x. ent_kind x = ent_kind e) (entries t)) < cap (policy_of cfg (ent_kind e))
     then insert_entry e cfg t = (None, t\<lparr>entries := entries t @ [e]\<rparr>)
     else \<exists>old. fst (insert_entry e cfg t) = Some (ent_id old) \<and> ent_kind old = ent_kind e \<and>
            list_all (\<lambda>x. ent_kind x = ent_kind e \<longrightarrow> last_used old \<le> last_used x) (entries t) \<and>
            mset (entries (snd (insert_entry e cfg t))) + {#old#} = mset (entries t) + {#e#})"
proof
  show "table_inv cfg now (snd (insert_entry e cfg t))"
    using assms by (intro table_inv_insert) (auto simp: list_all_iff)
  let ?n = "length (filter (\<lambda>x. ent_kind x = ent_kind e) (entries t))"
  show "if ?n < cap (policy_of cfg (ent_kind e))
     then insert_entry e cfg t = (None, t\<lparr>entries := entries t @ [e]\<rparr>)
     else \<exists>old. fst (insert_entry e cfg t) = Some (ent_id old) \<and> ent_kind old = ent_kind e \<and>
            list_all (\<lambda>x. ent_kind x = ent_kind e \<longrightarrow> last_used old \<le> last_used x) (entries t) \<and>
            mset (entries (snd (insert_entry e cfg t))) + {#old#} = mset (entries t) + {#e#}"
  proof (cases "?n < cap (policy_of cfg (ent_kind e))")
    case True
    then show ?thesis by (simp add: insert_entry_eq evicts_def kept_by_insert_def)
  next
    case full: False
    have "evicts cfg e t \<noteq> None"
    proof
      assume none: "evicts cfg e t = None"
      have "1 \<le> cap (policy_of cfg (ent_kind e))" using assms(2) by (rule caps_ok_policy)
      then have "length (filter (\<lambda>x. ent_kind x = ent_kind e) (kept_by_insert cfg e t)) < cap (policy_of cfg (ent_kind e))"
        using assms(1) by (intro kept_by_insert_room) (auto simp: table_inv_def)
      with none full show False by (simp add: kept_by_insert_def)
    qed
    then obtain i where i: "evicts cfg e t = Some i" by blast
    with evicts_SomeD [OF i] show ?thesis
      using full
      by (auto simp: insert_entry_eq kept_by_insert_def mset_swap_remove list_all_iff intro!: exI [of _ "entries t ! i"])
  qed
qed

theorem insert_evicts_lru_witness:
  "fst (insert_entry \<lparr>ent_id = 2, ent_kind = Browser, ent_digest = [8], ent_csrf = [], created = 0, last_used = 0\<rparr>
      default_auth_config (one_session\<lparr>next_id := 3\<rparr>)) = None"
proof -
  have inv: "table_inv default_auth_config 0 (one_session\<lparr>next_id := 3\<rparr>)"
    using one_session_inv by (auto simp: table_inv_def one_session_def keys_distinct_def entry_ok_def)
  show ?thesis
    using insert_evicts_lru [OF inv, of "\<lparr>ent_id = 2, ent_kind = Browser, ent_digest = [8], ent_csrf = [],
        created = 0, last_used = 0\<rparr>"]
    by (simp add: one_session_def table_new_def caps_ok_def default_auth_config_def find_entry_eq)
qed

end
