(* ===== verification/Rust_Text.thy ===== *)
theory Rust_Text
  imports Agent_Prelude
begin

text \<open>
  The UTF-8 functions of Rust's standard library that the sources call on bytes from outside:
  \<open>str::from_utf8\<close> (accept or refuse) and \<open>String::from_utf8_lossy\<close> (replace). A decoding step
  reads one character, or one maximal invalid run, and says how many bytes it takes. The lemmas
  show that lossy text is always valid, that valid text is left alone, and that replacing twice
  is replacing once.
\<close>

section \<open>One decoding step\<close>

definition is_cont :: "u8 \<Rightarrow> bool" where
  "is_cont b \<longleftrightarrow> b AND 0xC0 = 0x80"

definition utf8_char_width :: "u8 \<Rightarrow> nat" where
  "utf8_char_width b =
     (if b < 0x80 then 1 else if b < 0xC2 then 0 else if b < 0xE0 then 2
      else if b < 0xF0 then 3 else if b < 0xF5 then 4 else 0)"

text \<open>What the second byte may be after a given first byte of a longer sequence.\<close>

definition second_ok :: "u8 \<Rightarrow> u8 \<Rightarrow> bool" where
  "second_ok b c \<longleftrightarrow>
     (if b = 0xE0 then 0xA0 \<le> c \<and> c \<le> 0xBF
      else if b = 0xED then 0x80 \<le> c \<and> c \<le> 0x9F
      else if b = 0xF0 then 0x90 \<le> c \<and> c \<le> 0xBF
      else if b = 0xF4 then 0x80 \<le> c \<and> c \<le> 0x8F
      else 0x80 \<le> c \<and> c \<le> 0xBF)"

text \<open>A read past the end gives 0, which continues nothing.\<close>

definition safe_get :: "bytes \<Rightarrow> nat \<Rightarrow> u8" where
  "safe_get bs i = (if i < length bs then bs ! i else 0)"

definition utf8_next :: "bytes \<Rightarrow> bool \<times> nat" where
  "utf8_next bs =
     (let b = safe_get bs 0; w = utf8_char_width b in
      if w = 1 then (True, 1)
      else if w = 2 then (if is_cont (safe_get bs 1) then (True, 2) else (False, 1))
      else if w = 3 then
        (if \<not> second_ok b (safe_get bs 1) then (False, 1)
         else if is_cont (safe_get bs 2) then (True, 3) else (False, 2))
      else if w = 4 then
        (if \<not> second_ok b (safe_get bs 1) then (False, 1)
         else if \<not> is_cont (safe_get bs 2) then (False, 2)
         else if is_cont (safe_get bs 3) then (True, 4) else (False, 3))
      else (False, 1))"

lemma utf8_next_pos: "0 < snd (utf8_next bs)"
  by (auto simp: utf8_next_def Let_def)

section \<open>Validation and replacement\<close>

function from_utf8_ok :: "bytes \<Rightarrow> bool" where
  "from_utf8_ok bs =
     (if bs = [] then True
      else fst (utf8_next bs) \<and> from_utf8_ok (drop (snd (utf8_next bs)) bs))"
  by pat_completeness auto
termination
  by (relation "measure length") (use utf8_next_pos in auto)

definition REPLACEMENT :: bytes where
  "REPLACEMENT = [0xEF, 0xBF, 0xBD]"

function utf8_lossy :: "bytes \<Rightarrow> bytes" where
  "utf8_lossy bs =
     (if bs = [] then []
      else (if fst (utf8_next bs) then take (snd (utf8_next bs)) bs else REPLACEMENT) @
        utf8_lossy (drop (snd (utf8_next bs)) bs))"
  by pat_completeness auto
termination
  by (relation "measure length") (use utf8_next_pos in auto)

declare from_utf8_ok.simps [simp del] utf8_lossy.simps [simp del]

definition from_utf8 :: "bytes \<Rightarrow> string option" where
  "from_utf8 bs = (if from_utf8_ok bs then Some (of_bytes bs) else None)"

definition from_utf8_lossy :: "bytes \<Rightarrow> string" where
  "from_utf8_lossy bs = of_bytes (utf8_lossy bs)"

lemma from_utf8_ok_Nil [simp]: "from_utf8_ok []"
  by (simp add: from_utf8_ok.simps)

lemma from_utf8_ok_step:
  "bs \<noteq> [] \<Longrightarrow> from_utf8_ok bs \<longleftrightarrow> fst (utf8_next bs) \<and> from_utf8_ok (drop (snd (utf8_next bs)) bs)"
  by (subst from_utf8_ok.simps) simp

lemma utf8_lossy_Nil [simp]: "utf8_lossy [] = []"
  by (simp add: utf8_lossy.simps)

lemma is_cont_0 [simp]: "\<not> is_cont 0"
  by (simp add: is_cont_def)

lemma second_ok_0 [simp]: "\<not> second_ok b 0"
  by (simp add: second_ok_def)

text \<open>A valid step lies within the bytes and depends on nothing after them.\<close>

lemma safe_get_append: "i < length xs \<Longrightarrow> safe_get (xs @ ys) i = safe_get xs i"
  by (simp add: safe_get_def nth_append)

lemma utf8_next_within:
  assumes "bs \<noteq> []" and "utf8_next bs = (True, n)"
  shows "n \<le> length bs"
proof -
  have sg: "is_cont (safe_get bs i) \<Longrightarrow> i < length bs" for i
    by (auto simp: safe_get_def split: if_splits)
  have ne: "0 < length bs" using assms(1) by simp
  from assms(2) have "n = 1 \<or> n = 2 \<and> is_cont (safe_get bs 1) \<or> n = 3 \<and> is_cont (safe_get bs 2) \<or>
    n = 4 \<and> is_cont (safe_get bs 3)"
    by (auto simp: utf8_next_def Let_def simp del: One_nat_def split: if_splits)
  with ne show ?thesis
    using sg [of 1] sg [of 2] sg [of 3] by linarith
qed

lemma utf8_next_prefix:
  assumes "bs \<noteq> []" and "utf8_next bs = (True, n)"
  shows "utf8_next (take n bs @ ys) = (True, n)"
proof -
  from utf8_next_within [OF assms] have n: "n \<le> length bs" .
  have same: "safe_get (take n bs @ ys) i = safe_get bs i" if "i < n" for i
    using that n by (simp add: safe_get_def nth_append)
  have "0 < n" using utf8_next_pos [of bs] assms(2) by simp
  with same have "safe_get (take n bs @ ys) 0 = safe_get bs 0" by simp
  with assms(2) same show ?thesis
    by (auto simp: utf8_next_def Let_def split: if_splits)
qed

lemma from_utf8_ok_append: "from_utf8_ok xs \<Longrightarrow> from_utf8_ok ys \<Longrightarrow> from_utf8_ok (xs @ ys)"
proof (induction xs rule: from_utf8_ok.induct)
  case (1 xs)
  show ?case
  proof (cases "xs = []")
    case True
    with "1.prems" show ?thesis by simp
  next
    case False
    then obtain n where n: "utf8_next xs = (True, n)"
      using "1.prems" by (cases "utf8_next xs") (auto simp: from_utf8_ok_step)
    from utf8_next_within [OF False n] have le: "n \<le> length xs" .
    have "utf8_next (xs @ ys) = (True, n)"
      using utf8_next_prefix [OF False n, of "drop n xs @ ys"]
      by (simp only: append_assoc [symmetric] append_take_drop_id)
    moreover have "from_utf8_ok (drop n xs @ ys)"
      using 1 False n by (simp add: from_utf8_ok_step)
    ultimately show ?thesis
      using False le by (simp add: from_utf8_ok_step [of "xs @ ys"])
  qed
qed

lemma from_utf8_ok_char:
  assumes "bs \<noteq> []" and "utf8_next bs = (True, n)"
  shows "from_utf8_ok (take n bs)"
proof -
  have n: "utf8_next (take n bs) = (True, n)"
    using utf8_next_prefix [OF assms, of "[]"] by simp
  moreover have "take n bs \<noteq> []"
    using assms utf8_next_pos [of bs] by simp
  ultimately show ?thesis
    by (simp add: from_utf8_ok_step)
qed

lemma from_utf8_ok_REPLACEMENT: "from_utf8_ok REPLACEMENT"
  by (simp add: REPLACEMENT_def from_utf8_ok.simps utf8_next_def safe_get_def
      utf8_char_width_def second_ok_def is_cont_def)

lemma utf8_lossy_ok: "from_utf8_ok (utf8_lossy bs)"
proof (induction bs rule: utf8_lossy.induct)
  case (1 bs)
  show ?case
  proof (cases "bs = []")
    case True
    then show ?thesis by simp
  next
    case False
    obtain v n where vn: "utf8_next bs = (v, n)" by force
    with False from_utf8_ok_char [of bs n]
    have "from_utf8_ok (if v then take n bs else REPLACEMENT)"
      by (simp add: from_utf8_ok_REPLACEMENT)
    moreover have "from_utf8_ok (utf8_lossy (drop n bs))"
      using 1 False vn by simp
    ultimately show ?thesis
      using False vn by (subst utf8_lossy.simps) (simp only: if_False fst_conv snd_conv from_utf8_ok_append)
  qed
qed

lemma utf8_lossy_id: "from_utf8_ok bs \<Longrightarrow> utf8_lossy bs = bs"
proof (induction bs rule: utf8_lossy.induct)
  case (1 bs)
  then show ?case
    by (cases "bs = []") (auto simp: from_utf8_ok_step utf8_lossy.simps [of bs])
qed

lemma from_utf8_ok_ascii: "\<forall>b \<in> set bs. b < 0x80 \<Longrightarrow> from_utf8_ok bs"
proof (induction bs)
  case Nil
  then show ?case by simp
next
  case (Cons b bs)
  then have "utf8_next (b # bs) = (True, 1)"
    by (simp add: utf8_next_def safe_get_def utf8_char_width_def)
  with Cons show ?case by (simp add: from_utf8_ok_step)
qed

text \<open>ASCII text is its own UTF-8.\<close>

lemma from_utf8_ascii: "(\<And>c. c \<in> set s \<Longrightarrow> byte_of c < 0x80) \<Longrightarrow> from_utf8 (as_bytes s) = Some s"
proof -
  assume "\<And>c. c \<in> set s \<Longrightarrow> byte_of c < 0x80"
  then have "from_utf8_ok (as_bytes s)"
    by (intro from_utf8_ok_ascii) (auto simp: as_bytes_def)
  then show ?thesis by (simp add: from_utf8_def)
qed

text \<open>
  Replacing invalid UTF-8 always gives valid text, and does nothing to text that is already
  valid; so it is idempotent.
\<close>

theorem from_utf8_lossy_valid:
  "from_utf8 (as_bytes (from_utf8_lossy bs)) = Some (from_utf8_lossy bs) \<and>
   (from_utf8 bs = Some s \<longrightarrow> from_utf8_lossy bs = s)"
  by (simp add: from_utf8_def from_utf8_lossy_def utf8_lossy_ok utf8_lossy_id)

theorem from_utf8_lossy_valid_witness:
  "from_utf8_lossy [0xC3, 0xA9] = of_bytes [0xC3, 0xA9]"
proof -
  have "from_utf8 [0xC3, 0xA9] = Some (of_bytes [0xC3, 0xA9])"
    by (simp add: from_utf8_def from_utf8_ok.simps utf8_next_def safe_get_def utf8_char_width_def
        is_cont_def)
  then show ?thesis using from_utf8_lossy_valid by blast
qed

end
