(* ===== verification/Codec_Interface.thy ===== *)
theory Codec_Interface
  imports Agent_Prelude
begin

text \<open>
  The contracts of the encoders and decoders. A \<open>codec\<close> reads back what it wrote; a
  \<open>prefix_codec\<close> also knows where the written value ends, whatever follows it, so values can be
  laid out one after another. Every prefix codec is a codec. What follows from the contracts
  (encodings are injective, prefix-free, and sequences of them are unambiguous) is proved here once
  and used through the interpretations in \<open>Hex_Codec\<close>, \<open>Der_Codec\<close> and \<open>Dns_Packet\<close>.
\<close>

locale codec =
  fixes ok :: "'a \<Rightarrow> bool" and enc :: "'a \<Rightarrow> 'b" and dec :: "'b \<Rightarrow> 'a option"
  assumes dec_enc: "ok x \<Longrightarrow> dec (enc x) = Some x"
begin

lemma enc_inject: "ok x \<Longrightarrow> ok y \<Longrightarrow> enc x = enc y \<Longrightarrow> x = y"
  by (metis dec_enc option.inject)

lemma enc_inj_on: "inj_on enc {x. ok x}"
  by (auto intro!: inj_onI dest: enc_inject)

end

locale prefix_codec =
  fixes ok :: "'a \<Rightarrow> bool" and enc :: "'a \<Rightarrow> 'c list" and dec :: "'c list \<Rightarrow> ('a \<times> nat) option"
  assumes dec_enc_rest: "ok x \<Longrightarrow> dec (enc x @ rest) = Some (x, length (enc x))"
begin

lemma prefix_free:
  assumes "ok x" and "ok y" and "enc x @ r = enc y @ s"
  shows "x = y \<and> r = s"
proof -
  from assms have "Some (x, length (enc x)) = Some (y, length (enc y))"
    by (metis dec_enc_rest)
  then have "x = y" by simp
  with assms(3) show ?thesis by simp
qed

lemma enc_sequence_inject:
  assumes ne: "\<And>x. ok x \<Longrightarrow> enc x \<noteq> []"
  shows "list_all ok xs \<Longrightarrow> list_all ok ys \<Longrightarrow> concat (map enc xs) = concat (map enc ys) \<Longrightarrow> xs = ys"
proof (induction xs arbitrary: ys)
  case Nil
  then show ?case
    using ne by (cases ys) auto
next
  case (Cons x xs)
  then obtain y ys' where ys: "ys = y # ys'"
    using ne by (cases ys) auto
  with Cons.prems have "x = y \<and> concat (map enc xs) = concat (map enc ys')"
    by (intro prefix_free) auto
  with Cons.IH [of ys'] Cons.prems ys show ?case by simp
qed

end

sublocale prefix_codec \<subseteq> whole: codec ok enc "\<lambda>bs. map_option fst (dec bs)"
  by unfold_locales (use dec_enc_rest [of _ "[]"] in auto)

end
