(* ===== verification/Hex_Codec.thy ===== *)
theory Hex_Codec
  imports Rust_Text Codec_Interface
begin

text \<open>
  \<open>euicc/src/hex.rs\<close>: lowercase hex, and the swapped-nibble BCD in which a SIM card stores an
  ICCID. \<open>encode\<close>, \<open>decode\<close>, \<open>iccid_to_bcd\<close> and \<open>bcd_to_iccid\<close> of the file are \<open>hex_encode\<close>,
  \<open>hex_decode\<close>, \<open>iccid_to_bcd\<close> and \<open>bcd_to_iccid\<close> here. The lemmas show that decoding undoes
  encoding, that decoding accepts any case and only hex digits, and that an ICCID of hex digits
  survives the card's format.
\<close>

section \<open>Hex\<close>

definition DIGITS :: string where
  "DIGITS = ''0123456789abcdef''"

fun hex_encode :: "bytes \<Rightarrow> string" where
  "hex_encode [] = []"
| "hex_encode (b # bin) =
     DIGITS ! unat (drop_bit 4 b) # DIGITS ! unat (b AND 0xF) # hex_encode bin"

text \<open>\<open>char::to_digit(16)\<close>; a byte of 128 or more becomes a Latin-1 character, which is no digit.\<close>

definition to_digit16 :: "char \<Rightarrow> u32 option" where
  "to_digit16 c =
     (let n = of_char c :: nat in
      if 48 \<le> n \<and> n \<le> 57 then Some (word_of_nat (n - 48))
      else if 97 \<le> n \<and> n \<le> 102 then Some (word_of_nat (n - 87))
      else if 65 \<le> n \<and> n \<le> 70 then Some (word_of_nat (n - 55))
      else None)"

fun decode_pairs :: "string \<Rightarrow> bytes option" where
  "decode_pairs (c0 # c1 # hex) =
     (case to_digit16 c0 of
        None \<Rightarrow> None
      | Some d0 \<Rightarrow> (case to_digit16 c1 of
          None \<Rightarrow> None
        | Some d1 \<Rightarrow> map_option (Cons (ucast (push_bit 4 d0 OR d1))) (decode_pairs hex)))"
| "decode_pairs _ = Some []"

definition hex_decode :: "string \<Rightarrow> bytes option" where
  "hex_decode hex = (if odd (length hex) then None else decode_pairs hex)"

lemma length_hex_encode [codec_simps]: "length (hex_encode bin) = 2 * length bin"
  by (induction bin) auto

lemma hex_encode_append: "hex_encode (xs @ ys) = hex_encode xs @ hex_encode ys"
  by (induction xs) auto

lemma to_digit16_DIGITS: "n < 16 \<Longrightarrow> to_digit16 (DIGITS ! n) = Some (word_of_nat n)"
proof -
  have "list_all (\<lambda>n. to_digit16 (DIGITS ! n) = Some (word_of_nat n)) [0 ..< 16]"
    by (simp add: upt_rec DIGITS_def to_digit16_def)
  then show "n < 16 \<Longrightarrow> to_digit16 (DIGITS ! n) = Some (word_of_nat n)"
    by (simp add: list_all_iff)
qed

lemma unat_high_nibble: "unat (drop_bit 4 (b :: u8)) = unat b div 16"
  by (simp add: unat_drop_bit_eq) (simp add: drop_bit_eq_div)

lemma low_nibble_take_bit: "(b :: u8) AND 0xF = take_bit 4 b"
  by (simp add: take_bit_eq_mask mask_eq_exp_minus_1)

lemma unat_low_nibble: "unat ((b :: u8) AND 0xF) = unat b mod 16"
  by (simp only: low_nibble_take_bit unsigned_take_bit_eq) (simp add: take_bit_eq_mod)

lemma unat_high_nibble_lt: "unat (drop_bit 4 (b :: u8)) < 16"
  using unat_lt_256 [of b] by (simp only: unat_high_nibble)

lemma unat_low_nibble_lt: "unat ((b :: u8) AND 0xF) < 16"
  by (simp only: unat_low_nibble)

lemma join_nibbles:
  "(ucast (push_bit 4 (ucast (drop_bit 4 b) :: u32) OR ucast (b AND 0xF)) :: u8) = b"
  unfolding low_nibble_take_bit
  by (rule bit_word_eqI) (auto simp: bit_simps)

lemma decode_pairs_encode: "decode_pairs (hex_encode bin) = Some bin"
proof (induction bin)
  case Nil
  then show ?case by simp
next
  case (Cons b bin)
  have "to_digit16 (DIGITS ! unat (drop_bit 4 b)) = Some (ucast (drop_bit 4 b))"
    "to_digit16 (DIGITS ! unat (b AND 0xF)) = Some (ucast (b AND 0xF))"
    by (simp_all only: to_digit16_DIGITS [OF unat_high_nibble_lt]
        to_digit16_DIGITS [OF unat_low_nibble_lt] word_of_nat_eq_iff) simp_all
  then show ?case
    by (simp only: hex_encode.simps decode_pairs.simps option.case Cons.IH option.map join_nibbles)
qed

theorem hex_decode_encode [codec_simps]: "hex_decode (hex_encode bin) = Some bin"
  by (simp add: hex_decode_def decode_pairs_encode length_hex_encode)

lemma length_decode_pairs:
  "decode_pairs hex = Some bin \<Longrightarrow> length bin = length hex div 2"
  by (induction hex arbitrary: bin rule: decode_pairs.induct) (auto split: option.splits)

lemma decode_pairs_Some_iff:
  "even (length hex) \<Longrightarrow> (\<exists>bin. decode_pairs hex = Some bin) \<longleftrightarrow> (\<forall>c \<in> set hex. to_digit16 c \<noteq> None)"
  by (induction hex rule: decode_pairs.induct) (auto split: option.splits)

text \<open>A decode succeeds exactly on an even number of hex digits, of either case.\<close>

lemma hex_decode_Some_iff:
  "(\<exists>bin. hex_decode hex = Some bin) \<longleftrightarrow> even (length hex) \<and> (\<forall>c \<in> set hex. to_digit16 c \<noteq> None)"
  by (simp add: hex_decode_def decode_pairs_Some_iff)

interpretation hex: codec "\<lambda>_. True" hex_encode hex_decode
  by unfold_locales (rule hex_decode_encode)

section \<open>ICCIDs\<close>

text \<open>
  \<open>for pair in chars.chunks_mut(2) { pair.swap(0, 1); }\<close>. On a last chunk of one character
  \<open>swap\<close> panics; both callers pass an even number of characters.
\<close>

fun swap_pairs :: "'a list \<Rightarrow> 'a list" where
  "swap_pairs (a # b # cs) = b # a # swap_pairs cs"
| "swap_pairs cs = cs"

definition iccid_to_bcd :: "string \<Rightarrow> nat \<Rightarrow> bytes option" where
  "iccid_to_bcd digits padding_to =
     (let chars = (if odd (length digits) then digits @ ''f'' else digits) in
      case from_utf8 (as_bytes (swap_pairs chars)) of
        None \<Rightarrow> None
      | Some s \<Rightarrow> (case hex_decode s of
          None \<Rightarrow> None
        | Some out \<Rightarrow>
            if length out > padding_to then None
            else Some (out @ replicate (padding_to - length out) 0xFF)))"

text \<open>The trailing \<open>f\<close> padding goes, but the first character always stays.\<close>

function drop_padding :: "string \<Rightarrow> string" where
  "drop_padding chars =
     (if length chars > 1 \<and> last chars = CHR ''f'' then drop_padding (butlast chars) else chars)"
  by pat_completeness auto
termination
  by (relation "measure length") auto

declare drop_padding.simps [simp del]

definition bcd_to_iccid :: "bytes \<Rightarrow> string" where
  "bcd_to_iccid bin = drop_padding (swap_pairs (hex_encode bin))"

lemma length_swap_pairs [simp]: "length (swap_pairs cs) = length cs"
  by (induction cs rule: swap_pairs.induct) auto

lemma set_swap_pairs [simp]: "set (swap_pairs cs) = set cs"
  by (induction cs rule: swap_pairs.induct) auto

lemma swap_pairs_involution: "swap_pairs (swap_pairs cs) = cs"
  by (induction cs rule: swap_pairs.induct) auto

lemma swap_pairs_append: "even (length xs) \<Longrightarrow> swap_pairs (xs @ ys) = swap_pairs xs @ swap_pairs ys"
  by (induction xs rule: swap_pairs.induct) auto

lemma swap_pairs_replicate: "swap_pairs (replicate k c) = replicate k c"
  by (induction k rule: induct_nat_012) auto

lemma drop_padding_stop: "last cs \<noteq> CHR ''f'' \<Longrightarrow> drop_padding cs = cs"
  by (subst drop_padding.simps) simp

lemma drop_padding_replicate:
  "cs \<noteq> [] \<Longrightarrow> last cs \<noteq> CHR ''f'' \<Longrightarrow> drop_padding (cs @ replicate k (CHR ''f'')) = cs"
proof (induction k)
  case 0
  then show ?case by (simp add: drop_padding_stop)
next
  case (Suc k)
  have "replicate (Suc k) (CHR ''f'') = replicate k (CHR ''f'') @ ''f''"
    by (simp add: replicate_append_same)
  with Suc show ?case
    by (subst drop_padding.simps) (simp add: append_assoc [symmetric] butlast_append del: append_assoc replicate.simps)
qed

lemma length_drop_padding: "length (drop_padding cs) \<le> length cs"
proof (induction cs rule: drop_padding.induct)
  case (1 cs)
  then show ?case
    by (subst drop_padding.simps) (auto intro: order_trans)
qed

lemma length_bcd_to_iccid: "length (bcd_to_iccid bin) \<le> 2 * length bin"
  using length_drop_padding [of "swap_pairs (hex_encode bin)"]
  by (simp add: bcd_to_iccid_def length_hex_encode)

text \<open>On lowercase digits, encoding undoes decoding.\<close>

lemma DIGITS_to_digit16:
  "c \<in> set DIGITS \<Longrightarrow> \<exists>d. to_digit16 c = Some (word_of_nat d) \<and> d < 16 \<and> DIGITS ! d = c"
proof -
  assume "c \<in> set DIGITS"
  then obtain d where "d < length DIGITS" and "DIGITS ! d = c" by (auto simp: in_set_conv_nth)
  then have "d < 16" and "to_digit16 c = Some (word_of_nat d)"
    using to_digit16_DIGITS [of d] by (auto simp: DIGITS_def)
  with \<open>DIGITS ! d = c\<close> show ?thesis by blast
qed

lemma unat_u32_small: "d < 16 \<Longrightarrow> unat (word_of_nat d :: u32) = d"
  by (simp add: unat_of_nat)

lemma split_nibbles:
  assumes "d0 < 16" and "d1 < 16"
  defines "b \<equiv> (ucast (push_bit 4 (word_of_nat d0 :: u32) OR word_of_nat d1) :: u8)"
  shows "unat (drop_bit 4 b) = d0" and "unat (b AND 0xF) = d1"
proof -
  have low: "take_bit 4 d0 = d0" "take_bit 4 d1 = d1"
    using assms by (simp_all add: take_bit_eq_mod)
  have bits: "bit d0 i \<Longrightarrow> i < 4" "bit d1 i \<Longrightarrow> i < 4" for i
    using low bit_take_bit_iff [of 4 d0 i] bit_take_bit_iff [of 4 d1 i] by auto
  have "drop_bit 4 b = word_of_nat d0" "take_bit 4 b = word_of_nat d1"
    by (rule bit_word_eqI; auto simp: b_def bit_simps dest: bits)+
  then show "unat (drop_bit 4 b) = d0" "unat (b AND 0xF) = d1"
    using assms by (simp_all only: low_nibble_take_bit unat_of_nat) simp_all
qed

lemma hex_encode_decode_lower:
  "decode_pairs hex = Some bin \<Longrightarrow> even (length hex) \<Longrightarrow> set hex \<subseteq> set DIGITS \<Longrightarrow> hex_encode bin = hex"
proof (induction hex arbitrary: bin rule: decode_pairs.induct)
  case (1 c0 c1 hex)
  obtain d0 d1 where d: "to_digit16 c0 = Some (word_of_nat d0)" "d0 < 16" "DIGITS ! d0 = c0"
    "to_digit16 c1 = Some (word_of_nat d1)" "d1 < 16" "DIGITS ! d1 = c1"
    using "1.prems"(3) DIGITS_to_digit16 [of c0] DIGITS_to_digit16 [of c1] by auto
  with "1.prems"(1) obtain bin' where bin': "decode_pairs hex = Some bin'"
    "bin = ucast (push_bit 4 (word_of_nat d0 :: u32) OR word_of_nat d1) # bin'"
    by auto
  have "hex_encode bin' = hex"
    using "1.IH" [OF d(1) d(4)] bin'(1) "1.prems" by simp
  with bin'(2) d split_nibbles [OF d(2) d(5)] show ?case by (simp only: hex_encode.simps)
qed auto

lemma DIGITS_ascii: "c \<in> set DIGITS \<Longrightarrow> byte_of c < 0x80"
  by (auto simp: DIGITS_def byte_of_def)

lemma hex_encode_ones: "hex_encode (replicate k 0xFF) = replicate (2 * k) (CHR ''f'')"
  by (induction k) (simp_all add: DIGITS_def)

lemma decode_pairs_lower:
  assumes "even (length hex)" and "set hex \<subseteq> set DIGITS"
  shows "\<exists>bin. hex_decode hex = Some bin \<and> hex_encode bin = hex \<and> 2 * length bin = length hex"
proof -
  have "\<forall>c \<in> set hex. to_digit16 c \<noteq> None"
    using assms(2) DIGITS_to_digit16 by fastforce
  then obtain bin where bin: "decode_pairs hex = Some bin"
    using decode_pairs_Some_iff [OF assms(1)] by blast
  from hex_encode_decode_lower [OF bin assms] have "hex_encode bin = hex" .
  moreover from length_decode_pairs [OF bin] assms(1) have "2 * length bin = length hex" by simp
  ultimately show ?thesis
    using bin assms(1) by (auto simp: hex_decode_def)
qed

lemma padded_iccid:
  assumes "set digits \<subseteq> set DIGITS"
  defines "chars \<equiv> (if odd (length digits) then digits @ ''f'' else digits)"
  shows "even (length chars)" and "set chars \<subseteq> set DIGITS"
  using assms by (auto simp: DIGITS_def)

lemma iccid_to_bcd_lower:
  assumes lower: "set digits \<subseteq> set DIGITS" and fits: "length digits \<le> 2 * n"
  defines "chars \<equiv> (if odd (length digits) then digits @ ''f'' else digits)"
  shows "\<exists>bcd. iccid_to_bcd digits n = Some bcd \<and> length bcd = n \<and>
    swap_pairs (hex_encode bcd) = chars @ replicate (2 * n - length chars) (CHR ''f'')"
proof -
  have ev: "even (length (swap_pairs chars))" and low: "set (swap_pairs chars) \<subseteq> set DIGITS"
    using padded_iccid [OF lower] by (simp_all add: chars_def)
  obtain out where out: "hex_decode (swap_pairs chars) = Some out"
    "hex_encode out = swap_pairs chars" "2 * length out = length chars"
    using decode_pairs_lower [OF ev low] by auto
  have utf8: "from_utf8 (as_bytes (swap_pairs chars)) = Some (swap_pairs chars)"
    using low by (blast intro: from_utf8_ascii DIGITS_ascii)
  have fits': "length out \<le> n"
    using fits out(3) by (auto simp: chars_def split: if_splits)
  define bcd where "bcd = out @ replicate (n - length out) 0xFF"
  have "iccid_to_bcd digits n = Some bcd"
    using utf8 out(1) fits' by (simp add: iccid_to_bcd_def Let_def bcd_def flip: chars_def)
  moreover have "swap_pairs (hex_encode bcd) = chars @ replicate (2 * n - length chars) (CHR ''f'')"
    using out(2) out(3) [symmetric] ev
    by (simp add: bcd_def hex_encode_append hex_encode_ones swap_pairs_append swap_pairs_involution
        swap_pairs_replicate diff_mult_distrib2)
  moreover have "length bcd = n" using fits' by (simp add: bcd_def)
  ultimately show ?thesis by blast
qed

lemma iccid_to_bcd_too_long:
  assumes "2 * n < length digits"
  shows "iccid_to_bcd digits n = None"
proof -
  have "length out > n"
    if "from_utf8 (as_bytes (swap_pairs cs)) = Some s" "hex_decode s = Some out"
      "2 * n < length cs" for cs s out
    using that length_decode_pairs [of s out]
    by (auto simp: from_utf8_def hex_decode_def split: if_splits)
  with assms show ?thesis
    by (fastforce simp: iccid_to_bcd_def Let_def split: option.splits)
qed

lemma iccid_bcd_exists:
  assumes "set digits \<subseteq> set DIGITS" and "digits \<noteq> []" and "last digits \<noteq> CHR ''f''"
    and "length digits \<le> 2 * n"
  shows "\<exists>bcd. iccid_to_bcd digits n = Some bcd \<and> length bcd = n \<and> bcd_to_iccid bcd = digits"
proof -
  obtain bcd k where bcd: "iccid_to_bcd digits n = Some bcd" "length bcd = n"
    "swap_pairs (hex_encode bcd) = digits @ replicate k (CHR ''f'')"
    using iccid_to_bcd_lower [OF assms(1,4)]
    by (auto simp flip: replicate_Suc split: if_splits)
  with assms(2,3) show ?thesis
    by (auto simp: bcd_to_iccid_def drop_padding_replicate)
qed

text \<open>
  An ICCID written in lowercase hex digits, not ending in the padding digit \<open>f\<close>, that fits the
  card's field comes back unchanged from the card's swapped-nibble format, which is exactly as
  long as the field; one that does not fit is refused.
\<close>

theorem iccid_bcd_roundtrip:
  assumes "set digits \<subseteq> set DIGITS" and "digits \<noteq> []" and "last digits \<noteq> CHR ''f''"
  shows "if length digits \<le> 2 * n
    then \<exists>bcd. iccid_to_bcd digits n = Some bcd \<and> length bcd = n \<and> bcd_to_iccid bcd = digits
    else iccid_to_bcd digits n = None"
  using iccid_bcd_exists [OF assms] iccid_to_bcd_too_long by auto

theorem iccid_bcd_roundtrip_witness:
  "\<exists>bcd. iccid_to_bcd ''8963000000000000001'' 10 = Some bcd \<and> length bcd = 10 \<and>
     bcd_to_iccid bcd = ''8963000000000000001''"
  using iccid_bcd_roundtrip [of "''8963000000000000001''" 10] by (simp add: DIGITS_def)

end
