(* ===== verification/Der_Codec.thy ===== *)
theory Der_Codec
  imports Codec_Interface
begin

text \<open>
  \<open>euicc/src/der.rs\<close>: the BER-TLV reader and DER writer of the SGP.22 commands. A parsed element
  (\<open>tlv\<close>) has its tag, its contents and the bytes it was read from; \<open>parse\<close> reads the first
  element of a buffer, \<open>tlvs\<close> is the iterator \<open>iter\<close> run to its end, \<open>find\<close> and \<open>find_any\<close> look
  among the siblings. \<open>Node::encode\<close> is \<open>node_encode\<close>. An index into the buffer is a \<open>nat\<close>: on the
  64-bit target a \<open>usize\<close> holds any four-byte length, so \<open>checked_add\<close> cannot fail there.
\<close>

section \<open>Parsing\<close>

record tlv =
  tlv_tag :: u16
  tlv_value :: bytes
  tlv_raw :: bytes

text \<open>\<open>buf.get(i)\<close>.\<close>

definition get_at :: "'a list \<Rightarrow> nat \<Rightarrow> 'a option" where
  "get_at buf i = (if i < length buf then Some (buf ! i) else None)"

text \<open>\<open>buf.get(i..j)\<close>.\<close>

definition get_range :: "'a list \<Rightarrow> nat \<Rightarrow> nat \<Rightarrow> 'a list option" where
  "get_range buf i j = (if i \<le> j \<and> j \<le> length buf then Some (take (j - i) (drop i buf)) else None)"

text \<open>The loop over the \<open>k\<close> octets of a long-form length.\<close>

fun read_length :: "bytes \<Rightarrow> nat \<Rightarrow> nat \<Rightarrow> nat \<Rightarrow> (nat \<times> nat) option" where
  "read_length buf i 0 acc = Some (acc, i)"
| "read_length buf i (Suc k) acc =
     (case get_at buf i of
        None \<Rightarrow> None
      | Some b \<Rightarrow> read_length buf (i + 1) k (acc * 256 + unat b))"

definition parse_tag :: "bytes \<Rightarrow> (u16 \<times> nat) option" where
  "parse_tag buf =
     (case get_at buf 0 of
        None \<Rightarrow> None
      | Some b \<Rightarrow>
          let tag = (ucast b :: u16) in
          if tag AND 0x1F = 0x1F then
            (case get_at buf 1 of
               None \<Rightarrow> None
             | Some b2 \<Rightarrow> Some (push_bit 8 tag OR ucast b2, 2))
          else Some (tag, 1))"

definition parse_length :: "bytes \<Rightarrow> nat \<Rightarrow> (nat \<times> nat) option" where
  "parse_length buf i =
     (case get_at buf i of
        None \<Rightarrow> None
      | Some first \<Rightarrow>
          if first AND 0x80 \<noteq> 0 then
            (let k = unat (first AND 0x7F) in
             if k > 4 then None else read_length buf (i + 1) k 0)
          else Some (unat first, i + 1))"

definition parse :: "bytes \<Rightarrow> tlv option" where
  "parse buf =
     (case parse_tag buf of
        None \<Rightarrow> None
      | Some (tag, i) \<Rightarrow> (case parse_length buf i of
          None \<Rightarrow> None
        | Some (len, i) \<Rightarrow>
            let end = i + len in
            (case get_range buf i end of
               None \<Rightarrow> None
             | Some value \<Rightarrow>
                 Some \<lparr>tlv_tag = tag, tlv_value = value, tlv_raw = take end buf\<rparr>)))"

text \<open>Every parse takes at least two bytes, so the iterator always advances and stops.\<close>

lemma read_length_index: "read_length buf i k acc = Some (n, j) \<Longrightarrow> j = i + k"
  by (induction buf i k acc arbitrary: n j rule: read_length.induct) (auto split: option.splits)

lemma parse_tag_index: "parse_tag buf = Some (tag, i) \<Longrightarrow> 1 \<le> i \<and> i \<le> 2"
  by (auto simp: parse_tag_def Let_def split: option.splits if_splits)

lemma parse_length_index: "parse_length buf i = Some (n, j) \<Longrightarrow> i < j \<and> j \<le> i + 5"
  by (auto simp: parse_length_def Let_def dest: read_length_index split: option.splits if_splits)

lemma parse_SomeD:
  assumes "parse buf = Some t"
  shows "2 \<le> length (tlv_raw t)" and "length (tlv_raw t) \<le> length buf"
    and "tlv_raw t = take (length (tlv_raw t)) buf"
    and "\<exists>h. tlv_raw t = h @ tlv_value t"
proof -
  from assms obtain i j n where
    i: "parse_tag buf = Some (tlv_tag t, i)" and j: "parse_length buf i = Some (n, j)" and
    r: "get_range buf j (j + n) = Some (tlv_value t)" and raw: "tlv_raw t = take (j + n) buf"
    by (auto simp: parse_def Let_def split: option.splits)
  from r have le: "j + n \<le> length buf" and v: "tlv_value t = take n (drop j buf)"
    by (auto simp: get_range_def split: if_splits)
  from parse_tag_index [OF i] parse_length_index [OF j] have "2 \<le> j" by auto
  with le raw show "2 \<le> length (tlv_raw t)" "length (tlv_raw t) \<le> length buf"
    "tlv_raw t = take (length (tlv_raw t)) buf"
    by auto
  show "\<exists>h. tlv_raw t = h @ tlv_value t"
    using raw v by (metis take_add)
qed

function tlvs :: "bytes \<Rightarrow> tlv list" where
  "tlvs buf =
     (case parse buf of
        None \<Rightarrow> []
      | Some t \<Rightarrow> t # tlvs (drop (length (tlv_raw t)) buf))"
  by pat_completeness auto
termination
proof (relation "measure length")
  fix buf t assume "parse buf = Some t"
  with parse_SomeD(1,2) [OF this] show "(drop (length (tlv_raw t)) buf, buf) \<in> measure length"
    by simp
qed simp

declare tlvs.simps [simp del]

definition find_tag :: "bytes \<Rightarrow> u16 \<Rightarrow> tlv option" where
  "find_tag buf tag = List.find (\<lambda>t. tlv_tag t = tag) (tlvs buf)"

definition find_any :: "bytes \<Rightarrow> u16 list \<Rightarrow> tlv option" where
  "find_any buf tags = List.find (\<lambda>t. tlv_tag t \<in> set tags) (tlvs buf)"

section \<open>Encoding\<close>

datatype node = Prim u16 bytes | Cons_node u16 "node list"

text \<open>\<open>u32::to_be_bytes\<close> and \<open>u64::to_be_bytes\<close>, most significant first.\<close>

definition be_bytes :: "nat \<Rightarrow> nat \<Rightarrow> bytes" where
  "be_bytes n v = map (\<lambda>k. word_of_nat (v div 256 ^ k)) (rev [0..<n])"

definition encode_tag :: "u16 \<Rightarrow> bytes" where
  "encode_tag tag = (if drop_bit 8 tag \<noteq> 0 then [ucast (drop_bit 8 tag)] else []) @ [ucast tag]"

definition encode_length :: "nat \<Rightarrow> bytes" where
  "encode_length len =
     (if len < 0x80 then [word_of_nat len]
      else
        let bytes = be_bytes 4 (len mod 2 ^ 32);
            skip = length (takeWhile (\<lambda>b. b = 0) bytes)
        in (0x80 OR word_of_nat (4 - skip)) # drop skip bytes)"

definition encode_tlv :: "u16 \<Rightarrow> bytes \<Rightarrow> bytes" where
  "encode_tlv tag value = encode_tag tag @ encode_length (length value) @ value"

fun node_encode :: "node \<Rightarrow> bytes" where
  "node_encode (Prim tag value) = encode_tlv tag value"
| "node_encode (Cons_node tag children) = encode_tlv tag (concat (map node_encode children))"

fun node_tag :: "node \<Rightarrow> u16" where
  "node_tag (Prim tag _) = tag"
| "node_tag (Cons_node tag _) = tag"

fun node_contents :: "node \<Rightarrow> bytes" where
  "node_contents (Prim _ value) = value"
| "node_contents (Cons_node _ children) = concat (map node_encode children)"

lemma node_encode_eq: "node_encode n = encode_tlv (node_tag n) (node_contents n)"
  by (cases n) auto

section \<open>Numbers in big-endian bytes\<close>

definition be_value :: "bytes \<Rightarrow> nat" where
  "be_value bs = foldl (\<lambda>acc b. acc * 256 + unat b) 0 bs"

lemma be_value_foldl: "foldl (\<lambda>acc b. acc * 256 + unat b) acc bs = acc * 256 ^ length bs + be_value bs"
proof (induction bs arbitrary: acc)
  case Nil
  then show ?case by (simp add: be_value_def)
next
  case (Cons b bs)
  have "be_value (b # bs) = unat b * 256 ^ length bs + be_value bs"
    using Cons [of "unat b"] by (simp add: be_value_def)
  then show ?case
    using Cons [of "acc * 256 + unat b"] by (simp add: algebra_simps)
qed

lemma be_value_Nil [simp]: "be_value [] = 0"
  by (simp add: be_value_def)

lemma be_value_Cons: "be_value (b # bs) = unat b * 256 ^ length bs + be_value bs"
  using be_value_foldl [of "unat b" bs] by (simp add: be_value_def)

lemma be_value_less: "be_value bs < 256 ^ length bs"
proof (induction bs)
  case (Cons b bs)
  have "unat b * 256 ^ length bs + be_value bs < (unat b + 1) * 256 ^ length bs"
    using Cons by simp
  also have "\<dots> \<le> 256 * 256 ^ length bs"
    using unat_lt_256 [of b] by (intro mult_right_mono) (simp_all only: Suc_eq_plus1 [symmetric] Suc_leI zero_le)
  finally show ?case by (simp add: be_value_Cons)
qed simp

lemma be_value_zeros: "be_value (takeWhile (\<lambda>b. b = 0) bs) = 0"
  by (induction bs) (auto simp: be_value_Cons)

lemma be_value_append: "be_value (xs @ ys) = be_value xs * 256 ^ length ys + be_value ys"
  using be_value_foldl [of "be_value xs" ys] by (simp add: be_value_def)

lemma be_value_skip: "be_value (dropWhile (\<lambda>b. b = 0) bs) = be_value bs"
  using be_value_append [of "takeWhile (\<lambda>b. b = 0) bs" "dropWhile (\<lambda>b. b = 0) bs"]
  by (simp add: be_value_zeros)

lemma length_be_bytes [simp]: "length (be_bytes n v) = n"
  by (simp add: be_bytes_def)

lemma be_bytes_Suc: "be_bytes (Suc n) v = word_of_nat (v div 256 ^ n) # be_bytes n v"
  by (simp add: be_bytes_def)

lemma be_value_be_bytes: "be_value (be_bytes n v) = v mod 256 ^ n"
proof (induction n)
  case 0
  then show ?case by (simp add: be_bytes_def)
next
  case (Suc n)
  have "be_value (be_bytes (Suc n) v) = (v div 256 ^ n mod 256) * 256 ^ n + v mod 256 ^ n"
    using Suc by (simp add: be_bytes_Suc be_value_Cons unat_of_nat)
  also have "\<dots> = v mod (256 ^ n * 256)"
    by (simp add: mod_mult2_eq)
  finally show ?case by (simp add: mult.commute)
qed

section \<open>What is written is read back\<close>

text \<open>
  A tag of the sources' form: one byte whose low five bits are not all ones, or two bytes of which
  the first one's are.
\<close>
definition tag_ok :: "u16 \<Rightarrow> bool" where
  "tag_ok tag \<longleftrightarrow>
     (if drop_bit 8 tag = 0 then tag AND 0x1F \<noteq> 0x1F else drop_bit 8 tag AND 0x1F = 0x1F)"

lemma get_at_append [simp]:
  "i < length xs \<Longrightarrow> get_at (xs @ ys) i = Some (xs ! i)"
  by (simp add: get_at_def nth_append)

lemma ucast_ucast_low:
  assumes "drop_bit 8 (tag :: u16) = 0"
  shows "ucast (ucast tag :: u8) = tag"
proof (rule bit_word_eqI)
  fix i assume "i < LENGTH(16)"
  have "bit (drop_bit 8 tag) (i - 8) = False" using assms by simp
  then have "8 \<le> i \<Longrightarrow> \<not> bit tag i" by (simp add: bit_drop_bit_eq)
  with \<open>i < LENGTH(16)\<close> show "bit (ucast (ucast tag :: u8) :: u16) i = bit tag i"
    by (cases "i < 8") (auto simp: bit_simps)
qed

lemma join_tag: "push_bit 8 (ucast (ucast (drop_bit 8 (tag :: u16)) :: u8)) OR ucast (ucast tag :: u8) = tag"
  by (rule bit_word_eqI) (auto simp: bit_simps)

lemma ucast_high: "ucast (ucast (drop_bit 8 (tag :: u16)) :: u8) = drop_bit 8 tag"
  by (rule bit_word_eqI) (auto simp: bit_simps dest: bit_imp_le_length)

lemma parse_encode_tag:
  assumes "tag_ok tag"
  shows "parse_tag (encode_tag tag @ rest) = Some (tag, length (encode_tag tag))"
proof (cases "drop_bit 8 tag = 0")
  case True
  with assms show ?thesis
    by (simp add: parse_tag_def encode_tag_def tag_ok_def get_at_def Let_def ucast_ucast_low)
next
  case False
  with assms show ?thesis
    by (simp add: parse_tag_def encode_tag_def tag_ok_def get_at_def Let_def ucast_high)
      (metis join_tag ucast_high)
qed

lemma read_length_bytes:
  "read_length (pre @ bs @ rest) (length pre) (length bs) acc =
     Some (acc * 256 ^ length bs + be_value bs, length pre + length bs)"
proof (induction bs arbitrary: pre acc)
  case Nil
  then show ?case by simp
next
  case (Cons b bs)
  have "read_length (pre @ (b # bs) @ rest) (length pre) (length (b # bs)) acc =
    read_length ((pre @ [b]) @ bs @ rest) (length (pre @ [b])) (length bs) (acc * 256 + unat b)"
    by (simp add: get_at_def)
  also have "\<dots> = Some (acc * 256 ^ length (b # bs) + be_value (b # bs), length pre + length (b # bs))"
    by (subst Cons) (simp add: be_value_Cons algebra_simps)
  finally show ?case .
qed

lemma long_form_octet:
  assumes "k \<le> 4"
  shows "(0x80 OR word_of_nat k :: u8) AND 0x80 \<noteq> 0" and "unat ((0x80 OR word_of_nat k :: u8) AND 0x7F) = k"
proof -
  from assms consider "k = 0" | "k = 1" | "k = 2" | "k = 3" | "k = 4" by linarith
  then show "(0x80 OR word_of_nat k :: u8) AND 0x80 \<noteq> 0"
    "unat ((0x80 OR word_of_nat k :: u8) AND 0x7F) = k"
    by (cases; simp)+
qed

lemma short_form_octet:
  assumes "n < 0x80"
  shows "(word_of_nat n :: u8) AND 0x80 = 0" and "unat (word_of_nat n :: u8) = n"
proof -
  show u: "unat (word_of_nat n :: u8) = n"
    using assms by (simp add: unat_of_nat)
  have "(word_of_nat n :: u8) = take_bit 7 (word_of_nat n)"
    using assms by (simp add: take_bit_of_nat take_bit_nat_eq_self)
  then have "\<not> bit (word_of_nat n :: u8) 7"
    by (metis bit_take_bit_iff less_irrefl)
  moreover have "(0x80 :: u8) = push_bit 7 1" by simp
  ultimately show "(word_of_nat n :: u8) AND 0x80 = 0"
    by (metis and_exp_eq_0_iff_not_bit push_bit_of_1)
qed

lemma parse_encode_length:
  assumes "n < 2 ^ 32"
  shows "parse_length (encode_length n @ rest) 0 = Some (n, length (encode_length n))"
proof (cases "n < 0x80")
  case True
  with short_form_octet [OF True] show ?thesis
    by (simp add: parse_length_def encode_length_def get_at_def)
next
  case False
  define bs where "bs = dropWhile (\<lambda>b. b = 0) (be_bytes 4 n)"
  define skip where "skip = length (takeWhile (\<lambda>b. b = 0) (be_bytes 4 n))"
  have val: "be_value bs = n"
    using assms by (simp add: bs_def be_value_skip be_value_be_bytes)
  have split: "length (be_bytes 4 n) = skip + length bs"
    unfolding bs_def skip_def length_append [symmetric] takeWhile_dropWhile_id ..
  then have len: "length bs = 4 - skip" by simp
  have enc: "encode_length n = (0x80 OR word_of_nat (length bs)) # bs"
    using False assms len
    by (simp add: encode_length_def Let_def bs_def skip_def dropWhile_eq_drop)
  have "length bs \<le> 4" using len by simp
  then show ?thesis
    using read_length_bytes [of "[0x80 OR word_of_nat (length bs)]" bs rest 0] val
    by (simp add: enc parse_length_def get_at_def long_form_octet)
qed

lemma get_at_shift: "get_at (xs @ buf) (length xs + i) = get_at buf i"
  by (simp add: get_at_def)

lemma read_length_shift:
  "read_length (xs @ buf) (length xs + i) k acc =
     map_option (\<lambda>(n, j). (n, length xs + j)) (read_length buf i k acc)"
proof (induction k arbitrary: i acc)
  case (Suc k)
  then show ?case
    using Suc [of "i + 1"] by (simp add: get_at_shift split: option.splits)
qed simp

lemma parse_length_shift:
  "parse_length (xs @ buf) (length xs + i) =
     map_option (\<lambda>(n, j). (n, length xs + j)) (parse_length buf i)"
  using read_length_shift [of xs buf "Suc i"]
  by (auto simp: parse_length_def get_at_shift Let_def split: option.splits)

theorem parse_encode_tlv [codec_simps]:
  assumes "tag_ok tag" and "length value < 2 ^ 32"
  shows "parse (encode_tlv tag value @ rest) =
    Some \<lparr>tlv_tag = tag, tlv_value = value, tlv_raw = encode_tlv tag value\<rparr>"
proof -
  let ?t = "encode_tag tag" and ?l = "encode_length (length value)"
  have buf: "encode_tlv tag value @ rest = ?t @ (?l @ (value @ rest))"
    by (simp add: encode_tlv_def)
  have "parse_length (?t @ (?l @ (value @ rest))) (length ?t) = Some (length value, length ?t + length ?l)"
    using parse_length_shift [of ?t "?l @ (value @ rest)" 0] parse_encode_length [OF assms(2)] by simp
  then show ?thesis
    using parse_encode_tag [OF assms(1), of "?l @ (value @ rest)"]
    by (simp add: parse_def buf get_range_def Let_def) (simp add: encode_tlv_def)
qed

section \<open>Siblings and requests\<close>

interpretation tag_codec: prefix_codec tag_ok encode_tag parse_tag
  by unfold_locales (rule parse_encode_tag)

definition element_ok :: "u16 \<times> bytes \<Rightarrow> bool" where
  "element_ok e \<longleftrightarrow> tag_ok (fst e) \<and> length (snd e) < 2 ^ 32"

interpretation element: prefix_codec element_ok "\<lambda>e. encode_tlv (fst e) (snd e)"
  "\<lambda>bs. map_option (\<lambda>t. ((tlv_tag t, tlv_value t), length (tlv_raw t))) (parse bs)"
  by unfold_locales (auto simp: element_ok_def parse_encode_tlv)

fun node_ok :: "node \<Rightarrow> bool" where
  "node_ok (Prim tag value) \<longleftrightarrow> tag_ok tag \<and> length value < 2 ^ 32"
| "node_ok (Cons_node tag children) \<longleftrightarrow>
     tag_ok tag \<and> length (concat (map node_encode children)) < 2 ^ 32 \<and> list_all node_ok children"

definition node_tlv :: "node \<Rightarrow> tlv" where
  "node_tlv n = \<lparr>tlv_tag = node_tag n, tlv_value = node_contents n, tlv_raw = node_encode n\<rparr>"

lemma node_ok_element: "node_ok n \<Longrightarrow> element_ok (node_tag n, node_contents n)"
  by (cases n) (auto simp: element_ok_def)

lemma parse_node_encode [codec_simps]: "node_ok n \<Longrightarrow> parse (node_encode n @ rest) = Some (node_tlv n)"
  using node_ok_element [of n]
  by (simp add: node_encode_eq element_ok_def parse_encode_tlv node_tlv_def)

lemma tlvs_step: "parse buf = Some t \<Longrightarrow> tlvs buf = t # tlvs (drop (length (tlv_raw t)) buf)"
  by (subst tlvs.simps) simp

lemma tlvs_malformed: "parse buf = None \<Longrightarrow> tlvs buf = []"
  by (subst tlvs.simps) simp

lemma tlvs_nodes:
  "list_all node_ok ns \<Longrightarrow> tlvs (concat (map node_encode ns) @ rest) = map node_tlv ns @ tlvs rest"
proof (induction ns)
  case (Cons n ns)
  then have "parse (node_encode n @ concat (map node_encode ns) @ rest) = Some (node_tlv n)"
    by (simp add: parse_node_encode)
  from tlvs_step [OF this] Cons show ?case by (simp add: node_tlv_def)
qed simp

lemma parse_Nil [simp]: "parse [] = None"
  by (simp add: parse_def parse_tag_def get_at_def)

lemma tlvs_Nil [simp]: "tlvs [] = []"
  by (simp add: tlvs_malformed)

text \<open>
  C34: the contents of an encoded request are read back as exactly its children, in order, each with
  its tag, its contents and its own bytes; so looking a tag up gives the first child that has it.
\<close>

theorem der_children_roundtrip:
  assumes "node_ok (Cons_node tag children)"
  shows "parse (node_encode (Cons_node tag children)) = Some (node_tlv (Cons_node tag children)) \<and>
    tlvs (tlv_value (node_tlv (Cons_node tag children))) = map node_tlv children \<and>
    find_tag (tlv_value (node_tlv (Cons_node tag children))) t =
      map_option node_tlv (List.find (\<lambda>c. node_tag c = t) children)"
proof -
  have "list_all node_ok children" using assms by simp
  from tlvs_nodes [OF this, of "[]"]
  have kids: "tlvs (concat (map node_encode children)) = map node_tlv children" by simp
  have "List.find (\<lambda>t'. tlv_tag t' = t) (map node_tlv cs) =
    map_option node_tlv (List.find (\<lambda>c. node_tag c = t) cs)" for cs
    by (induction cs) (auto simp: node_tlv_def)
  with kids parse_node_encode [OF assms, of "[]"] show ?thesis
    by (simp add: find_tag_def) (simp add: node_tlv_def)
qed

theorem der_children_roundtrip_witness:
  "tlvs (tlv_value (node_tlv (Cons_node 0xBF31 [Cons_node 0xA0 [Prim 0x5A [0x98, 0x10]], Prim 0x81 [0xFF]]))) =
     map node_tlv [Cons_node 0xA0 [Prim 0x5A [0x98, 0x10]], Prim 0x81 [0xFF]]"
proof -
  have "node_ok (Cons_node 0xBF31 [Cons_node 0xA0 [Prim 0x5A [0x98, 0x10]], Prim 0x81 [0xFF]])"
    by (simp add: tag_ok_def encode_tlv_def encode_tag_def encode_length_def)
  from der_children_roundtrip [OF this] show ?thesis by blast
qed

text \<open>
  Reading the elements of any buffer, however malformed, stops; what was read is a prefix of
  the buffer, element after element, and what is left starts no element.
\<close>

theorem der_iter_prefix:
  "\<exists>rest. buf = concat (map tlv_raw (tlvs buf)) @ rest \<and> parse rest = None"
proof (induction buf rule: tlvs.induct)
  case (1 buf)
  show ?case
  proof (cases "parse buf")
    case None
    then show ?thesis by (simp add: tlvs_malformed)
  next
    case (Some t)
    let ?n = "length (tlv_raw t)"
    from "1.IH" [OF Some] obtain rest where
      rest: "drop ?n buf = concat (map tlv_raw (tlvs (drop ?n buf))) @ rest" and none: "parse rest = None"
      by blast
    have "buf = tlv_raw t @ drop ?n buf"
      using parse_SomeD(3) [OF Some] by (metis append_take_drop_id)
    also have "\<dots> = concat (map tlv_raw (tlvs buf)) @ rest"
      using rest tlvs_step [OF Some] by simp
    finally show ?thesis using none by blast
  qed
qed

text \<open>Two well-formed requests with the same bytes have the same tag and contents.\<close>

lemma node_encode_inject:
  "node_ok m \<Longrightarrow> node_ok n \<Longrightarrow> node_encode m = node_encode n \<Longrightarrow>
     node_tag m = node_tag n \<and> node_contents m = node_contents n"
  using element.whole.enc_inject [of "(node_tag m, node_contents m)" "(node_tag n, node_contents n)"]
  by (simp add: node_ok_element node_encode_eq)

text \<open>Every element found in a buffer is a stretch of that buffer and reads back as itself.\<close>

lemma parse_raw:
  assumes "parse buf = Some t"
  shows "parse (tlv_raw t) = Some t"
proof -
  from assms obtain i j n where
    i: "parse_tag buf = Some (tlv_tag t, i)" and j: "parse_length buf i = Some (n, j)" and
    r: "get_range buf j (j + n) = Some (tlv_value t)" and raw: "tlv_raw t = take (j + n) buf"
    by (auto simp: parse_def Let_def split: option.splits)
  from r have le: "j + n \<le> length buf" by (auto simp: get_range_def split: if_splits)
  let ?b = "take (j + n) buf"
  have same: "get_at ?b k = get_at buf k" if "k < j" for k
    using that le by (simp add: get_at_def)
  have i2: "1 \<le> i" "i \<le> 2" and ij: "i < j"
    using parse_tag_index [OF i] parse_length_index [OF j] by auto
  have tag: "parse_tag ?b = Some (tlv_tag t, i)"
    using i i2 ij by (auto simp: parse_tag_def same Let_def split: option.splits if_splits)
  have rl: "read_length ?b a k acc = read_length buf a k acc" if "a + k \<le> j" for a k acc
    using that by (induction k arbitrary: a acc) (auto simp: same split: option.splits)
  have len: "parse_length ?b i = Some (n, j)"
    using j ij read_length_index [of buf "Suc i" _ 0 n j] rl [of "Suc i"]
    by (auto simp: parse_length_def same Let_def split: option.splits if_splits)
  have "get_range ?b j (j + n) = Some (tlv_value t)"
    using r le by (auto simp: get_range_def take_drop)
  with tag len raw show ?thesis by (simp add: parse_def Let_def)
qed

lemma tlvs_elements: "t \<in> set (tlvs buf) \<Longrightarrow> parse (tlv_raw t) = Some t \<and> (\<exists>a b. buf = a @ tlv_raw t @ b)"
proof (induction buf rule: tlvs.induct)
  case (1 buf)
  then obtain u where u: "parse buf = Some u" by (cases "parse buf") (auto simp: tlvs_malformed)
  have split: "buf = tlv_raw u @ drop (length (tlv_raw u)) buf"
    using parse_SomeD(3) [OF u] by (metis append_take_drop_id)
  from "1.prems" tlvs_step [OF u] consider "t = u" | "t \<in> set (tlvs (drop (length (tlv_raw u)) buf))" by auto
  then show ?case
  proof cases
    case 1
    with split parse_raw [OF u] show ?thesis by (metis append_Nil)
  next
    case 2
    with "1.IH" [OF u] obtain a b where "parse (tlv_raw t) = Some t" "drop (length (tlv_raw u)) buf = a @ tlv_raw t @ b"
      by blast
    with split show ?thesis by (metis append_assoc)
  qed
qed

lemma find_SomeD: "List.find P xs = Some x \<Longrightarrow> x \<in> set xs \<and> P x"
  by (induction xs) (auto split: if_splits)

lemma tlv_value_infix:
  assumes "parse buf = Some t"
  shows "\<exists>a. tlv_raw t = a @ tlv_value t"
  using parse_SomeD(4) [OF assms] .

section \<open>Integers and bit strings\<close>

definition to_u64 :: "bytes \<Rightarrow> u64" where
  "to_u64 value = foldl (\<lambda>acc b. push_bit 8 acc OR ucast b) 0 value"

definition from_u64 :: "u64 \<Rightarrow> bytes" where
  "from_u64 value =
     (let bytes = be_bytes 8 (unat value);
          skip = min (length (takeWhile (\<lambda>b. b = 0) bytes)) 7;
          out = drop skip bytes
      in if out ! 0 AND 0x80 \<noteq> 0 then 0 # out else out)"

lemma shift_in_byte: "push_bit 8 (acc :: u64) OR ucast (b :: u8) = acc * 256 + word_of_nat (unat b)"
proof -
  have "push_bit 8 acc AND ucast b = 0"
    by (rule bit_word_eqI) (auto simp: bit_simps dest: bit_imp_le_length)
  then have "push_bit 8 acc OR ucast b = push_bit 8 acc + ucast b"
    by (rule disjunctive_add_eq_or [symmetric])
  then show ?thesis by (simp add: push_bit_eq_mult)
qed

lemma to_u64_value: "to_u64 bs = word_of_nat (be_value bs)"
proof -
  have "foldl (\<lambda>acc b. push_bit 8 acc OR ucast b) (word_of_nat n) bs =
    (word_of_nat (foldl (\<lambda>acc b. acc * 256 + unat b) n bs) :: u64)" for n
  proof (induction bs arbitrary: n)
    case (Cons b bs)
    have "push_bit 8 (word_of_nat n :: u64) OR ucast b = word_of_nat (n * 256 + unat b)"
      by (simp add: shift_in_byte)
    then show ?case using Cons [of "n * 256 + unat b"] by (simp only: foldl_Cons)
  qed simp
  from this [of 0] show ?thesis by (simp add: to_u64_def be_value_def)
qed

lemma be_value_all_zero: "\<forall>b \<in> set bs. b = 0 \<Longrightarrow> be_value bs = 0"
  by (induction bs) (auto simp: be_value_Cons)

lemma be_value_drop_zeros:
  assumes "k \<le> length (takeWhile (\<lambda>b. b = 0) bs)"
  shows "be_value (drop k bs) = be_value bs"
proof -
  have "take k bs = take k (takeWhile (\<lambda>b. b = 0) bs)"
    using assms take_append [of k "takeWhile (\<lambda>b. b = 0) bs" "dropWhile (\<lambda>b. b = 0) bs"]
    by (simp only: takeWhile_dropWhile_id) simp
  then have "\<forall>b \<in> set (take k bs). b = 0"
    using in_set_takeD set_takeWhileD by fastforce
  from be_value_all_zero [OF this] show ?thesis
    using be_value_append [of "take k bs" "drop k bs"] by simp
qed

text \<open>The bytes of \<open>from_u64\<close> before the sign byte.\<close>

definition stripped :: "u64 \<Rightarrow> bytes" where
  "stripped v = (let bytes = be_bytes 8 (unat v) in
     drop (min (length (takeWhile (\<lambda>b. b = 0) bytes)) 7) bytes)"

lemma from_u64_stripped:
  "from_u64 v = (if stripped v ! 0 AND 0x80 \<noteq> 0 then 0 # stripped v else stripped v)"
  by (simp add: from_u64_def stripped_def Let_def)

lemma stripped_nonempty [simp]: "stripped v \<noteq> []"
  by (simp add: stripped_def Let_def)

lemma be_value_stripped: "be_value (stripped v) = unat v"
proof -
  have "unat v < 2 ^ LENGTH(64)" by (rule unsigned_less)
  then show ?thesis
    by (simp add: stripped_def Let_def be_value_drop_zeros be_value_be_bytes)
qed

lemma stripped_first:
  assumes "stripped v ! 0 = 0"
  shows "length (stripped v) = 1"
proof -
  define bs where "bs = be_bytes 8 (unat v)"
  define z where "z = length (takeWhile (\<lambda>b. b = 0) bs)"
  have st: "stripped v = drop (min z 7) bs" and len: "length bs = 8"
    by (simp_all add: stripped_def bs_def z_def Let_def)
  have "\<not> z < 7"
  proof
    assume z: "z < 7"
    then have "bs ! z \<noteq> 0"
      unfolding z_def using len by (intro nth_length_takeWhile) simp
    with assms st z len show False by simp
  qed
  then show ?thesis using st len by simp
qed

lemma to_u64_from_u64 [codec_simps]: "to_u64 (from_u64 v) = v"
proof -
  have "to_u64 (stripped v) = v"
    by (simp add: to_u64_value be_value_stripped)
  moreover have "to_u64 (0 # stripped v) = to_u64 (stripped v)"
    by (simp add: to_u64_def)
  ultimately show ?thesis by (simp add: from_u64_stripped)
qed

lemma from_u64_length: "length (from_u64 v) \<le> 9"
proof -
  have "length (stripped v) \<le> 8" by (simp add: stripped_def Let_def)
  then show ?thesis by (simp add: from_u64_stripped)
qed

interpretation u64_codec: codec "\<lambda>_. True" from_u64 "\<lambda>bs. Some (to_u64 bs)"
  by unfold_locales (simp add: to_u64_from_u64)

text \<open>
  The INTEGER contents written for a 64-bit number read back as that number; they never look
  negative, and no shorter contents would do (a leading zero byte is there only to clear the sign).
\<close>

theorem from_u64_roundtrip:
  "to_u64 (from_u64 v) = v \<and> from_u64 v ! 0 AND 0x80 = 0 \<and>
   (from_u64 v ! 0 = 0 \<longrightarrow> length (from_u64 v) = 1 \<or> from_u64 v ! 1 AND 0x80 \<noteq> 0)"
  using stripped_first [of v] to_u64_from_u64 [of v] by (auto simp: from_u64_stripped)

theorem from_u64_roundtrip_witness:
  "to_u64 (from_u64 0x80) = 0x80 \<and> from_u64 0x80 ! 1 AND 0x80 \<noteq> 0"
proof -
  have "from_u64 0x80 = [0, 0x80]"
    by (simp add: from_u64_def be_bytes_def Let_def upt_conv_Cons)
  then show ?thesis using from_u64_roundtrip [of "0x80"] by simp
qed

text \<open>The inner loop over the eight bits of a byte, and the loop over the bytes.\<close>

fun name_bits :: "string list \<Rightarrow> nat \<Rightarrow> nat \<Rightarrow> u32 \<Rightarrow> string list" where
  "name_bits names index 0 byte = []"
| "name_bits names index (Suc k) byte =
     (if index \<ge> length names then []
      else (if byte AND 0x80 \<noteq> 0 then [names ! index] else []) @
        name_bits names (index + 1) k (push_bit 1 byte))"

fun bit_names_from :: "string list \<Rightarrow> u8 \<Rightarrow> nat \<Rightarrow> bytes \<Rightarrow> string list" where
  "bit_names_from names unused j [] = []"
| "bit_names_from names unused j (b # bits) =
     (let byte = (ucast b :: u32);
          byte = (if bits = [] then byte AND NOT (drop_bit (8 - unat (min unused 8)) 0xFF) else byte)
      in name_bits names (j * 8) 8 byte @ bit_names_from names unused (j + 1) bits)"

definition bit_names :: "bytes \<Rightarrow> string list \<Rightarrow> string list" where
  "bit_names value names =
     (case value of [] \<Rightarrow> [] | unused # bits \<Rightarrow> bit_names_from names unused 0 bits)"

text \<open>Bit \<open>n\<close> of a BIT STRING, counted from the most significant bit of the first byte.\<close>

definition bit_is_set :: "u8 \<Rightarrow> bytes \<Rightarrow> nat \<Rightarrow> bool" where
  "bit_is_set unused bits n \<longleftrightarrow>
     n div 8 < length bits \<and> bit (bits ! (n div 8)) (7 - n mod 8) \<and>
     (n div 8 = length bits - 1 \<longrightarrow> unat (min unused 8) \<le> 7 - n mod 8)"

lemma and_0x80: "(byte :: u32) AND 0x80 \<noteq> 0 \<longleftrightarrow> bit byte 7"
proof -
  have "(0x80 :: u32) = push_bit 7 1" by simp
  then show ?thesis by (metis and_exp_eq_0_iff_not_bit push_bit_of_1)
qed

lemma bit_0xFF: "bit (0xFF :: u32) m \<longleftrightarrow> m < 8"
proof -
  have "(0xFF :: u32) = mask 8" by (simp add: mask_eq_exp_minus_1)
  then show ?thesis by (simp only: bit_mask_iff possible_bit_word) auto
qed

lemma bit_shifted: "m < 31 \<Longrightarrow> bit (push_bit 1 (byte :: u32)) (Suc m) = bit byte m"
  by (simp only: bit_push_bit_iff possible_bit_word) simp

lemma name_bits_eq:
  "k \<le> 8 \<Longrightarrow> name_bits names index k byte =
     map ((!) names) (filter (\<lambda>n. bit byte (7 - (n - index))) [index ..< min (index + k) (length names)])"
proof (induction k arbitrary: index byte)
  case (Suc k)
  show ?case
  proof (cases "index \<ge> length names")
    case False
    have shifted: "bit (push_bit 1 byte) (7 - (n - Suc index)) = bit byte (7 - (n - index))"
      if "n \<in> set [Suc index ..< min (Suc index + k) (length names)]" for n
    proof -
      from that obtain d where "n = Suc index + d" by (auto simp: le_iff_add)
      with that Suc.prems have "7 - (n - Suc index) = Suc (6 - d)" "7 - (n - index) = 6 - d" by auto
      then show ?thesis using bit_shifted [of "6 - d" byte] by simp
    qed
    let ?R = "[Suc index ..< min (Suc index + k) (length names)]"
    have flt: "filter (\<lambda>n. bit (push_bit 1 byte) (7 - (n - Suc index))) ?R =
      filter (\<lambda>n. bit byte (7 - (n - index))) ?R"
      by (intro filter_cong refl shifted)
    have range: "[index ..< min (index + Suc k) (length names)] = index # ?R"
      using False by (simp add: upt_conv_Cons)
    have "name_bits names index (Suc k) byte =
      (if bit byte 7 then [names ! index] else []) @ name_bits names (Suc index) k (push_bit 1 byte)"
      using False by (simp only: name_bits.simps and_0x80 if_False) simp
    also have "name_bits names (Suc index) k (push_bit 1 byte) =
      map ((!) names) (filter (\<lambda>n. bit byte (7 - (n - index))) ?R)"
      using Suc.prems by (simp only: Suc.IH flt Suc_leD)
    finally show ?thesis unfolding range by simp
  qed simp
qed simp

lemma bit_mask_unused:
  assumes "i < 8" and "u \<le> 8"
  shows "bit (ucast (b :: u8) AND NOT (drop_bit (8 - u) 0xFF) :: u32) i \<longleftrightarrow> bit b i \<and> u \<le> i"
proof -
  have "bit (drop_bit (8 - u) (0xFF :: u32)) i \<longleftrightarrow> i < u"
    using assms by (simp only: bit_drop_bit_eq comp_apply bit_0xFF) linarith
  moreover have "bit (ucast b :: u32) i = bit b i"
    using assms by (auto simp: bit_simps)
  ultimately show ?thesis
    using assms by (auto simp: bit_and_iff bit_not_iff simp del: unsigned_and_eq)
qed

lemma upt_split: "i \<le> j \<Longrightarrow> j \<le> k \<Longrightarrow> [i ..< k] = [i ..< j] @ [j ..< k]"
  by (metis le_add_diff_inverse upt_add_eq_append)

lemma bit_names_from_eq:
  "bit_names_from names unused j bits =
     map ((!) names) (filter (\<lambda>n. bit_is_set unused bits (n - j * 8))
       [j * 8 ..< min ((j + length bits) * 8) (length names)])"
proof (induction names unused j bits rule: bit_names_from.induct)
  case (2 names unused j b bits)
  define byte where "byte = (if bits = [] then (ucast b :: u32) AND NOT (drop_bit (8 - unat (min unused 8)) 0xFF)
    else ucast b)"
  have u: "unat (min unused 8) \<le> 8" by (simp add: min_def word_le_nat_alt)
  have here: "bit byte (7 - (n - j * 8)) = bit_is_set unused (b # bits) (n - j * 8)"
    if "n \<in> set [j * 8 ..< min (j * 8 + 8) (length names)]" for n
  proof (cases "bits = []")
    case True
    have "7 - (n - j * 8) < 8" by simp
    from bit_mask_unused [OF this u, of b] True that show ?thesis
      by (auto simp: byte_def bit_is_set_def)
  next
    case False
    with that show ?thesis by (auto simp: byte_def bit_is_set_def bit_simps)
  qed
  have later: "bit_is_set unused (b # bits) (n - j * 8) = bit_is_set unused bits (n - (j + 1) * 8)"
    if "n \<in> set [(j + 1) * 8 ..< min ((j + 1 + length bits) * 8) (length names)]" for n
  proof -
    from that obtain m where "n = (j + 1) * 8 + m" by (auto simp: le_iff_add)
    then have "n - j * 8 = 8 + m" "n - (j + 1) * 8 = m" by simp_all
    then show ?thesis using that by (auto simp: bit_is_set_def div_add1_eq)
  qed
  have range: "[j * 8 ..< min ((j + length (b # bits)) * 8) (length names)] =
    [j * 8 ..< min (j * 8 + 8) (length names)] @
    [(j + 1) * 8 ..< min ((j + 1 + length bits) * 8) (length names)]"
    using upt_split [of "j * 8" "j * 8 + 8" "min ((j + 1 + length bits) * 8) (length names)"]
    by (cases "j * 8 + 8 \<le> length names") (auto simp: min_def add.commute)
  have "bit_names_from names unused j (b # bits) =
    name_bits names (j * 8) 8 byte @ bit_names_from names unused (j + 1) bits"
    by (simp add: byte_def Let_def)
  also have "\<dots> = map ((!) names) (filter (\<lambda>n. bit_is_set unused (b # bits) (n - j * 8))
       [j * 8 ..< min ((j + length (b # bits)) * 8) (length names)])"
    unfolding range filter_append map_append name_bits_eq [OF order_refl] "2.IH" [OF refl refl]
    by (simp only: here later cong: filter_cong map_cong)
  finally show ?case .
qed simp

text \<open>
  The names given for a BIT STRING are exactly those of its set bits, in the order of the name
  list; bits past the last name are ignored, and so are the declared unused bits of the last byte.
\<close>

theorem bit_names_spec:
  "bit_names (unused # bits) names =
     map ((!) names) (filter (bit_is_set unused bits) [0 ..< length names])"
proof -
  have "filter (bit_is_set unused bits) [0 ..< length names] =
    filter (bit_is_set unused bits) [0 ..< min (length bits * 8) (length names)]"
  proof (cases "length bits * 8 \<le> length names")
    case True
    have "\<not> bit_is_set unused bits n" if "length bits * 8 \<le> n" for n
      using that by (simp add: bit_is_set_def div_less_iff_less_mult not_less)
    then show ?thesis
      using upt_split [of 0 "length bits * 8" "length names"] True by (simp add: min_def)
  qed (simp add: min_def)
  then show ?thesis
    using bit_names_from_eq [of names unused 0 bits] by (simp add: bit_names_def)
qed

end
