(* ===== verification/Decimal_Text.thy ===== *)
theory Decimal_Text
  imports Agent_Prelude
begin

text \<open>
  Decimal numbers in text, as Rust's \<open>Display\<close> writes and \<open>parse\<close> reads unsigned integers, and
  \<open>str::split_once\<close>. The lemmas show that what is written is read back, and that it is the only
  text without a leading zero that is.
\<close>

definition digit_value :: "char \<Rightarrow> nat" where
  "digit_value c = of_char c - 48"

definition parse_digits :: "string \<Rightarrow> nat" where
  "parse_digits s = foldl (\<lambda>v c. 10 * v + digit_value c) 0 s"

text \<open>\<open>str::parse::<uN>()\<close>, \<open>N = w\<close>: an optional \<open>+\<close>, at least one digit, no overflow.\<close>

definition parse_uint :: "nat \<Rightarrow> string \<Rightarrow> nat option" where
  "parse_uint w s =
     (let t = (case s of [] \<Rightarrow> [] | c # cs \<Rightarrow> if c = CHR ''+'' then cs else s) in
      if t \<noteq> [] \<and> list_all is_ascii_digit t \<and> parse_digits t < 2 ^ w then Some (parse_digits t) else None)"

definition split_once :: "char \<Rightarrow> string \<Rightarrow> (string \<times> string) option" where
  "split_once c s =
     (if c \<in> set s then Some (takeWhile (\<lambda>x. x \<noteq> c) s, tl (dropWhile (\<lambda>x. x \<noteq> c) s)) else None)"

lemma split_once_append: "c \<notin> set a \<Longrightarrow> split_once c (a @ c # b) = Some (a, b)"
  by (induction a) (auto simp: split_once_def)

lemma split_once_SomeD: "split_once c s = Some (a, b) \<Longrightarrow> s = a @ c # b \<and> c \<notin> set a"
proof -
  assume "split_once c s = Some (a, b)"
  then have c: "c \<in> set s" and a: "a = takeWhile (\<lambda>x. x \<noteq> c) s" and b: "b = tl (dropWhile (\<lambda>x. x \<noteq> c) s)"
    by (auto simp: split_once_def split: if_splits)
  have "dropWhile (\<lambda>x. x \<noteq> c) s \<noteq> []" using c by (simp add: dropWhile_eq_Nil_conv)
  then have "dropWhile (\<lambda>x. x \<noteq> c) s = c # b"
    using hd_dropWhile [of "\<lambda>x. x \<noteq> c" s] b by (cases "dropWhile (\<lambda>x. x \<noteq> c) s") auto
  then have "s = a @ c # b" using a by (metis takeWhile_dropWhile_id)
  moreover have "c \<notin> set a" unfolding a by (auto dest: set_takeWhileD)
  ultimately show ?thesis by simp
qed

lemma show_nat_step: "10 \<le> n \<Longrightarrow> show_nat n = show_nat (n div 10) @ [char_of (48 + n mod 10)]"
  by (subst show_nat.simps) simp

lemma show_nat_small: "n < 10 \<Longrightarrow> show_nat n = [char_of (48 + n)]"
  by (subst show_nat.simps) simp

lemma show_nat_not_Nil [simp]: "show_nat n \<noteq> []"
  by (subst show_nat.simps) simp

lemma of_char_digit: "d < 10 \<Longrightarrow> of_char (char_of (48 + d) :: char) = (48 + d :: nat)"
  by (simp add: of_char_of)

lemma is_ascii_digit_iff: "is_ascii_digit c \<longleftrightarrow> 48 \<le> (of_char c :: nat) \<and> (of_char c :: nat) \<le> 57"
  by (simp add: is_ascii_digit_def less_eq_char_def)

lemma digits_show_nat: "list_all is_ascii_digit (show_nat n)"
proof (induction n rule: show_nat.induct)
  case (1 n)
  show ?case
  proof (cases "n < 10")
    case True
    then show ?thesis by (simp add: show_nat_small is_ascii_digit_iff of_char_digit)
  next
    case False
    moreover have "n mod 10 < 10" by simp
    ultimately show ?thesis
      using 1 by (simp add: show_nat_step is_ascii_digit_iff of_char_digit del: of_char_of)
  qed
qed

lemma parse_digits_snoc: "parse_digits (s @ [c]) = 10 * parse_digits s + digit_value c"
  by (simp add: parse_digits_def)

lemma parse_show_nat [simp]: "parse_digits (show_nat n) = n"
proof (induction n rule: show_nat.induct)
  case (1 n)
  show ?case
  proof (cases "n < 10")
    case True
    then show ?thesis by (simp add: show_nat_small parse_digits_def digit_value_def of_char_digit)
  next
    case False
    moreover have "n mod 10 < 10" by simp
    ultimately show ?thesis
      using 1 by (simp add: show_nat_step parse_digits_snoc digit_value_def of_char_digit del: of_char_of)
  qed
qed

lemma show_nat_hd: "0 < n \<Longrightarrow> hd (show_nat n) \<noteq> CHR ''0''"
proof (induction n rule: show_nat.induct)
  case (1 n)
  show ?case
  proof (cases "n < 10")
    case True
    have "of_char (char_of (48 + n) :: char) = 48 + n" using True by (rule of_char_digit)
    moreover have "of_char (CHR ''0'') = (48 :: nat)" by simp
    ultimately have "char_of (48 + n) \<noteq> CHR ''0''" using "1.prems" by (metis add_eq_self_zero less_numeral_extra(3))
    with True show ?thesis by (simp add: show_nat_small)
  next
    case False
    moreover have "0 < n div 10" using False by simp
    ultimately show ?thesis using "1.IH" [OF False] by (simp add: show_nat_step)
  qed
qed

lemma length_show_nat_le: "0 < k \<Longrightarrow> n < 10 ^ k \<Longrightarrow> length (show_nat n) \<le> k"
proof (induction n arbitrary: k rule: show_nat.induct)
  case (1 n)
  show ?case
  proof (cases "n < 10")
    case True
    with "1.prems" show ?thesis by (simp add: show_nat_small)
  next
    case False
    obtain j where k: "k = Suc j" using "1.prems" by (cases k) auto
    have "0 < j" using False "1.prems" k by (cases j) auto
    moreover have "n div 10 < 10 ^ j" using "1.prems" k by (simp add: less_mult_imp_div_less mult.commute)
    ultimately have "length (show_nat (n div 10)) \<le> j" by (rule "1.IH" [OF False])
    with False k show ?thesis by (simp add: show_nat_step)
  qed
qed

lemma parse_uint_show_nat [codec_simps]:
  assumes "n < 2 ^ w"
  shows "parse_uint w (show_nat n) = Some n"
proof -
  obtain c cs where s: "show_nat n = c # cs" by (cases "show_nat n") auto
  have "is_ascii_digit c" using digits_show_nat [of n] s by simp
  then have "c \<noteq> CHR ''+''" by (auto simp: is_ascii_digit_iff)
  with assms s digits_show_nat [of n] parse_show_nat [of n] show ?thesis
    by (simp add: parse_uint_def)
qed

text \<open>The only text without a leading zero that reads as a number is the one it is written as.\<close>

lemma digit_value_lt: "is_ascii_digit c \<Longrightarrow> digit_value c < 10"
  unfolding is_ascii_digit_iff digit_value_def by linarith

lemma char_of_digit_value: "is_ascii_digit c \<Longrightarrow> char_of (48 + digit_value c) = c"
  by (simp add: is_ascii_digit_iff digit_value_def)

lemma parse_digits_Cons_pos:
  "list_all is_ascii_digit (c # s) \<Longrightarrow> c \<noteq> CHR ''0'' \<Longrightarrow> 0 < parse_digits (c # s)"
proof (induction s rule: rev_induct)
  case Nil
  have "digit_value c \<noteq> 0"
  proof
    assume "digit_value c = 0"
    then have "of_char c = (48 :: nat)" using Nil by (simp add: digit_value_def is_ascii_digit_iff)
    moreover have "of_char CHR ''0'' = (48 :: nat)" by simp
    ultimately have "c = CHR ''0''" by (metis char_of_char)
    with Nil show False by simp
  qed
  then show ?case by (simp add: parse_digits_def)
next
  case (snoc x xs)
  then show ?case using parse_digits_snoc [of "c # xs" x] by simp
qed

lemma show_parse_digits:
  "list_all is_ascii_digit s \<Longrightarrow> s \<noteq> [] \<Longrightarrow> s = ''0'' \<or> hd s \<noteq> CHR ''0'' \<Longrightarrow> show_nat (parse_digits s) = s"
proof (induction s rule: rev_induct)
  case (snoc c t)
  have c: "is_ascii_digit c" using snoc.prems by simp
  show ?case
  proof (cases t)
    case Nil
    with c digit_value_lt [OF c] show ?thesis
      by (simp add: parse_digits_def show_nat_small char_of_digit_value)
  next
    case (Cons x xs)
    with snoc.prems have hd: "hd t \<noteq> CHR ''0''" by auto
    with Cons snoc.prems have "0 < parse_digits t" by (simp add: parse_digits_Cons_pos)
    with digit_value_lt [OF c] have "show_nat (parse_digits (t @ [c])) = show_nat (parse_digits t) @ [c]"
      by (simp add: parse_digits_snoc show_nat_step char_of_digit_value c)
    with snoc.IH snoc.prems hd Cons show ?thesis by simp
  qed
qed simp

end
