(* ===== verification/Auth_State.thy ===== *)
theory Auth_State
  imports Session_Table Hex_Codec Der_Codec Decimal_Text
begin

text \<open>
  \<open>src/zte-agent/src/auth/mod.rs\<close>: logins with the agent password, sessions by bearer token or browser
  cookie, logout and revocation, CSRF values and login form tokens, over the limiter and the session
  table. Every operation is a function of the state \<open>'r auth\<close> (\<open>Inner\<close>, the once-set cells, the random
  source and what was told to the revoke hook and the log) and of the time it reads under the lock.

  The crates are parameters: \<open>sha\<close> is SHA-256, \<open>hmac key msg\<close> HMAC-SHA256 (\<open>None\<close> where the crate
  refuses the key) and \<open>fill n\<close> the random source (\<open>None\<close> when it has no entropy).
\<close>

section \<open>State\<close>

datatype login_error = NoPassword | BadPassword | RateLimited duration | Entropy

record issued =
  iss_id :: session_id
  iss_token :: string
  iss_csrf :: "string option"
  iss_max_age :: duration

record principal =
  pr_id :: session_id
  pr_kind :: kind
  pr_csrf :: bytes

datatype session_check = Live duration | Expired | Revoked

record 'r auth =
  rng :: 'r
  password :: "bytes option"
  table :: session_table
  limiter :: limiter
  hook_set :: bool
  hook_calls :: "session_id list list"
  form_key_cell :: "bytes option"
  log_lines :: "log_line list"

type_synonym 'r rng_fill = "nat \<Rightarrow> 'r \<Rightarrow> bytes option \<times> 'r"

definition with_parts :: "'r \<Rightarrow> auth_config \<Rightarrow> boot_instant \<Rightarrow> 'r auth" where
  "with_parts r cfg now =
     \<lparr>rng = r, password = None, table = table_new cfg, limiter = limiter_new (limiter_cfg cfg) now,
      hook_set = False, hook_calls = [], form_key_cell = None, log_lines = []\<rparr>"

section \<open>Hashing and hex\<close>

fun kind_tag :: "kind \<Rightarrow> bytes" where
  "kind_tag Bearer = as_bytes (''bearer'' @ [CHR 0x00])"
| "kind_tag Browser = as_bytes (''browser'' @ [CHR 0x00])"

definition digest :: "(bytes \<Rightarrow> bytes) \<Rightarrow> kind \<Rightarrow> bytes \<Rightarrow> bytes" where
  "digest sha k token = sha (kind_tag k @ token)"

definition nibble :: "char \<Rightarrow> u8 option" where
  "nibble c =
     (if CHR ''0'' \<le> c \<and> c \<le> CHR ''9'' then Some (byte_of c - 48)
      else if CHR ''a'' \<le> c \<and> c \<le> CHR ''f'' then Some (byte_of c - 97 + 10)
      else None)"

fun parse_hex_pairs :: "string \<Rightarrow> bytes option" where
  "parse_hex_pairs (a # b # s) =
     (case nibble a of
        None \<Rightarrow> None
      | Some x \<Rightarrow> (case nibble b of
          None \<Rightarrow> None
        | Some y \<Rightarrow> map_option (Cons (push_bit 4 x OR y)) (parse_hex_pairs s)))"
| "parse_hex_pairs _ = Some []"

definition parse_hex :: "nat \<Rightarrow> string \<Rightarrow> bytes option" where
  "parse_hex n s = (if length s \<noteq> 2 * n then None else parse_hex_pairs s)"

definition form_mac :: "(bytes \<Rightarrow> bytes \<Rightarrow> bytes option) \<Rightarrow> bytes \<Rightarrow> string \<Rightarrow> nat \<Rightarrow> bytes option" where
  "form_mac hmac key pre secs =
     hmac key (as_bytes (''zte-ui-login'' @ [CHR 0x00]) @ as_bytes pre @ be_bytes 8 secs)"

definition form_offset :: "(bytes \<Rightarrow> bytes \<Rightarrow> bytes option) \<Rightarrow> bytes \<Rightarrow> nat" where
  "form_offset hmac key =
     (case hmac key (as_bytes (''zte-ui-login-offset'' @ [CHR 0x00])) of
        None \<Rightarrow> 0
      | Some b \<Rightarrow> be_value (take 4 b))"

section \<open>Operations\<close>

definition set_password :: "(bytes \<Rightarrow> bytes) \<Rightarrow> string \<Rightarrow> 'r auth \<Rightarrow> 'r auth" where
  "set_password sha pw st =
     (if pw = [] then st
      else case password st of
        None \<Rightarrow> st\<lparr>password := Some (sha (as_bytes pw))\<rparr>
      | Some _ \<Rightarrow> st)"

definition has_password :: "'r auth \<Rightarrow> bool" where
  "has_password st \<longleftrightarrow> password st \<noteq> None"

definition revoked :: "session_id list \<Rightarrow> 'r auth \<Rightarrow> 'r auth" where
  "revoked is st =
     (if is = [] then st
      else if hook_set st then st\<lparr>hook_calls := hook_calls st @ [is]\<rparr> else st)"

definition set_revoke_hook :: "'r auth \<Rightarrow> 'r auth" where
  "set_revoke_hook st = st\<lparr>hook_set := True\<rparr>"

text \<open>
  The middle of \<open>login\<close> and of \<open>check_password\<close>, under the lock: the rate limit, then the comparison.
  \<open>None\<close> is the right password.
\<close>

definition judge_password :: "bytes \<Rightarrow> peer_key \<Rightarrow> boot_instant \<Rightarrow> 'r auth \<Rightarrow> login_error option \<times> 'r auth" where
  "judge_password presented peer now st =
     (let (admit, l) = check peer now (limiter st); st = st\<lparr>limiter := l\<rparr> in
      case admit of
        Deny w \<Rightarrow> (Some (RateLimited w), st)
      | Allow \<Rightarrow> (case password st of
          None \<Rightarrow> (Some NoPassword, st)
        | Some stored \<Rightarrow>
            if presented \<noteq> stored
            then let (note, l) = record_failure peer now (limiter st)
                 in (Some BadPassword,
                     st\<lparr>limiter := l,
                        log_lines := log_lines st @ (case note of None \<Rightarrow> [] | Some n \<Rightarrow> [n])\<rparr>)
            else (None, st\<lparr>limiter := record_success peer (limiter st)\<rparr>)))"

definition check_password :: "(bytes \<Rightarrow> bytes) \<Rightarrow> boot_instant \<Rightarrow> string \<Rightarrow> peer_key \<Rightarrow> 'r auth \<Rightarrow>
    (login_error + unit) \<times> 'r auth" where
  "check_password sha now pw peer st =
     (let (err, st) = judge_password (sha (as_bytes pw)) peer now st
      in (case err of Some e \<Rightarrow> Err e | None \<Rightarrow> Ok (), st))"

text \<open>The sessions of the cookies a browser login replaces: removed one by one.\<close>

fun remove_replaced :: "bytes list \<Rightarrow> session_table \<Rightarrow> session_id list \<times> session_table" where
  "remove_replaced [] t = ([], t)"
| "remove_replaced (d # ds) t =
     (let (gone, t) = remove_digest Browser d t; (more_gone, t) = remove_replaced ds t
      in ((case gone of None \<Rightarrow> [] | Some i \<Rightarrow> [i]) @ more_gone, t))"

definition issue :: "auth_config \<Rightarrow> boot_instant \<Rightarrow> kind \<Rightarrow> bytes \<Rightarrow> bytes \<Rightarrow> bytes list \<Rightarrow> session_table \<Rightarrow>
    session_id \<times> session_id list \<times> session_table" where
  "issue cfg now k token_digest csrf replaced t =
     (let (gone, t) = remove_replaced replaced t;
          (i, t) = alloc_id t;
          e = \<lparr>ent_id = i, ent_kind = k, ent_digest = token_digest, ent_csrf = csrf,
               created = now, last_used = now\<rparr>;
          (evicted, t) = insert_entry e cfg t
      in (i, gone @ (case evicted of None \<Rightarrow> [] | Some i \<Rightarrow> [i]), t))"

definition login :: "(bytes \<Rightarrow> bytes) \<Rightarrow> 'r rng_fill \<Rightarrow> auth_config \<Rightarrow> boot_instant \<Rightarrow> string \<Rightarrow> kind \<Rightarrow> peer_key \<Rightarrow>
    string list \<Rightarrow> 'r auth \<Rightarrow> (login_error + issued) \<times> 'r auth" where
  "login sha fill cfg now pw k peer replacing st =
     (case fill 32 (rng st) of
        (None, r) \<Rightarrow> (Err Entropy, st\<lparr>rng := r\<rparr>)
      | (Some token, r) \<Rightarrow>
          (case (if k = Browser then fill 32 r else (Some (replicate 32 0), r)) of
             (None, r) \<Rightarrow> (Err Entropy, st\<lparr>rng := r\<rparr>)
           | (Some csrf, r) \<Rightarrow>
               let presented = sha (as_bytes pw);
                   token_digest = digest sha k token;
                   replaced = (if k = Browser
                     then map (digest sha Browser) (List.map_filter (parse_hex 32) replacing) else []);
                   st = st\<lparr>rng := r, table := snd (prune now cfg (table st))\<rparr>;
                   (err, st) = judge_password presented peer now st
               in (case err of
                     Some e \<Rightarrow> (Err e, st)
                   | None \<Rightarrow>
                       let (i, gone, t) = issue cfg now k token_digest csrf replaced (table st)
                       in (Ok \<lparr>iss_id = i, iss_token = hex_encode token,
                               iss_csrf = (if k = Browser then Some (hex_encode csrf) else None),
                               iss_max_age = absolute (policy_of cfg k)\<rparr>,
                           revoked gone (st\<lparr>table := t\<rparr>)))))"

definition session_of :: "(bytes \<Rightarrow> bytes) \<Rightarrow> kind \<Rightarrow> string \<Rightarrow> bytes option" where
  "session_of sha k token = map_option (digest sha k) (parse_hex 32 token)"

definition authenticate :: "(bytes \<Rightarrow> bytes) \<Rightarrow> auth_config \<Rightarrow> boot_instant \<Rightarrow> kind \<Rightarrow> string \<Rightarrow> 'r auth \<Rightarrow>
    principal option \<times> 'r auth" where
  "authenticate sha cfg now k token st =
     (case session_of sha k token of
        None \<Rightarrow> (None, st)
      | Some d \<Rightarrow>
          let t = snd (prune now cfg (table st)) in
          (case find_entry k d t of
             None \<Rightarrow> (None, st\<lparr>table := t\<rparr>)
           | Some e \<Rightarrow>
               (Some \<lparr>pr_id = ent_id e, pr_kind = k, pr_csrf = ent_csrf e\<rparr>,
                st\<lparr>table := slide (\<lambda>e. ent_digest e = d \<and> ent_kind e = k) now t\<rparr>)))"

definition check_csrf :: "principal \<Rightarrow> string \<Rightarrow> bool" where
  "check_csrf p presented \<longleftrightarrow> pr_kind p = Browser \<and> parse_hex 32 presented = Some (pr_csrf p)"

definition csrf_token :: "principal \<Rightarrow> string" where
  "csrf_token p = hex_encode (pr_csrf p)"

definition logout :: "(bytes \<Rightarrow> bytes) \<Rightarrow> auth_config \<Rightarrow> boot_instant \<Rightarrow> kind \<Rightarrow> string \<Rightarrow> 'r auth \<Rightarrow> bool \<times> 'r auth" where
  "logout sha cfg now k token st =
     (case session_of sha k token of
        None \<Rightarrow> (False, st)
      | Some d \<Rightarrow>
          let (gone, t) = remove_digest k d (snd (prune now cfg (table st)))
          in (gone \<noteq> None, revoked (case gone of None \<Rightarrow> [] | Some i \<Rightarrow> [i]) (st\<lparr>table := t\<rparr>)))"

definition logout_id :: "auth_config \<Rightarrow> boot_instant \<Rightarrow> session_id \<Rightarrow> 'r auth \<Rightarrow> bool \<times> 'r auth" where
  "logout_id cfg now i st =
     (let (gone, t) = remove_id i (snd (prune now cfg (table st))); st = st\<lparr>table := t\<rparr>
      in (gone, if gone then revoked [i] st else st))"

definition revoke_all :: "'r auth \<Rightarrow> nat \<times> 'r auth" where
  "revoke_all st =
     (let (is, t) = clear (table st) in (length is, revoked is (st\<lparr>table := t\<rparr>)))"

definition touch_session :: "auth_config \<Rightarrow> boot_instant \<Rightarrow> session_id \<Rightarrow> 'r auth \<Rightarrow> session_check \<times> 'r auth" where
  "touch_session cfg now i st =
     (let t = table st;
          (answer, t) = (case by_id i t of
              Some e \<Rightarrow>
                if deadline cfg e \<le> now then (Expired, t)
                else let e' = e\<lparr>last_used := now\<rparr>
                     in (Live (saturating_duration_since (deadline cfg e') now),
                         slide (\<lambda>e. ent_id e = i) now t)
            | None \<Rightarrow> (if recently_expired i t then Expired else Revoked, t))
      in (answer, st\<lparr>table := snd (prune now cfg t)\<rparr>))"

definition random_hex :: "'r rng_fill \<Rightarrow> nat \<Rightarrow> 'r auth \<Rightarrow> (login_error + string) \<times> 'r auth" where
  "random_hex fill n st =
     (case fill n (rng st) of
        (None, r) \<Rightarrow> (Err Entropy, st\<lparr>rng := r\<rparr>)
      | (Some buf, r) \<Rightarrow> (Ok (hex_encode buf), st\<lparr>rng := r\<rparr>))"

definition new_pre_token :: "'r rng_fill \<Rightarrow> 'r auth \<Rightarrow> (login_error + string) \<times> 'r auth" where
  "new_pre_token fill st = random_hex fill 32 st"

definition form_key :: "'r rng_fill \<Rightarrow> 'r auth \<Rightarrow> (login_error + bytes) \<times> 'r auth" where
  "form_key fill st =
     (case form_key_cell st of
        Some key \<Rightarrow> (Ok key, st)
      | None \<Rightarrow> (case fill 32 (rng st) of
          (None, r) \<Rightarrow> (Err Entropy, st\<lparr>rng := r\<rparr>)
        | (Some key, r) \<Rightarrow> (Ok key, st\<lparr>rng := r, form_key_cell := Some key\<rparr>)))"

definition login_form_token :: "(bytes \<Rightarrow> bytes \<Rightarrow> bytes option) \<Rightarrow> 'r rng_fill \<Rightarrow> boot_instant \<Rightarrow> string \<Rightarrow> 'r auth \<Rightarrow>
    (login_error + string) \<times> 'r auth" where
  "login_form_token hmac fill now pre st =
     (let (key, st) = form_key fill st in
      (and_then key (\<lambda>key.
         let secs = as_secs now in
         and_then (ok_or (form_mac hmac key pre secs) Entropy) (\<lambda>mac.
           Ok (show_nat (secs + form_offset hmac key) @ ''.'' @ hex_encode (take 16 mac)))), st))"

definition canonical_secs :: "string \<Rightarrow> bool" where
  "canonical_secs secs \<longleftrightarrow>
     secs \<noteq> [] \<and> length secs \<le> 20 \<and> list_all is_ascii_digit secs \<and>
     (secs = ''0'' \<or> take 1 secs \<noteq> ''0'')"

definition form_token_parts :: "(bytes \<Rightarrow> bytes \<Rightarrow> bytes option) \<Rightarrow> auth_config \<Rightarrow> boot_instant \<Rightarrow> bytes \<Rightarrow> string \<Rightarrow>
    (nat \<times> bytes) option" where
  "form_token_parts hmac cfg now key token =
     (case split_once CHR ''.'' token of
        None \<Rightarrow> None
      | Some (secs, tag) \<Rightarrow>
          if \<not> canonical_secs secs then None
          else case parse_uint 64 secs of
            None \<Rightarrow> None
          | Some shown \<Rightarrow>
              if shown < form_offset hmac key then None
              else let made = shown - form_offset hmac key in
                case parse_hex 16 tag of
                  None \<Rightarrow> None
                | Some tag \<Rightarrow>
                    if made \<le> as_secs now \<and> as_secs now - made \<le> dur_as_secs (login_form_ttl cfg)
                    then Some (made, tag) else None)"

definition verify_login_form_token :: "(bytes \<Rightarrow> bytes \<Rightarrow> bytes option) \<Rightarrow> auth_config \<Rightarrow> boot_instant \<Rightarrow> string \<Rightarrow>
    string \<Rightarrow> 'r auth \<Rightarrow> bool" where
  "verify_login_form_token hmac cfg now pre token st =
     (case form_key_cell st of
        None \<Rightarrow> False
      | Some key \<Rightarrow>
          if parse_hex 32 pre = None then False
          else case form_token_parts hmac cfg now key token of
            None \<Rightarrow> False
          | Some (made, tag) \<Rightarrow>
              (case form_mac hmac key pre made of None \<Rightarrow> False | Some mac \<Rightarrow> take 16 mac = tag))"

definition login_form_token_fresh :: "(bytes \<Rightarrow> bytes \<Rightarrow> bytes option) \<Rightarrow> auth_config \<Rightarrow> boot_instant \<Rightarrow> string \<Rightarrow>
    'r auth \<Rightarrow> bool" where
  "login_form_token_fresh hmac cfg now token st =
     (case form_key_cell st of None \<Rightarrow> False | Some key \<Rightarrow> form_token_parts hmac cfg now key token \<noteq> None)"

definition opaque_key :: "(bytes \<Rightarrow> bytes \<Rightarrow> bytes option) \<Rightarrow> 'r rng_fill \<Rightarrow> string \<Rightarrow> string \<Rightarrow> 'r auth \<Rightarrow>
    string option \<times> 'r auth" where
  "opaque_key hmac fill domain v st =
     (let (key, st) = form_key fill st in
      (case key of
         Inl _ \<Rightarrow> None
       | Inr key \<Rightarrow> map_option (\<lambda>mac. hex_encode (take 8 mac))
           (hmac key (as_bytes (''zte-ui-key'' @ [CHR 0x00] @ domain @ [CHR 0x00] @ v))), st))"

section \<open>Hex tokens\<close>

lemma nibble_DIGITS: "d < 16 \<Longrightarrow> nibble (DIGITS ! d) = Some (word_of_nat d)"
proof -
  have "list_all (\<lambda>d. nibble (DIGITS ! d) = Some (word_of_nat d)) [0 ..< 16]"
    by (simp add: upt_rec DIGITS_def nibble_def byte_of_def less_eq_char_def)
  then show "d < 16 \<Longrightarrow> nibble (DIGITS ! d) = Some (word_of_nat d)"
    by (simp add: list_all_iff)
qed

lemma nibble_range: "nibble c \<noteq> None \<Longrightarrow> c \<in> set DIGITS"
proof -
  assume "nibble c \<noteq> None"
  then have "48 \<le> (of_char c :: nat) \<and> (of_char c :: nat) < 58 \<or> 97 \<le> (of_char c :: nat) \<and> (of_char c :: nat) < 103"
    by (auto simp: nibble_def less_eq_char_def simp del: not_less split: if_splits)
  then have in_range: "of_char c \<in> set ([48 ..< 58] @ [97 ..< 103] :: nat list)"
    by (simp only: set_append set_upt Un_iff atLeastLessThan_iff)
  have "list_all (\<lambda>n. char_of n \<in> set DIGITS) ([48 ..< 58] @ [97 ..< 103] :: nat list)"
    by code_simp
  from list_allD [OF this in_range] have "char_of (of_char c :: nat) \<in> set DIGITS" .
  then show ?thesis by simp
qed

lemma nibble_eq: "nibble c = (if c \<in> set DIGITS then map_option ucast (to_digit16 c) else None)"
proof (cases "c \<in> set DIGITS")
  case True
  then obtain d where d: "d < 16" "DIGITS ! d = c" by (metis DIGITS_to_digit16)
  then have "nibble c = Some (word_of_nat d)" and "to_digit16 c = Some (word_of_nat d)"
    using nibble_DIGITS [of d] to_digit16_DIGITS [of d] by simp_all
  then show ?thesis using True d(1) by (simp add: unat_u32_small word_eq_iff_unsigned unsigned_of_nat take_bit_eq_mod)
next
  case False
  then show ?thesis using nibble_range [of c] by (cases "nibble c") auto
qed

lemma ucast_join: "(ucast (push_bit 4 (a :: u32) OR b) :: u8) = push_bit 4 (ucast a) OR ucast b"
  by (rule bit_word_eqI) (auto simp: bit_simps)

lemma parse_hex_pairs_eq:
  "even (length s) \<Longrightarrow> parse_hex_pairs s = (if set s \<subseteq> set DIGITS then decode_pairs s else None)"
proof (induction s rule: parse_hex_pairs.induct)
  case (1 a b s)
  then show ?case
    by (auto simp: nibble_eq ucast_join split: option.splits dest: DIGITS_to_digit16)
qed auto

lemma set_hex_encode: "set (hex_encode b) \<subseteq> set DIGITS"
proof (induction b)
  case (Cons x b)
  have "DIGITS ! d \<in> set DIGITS" if "d < 16" for d
    using that by (intro nth_mem) (simp add: DIGITS_def)
  from this [OF unat_high_nibble_lt] this [OF unat_low_nibble_lt] Cons show ?case by simp
qed simp

lemma parse_hex_iff: "parse_hex n s = Some b \<longleftrightarrow> s = hex_encode b \<and> length b = n"
proof
  assume "parse_hex n s = Some b"
  then have len: "length s = 2 * n" and p: "parse_hex_pairs s = Some b"
    by (auto simp: parse_hex_def split: if_splits)
  from p len have "set s \<subseteq> set DIGITS" "decode_pairs s = Some b"
    by (auto simp: parse_hex_pairs_eq split: if_splits)
  with len show "s = hex_encode b \<and> length b = n"
    using hex_encode_decode_lower [of s b] length_decode_pairs [of s b] by simp
next
  assume "s = hex_encode b \<and> length b = n"
  then show "parse_hex n s = Some b"
    by (simp add: parse_hex_def parse_hex_pairs_eq length_hex_encode set_hex_encode decode_pairs_encode)
qed

interpretation lower_hex: codec "\<lambda>b. length b = n" hex_encode "parse_hex n" for n
  by unfold_locales (simp add: parse_hex_iff)

end
