(* ===== verification/Auth_Sessions.thy ===== *)
theory Auth_Sessions
  imports Auth_State
begin

text \<open>
  What \<open>auth/mod.rs\<close> promises of sessions and of login forms: who is authenticated, what a login and
  a logout change, what an open stream is told, and which login form tokens are accepted. The session
  lemmas rest on the store's interface (\<open>session_store\<close>), interpreted on the table in
  \<open>Session_Table\<close>.
\<close>

section \<open>What the password check leaves alone\<close>

lemma judge_password_keeps [simp]:
  "table (snd (judge_password pw peer now st)) = table st"
  "password (snd (judge_password pw peer now st)) = password st"
  "form_key_cell (snd (judge_password pw peer now st)) = form_key_cell st"
  "hook_calls (snd (judge_password pw peer now st)) = hook_calls st"
  "hook_set (snd (judge_password pw peer now st)) = hook_set st"
  "rng (snd (judge_password pw peer now st)) = rng st"
  by (auto simp: judge_password_def Let_def split: prod.splits admit.splits option.splits)

lemma revoked_keeps [simp]:
  "table (revoked is st) = table st"
  "limiter (revoked is st) = limiter st"
  "password (revoked is st) = password st"
  by (auto simp: revoked_def)

lemma remove_replaced_eq: "snd (remove_replaced ds t) = fold (\<lambda>d t. snd (remove_digest Browser d t)) ds t"
  by (induction ds arbitrary: t) (auto simp: Let_def case_prod_unfold)

lemma next_id_remove_digest [simp]: "next_id (snd (remove_digest k d t)) = next_id t"
  by (auto simp: remove_digest_def split: option.splits)

lemma next_id_remove_replaced [simp]: "next_id (snd (remove_replaced ds t)) = next_id t"
  by (induction ds arbitrary: t) (simp_all add: Let_def split: prod.splits, metis next_id_remove_digest snd_conv)

lemma keys_distinct_next_id [simp]: "keys_distinct (t\<lparr>next_id := n\<rparr>) = keys_distinct t"
  by (simp add: keys_distinct_def)

lemma find_entry_next_id [simp]: "find_entry k d (t\<lparr>next_id := n\<rparr>) = find_entry k d t"
  by (simp add: find_entry_eq)

definition new_entry :: "boot_instant \<Rightarrow> kind \<Rightarrow> bytes \<Rightarrow> bytes \<Rightarrow> session_id \<Rightarrow> entry" where
  "new_entry now k d csrf i =
     \<lparr>ent_id = i, ent_kind = k, ent_digest = d, ent_csrf = csrf, created = now, last_used = now\<rparr>"

lemma issue_eq:
  "fst (issue cfg now k d csrf replaced t) = next_id t"
  "snd (snd (issue cfg now k d csrf replaced t)) =
     snd (insert_entry (new_entry now k d csrf (next_id t)) cfg
       ((snd (remove_replaced replaced t))\<lparr>next_id := next_id t + 1\<rparr>))"
  using next_id_remove_replaced [of replaced t]
  by (auto simp: issue_def alloc_id_def new_entry_def Let_def split: prod.splits simp del: next_id_remove_replaced)

text \<open>What a login does, once it has its random bytes.\<close>

definition login_tokens :: "'r rng_fill \<Rightarrow> kind \<Rightarrow> 'r \<Rightarrow> (bytes \<times> bytes \<times> 'r) option" where
  "login_tokens fill k r0 =
     (case fill 32 r0 of
        (None, r) \<Rightarrow> None
      | (Some token, r) \<Rightarrow> (case (if k = Browser then fill 32 r else (Some (replicate 32 0), r)) of
          (None, r) \<Rightarrow> None
        | (Some csrf, r) \<Rightarrow> Some (token, csrf, r)))"

definition replaced_digests :: "(bytes \<Rightarrow> bytes) \<Rightarrow> kind \<Rightarrow> string list \<Rightarrow> bytes list" where
  "replaced_digests sha k replacing =
     (if k = Browser then map (digest sha Browser) (List.map_filter (parse_hex 32) replacing) else [])"

lemma login_cases:
  obtains
    (entropy) r where "login_tokens fill k (rng st) = None"
      "login sha fill cfg now pw k peer replacing st = (Inl Entropy, st\<lparr>rng := r\<rparr>)"
  | (refused) token csrf r e st1 where "login_tokens fill k (rng st) = Some (token, csrf, r)"
      "judge_password (sha (as_bytes pw)) peer now (st\<lparr>rng := r, table := snd (prune now cfg (table st))\<rparr>) = (Some e, st1)"
      "login sha fill cfg now pw k peer replacing st = (Inl e, st1)"
  | (accepted) token csrf r st1 where "login_tokens fill k (rng st) = Some (token, csrf, r)"
      "judge_password (sha (as_bytes pw)) peer now (st\<lparr>rng := r, table := snd (prune now cfg (table st))\<rparr>) = (None, st1)"
      "login sha fill cfg now pw k peer replacing st =
         (case issue cfg now k (digest sha k token) csrf (replaced_digests sha k replacing) (snd (prune now cfg (table st)))
          of (i, gone, t) \<Rightarrow>
            (Inr \<lparr>iss_id = i, iss_token = hex_encode token,
                 iss_csrf = (if k = Browser then Some (hex_encode csrf) else None),
                 iss_max_age = absolute (policy_of cfg k)\<rparr>, revoked gone (st1\<lparr>table := t\<rparr>)))"
proof (cases "login_tokens fill k (rng st)")
  case None
  then have "\<exists>r. login sha fill cfg now pw k peer replacing st = (Inl Entropy, st\<lparr>rng := r\<rparr>)"
    by (auto simp: login_tokens_def login_def split: prod.splits option.splits if_splits)
  with None show thesis using entropy by blast
next
  case (Some tok)
  obtain token csrf r where tok: "tok = (token, csrf, r)" by (cases tok)
  obtain err st1 where j: "judge_password (sha (as_bytes pw)) peer now
      (st\<lparr>rng := r, table := snd (prune now cfg (table st))\<rparr>) = (err, st1)"
    by (meson surj_pair)
  have t1: "table st1 = snd (prune now cfg (table st))"
    using judge_password_keeps(1) [of "sha (as_bytes pw)" peer now "st\<lparr>rng := r, table := snd (prune now cfg (table st))\<rparr>"] j
    by simp
  have eq: "login sha fill cfg now pw k peer replacing st =
     (case err of
        Some e \<Rightarrow> (Inl e, st1)
      | None \<Rightarrow> (case issue cfg now k (digest sha k token) csrf (replaced_digests sha k replacing) (table st1)
          of (i, gone, t) \<Rightarrow>
            (Inr \<lparr>iss_id = i, iss_token = hex_encode token,
                 iss_csrf = (if k = Browser then Some (hex_encode csrf) else None),
                 iss_max_age = absolute (policy_of cfg k)\<rparr>, revoked gone (st1\<lparr>table := t\<rparr>))))"
    using Some j unfolding tok
    by (auto simp: login_tokens_def login_def replaced_digests_def Let_def split: prod.splits option.splits if_splits)
  show thesis
  proof (cases err)
    case (Some e)
    show thesis using refused [OF \<open>login_tokens fill k (rng st) = Some tok\<close> [unfolded tok] j [unfolded Some]] eq Some by simp
  next
    case None
    show thesis using accepted [OF \<open>login_tokens fill k (rng st) = Some tok\<close> [unfolded tok] j [unfolded None]] eq None t1 by simp
  qed
qed

section \<open>Who is authenticated\<close>

text \<open>
  C28: a token authenticates exactly as the live session it was issued for: it must be 64 lowercase hex
  digits whose digest, mixed with the kind asked for, belongs to a session of that kind that is not
  past its deadline; the request then gets that session's id and CSRF secret.
\<close>

theorem authenticate_iff:
  assumes "keys_distinct (table st)"
  shows "fst (authenticate sha cfg now k token st) = Some p \<longleftrightarrow>
    (\<exists>raw e. token = hex_encode raw \<and> length raw = 32 \<and> e \<in> set (entries (table st)) \<and>
       ent_kind e = k \<and> ent_digest e = digest sha k raw \<and> now < deadline cfg e \<and>
       p = \<lparr>pr_id = ent_id e, pr_kind = k, pr_csrf = ent_csrf e\<rparr>)"
proof -
  have "fst (authenticate sha cfg now k token st) = Some p \<longleftrightarrow>
      (\<exists>raw e. parse_hex 32 token = Some raw \<and> find_entry k (digest sha k raw) (snd (prune now cfg (table st))) = Some e \<and>
         p = \<lparr>pr_id = ent_id e, pr_kind = k, pr_csrf = ent_csrf e\<rparr>)"
    by (auto simp: authenticate_def session_of_def Let_def split: option.splits)
  also have "\<dots> \<longleftrightarrow> (\<exists>raw e. parse_hex 32 token = Some raw \<and> find_entry k (digest sha k raw) (table st) = Some e \<and>
         \<not> expired now cfg e \<and> p = \<lparr>pr_id = ent_id e, pr_kind = k, pr_csrf = ent_csrf e\<rparr>)"
    using sessions.lookup_expire_Some_iff [OF assms] by auto
  finally show ?thesis
    by (auto simp: parse_hex_iff find_entry_iff [OF assms] entry_key_def expired_def not_le)
qed

definition demo_fill :: "nat rng_fill" where
  "demo_fill n r = (Some (replicate n (word_of_nat r)), r + 1)"

definition demo_state :: "nat auth" where
  "demo_state = set_password (\<lambda>m. m) ''pw'' (with_parts 1 default_auth_config 0)"

lemma hex_encode_zeros: "hex_encode (replicate n 0) = replicate (2 * n) (CHR ''0'')"
  by (induction n) (simp_all add: DIGITS_def)

theorem authenticate_iff_witness:
  "fst (authenticate (\<lambda>m. m) default_auth_config 0 Bearer (replicate 64 (CHR ''0''))
     (demo_state\<lparr>table := (table_new default_auth_config)\<lparr>entries :=
        [new_entry 0 Bearer (digest (\<lambda>m. m) Bearer (replicate 32 0)) [] 7]\<rparr>\<rparr>)) =
   Some \<lparr>pr_id = 7, pr_kind = Bearer, pr_csrf = []\<rparr>"
proof -
  let ?st = "demo_state\<lparr>table := (table_new default_auth_config)\<lparr>entries :=
        [new_entry 0 Bearer (digest (\<lambda>m. m) Bearer (replicate 32 0)) [] 7]\<rparr>\<rparr>"
  have "keys_distinct (table ?st)" by (simp add: keys_distinct_def)
  from authenticate_iff [OF this, of "\<lambda>m. m" default_auth_config 0 Bearer "replicate 64 (CHR ''0'')"
      "\<lparr>pr_id = 7, pr_kind = Bearer, pr_csrf = []\<rparr>"]
  show ?thesis
    by (simp add: new_entry_def deadline_def default_auth_config_def from_secs_def saturating_add_def
        dur_saturating_add_def dur_max_def) (metis hex_encode_zeros length_replicate mult_2 numeral_Bit0)
qed

lemma fst_authenticate:
  assumes "keys_distinct (table st)"
  shows "fst (authenticate sha cfg now k token st) =
    (case session_of sha k token of
       None \<Rightarrow> None
     | Some d \<Rightarrow> (case find_entry k d (table st) of
         None \<Rightarrow> None
       | Some e \<Rightarrow> if expired now cfg e then None
                   else Some \<lparr>pr_id = ent_id e, pr_kind = k, pr_csrf = ent_csrf e\<rparr>))"
  using sessions.lookup_expire [OF assms, where k = k and now = now and cfg = cfg]
  by (auto simp: authenticate_def Let_def split: option.splits)

lemma keys_distinct_removed: "keys_distinct t \<Longrightarrow> keys_distinct (snd (remove_replaced ds t))"
  unfolding remove_replaced_eq using sessions.store_drop_all [of t Browser ds] by (simp add: comp_def)

lemma find_entry_removed:
  "keys_distinct t \<Longrightarrow> find_entry k d (snd (remove_replaced ds t)) =
     (if k = Browser \<and> d \<in> set ds then None else find_entry k d t)"
  unfolding remove_replaced_eq using sessions.lookup_drop_all [of t k d Browser ds] by simp

text \<open>The table a login inserts into.\<close>

definition room_table :: "auth_config \<Rightarrow> boot_instant \<Rightarrow> bytes list \<Rightarrow> session_table \<Rightarrow> session_table" where
  "room_table cfg now replaced t =
     (snd (remove_replaced replaced (snd (prune now cfg t))))\<lparr>next_id := next_id t + 1\<rparr>"

lemma keys_distinct_room: "keys_distinct t \<Longrightarrow> keys_distinct (room_table cfg now replaced t)"
  by (simp add: room_table_def keys_distinct_removed keys_distinct_prune)

lemma find_entry_room:
  "keys_distinct t \<Longrightarrow> find_entry k d t = None \<Longrightarrow> find_entry k d (room_table cfg now replaced t) = None"
  by (simp add: room_table_def find_entry_removed keys_distinct_prune sessions.gone_after_expire)

lemma table_after_login:
  assumes "login_tokens fill k (rng st) = Some (token, csrf, r)"
    and "login sha fill cfg now pw k peer replacing st = (Inr iss, st')"
  shows "table st' = snd (insert_entry (new_entry now k (digest sha k token) csrf (next_id (table st))) cfg
           (room_table cfg now (replaced_digests sha k replacing) (table st)))"
    and "iss_id iss = next_id (table st)" and "iss_token iss = hex_encode token"
    and "iss_csrf iss = (if k = Browser then Some (hex_encode csrf) else None)"
proof -
  let ?i = "issue cfg now k (digest sha k token) csrf (replaced_digests sha k replacing) (snd (prune now cfg (table st)))"
  obtain i gone t where i: "?i = (i, gone, t)" by (cases ?i)
  have eqs: "table st' = t \<and> iss_id iss = i \<and> iss_token iss = hex_encode token \<and>
      iss_csrf iss = (if k = Browser then Some (hex_encode csrf) else None)"
    by (rule login_cases [of fill k st sha cfg now pw peer replacing]) (use assms i in auto)
  have "snd (snd ?i) = t" "fst ?i = i" by (simp_all add: i)
  with eqs show "table st' = snd (insert_entry (new_entry now k (digest sha k token) csrf (next_id (table st))) cfg
           (room_table cfg now (replaced_digests sha k replacing) (table st)))"
    and "iss_id iss = next_id (table st)" and "iss_token iss = hex_encode token"
    and "iss_csrf iss = (if k = Browser then Some (hex_encode csrf) else None)"
    by (simp_all add: issue_eq next_id_prune room_table_def)
qed

text \<open>
  The token a login returns authenticates until its deadline, as the session of that login, and a
  browser's CSRF value is the one its pages then carry. Required: 32-byte tokens, whose digest no
  session of the table has yet.
\<close>

theorem login_authenticates:
  assumes "keys_distinct (table st)"
    and "login sha fill cfg now pw k peer replacing st = (Inr iss, st')"
    and "\<And>r b r'. fill 32 r = (Some b, r') \<Longrightarrow> length b = 32"
    and "\<And>raw. iss_token iss = hex_encode raw \<Longrightarrow> find_entry k (digest sha k raw) (table st) = None"
    and "t < saturating_add now (idle (policy_of cfg k))" and "t < saturating_add now (absolute (policy_of cfg k))"
  shows "\<exists>p. fst (authenticate sha cfg t k (iss_token iss) st') = Some p \<and> pr_id p = iss_id iss \<and> pr_kind p = k \<and>
    iss_csrf iss = (if k = Browser then Some (csrf_token p) else None)"
proof -
  obtain token csrf r where tok: "login_tokens fill k (rng st) = Some (token, csrf, r)"
    using assms(2) by (rule_tac login_cases [of fill k st sha cfg now pw peer replacing]) auto
  note after = table_after_login [OF tok assms(2)]
  let ?d = "digest sha k token"
  let ?e = "new_entry now k ?d csrf (next_id (table st))"
  let ?room = "room_table cfg now (replaced_digests sha k replacing) (table st)"
  have len: "length token = 32"
    using tok assms(3) by (auto simp: login_tokens_def split: prod.splits option.splits if_splits)
  have room: "keys_distinct ?room" "find_entry k ?d ?room = None"
    using assms(1,4) after(3) by (simp_all add: keys_distinct_room find_entry_room)
  then have "find_entry k ?d (table st') = Some ?e"
    unfolding after(1) using sessions.lookup_add [of ?room ?e] by (simp add: new_entry_def)
  moreover have "keys_distinct (table st')"
    unfolding after(1) using room by (intro keys_distinct_insert) (simp_all add: new_entry_def)
  moreover have "\<not> expired t cfg ?e"
    using assms(5,6) by (simp add: expired_def deadline_def new_entry_def Let_def not_le)
  moreover have "session_of sha k (iss_token iss) = Some ?d"
    using len after(3) by (simp add: session_of_def lower_hex.dec_enc)
  ultimately show ?thesis
    using after by (simp add: fst_authenticate new_entry_def csrf_token_def)
qed

theorem login_authenticates_witness:
  "\<exists>p. fst (authenticate (\<lambda>m. m) default_auth_config 1 Bearer (hex_encode (replicate 32 1))
      (snd (login (\<lambda>m. m) demo_fill default_auth_config 0 ''pw'' Bearer UNKNOWN [] demo_state))) = Some p \<and> pr_id p = 1"
proof -
  have login: "\<exists>iss st'. login (\<lambda>m. m) demo_fill default_auth_config 0 ''pw'' Bearer UNKNOWN [] demo_state = (Inr iss, st') \<and>
      iss_token iss = hex_encode (replicate 32 1) \<and> iss_id iss = 1"
    by (simp add: login_def demo_fill_def demo_state_def with_parts_def set_password_def judge_password_def
        check_def limiter_new_def refill_def forget_stale_def default_auth_config_def default_limiter_config_def
        issue_def alloc_id_def table_new_def prune_def prune_from.simps Let_def split: prod.split)
  then obtain iss st' where iss: "login (\<lambda>m. m) demo_fill default_auth_config 0 ''pw'' Bearer UNKNOWN [] demo_state = (Inr iss, st')"
    "iss_token iss = hex_encode (replicate 32 1)" "iss_id iss = 1" by blast
  have "keys_distinct (table demo_state)"
    by (simp add: demo_state_def set_password_def with_parts_def table_new_def keys_distinct_def)
  moreover have "find_entry k d (table demo_state) = None" for k d
    by (simp add: demo_state_def set_password_def with_parts_def table_new_def find_entry_eq)
  moreover have "1 < saturating_add 0 (idle (policy_of default_auth_config Bearer))"
    "1 < saturating_add 0 (absolute (policy_of default_auth_config Bearer))"
    by (simp_all add: default_auth_config_def from_secs_def saturating_add_def dur_saturating_add_def dur_max_def)
  ultimately show ?thesis
    using login_authenticates [of demo_state "\<lambda>m. m" demo_fill default_auth_config 0 "''pw''" Bearer UNKNOWN "[]" iss st' 1] iss
    by (auto simp: demo_fill_def)
qed

text \<open>
  A login that fails, for whatever reason, ends no session: every token authenticates at any later
  time exactly as it would have without the attempt, also when the rate limit refuses everybody.
\<close>

theorem failed_login_keeps_sessions:
  assumes "keys_distinct (table st)"
    and "login sha fill cfg now pw k peer replacing st = (Inl e, st')" and "now \<le> t"
  shows "fst (authenticate sha cfg t k' token st') = fst (authenticate sha cfg t k' token st)"
proof -
  have "table st' = table st \<or> table st' = snd (prune now cfg (table st))"
    using assms(2)
    by (rule_tac login_cases [of fill k st sha cfg now pw peer replacing])
      (auto split: prod.splits, metis judge_password_keeps(1) auth.select_convs(3) auth.surjective auth.update_convs(1,3) snd_conv)
  then show ?thesis
  proof
    assume st': "table st' = snd (prune now cfg (table st))"
    have dead: "expired now cfg e \<Longrightarrow> expired t cfg e" for e
      using assms(3) by (simp add: expired_def)
    have "keys_distinct (table st')" unfolding st' using assms(1) by (rule keys_distinct_prune)
    with assms(1) dead show ?thesis
      by (auto simp: fst_authenticate st' sessions.lookup_expire split: option.splits)
  qed (simp add: authenticate_def Let_def split: option.splits)
qed

theorem failed_login_keeps_sessions_witness:
  "fst (authenticate (\<lambda>m. m) default_auth_config 5 Bearer (hex_encode (replicate 32 1))
      (snd (login (\<lambda>m. m) demo_fill default_auth_config 0 ''no'' Bearer UNKNOWN [] demo_state))) =
   fst (authenticate (\<lambda>m. m) default_auth_config 5 Bearer (hex_encode (replicate 32 1)) demo_state)"
proof -
  have "\<exists>st'. login (\<lambda>m. m) demo_fill default_auth_config 0 ''no'' Bearer UNKNOWN [] demo_state = (Inl BadPassword, st')"
    by (simp add: login_def demo_fill_def demo_state_def with_parts_def set_password_def judge_password_def as_bytes_def
        byte_of_def check_def limiter_new_def refill_def forget_stale_def default_auth_config_def
        default_limiter_config_def Let_def split: prod.split)
  then obtain st' where "login (\<lambda>m. m) demo_fill default_auth_config 0 ''no'' Bearer UNKNOWN [] demo_state = (Inl BadPassword, st')"
    by blast
  moreover have "keys_distinct (table demo_state)"
    by (simp add: demo_state_def set_password_def with_parts_def table_new_def keys_distinct_def)
  ultimately show ?thesis
    using failed_login_keeps_sessions [of demo_state "\<lambda>m. m" demo_fill default_auth_config 0 "''no''" Bearer UNKNOWN "[]" _ st' 5]
    by simp
qed

section \<open>Sequences of requests\<close>

text \<open>
  The requests that reach \<open>AuthState\<close>, each atomic (the code holds the lock), in any order. A request's
  outcome is whether it compared a wrong password.
\<close>

datatype auth_op =
    Op_login string kind peer_key "string list"
  | Op_check_password string peer_key
  | Op_authenticate kind string
  | Op_logout kind string
  | Op_logout_id session_id
  | Op_revoke_all
  | Op_touch session_id

fun auth_step :: "(bytes \<Rightarrow> bytes) \<Rightarrow> 'r rng_fill \<Rightarrow> auth_config \<Rightarrow> boot_instant \<Rightarrow> auth_op \<Rightarrow> 'r auth \<Rightarrow> bool \<times> 'r auth" where
  "auth_step sha fill cfg now (Op_login pw k peer replacing) st =
     (let (r, st) = login sha fill cfg now pw k peer replacing st in (r = Inl BadPassword, st))"
| "auth_step sha fill cfg now (Op_check_password pw peer) st =
     (let (r, st) = check_password sha now pw peer st in (r = Inl BadPassword, st))"
| "auth_step sha fill cfg now (Op_authenticate k token) st = (False, snd (authenticate sha cfg now k token st))"
| "auth_step sha fill cfg now (Op_logout k token) st = (False, snd (logout sha cfg now k token st))"
| "auth_step sha fill cfg now (Op_logout_id i) st = (False, snd (logout_id cfg now i st))"
| "auth_step sha fill cfg now Op_revoke_all st = (False, snd (revoke_all st))"
| "auth_step sha fill cfg now (Op_touch i) st = (False, snd (touch_session cfg now i st))"

fun auth_run :: "(bytes \<Rightarrow> bytes) \<Rightarrow> 'r rng_fill \<Rightarrow> auth_config \<Rightarrow> (boot_instant \<times> auth_op) list \<Rightarrow> 'r auth \<Rightarrow> nat \<times> 'r auth" where
  "auth_run sha fill cfg [] st = (0, st)"
| "auth_run sha fill cfg ((now, op) # ops) st =
     (let (bad, st) = auth_step sha fill cfg now op st; (n, st) = auth_run sha fill cfg ops st
      in ((if bad then 1 else 0) + n, st))"

text \<open>The keys of the tokens that the logins of a sequence draw, in the states they come to.\<close>

definition drawn_by :: "(bytes \<Rightarrow> bytes) \<Rightarrow> 'r rng_fill \<Rightarrow> auth_op \<Rightarrow> 'r auth \<Rightarrow> (kind \<times> bytes) list" where
  "drawn_by sha fill op st =
     (case op of
        Op_login pw k peer replacing \<Rightarrow>
          (case login_tokens fill k (rng st) of Some (token, csrf, r) \<Rightarrow> [(k, digest sha k token)] | None \<Rightarrow> [])
      | _ \<Rightarrow> [])"

fun drawn :: "(bytes \<Rightarrow> bytes) \<Rightarrow> 'r rng_fill \<Rightarrow> auth_config \<Rightarrow> (boot_instant \<times> auth_op) list \<Rightarrow> 'r auth \<Rightarrow> (kind \<times> bytes) list" where
  "drawn sha fill cfg [] st = []"
| "drawn sha fill cfg ((now, op) # ops) st = drawn_by sha fill op st @ drawn sha fill cfg ops (snd (auth_step sha fill cfg now op st))"

text \<open>No operation brings back a key that is not in the table; only a login adds one, its token's.\<close>

definition table_keys :: "session_table \<Rightarrow> (kind \<times> bytes) set" where
  "table_keys t = entry_key ` set (entries t)"

lemma keys_prune: "table_keys (snd (prune now cfg t)) \<subseteq> table_keys t"
  by (auto simp: table_keys_def set_entries_prune)

lemma keys_sub: "mset es \<subseteq># mset (entries t) \<Longrightarrow> table_keys (t\<lparr>entries := es\<rparr>) \<subseteq> table_keys t"
  by (auto simp: table_keys_def dest: set_sub)

lemma keys_remove_digest: "table_keys (snd (remove_digest k d t)) \<subseteq> table_keys t"
  by (auto simp: remove_digest_def position_digest_eq dest!: position_SomeD
      intro: subsetD [OF keys_sub [OF swap_remove_sub]] split: option.splits)

lemma keys_remove_id: "table_keys (snd (remove_id i t)) \<subseteq> table_keys t"
  by (auto simp: remove_id_def dest!: position_SomeD intro: subsetD [OF keys_sub [OF swap_remove_sub]] split: option.splits)

lemma keys_remove_replaced: "table_keys (snd (remove_replaced ds t)) \<subseteq> table_keys t"
proof (induction ds arbitrary: t)
  case (Cons d ds)
  from order_trans [OF Cons.IH keys_remove_digest] show ?case
    by (simp add: remove_replaced_eq Let_def case_prod_unfold)
qed simp

lemma keys_slide: "table_keys (slide p now t) = table_keys t"
proof -
  have "map entry_key (entries (slide p now t)) = map entry_key (entries t)"
    by (simp add: slide_def map_update_first entry_key_def)
  then show ?thesis unfolding table_keys_def by (metis list.set_map)
qed

lemma keys_insert: "table_keys (snd (insert_entry e cfg t)) \<subseteq> insert (entry_key e) (table_keys t)"
  using set_sub [OF kept_by_insert_sub, of cfg e t] by (auto simp: insert_entry_eq table_keys_def)

lemma keys_login:
  "table_keys (table (snd (login sha fill cfg now pw k peer replacing st))) \<subseteq>
     table_keys (table st) \<union> {(k, digest sha k token) | token csrf r. login_tokens fill k (rng st) = Some (token, csrf, r)}"
proof (rule login_cases [of fill k st sha cfg now pw peer replacing])
  fix r assume "login sha fill cfg now pw k peer replacing st = (Inl Entropy, st\<lparr>rng := r\<rparr>)"
  then show ?thesis by simp
next
  fix token csrf r e st1
  assume j: "judge_password (sha (as_bytes pw)) peer now (st\<lparr>rng := r, table := snd (prune now cfg (table st))\<rparr>) = (Some e, st1)"
    and l: "login sha fill cfg now pw k peer replacing st = (Inl e, st1)"
  have "table st1 = snd (prune now cfg (table st))"
    using judge_password_keeps(1) [of "sha (as_bytes pw)" peer now "st\<lparr>rng := r, table := snd (prune now cfg (table st))\<rparr>"] j
    by simp
  with l keys_prune [of now cfg "table st"] show ?thesis by auto
next
  fix token csrf r st1
  assume tok: "login_tokens fill k (rng st) = Some (token, csrf, r)"
    and l: "login sha fill cfg now pw k peer replacing st =
         (case issue cfg now k (digest sha k token) csrf (replaced_digests sha k replacing) (snd (prune now cfg (table st)))
          of (i, gone, t) \<Rightarrow>
            (Inr \<lparr>iss_id = i, iss_token = hex_encode token,
                 iss_csrf = (if k = Browser then Some (hex_encode csrf) else None),
                 iss_max_age = absolute (policy_of cfg k)\<rparr>, revoked gone (st1\<lparr>table := t\<rparr>)))"
  let ?st' = "snd (login sha fill cfg now pw k peer replacing st)"
  obtain iss where "login sha fill cfg now pw k peer replacing st = (Inr iss, ?st')"
    using l by (auto split: prod.splits)
  note after = table_after_login(1) [OF tok this]
  have "table_keys (room_table cfg now (replaced_digests sha k replacing) (table st)) \<subseteq> table_keys (table st)"
    using order_trans [OF keys_remove_replaced keys_prune] by (simp add: room_table_def table_keys_def)
  then show ?thesis
    unfolding after using tok keys_insert [of "new_entry now k (digest sha k token) csrf (next_id (table st))" cfg
        "room_table cfg now (replaced_digests sha k replacing) (table st)"]
    by (auto simp: entry_key_def new_entry_def)
qed

lemma keys_step:
  assumes "(k, d) \<notin> set (drawn_by sha fill op st)"
    and "(k, d) \<notin> table_keys (table st)"
  shows "(k, d) \<notin> table_keys (table (snd (auth_step sha fill cfg now op st)))"
proof (cases op)
  case (Op_login pw k' peer replacing)
  have "(k, d) \<notin> table_keys (table (snd (login sha fill cfg now pw k' peer replacing st)))"
    using keys_login [of sha fill cfg now pw k' peer replacing st] assms Op_login by (auto simp: drawn_by_def split: option.splits)
  with Op_login show ?thesis by (simp add: Let_def case_prod_unfold)
next
  case (Op_check_password pw peer)
  then show ?thesis using assms(2) by (simp add: check_password_def case_prod_unfold Let_def)
next
  case (Op_authenticate k' token)
  then show ?thesis using assms(2) keys_prune [of now cfg "table st"]
    by (auto simp: authenticate_def Let_def keys_slide split: option.splits)
next
  case (Op_logout k' token)
  then show ?thesis
    using assms(2) order_trans [OF keys_remove_digest keys_prune, of k' _ now cfg "table st"]
    by (fastforce simp: logout_def Let_def case_prod_unfold split: option.splits)
next
  case (Op_logout_id i)
  then show ?thesis
    using assms(2) order_trans [OF keys_remove_id keys_prune, of i now cfg "table st"]
    by (auto simp: logout_id_def Let_def case_prod_unfold)
next
  case Op_revoke_all
  then show ?thesis by (simp add: revoke_all_def clear_def Let_def table_keys_def)
next
  case (Op_touch i)
  then show ?thesis
    using assms(2) keys_prune [of now cfg "table st"] keys_prune [of now cfg "slide (\<lambda>e. ent_id e = i) now (table st)"]
    by (auto simp: touch_session_def Let_def keys_slide split: option.splits)
qed

lemma keys_run:
  "(k, d) \<notin> set (drawn sha fill cfg ops st) \<Longrightarrow> (k, d) \<notin> table_keys (table st) \<Longrightarrow>
    (k, d) \<notin> table_keys (table (snd (auth_run sha fill cfg ops st)))"
proof (induction ops arbitrary: st)
  case (Cons x ops)
  obtain now op where x: "x = (now, op)" by (cases x)
  have "(k, d) \<notin> table_keys (table (snd (auth_step sha fill cfg now op st)))"
    using Cons.prems x by (intro keys_step) simp_all
  with Cons x show ?case by (simp add: Let_def case_prod_unfold)
qed simp

lemma unknown_key_not_authenticated:
  assumes "session_of sha k token = Some d" and "(k, d) \<notin> table_keys (table st)"
  shows "fst (authenticate sha cfg now k token st) = None"
proof -
  have "(k, d) \<notin> table_keys (snd (prune now cfg (table st)))"
    using keys_prune assms(2) by blast
  then have "find_entry k d (snd (prune now cfg (table st))) = None"
    by (simp add: find_entry_None_iff table_keys_def)
  with assms(1) show ?thesis by (simp add: authenticate_def Let_def)
qed

text \<open>
  C3: a logout is final: after it, whatever requests follow and in whatever order (other logins,
  refreshes, expiries, revocations), the token authenticates nobody, unless one of the logins that
  follow draws from the random source a token of that kind with the same digest.
\<close>

theorem logout_is_final:
  assumes "keys_distinct (table st)"
    and "\<And>d. session_of sha k token = Some d \<Longrightarrow> (k, d) \<notin> set (drawn sha fill cfg ops (snd (logout sha cfg now k token st)))"
  shows "fst (authenticate sha cfg t k token
     (snd (auth_run sha fill cfg ops (snd (logout sha cfg now k token st))))) = None"
proof (cases "session_of sha k token")
  case None
  then show ?thesis by (simp add: authenticate_def)
next
  case (Some d)
  let ?t = "snd (prune now cfg (table st))"
  have "table (snd (logout sha cfg now k token st)) = snd (remove_digest k d ?t)"
    using Some by (auto simp: logout_def Let_def case_prod_unfold)
  moreover have "find_entry k d (snd (remove_digest k d ?t)) = None"
    using assms(1) by (intro sessions.lookup_drop keys_distinct_prune)
  ultimately have "(k, d) \<notin> table_keys (table (snd (logout sha cfg now k token st)))"
    by (simp add: find_entry_None_iff table_keys_def)
  with Some assms(2) [OF Some] show ?thesis
    by (intro unknown_key_not_authenticated keys_run)
qed

lemma rng_revoked [simp]: "rng (revoked gone st) = rng st"
  by (simp add: revoked_def)

lemma rng_logout: "rng (snd (logout sha cfg now k token st)) = rng st"
  by (simp add: logout_def Let_def case_prod_unfold split: option.split)

text \<open>One random source throughout, which never repeats itself: the first login draws sevens, the second eights.\<close>

definition counting_fill :: "nat rng_fill" where
  "counting_fill n r = (Some (replicate n (word_of_nat r)), r + 1)"

definition first_login :: "nat auth" where
  "first_login = snd (login (\<lambda>m. m) counting_fill default_auth_config 0 ''pw'' Bearer UNKNOWN [] (demo_state\<lparr>rng := 7\<rparr>))"

lemma first_login_table:
  "table first_login = (table_new default_auth_config)\<lparr>entries := [new_entry 0 Bearer (digest (\<lambda>m. m) Bearer (replicate 32 7)) (replicate 32 0) 1],
     next_id := 2\<rparr> \<and> rng first_login = 8"
  by (simp add: first_login_def login_def counting_fill_def demo_state_def with_parts_def set_password_def judge_password_def
      check_def limiter_new_def refill_def forget_stale_def default_auth_config_def default_limiter_config_def
      issue_def alloc_id_def table_new_def prune_def prune_from.simps insert_entry_def new_entry_def Let_def
      split: prod.split)

theorem logout_is_final_witness:
  "fst (authenticate (\<lambda>m. m) default_auth_config 9 Bearer (hex_encode (replicate 32 7))
     (snd (auth_run (\<lambda>m. m) counting_fill default_auth_config
       [(5, Op_login ''pw'' Bearer UNKNOWN []), (6, Op_touch 1)]
       (snd (logout (\<lambda>m. m) default_auth_config 4 Bearer (hex_encode (replicate 32 7)) first_login))))) = None"
proof (rule logout_is_final)
  show "keys_distinct (table first_login)" using first_login_table by (simp add: keys_distinct_def)
  fix d
  assume "session_of (\<lambda>m. m) Bearer (hex_encode (replicate 32 7)) = Some d"
  then have d: "d = digest (\<lambda>m. m) Bearer (replicate 32 7)" by (simp add: session_of_def lower_hex.dec_enc)
  let ?st = "snd (logout (\<lambda>m. m) default_auth_config 4 Bearer (hex_encode (replicate 32 7)) first_login)"
  have "rng ?st = 8" using first_login_table by (simp add: rng_logout)
  then have "drawn (\<lambda>m. m) counting_fill default_auth_config [(5, Op_login ''pw'' Bearer UNKNOWN []), (6, Op_touch 1)] ?st =
      [(Bearer, digest (\<lambda>m. m) Bearer (replicate 32 8))]"
    by (simp add: drawn_by_def login_tokens_def counting_fill_def)
  then show "(Bearer, d) \<notin> set (drawn (\<lambda>m. m) counting_fill default_auth_config
      [(5, Op_login ''pw'' Bearer UNKNOWN []), (6, Op_touch 1)] ?st)"
    by (simp add: d digest_def)
qed

section \<open>Open streams\<close>

lemma find_by_id:
  assumes "distinct (map ent_id (entries t))"
  shows "by_id i t = Some e \<longleftrightarrow> e \<in> set (entries t) \<and> ent_id e = i"
  using find_unique [OF assms] by (simp add: by_id_def)

text \<open>
  An open stream is told the truth about its session: the time left and a fresh idle deadline while
  it is live; that it expired once it is past its deadline, now and when it asks again, even when
  another request's pruning removed it first; and that it was revoked when it was logged out.
\<close>

theorem touch_session_reports:
  assumes "table_inv cfg past (table st)" and "past \<le> now" and "e \<in> set (entries (table st))"
  shows "(now < deadline cfg e \<longrightarrow>
       fst (touch_session cfg now (ent_id e) st) = Live (deadline cfg (e\<lparr>last_used := now\<rparr>) - now)) \<and>
    (deadline cfg e \<le> now \<longrightarrow>
       fst (touch_session cfg now (ent_id e) st) = Expired \<and>
       fst (touch_session cfg now (ent_id e) (snd (touch_session cfg now (ent_id e) st))) = Expired \<and>
       fst (touch_session cfg now (ent_id e) (st\<lparr>table := snd (prune now cfg (table st))\<rparr>)) = Expired) \<and>
    (now < deadline cfg e \<and> \<not> recently_expired (ent_id e) (snd (prune now cfg (table st))) \<longrightarrow>
       fst (touch_session cfg now (ent_id e) (snd (logout_id cfg now (ent_id e) st))) = Revoked)"
proof -
  let ?t = "table st" and ?i = "ent_id e"
  let ?p = "snd (prune now cfg ?t)"
  have ids: "distinct (map ent_id (entries ?t))" using assms(1) by (simp add: table_inv_def)
  then have find: "by_id ?i ?t = Some e" using assms(3) by (simp add: find_by_id)
  have inv: "table_inv cfg past ?p" using assms(1) by (rule table_inv_prune)
  then have pids: "distinct (map ent_id (entries ?p))" by (simp add: table_inv_def)
  have uniq: "x = e" if "x \<in> set (entries ?t)" "ent_id x = ?i" for x
    using that assms(3) ids by (simp add: distinct_map inj_on_def)
  have pruned: "by_id ?i ?p = None \<and> recently_expired ?i ?p" if "deadline cfg e \<le> now"
  proof
    show "by_id ?i ?p = None"
      using that uniq by (auto simp: by_id_def find_None_iff set_entries_prune expired_def)
    show "recently_expired ?i ?p" using assms(1,3) that by (rule recently_expired_pruned)
  qed
  have revoked: "fst (touch_session cfg now ?i (snd (logout_id cfg now ?i st))) = Revoked"
    if "now < deadline cfg e" "\<not> recently_expired ?i ?p"
  proof -
    have e: "e \<in> set (entries ?p)" using that assms(3) by (simp add: set_entries_prune expired_def)
    then obtain n where n: "position (\<lambda>x. ent_id x = ?i) (entries ?p) = Some n"
      using position_None_iff [of "\<lambda>x. ent_id x = ?i" "entries ?p"] by (cases "position (\<lambda>x. ent_id x = ?i) (entries ?p)") auto
    then have "n < length (entries ?p)" "ent_id (entries ?p ! n) = ?i" by (auto dest: position_SomeD)
    with swap_remove_remaining [OF pids this(1)]
    have "by_id ?i (?p\<lparr>entries := swap_remove (entries ?p) n\<rparr>) = None"
      by (auto simp: by_id_def find_None_iff)
    with n that(2) show ?thesis
      by (simp add: logout_id_def remove_id_def touch_session_def Let_def recently_expired_def)
  qed
  show ?thesis
    using find pruned revoked
    by (auto simp: touch_session_def Let_def saturating_duration_since_def)
qed

theorem touch_session_reports_witness:
  "fst (touch_session default_auth_config (from_secs 3600) 1 (demo_state\<lparr>table := one_session\<rparr>)) = Expired"
proof -
  let ?e = "\<lparr>ent_id = 1, ent_kind = Bearer, ent_digest = [7], ent_csrf = [], created = 0, last_used = 0\<rparr>"
  have "deadline default_auth_config ?e \<le> from_secs 3600"
    by (simp add: deadline_def default_auth_config_def saturating_add_def dur_saturating_add_def from_secs_def dur_max_def)
  with touch_session_reports [of default_auth_config 0 "demo_state\<lparr>table := one_session\<rparr>" "from_secs 3600" ?e]
  show ?thesis using one_session_inv by (simp add: one_session_def)
qed

end
