(* ===== verification/Auth_Guessing.thy ===== *)
theory Auth_Guessing
  imports Auth_Sessions
begin

text \<open>
  What an attacker without the password can do: how many passwords the agent compares over any span
  of time, whatever requests arrive from however many addresses, and which login form tokens and CSRF
  values it accepts.
\<close>

section \<open>Wrong passwords\<close>

definition guess_inv :: "auth_config \<Rightarrow> boot_instant \<Rightarrow> boot_instant \<Rightarrow> nat \<Rightarrow> 'r auth \<Rightarrow> bool" where
  "guess_inv cfg t0 now n st \<longleftrightarrow>
     lim_cfg (limiter st) = limiter_cfg cfg \<and> limiter_inv now (limiter st) \<and> limiter_credit t0 n (limiter st)"

lemma lim_cfg_record_success [simp]: "lim_cfg (record_success key l) = lim_cfg l"
  by (simp add: record_success_def)

lemma guess_inv_later: "guess_inv cfg t0 t1 n st \<Longrightarrow> t1 \<le> t2 \<Longrightarrow> guess_inv cfg t0 t2 n st"
  by (auto simp: guess_inv_def intro: limiter_inv_later)

lemma guess_inv_judge:
  assumes "guess_inv cfg t0 now n st" and "now < dur_max" and "0 < global_refill (limiter_cfg cfg)"
    and "judge_password pw peer now st = (err, st')"
  shows "guess_inv cfg t0 now (if err = Some BadPassword then Suc n else n) st'"
proof -
  let ?l = "snd (check peer now (limiter st))"
  have cfg: "lim_cfg (limiter st) = limiter_cfg cfg" and inv: "limiter_inv now (limiter st)"
    and credit: "limiter_credit t0 n (limiter st)"
    using assms(1) by (simp_all add: guess_inv_def)
  have inv': "limiter_inv now ?l" and credit': "limiter_credit t0 n ?l"
    using inv credit assms(2) by (auto intro: limiter_inv_check credit_check)
  have failed: "limiter_credit t0 (Suc n) (snd (record_failure peer now ?l))" if "fst (check peer now (limiter st)) = Allow"
    using credit inv assms(2,3) that cfg by (intro credit_record_failure) simp_all
  have "limiter_inv now (snd (record_failure peer now ?l))"
    using inv' assms(2) by (intro limiter_inv_record_failure) auto
  then show ?thesis
    using assms(4) cfg inv' credit' failed
    by (auto simp: judge_password_def guess_inv_def Let_def case_prod_unfold record_failure_parts
        intro: limiter_inv_record_success split: admit.splits option.splits if_splits)
qed

lemma limiter_judge_cong:
  "limiter st = limiter st' \<Longrightarrow> password st = password st' \<Longrightarrow>
     fst (judge_password pw peer now st) = fst (judge_password pw peer now st')"
  by (simp add: judge_password_def Let_def case_prod_unfold split: admit.split option.split)

lemma guess_inv_cong: "limiter st = limiter st' \<Longrightarrow> guess_inv cfg t0 now n st = guess_inv cfg t0 now n st'"
  by (simp add: guess_inv_def)

lemma guess_inv_login:
  assumes "guess_inv cfg t0 now n st" and "now < dur_max" and "0 < global_refill (limiter_cfg cfg)"
    and "login sha fill cfg now pw k peer replacing st = (r, st')"
  shows "guess_inv cfg t0 now (if r = Inl BadPassword then Suc n else n) st'"
proof (rule login_cases [of fill k st sha cfg now pw peer replacing])
  fix x assume "login sha fill cfg now pw k peer replacing st = (Inl Entropy, st\<lparr>rng := x\<rparr>)"
  with assms show ?thesis by (auto simp: guess_inv_def)
next
  fix token csrf x e st1
  assume j: "judge_password (sha (as_bytes pw)) peer now (st\<lparr>rng := x, table := snd (prune now cfg (table st))\<rparr>) = (Some e, st1)"
    and l: "login sha fill cfg now pw k peer replacing st = (Inl e, st1)"
  have "guess_inv cfg t0 now n (st\<lparr>rng := x, table := snd (prune now cfg (table st))\<rparr>)"
    using assms(1) by (simp add: guess_inv_def)
  from guess_inv_judge [OF this assms(2,3) j] l assms(4) show ?thesis by auto
next
  fix token csrf x st1
  assume j: "judge_password (sha (as_bytes pw)) peer now (st\<lparr>rng := x, table := snd (prune now cfg (table st))\<rparr>) = (None, st1)"
    and l: "login sha fill cfg now pw k peer replacing st =
         (case issue cfg now k (digest sha k token) csrf (replaced_digests sha k replacing) (snd (prune now cfg (table st)))
          of (i, gone, t) \<Rightarrow>
            (Inr \<lparr>iss_id = i, iss_token = hex_encode token,
                 iss_csrf = (if k = Browser then Some (hex_encode csrf) else None),
                 iss_max_age = absolute (policy_of cfg k)\<rparr>, revoked gone (st1\<lparr>table := t\<rparr>)))"
  have "guess_inv cfg t0 now n (st\<lparr>rng := x, table := snd (prune now cfg (table st))\<rparr>)"
    using assms(1) by (simp add: guess_inv_def)
  from guess_inv_judge [OF this assms(2,3) j] have "guess_inv cfg t0 now n st1" by simp
  moreover have "limiter st' = limiter st1" and "r \<noteq> Inl BadPassword"
    using l assms(4) by (auto split: prod.splits)
  ultimately show ?thesis by (simp add: guess_inv_def)
qed

lemma guess_inv_step:
  assumes "guess_inv cfg t0 now n st" and "now < dur_max" and "0 < global_refill (limiter_cfg cfg)"
  shows "guess_inv cfg t0 now (if fst (auth_step sha fill cfg now op st) then Suc n else n)
     (snd (auth_step sha fill cfg now op st))"
proof (cases op)
  case (Op_login pw k peer replacing)
  obtain r st' where l: "login sha fill cfg now pw k peer replacing st = (r, st')" by (meson surj_pair)
  with guess_inv_login [OF assms l] Op_login show ?thesis by simp
next
  case (Op_check_password pw peer)
  obtain err st' where j: "judge_password (sha (as_bytes pw)) peer now st = (err, st')" by (meson surj_pair)
  with guess_inv_judge [OF assms j] Op_check_password show ?thesis
    by (auto simp: check_password_def split: option.splits)
next
  case (Op_authenticate k token)
  with assms(1) show ?thesis
    by (auto simp: authenticate_def guess_inv_def Let_def split: option.splits)
next
  case (Op_logout k token)
  with assms(1) show ?thesis
    by (auto simp: logout_def guess_inv_def Let_def case_prod_unfold split: option.splits)
next
  case (Op_logout_id i)
  with assms(1) show ?thesis by (simp add: logout_id_def guess_inv_def Let_def case_prod_unfold)
next
  case Op_revoke_all
  with assms(1) show ?thesis by (simp add: revoke_all_def guess_inv_def Let_def case_prod_unfold)
next
  case (Op_touch i)
  with assms(1) show ?thesis by (simp add: touch_session_def guess_inv_def Let_def case_prod_unfold)
qed

text \<open>The times of a run: each request reads the clock after the one before it.\<close>

fun times_ok :: "boot_instant \<Rightarrow> (boot_instant \<times> auth_op) list \<Rightarrow> boot_instant \<Rightarrow> bool" where
  "times_ok from [] until \<longleftrightarrow> from \<le> until"
| "times_ok from ((now, op) # ops) until \<longleftrightarrow> from \<le> now \<and> times_ok now ops until"

lemma times_ok_le: "times_ok from ops until \<Longrightarrow> from \<le> until"
  by (induction ops arbitrary: "from") (auto, blast intro: order_trans)

lemma guess_inv_run:
  assumes "guess_inv cfg t0 from n st" and "times_ok from ops until" and "until < dur_max"
    and "0 < global_refill (limiter_cfg cfg)"
  shows "guess_inv cfg t0 until (n + fst (auth_run sha fill cfg ops st)) (snd (auth_run sha fill cfg ops st))"
  using assms(1,2)
proof (induction ops arbitrary: "from" n st)
  case Nil
  then show ?case by (simp add: guess_inv_later)
next
  case (Cons x ops)
  obtain now op where x: "x = (now, op)" by (cases x)
  have now: "from \<le> now" "times_ok now ops until" using Cons.prems(2) by (simp_all add: x)
  then have "now < dur_max" using times_ok_le [of now ops until] assms(3) by simp
  with guess_inv_later [OF Cons.prems(1) now(1)] assms(4)
  have "guess_inv cfg t0 now (if fst (auth_step sha fill cfg now op st) then Suc n else n)
      (snd (auth_step sha fill cfg now op st))"
    by (intro guess_inv_step)
  from Cons.IH [OF this now(2)] show ?case
    by (cases "fst (auth_step sha fill cfg now op st)") (simp_all add: x Let_def case_prod_unfold)
qed

text \<open>
  C1: however many clients guess, in whatever order and between whatever other requests, the number of
  wrong passwords the agent compares from its start until any later time is at most the burst plus one
  per refill period: with the shipped settings 30 and one per 10 seconds.
\<close>

theorem wrong_passwords_bounded:
  assumes "times_ok start ops until" and "until < dur_max" and "0 < global_refill (limiter_cfg cfg)"
  shows "fst (auth_run sha fill cfg ops (set_password sha pw (with_parts r cfg start)))
    \<le> global_burst (limiter_cfg cfg) + (until - start) div global_refill (limiter_cfg cfg)"
proof -
  let ?n = "fst (auth_run sha fill cfg ops (set_password sha pw (with_parts r cfg start)))"
  let ?p = "global_refill (limiter_cfg cfg)" and ?b = "global_burst (limiter_cfg cfg)"
  have "limiter (set_password sha pw (with_parts r cfg start)) = limiter_new (limiter_cfg cfg) start"
    by (auto simp: set_password_def with_parts_def split: option.split)
  then have "guess_inv cfg start start 0 (set_password sha pw (with_parts r cfg start))"
    by (simp add: guess_inv_def limiter_inv_new credit_new) (simp add: limiter_new_def)
  from guess_inv_run [OF this assms] have "?n * ?p \<le> ?b * ?p + (until - start)"
    unfolding guess_inv_def using credit_bound by fastforce
  then have "?n * ?p div ?p \<le> (?b * ?p + (until - start)) div ?p" by (rule div_le_mono)
  then show ?thesis using assms(3) by (simp add: div_mult_self3)
qed

theorem wrong_passwords_bounded_witness:
  "fst (auth_run (\<lambda>m. m) demo_fill default_auth_config
     (map (\<lambda>n. (n, Op_check_password ''guess'' (V4 [10, 0, 0, word_of_nat n]))) [0 ..< 200])
     (set_password (\<lambda>m. m) ''pw'' (with_parts 1 default_auth_config 0))) \<le> 30"
proof -
  have steps: "times_ok k (map (\<lambda>n. (n, Op_check_password ''guess'' (V4 [10, 0, 0, word_of_nat n]))) [k ..< k + m]) (k + m)"
    for k m
  proof (induction m arbitrary: k)
    case (Suc m)
    have "[k ..< k + Suc m] = k # [Suc k ..< Suc k + m]" by (simp add: upt_conv_Cons)
    moreover have "times_ok k' ops u \<Longrightarrow> k \<le> k' \<Longrightarrow> times_ok k ops u" for k' ops u
      by (cases ops) auto
    ultimately show ?case using Suc [of "Suc k"] by simp
  qed simp
  show ?thesis
    using wrong_passwords_bounded [OF steps [of 0 200], of default_auth_config "\<lambda>m. m" demo_fill "''pw''" 1]
    by (simp add: default_auth_config_def default_limiter_config_def from_secs_def dur_max_def)
qed

section \<open>CSRF values\<close>

text \<open>
  A form is accepted for a session exactly with that session's own CSRF value, as its pages carry
  it, and never for a bearer token.
\<close>

theorem check_csrf_iff:
  assumes "length (pr_csrf p) = 32"
  shows "check_csrf p presented \<longleftrightarrow> pr_kind p = Browser \<and> presented = csrf_token p"
  using assms by (auto simp: check_csrf_def csrf_token_def parse_hex_iff)

theorem check_csrf_iff_witness:
  "check_csrf \<lparr>pr_id = 1, pr_kind = Browser, pr_csrf = replicate 32 7\<rparr> (hex_encode (replicate 32 7))"
  using check_csrf_iff [of "\<lparr>pr_id = 1, pr_kind = Browser, pr_csrf = replicate 32 7\<rparr>" "hex_encode (replicate 32 7)"]
  by (simp add: csrf_token_def)

section \<open>Login form tokens\<close>

lemma form_offset_less: "form_offset hmac key < 2 ^ 32"
proof -
  have "be_value bs < 256 ^ length bs" for bs
    by (rule be_value_less)
  then have "be_value (take 4 b) < 256 ^ length (take 4 b)" for b .
  moreover have "256 ^ length (take 4 b) \<le> (256 :: nat) ^ 4" for b :: bytes
    by (rule power_increasing) simp_all
  ultimately have "be_value (take 4 b) < 256 ^ 4" for b
    using less_le_trans by blast
  then show ?thesis by (simp add: form_offset_def split: option.split)
qed

lemma canonical_show_nat: "v < 2 ^ 64 \<Longrightarrow> canonical_secs (show_nat v)"
proof -
  assume "v < 2 ^ 64"
  then have "v < 10 ^ 20" by simp
  then have "length (show_nat v) \<le> 20" by (intro length_show_nat_le) simp_all
  moreover have "show_nat v = ''0'' \<or> take 1 (show_nat v) \<noteq> ''0''"
  proof (cases "v = 0")
    case True
    then show ?thesis by (simp add: show_nat_small char_of_def)
  next
    case False
    then have "hd (show_nat v) \<noteq> CHR ''0''" by (intro show_nat_hd) simp
    then show ?thesis by (cases "show_nat v") auto
  qed
  ultimately show ?thesis by (simp add: canonical_secs_def digits_show_nat)
qed

lemma canonical_parse_iff:
  "canonical_secs s \<and> parse_uint 64 s = Some v \<longleftrightarrow> s = show_nat v \<and> v < 2 ^ 64"
proof
  assume l: "canonical_secs s \<and> parse_uint 64 s = Some v"
  then have d: "list_all is_ascii_digit s" "s \<noteq> []" and z: "s = ''0'' \<or> hd s \<noteq> CHR ''0''"
    by (auto simp: canonical_secs_def take_Suc neq_Nil_conv)
  then have "hd s \<noteq> CHR ''+''" by (cases s) (auto simp: is_ascii_digit_iff)
  with l d have "parse_digits s = v" "v < 2 ^ 64"
    by (auto simp: parse_uint_def Let_def split: list.splits if_splits)
  with show_parse_digits [OF d z] show "s = show_nat v \<and> v < 2 ^ 64" by simp
next
  assume "s = show_nat v \<and> v < 2 ^ 64"
  then show "canonical_secs s \<and> parse_uint 64 s = Some v"
    by (simp add: canonical_show_nat parse_uint_show_nat)
qed

lemma dot_not_in_show_nat: "CHR ''.'' \<notin> set (show_nat n)"
proof
  assume "CHR ''.'' \<in> set (show_nat n)"
  then have "is_ascii_digit CHR ''.''" using digits_show_nat list_allD by fast
  then show False by (simp add: is_ascii_digit_def less_eq_char_def)
qed

lemma form_token_parts_iff:
  assumes "as_secs now + 2 ^ 32 \<le> 2 ^ 64"
  shows "form_token_parts hmac cfg now key token = Some (made, tag) \<longleftrightarrow>
    token = show_nat (made + form_offset hmac key) @ ''.'' @ hex_encode tag \<and> length tag = 16 \<and>
    made \<le> as_secs now \<and> as_secs now - made \<le> dur_as_secs (login_form_ttl cfg)"
proof
  assume "form_token_parts hmac cfg now key token = Some (made, tag)"
  then obtain secs rest shown where s: "split_once CHR ''.'' token = Some (secs, rest)"
      "canonical_secs secs" "parse_uint 64 secs = Some shown" "form_offset hmac key \<le> shown"
      "made = shown - form_offset hmac key" "parse_hex 16 rest = Some tag"
      "made \<le> as_secs now" "as_secs now - made \<le> dur_as_secs (login_form_ttl cfg)"
    by (auto simp: form_token_parts_def Let_def split: option.splits prod.splits if_splits)
  have "secs = show_nat shown" using s(2,3) canonical_parse_iff by blast
  moreover have "token = secs @ CHR ''.'' # rest" using split_once_SomeD [OF s(1)] by simp
  ultimately show "token = show_nat (made + form_offset hmac key) @ ''.'' @ hex_encode tag \<and> length tag = 16 \<and>
    made \<le> as_secs now \<and> as_secs now - made \<le> dur_as_secs (login_form_ttl cfg)"
    using s by (simp add: parse_hex_iff)
next
  assume r: "token = show_nat (made + form_offset hmac key) @ ''.'' @ hex_encode tag \<and> length tag = 16 \<and>
    made \<le> as_secs now \<and> as_secs now - made \<le> dur_as_secs (login_form_ttl cfg)"
  have "made + form_offset hmac key < 2 ^ 64"
    using r assms form_offset_less [of hmac key] by linarith
  then have "canonical_secs (show_nat (made + form_offset hmac key))"
    "parse_uint 64 (show_nat (made + form_offset hmac key)) = Some (made + form_offset hmac key)"
    using canonical_parse_iff by blast+
  moreover have "split_once CHR ''.'' token = Some (show_nat (made + form_offset hmac key), hex_encode tag)"
    using r split_once_append [OF dot_not_in_show_nat] by simp
  moreover have "parse_hex 16 (hex_encode tag) = Some tag" using r by (simp add: parse_hex_iff)
  ultimately show "form_token_parts hmac cfg now key token = Some (made, tag)"
    using r by (simp add: form_token_parts_def Let_def)
qed

lemma as_secs_from_secs [simp]: "as_secs (from_secs s) = s"
  by (simp add: as_secs_def dur_as_secs_def from_secs_def)

text \<open>
  C30: the login form tokens accepted for a cookie are exactly the texts this process would have issued
  for that very cookie at some second of the last fifteen minutes; none before it issued any.
\<close>

theorem form_tokens_accepted_iff_issued:
  assumes "as_secs now + 2 ^ 32 \<le> 2 ^ 64"
    and "\<And>key m mac. hmac key m = Some mac \<Longrightarrow> length mac = 32"
  shows "verify_login_form_token hmac cfg now pre token st \<longleftrightarrow>
    form_key_cell st \<noteq> None \<and> (\<exists>raw. pre = hex_encode raw \<and> length raw = 32) \<and>
    (\<exists>t. fst (login_form_token hmac fill t pre st) = Inr token \<and>
       as_secs t \<le> as_secs now \<and> as_secs now - as_secs t \<le> dur_as_secs (login_form_ttl cfg))"
proof (cases "form_key_cell st")
  case None
  then show ?thesis by (simp add: verify_login_form_token_def)
next
  case (Some key)
  let ?fresh = "\<lambda>s. s \<le> as_secs now \<and> as_secs now - s \<le> dur_as_secs (login_form_ttl cfg)"
  have issued: "fst (login_form_token hmac fill t pre st) = Inr token \<longleftrightarrow>
      (\<exists>mac. form_mac hmac key pre (as_secs t) = Some mac \<and>
        token = show_nat (as_secs t + form_offset hmac key) @ ''.'' @ hex_encode (take 16 mac))" for t
    using Some by (auto simp: login_form_token_def form_key_def Let_def and_then_Inr_iff ok_or_Inr_iff)
  have "verify_login_form_token hmac cfg now pre token st \<longleftrightarrow>
      parse_hex 32 pre \<noteq> None \<and>
      (\<exists>made tag mac. form_token_parts hmac cfg now key token = Some (made, tag) \<and>
         form_mac hmac key pre made = Some mac \<and> take 16 mac = tag)"
    using Some by (auto simp: verify_login_form_token_def split: option.splits)
  moreover have len: "length (take 16 mac) = 16" if "form_mac hmac key pre made = Some mac" for made mac
    using assms(2) that unfolding form_mac_def by fastforce
  ultimately have "verify_login_form_token hmac cfg now pre token st \<longleftrightarrow>
      parse_hex 32 pre \<noteq> None \<and>
      (\<exists>made tag mac. form_token_parts hmac cfg now key token = Some (made, tag) \<and>
         form_mac hmac key pre made = Some mac \<and> take 16 mac = tag)" by blast
  also have "\<dots> \<longleftrightarrow> parse_hex 32 pre \<noteq> None \<and>
      (\<exists>made mac. form_mac hmac key pre made = Some mac \<and>
         token = show_nat (made + form_offset hmac key) @ ''.'' @ hex_encode (take 16 mac) \<and> ?fresh made)"
    unfolding form_token_parts_iff [OF assms(1)] using len by (intro conj_cong refl) fast
  also have "\<dots> \<longleftrightarrow> parse_hex 32 pre \<noteq> None \<and>
      (\<exists>t mac. form_mac hmac key pre (as_secs t) = Some mac \<and>
         token = show_nat (as_secs t + form_offset hmac key) @ ''.'' @ hex_encode (take 16 mac) \<and> ?fresh (as_secs t))"
    by (metis as_secs_from_secs)
  finally show ?thesis
    using Some by (auto simp: issued parse_hex_iff)
qed

definition demo_hmac :: "bytes \<Rightarrow> bytes \<Rightarrow> bytes option" where
  "demo_hmac key m = Some (take 32 (rev m @ replicate 32 0))"

theorem form_tokens_accepted_iff_issued_witness:
  "verify_login_form_token demo_hmac default_auth_config (from_secs 900) (hex_encode (replicate 32 7))
     (case fst (login_form_token demo_hmac demo_fill (from_secs 5) (hex_encode (replicate 32 7))
                  (demo_state\<lparr>form_key_cell := Some []\<rparr>)) of Inr token \<Rightarrow> token | Inl _ \<Rightarrow> [])
     (demo_state\<lparr>form_key_cell := Some []\<rparr>)"
proof -
  let ?pre = "hex_encode (replicate 32 7)" and ?st = "demo_state\<lparr>form_key_cell := Some []\<rparr>"
  have "\<exists>token. fst (login_form_token demo_hmac demo_fill (from_secs 5) ?pre ?st) = Inr token"
    by (simp add: login_form_token_def form_key_def form_mac_def demo_hmac_def)
  then obtain token where token: "fst (login_form_token demo_hmac demo_fill (from_secs 5) ?pre ?st) = Inr token" by blast
  have "verify_login_form_token demo_hmac default_auth_config (from_secs 900) ?pre token ?st"
  proof (subst form_tokens_accepted_iff_issued [where fill = demo_fill])
    show "form_key_cell ?st \<noteq> None \<and> (\<exists>raw. ?pre = hex_encode raw \<and> length raw = 32) \<and>
      (\<exists>t. fst (login_form_token demo_hmac demo_fill t ?pre ?st) = Inr token \<and>
       as_secs t \<le> as_secs (from_secs 900) \<and>
       as_secs (from_secs 900) - as_secs t \<le> dur_as_secs (login_form_ttl default_auth_config))"
      using token by (intro conjI exI [of _ "from_secs 5"] exI [of _ "replicate 32 7"])
        (simp_all add: default_auth_config_def dur_as_secs_def as_secs_def from_secs_def)
  qed (auto simp: demo_hmac_def)
  with token show ?thesis by simp
qed

end
