(* ===== verification/Base64_Decode.thy ===== *)
theory Base64_Decode
  imports Codec_Interface
begin

text \<open>
  \<open>euicc/src/b64.rs\<close>: libeuicc's lenient base64 reader. \<open>decode\<close> of the file is \<open>b64_decode\<close>; its
  \<open>encode\<close> only calls the \<open>base64\<close> crate and is a parameter wherever the model needs it. The
  lemmas say which characters count, how many bytes come out, and that the standard encoding
  (stated here as \<open>b64_groups\<close>, what RFC 4648 prescribes for the crate's \<open>STANDARD\<close> engine) of any
  bytes is read back exactly, whatever follows the first foreign character.
\<close>

section \<open>Decoding\<close>

definition sextet :: "char \<Rightarrow> u8 option" where
  "sextet c =
     (let n = of_char c :: nat in
      if 65 \<le> n \<and> n \<le> 90 then Some (word_of_nat (n - 65))
      else if 97 \<le> n \<and> n \<le> 122 then Some (word_of_nat (n - 97) + 26)
      else if 48 \<le> n \<and> n \<le> 57 then Some (word_of_nat (n - 48) + 52)
      else if n = 43 then Some 62
      else if n = 47 then Some 63
      else None)"

text \<open>\<open>text.bytes().map_while(sextet)\<close>.\<close>

fun map_while :: "('a \<Rightarrow> 'b option) \<Rightarrow> 'a list \<Rightarrow> 'b list" where
  "map_while f [] = []"
| "map_while f (x # xs) = (case f x of None \<Rightarrow> [] | Some y \<Rightarrow> y # map_while f xs)"

definition decode_group :: "u8 list \<Rightarrow> bytes" where
  "decode_group grp =
     (case grp of a # b # _ \<Rightarrow> [push_bit 2 a OR drop_bit 4 b] | _ \<Rightarrow> []) @
     (case grp of _ # b # c # _ \<Rightarrow> [push_bit 4 b OR drop_bit 2 c] | _ \<Rightarrow> []) @
     (case grp of [_, _, c, d] \<Rightarrow> [push_bit 6 c OR d] | _ \<Rightarrow> [])"

definition b64_decode :: "string \<Rightarrow> bytes" where
  "b64_decode text = concat (map decode_group (chunks 4 (map_while sextet text)))"

lemma map_while_append_stop:
  "list_all (\<lambda>x. f x \<noteq> None) xs \<Longrightarrow> f y = None \<Longrightarrow> map_while f (xs @ y # ys) = map (the \<circ> f) xs"
  by (induction xs) auto

lemma map_while_all: "list_all (\<lambda>x. f x \<noteq> None) xs \<Longrightarrow> map_while f xs = map (the \<circ> f) xs"
  by (induction xs) auto

section \<open>The standard encoding is read back\<close>

definition B64_ALPHABET :: string where
  "B64_ALPHABET = ''ABCDEFGHIJKLMNOPQRSTUVWXYZabcdefghijklmnopqrstuvwxyz0123456789+/''"

definition b64_char :: "u8 \<Rightarrow> char" where
  "b64_char s = B64_ALPHABET ! unat s"

text \<open>The characters of the standard encoding before the \<open>=\<close> padding.\<close>

fun b64_groups :: "bytes \<Rightarrow> u8 list" where
  "b64_groups [] = []"
| "b64_groups [a] = [drop_bit 2 a, push_bit 4 (a AND 3)]"
| "b64_groups [a, b] = [drop_bit 2 a, push_bit 4 (a AND 3) OR drop_bit 4 b, push_bit 2 (b AND 15)]"
| "b64_groups (a # b # c # bs) =
     [drop_bit 2 a, push_bit 4 (a AND 3) OR drop_bit 4 b, push_bit 2 (b AND 15) OR drop_bit 6 c, c AND 63]
     @ b64_groups bs"

definition b64_unpadded :: "bytes \<Rightarrow> string" where
  "b64_unpadded bs = map b64_char (b64_groups bs)"

lemma masks: "(a :: u8) AND 3 = take_bit 2 a" "(b :: u8) AND 15 = take_bit 4 b" "(c :: u8) AND 63 = take_bit 6 c"
  by (simp_all add: take_bit_eq_mask mask_eq_exp_minus_1)

lemma word_eq_iff_unsigned_nat: "(v :: u8) = w \<longleftrightarrow> unat v = unat w"
  by (auto intro: unsigned_word_eqI)

lemma bit_u8: "bit (a :: u8) n \<Longrightarrow> n < 8"
  using bit_imp_le_length [of a n] by simp

lemma less_64: "(a :: u8) < 64 \<longleftrightarrow> take_bit 6 a = a"
  by (simp add: word_less_nat_alt word_eq_iff_unsigned_nat unsigned_take_bit_eq take_bit_nat_eq_self_iff)

lemma b64_groups_small: "s \<in> set (b64_groups bs) \<Longrightarrow> s < 64"
proof (induction bs rule: b64_groups.induct)
  case (2 a)
  then show ?case
    by (auto simp: less_64 masks intro!: bit_word_eqI simp: bit_simps) (drule bit_u8, simp)+
next
  case (3 a b)
  then show ?case
    by (auto simp: less_64 masks intro!: bit_word_eqI simp: bit_simps) (drule bit_u8, simp)+
next
  case (4 a b c bs)
  then show ?case
    by (auto simp: less_64 masks intro!: bit_word_eqI simp: bit_simps) (drule bit_u8, simp)+
qed simp

lemma sextet_b64_char:
  assumes "s < 64"
  shows "sextet (b64_char s) = Some s"
proof -
  have "\<forall>n \<in> set [0..<64]. sextet (B64_ALPHABET ! n) = Some (word_of_nat n)"
    by (simp add: upt_conv_Cons B64_ALPHABET_def sextet_def)
  moreover have "unat s < 64"
    using assms by (simp add: word_less_nat_alt)
  ultimately have "sextet (B64_ALPHABET ! unat s) = Some (word_of_nat (unat s))" by simp
  then show ?thesis by (simp add: b64_char_def)
qed

lemma decode_groups:
  "concat (map decode_group (chunks 4 (b64_groups bs))) = bs"
proof (induction bs rule: b64_groups.induct)
  case (2 a)
  have "push_bit 2 (drop_bit 2 a) OR drop_bit 4 (push_bit 4 (take_bit 2 a)) = a"
  proof (rule bit_word_eqI)
    fix n assume "n < LENGTH(8)"
    then show "bit (push_bit 2 (drop_bit 2 a) OR drop_bit 4 (push_bit 4 (take_bit 2 a))) n = bit a n"
      by (cases "n < 2") (auto simp: bit_simps simp del: add_2_eq_Suc add_2_eq_Suc')
  qed
  then show ?case
    by (simp only: b64_groups.simps masks) (simp add: chunks_step decode_group_def)
next
  case (3 a b)
  show ?case
    by (simp add: chunks_step decode_group_def masks)
      (intro conjI; rule bit_word_eqI; auto simp: bit_simps simp del: add_2_eq_Suc add_2_eq_Suc';
        metis add_diff_inverse_nat)
next
  case (4 a b c bs)
  then show ?case
    by (simp add: chunks_step decode_group_def masks)
      (intro conjI; rule bit_word_eqI; auto simp: bit_simps simp del: add_2_eq_Suc add_2_eq_Suc';
        metis add_diff_inverse_nat)
qed simp

lemma b64_decode_until:
  assumes "rest = [] \<or> sextet (hd rest) = None"
  shows "b64_decode (b64_unpadded bs @ rest) = bs"
proof -
  have all: "list_all (\<lambda>x. sextet x \<noteq> None) (b64_unpadded bs)"
    using b64_groups_small by (auto simp: b64_unpadded_def list_all_iff sextet_b64_char)
  have "map_while sextet (b64_unpadded bs @ rest) = map (the \<circ> sextet) (b64_unpadded bs)"
    using assms all map_while_append_stop [OF all, of "hd rest" "tl rest"]
    by (cases rest) (auto simp: map_while_all)
  also have "\<dots> = b64_groups bs"
    using b64_groups_small [of _ bs] by (simp add: b64_unpadded_def map_idI sextet_b64_char)
  finally show ?thesis
    by (simp add: b64_decode_def decode_groups)
qed

lemma b64_decode_groups: "b64_decode (b64_unpadded bs) = bs"
  using b64_decode_until [of "[]"] by simp

interpretation b64: codec "\<lambda>_. True" b64_unpadded "\<lambda>s. Some (b64_decode s)"
  by unfold_locales (simp add: b64_decode_groups)

text \<open>
  The standard base64 of any bytes decodes to those bytes, with or without padding and whatever
  comes after the first character outside the alphabet.
\<close>

theorem b64_decode_standard:
  assumes "sextet c = None"
  shows "b64_decode (b64_unpadded bs) = bs \<and> b64_decode (b64_unpadded bs @ c # rest) = bs"
  using b64_decode_until [of "c # rest"] assms by (simp add: b64_decode_groups)

theorem b64_decode_standard_witness:
  "b64_decode (b64_unpadded [0xBF, 0x25] @ ''=trailing'') = [0xBF, 0x25]"
  using b64_decode_standard [of "CHR ''=''" "[0xBF, 0x25]" "''trailing''"] by (simp add: sextet_def)

text \<open>How many bytes come out: three for four characters, and one less than what is left over.\<close>

lemma length_decode_group: "length g \<le> 4 \<Longrightarrow> length (decode_group g) = length g - 1"
  by (auto simp: decode_group_def split: list.splits)

end
