(* ===== verification/Calendar.thy ===== *)
theory Calendar
  imports Agent_Prelude
begin

text \<open>
  \<open>zte-agent/src/calendar.rs\<close>: the two conversions between civil dates and days since 1970-01-01, on
  integers (no date an \<open>i64\<close> count of seconds can name leaves the range of \<open>i64\<close> here), against the
  calendar's own rules. \<open>div_euclid\<close> by a positive number is \<open>div\<close>; \<open>/\<close> is only applied to
  non-negative numbers, where it is \<open>div\<close> too.
\<close>

definition days_from_civil :: "int \<Rightarrow> int \<Rightarrow> int \<Rightarrow> int" where
  "days_from_civil y m d =
     (let y = (if m \<le> 2 then y - 1 else y);
          era = y div 400;
          yoe = y - era * 400;
          doy = (153 * ((m + 9) mod 12) + 2) div 5 + d - 1
      in era * 146097 + yoe * 365 + yoe div 4 - yoe div 100 + doy - 719468)"

definition civil :: "int \<Rightarrow> int \<times> int \<times> int" where
  "civil days =
     (let z = days + 719468;
          era = z div 146097;
          doe = z - era * 146097;
          yoe = (doe - doe div 1460 + doe div 36524 - doe div 146096) div 365;
          doy = doe - (365 * yoe + yoe div 4 - yoe div 100);
          mp = (5 * doy + 2) div 153;
          d = doy - (153 * mp + 2) div 5 + 1;
          m = (if mp < 10 then mp + 3 else mp - 9)
      in (yoe + era * 400 + (if m \<le> 2 then 1 else 0), m, d))"

section \<open>The calendar's rules\<close>

definition leap :: "int \<Rightarrow> bool" where
  "leap y \<longleftrightarrow> y mod 4 = 0 \<and> (y mod 100 \<noteq> 0 \<or> y mod 400 = 0)"

definition days_in_month :: "int \<Rightarrow> int \<Rightarrow> int" where
  "days_in_month y m =
     (if m = 2 then (if leap y then 29 else 28) else if m \<in> {4, 6, 9, 11} then 30 else 31)"

definition date_ok :: "int \<Rightarrow> int \<Rightarrow> int \<Rightarrow> bool" where
  "date_ok y m d \<longleftrightarrow> 1 \<le> m \<and> m \<le> 12 \<and> 1 \<le> d \<and> d \<le> days_in_month y m"

text \<open>The next day, by the rules.\<close>

definition tomorrow :: "int \<times> int \<times> int \<Rightarrow> int \<times> int \<times> int" where
  "tomorrow = (\<lambda>(y, m, d).
     if d < days_in_month y m then (y, m, d + 1) else if m < 12 then (y, m + 1, 1) else (y + 1, 1, 1))"

section \<open>Years from March\<close>

text \<open>A year of the era that begins in March, as a century, a four-year cycle and a year of it.\<close>

lemma split_era:
  assumes "0 \<le> (yoe :: int)" and "yoe < 400"
  obtains c q r where "yoe = 100 * c + 4 * q + r" "0 \<le> c" "c \<le> 3" "0 \<le> q" "q \<le> 24" "0 \<le> r" "r \<le> 3"
    "yoe div 4 = 25 * c + q" "yoe div 100 = c"
proof -
  define c s where "c = yoe div 100" and "s = yoe mod 100"
  define q r where "q = s div 4" and "r = s mod 4"
  have y: "yoe = 100 * c + s" "0 \<le> s" "s < 100" unfolding c_def s_def by simp_all
  have s: "s = 4 * q + r" "0 \<le> r" "r < 4" unfolding q_def r_def by simp_all
  have "yoe div 4 = 25 * c + q" by (rule int_div_pos_eq [of _ _ _ r]) (use y s in simp_all)
  moreover have "0 \<le> c" "c \<le> 3" using y s assms by linarith+
  moreover have "0 \<le> q" "q \<le> 24" using s y(2,3) by linarith+
  moreover have "yoe = 100 * c + 4 * q + r" "r \<le> 3" using y s by linarith+
  ultimately show ?thesis using that [of c q r] s(2) c_def by metis
qed

definition year_days :: "int \<Rightarrow> int" where
  "year_days yoe = (if (yoe + 1) mod 4 = 0 \<and> ((yoe + 1) mod 100 \<noteq> 0 \<or> yoe = 399) then 366 else 365)"

lemma long_year:
  assumes "yoe = 100 * c + 4 * q + r" "0 \<le> c" "c \<le> 3" "0 \<le> q" "q \<le> 24" "0 \<le> r" "r \<le> (3 :: int)"
    and "year_days yoe = 366"
  shows "r = 3 \<and> (q = 24 \<longrightarrow> c = 3)"
proof -
  have cases: "(yoe + 1) mod 4 = 0" "(yoe + 1) mod 100 \<noteq> 0 \<or> yoe = 399"
    using assms(8) by (auto simp: year_days_def split: if_splits)
  have "(yoe + 1) mod 4 = (r + 1) mod 4"
  proof -
    have "yoe + 1 = (r + 1) + 4 * (25 * c + q)" using assms(1) by simp
    then show ?thesis by (metis mod_mult_self2)
  qed
  then have r: "r = 3" using cases(1) assms(6,7) by (cases "r = 0"; cases "r = 1"; cases "r = 2") auto
  moreover have "c = 3" if "q = 24"
  proof -
    have "yoe + 1 = 100 * (c + 1)" using assms(1) r that by simp
    then have "(yoe + 1) mod 100 = 0" by simp
    then show ?thesis using cases(2) assms(1) r that by simp
  qed
  ultimately show ?thesis by simp
qed

lemma year_of_day:
  assumes "0 \<le> yoe" and "yoe < 400" and "0 \<le> doy" and "doy < year_days yoe"
    and "doe = 365 * yoe + yoe div 4 - yoe div 100 + doy"
  shows "(doe - doe div 1460 + doe div 36524 - doe div 146096) div 365 = yoe" and "0 \<le> doe" and "doe < 146097"
proof -
  obtain c q r where y: "yoe = 100 * c + 4 * q + r" "0 \<le> c" "c \<le> 3" "0 \<le> q" "q \<le> 24" "0 \<le> r" "r \<le> 3"
    "yoe div 4 = 25 * c + q" "yoe div 100 = c"
    using split_era [OF assms(1,2)] .
  have doe: "doe = 36524 * c + 1461 * q + 365 * r + doy" using assms(5) y by simp
  have doy: "doy \<le> 365" using assms(4) by (auto simp: year_days_def split: if_splits)
  have leap: "r = 3 \<and> (q = 24 \<longrightarrow> c = 3)" if "doy = 365"
    using long_year [OF y(1-7)] assms(4) that by (auto simp: year_days_def split: if_splits)
  show "0 \<le> doe" using doe y assms(3) by simp
  have top: "1461 * q + 365 * r + doy < (if c = 3 then 36525 else 36524)"
  proof (cases "doy = 365")
    case True
    then show ?thesis using leap y by (cases "c = 3"; cases "q = 24") auto
  next
    case False
    then show ?thesis using doy y by auto
  qed
  then show "doe < 146097" using doe y by (auto split: if_splits)
  define e where "e = (if 24 * c + q + 365 * r + doy < 1460 then 0 else 1 :: int)"
  define f where "f = (if doe = 146096 then 1 else 0 :: int)"
  have a: "doe div 1460 = 25 * c + q + e"
    by (rule int_div_pos_eq [of _ _ _ "24 * c + q + 365 * r + doy - 1460 * e"]) (use doe y doy assms(3) in \<open>auto simp: e_def\<close>)
  have b: "doe div 36524 = c + f"
    by (rule int_div_pos_eq [of _ _ _ "1461 * q + 365 * r + doy - 36524 * f"])
      (use doe y doy assms(3) top in \<open>auto simp: f_def split: if_splits\<close>)
  have d: "doe div 146096 = f"
    by (rule int_div_pos_eq [of _ _ _ "doe - 146096 * f"]) (use \<open>0 \<le> doe\<close> \<open>doe < 146097\<close> in \<open>auto simp: f_def\<close>)
  have "doe - doe div 1460 + doe div 36524 - doe div 146096 = 365 * yoe + (doy - e)"
    using a b d doe y(1) by simp
  moreover have "0 \<le> doy - e" "doy - e < 365"
    using y doy assms(3) leap by (cases "doy = 365"; auto simp: e_def)+
  ultimately show "(doe - doe div 1460 + doe div 36524 - doe div 146096) div 365 = yoe"
    by (intro int_div_pos_eq [of _ _ _ "doy - e"]) simp_all
qed

section \<open>Months from March\<close>

definition month_start :: "int \<Rightarrow> int" where
  "month_start mp = (153 * mp + 2) div 5"

lemma month_in: "1 \<le> m \<Longrightarrow> m \<le> (12 :: int) \<Longrightarrow> m \<in> {1, 2, 3, 4, 5, 6, 7, 8, 9, 10, 11, 12}"
  by (simp only: insert_iff empty_iff) presburger

lemma div_between: "b * q \<le> a \<Longrightarrow> a < b * q + b \<Longrightarrow> a div b = (q :: int)"
  by (intro int_div_pos_eq [of _ _ _ "a - b * q"]) simp_all

lemma month_of_day:
  assumes "date_ok y m d"
  shows "(5 * (month_start ((m + 9) mod 12) + d - 1) + 2) div 153 = (m + 9) mod 12"
proof -
  have "1 \<le> m" "m \<le> 12" and d: "1 \<le> d" "d \<le> days_in_month y m" using assms by (simp_all add: date_ok_def)
  from month_in [OF this(1,2)] show ?thesis
    by (elim insertE emptyE; use d in \<open>simp add: month_start_def days_in_month_def split: if_splits\<close>;
        intro div_between; use d in simp)
qed

lemma month_back:
  assumes "1 \<le> m" and "m \<le> 12"
  shows "(if (m + 9) mod 12 < 10 then (m + 9) mod 12 + 3 else (m + 9) mod 12 - 9) = (m :: int)"
  using month_in [OF assms] by (elim insertE emptyE) simp_all

lemma month_next:
  "1 \<le> m \<Longrightarrow> m < 12 \<Longrightarrow> m \<noteq> 2 \<Longrightarrow>
     month_start ((m + 1 + 9) mod 12) = month_start ((m + 9) mod 12) + days_in_month y m"
  using month_in [of m] by (elim meta_impE insertE emptyE) (simp_all add: month_start_def days_in_month_def)

section \<open>Both ways\<close>

definition before_year :: "int \<Rightarrow> int" where
  "before_year y = 365 * y + y div 4 - y div 100 + y div 400"

definition march_year :: "int \<Rightarrow> int \<Rightarrow> int" where
  "march_year y m = (if m \<le> 2 then y - 1 else y)"

lemma days_closed:
  "days_from_civil y m d = before_year (march_year y m) + month_start ((m + 9) mod 12) + d - 1 - 719468"
proof -
  define w where "w = march_year y m"
  define era where "era = w div 400"
  have "w div 4 = 100 * era + (w - era * 400) div 4"
    using div_mult_self4 [of 4 "w - era * 400" "100 * era"] by simp
  moreover have "w div 100 = 4 * era + (w - era * 400) div 100"
    using div_mult_self4 [of 100 "w - era * 400" "4 * era"] by simp
  ultimately show ?thesis
    unfolding days_from_civil_def before_year_def Let_def
    by (simp add: month_start_def algebra_simps flip: march_year_def w_def era_def)
qed

text \<open>The day of the March year, and its bounds.\<close>

lemma day_of_march_year:
  assumes "date_ok y m d"
  shows "0 \<le> month_start ((m + 9) mod 12) + d - 1"
    and "month_start ((m + 9) mod 12) + d - 1 < (if leap (march_year y m + 1) then 366 else 365)"
proof -
  have "1 \<le> m" "m \<le> 12" and d: "1 \<le> d" "d \<le> days_in_month y m" using assms by (simp_all add: date_ok_def)
  from month_in [OF this(1,2)] d
  show "0 \<le> month_start ((m + 9) mod 12) + d - 1"
    by (elim insertE emptyE) (simp_all add: month_start_def)
  from month_in [OF \<open>1 \<le> m\<close> \<open>m \<le> 12\<close>] d
  show "month_start ((m + 9) mod 12) + d - 1 < (if leap (march_year y m + 1) then 366 else 365)"
    by (elim insertE emptyE) (auto simp: month_start_def days_in_month_def march_year_def split: if_splits)
qed

lemma mod_of_mod: "k dvd 400 \<Longrightarrow> (w mod 400 + 1) mod k = (w + 1) mod (k :: int)"
  by (metis mod_add_left_eq mod_mod_cancel)

lemma leap_in_era: "leap (w + 1) \<longleftrightarrow> year_days (w mod 400) = 366"
proof -
  have "(w + 1) mod 400 = 0 \<longleftrightarrow> w mod 400 = 399"
  proof (cases "w mod 400 = 399")
    case False
    moreover have "0 \<le> w mod 400" "w mod 400 < 400" by simp_all
    ultimately have "(w mod 400 + 1) mod 400 = w mod 400 + 1" by (intro mod_pos_pos_trivial) auto
    then show ?thesis using False mod_of_mod [of 400 w] \<open>0 \<le> w mod 400\<close> by simp
  qed (use mod_of_mod [of 400 w] in simp)
  moreover have "(w mod 400 + 1) mod 4 = (w + 1) mod 4" "(w mod 400 + 1) mod 100 = (w + 1) mod 100"
    by (intro mod_of_mod; simp)+
  ultimately show ?thesis by (simp add: leap_def year_days_def)
qed

lemma civil_of_days:
  assumes "date_ok y m d"
  shows "civil (days_from_civil y m d) = (y, m, d)"
proof -
  define w where "w = march_year y m"
  define era where "era = w div 400"
  define yoe where "yoe = w mod 400"
  define doy where "doy = month_start ((m + 9) mod 12) + d - 1"
  define doe where "doe = 365 * yoe + yoe div 4 - yoe div 100 + doy"
  have bounds: "0 \<le> yoe" "yoe < 400" "0 \<le> doy"
    using day_of_march_year(1) [OF assms] by (simp_all add: yoe_def doy_def)
  have "doy < year_days yoe"
    using day_of_march_year(2) [OF assms] leap_in_era [of w]
    by (auto simp: doy_def yoe_def w_def year_days_def split: if_splits)
  note year = year_of_day [OF bounds this doe_def]
  have "w - era * 400 = yoe" by (simp add: yoe_def era_def minus_div_mult_eq_mod)
  then have "days_from_civil y m d = era * 146097 + yoe * 365 + yoe div 4 - yoe div 100 + doy - 719468"
    by (simp only: days_from_civil_def Let_def march_year_def [symmetric] w_def [symmetric] era_def [symmetric]
        month_start_def [symmetric] doy_def)
  then have z: "days_from_civil y m d + 719468 = 146097 * era + doe" by (simp add: doe_def)
  then have era: "(days_from_civil y m d + 719468) div 146097 = era" by (intro div_between) (use year(2,3) in simp_all)
  have rest: "days_from_civil y m d + 719468 - era * 146097 = doe" using z by simp
  have doy: "doe - (365 * yoe + yoe div 4 - yoe div 100) = doy" by (simp add: doe_def)
  have mp: "(5 * doy + 2) div 153 = (m + 9) mod 12" using month_of_day [OF assms] by (simp add: doy_def)
  have d: "doy - month_start ((m + 9) mod 12) + 1 = d" by (simp add: doy_def)
  have "w = yoe + era * 400" by (simp add: yoe_def era_def)
  then have "yoe + era * 400 + (if m \<le> 2 then 1 else 0) = y" by (simp add: w_def march_year_def split: if_splits)
  moreover have "1 \<le> m" "m \<le> 12" using assms by (simp_all add: date_ok_def)
  ultimately show ?thesis
    using d month_back [of m]
    by (simp only: civil_def Let_def era rest year(1) doy mp month_start_def [symmetric])
qed

lemma div_step:
  assumes "0 < (k :: int)"
  shows "y div k = (y - 1) div k + (if y mod k = 0 then 1 else 0)"
proof -
  have y: "y = k * (y div k) + y mod k" by simp
  have r: "0 \<le> y mod k" "y mod k < k" using assms by simp_all
  show ?thesis
  proof (cases "y mod k = 0")
    case True
    then have "(y - 1) div k = y div k - 1"
      using y assms by (intro int_div_pos_eq [of _ _ _ "k - 1"]) (simp_all add: algebra_simps)
    then show ?thesis using True by simp
  next
    case False
    then have "(y - 1) div k = y div k"
      using y r by (intro int_div_pos_eq [of _ _ _ "y mod k - 1"]) simp_all
    then show ?thesis using False by simp
  qed
qed

lemma count_bits:
  "(c \<Longrightarrow> b) \<Longrightarrow> (b \<Longrightarrow> a) \<Longrightarrow>
     (if a then 1 else 0) - (if b then 1 else 0) + (if c then 1 else 0) = (if a \<and> (\<not> b \<or> c) then 1 else 0 :: int)"
  by (cases a; cases b; cases c) simp_all

lemma mod_0_mono: "k dvd n \<Longrightarrow> y mod n = 0 \<Longrightarrow> y mod k = (0 :: int)"
  by (meson dvd_trans mod_0_imp_dvd mod_eq_0_iff_dvd)

lemma before_year_step: "before_year y = before_year (y - 1) + (if leap y then 366 else 365)"
proof -
  define a b c where "a = (if y mod 4 = 0 then 1 else 0 :: int)" and "b = (if y mod 100 = 0 then 1 else 0 :: int)"
    and "c = (if y mod 400 = 0 then 1 else 0 :: int)"
  define p q r where "p = (y - 1) div 4" and "q = (y - 1) div 100" and "r = (y - 1) div 400"
  have div: "y div 4 = p + a" "y div 100 = q + b" "y div 400 = r + c"
    unfolding a_def b_def c_def p_def q_def r_def by (rule div_step; simp)+
  have "a - b + c = (if leap y then 1 else 0)"
    unfolding a_def b_def c_def leap_def by (rule count_bits; rule mod_0_mono; simp?; assumption?)
  then have leap: "(if leap y then 366 else 365) = 365 + (a - b + c)" by simp
  show ?thesis
    unfolding before_year_def p_def [symmetric] q_def [symmetric] r_def [symmetric] div leap by simp
qed

lemma days_tomorrow:
  assumes "date_ok y m d" and "tomorrow (y, m, d) = (y', m', d')"
  shows "days_from_civil y' m' d' = days_from_civil y m d + 1 \<and> date_ok y' m' d'"
proof -
  have m: "1 \<le> m" "m \<le> 12" and d: "1 \<le> d" "d \<le> days_in_month y m" using assms(1) by (simp_all add: date_ok_def)
  have short: "1 \<le> days_in_month v n" for v n by (simp add: days_in_month_def)
  show ?thesis
  proof (cases "d < days_in_month y m")
    case True
    then show ?thesis using assms by (auto simp: tomorrow_def days_closed date_ok_def)
  next
    case False
    then have last_day: "d = days_in_month y m" using d by simp
    consider "m = 2" | "m < 12" "m \<noteq> 2" | "m = 12" using m by linarith
    then show ?thesis
    proof cases
      case 1
      then have "y' = y" "m' = 3" "d' = 1" using assms(2) False by (simp_all add: tomorrow_def)
      then show ?thesis
        using 1 last_day before_year_step [of y] short [of y 3]
        by (simp add: days_closed march_year_def month_start_def days_in_month_def date_ok_def)
    next
      case 2
      then have "y' = y" "m' = m + 1" "d' = 1" using assms(2) False by (simp_all add: tomorrow_def)
      then show ?thesis
        using 2 m last_day month_next [of m y] short [of y "m + 1"]
        by (simp add: days_closed march_year_def date_ok_def)
    next
      case 3
      then have "y' = y + 1" "m' = 1" "d' = 1" using assms(2) False by (simp_all add: tomorrow_def)
      then show ?thesis
        using 3 last_day by (simp add: days_closed march_year_def month_start_def days_in_month_def date_ok_def)
    qed
  qed
qed

lemma era_shift:
  "date_ok (y + 400 * k) m d = date_ok y m d"
  "days_from_civil (y + 400 * k) m d = days_from_civil y m d + 146097 * k"
proof -
  have mods: "(y + 400 * k) mod 4 = y mod 4" "(y + 400 * k) mod 100 = y mod 100" "(y + 400 * k) mod 400 = y mod 400"
    using mod_mult_self2 [of y 4 "100 * k"] mod_mult_self2 [of y 100 "4 * k"] mod_mult_self2 [of y 400 k] by simp_all
  then show "date_ok (y + 400 * k) m d = date_ok y m d" by (simp add: date_ok_def days_in_month_def leap_def)
  have "(w + 400 * k) div 4 = w div 4 + 100 * k" "(w + 400 * k) div 100 = w div 100 + 4 * k"
    "(w + 400 * k) div 400 = w div 400 + k" for w
    using div_mult_self2 [of 4 w "100 * k"] div_mult_self2 [of 100 w "4 * k"] div_mult_self2 [of 400 w k] by simp_all
  then have "before_year (w + 400 * k) = before_year w + 146097 * k" for w
    unfolding before_year_def by simp
  moreover have "march_year (y + 400 * k) m = march_year y m + 400 * k" by (simp add: march_year_def)
  ultimately show "days_from_civil (y + 400 * k) m d = days_from_civil y m d + 146097 * k"
    by (simp add: days_closed)
qed

lemma epoch: "date_ok 1970 1 1" "days_from_civil 1970 1 1 = 0"
  by (simp_all add: date_ok_def days_in_month_def days_from_civil_def)

lemma every_day_after_1970: "\<exists>y m d. date_ok y m d \<and> days_from_civil y m d = int n"
proof (induction n)
  case 0
  show ?case by (intro exI [of _ 1970] exI [of _ 1] conjI) (simp_all add: epoch)
next
  case (Suc n)
  then obtain y m d where "date_ok y m d" "days_from_civil y m d = int n" by blast
  with days_tomorrow [of y m d] show ?case by (cases "tomorrow (y, m, d)") (metis add.commute of_nat_Suc)
qed

lemma every_day: "\<exists>y m d. date_ok y m d \<and> days_from_civil y m d = z"
proof -
  define k where "k = \<bar>z\<bar>"
  obtain y m d where "date_ok y m d" "days_from_civil y m d = int (nat (z + 146097 * k))"
    using every_day_after_1970 by blast
  moreover have "0 \<le> z + 146097 * k" by (simp add: k_def)
  ultimately have "date_ok (y + 400 * (- k)) m d \<and> days_from_civil (y + 400 * (- k)) m d = z"
    using era_shift [of y "- k" m d] by simp
  then show ?thesis by blast
qed

text \<open>
  The two conversions are the calendar, for every day past and future: the day counts of the civil
  dates by the Gregorian rules are exactly the integers, each date found again from its count, from
  1970-01-01 at zero and the next date, by the rules of month lengths and leap years, at the next count.
\<close>

theorem civil_is_the_calendar:
  "civil 0 = (1970, 1, 1) \<and> civil (z + 1) = tomorrow (civil z) \<and>
   (case civil z of (y, m, d) \<Rightarrow> date_ok y m d \<and> days_from_civil y m d = z)"
proof -
  have first: "civil 0 = (1970, 1, 1)" using civil_of_days [OF epoch(1)] by (simp only: epoch(2))
  obtain y m d where ymd: "date_ok y m d" "days_from_civil y m d = z" using every_day by blast
  obtain y' m' d' where tom: "tomorrow (y, m, d) = (y', m', d')" by (cases "tomorrow (y, m, d)")
  from ymd have "civil z = (y, m, d)" using civil_of_days by metis
  moreover have "civil (z + 1) = (y', m', d')" using civil_of_days days_tomorrow [OF ymd(1) tom] ymd(2) by metis
  ultimately show ?thesis using first ymd tom by simp
qed

end
