(* ===== verification/Card_Session.thy ===== *)
theory Card_Session
  imports Der_Codec
begin

text \<open>
  \<open>euicc/src/lib.rs\<close>: a session with the eUICC's ISD-R over a logical channel. How an APDU reaches
  the card is the caller's business (the trait \<open>Apdu\<close>): here a record \<open>apdu\<close> of functions on the
  caller's state, a parameter of every definition. \<open>transmit_collect\<close> follows \<open>61xx\<close> answers with
  GET RESPONSE for as long as the card sends them, which nothing bounds, so it is a partial
  function: \<open>None\<close> is a card that never stops. \<open>command\<close>, \<open>request\<close> and \<open>result_code\<close> are the
  methods of those names. The lemmas relate the loop to what the card answers, show that a request
  reaches the card as consecutive STORE DATA blocks, and that a card whose pending data shrinks
  always lets a command end.
\<close>

datatype error =
    Transport string
  | Status u8 u8
  | Malformed string
  | Argument string

record 's apdu =
  open_channel :: "bytes \<Rightarrow> 's \<Rightarrow> (error + u8) \<times> 's"
  close_channel :: "u8 \<Rightarrow> 's \<Rightarrow> 's"
  transmit :: "bytes \<Rightarrow> 's \<Rightarrow> (error + bytes) \<times> 's"

definition ISD_R_AID :: bytes where
  "ISD_R_AID = [0xA0, 0x00, 0x00, 0x05, 0x59, 0x10, 0x10, 0xFF, 0xFF, 0xFF, 0xFF, 0x89, 0x00, 0x00, 0x01, 0x00]"

text \<open>Largest ES10 STORE DATA block.\<close>

definition MSS :: nat where
  "MSS = 120"

section \<open>One APDU\<close>

definition open_session :: "'s apdu \<Rightarrow> 's \<Rightarrow> (error + u8) \<times> 's" where
  "open_session io s = open_channel io ISD_R_AID s"

text \<open>\<open>Drop for Euicc\<close>.\<close>

definition drop_session :: "'s apdu \<Rightarrow> u8 \<Rightarrow> 's \<Rightarrow> 's" where
  "drop_session io channel s = close_channel io channel s"

definition cla :: "u8 \<Rightarrow> u8 \<Rightarrow> u8" where
  "cla channel base =
     (if channel \<le> 3 then (base AND 0xFC) OR channel
      else (base AND 0xB0) OR 0x40 OR ((channel - 4) AND 0x0F))"

definition get_response :: "u8 \<Rightarrow> u8 \<Rightarrow> bytes" where
  "get_response channel sw2 = [cla channel 0x80, 0xC0, 0x00, 0x00, sw2]"

partial_function (option) transmit_collect ::
  "'s apdu \<Rightarrow> u8 \<Rightarrow> bytes \<Rightarrow> bytes \<Rightarrow> 's \<Rightarrow> ((error + unit) \<times> bytes \<times> 's) option"
where
  "transmit_collect io channel cmd out s =
     (case transmit io cmd s of
        (Inl e, s) \<Rightarrow> Some (Inl e, out, s)
      | (Inr rx, s) \<Rightarrow>
          if length rx < 2 then Some (Inl (Malformed ''response shorter than a status word''), out, s)
          else
            let sw2 = last rx;
                sw1 = last (butlast rx);
                out = out @ butlast (butlast rx)
            in if sw1 = 0x61 then transmit_collect io channel (get_response channel sw2) out s
               else if sw1 AND 0xF0 = 0x90 then Some (Inr (), out, s)
               else Some (Inl (Status sw1 sw2), out, s))"

text \<open>
  What the card answers to one APDU, \<open>61xx\<close> continuations included: the data of every answer and
  how the exchange ends.
\<close>

inductive answers :: "'s apdu \<Rightarrow> u8 \<Rightarrow> bytes \<Rightarrow> 's \<Rightarrow> bytes \<Rightarrow> error + unit \<Rightarrow> 's \<Rightarrow> bool" for io channel
where
  no_transport: "transmit io cmd s = (Inl e, s') \<Longrightarrow> answers io channel cmd s [] (Inl e) s'"
| short: "transmit io cmd s = (Inr rx, s') \<Longrightarrow> length rx < 2 \<Longrightarrow>
     answers io channel cmd s [] (Inl (Malformed ''response shorter than a status word'')) s'"
| more: "transmit io cmd s = (Inr (data @ [0x61, sw2]), s') \<Longrightarrow>
     answers io channel (get_response channel sw2) s' rest r s'' \<Longrightarrow>
     answers io channel cmd s (data @ rest) r s''"
| success: "transmit io cmd s = (Inr (data @ [sw1, sw2]), s') \<Longrightarrow> sw1 AND 0xF0 = 0x90 \<Longrightarrow>
     answers io channel cmd s data (Inr ()) s'"
| failure: "transmit io cmd s = (Inr (data @ [sw1, sw2]), s') \<Longrightarrow> sw1 \<noteq> 0x61 \<Longrightarrow> sw1 AND 0xF0 \<noteq> 0x90 \<Longrightarrow>
     answers io channel cmd s data (Inl (Status sw1 sw2)) s'"

lemma split_status:
  assumes "\<not> length rx < 2"
  obtains data sw1 sw2 where "rx = data @ [sw1, sw2]"
proof -
  from assms obtain ys b where "rx = ys @ [b]" by (cases rx rule: rev_cases) auto
  moreover from this assms obtain zs a where "ys = zs @ [a]" by (cases ys rule: rev_cases) auto
  ultimately show ?thesis by (intro that) simp
qed

lemma transmit_collect_sound:
  "transmit_collect io channel cmd out s = Some y \<Longrightarrow>
     \<exists>data. fst (snd y) = out @ data \<and> answers io channel cmd s data (fst y) (snd (snd y))"
proof (erule transmit_collect.raw_induct [where
      P = "\<lambda>io channel cmd out s y. \<exists>data. fst (snd y) = out @ data \<and>
        answers io channel cmd s data (fst y) (snd (snd y))", rotated])
  fix f io channel cmd out s y
  assume IH: "\<And>channel cmd out s b y. f channel cmd out s b = Some y \<Longrightarrow>
      \<exists>data. fst (snd y) = s @ data \<and> answers channel cmd out b data (fst y) (snd (snd y))"
    and eq: "(case transmit io cmd s of
        (Inl e, s) \<Rightarrow> Some (Err e, out, s)
      | (Inr rx, s) \<Rightarrow>
          if length rx < 2 then Some (Err (Malformed ''response shorter than a status word''), out, s)
          else let sw2 = last rx; sw1 = last (butlast rx); out = out @ butlast (butlast rx)
            in if sw1 = 97 then f io channel (get_response channel sw2) out s
               else if sw1 AND 240 = 144 then Some (Ok (), out, s)
               else Some (Err (Status sw1 sw2), out, s)) = Some y"
  obtain reply s1 where t: "transmit io cmd s = (reply, s1)" by force
  show "\<exists>data. fst (snd y) = out @ data \<and> answers io channel cmd s data (fst y) (snd (snd y))"
  proof (cases reply)
    case (Inl e)
    with eq t show ?thesis by (auto intro: answers.no_transport)
  next
    case (Inr rx)
    show ?thesis
    proof (cases "length rx < 2")
      case True
      with Inr eq t show ?thesis by (auto intro: answers.short)
    next
      case False
      then obtain data sw1 sw2 where rx: "rx = data @ [sw1, sw2]" by (rule split_status)
      show ?thesis
      proof (cases "sw1 = 0x61")
        case True
        with eq t Inr rx have "f io channel (get_response channel sw2) (out @ data) s1 = Some y"
          by (simp add: butlast_append)
        from IH [OF this] obtain rest where "fst (snd y) = out @ (data @ rest)"
          "answers io channel (get_response channel sw2) s1 rest (fst y) (snd (snd y))" by auto
        with t Inr rx True show ?thesis by (blast intro: answers.more)
      next
        case False
        with eq t Inr rx show ?thesis
          by (auto simp: butlast_append Let_def split: if_splits intro: answers.success answers.failure)
      qed
    qed
  qed
qed

lemma transmit_collect_complete:
  "answers io channel cmd s data r s' \<Longrightarrow> transmit_collect io channel cmd out s = Some (r, out @ data, s')"
  by (induction arbitrary: out rule: answers.induct)
    (subst transmit_collect.simps; auto simp: butlast_append Let_def)+

lemma transmit_collect_answers:
  "transmit_collect io channel cmd out s = Some (r, out', s') \<longleftrightarrow>
     (\<exists>data. out' = out @ data \<and> answers io channel cmd s data r s')"
  using transmit_collect_sound [of io channel cmd out s "(r, out', s')"]
  by (auto simp: transmit_collect_complete)

text \<open>
  Following an APDU's \<open>61xx\<close> answers returns exactly when the card's exchange ends, with the data
  of all its answers in order, or the error that ended it.
\<close>

theorem transmit_collect_iff:
  "transmit_collect io channel cmd out s = Some (r, out', s') \<longleftrightarrow>
     (\<exists>data. out' = out @ data \<and> answers io channel cmd s data r s')"
  by (rule transmit_collect_answers)

lemma answers_deterministic:
  assumes "answers io channel cmd s data r s'" and "answers io channel cmd s data2 r2 s2"
  shows "data2 = data \<and> r2 = r \<and> s2 = s'"
  using transmit_collect_complete [OF assms(1), of "[]"] transmit_collect_complete [OF assms(2), of "[]"]
  by simp

section \<open>Commands\<close>

definition block_apdu :: "u8 \<Rightarrow> nat \<Rightarrow> nat \<Rightarrow> bytes \<Rightarrow> bytes" where
  "block_apdu channel last_seq seq block =
     [cla channel 0x80, 0xE2, if seq = last_seq then 0x91 else 0x11,
      word_of_nat (seq mod 256), word_of_nat (length block)] @ block"

fun send_blocks ::
  "'s apdu \<Rightarrow> u8 \<Rightarrow> nat \<Rightarrow> nat \<Rightarrow> bytes list \<Rightarrow> bytes \<Rightarrow> 's \<Rightarrow> ((error + bytes) \<times> 's) option"
where
  "send_blocks io channel last_seq seq [] out s = Some (Inr out, s)"
| "send_blocks io channel last_seq seq (block # blocks) out s =
     (case transmit_collect io channel (block_apdu channel last_seq seq block) out s of
        None \<Rightarrow> None
      | Some (Inl e, _, s) \<Rightarrow> Some (Inl e, s)
      | Some (Inr _, out, s) \<Rightarrow> send_blocks io channel last_seq (seq + 1) blocks out s)"

definition command :: "'s apdu \<Rightarrow> u8 \<Rightarrow> bytes \<Rightarrow> 's \<Rightarrow> ((error + bytes) \<times> 's) option" where
  "command io channel der s =
     (let blocks = chunks MSS der in
      send_blocks io channel (length blocks - 1) 0 blocks [] s)"

text \<open>A result of a call that may not return, mapped by what the caller does with it.\<close>

definition with_reply ::
  "((error + 'a) \<times> 's) option \<Rightarrow> ('a \<Rightarrow> error + 'b) \<Rightarrow> ((error + 'b) \<times> 's) option" where
  "with_reply call f = map_option (\<lambda>(r, s). (and_then r f, s)) call"

definition request :: "'s apdu \<Rightarrow> u8 \<Rightarrow> node \<Rightarrow> 's \<Rightarrow> ((error + bytes) \<times> 's) option" where
  "request io channel req s =
     with_reply (command io channel (node_encode req) s)
       (\<lambda>resp. ok_or (map_option tlv_value (find_tag resp (node_tag req)))
          (Malformed ''response tag differs from the request''))"

definition result_code :: "'s apdu \<Rightarrow> u8 \<Rightarrow> node \<Rightarrow> 's \<Rightarrow> ((error + u64) \<times> 's) option" where
  "result_code io channel req s =
     with_reply (request io channel req s)
       (\<lambda>body. ok_or (map_option (\<lambda>t. to_u64 (tlv_value t)) (find_tag body 0x80))
          (Malformed ''no result code''))"

section \<open>What reaches the card\<close>

text \<open>The same transport, with every command APDU it is given written down in order.\<close>

definition logged :: "'s apdu \<Rightarrow> (bytes list \<times> 's) apdu" where
  "logged io =
     \<lparr>open_channel = (\<lambda>aid (sent, s). let (r, s') = open_channel io aid s in (r, (sent, s'))),
      close_channel = (\<lambda>channel (sent, s). (sent, close_channel io channel s)),
      transmit = (\<lambda>cmd (sent, s). let (r, s') = transmit io cmd s in (r, (sent @ [cmd], s')))\<rparr>"

lemma transmit_logged:
  "transmit (logged io) cmd st = (r, st') \<Longrightarrow> fst st' = fst st @ [cmd]"
  by (auto simp: logged_def split: prod.splits)

definition is_store_data :: "bytes \<Rightarrow> bool" where
  "is_store_data cmd \<longleftrightarrow> cmd ! 1 = 0xE2"

lemma answers_logged:
  "answers (logged io) channel cmd st data r st' \<Longrightarrow>
     \<exists>gets. fst st' = fst st @ cmd # gets \<and> list_all (\<lambda>g. \<not> is_store_data g) gets"
proof (induction rule: answers.induct)
  case (more cmd s data sw2 s' rest r s'')
  then obtain gets where
    "fst s'' = fst s @ cmd # get_response channel sw2 # gets" "list_all (\<lambda>g. \<not> is_store_data g) gets"
    using transmit_logged by fastforce
  moreover have "\<not> is_store_data (get_response channel sw2)"
    by (simp add: is_store_data_def get_response_def)
  ultimately show ?case by auto
qed (auto dest: transmit_logged)

lemma send_blocks_logged:
  "send_blocks (logged io) channel last_seq seq blocks out st = Some (Inr out', st') \<Longrightarrow>
     \<exists>sent. fst st' = fst st @ sent \<and>
       filter is_store_data sent =
         map (\<lambda>(i, b). block_apdu channel last_seq i b) (zip [seq ..< seq + length blocks] blocks)"
proof (induction blocks arbitrary: seq out st)
  case Nil
  then show ?case by simp
next
  case (Cons b blocks)
  from Cons.prems obtain out1 st1 where
    one: "transmit_collect (logged io) channel (block_apdu channel last_seq seq b) out st = Some (Inr (), out1, st1)"
    and rest: "send_blocks (logged io) channel last_seq (seq + 1) blocks out1 st1 = Some (Inr out', st')"
    by (auto split: option.splits sum.splits unit.splits)
  from one obtain gets where
    "fst st1 = fst st @ block_apdu channel last_seq seq b # gets" "list_all (\<lambda>g. \<not> is_store_data g) gets"
    by (auto simp: transmit_collect_answers dest: answers_logged)
  then have "filter is_store_data gets = []"
    by (simp add: filter_empty_conv list_all_iff)
  moreover note \<open>fst st1 = fst st @ block_apdu channel last_seq seq b # gets\<close>
  moreover from Cons.IH [OF rest] obtain sent where
    "fst st' = fst st1 @ sent" "filter is_store_data sent =
       map (\<lambda>(i, b). block_apdu channel last_seq i b) (zip [seq + 1 ..< seq + 1 + length blocks] blocks)"
    by blast
  moreover have "is_store_data (block_apdu channel last_seq seq b)"
    by (simp add: is_store_data_def block_apdu_def)
  ultimately show ?case
    by (intro exI [of _ "block_apdu channel last_seq seq b # gets @ sent"])
      (simp add: upt_conv_Cons del: upt_Suc)
qed

lemma map_zip_nth:
  "map (\<lambda>(i, b). f i b) (zip [k ..< k + length bs] bs) = map (\<lambda>i. f (k + i) (bs ! i)) [0 ..< length bs]"
  by (rule nth_equalityI) auto

text \<open>
  When a command succeeds, the STORE DATA blocks the card was sent carry the request in order and
  in full: block \<open>i\<close> is numbered \<open>i\<close> (modulo 256), holds 1 to 120 bytes and says so in its length
  byte, and only the last one is marked as last. Anything else sent was GET RESPONSE.
\<close>

theorem command_blocks:
  assumes "command (logged io) channel der st = Some (Inr out, st')"
  shows "\<exists>sent blocks. fst st' = fst st @ sent \<and>
    filter is_store_data sent = map (\<lambda>i. block_apdu channel (length blocks - 1) i (blocks ! i)) [0 ..< length blocks] \<and>
    concat blocks = der \<and> list_all (\<lambda>b. 0 < length b \<and> length b \<le> 120) blocks"
proof -
  let ?bs = "chunks MSS der"
  from assms have "send_blocks (logged io) channel (length ?bs - 1) 0 ?bs [] st = Some (Inr out, st')"
    by (simp add: command_def Let_def)
  from send_blocks_logged [OF this] map_zip_nth [of "block_apdu channel (length ?bs - 1)" 0 ?bs]
  obtain sent where "fst st' = fst st @ sent"
    "filter is_store_data sent = map (\<lambda>i. block_apdu channel (length ?bs - 1) i (?bs ! i)) [0 ..< length ?bs]"
    by auto
  moreover have "concat ?bs = der" by (simp add: MSS_def)
  moreover have "list_all (\<lambda>b. 0 < length b \<and> length b \<le> 120) ?bs"
    using chunks_bounds [of _ 120 der] by (auto simp: list_all_iff MSS_def)
  ultimately show ?thesis by blast
qed

text \<open>
  A card that answers every APDU with three bytes and \<open>9000\<close>; the one below also keeps data back
  and asks to be polled for it.
\<close>

definition steady_card :: "nat apdu" where
  "steady_card =
     \<lparr>open_channel = (\<lambda>_ n. (Inr 1, n)),
      close_channel = (\<lambda>_ n. n),
      transmit = (\<lambda>_ n. if n = 0 then (Inr [0x90, 0x00], 0) else (Inr [0xAB, 0x61, 0x01], n - 1))\<rparr>"

theorem command_blocks_witness:
  "\<exists>sent blocks. fst ([[0x81, 0xE2, 0x91, 0x00, 0x03, 0xBF, 0x2D, 0x00], [0x81, 0xC0, 0x00, 0x00, 0x01]], 0 :: nat) = [] @ sent \<and>
    filter is_store_data sent = map (\<lambda>i. block_apdu 1 (length blocks - 1) i (blocks ! i)) [0 ..< length blocks] \<and>
    concat blocks = [0xBF, 0x2D, 0x00] \<and> list_all (\<lambda>b. 0 < length b \<and> length b \<le> 120) blocks"
proof -
  have "command (logged steady_card) 1 [0xBF, 0x2D, 0x00] ([], 1) =
    Some (Inr [0xAB], ([[0x81, 0xE2, 0x91, 0x00, 0x03, 0xBF, 0x2D, 0x00], [0x81, 0xC0, 0x00, 0x00, 0x01]], 0))"
    by (simp add: command_def MSS_def chunks_step block_apdu_def cla_def transmit_collect.simps
        steady_card_def logged_def get_response_def Let_def)
  from command_blocks [OF this] show ?thesis by simp
qed

section \<open>Commands end\<close>

text \<open>
  ISO 7816-4: a GET RESPONSE takes data the card has pending, so each one leaves less. Under that
  law every command returns, whatever the card answers.
\<close>

lemma transmit_collect_returns:
  assumes shrinks: "\<And>sw2 s data sw s'. transmit io (get_response channel sw2) s = (Inr (data @ [0x61, sw]), s') \<Longrightarrow>
      pending s' < (pending s :: nat)"
  shows "\<exists>y. transmit_collect io channel cmd out s = Some y"
proof -
  have polls: "\<exists>y. transmit_collect io channel (get_response channel sw2) out s = Some y" for sw2 out s
  proof (induction "pending s" arbitrary: sw2 out s rule: less_induct)
    case less
    obtain reply s' where t: "transmit io (get_response channel sw2) s = (reply, s')" by force
    have "\<exists>y. transmit_collect io channel (get_response channel b) out' s' = Some y"
      if "reply = Inr (data @ [0x61, b])" for data b out'
      using that t less [of s'] shrinks by blast
    with t show ?case
      by (cases reply; subst transmit_collect.simps)
        (auto simp: Let_def butlast_append elim!: split_status)
  qed
  obtain reply s' where "transmit io cmd s = (reply, s')" by force
  with polls show ?thesis
    by (cases reply; subst transmit_collect.simps) (auto simp: Let_def)
qed

lemma send_blocks_returns:
  assumes "\<And>cmd out s. \<exists>y. transmit_collect io channel cmd out s = Some y"
  shows "\<exists>y. send_blocks io channel last_seq seq blocks out s = Some y"
proof (induction blocks arbitrary: seq out s)
  case (Cons b blocks)
  obtain y where y: "transmit_collect io channel (block_apdu channel last_seq seq b) out s = Some y"
    using assms by blast
  obtain r out' s' where "y = (r, out', s')" by (rule prod_cases3)
  with y Cons show ?case by (cases r) auto
qed simp

text \<open>
  A command returns (a response or an error) on every card whose pending data shrinks with each
  GET RESPONSE.
\<close>

theorem command_returns:
  assumes "\<And>sw2 s data sw s'. transmit io (get_response channel sw2) s = (Inr (data @ [0x61, sw]), s') \<Longrightarrow>
      pending s' < (pending s :: nat)"
  shows "\<exists>r s'. result_code io channel req s = Some (r, s')"
proof -
  have "\<exists>y. command io channel (node_encode req) s = Some y"
    unfolding command_def Let_def
    by (intro send_blocks_returns transmit_collect_returns [OF assms])
  then show ?thesis
    by (auto simp: result_code_def request_def with_reply_def)
qed

theorem command_returns_witness:
  "\<exists>r s'. result_code steady_card 1 (Prim 0xBF2D []) 7 = Some (r, s')"
  by (rule command_returns [where pending = "\<lambda>n. n"]) (auto simp: steady_card_def split: if_splits)

end
