(* ===== verification/Card_Exchange.thy ===== *)
theory Card_Exchange
  imports Card_Session
begin

text \<open>
  The exchange of \<open>Euicc::command\<close> with a card written after ISO 7816-4 and ETSI TS 102 221 rather than after
  the session's code: it takes a request in numbered STORE DATA blocks on its logical channel, keeps what it has to
  say until it is fetched, in pieces of its own choice that the status word announces, and refuses anything that is
  out of order. The lemmas show that a command brings the whole request to such a card and the whole response back.
\<close>

section \<open>A card\<close>

record iso_card =
  got :: bytes
  blocks_in :: nat
  pending :: bytes

definition idle_card :: iso_card where
  "idle_card = \<lparr>got = [], blocks_in = 0, pending = []\<rparr>"

text \<open>The logical channel in a class byte: two bits of a first interindustry class, four of a further one.\<close>

definition channel_of_class :: "u8 \<Rightarrow> nat" where
  "channel_of_class c = (if unat c div 64 mod 2 = 0 then unat c mod 4 else 4 + unat c mod 16)"

definition proprietary_class :: "u8 \<Rightarrow> bool" where
  "proprietary_class c \<longleftrightarrow> 128 \<le> unat c"

text \<open>The length a GET RESPONSE asks for: 0 stands for 256.\<close>

definition expected_length :: "u8 \<Rightarrow> nat" where
  "expected_length le = (if le = 0 then 256 else unat le)"

text \<open>How many of \<open>n\<close> bytes the card offers next: what it likes, but some and at most 256.\<close>

definition offered :: "(nat \<Rightarrow> nat) \<Rightarrow> nat \<Rightarrow> nat" where
  "offered piece n = max 1 (min (piece n) (min 256 n))"

definition hand_out :: "(nat \<Rightarrow> nat) \<Rightarrow> bytes \<Rightarrow> bytes \<Rightarrow> iso_card \<Rightarrow> bytes \<times> iso_card" where
  "hand_out piece now rest c =
     (now @ (if rest = [] then [0x90, 0x00] else [0x61, word_of_nat (offered piece (length rest))]), c\<lparr>pending := rest\<rparr>)"

text \<open>
  The card's answer to an APDU: \<open>answer\<close> is what it makes of a whole request (a response, or a refusal \<open>6Axx\<close>),
  \<open>direct\<close> how much of a response it sends along with the last block's status.
\<close>

fun card_answer :: "(bytes \<Rightarrow> u8 + bytes) \<Rightarrow> (bytes \<Rightarrow> nat) \<Rightarrow> (nat \<Rightarrow> nat) \<Rightarrow> nat \<Rightarrow> bytes \<Rightarrow> iso_card \<Rightarrow> bytes \<times> iso_card" where
  "card_answer answer direct piece ch (c1 # ins # p1 # p2 # lc # body) c =
     (if \<not> proprietary_class c1 \<or> channel_of_class c1 \<noteq> ch then ([0x68, 0x81], c)
      else if ins = 0xC0 then
        (if p1 = 0 \<and> p2 = 0 \<and> body = [] \<and> pending c \<noteq> [] \<and> expected_length lc = offered piece (length (pending c))
         then hand_out piece (take (expected_length lc) (pending c)) (drop (expected_length lc) (pending c)) c
         else ([0x6A, 0x86], c))
      else if ins = 0xE2 then
        (if pending c \<noteq> [] \<or> length body \<noteq> unat lc \<or> unat p2 \<noteq> blocks_in c \<or> 256 \<le> blocks_in c then ([0x6A, 0x80], c)
         else if p1 = 0x11 then ([0x90, 0x00], c\<lparr>got := got c @ body, blocks_in := blocks_in c + 1\<rparr>)
         else if p1 = 0x91 then
           (case answer (got c @ body) of
              Inl sw2 \<Rightarrow> ([0x6A, sw2], idle_card)
            | Inr r \<Rightarrow> hand_out piece (take (direct r) r) (drop (direct r) r) idle_card)
         else ([0x6A, 0x86], c))
      else ([0x6D, 0x00], c))"
| "card_answer answer direct piece ch _ c = ([0x67, 0x00], c)"

definition card_apdu :: "(bytes \<Rightarrow> u8 + bytes) \<Rightarrow> (bytes \<Rightarrow> nat) \<Rightarrow> (nat \<Rightarrow> nat) \<Rightarrow> nat \<Rightarrow> iso_card apdu" where
  "card_apdu answer direct piece ch =
     \<lparr>open_channel = (\<lambda>aid c. (if aid = ISD_R_AID then Inr (word_of_nat ch) else Inl (Transport ''not found''), c)),
      close_channel = (\<lambda>_ c. c),
      transmit = (\<lambda>cmd c. case card_answer answer direct piece ch cmd c of (reply, c) \<Rightarrow> (Inr reply, c))\<rparr>"

section \<open>Fetching a response\<close>

lemma class_of_channel: "ch < 20 \<Longrightarrow> proprietary_class (cla (word_of_nat ch) 0x80) \<and> channel_of_class (cla (word_of_nat ch) 0x80) = ch"
proof -
  have "list_all (\<lambda>n. proprietary_class (cla (word_of_nat n) 0x80) \<and> channel_of_class (cla (word_of_nat n) 0x80) = n) [0 ..< 20]"
    by code_simp
  then show "ch < 20 \<Longrightarrow> ?thesis" by (simp add: list_all_iff)
qed

lemma offered_bounds: "0 < n \<Longrightarrow> 1 \<le> offered piece n \<and> offered piece n \<le> 256 \<and> offered piece n \<le> n"
  by (auto simp: offered_def)

lemma expected_word:
  assumes "1 \<le> k" and "k \<le> 256"
  shows "expected_length (word_of_nat k) = k"
proof (cases "k = 256")
  case False
  with assms have u: "unat (word_of_nat k :: u8) = k" by (simp add: unsigned_of_nat take_bit_eq_mod)
  then have "(word_of_nat k :: u8) \<noteq> 0" using assms(1) by auto
  with u show ?thesis by (simp add: expected_length_def)
qed (simp add: expected_length_def)

lemma collect_status:
  assumes "transmit io cmd s = (Inr (now @ [sw1, sw2]), s')"
  shows "transmit_collect io channel cmd out s =
    (if sw1 = 0x61 then transmit_collect io channel (get_response channel sw2) (out @ now) s'
     else if sw1 AND 0xF0 = 0x90 then Some (Inr (), out @ now, s')
     else Some (Inl (Status sw1 sw2), out @ now, s'))"
  by (subst transmit_collect.simps) (simp add: assms butlast_append Let_def)

lemma collect_rest:
  assumes "ch < 20" and "pending c = rest" and "rest \<noteq> []"
  shows "transmit_collect (card_apdu answer direct piece ch) (word_of_nat ch)
      (get_response (word_of_nat ch) (word_of_nat (offered piece (length rest)))) out c = Some (Inr (), out @ rest, c\<lparr>pending := []\<rparr>)"
  using assms(2,3)
proof (induction "length rest" arbitrary: rest out c rule: less_induct)
  case less
  let ?k = "offered piece (length rest)" and ?io = "card_apdu answer direct piece ch"
  have k: "1 \<le> ?k" "?k \<le> 256" "?k \<le> length rest" using offered_bounds [of "length rest" piece] less.prems by auto
  have t: "transmit ?io (get_response (word_of_nat ch) (word_of_nat ?k)) c =
      (Inr (take ?k rest @ (if drop ?k rest = [] then [0x90, 0x00] else [0x61, word_of_nat (offered piece (length (drop ?k rest)))])),
        c\<lparr>pending := drop ?k rest\<rparr>)"
    using class_of_channel [OF assms(1)] less.prems expected_word [OF k(1,2)]
    by (simp add: card_apdu_def get_response_def hand_out_def)
  show ?case
  proof (cases "drop ?k rest = []")
    case True
    then show ?thesis using collect_status [of ?io _ c "take ?k rest" "0x90" "0x00"] t by simp
  next
    case False
    let ?c = "c\<lparr>pending := drop ?k rest\<rparr>"
    have "length (drop ?k rest) < length rest" using k by simp
    from less.hyps [OF this, of ?c] False
    have "transmit_collect ?io (word_of_nat ch) (get_response (word_of_nat ch) (word_of_nat (offered piece (length (drop ?k rest)))))
        (out @ take ?k rest) ?c = Some (Inr (), (out @ take ?k rest) @ drop ?k rest, ?c\<lparr>pending := []\<rparr>)" by simp
    moreover have "transmit_collect ?io (word_of_nat ch) (get_response (word_of_nat ch) (word_of_nat ?k)) out c =
        transmit_collect ?io (word_of_nat ch) (get_response (word_of_nat ch) (word_of_nat (offered piece (length (drop ?k rest)))))
          (out @ take ?k rest) ?c"
      using collect_status [of ?io _ c "take ?k rest" "0x61"] t False by simp
    ultimately show ?thesis by simp
  qed
qed

lemma collect_handed_out:
  assumes "ch < 20" and "transmit (card_apdu answer direct piece ch) cmd c = (Inr (fst (hand_out piece now rest c')), snd (hand_out piece now rest c'))"
    and "pending c' = []"
  shows "transmit_collect (card_apdu answer direct piece ch) (word_of_nat ch) cmd out c = Some (Inr (), out @ now @ rest, c')"
proof (cases "rest = []")
  case True
  with assms(2) have "transmit (card_apdu answer direct piece ch) cmd c = (Inr (now @ [0x90, 0x00]), c'\<lparr>pending := []\<rparr>)"
    by (simp add: hand_out_def)
  from collect_status [OF this] True assms(3) show ?thesis by simp
next
  case False
  with assms(2) have "transmit (card_apdu answer direct piece ch) cmd c =
      (Inr (now @ [0x61, word_of_nat (offered piece (length rest))]), c'\<lparr>pending := rest\<rparr>)"
    by (simp add: hand_out_def)
  from collect_status [OF this] collect_rest [OF assms(1) _ False, of "c'\<lparr>pending := rest\<rparr>"] assms(3)
  show ?thesis by simp
qed

section \<open>Bringing a request\<close>

lemma block_taken:
  assumes "ch < 20" and "length b \<le> 255" and "seq < 256" and "seq \<noteq> last_seq"
  shows "transmit_collect (card_apdu answer direct piece ch) (word_of_nat ch) (block_apdu (word_of_nat ch) last_seq seq b) out
      \<lparr>got = g, blocks_in = seq, pending = []\<rparr> = Some (Inr (), out, \<lparr>got = g @ b, blocks_in = seq + 1, pending = []\<rparr>)"
proof -
  have "transmit (card_apdu answer direct piece ch) (block_apdu (word_of_nat ch) last_seq seq b) \<lparr>got = g, blocks_in = seq, pending = []\<rparr> =
      (Inr ([] @ [0x90, 0x00]), \<lparr>got = g @ b, blocks_in = seq + 1, pending = []\<rparr>)"
    using assms class_of_channel [OF assms(1)]
    by (simp add: card_apdu_def block_apdu_def take_bit_eq_mod unsigned_of_nat)
  from collect_status [OF this] show ?thesis by simp
qed

lemma last_block_answered:
  assumes "ch < 20" and "length b \<le> 255" and "seq < 256"
  shows "transmit_collect (card_apdu answer direct piece ch) (word_of_nat ch) (block_apdu (word_of_nat ch) seq seq b) out
      \<lparr>got = g, blocks_in = seq, pending = []\<rparr> =
    (case answer (g @ b) of
       Inl sw2 \<Rightarrow> Some (Inl (Status 0x6A sw2), out, idle_card)
     | Inr r \<Rightarrow> Some (Inr (), out @ r, idle_card))"
proof -
  let ?c = "\<lparr>got = g, blocks_in = seq, pending = []\<rparr>" and ?cmd = "block_apdu (word_of_nat ch) seq seq b"
  have t: "card_answer answer direct piece ch ?cmd ?c = (case answer (g @ b) of
       Inl sw2 \<Rightarrow> ([] @ [0x6A, sw2], idle_card)
     | Inr r \<Rightarrow> hand_out piece (take (direct r) r) (drop (direct r) r) idle_card)"
    using assms class_of_channel [OF assms(1)]
    by (simp add: block_apdu_def take_bit_eq_mod unsigned_of_nat split: sum.split)
  show ?thesis
  proof (cases "answer (g @ b)")
    case (Inl sw2)
    with t have "transmit (card_apdu answer direct piece ch) ?cmd ?c = (Inr ([] @ [0x6A, sw2]), idle_card)"
      by (simp add: card_apdu_def)
    from collect_status [OF this] Inl show ?thesis by simp
  next
    case (Inr r)
    let ?h = "hand_out piece (take (direct r) r) (drop (direct r) r) idle_card"
    have "transmit (card_apdu answer direct piece ch) ?cmd ?c = (Inr (fst ?h), snd ?h)"
      using t Inr by (simp add: card_apdu_def split: prod.split)
    from collect_handed_out [OF assms(1) this] Inr show ?thesis by (simp add: idle_card_def)
  qed
qed

lemma blocks_answered:
  assumes "ch < 20" and "list_all (\<lambda>b. length b \<le> 255) bs" and "bs \<noteq> []" and "seq + length bs \<le> 256"
  shows "send_blocks (card_apdu answer direct piece ch) (word_of_nat ch) (seq + length bs - 1) seq bs out
      \<lparr>got = g, blocks_in = seq, pending = []\<rparr> =
    Some (map_sum (Status 0x6A) (\<lambda>r. out @ r) (answer (g @ concat bs)), idle_card)"
  using assms(2-)
proof (induction bs arbitrary: seq g)
  case (Cons b bs)
  show ?case
  proof (cases "bs = []")
    case True
    then show ?thesis
      using last_block_answered [OF assms(1), of b seq answer direct piece out g] Cons.prems by (simp split: sum.split)
  next
    case False
    have "send_blocks (card_apdu answer direct piece ch) (word_of_nat ch) (seq + 1 + length bs - 1) (seq + 1) bs out
        \<lparr>got = g @ b, blocks_in = seq + 1, pending = []\<rparr> =
      Some (map_sum (Status 0x6A) (\<lambda>r. out @ r) (answer ((g @ b) @ concat bs)), idle_card)"
      using Cons.prems False by (intro Cons.IH) simp_all
    then show ?thesis
      using block_taken [OF assms(1), of b seq "seq + length bs" answer direct piece out g] Cons.prems False by simp
  qed
qed simp

lemma length_chunks_less: "0 < n \<Longrightarrow> length (chunks n xs) * n < length xs + n"
proof (induction n xs rule: chunks.induct)
  case (1 n xs)
  show ?case
  proof (cases "xs = []")
    case False
    then have "length (chunks n xs) = Suc (length (chunks n (drop n xs)))" using "1.prems" by (simp add: chunks_step)
    moreover have "length (chunks n (drop n xs)) * n < length (drop n xs) + n" using 1 False by simp
    moreover have "length (chunks n (drop n xs)) = 0" if "length xs \<le> n" using that by simp
    ultimately show ?thesis using False "1.prems" by (cases "length xs \<le> n") (auto simp: length_greater_0_conv)
  qed (use "1.prems" in simp)
qed

text \<open>
  C26: a command brings a request of up to 256 blocks whole to a card on any of the twenty logical channels, in
  blocks numbered from 0 of which only the last is marked so, and brings the whole response back, in order, in
  whatever pieces the card hands it out, whether with its status or to be fetched, and asking for each piece exactly
  what was offered; or the status of the card's refusal. It leaves the card with nothing more to say.
\<close>

theorem command_reaches_card:
  assumes "ch < 20" and "der \<noteq> []" and "length der \<le> 30720"
  shows "command (card_apdu answer direct piece ch) (word_of_nat ch) der idle_card =
    Some (case answer der of Inl sw2 \<Rightarrow> Inl (Status 0x6A sw2) | Inr r \<Rightarrow> Inr r, idle_card)"
proof -
  let ?bs = "chunks MSS der"
  have "?bs \<noteq> []" using assms(2) by (simp add: MSS_def chunks_step)
  moreover have "length ?bs \<le> 256" using length_chunks_less [of 120 der] assms(3) by (simp add: MSS_def)
  moreover have "list_all (\<lambda>b. length b \<le> 255) ?bs"
    using chunks_bounds [of _ 120 der] by (fastforce simp: list_all_iff MSS_def)
  ultimately have "send_blocks (card_apdu answer direct piece ch) (word_of_nat ch) (0 + length ?bs - 1) 0 ?bs []
      \<lparr>got = [], blocks_in = 0, pending = []\<rparr> =
    Some (map_sum (Status 0x6A) (\<lambda>r. [] @ r) (answer ([] @ concat ?bs)), idle_card)"
    by (intro blocks_answered assms(1)) simp_all
  moreover have "concat ?bs = der" by (simp add: MSS_def)
  ultimately show ?thesis
    by (simp add: command_def Let_def idle_card_def split: sum.split)
qed

theorem command_reaches_card_witness:
  "command (card_apdu (\<lambda>der. Inr (rev der)) (\<lambda>r. 1) (\<lambda>n. 2) 5) 5 [0xBF, 0x2D, 0x00, 0x07] idle_card =
     Some (Inr [0x07, 0x00, 0x2D, 0xBF], idle_card)"
  using command_reaches_card [of 5 "[0xBF, 0x2D, 0x00, 0x07]" "\<lambda>der. Inr (rev der)" "\<lambda>r. 1" "\<lambda>n. 2"] by simp

end
