(* ===== verification/Charge_Policy.thy ===== *)
theory Charge_Policy
  imports Agent_Prelude "HOL-Library.Code_Target_Nat"
begin

text \<open>
  The charge limit (\<open>zte-agent/src/charge_policy.rs\<close>): the enforcement decision, the event loop of the
  enforcer's thread and the handlers that change its configuration. What the sysfs files and the
  charger daemon say when a step reads them, and whether they take a command, is the step's
  \<open>readings\<close>. An \<open>u8\<close> is a natural number below 256, a delay is in seconds. The half second the loop
  sleeps before it enforces is left out.
\<close>

definition POLL_ACTIVE_SECS :: nat where "POLL_ACTIVE_SECS = 60"
definition POLL_IDLE_SECS :: nat where "POLL_IDLE_SECS = 300"
definition DISCONNECTED_RESEED_SECS :: nat where "DISCONNECTED_RESEED_SECS = 600"
definition DISCONNECTED_RESEED_MAX_SECS :: nat where "DISCONNECTED_RESEED_MAX_SECS = 3600"
definition DEFAULT_HYSTERESIS :: nat where "DEFAULT_HYSTERESIS = 5"

record limit_state =
  lim_enabled :: bool
  lim_limit :: nat
  lim_hysteresis :: nat
  manual_override :: bool

datatype charge_action = Stop | Resume | Keep

section \<open>The decision\<close>

text \<open>
  \<open>decide\<close> asks whether charging is stopped (\<open>stopped\<close>) only when the answer can matter; the second
  component of the result says whether it asked.
\<close>

definition decide :: "nat \<Rightarrow> bool \<Rightarrow> nat \<Rightarrow> nat \<Rightarrow> bool \<Rightarrow> charge_action \<times> bool" where
  "decide capacity discharging limit hysteresis stopped =
     (let floor = limit - hysteresis;
          may_stop = (limit \<le> capacity \<and> \<not> discharging);
          may_resume = (capacity \<le> floor)
      in if \<not> may_stop \<and> \<not> may_resume then (Keep, False)
         else if discharging \<and> \<not> stopped then (Keep, True)
         else if limit \<le> capacity \<and> \<not> stopped then (Stop, True)
         else if capacity \<le> floor \<and> stopped then (Resume, True)
         else (Keep, True))"

definition clamp :: "nat \<Rightarrow> nat \<Rightarrow> nat \<Rightarrow> nat" where
  "clamp lo hi x = (if x < lo then lo else if hi < x then hi else x)"

text \<open>\<open>ChargeLimitEnforcer::new\<close> on what the file holds.\<close>

definition load_state :: "(bool \<times> nat \<times> nat) option \<Rightarrow> limit_state" where
  "load_state persisted =
     (case persisted of
        Some (enabled, limit, hysteresis) \<Rightarrow>
          \<lparr>lim_enabled = enabled, lim_limit = clamp 50 100 limit, lim_hysteresis = clamp 1 20 hysteresis,
           manual_override = False\<rparr>
      | None \<Rightarrow>
          \<lparr>lim_enabled = False, lim_limit = 100, lim_hysteresis = DEFAULT_HYSTERESIS, manual_override = False\<rparr>)"

section \<open>The charger and the enforcement\<close>

record readings =
  rd_capacity :: "nat option"
  rd_discharging :: bool
  rd_list_ok :: bool
  rd_set_ok :: bool

record enforcer =
  limits :: limit_state
  saved_limits :: "(bool \<times> nat \<times> nat) option"
  charging_stopped :: bool
  connected :: bool
  reseed_secs :: nat
  captured :: limit_state

definition is_charging_stopped :: "readings \<Rightarrow> enforcer \<Rightarrow> bool" where
  "is_charging_stopped rd e \<longleftrightarrow> rd_list_ok rd \<and> charging_stopped e"

definition set_charging :: "readings \<Rightarrow> bool \<Rightarrow> enforcer \<Rightarrow> enforcer" where
  "set_charging rd allow e = (if rd_set_ok rd then e\<lparr>charging_stopped := \<not> allow\<rparr> else e)"

definition enforce :: "readings \<Rightarrow> nat \<Rightarrow> nat \<Rightarrow> enforcer \<Rightarrow> enforcer" where
  "enforce rd limit hysteresis e =
     (let capacity = (case rd_capacity rd of Some c \<Rightarrow> c | None \<Rightarrow> 0)
      in case fst (decide capacity (rd_discharging rd) limit hysteresis (is_charging_stopped rd e)) of
           Stop \<Rightarrow> set_charging rd False e
         | Resume \<Rightarrow> set_charging rd True e
         | Keep \<Rightarrow> e)"

definition active :: "limit_state \<Rightarrow> bool" where
  "active st \<longleftrightarrow> lim_enabled st \<and> \<not> manual_override st"

definition enforce_if_active :: "readings \<Rightarrow> enforcer \<Rightarrow> enforcer" where
  "enforce_if_active rd e =
     (if active (limits e) then enforce rd (lim_limit (limits e)) (lim_hysteresis (limits e)) e else e)"

section \<open>The event loop\<close>

definition next_reseed_secs :: "nat \<Rightarrow> nat" where
  "next_reseed_secs current = min (min (current * 2) (2 ^ 64 - 1)) DISCONNECTED_RESEED_MAX_SECS"

definition after_reseed :: "bool \<Rightarrow> bool option \<Rightarrow> nat \<Rightarrow> bool \<times> nat" where
  "after_reseed previous read reseed =
     (if (case read of Some c \<Rightarrow> c | None \<Rightarrow> previous) then (True, DISCONNECTED_RESEED_SECS)
      else (False, next_reseed_secs reseed))"

text \<open>
  An iteration of the loop first notes the configuration (while connected), then waits; a wait ends with
  an event, which says connected, disconnected or neither, or with its timeout, after which the
  daemon may be asked. \<open>wait_secs\<close> is how long it waits.
\<close>

definition begin_wait :: "enforcer \<Rightarrow> enforcer" where
  "begin_wait e = (if connected e then e\<lparr>captured := limits e\<rparr> else e)"

definition wait_secs :: "enforcer \<Rightarrow> nat" where
  "wait_secs e =
     (if \<not> connected e then reseed_secs e
      else if active (captured e) then POLL_ACTIVE_SECS else POLL_IDLE_SECS)"

datatype wake = Event "bool option" | Timeout "bool option"

definition woken :: "readings \<Rightarrow> wake \<Rightarrow> enforcer \<Rightarrow> enforcer" where
  "woken rd w e =
     (if \<not> connected e then
        (case w of
           Event c \<Rightarrow>
             let e = e\<lparr>reseed_secs := DISCONNECTED_RESEED_SECS\<rparr>
             in if c = Some True then enforce_if_active rd (e\<lparr>connected := True\<rparr>) else e
         | Timeout read \<Rightarrow>
             let (c, next) = after_reseed (connected e) read (reseed_secs e); e = e\<lparr>reseed_secs := next\<rparr>
             in if c then enforce_if_active rd (e\<lparr>connected := True\<rparr>) else e)
      else
        (case w of
           Event c \<Rightarrow>
             if c = Some False then
               let e = e\<lparr>connected := False, reseed_secs := DISCONNECTED_RESEED_SECS\<rparr>
               in if is_charging_stopped rd e then set_charging rd True e else e
             else enforce_if_active rd e
         | Timeout _ \<Rightarrow>
             if active (captured e)
             then enforce rd (lim_limit (captured e)) (lim_hysteresis (captured e)) e else e))"

text \<open>\<open>event_loop\<close>'s start: the daemon's answer, or connected when there is none.\<close>

definition loop_start :: "bool option \<Rightarrow> enforcer \<Rightarrow> enforcer" where
  "loop_start read e =
     e\<lparr>connected := (case read of Some c \<Rightarrow> c | None \<Rightarrow> True), reseed_secs := DISCONNECTED_RESEED_SECS\<rparr>"

text \<open>An iteration of \<open>poll_loop\<close>, where the loop ends up when the event channel closes.\<close>

definition poll_tick :: "readings \<Rightarrow> enforcer \<Rightarrow> enforcer \<times> nat" where
  "poll_tick rd e =
     (if active (limits e)
      then (enforce rd (lim_limit (limits e)) (lim_hysteresis (limits e)) e, POLL_ACTIVE_SECS)
      else (e, POLL_IDLE_SECS))"

section \<open>The handlers\<close>

definition set_limit :: "readings \<Rightarrow> bool \<Rightarrow> nat \<Rightarrow> nat \<Rightarrow> enforcer \<Rightarrow> (string + unit) \<times> enforcer" where
  "set_limit rd enabled limit hysteresis e =
     (if limit < 50 \<or> 100 < limit then (Err ''limit must be 50-100'', e)
      else if hysteresis < 1 \<or> 20 < hysteresis then (Err ''hysteresis must be 1-20'', e)
      else
        let e = e\<lparr>limits := \<lparr>lim_enabled = enabled, lim_limit = limit, lim_hysteresis = hysteresis,
                   manual_override = False\<rparr>, saved_limits := Some (enabled, limit, hysteresis)\<rparr>
        in (Ok (), if enabled then enforce rd limit hysteresis e else set_charging rd True e))"

definition set_manual_override :: "bool \<Rightarrow> enforcer \<Rightarrow> enforcer" where
  "set_manual_override on e = e\<lparr>limits := (limits e)\<lparr>manual_override := on\<rparr>\<rparr>"

datatype charge_step = Begin_wait | Woken wake | Poll | Set_limit bool nat nat | Override bool

fun charge_run :: "(readings \<times> charge_step) list \<Rightarrow> enforcer \<Rightarrow> enforcer" where
  "charge_run [] e = e"
| "charge_run ((rd, s) # ss) e =
     charge_run ss (case s of
         Begin_wait \<Rightarrow> begin_wait e
       | Woken w \<Rightarrow> woken rd w e
       | Poll \<Rightarrow> fst (poll_tick rd e)
       | Set_limit on l h \<Rightarrow> snd (set_limit rd on l h e)
       | Override on \<Rightarrow> set_manual_override on e)"

section \<open>The decision table\<close>

lemma decide_result:
  "fst (decide c d l h s) =
     (if l \<le> c \<and> \<not> d \<and> \<not> s then Stop else if c \<le> l - h \<and> s then Resume else Keep)"
  by (auto simp: decide_def Let_def)

lemma decide_asked: "snd (decide c d l h s) \<longleftrightarrow> (l \<le> c \<and> \<not> d) \<or> c \<le> l - h"
  by (auto simp: decide_def Let_def)

lemma enforce_stopped:
  assumes "rd_list_ok rd" and "rd_set_ok rd" and "rd_capacity rd = Some c"
  shows "charging_stopped (enforce rd l h e) =
    (if charging_stopped e then \<not> c \<le> l - h else l \<le> c \<and> \<not> rd_discharging rd)"
  using assms by (simp add: enforce_def decide_result is_charging_stopped_def set_charging_def)

section \<open>Swings\<close>

definition good :: "readings \<Rightarrow> bool" where
  "good rd \<longleftrightarrow> rd_list_ok rd \<and> rd_set_ok rd \<and> rd_capacity rd \<noteq> None"

text \<open>The commands a series of enforcements gives, each with the capacity it was given at.\<close>

fun commands :: "nat \<Rightarrow> nat \<Rightarrow> readings list \<Rightarrow> enforcer \<Rightarrow> (charge_action \<times> nat) list" where
  "commands l h [] e = []"
| "commands l h (rd # rds) e =
     (let c = the (rd_capacity rd);
          a = fst (decide c (rd_discharging rd) l h (is_charging_stopped rd e));
          rest = commands l h rds (enforce rd l h e)
      in if a = Keep then rest else (a, c) # rest)"

text \<open>A list of commands that starts from a given mode, changes it every time, and never near the limit.\<close>

fun swings :: "nat \<Rightarrow> nat \<Rightarrow> bool \<Rightarrow> (charge_action \<times> nat) list \<Rightarrow> bool" where
  "swings l h stopped [] \<longleftrightarrow> True"
| "swings l h stopped ((a, c) # cs) \<longleftrightarrow>
     (if stopped then a = Resume \<and> c + h \<le> l else a = Stop \<and> l \<le> c) \<and> swings l h (\<not> stopped) cs"

lemma commands_swing:
  "list_all good rds \<Longrightarrow> 0 < h \<Longrightarrow> h \<le> l \<Longrightarrow> swings l h (charging_stopped e) (commands l h rds e)"
proof (induction rds arbitrary: e)
  case (Cons rd rds)
  obtain c where c: "rd_list_ok rd" "rd_set_ok rd" "rd_capacity rd = Some c"
    using Cons.prems(1) by (auto simp: good_def)
  show ?case
    using Cons.IH [of "enforce rd l h e"] Cons.prems c enforce_stopped [OF c, of l h e]
    by (cases "charging_stopped e"; cases "c \<le> l - h"; cases "l \<le> c \<and> \<not> rd_discharging rd")
      (auto simp: decide_result is_charging_stopped_def Let_def)
qed simp

lemma swings_apart:
  assumes "swings l h s cs" and "Suc i < length cs"
  shows "fst (cs ! i) \<noteq> fst (cs ! Suc i) \<and>
    (fst (cs ! i) = Stop \<longrightarrow> snd (cs ! Suc i) + h \<le> snd (cs ! i)) \<and>
    (fst (cs ! i) = Resume \<longrightarrow> snd (cs ! i) + h \<le> snd (cs ! Suc i))"
  using assms
proof (induction l h s cs arbitrary: i rule: swings.induct)
  case (2 l h s a c cs)
  show ?case
  proof (cases i)
    case 0
    with "2.prems" obtain a' c' cs' where "cs = (a', c') # cs'" by (cases cs) auto
    with "2.prems"(1) 0 show ?thesis by (cases s) auto
  next
    case (Suc j)
    then show ?thesis using "2.IH" [of j] "2.prems" by simp
  qed
qed simp

lemma commands_mode:
  "list_all good rds \<Longrightarrow> charging_stopped (fold (\<lambda>rd. enforce rd l h) rds e) =
     (if commands l h rds e = [] then charging_stopped e else fst (last (commands l h rds e)) = Stop)"
proof (induction rds arbitrary: e)
  case (Cons rd rds)
  obtain c where c: "rd_list_ok rd" "rd_set_ok rd" "rd_capacity rd = Some c"
    using Cons.prems by (auto simp: good_def)
  show ?case
    using Cons.IH [of "enforce rd l h e"] Cons.prems c enforce_stopped [OF c, of l h e]
    by (cases "charging_stopped e"; cases "c \<le> l - h"; cases "l \<le> c \<and> \<not> rd_discharging rd")
      (auto simp: decide_result is_charging_stopped_def Let_def)
qed simp

text \<open>
  C38: while the battery can be read and the charger obeys, the enforcer never chatters: its commands
  alternate between stopping and resuming, it stops only at or above the limit and resumes only a full
  hysteresis below it, so between any two commands the battery has moved by at least the hysteresis;
  and after any number of enforcements the charger's mode is the one the last command set, or as it was
  when there was none.
\<close>

theorem enforcement_never_chatters:
  assumes "list_all good rds" and "0 < h" and "h \<le> l"
  shows "swings l h (charging_stopped e) (commands l h rds e) \<and>
    (\<forall>i. Suc i < length (commands l h rds e) \<longrightarrow>
       fst (commands l h rds e ! i) \<noteq> fst (commands l h rds e ! Suc i) \<and>
       (fst (commands l h rds e ! i) = Stop \<longrightarrow>
          snd (commands l h rds e ! Suc i) + h \<le> snd (commands l h rds e ! i)) \<and>
       (fst (commands l h rds e ! i) = Resume \<longrightarrow>
          snd (commands l h rds e ! i) + h \<le> snd (commands l h rds e ! Suc i))) \<and>
    charging_stopped (fold (\<lambda>rd. enforce rd l h) rds e) =
      (if commands l h rds e = [] then charging_stopped e else fst (last (commands l h rds e)) = Stop)"
  using commands_swing [OF assms, of e] swings_apart [of l h "charging_stopped e" "commands l h rds e"]
    commands_mode [OF assms(1), of l h e] by blast

definition reading :: "nat \<Rightarrow> readings" where
  "reading c = \<lparr>rd_capacity = Some c, rd_discharging = False, rd_list_ok = True, rd_set_ok = True\<rparr>"

definition fresh_enforcer :: "(bool \<times> nat \<times> nat) option \<Rightarrow> bool option \<Rightarrow> enforcer" where
  "fresh_enforcer persisted read =
     loop_start read \<lparr>limits = load_state persisted, saved_limits = persisted, charging_stopped = False,
       connected = True, reseed_secs = 0, captured = load_state persisted\<rparr>"

lemma demo_commands:
  "commands 80 5 (map reading [79, 80, 76, 75]) (fresh_enforcer None None) = [(Stop, 80), (Resume, 75)]"
  by code_simp

theorem enforcement_never_chatters_witness: "swings 80 5 False [(Stop, 80), (Resume, 75)]"
proof -
  have "list_all good (map reading [79, 80, 76, 75])" "charging_stopped (fresh_enforcer None None) = False"
    by (simp_all add: good_def reading_def fresh_enforcer_def loop_start_def)
  with conjunct1 [OF enforcement_never_chatters [of "map reading [79, 80, 76, 75]" 5 80 "fresh_enforcer None None"]]
  show ?thesis by (simp only: demo_commands)
qed

section \<open>The invariant\<close>

definition limits_ok :: "limit_state \<Rightarrow> bool" where
  "limits_ok st \<longleftrightarrow> 50 \<le> lim_limit st \<and> lim_limit st \<le> 100 \<and> 1 \<le> lim_hysteresis st \<and> lim_hysteresis st \<le> 20"

definition enforcer_inv :: "enforcer \<Rightarrow> bool" where
  "enforcer_inv e \<longleftrightarrow> limits_ok (limits e) \<and> limits_ok (captured e) \<and>
     600 \<le> reseed_secs e \<and> reseed_secs e \<le> 3600 \<and> (connected e \<longrightarrow> reseed_secs e = 600)"

lemma enforce_keeps [simp]:
  "limits (enforce rd l h e) = limits e" "saved_limits (enforce rd l h e) = saved_limits e"
  "connected (enforce rd l h e) = connected e" "reseed_secs (enforce rd l h e) = reseed_secs e"
  "captured (enforce rd l h e) = captured e"
  by (simp_all add: enforce_def set_charging_def split: charge_action.split)

lemma set_charging_keeps [simp]:
  "limits (set_charging rd a e) = limits e" "saved_limits (set_charging rd a e) = saved_limits e"
  "connected (set_charging rd a e) = connected e" "reseed_secs (set_charging rd a e) = reseed_secs e"
  "captured (set_charging rd a e) = captured e"
  by (simp_all add: set_charging_def)

lemma enforcer_inv_enforce [simp]:
  "enforcer_inv (enforce rd l h e) = enforcer_inv e" "enforcer_inv (set_charging rd a e) = enforcer_inv e"
  "enforcer_inv (enforce_if_active rd e) = enforcer_inv e"
  by (simp_all add: enforcer_inv_def enforce_if_active_def)

lemma next_reseed_bounds: "600 \<le> r \<Longrightarrow> r \<le> 3600 \<Longrightarrow> 600 \<le> next_reseed_secs r \<and> next_reseed_secs r \<le> 3600"
  by (simp add: next_reseed_secs_def DISCONNECTED_RESEED_MAX_SECS_def)

lemma woken_inv:
  assumes "enforcer_inv e"
  shows "enforcer_inv (woken rd w e)"
proof (cases w)
  case (Event c)
  with assms show ?thesis
    by (auto simp: woken_def Let_def DISCONNECTED_RESEED_SECS_def) (auto simp: enforcer_inv_def)
next
  case (Timeout read)
  with assms next_reseed_bounds [of "reseed_secs e"] show ?thesis
    by (auto simp: woken_def after_reseed_def Let_def DISCONNECTED_RESEED_SECS_def split: option.splits)
      (auto simp: enforcer_inv_def)
qed

lemma set_limit_inv:
  assumes "enforcer_inv e"
  shows "enforcer_inv (snd (set_limit rd on l h e))"
  using assms by (auto simp: set_limit_def Let_def) (auto simp: enforcer_inv_def limits_ok_def)

lemma charge_run_inv: "enforcer_inv e \<Longrightarrow> enforcer_inv (charge_run ss e)"
proof (induction ss arbitrary: e)
  case (Cons s ss)
  obtain rd st where s: "s = (rd, st)" by (cases s)
  have "enforcer_inv (begin_wait e)" "enforcer_inv (set_manual_override on e)" for on
    using Cons.prems by (auto simp: begin_wait_def set_manual_override_def enforcer_inv_def limits_ok_def)
  moreover have "enforcer_inv (fst (poll_tick rd e))" using Cons.prems by (simp add: poll_tick_def)
  ultimately show ?case
    using Cons woken_inv [OF Cons.prems] set_limit_inv [OF Cons.prems] s
    by (cases st) (simp_all only: charge_run.simps charge_step.case)
qed simp

lemma fresh_inv: "enforcer_inv (fresh_enforcer persisted read)"
  by (auto simp: fresh_enforcer_def loop_start_def enforcer_inv_def limits_ok_def load_state_def clamp_def
      DISCONNECTED_RESEED_SECS_def DEFAULT_HYSTERESIS_def split: option.split)

text \<open>
  Whatever the file held, whatever the charger daemon reports and the user sets, the limit in
  force stays between 50 and 100 percent with a hysteresis of 1 to 20, and the loop's wait is one of
  its intervals: one or five minutes while the charger is connected and between ten minutes and an
  hour while it is not.
\<close>

theorem charge_config_and_waits:
  "limits_ok (limits (charge_run ss (fresh_enforcer persisted read))) \<and>
   (let e = charge_run ss (fresh_enforcer persisted read) in
     if connected e then wait_secs e = 60 \<or> wait_secs e = 300 else 600 \<le> wait_secs e \<and> wait_secs e \<le> 3600)"
  using charge_run_inv [OF fresh_inv [of persisted read], of ss]
  by (auto simp: enforcer_inv_def wait_secs_def POLL_ACTIVE_SECS_def POLL_IDLE_SECS_def Let_def)

section \<open>A limit turned off during a wait\<close>

text \<open>Any further iterations of the loop with the limit off and the charger connected.\<close>

lemma idle_iterations:
  assumes "connected e" and "\<not> active (limits e)" and "list_all (\<lambda>(_, w). w \<noteq> Event (Some False)) ws"
  shows "charging_stopped (charge_run (concat (map (\<lambda>(rd, w). [(rd, Begin_wait), (rd, Woken w)]) ws)) e) = charging_stopped e \<and>
    limits (charge_run (concat (map (\<lambda>(rd, w). [(rd, Begin_wait), (rd, Woken w)]) ws)) e) = limits e"
  using assms
proof (induction ws arbitrary: e)
  case (Cons x ws)
  obtain rd w where x: "x = (rd, w)" by (cases x)
  define e' where "e' = woken rd w (begin_wait e)"
  have "charging_stopped e' = charging_stopped e \<and> connected e' \<and> limits e' = limits e"
    using Cons.prems x by (cases w) (auto simp: e'_def begin_wait_def woken_def enforce_if_active_def)
  with Cons x show ?case by (simp flip: e'_def)
qed simp

text \<open>
  A wait that began before the user turned the limit off (or asked to charge past it) still ends
  by enforcing the old limit: charging, which the handler has just switched on again, is stopped, and
  it stays stopped with the limit off, whatever the loop does next, until the charger is unplugged.
\<close>

theorem disabled_limit_enforced_once_more:
  assumes "connected e" and "active (limits e)" and "good rd" and "\<not> rd_discharging rd"
    and "rd_capacity rd = Some c" and "lim_limit (limits e) \<le> c" and "lim_hysteresis (limits e) \<le> lim_limit (limits e)"
    and "50 \<le> l" "l \<le> 100" "1 \<le> h" "h \<le> 20"
    and "list_all (\<lambda>(_, w). w \<noteq> Event (Some False)) ws"
  shows "charging_stopped (charge_run [(rd, Begin_wait), (rd, Set_limit False l h)] e) = False \<and>
    (let e' = charge_run ([(rd, Begin_wait), (rd, Set_limit False l h), (rd, Woken (Timeout x))] @
        concat (map (\<lambda>(rd, w). [(rd, Begin_wait), (rd, Woken w)]) ws)) e
     in charging_stopped e' \<and> \<not> lim_enabled (limits e'))"
proof -
  define e1 where "e1 = charge_run [(rd, Begin_wait), (rd, Set_limit False l h)] e"
  define e2 where "e2 = woken rd (Timeout x) e1"
  have good: "rd_list_ok rd" "rd_set_ok rd" using assms(3) by (simp_all add: good_def)
  have e1: "charging_stopped e1 = False" "connected e1" "captured e1 = limits e" "\<not> lim_enabled (limits e1)"
    using assms(1,8-11) good by (simp_all add: e1_def begin_wait_def set_limit_def set_charging_def)
  have "charging_stopped e2"
    using e1 assms(2,4,6) enforce_stopped [OF good assms(5), of _ _ e1] by (simp add: e2_def woken_def)
  moreover have "connected e2" "limits e2 = limits e1" using e1 by (auto simp: e2_def woken_def)
  ultimately have "charging_stopped (charge_run (concat (map (\<lambda>(rd, w). [(rd, Begin_wait), (rd, Woken w)]) ws)) e2) \<and>
      limits (charge_run (concat (map (\<lambda>(rd, w). [(rd, Begin_wait), (rd, Woken w)]) ws)) e2) = limits e1"
    using idle_iterations [OF _ _ assms(12), of e2] e1(4) by (simp add: active_def)
  then show ?thesis using e1 by (simp add: e2_def e1_def)
qed

theorem disabled_limit_enforced_once_more_witness:
  "charging_stopped (charge_run ([(reading 85, Begin_wait), (reading 85, Set_limit False 80 5), (reading 85, Woken (Timeout None))] @
     [(reading 90, Begin_wait), (reading 90, Woken (Timeout None))]) (fresh_enforcer (Some (True, 80, 5)) None))"
proof -
  have "connected (fresh_enforcer (Some (True, 80, 5)) None)" "active (limits (fresh_enforcer (Some (True, 80, 5)) None))"
    "lim_limit (limits (fresh_enforcer (Some (True, 80, 5)) None)) = 80"
    "lim_hysteresis (limits (fresh_enforcer (Some (True, 80, 5)) None)) = 5"
    by (simp_all add: fresh_enforcer_def loop_start_def load_state_def clamp_def active_def)
  with disabled_limit_enforced_once_more [where e = "fresh_enforcer (Some (True, 80, 5)) None" and rd = "reading 85" and
      c = 85 and l = 80 and h = 5 and x = None and ws = "[(reading 90, Timeout None)]"]
  show ?thesis by (simp add: good_def reading_def Let_def)
qed

end
