(* ===== verification/Conn_Watchdog.thy ===== *)
theory Conn_Watchdog
  imports Boot_Clock Decimal_Text
begin

text \<open>
  The connectivity watchdog's state machine (\<open>zte-agent/src/conn_watchdog.rs\<close>, \<open>Machine\<close> and the types
  around it). An \<open>Instant\<close> of the monotonic clock is the nanoseconds since its start. The busy check,
  a closure the code calls when a rung is about to run, is the argument \<open>busy\<close> of every step: what it
  would answer at that moment. A \<open>u32\<close> counter wraps at \<open>2 ^ 32\<close>.
\<close>

datatype rung = PdnReconnect | LpmOnline | ModemReset | Reboot

definition DAY :: duration where "DAY = from_secs (24 * 3600)"
definition TRIGGER_FAILURES :: nat where "TRIGGER_FAILURES = 3"
definition TRIGGER_MIN_AGE :: duration where "TRIGGER_MIN_AGE = from_secs (10 * 60)"
definition RECOVERY_WINDOW :: duration where "RECOVERY_WINDOW = from_secs (5 * 60)"
definition SETTLE :: duration where "SETTLE = from_secs 60"
definition USER_ACTIVITY_GUARD :: duration where "USER_ACTIVITY_GUARD = from_secs 120"
definition GUARD_RETRY :: duration where "GUARD_RETRY = from_secs 60"

fun number :: "rung \<Rightarrow> nat" where
  "number PdnReconnect = 1"
| "number LpmOnline = 2"
| "number ModemReset = 3"
| "number Reboot = 4"

fun label :: "rung \<Rightarrow> string" where
  "label PdnReconnect = ''PDN reconnect''"
| "label LpmOnline = ''LPM -> ONLINE''"
| "label ModemReset = ''modem reset (AT+CFUN=1,1)''"
| "label Reboot = ''reboot with fast boot off''"

fun cooldown :: "rung \<Rightarrow> duration" where
  "cooldown PdnReconnect = from_secs (10 * 60)"
| "cooldown LpmOnline = from_secs (20 * 60)"
| "cooldown ModemReset = from_secs 3600"
| "cooldown Reboot = DAY"

fun daily_cap :: "rung \<Rightarrow> nat option" where
  "daily_cap ModemReset = Some 3"
| "daily_cap Reboot = Some 1"
| "daily_cap _ = None"

fun next_rung :: "rung \<Rightarrow> bool \<Rightarrow> rung option" where
  "next_rung PdnReconnect _ = Some LpmOnline"
| "next_rung LpmOnline _ = Some ModemReset"
| "next_rung ModemReset allow = (if allow then Some Reboot else None)"
| "next_rung Reboot _ = None"

section \<open>Configuration and inputs\<close>

record wd_config =
  wd_enabled :: bool
  allow_reboot :: bool

text \<open>
  A JSON patch gives each field as absent (\<open>None\<close>), as a boolean (\<open>Some (Some b)\<close>) or as something
  else (\<open>Some None\<close>).
\<close>

definition patched :: "wd_config \<Rightarrow> bool option option \<Rightarrow> bool option option \<Rightarrow> string + wd_config" where
  "patched cfg enabled reboot =
     (case enabled of
        Some None \<Rightarrow> Err ''enabled must be a boolean''
      | _ \<Rightarrow>
          let next = (case enabled of Some (Some b) \<Rightarrow> cfg\<lparr>wd_enabled := b\<rparr> | _ \<Rightarrow> cfg) in
          (case reboot of
             Some None \<Rightarrow> Err ''allow_reboot must be a boolean''
           | Some (Some b) \<Rightarrow> Ok (next\<lparr>allow_reboot := b\<rparr>)
           | None \<Rightarrow> Ok next))"

definition ends_with :: "string \<Rightarrow> string \<Rightarrow> bool" where
  "ends_with s suffix \<longleftrightarrow> length suffix \<le> length s \<and> drop (length s - length suffix) s = suffix"

definition wan_connected_from_status :: "string \<Rightarrow> bool" where
  "wan_connected_from_status status \<longleftrightarrow> status = ''connected'' \<or> ends_with status ''_connected''"

datatype event = Wan bool | Probe bool | Timer | Config wd_config

datatype wd_action = Act rung | Log string

datatype state = Idle | Waiting rung duration nat | Cooling rung duration

record machine =
  config :: wd_config
  state :: state
  deadline :: "duration option"
  wan_connected :: "bool option"
  failures :: nat
  first_failure :: "duration option"
  history :: "(rung \<times> duration) list"
  user_activity :: "duration option"

definition machine_new :: "wd_config \<Rightarrow> machine" where
  "machine_new cfg = \<lparr>config = cfg, state = Idle, deadline = None, wan_connected = None, failures = 0,
     first_failure = None, history = [], user_activity = None\<rparr>"

definition set_user_activity :: "duration option \<Rightarrow> machine \<Rightarrow> machine" where
  "set_user_activity at m = m\<lparr>user_activity := at\<rparr>"

definition record_action :: "rung \<Rightarrow> duration \<Rightarrow> machine \<Rightarrow> machine" where
  "record_action r at m = m\<lparr>history := history m @ [(r, at)]\<rparr>"

section \<open>What blocks a rung\<close>

definition weigh :: "duration \<Rightarrow> duration \<times> string \<Rightarrow> (duration \<times> string) option \<Rightarrow> (duration \<times> string) option" where
  "weigh now c block =
     (if now < fst c \<and> (case block of None \<Rightarrow> True | Some b \<Rightarrow> fst b < fst c) then Some c else block)"

definition same_rung :: "rung \<Rightarrow> (rung \<times> duration) list \<Rightarrow> duration list" where
  "same_rung r h = map snd (filter (\<lambda>(r', _). r' = r) h)"

text \<open>The last maximum, as \<open>Iterator::max\<close> finds it.\<close>

fun max_time :: "duration list \<Rightarrow> duration option" where
  "max_time [] = None"
| "max_time (t # ts) = Some (fold max ts t)"

definition reasons :: "string option \<Rightarrow> machine \<Rightarrow> rung \<Rightarrow> duration \<Rightarrow> (duration \<times> string) list" where
  "reasons busy m r now =
     (let same = same_rung r (history m);
          today = filter (\<lambda>t. now - t < DAY) same
      in
        (case busy of Some reason \<Rightarrow> [(now + GUARD_RETRY, reason @ '' in progress'')] | None \<Rightarrow> []) @
        (case user_activity m of
           Some at \<Rightarrow> [(at + USER_ACTIVITY_GUARD, ''recent user modem change'')] | None \<Rightarrow> []) @
        (case max_time same of
           Some prev \<Rightarrow> [(prev + cooldown r, ''rung '' @ show_nat (number r) @ '' cooldown'')] | None \<Rightarrow> []) @
        (case daily_cap r of
           None \<Rightarrow> []
         | Some cap \<Rightarrow>
             if cap \<le> length today mod 2 ^ 32
             then [(sort today ! (length today - cap) + DAY,
                    ''rung '' @ show_nat (number r) @ '' daily cap ('' @ show_nat cap @ ''/day)'')]
             else []))"

definition blocked_until :: "string option \<Rightarrow> machine \<Rightarrow> rung \<Rightarrow> duration \<Rightarrow> (duration \<times> string) option" where
  "blocked_until busy m r now = fold (weigh now) (reasons busy m r now) None"

section \<open>The steps\<close>

definition try_act :: "string option \<Rightarrow> rung \<Rightarrow> duration \<Rightarrow> machine \<Rightarrow> wd_action list \<times> machine" where
  "try_act busy r now m =
     (case blocked_until busy m r now of
        Some (until, reason) \<Rightarrow>
          ([Log (''rung '' @ show_nat (number r) @ '' ('' @ label r @ '') deferred '' @
              show_nat (dur_as_secs (until - now)) @ '' s: '' @ reason)],
           m\<lparr>state := Cooling r until, deadline := Some until\<rparr>)
      | None \<Rightarrow>
          ([Act r],
           m\<lparr>history := history m @ [(r, now)], state := Waiting r now 0, deadline := Some (now + RECOVERY_WINDOW)\<rparr>))"

definition clear_failures :: "machine \<Rightarrow> machine" where
  "clear_failures m = m\<lparr>failures := 0, first_failure := None\<rparr>"

definition reset :: "string \<Rightarrow> machine \<Rightarrow> wd_action list \<times> machine" where
  "reset why m = ([Log why], m\<lparr>state := Idle, deadline := None, failures := 0, first_failure := None\<rparr>)"

definition escalate :: "string option \<Rightarrow> rung \<Rightarrow> duration \<Rightarrow> machine \<Rightarrow> wd_action list \<times> machine" where
  "escalate busy r now m =
     (let note = Log (''rung '' @ show_nat (number r) @ '' ('' @ label r @ '') did not restore connectivity'')
      in case next_rung r (allow_reboot (config m)) of
           Some r' \<Rightarrow> (let (acts, m) = try_act busy r' now m in (note # acts, m))
         | None \<Rightarrow>
             ([note, Log ''ladder exhausted; waiting for a fresh trigger''],
              clear_failures (m\<lparr>state := Idle, deadline := None\<rparr>)))"

definition on_wan :: "bool \<Rightarrow> duration \<Rightarrow> machine \<Rightarrow> wd_action list \<times> machine" where
  "on_wan connected now m =
     (let prev = wan_connected m; m = m\<lparr>wan_connected := Some connected\<rparr>
      in if connected then
           (case state m of
              Waiting r acted_at _ \<Rightarrow>
                if prev \<noteq> Some True \<and> acted_at + RECOVERY_WINDOW \<le> now
                then reset (''WAN reconnected '' @ show_nat (dur_as_secs (now - acted_at) div 60) @
                  '' min after rung '' @ show_nat (number r) @ ''; ladder reset'') m
                else ([], m)
            | _ \<Rightarrow> ([], m))
         else if prev = Some False then ([], m)
         else
           let m = clear_failures m
           in case state m of
                Cooling r _ \<Rightarrow>
                  reset (''WAN disconnected while waiting to run rung '' @ show_nat (number r) @ ''; ladder reset'') m
              | _ \<Rightarrow> ([], m))"

definition u32_succ :: "nat \<Rightarrow> nat" where
  "u32_succ n = (n + 1) mod 2 ^ 32"

definition on_probe :: "string option \<Rightarrow> bool \<Rightarrow> duration \<Rightarrow> machine \<Rightarrow> wd_action list \<times> machine" where
  "on_probe busy ok now m =
     (if ok then
        let m = clear_failures m
        in case state m of
             Idle \<Rightarrow> ([], m)
           | Waiting r acted_at _ \<Rightarrow>
               ([Log (''probe ok '' @ show_nat (dur_as_secs (now - acted_at)) @ '' s after rung '' @
                   show_nat (number r) @ '' ('' @ label r @ ''); connectivity restored'')],
                m\<lparr>state := Idle, deadline := None\<rparr>)
           | Cooling r _ \<Rightarrow>
               ([Log (''probe ok while waiting to run rung '' @ show_nat (number r) @ ''; ladder reset'')],
                m\<lparr>state := Idle, deadline := None\<rparr>)
      else if \<not> wd_enabled (config m) \<or> wan_connected m \<noteq> Some True then ([], m)
      else case state m of
        Idle \<Rightarrow>
          let first = (case first_failure m of Some f \<Rightarrow> f | None \<Rightarrow> now);
              m = m\<lparr>failures := u32_succ (failures m), first_failure := Some first\<rparr>
          in if TRIGGER_FAILURES \<le> failures m \<and> TRIGGER_MIN_AGE \<le> now - first
             then
               let note = Log (''WAN connected but '' @ show_nat (failures m) @ '' probes failed over '' @
                     show_nat (dur_as_secs (now - first) div 60) @ '' min; starting recovery ladder'');
                   (acts, m) = try_act busy PdnReconnect now m
               in (note # acts, m)
             else ([], m)
      | Waiting r acted_at fails \<Rightarrow>
          if now < acted_at + SETTLE then ([], m)
          else
            let m = m\<lparr>state := Waiting r acted_at (u32_succ fails)\<rparr>
            in if acted_at + RECOVERY_WINDOW \<le> now then escalate busy r now m else ([], m)
      | Cooling _ _ \<Rightarrow> ([], m))"

definition on_timer :: "string option \<Rightarrow> duration \<Rightarrow> machine \<Rightarrow> wd_action list \<times> machine" where
  "on_timer busy now m =
     (case deadline m of
        None \<Rightarrow> ([], m)
      | Some d \<Rightarrow>
          if now < d then ([], m)
          else
            let m = m\<lparr>deadline := None\<rparr>
            in case state m of
                 Idle \<Rightarrow> ([], m)
               | Waiting r acted_at fails \<Rightarrow>
                   if wan_connected m \<noteq> Some True
                   then reset (''WAN down at the end of rung '' @ show_nat (number r) @ '' window; ladder reset'') m
                   else if 0 < fails then escalate busy r now m
                   else ([Log (''no probe result since rung '' @ show_nat (number r) @ ''; waiting for the next probe'')], m)
               | Cooling r _ \<Rightarrow> try_act busy r now m)"

definition on_config :: "wd_config \<Rightarrow> machine \<Rightarrow> wd_action list \<times> machine" where
  "on_config cfg m =
     (let was = config m; m = m\<lparr>config := cfg\<rparr>
      in if wd_enabled cfg then ((if wd_enabled was then [] else [Log ''watchdog enabled'']), m)
         else ((if wd_enabled was then [Log ''watchdog disabled''] else []),
               clear_failures (m\<lparr>state := Idle, deadline := None\<rparr>)))"

fun step :: "string option \<Rightarrow> event \<Rightarrow> duration \<Rightarrow> machine \<Rightarrow> wd_action list \<times> machine" where
  "step busy (Wan connected) now m = on_wan connected now m"
| "step busy (Probe ok) now m = on_probe busy ok now m"
| "step busy Timer now m = on_timer busy now m"
| "step busy (Config cfg) now m = on_config cfg m"

text \<open>
  What the watchdog thread does with one event (\<open>apply\<close>): the user's last modem change is copied into
  the machine, then the machine steps.
\<close>

record input =
  in_event :: event
  in_now :: duration
  in_busy :: "string option"
  in_user :: "duration option"

definition apply_event :: "input \<Rightarrow> machine \<Rightarrow> wd_action list \<times> machine" where
  "apply_event i m = step (in_busy i) (in_event i) (in_now i) (set_user_activity (in_user i) m)"

text \<open>A run of the thread: the rungs it takes, with their times, and the machine left.\<close>

fun acts_of :: "wd_action list \<Rightarrow> rung list" where
  "acts_of [] = []"
| "acts_of (Act r # as) = r # acts_of as"
| "acts_of (Log _ # as) = acts_of as"

fun run :: "input list \<Rightarrow> machine \<Rightarrow> (rung \<times> duration) list \<times> machine" where
  "run [] m = ([], m)"
| "run (i # is) m =
     (let (as, m) = apply_event i m; (acts, m) = run is m
      in (map (\<lambda>r. (r, in_now i)) (acts_of as) @ acts, m))"

section \<open>When a rung may run\<close>

text \<open>The promise: no rung during a call or right after the user's own change, within its cooldown or above its daily cap.\<close>

definition allowed :: "string option \<Rightarrow> duration option \<Rightarrow> (rung \<times> duration) list \<Rightarrow> rung \<Rightarrow> duration \<Rightarrow> bool" where
  "allowed busy user h r now \<longleftrightarrow>
     busy = None \<and> (case user of Some at \<Rightarrow> at + USER_ACTIVITY_GUARD \<le> now | None \<Rightarrow> True) \<and>
     list_all (\<lambda>(r', t). r' = r \<longrightarrow> t + cooldown r \<le> now) h \<and>
     (case daily_cap r of
        Some cap \<Rightarrow> length (filter (\<lambda>(r', t). r' = r \<and> now < t + DAY) h) < cap
      | None \<Rightarrow> True)"

lemma durations_pos [simp]: "0 < DAY" "0 < GUARD_RETRY" "0 < RECOVERY_WINDOW" "0 < cooldown r"
  by (cases r; simp add: DAY_def GUARD_RETRY_def RECOVERY_WINDOW_def from_secs_def)+

lemma daily_cap_small: "daily_cap r = Some cap \<Longrightarrow> 0 < cap \<and> cap \<le> 3"
  by (cases r) auto

lemma fold_weigh_None: "fold (weigh now) cs b = None \<longleftrightarrow> b = None \<and> list_all (\<lambda>c. fst c \<le> now) cs"
  by (induction cs arbitrary: b) (auto simp: weigh_def split: option.splits)

lemma fold_weigh_later:
  "(case b of Some x \<Rightarrow> now < fst x | None \<Rightarrow> True) \<Longrightarrow>
     (case fold (weigh now) cs b of Some x \<Rightarrow> now < fst x | None \<Rightarrow> True)"
proof (induction cs arbitrary: b)
  case (Cons c cs)
  have "case weigh now c b of Some x \<Rightarrow> now < fst x | None \<Rightarrow> True"
    using Cons.prems by (simp add: weigh_def)
  then show ?case using Cons.IH by simp
qed simp

lemma blocked_later: "blocked_until busy m r now = Some (until, why) \<Longrightarrow> now < until"
  using fold_weigh_later [where b = None and now = now and cs = "reasons busy m r now"] by (simp add: blocked_until_def)

lemma max_add_le: "max a b + d \<le> n \<longleftrightarrow> a + d \<le> n \<and> b + d \<le> (n :: nat)"
  by (simp add: max_def) linarith

lemma fold_max_le: "fold max ts t + d \<le> n \<longleftrightarrow> t + d \<le> (n :: nat) \<and> list_all (\<lambda>t. t + d \<le> n) ts"
  by (induction ts arbitrary: t) (simp_all add: max_add_le conj_ac)

lemma max_time_le: "(case max_time ts of None \<Rightarrow> True | Some t \<Rightarrow> t + d \<le> now) \<longleftrightarrow> list_all (\<lambda>t. t + d \<le> now) ts"
  by (cases ts) (simp_all add: fold_max_le)

lemma today_in: "cap \<le> length ts \<Longrightarrow> 0 < cap \<Longrightarrow> sort ts ! (length ts - cap) \<in> set ts"
  using nth_mem [of "length ts - cap" "sort ts"] by simp

lemma list_all_same: "list_all P (same_rung r h) \<longleftrightarrow> list_all (\<lambda>(r', t). r' = r \<longrightarrow> P t) h"
  by (induction h) (auto simp: same_rung_def)

lemma within_day: "now - t < DAY \<longleftrightarrow> now < t + DAY"
  using durations_pos(1) by linarith

lemma length_today:
  "length (filter (\<lambda>t. now - t < DAY) (same_rung r h)) = length (filter (\<lambda>(r', t). r' = r \<and> now < t + DAY) h)"
  by (induction h) (auto simp: same_rung_def within_day)

lemma blocked_until_iff:
  assumes "length (history m) < 2 ^ 32"
  shows "blocked_until busy m r now = None \<longleftrightarrow> allowed busy (user_activity m) (history m) r now"
proof -
  let ?same = "same_rung r (history m)"
  let ?today = "filter (\<lambda>t. now - t < DAY) ?same"
  have len: "length ?today < 2 ^ 32"
    using assms length_filter_le [of "\<lambda>(r', t). r' = r \<and> now < t + DAY" "history m"] by (simp only: length_today)
  have today: "(case daily_cap r of None \<Rightarrow> [] | Some cap \<Rightarrow>
       if cap \<le> length ?today mod 2 ^ 32
       then [(sort ?today ! (length ?today - cap) + DAY, why cap)] else []) = cs \<Longrightarrow>
     list_all (\<lambda>c. fst c \<le> now) cs \<longleftrightarrow>
     (case daily_cap r of Some cap \<Rightarrow> length ?today < cap | None \<Rightarrow> True)" for why :: "nat \<Rightarrow> string" and cs
  proof (cases "daily_cap r")
    case (Some cap)
    with daily_cap_small [OF Some] today_in [of cap ?today] len
    have "cap \<le> length ?today \<Longrightarrow> now < sort ?today ! (length ?today - cap) + DAY"
      by (auto simp: within_day)
    moreover assume "(case daily_cap r of None \<Rightarrow> [] | Some cap \<Rightarrow>
       if cap \<le> length ?today mod 2 ^ 32
       then [(sort ?today ! (length ?today - cap) + DAY, why cap)] else []) = cs"
    ultimately show ?thesis using Some len by (cases "cap \<le> length ?today") auto
  qed auto
  have prev: "(case max_time ?same of Some prev \<Rightarrow> [(prev + cooldown r, why)] | None \<Rightarrow> []) = cs \<Longrightarrow>
     list_all (\<lambda>c. fst c \<le> now) cs \<longleftrightarrow> list_all (\<lambda>(r', t). r' = r \<longrightarrow> t + cooldown r \<le> now) (history m)" for why cs
    using max_time_le [where ts = ?same and d = "cooldown r" and now = now] by (auto simp: list_all_same split: option.splits)
  have others: "list_all (\<lambda>c. fst c \<le> now) (case busy of Some reason \<Rightarrow> [(now + GUARD_RETRY, reason @ '' in progress'')] | None \<Rightarrow> []) \<longleftrightarrow> busy = None"
    "list_all (\<lambda>c. fst c \<le> now) (case user_activity m of
        Some at \<Rightarrow> [(at + USER_ACTIVITY_GUARD, ''recent user modem change'')] | None \<Rightarrow> []) \<longleftrightarrow>
      (case user_activity m of Some at \<Rightarrow> at + USER_ACTIVITY_GUARD \<le> now | None \<Rightarrow> True)"
    by (simp_all split: option.split)
  show ?thesis
    unfolding blocked_until_def fold_weigh_None allowed_def reasons_def Let_def list_all_append others
      prev [OF refl] today [OF refl] length_today [symmetric]
    by simp
qed

end
