(* ===== verification/Text_Ops.thy ===== *)
theory Text_Ops
  imports Rust_Text Decimal_Text Hex_Codec "HOL-Library.Sublist"
begin

text \<open>
  The operations of Rust's \<open>str\<close> that the components share: splitting, joining, trimming, prefixes and
  suffixes, and ASCII case. On text whose bytes are ASCII, as header values and configuration words are,
  they are Rust's; \<open>trim\<close> does not know the white space beyond ASCII.
\<close>

section \<open>Case and digits\<close>

definition to_ascii_lowercase :: "string \<Rightarrow> string" where
  "to_ascii_lowercase s =
     map (\<lambda>c. if CHR ''A'' \<le> c \<and> c \<le> CHR ''Z'' then char_of (of_char c + 32 :: nat) else c) s"

definition eq_ignore_ascii_case :: "string \<Rightarrow> string \<Rightarrow> bool" where
  "eq_ignore_ascii_case a b \<longleftrightarrow> to_ascii_lowercase a = to_ascii_lowercase b"

definition is_ascii_hexdigit :: "char \<Rightarrow> bool" where
  "is_ascii_hexdigit c \<longleftrightarrow>
     CHR ''0'' \<le> c \<and> c \<le> CHR ''9'' \<or> CHR ''A'' \<le> c \<and> c \<le> CHR ''F'' \<or> CHR ''a'' \<le> c \<and> c \<le> CHR ''f''"

lemma is_ascii_hexdigit_iff: "is_ascii_hexdigit c \<longleftrightarrow> to_digit16 c \<noteq> None"
  by (auto simp: is_ascii_hexdigit_def to_digit16_def less_eq_char_def Let_def)

definition is_ascii_alphanumeric :: "char \<Rightarrow> bool" where
  "is_ascii_alphanumeric c \<longleftrightarrow>
     is_ascii_digit c \<or> CHR ''A'' \<le> c \<and> c \<le> CHR ''Z'' \<or> CHR ''a'' \<le> c \<and> c \<le> CHR ''z''"

definition is_ascii_whitespace :: "char \<Rightarrow> bool" where
  "is_ascii_whitespace c \<longleftrightarrow> c \<in> {CHR '' '', CHR 0x09, CHR 0x0A, CHR 0x0C, CHR 0x0D}"

text \<open>\<open>char::is_whitespace\<close> on ASCII, which knows the vertical tab too.\<close>

definition is_whitespace :: "char \<Rightarrow> bool" where
  "is_whitespace c \<longleftrightarrow> is_ascii_whitespace c \<or> c = CHR 0x0B"

lemma to_ascii_lowercase_length [simp]: "length (to_ascii_lowercase s) = length s"
  by (simp add: to_ascii_lowercase_def)

lemma to_ascii_lowercase_append [simp]: "to_ascii_lowercase (a @ b) = to_ascii_lowercase a @ to_ascii_lowercase b"
  by (simp add: to_ascii_lowercase_def)

lemma to_ascii_lowercase_idem [simp]: "to_ascii_lowercase (to_ascii_lowercase s) = to_ascii_lowercase s"
  by (auto simp: to_ascii_lowercase_def less_eq_char_def)

lemma to_ascii_lowercase_fixed: "list_all (\<lambda>c. \<not> (CHR ''A'' \<le> c \<and> c \<le> CHR ''Z'')) s \<Longrightarrow> to_ascii_lowercase s = s"
  by (induction s) (auto simp: to_ascii_lowercase_def)

section \<open>Splitting and joining\<close>

fun split_char :: "char \<Rightarrow> string \<Rightarrow> string list" where
  "split_char d [] = [[]]"
| "split_char d (c # s) =
     (if c = d then [] # split_char d s
      else case split_char d s of [] \<Rightarrow> [[c]] | l # ls \<Rightarrow> (c # l) # ls)"

lemma split_char_no: "d \<notin> set s \<Longrightarrow> split_char d s = [s]"
  by (induction s) auto

lemma split_char_append: "d \<notin> set a \<Longrightarrow> split_char d (a @ d # b) = a # split_char d b"
proof (induction a)
  case (Cons c a)
  then show ?case by (cases "split_char d (a @ d # b)") auto
qed simp

lemma split_char_not_Nil [simp]: "split_char d s \<noteq> []"
  by (induction s) (auto split: list.split)

lemma split_char_notin: "x \<in> set (split_char d s) \<Longrightarrow> d \<notin> set x"
proof (induction s arbitrary: x)
  case (Cons c s)
  then show ?case by (cases "split_char d s") (auto split: if_splits)
qed simp

fun join :: "string \<Rightarrow> string list \<Rightarrow> string" where
  "join sep [] = []"
| "join sep [s] = s"
| "join sep (s # ss) = s @ sep @ join sep ss"

lemma join_map_lower: "join ''.'' (map to_ascii_lowercase ls) = to_ascii_lowercase (join ''.'' ls)"
  by (induction "''.''" ls rule: join.induct) (auto simp: to_ascii_lowercase_def less_eq_char_def)

lemma join_split_char: "join [d] (split_char d s) = s"
proof (induction s)
  case (Cons c s)
  then show ?case by (cases "split_char d s" rule: remdups_adj.cases) auto
qed simp

lemma join_Cons: "ss \<noteq> [] \<Longrightarrow> join sep (s # ss) = s @ sep @ join sep ss"
  by (cases ss) auto

lemma split_char_join: "ss \<noteq> [] \<Longrightarrow> \<forall>x \<in> set ss. d \<notin> set x \<Longrightarrow> split_char d (join [d] ss) = ss"
proof (induction ss)
  case (Cons s ss)
  then show ?case by (cases ss) (auto simp: split_char_no split_char_append)
qed simp

lemma set_join: "set (join sep ss) \<subseteq> set sep \<union> \<Union> (set ` set ss)"
  by (induction sep ss rule: join.induct) auto

lemma split_char_infix: "x \<in> set (split_char d s) \<Longrightarrow> \<exists>p t. s = p @ x @ t"
proof (induction s arbitrary: x)
  case (Cons c s)
  show ?case
  proof (cases "x \<in> set (split_char d s)")
    case True
    with Cons.IH [OF this] show ?thesis by (metis append_Cons)
  next
    case False
    have "x = [] \<or> (\<exists>l ls. split_char d s = l # ls \<and> x = c # l)"
      using Cons.prems False by (cases "split_char d s") (auto split: if_splits)
    then show ?thesis
    proof
      assume "\<exists>l ls. split_char d s = l # ls \<and> x = c # l"
      then obtain l ls where l: "split_char d s = l # ls" "x = c # l" by blast
      have "\<exists>t. s = l @ t"
        using l(1) join_split_char [of d s] by (cases ls) auto
      with l(2) show ?thesis by (metis append_Cons append_Nil)
    qed auto
  qed
qed simp

lemma split_char_app: "split_char d (a @ d # b) = split_char d a @ split_char d b"
proof (induction a)
  case (Cons c a)
  then show ?case by (cases "split_char d a") (auto split: list.split)
qed simp

lemma in_map_filter: "y \<in> set (List.map_filter f xs) \<longleftrightarrow> (\<exists>x \<in> set xs. f x = Some y)"
  by (induction xs) (auto simp: List.map_filter_simps split: option.split)

section \<open>Prefixes, suffixes and trimming\<close>

definition strip_prefix :: "string \<Rightarrow> string \<Rightarrow> string option" where
  "strip_prefix p s = (if prefix p s then Some (drop (length p) s) else None)"

definition strip_suffix :: "string \<Rightarrow> string \<Rightarrow> string option" where
  "strip_suffix p s = (if suffix p s then Some (take (length s - length p) s) else None)"

definition trim :: "string \<Rightarrow> string" where
  "trim s = rev (dropWhile is_whitespace (rev (dropWhile is_whitespace s)))"

lemma strip_prefix_append [simp]: "strip_prefix p (p @ s) = Some s"
  by (simp add: strip_prefix_def)

lemma strip_prefix_SomeD: "strip_prefix p s = Some r \<Longrightarrow> s = p @ r"
  by (auto simp: strip_prefix_def prefix_def split: if_splits)

lemma strip_suffix_append [simp]: "strip_suffix p (s @ p) = Some s"
  by (simp add: strip_suffix_def suffix_def)

lemma strip_suffix_SomeD: "strip_suffix p s = Some r \<Longrightarrow> s = r @ p"
  by (auto simp: strip_suffix_def suffix_def split: if_splits)

lemma in_set_trim: "x \<in> set (trim s) \<Longrightarrow> x \<in> set s"
proof -
  assume "x \<in> set (trim s)"
  then have "x \<in> set (dropWhile is_whitespace (rev (dropWhile is_whitespace s)))" by (simp add: trim_def)
  from set_dropWhileD [OF this] have "x \<in> set (dropWhile is_whitespace s)" by simp
  from set_dropWhileD [OF this] show "x \<in> set s" by simp
qed

lemma trim_fixed: "s = [] \<or> \<not> is_whitespace (hd s) \<and> \<not> is_whitespace (last s) \<Longrightarrow> trim s = s"
proof -
  assume s: "s = [] \<or> \<not> is_whitespace (hd s) \<and> \<not> is_whitespace (last s)"
  have "dropWhile is_whitespace s = s" using s by (cases s) auto
  moreover have "dropWhile is_whitespace (rev s) = rev s" using s by (cases s rule: rev_cases) auto
  ultimately show "trim s = s" by (simp add: trim_def)
qed

end
