(* ===== verification/Dns_Packet.thy ===== *)
theory Dns_Packet
  imports Text_Ops Der_Codec
begin

text \<open>
  \<open>src/zte-agent/src/doh/dns_packet.rs\<close>: the few things the encrypted-DNS proxy reads from and writes
  to a DNS packet. Each function of the file is the definition of its name; the loops over labels
  and records are recursions on the position, which the code's bounds checks keep inside the buffer.

  The lemmas show that a query the agent builds is a valid query whose question reads back as the
  name asked for, that a parsed question lies inside the packet, and what the cache's time to live
  is computed from.
\<close>

section \<open>Reading\<close>

definition u16_at :: "bytes \<Rightarrow> nat \<Rightarrow> nat" where
  "u16_at buf i = be_value [buf ! i, buf ! (i + 1)]"

definition u32_at :: "bytes \<Rightarrow> nat \<Rightarrow> nat" where
  "u32_at buf i = be_value [buf ! i, buf ! (i + 1), buf ! (i + 2), buf ! (i + 3)]"

definition is_valid_query :: "bytes \<Rightarrow> bool" where
  "is_valid_query buf \<longleftrightarrow>
     \<not> length buf < 12 \<and> buf ! 2 AND 0x80 = 0 \<and> 1 \<le> u16_at buf 4"

definition successful_response :: "bytes \<Rightarrow> nat \<Rightarrow> bool" where
  "successful_response buf ident \<longleftrightarrow>
     12 \<le> length buf \<and> u16_at buf 0 = ident \<and> buf ! 2 AND 0x80 \<noteq> 0 \<and> buf ! 3 AND 0x0F = 0 \<and> 0 < u16_at buf 6"

text \<open>The labels from a position on, and the position after the root label.\<close>

function parse_labels :: "bytes \<Rightarrow> nat \<Rightarrow> (string list \<times> nat) option" where
  "parse_labels buf pos =
     (if length buf \<le> pos then None
      else
        let label_len = unat (buf ! pos); b = buf ! pos; pos = pos + 1 in
        if label_len = 0 then Some ([], pos)
        else if b AND 0xC0 = 0xC0 then None
        else if length buf < pos + label_len then None
        else case from_utf8 (take label_len (drop pos buf)) of
          None \<Rightarrow> None
        | Some label \<Rightarrow>
            map_option (\<lambda>(labels, end). (to_ascii_lowercase label # labels, end)) (parse_labels buf (pos + label_len)))"
  by pat_completeness auto
termination
  by (relation "measure (\<lambda>(buf, pos). length buf - pos)") auto

declare parse_labels.simps [simp del]

definition parse_question :: "bytes \<Rightarrow> (string \<times> nat \<times> nat) option" where
  "parse_question buf =
     (if length buf < 12 then None
      else case parse_labels buf 12 of
        None \<Rightarrow> None
      | Some (labels, pos) \<Rightarrow>
          if length buf < pos + 4 then None
          else Some (join ''.'' labels, u16_at buf pos, pos + 4))"

text \<open>\<open>skip_name\<close>, with the 128 iterations of its loop as fuel.\<close>

fun skip_labels :: "nat \<Rightarrow> bytes \<Rightarrow> nat \<Rightarrow> nat option" where
  "skip_labels 0 buf pos = None"
| "skip_labels (Suc fuel) buf pos =
     (if length buf \<le> pos then None
      else
        let b = buf ! pos in
        if b = 0 then Some (pos + 1)
        else if b AND 0xC0 = 0xC0 then Some (pos + 2)
        else skip_labels fuel buf (pos + 1 + unat b))"

definition skip_name :: "bytes \<Rightarrow> nat \<Rightarrow> nat option" where
  "skip_name buf pos = skip_labels 128 buf pos"

text \<open>
  The two loops of \<open>extract_min_ttl_inner\<close>. Skipping the questions gives the position after them
  (\<open>Inr\<close>) or what the function returns at once (\<open>Inl\<close>).
\<close>

fun skip_questions :: "nat \<Rightarrow> bytes \<Rightarrow> nat \<Rightarrow> nat option + nat" where
  "skip_questions 0 buf pos = Inr pos"
| "skip_questions (Suc n) buf pos =
     (case skip_name buf pos of
        None \<Rightarrow> Inl None
      | Some pos \<Rightarrow> if length buf < pos + 4 then Inl (Some 0) else skip_questions n buf (pos + 4))"

definition u32_top :: nat where
  "u32_top = 2 ^ 32 - 1"

fun min_ttl_of :: "nat \<Rightarrow> bytes \<Rightarrow> nat \<Rightarrow> nat \<Rightarrow> nat option" where
  "min_ttl_of 0 buf pos best = Some best"
| "min_ttl_of (Suc n) buf pos best =
     (case skip_name buf pos of
        None \<Rightarrow> None
      | Some pos \<Rightarrow>
          if length buf < pos + 10 then Some best
          else
            let ttl = u32_at buf (pos + 4);
                pos = pos + (10 + u16_at buf (pos + 8))
            in if length buf < pos then Some best
               else min_ttl_of n buf pos (if ttl < best then ttl else best))"

definition extract_min_ttl_inner :: "bytes \<Rightarrow> nat option" where
  "extract_min_ttl_inner buf =
     (if length buf < 12 then Some 0
      else
        let total = u16_at buf 6 + u16_at buf 8 + u16_at buf 10 in
        if total = 0 then Some 0
        else case skip_questions (u16_at buf 4) buf 12 of
          Inl r \<Rightarrow> r
        | Inr pos \<Rightarrow> map_option (\<lambda>t. if t = u32_top then 0 else t) (min_ttl_of total buf pos u32_top))"

definition extract_min_ttl :: "bytes \<Rightarrow> nat" where
  "extract_min_ttl buf = (case extract_min_ttl_inner buf of None \<Rightarrow> 0 | Some t \<Rightarrow> t)"

section \<open>Writing\<close>

definition rewrite_id :: "bytes \<Rightarrow> nat \<Rightarrow> bytes" where
  "rewrite_id buf ident =
     (if 2 \<le> length buf
      then buf[0 := be_bytes 2 ident ! 0, 1 := be_bytes 2 ident ! 1]
      else buf)"

fun split_dots :: "string \<Rightarrow> string list" where
  "split_dots [] = [[]]"
| "split_dots (c # s) =
     (if c = CHR ''.'' then [] # split_dots s
      else case split_dots s of [] \<Rightarrow> [[c]] | l # ls \<Rightarrow> (c # l) # ls)"

definition trim_end_dots :: "string \<Rightarrow> string" where
  "trim_end_dots s = rev (dropWhile (\<lambda>c. c = CHR ''.'') (rev s))"

definition is_ascii :: "string \<Rightarrow> bool" where
  "is_ascii s \<longleftrightarrow> list_all (\<lambda>c. byte_of c < 0x80) s"

definition write_label :: "string \<Rightarrow> string + bytes" where
  "write_label label =
     (if label = [] \<or> 63 < length label \<or> \<not> is_ascii label then Err ''invalid DNS test name''
      else Ok (word_of_nat (length label) # as_bytes label))"

definition build_query :: "nat \<Rightarrow> string \<Rightarrow> nat \<Rightarrow> string + bytes" where
  "build_query ident full_name qtype =
     (let name = trim_end_dots full_name in
      if name = [] \<or> 253 < length name then Err ''invalid DNS test name''
      else
        and_then
          (try_fold (\<lambda>query label. and_then (write_label label) (\<lambda>bs. Ok (query @ bs)))
             (be_bytes 2 ident @ [0x01, 0x00] @ be_bytes 2 1 @ [0, 0, 0, 0, 0, 0])
             (split_dots name))
          (\<lambda>query. Ok (query @ [0] @ be_bytes 2 qtype @ be_bytes 2 1)))"

section \<open>A built query reads back\<close>

definition enc_labels :: "string list \<Rightarrow> bytes" where
  "enc_labels labels = concat (map (\<lambda>l. word_of_nat (length l) # as_bytes l) labels) @ [0]"

definition label_ok :: "string \<Rightarrow> bool" where
  "label_ok l \<longleftrightarrow> l \<noteq> [] \<and> length l \<le> 63 \<and> is_ascii l"

lemma from_utf8_as_bytes: "is_ascii s \<Longrightarrow> from_utf8 (as_bytes s) = Some s"
  by (rule from_utf8_ascii) (auto simp: is_ascii_def list_all_iff)

lemma not_pointer: "n \<le> 63 \<Longrightarrow> (word_of_nat n :: u8) AND 0xC0 \<noteq> 0xC0"
proof -
  assume "n \<le> 63"
  then have "n \<in> set [0 ..< 64]" by simp
  moreover have "list_all (\<lambda>n. (word_of_nat n :: u8) AND 0xC0 \<noteq> 0xC0) [0 ..< 64]"
    by code_simp
  ultimately show ?thesis by (auto dest: list_allD)
qed

lemma parse_labels_root: "pos < length buf \<Longrightarrow> buf ! pos = 0 \<Longrightarrow> parse_labels buf pos = Some ([], pos + 1)"
  by (subst parse_labels.simps) (simp add: Let_def)

lemma parse_labels_label:
  assumes "pos + length l < length buf" and "buf ! pos = word_of_nat (length l)"
    and "take (length l) (drop (pos + 1) buf) = as_bytes l" and "label_ok l"
  shows "parse_labels buf pos =
    map_option (\<lambda>(ls, end). (to_ascii_lowercase l # ls, end)) (parse_labels buf (pos + 1 + length l))"
proof -
  have "unat (word_of_nat (length l) :: u8) = length l"
    using assms(4) by (simp add: label_ok_def unat_of_nat)
  then show ?thesis
    using assms not_pointer [of "length l"]
    by (subst parse_labels.simps) (auto simp: Let_def label_ok_def from_utf8_as_bytes)
qed

lemma enc_labels_simps [simp]:
  "enc_labels [] = [0]"
  "enc_labels (l # ls) = word_of_nat (length l) # as_bytes l @ enc_labels ls"
  by (simp_all add: enc_labels_def)

lemma parse_labels_enc:
  "list_all label_ok ls \<Longrightarrow>
     parse_labels (pre @ enc_labels ls @ rest) (length pre) =
       Some (map to_ascii_lowercase ls, length pre + length (enc_labels ls))"
proof (induction ls arbitrary: pre)
  case Nil
  then show ?case by (simp add: parse_labels_root)
next
  case (Cons l ls)
  let ?buf = "pre @ enc_labels (l # ls) @ rest"
  have "parse_labels ?buf (length pre) =
      map_option (\<lambda>(ls, end). (to_ascii_lowercase l # ls, end)) (parse_labels ?buf (length pre + 1 + length l))"
    using Cons.prems by (intro parse_labels_label) (simp_all add: nth_append)
  moreover have "parse_labels ?buf (length pre + 1 + length l) =
      Some (map to_ascii_lowercase ls, length pre + 1 + length l + length (enc_labels ls))"
    using Cons.IH [of "pre @ word_of_nat (length l) # as_bytes l"] Cons.prems by simp
  ultimately show ?case by simp
qed

interpretation labels: prefix_codec "list_all (\<lambda>l. label_ok l \<and> to_ascii_lowercase l = l)" enc_labels "\<lambda>buf. parse_labels buf 0"
proof
  fix ls rest assume ok: "list_all (\<lambda>l. label_ok l \<and> to_ascii_lowercase l = l) ls"
  then have "map to_ascii_lowercase ls = ls" by (induction ls) auto
  moreover have "list_all label_ok ls" using ok by (simp add: list_all_iff)
  ultimately show "parse_labels (enc_labels ls @ rest) 0 = Some (ls, length (enc_labels ls))"
    using parse_labels_enc [of ls "[]" rest] by simp
qed

lemma try_fold_labels:
  "try_fold (\<lambda>query label. and_then (write_label label) (\<lambda>bs. Inr (query @ bs))) acc ls =
     (if list_all label_ok ls then Inr (acc @ concat (map (\<lambda>l. word_of_nat (length l) # as_bytes l) ls))
      else Inl ''invalid DNS test name'')"
  by (induction ls arbitrary: acc) (auto simp: write_label_def label_ok_def)

lemma join_split_dots: "join ''.'' (split_dots s) = s"
proof (induction s)
  case (Cons c s)
  have "split_dots s \<noteq> []" by (induction s) (auto split: list.splits)
  then show ?case
    using Cons by (cases "split_dots s"; cases "tl (split_dots s)") auto
qed simp

definition query_header :: "nat \<Rightarrow> bytes" where
  "query_header ident = be_bytes 2 ident @ [0x01, 0x00] @ be_bytes 2 1 @ [0, 0, 0, 0, 0, 0]"

lemma build_query_Inr_iff:
  "build_query ident full_name qtype = Inr q \<longleftrightarrow>
     trim_end_dots full_name \<noteq> [] \<and> length (trim_end_dots full_name) \<le> 253 \<and>
     list_all label_ok (split_dots (trim_end_dots full_name)) \<and>
     q = query_header ident @ enc_labels (split_dots (trim_end_dots full_name)) @ be_bytes 2 qtype @ be_bytes 2 1"
  unfolding build_query_def Let_def try_fold_labels
  by (auto simp: query_header_def enc_labels_def)

text \<open>
  A query the agent builds is a valid DNS query; its question reads back as the name asked for, in
  lower case and without trailing dots, with the type asked for, and ends where the query ends, whatever
  follows it. A name is refused exactly when it is empty, too long, or has an empty, long or non-ASCII
  label.
\<close>

theorem build_query_roundtrip:
  "(\<forall>q rest. build_query ident full_name qtype = Inr q \<longrightarrow>
      is_valid_query (q @ rest) \<and>
      parse_question (q @ rest) =
        Some (to_ascii_lowercase (trim_end_dots full_name), qtype mod 65536, length q) \<and>
      u16_at q 0 = ident mod 65536) \<and>
   ((\<exists>q. build_query ident full_name qtype = Inr q) \<longleftrightarrow>
      trim_end_dots full_name \<noteq> [] \<and> length (trim_end_dots full_name) \<le> 253 \<and>
      list_all label_ok (split_dots (trim_end_dots full_name)))"
proof (intro conjI allI impI)
  show "(\<exists>q. build_query ident full_name qtype = Inr q) \<longleftrightarrow>
      trim_end_dots full_name \<noteq> [] \<and> length (trim_end_dots full_name) \<le> 253 \<and>
      list_all label_ok (split_dots (trim_end_dots full_name))"
    by (simp add: build_query_Inr_iff)
  fix q rest assume "build_query ident full_name qtype = Inr q"
  then have q: "q = query_header ident @ enc_labels (split_dots (trim_end_dots full_name)) @ be_bytes 2 qtype @ be_bytes 2 1"
    and ok: "list_all label_ok (split_dots (trim_end_dots full_name))"
    by (simp_all add: build_query_Inr_iff)
  have head: "length (query_header ident) = 12" by (simp add: query_header_def)
  have two: "be_bytes 2 v = [word_of_nat (v div 256), word_of_nat v]" for v
    by (simp add: be_bytes_def upt_rec numeral_2_eq_2)
  show "is_valid_query (q @ rest)"
    by (simp add: q is_valid_query_def query_header_def two u16_at_def be_value_def nth_append)
  have value2: "be_value [word_of_nat (v div 256), word_of_nat v] = v mod 65536" for v
    using be_value_be_bytes [of 2 v] by (simp add: two)
  show "u16_at q 0 = ident mod 65536"
    using value2 [of ident] by (simp add: q u16_at_def query_header_def two)
  let ?ls = "split_dots (trim_end_dots full_name)"
  have "parse_labels (q @ rest) 12 = Some (map to_ascii_lowercase ?ls, 12 + length (enc_labels ?ls))"
    using parse_labels_enc [OF ok, of "query_header ident" "be_bytes 2 qtype @ be_bytes 2 1 @ rest"]
    by (simp add: q head)
  moreover have "u16_at (q @ rest) (12 + length (enc_labels ?ls)) = qtype mod 65536"
    using value2 [of qtype] by (simp add: q u16_at_def nth_append head two)
  ultimately show "parse_question (q @ rest) =
      Some (to_ascii_lowercase (trim_end_dots full_name), qtype mod 65536, length q)"
    by (simp add: parse_question_def q head join_map_lower join_split_dots)
qed

theorem build_query_roundtrip_witness:
  "\<exists>q. build_query 0x1234 ''Example.COM.'' 1 = Inr q \<and>
     parse_question q = Some (''example.com'', 1, length q)"
proof -
  have name: "trim_end_dots ''Example.COM.'' = ''Example.COM''" by (simp add: trim_end_dots_def)
  have ok: "list_all label_ok (split_dots ''Example.COM'')"
    by (simp add: label_ok_def is_ascii_def byte_of_def)
  obtain q where q: "build_query 0x1234 ''Example.COM.'' 1 = Inr q"
    using build_query_roundtrip [where ident = "0x1234" and full_name = "''Example.COM.''" and qtype = 1] ok by (auto simp: name)
  have "to_ascii_lowercase ''Example.COM'' = ''example.com''"
    by code_simp
  with q build_query_roundtrip [where ident = "0x1234" and full_name = "''Example.COM.''" and qtype = 1] show ?thesis
    by (metis append_Nil2 mod_less name numeral_One one_less_numeral_iff semiring_norm(76))
qed

section \<open>The time to live of a response\<close>

text \<open>
  A well-formed packet: questions, then records, each with a name that may end in a compression
  pointer. The specification of \<open>extract_min_ttl\<close> is over these.
\<close>

datatype dns_name = Labels "string list" | Pointing "string list" u8 u8

fun name_ok :: "dns_name \<Rightarrow> bool" where
  "name_ok (Labels ls) \<longleftrightarrow> list_all label_ok ls \<and> length ls < 128"
| "name_ok (Pointing ls hi lo) \<longleftrightarrow> list_all label_ok ls \<and> length ls < 128 \<and> hi AND 0xC0 = 0xC0"

definition label_bytes :: "string list \<Rightarrow> bytes" where
  "label_bytes ls = concat (map (\<lambda>l. word_of_nat (length l) # as_bytes l) ls)"

fun enc_name :: "dns_name \<Rightarrow> bytes" where
  "enc_name (Labels ls) = label_bytes ls @ [0]"
| "enc_name (Pointing ls hi lo) = label_bytes ls @ [hi, lo]"

record dns_question =
  q_name :: dns_name
  q_type :: nat
  q_class :: nat

record dns_record =
  rr_name :: dns_name
  rr_type :: nat
  rr_class :: nat
  rr_ttl :: nat
  rr_data :: bytes

definition enc_question :: "dns_question \<Rightarrow> bytes" where
  "enc_question q = enc_name (q_name q) @ be_bytes 2 (q_type q) @ be_bytes 2 (q_class q)"

definition enc_record :: "dns_record \<Rightarrow> bytes" where
  "enc_record r = enc_name (rr_name r) @ be_bytes 2 (rr_type r) @ be_bytes 2 (rr_class r) @
     be_bytes 4 (rr_ttl r) @ be_bytes 2 (length (rr_data r)) @ rr_data r"

definition record_ok :: "dns_record \<Rightarrow> bool" where
  "record_ok r \<longleftrightarrow> name_ok (rr_name r) \<and> rr_ttl r < 2 ^ 32 \<and> length (rr_data r) < 65536"

definition enc_packet :: "nat \<Rightarrow> nat \<Rightarrow> dns_question list \<Rightarrow> dns_record list \<Rightarrow> dns_record list \<Rightarrow> dns_record list \<Rightarrow> bytes" where
  "enc_packet ident flags qs an ns ar =
     be_bytes 2 ident @ be_bytes 2 flags @ be_bytes 2 (length qs) @ be_bytes 2 (length an) @
     be_bytes 2 (length ns) @ be_bytes 2 (length ar) @
     concat (map enc_question qs) @ concat (map enc_record (an @ ns @ ar))"

lemma skip_labels_through:
  assumes "list_all label_ok ls" and "length ls \<le> fuel"
  shows "skip_labels fuel (pre @ label_bytes ls @ rest) (length pre) =
    skip_labels (fuel - length ls) (pre @ label_bytes ls @ rest) (length pre + length (label_bytes ls))"
  using assms
proof (induction ls arbitrary: pre fuel)
  case (Cons l ls)
  then obtain fuel' where fuel: "fuel = Suc fuel'" by (cases fuel) auto
  have len: "length l \<le> 63" "length l \<noteq> 0" using Cons.prems by (simp_all add: label_ok_def)
  have n: "unat (word_of_nat (length l) :: u8) = length l" using len by (simp add: unat_of_nat)
  then have nz: "(word_of_nat (length l) :: u8) \<noteq> 0" using len by (metis unat_0)
  let ?buf = "pre @ label_bytes (l # ls) @ rest"
  have "skip_labels fuel ?buf (length pre) = skip_labels fuel' ?buf (length pre + 1 + length l)"
    using not_pointer [OF len(1)] nz n by (simp add: fuel label_bytes_def nth_append)
  also have "\<dots> = skip_labels (fuel' - length ls) ?buf (length pre + 1 + length l + length (label_bytes ls))"
    using Cons.IH [of fuel' "pre @ word_of_nat (length l) # as_bytes l"] Cons.prems fuel
    by (simp add: label_bytes_def)
  finally show ?case by (simp add: fuel label_bytes_def ac_simps)
qed (simp add: label_bytes_def)

lemma skip_name_enc:
  assumes "name_ok n"
  shows "skip_name (pre @ enc_name n @ rest) (length pre) = Some (length pre + length (enc_name n))"
proof (cases n)
  case (Labels ls)
  then have "length ls < 128" using assms by simp
  then have "128 - length ls = Suc (127 - length ls)" by arith
  with assms Labels skip_labels_through [of ls 128 pre "0 # rest"] show ?thesis
    by (simp add: skip_name_def nth_append)
next
  case (Pointing ls hi lo)
  then have "length ls < 128" using assms by simp
  then have "128 - length ls = Suc (127 - length ls)" by arith
  moreover have "hi \<noteq> 0" using assms Pointing by auto
  ultimately show ?thesis
    using assms Pointing skip_labels_through [of ls 128 pre "hi # lo # rest"]
    by (simp add: skip_name_def nth_append)
qed

lemma be_bytes_2: "be_bytes 2 v = [word_of_nat (v div 256), word_of_nat v]"
  by (simp add: be_bytes_def upt_rec numeral_2_eq_2)

lemma be_bytes_4:
  "be_bytes 4 v = [word_of_nat (v div 16777216), word_of_nat (v div 65536), word_of_nat (v div 256), word_of_nat v]"
  unfolding be_bytes_def by (simp add: upt_rec)

lemma u16_at_be_bytes:
  assumes "n = length pre"
  shows "u16_at (pre @ be_bytes 2 v @ rest) n = v mod 65536"
proof -
  have "u16_at (pre @ be_bytes 2 v @ rest) n = be_value (be_bytes 2 v)"
    unfolding u16_at_def assms be_bytes_2 by (simp add: nth_append)
  then show ?thesis using be_value_be_bytes [of 2 v] by simp
qed

lemma u32_at_be_bytes:
  assumes "n = length pre"
  shows "u32_at (pre @ be_bytes 4 v @ rest) n = v mod 2 ^ 32"
proof -
  have "u32_at (pre @ be_bytes 4 v @ rest) n = be_value (be_bytes 4 v)"
    unfolding u32_at_def assms be_bytes_4 by (simp add: nth_append)
  then show ?thesis using be_value_be_bytes [of 4 v] by simp
qed

lemma length_enc_name_pos: "0 < length (enc_name n)"
  by (cases n) simp_all

lemma min_ttl_record:
  assumes "record_ok r" and "buf = pre @ enc_record r @ rest"
  shows "min_ttl_of (Suc n) buf (length pre) best = min_ttl_of n buf (length (pre @ enc_record r)) (min (rr_ttl r) best)"
proof -
  let ?fixed = "pre @ enc_name (rr_name r) @ be_bytes 2 (rr_type r) @ be_bytes 2 (rr_class r)"
  let ?tail = "rr_data r @ rest"
  define after where "after = length pre + length (enc_name (rr_name r))"
  have ok: "name_ok (rr_name r)" "rr_ttl r < 2 ^ 32" "length (rr_data r) < 65536"
    using assms(1) by (simp_all add: record_ok_def)
  have buf: "buf = ?fixed @ be_bytes 4 (rr_ttl r) @ be_bytes 2 (length (rr_data r)) @ ?tail"
    unfolding assms(2) enc_record_def append_assoc ..
  have name: "skip_name buf (length pre) = Some after"
    unfolding after_def assms(2) enc_record_def append_assoc by (rule skip_name_enc [OF ok(1)])
  have "u32_at buf (after + 4) = rr_ttl r mod 2 ^ 32"
    unfolding buf by (rule u32_at_be_bytes) (simp add: after_def)
  then have ttl: "u32_at buf (after + 4) = rr_ttl r" using ok(2) by simp
  have "buf = (?fixed @ be_bytes 4 (rr_ttl r)) @ be_bytes 2 (length (rr_data r)) @ ?tail"
    unfolding buf append_assoc ..
  then have "u16_at buf (after + 8) = length (rr_data r) mod 65536"
    by (simp only:) (rule u16_at_be_bytes, simp add: after_def)
  then have len: "u16_at buf (after + 8) = length (rr_data r)" using ok(3) by simp
  have "length buf = after + 10 + length (rr_data r) + length rest"
    by (simp add: buf after_def)
  then have inside: "\<not> length buf < after + 10" "\<not> length buf < after + (10 + length (rr_data r))"
    by simp_all
  have "min_ttl_of (Suc n) buf (length pre) best =
      min_ttl_of n buf (after + (10 + length (rr_data r))) (if rr_ttl r < best then rr_ttl r else best)"
    by (subst min_ttl_of.simps(2)) (simp only: name ttl len inside option.case Let_def if_False)
  moreover have "after + (10 + length (rr_data r)) = length (pre @ enc_record r)"
    by (simp add: after_def enc_record_def)
  moreover have "(if rr_ttl r < best then rr_ttl r else best) = min (rr_ttl r) best" by (simp add: min_def)
  ultimately show ?thesis by (simp only:)
qed

lemma min_ttl_records:
  "list_all record_ok rrs \<Longrightarrow>
     min_ttl_of (length rrs) (pre @ concat (map enc_record rrs) @ rest) (length pre) best =
       Some (fold (\<lambda>r b. min (rr_ttl r) b) rrs best)"
proof (induction rrs arbitrary: pre best)
  case (Cons r rrs)
  let ?buf = "pre @ concat (map enc_record (r # rrs)) @ rest"
  have "min_ttl_of (length (r # rrs)) ?buf (length pre) best =
      min_ttl_of (length rrs) ?buf (length (pre @ enc_record r)) (min (rr_ttl r) best)"
    unfolding list.size(4) add_Suc_right add_0_right
    using Cons.prems by (intro min_ttl_record [where rest = "concat (map enc_record rrs) @ rest"]) simp_all
  also have "\<dots> = Some (fold (\<lambda>r b. min (rr_ttl r) b) rrs (min (rr_ttl r) best))"
    using Cons.IH [of "pre @ enc_record r"] Cons.prems by simp
  finally show ?case by simp
qed simp

lemma skip_questions_enc:
  "list_all (\<lambda>q. name_ok (q_name q)) qs \<Longrightarrow>
     skip_questions (length qs) (pre @ concat (map enc_question qs) @ rest) (length pre) =
       Inr (length pre + length (concat (map enc_question qs)))"
proof (induction qs arbitrary: pre)
  case (Cons q qs)
  have "skip_name (pre @ concat (map enc_question (q # qs)) @ rest) (length pre) =
      Some (length pre + length (enc_name (q_name q)))"
    using Cons.prems skip_name_enc [of "q_name q" pre] by (simp add: enc_question_def [of q])
  with Cons.IH [of "pre @ enc_question q"] Cons.prems show ?case
    by (simp add: enc_question_def [of q] add.assoc)
qed simp

lemma fold_min_eq: "fold (\<lambda>r b. min (f r) b) rs (best :: nat) = Min (insert best (f ` set rs))"
proof (induction rs arbitrary: best)
  case (Cons r rs)
  have "Min (insert (min (f r) best) (f ` set rs)) = Min (insert best (insert (f r) (f ` set rs)))"
    by (cases "f ` set rs = {}") (simp_all add: min.commute min.left_commute)
  with Cons [of "min (f r) best"] show ?case by simp
qed simp

lemma extract_min_ttl_eq:
  assumes "list_all record_ok (an @ ns @ ar)" and "list_all (\<lambda>q. name_ok (q_name q)) qs"
    and "length qs < 65536" and "length an < 65536" and "length ns < 65536" and "length ar < 65536"
    and "an @ ns @ ar \<noteq> []"
  shows "extract_min_ttl (enc_packet ident flags qs an ns ar) =
    (let ttl = Min (insert u32_top (rr_ttl ` set (an @ ns @ ar))) in if ttl = u32_top then 0 else ttl)"
proof -
  define header where "header = be_bytes 2 ident @ be_bytes 2 flags @ be_bytes 2 (length qs) @
      be_bytes 2 (length an) @ be_bytes 2 (length ns) @ be_bytes 2 (length ar)"
  define buf where "buf = enc_packet ident flags qs an ns ar"
  have buf: "buf = header @ concat (map enc_question qs) @ concat (map enc_record (an @ ns @ ar))"
    by (simp add: buf_def header_def enc_packet_def)
  have head: "length header = 12" by (simp add: header_def)
  have counts: "u16_at buf 4 = length qs" "u16_at buf 6 = length an" "u16_at buf 8 = length ns" "u16_at buf 10 = length ar"
    using u16_at_be_bytes [of 4 "be_bytes 2 ident @ be_bytes 2 flags" "length qs"]
      u16_at_be_bytes [of 6 "be_bytes 2 ident @ be_bytes 2 flags @ be_bytes 2 (length qs)" "length an"]
      u16_at_be_bytes [of 8 "be_bytes 2 ident @ be_bytes 2 flags @ be_bytes 2 (length qs) @ be_bytes 2 (length an)" "length ns"]
      u16_at_be_bytes [of 10 "be_bytes 2 ident @ be_bytes 2 flags @ be_bytes 2 (length qs) @ be_bytes 2 (length an) @
         be_bytes 2 (length ns)" "length ar"] assms(3-6)
    by (simp_all add: buf header_def)
  have "skip_questions (length qs) buf 12 = Inr (12 + length (concat (map enc_question qs)))"
    using skip_questions_enc [OF assms(2), of header] by (simp add: buf head)
  moreover have "min_ttl_of (length (an @ ns @ ar)) buf (12 + length (concat (map enc_question qs))) u32_top =
      Some (Min (insert u32_top (rr_ttl ` set (an @ ns @ ar))))"
    using min_ttl_records [OF assms(1), of "header @ concat (map enc_question qs)" "[]" u32_top]
    unfolding fold_min_eq buf append_assoc length_append head append_Nil2 .
  moreover have "\<not> length buf < 12" by (simp add: buf head)
  moreover have "length an + length ns + length ar = length (an @ ns @ ar)" by simp
  moreover have "length (an @ ns @ ar) \<noteq> 0" using assms(7) by simp
  ultimately have "extract_min_ttl_inner buf =
      Some (let ttl = Min (insert u32_top (rr_ttl ` set (an @ ns @ ar))) in if ttl = u32_top then 0 else ttl)"
    unfolding extract_min_ttl_inner_def counts Let_def by (simp only: if_False sum.case option.map)
  then show ?thesis by (simp only: extract_min_ttl_def option.case flip: buf_def)
qed

text \<open>With no record in any section there is nothing to read, whatever follows the header.\<close>

lemma extract_min_ttl_empty:
  assumes "length qs < 65536"
  shows "extract_min_ttl (enc_packet ident flags qs [] [] []) = 0"
proof -
  define buf where "buf = enc_packet ident flags qs [] [] []"
  have buf: "buf = be_bytes 2 ident @ be_bytes 2 flags @ be_bytes 2 (length qs) @ be_bytes 2 0 @ be_bytes 2 0 @ be_bytes 2 0 @
      concat (map enc_question qs)"
    by (simp add: buf_def enc_packet_def)
  have "u16_at buf 6 = 0" "u16_at buf 8 = 0" "u16_at buf 10 = 0"
    using u16_at_be_bytes [of 6 "be_bytes 2 ident @ be_bytes 2 flags @ be_bytes 2 (length qs)" 0]
      u16_at_be_bytes [of 8 "be_bytes 2 ident @ be_bytes 2 flags @ be_bytes 2 (length qs) @ be_bytes 2 0" 0]
      u16_at_be_bytes [of 10 "be_bytes 2 ident @ be_bytes 2 flags @ be_bytes 2 (length qs) @ be_bytes 2 0 @ be_bytes 2 0" 0]
    by (simp_all add: buf)
  then have "extract_min_ttl_inner buf = Some 0 \<or> extract_min_ttl_inner buf = None"
    by (auto simp: extract_min_ttl_inner_def Let_def)
  then show ?thesis unfolding buf_def [symmetric] by (auto simp: extract_min_ttl_def)
qed

text \<open>
  C35: the time to live read from a well-formed response is the least of those of all its records, with
  or without compressed names; it is 0 when the response has no record and when every one lives the
  largest possible time. So a response with an EDNS OPT record whose flags are clear, which travels in the
  place of the time to live, counts as living 0 seconds.
\<close>

theorem extract_min_ttl_spec:
  assumes "list_all record_ok (an @ ns @ ar)" and "list_all (\<lambda>q. name_ok (q_name q)) qs"
    and "length qs < 65536" and "length an < 65536" and "length ns < 65536" and "length ar < 65536"
  shows "extract_min_ttl (enc_packet ident flags qs an ns ar) =
      (if an @ ns @ ar = [] \<or> Min (rr_ttl ` set (an @ ns @ ar)) = u32_top then 0 else Min (rr_ttl ` set (an @ ns @ ar))) \<and>
    (r \<in> set ar \<and> rr_type r = 41 \<and> rr_ttl r = 0 \<longrightarrow>
       extract_min_ttl (enc_packet ident flags qs an ns ar) = 0)"
proof (cases "an @ ns @ ar = []")
  case True
  then show ?thesis using extract_min_ttl_empty [OF assms(3)] by simp
next
  case False
  let ?T = "rr_ttl ` set (an @ ns @ ar)"
  have fin: "finite ?T" "?T \<noteq> {}" using False by (simp_all del: set_append)
  then have "Min ?T \<in> ?T" by (rule Min_in)
  then obtain x where x: "x \<in> set (an @ ns @ ar)" "Min ?T = rr_ttl x" by (auto simp del: set_append)
  then have "rr_ttl x < 2 ^ 32" using list_allD [OF assms(1)] by (simp add: record_ok_def del: set_append)
  then have "Min ?T \<le> u32_top" unfolding x(2) u32_top_def by linarith
  then have "Min (insert u32_top ?T) = Min ?T" using fin by (simp del: set_append)
  moreover have "Min ?T = 0" if "r \<in> set ar" "rr_ttl r = 0"
    using that fin by (intro le_0_eq [THEN iffD1] Min_le [THEN order_trans]) auto
  moreover have "extract_min_ttl (enc_packet ident flags qs an ns ar) = (if Min ?T = u32_top then 0 else Min ?T)"
    using extract_min_ttl_eq [OF assms False, of ident flags] \<open>Min (insert u32_top ?T) = Min ?T\<close> by (simp add: Let_def del: set_append)
  ultimately show ?thesis using False by (simp only: if_False simp_thms) simp
qed

definition demo_answer :: dns_record where
  "demo_answer = \<lparr>rr_name = Pointing [] 0xC0 0x0C, rr_type = 1, rr_class = 1, rr_ttl = 300, rr_data = [10, 0, 0, 1]\<rparr>"

definition demo_opt :: dns_record where
  "demo_opt = \<lparr>rr_name = Labels [], rr_type = 41, rr_class = 1232, rr_ttl = 0, rr_data = []\<rparr>"

definition demo_question :: dns_question where
  "demo_question = \<lparr>q_name = Labels [''a'', ''b''], q_type = 1, q_class = 1\<rparr>"

theorem extract_min_ttl_spec_witness:
  "extract_min_ttl (enc_packet 7 0x8180 [demo_question] [demo_answer] [] []) = 300 \<and>
   extract_min_ttl (enc_packet 7 0x8180 [demo_question] [demo_answer] [] [demo_opt]) = 0 \<and>
   extract_min_ttl (enc_packet 7 0x8183 [demo_question] [] [] []) = 0"
proof -
  have ok: "record_ok demo_answer" "record_ok demo_opt" "name_ok (q_name demo_question)"
    by (simp_all add: record_ok_def demo_answer_def demo_opt_def demo_question_def label_ok_def is_ascii_def byte_of_def)
  show ?thesis
    using extract_min_ttl_spec [of "[demo_answer]" "[]" "[]" "[demo_question]" 7 "0x8180" demo_answer]
      extract_min_ttl_spec [of "[demo_answer]" "[]" "[demo_opt]" "[demo_question]" 7 "0x8180" demo_opt]
      extract_min_ttl_spec [of "[]" "[]" "[]" "[demo_question]" 7 "0x8183" demo_opt] ok
    by (simp add: demo_answer_def demo_opt_def u32_top_def)
qed

text \<open>What a parsed question says of its position: it is inside the packet.\<close>

lemma parse_labels_bounds: "parse_labels buf pos = Some (ls, end) \<Longrightarrow> pos < end \<and> end \<le> length buf"
proof (induction buf pos arbitrary: ls "end" rule: parse_labels.induct)
  case (1 buf pos)
  show ?case
  proof (cases "length buf \<le> pos \<or> unat (buf ! pos) = 0")
    case True
    with "1.prems" show ?thesis by (auto simp: parse_labels.simps [of buf pos] Let_def split: if_splits)
  next
    case False
    with "1.prems" obtain label ls' where
      "from_utf8 (take (unat (buf ! pos)) (drop (pos + 1) buf)) = Some label"
      "parse_labels buf (pos + 1 + unat (buf ! pos)) = Some (ls', end)"
      "\<not> length buf < pos + 1 + unat (buf ! pos)" "buf ! pos AND 0xC0 \<noteq> 0xC0"
      by (auto simp: parse_labels.simps [of buf pos] Let_def split: if_splits option.splits)
    with False "1.IH" [OF _ refl refl refl] show ?thesis by fastforce
  qed
qed

lemma parse_question_bounds:
  "parse_question buf = Some (name, qtype, pos) \<Longrightarrow> pos \<le> length buf \<and> 16 < pos \<and> 12 \<le> length buf"
  by (auto simp: parse_question_def split: if_splits option.splits prod.splits dest!: parse_labels_bounds)

end
