(* ===== verification/Dns_Proxy.thy ===== *)
theory Dns_Proxy
  imports Dns_Packet Boot_Clock
begin

text \<open>
  \<open>src/zte-agent/src/doh/cache.rs\<close> and the query path of \<open>doh/mod.rs\<close>: the answer cache of the
  encrypted-DNS proxy, the listener's decision on a datagram, a worker's handling of a query and a
  change of network. The map's iteration order is not specified, so the order in which an eviction
  looks at the entries is a parameter (\<open>order\<close>); a time is a number of nanoseconds (\<open>Instant\<close>).

  The lemmas show what the cache returns and for how long, its bound, and what a change of network
  does to it, step by step: the check and the insertion of a worker are two steps.
\<close>

section \<open>The cache\<close>

type_synonym dns_key = "string \<times> nat"

record cache_entry =
  ce_response :: bytes
  ce_expires :: nat

record dns_cache =
  dc_entries :: "(dns_key \<times> cache_entry) list"
  max_entries :: nat

definition cache_new :: "nat \<Rightarrow> dns_cache" where
  "cache_new n = \<lparr>dc_entries = [], max_entries = n\<rparr>"

definition cache_get :: "nat \<Rightarrow> string \<Rightarrow> nat \<Rightarrow> nat \<Rightarrow> dns_cache \<Rightarrow> bytes option" where
  "cache_get now qname qtype client_id c =
     (case map_of (dc_entries c) (qname, qtype) of
        None \<Rightarrow> None
      | Some e \<Rightarrow> if ce_expires e \<le> now then None else Some (rewrite_id (ce_response e) client_id))"

definition cache_prune :: "nat \<Rightarrow> dns_cache \<Rightarrow> dns_cache" where
  "cache_prune now c = c\<lparr>dc_entries := filter (\<lambda>(k, e). now < ce_expires e) (dc_entries c)\<rparr>"

definition cache_remove :: "dns_key \<Rightarrow> dns_cache \<Rightarrow> dns_cache" where
  "cache_remove k c = c\<lparr>dc_entries := filter (\<lambda>(k', e). k' \<noteq> k) (dc_entries c)\<rparr>"

definition oldest_key :: "((dns_key \<times> cache_entry) list \<Rightarrow> (dns_key \<times> cache_entry) list) \<Rightarrow> dns_cache \<Rightarrow> dns_key option" where
  "oldest_key order c =
     (let es = order (dc_entries c)
      in map_option (\<lambda>i. fst (es ! i)) (min_index_by (\<lambda>_. True) (\<lambda>(k, e). ce_expires e) es))"

definition effective_ttl :: "bytes \<Rightarrow> nat \<Rightarrow> nat" where
  "effective_ttl response ttl =
     (if 4 \<le> length response
      then let rcode = response ! 3 AND 0x0F in if rcode = 2 \<or> rcode = 3 then min ttl 60 else ttl
      else ttl)"

definition make_room :: "((dns_key \<times> cache_entry) list \<Rightarrow> (dns_key \<times> cache_entry) list) \<Rightarrow> nat \<Rightarrow> dns_cache \<Rightarrow> dns_cache" where
  "make_room order now c =
     (let c = (if max_entries c \<le> length (dc_entries c) then cache_prune now c else c)
      in if max_entries c \<le> length (dc_entries c)
         then (case oldest_key order c of None \<Rightarrow> c | Some k \<Rightarrow> cache_remove k c)
         else c)"

definition cache_put :: "dns_key \<Rightarrow> cache_entry \<Rightarrow> dns_cache \<Rightarrow> dns_cache" where
  "cache_put k e c = c\<lparr>dc_entries := (k, e) # filter (\<lambda>(k', e). k' \<noteq> k) (dc_entries c)\<rparr>"

definition cache_insert :: "((dns_key \<times> cache_entry) list \<Rightarrow> (dns_key \<times> cache_entry) list) \<Rightarrow> nat \<Rightarrow> string \<Rightarrow> nat \<Rightarrow>
    bytes \<Rightarrow> nat \<Rightarrow> dns_cache \<Rightarrow> dns_cache" where
  "cache_insert order now qname qtype response ttl c =
     (let c = make_room order now c;
          stored = rewrite_id response 0;
          ttl = effective_ttl response ttl
      in if ttl = 0 then c
         else cache_put (qname, qtype) \<lparr>ce_response = stored, ce_expires = now + from_secs ttl\<rparr> c)"

definition list_entries :: "nat \<Rightarrow> dns_cache \<Rightarrow> (string \<times> nat \<times> nat) list" where
  "list_entries now c =
     map (\<lambda>((qname, qtype), e). (qname, qtype, dur_as_secs (ce_expires e - now)))
       (filter (\<lambda>(k, e). now < ce_expires e) (dc_entries c))"

definition cache_clear :: "dns_cache \<Rightarrow> dns_cache" where
  "cache_clear c = c\<lparr>dc_entries := []\<rparr>"

section \<open>The proxy\<close>

text \<open>
  The network generation and the counters are \<open>u64\<close> in the code and numbers here: they rise by one at a time.
  \<open>network_changed\<close> is the whole method; \<open>Dns_Service\<close> has its two halves as separate steps.
\<close>

record dns_proxy =
  px_cache :: dns_cache
  generation :: nat
  queries_total :: nat
  cache_hits :: nat
  cache_misses :: nat

text \<open>A job's source is the address its answer goes to, of which the proxy knows nothing else.\<close>

record query_job =
  job_query :: bytes
  job_qname :: string
  job_qtype :: nat
  job_client :: nat
  job_source :: nat

datatype heard = Ignored | Answer bytes | Queued query_job

definition servfail :: "bytes \<Rightarrow> bytes" where
  "servfail query = (if 4 \<le> length query then query[2 := 0x81, 3 := 0x82] else query)"

text \<open>
  The listener on a datagram: \<open>room\<close> says whether the bounded queue of the workers takes the job
  (\<open>try_send\<close>); when it does not, the asker gets a failure at once.
\<close>

definition listen :: "bool \<Rightarrow> nat \<Rightarrow> nat \<Rightarrow> bytes \<Rightarrow> dns_proxy \<Rightarrow> heard \<times> dns_proxy" where
  "listen room now source query px =
     (if \<not> is_valid_query query then (Ignored, px)
      else case parse_question query of
        None \<Rightarrow> (Ignored, px)
      | Some (qname, qtype, _) \<Rightarrow>
          let client_id = u16_at query 0 in
          (case cache_get now qname qtype client_id (px_cache px) of
             Some cached \<Rightarrow>
               (Answer cached, px\<lparr>cache_hits := cache_hits px + 1, queries_total := queries_total px + 1\<rparr>)
           | None \<Rightarrow>
               let px = px\<lparr>queries_total := queries_total px + 1\<rparr>;
                   job = \<lparr>job_query = query, job_qname = qname, job_qtype = qtype, job_client = client_id,
                     job_source = source\<rparr>
               in if room then (Queued job, px)
                  else (Answer (servfail query), px\<lparr>cache_misses := cache_misses px + 1\<rparr>)))"

text \<open>
  A worker's query in the steps between which another thread may run: it looks in the cache and notes
  the generation; the upstream's answer arrives and the generation is compared; the answer is cached
  and sent.
\<close>

datatype worker = Start query_job | Waiting query_job nat | Accepted query_job bytes | Done query_job bytes

definition look_up :: "nat \<Rightarrow> query_job \<Rightarrow> dns_proxy \<Rightarrow> worker \<times> dns_proxy" where
  "look_up now job px =
     (case cache_get now (job_qname job) (job_qtype job) (job_client job) (px_cache px) of
        Some cached \<Rightarrow> (Done job cached, px\<lparr>cache_hits := cache_hits px + 1\<rparr>)
      | None \<Rightarrow> (Waiting job (generation px), px\<lparr>cache_misses := cache_misses px + 1\<rparr>))"

definition compare_generation :: "query_job \<Rightarrow> nat \<Rightarrow> bytes option \<Rightarrow> dns_proxy \<Rightarrow> worker" where
  "compare_generation job noted upstream px =
     (case upstream of
        Some response \<Rightarrow>
          if generation px = noted then Accepted job response else Done job (servfail (job_query job))
      | None \<Rightarrow> Done job (servfail (job_query job)))"

definition store_answer :: "((dns_key \<times> cache_entry) list \<Rightarrow> (dns_key \<times> cache_entry) list) \<Rightarrow> bool \<Rightarrow> nat \<Rightarrow>
    query_job \<Rightarrow> bytes \<Rightarrow> dns_proxy \<Rightarrow> dns_proxy" where
  "store_answer order cache_enabled now job response px =
     (if cache_enabled
      then px\<lparr>px_cache := cache_insert order now (job_qname job) (job_qtype job) response
                (extract_min_ttl response) (px_cache px)\<rparr>
      else px)"

definition network_changed :: "dns_proxy \<Rightarrow> dns_proxy" where
  "network_changed px = px\<lparr>generation := generation px + 1, px_cache := cache_clear (px_cache px)\<rparr>"

section \<open>Lookups\<close>

lemma map_of_filter_key: "map_of (filter (\<lambda>(k', e). k' \<noteq> k) es) k' = (if k' = k then None else map_of es k')"
  by (induction es) auto

lemma length_filter_key_less:
  "k \<in> fst ` set es \<Longrightarrow> length (filter (\<lambda>(k', e). k' \<noteq> k) es) < length es"
  by (induction es) (auto simp: less_Suc_eq_le Suc_le_eq image_iff split: prod.splits)

definition cache_ok :: "dns_cache \<Rightarrow> bool" where
  "cache_ok c \<longleftrightarrow> distinct (map fst (dc_entries c)) \<and> length (dc_entries c) \<le> max_entries c"

definition reorders :: "('a list \<Rightarrow> 'a list) \<Rightarrow> bool" where
  "reorders order \<longleftrightarrow> (\<forall>es. mset (order es) = mset es)"

lemma max_entries_keep [simp]:
  "max_entries (cache_prune now c) = max_entries c"
  "max_entries (cache_remove k c) = max_entries c"
  "max_entries (cache_put k e c) = max_entries c"
  by (simp_all add: cache_prune_def cache_remove_def cache_put_def)

lemma max_entries_make_room [simp]: "max_entries (make_room order now c) = max_entries c"
  by (simp add: make_room_def Let_def split: option.split)

lemma distinct_filter_keys: "distinct (map fst es) \<Longrightarrow> distinct (map fst (filter p es))"
  by (simp add: distinct_map_filter)

lemma make_room_sub: "set (dc_entries (make_room order now c)) \<subseteq> set (dc_entries c)"
  by (auto simp: make_room_def Let_def cache_prune_def cache_remove_def split: option.splits)

lemma oldest_key_in:
  assumes "reorders order" and "oldest_key order c = Some k"
  shows "k \<in> fst ` set (dc_entries c)"
proof -
  have "set (order (dc_entries c)) = set (dc_entries c)"
    using assms(1) by (metis reorders_def set_mset_mset)
  with assms(2) show ?thesis
    by (auto simp: oldest_key_def Let_def dest!: min_index_by_SomeD intro: nth_mem)
qed

lemma oldest_key_None:
  assumes "reorders order" and "oldest_key order c = None"
  shows "dc_entries c = []"
proof -
  have "set (order (dc_entries c)) = set (dc_entries c)"
    using assms(1) by (metis reorders_def set_mset_mset)
  moreover have "order (dc_entries c) = []"
    using assms(2) by (simp add: oldest_key_def Let_def)
  ultimately show ?thesis by simp
qed

lemma make_room_ok:
  assumes "cache_ok c" and "reorders order" and "0 < max_entries c"
  shows "distinct (map fst (dc_entries (make_room order now c))) \<and>
     length (dc_entries (make_room order now c)) < max_entries c"
proof -
  define c1 where "c1 = (if max_entries c \<le> length (dc_entries c) then cache_prune now c else c)"
  have c1: "distinct (map fst (dc_entries c1))" "length (dc_entries c1) \<le> max_entries c" "max_entries c1 = max_entries c"
    using assms(1) by (auto simp: c1_def cache_ok_def cache_prune_def distinct_filter_keys
        intro: order_trans [OF length_filter_le])
  show ?thesis
  proof (cases "max_entries c1 \<le> length (dc_entries c1)")
    case False
    then have "make_room order now c = c1" by (simp add: make_room_def Let_def flip: c1_def)
    with False c1 show ?thesis by simp
  next
    case True
    then obtain k where k: "oldest_key order c1 = Some k"
      using assms(2,3) c1(3) oldest_key_None [of order c1] by (cases "oldest_key order c1") auto
    have "make_room order now c = cache_remove k c1"
      using True k by (simp add: make_room_def Let_def flip: c1_def)
    moreover have "length (dc_entries (cache_remove k c1)) < length (dc_entries c1)"
      using length_filter_key_less [OF oldest_key_in [OF assms(2) k]] by (simp add: cache_remove_def)
    ultimately show ?thesis using c1 by (simp add: cache_remove_def distinct_filter_keys)
  qed
qed

lemma cache_put_ok:
  "distinct (map fst (dc_entries c)) \<Longrightarrow> length (dc_entries c) < max_entries c \<Longrightarrow> cache_ok (cache_put k e c)"
  by (auto simp: cache_ok_def cache_put_def distinct_filter_keys intro: le_trans [OF Suc_leI [OF le_less_trans [OF length_filter_le]]])

lemma cache_insert_ok:
  "cache_ok c \<Longrightarrow> reorders order \<Longrightarrow> 0 < max_entries c \<Longrightarrow> cache_ok (cache_insert order now qname qtype response ttl c)"
  using make_room_ok [of c order now]
  by (auto simp: cache_insert_def Let_def intro: cache_put_ok) (simp add: cache_ok_def)

lemma length_rewrite_id [simp]: "length (rewrite_id buf i) = length buf"
  by (simp add: rewrite_id_def)

lemma rewrite_rewrite_id: "rewrite_id (rewrite_id buf i) j = rewrite_id buf j"
  by (cases buf; cases "tl buf") (auto simp: rewrite_id_def)

lemma cache_get_after_insert_eq:
  assumes "0 < effective_ttl response ttl"
  shows "cache_get t qname qtype ident (cache_insert order now qname qtype response ttl c) =
      (if t < now + from_secs (effective_ttl response ttl) then Some (rewrite_id response ident) else None)"
  using assms by (simp add: cache_get_def cache_insert_def Let_def cache_put_def rewrite_rewrite_id)

text \<open>
  An answer put into the cache is what the next lookup of its name and type returns, with the
  asker's transaction id and otherwise unchanged, until exactly its time to live has passed, at most
  a minute for a failure or a name that does not exist; and the cache stays within its bound and never
  holds two answers to one question.
\<close>

theorem cache_get_after_insert:
  assumes "cache_ok c" and "reorders order" and "0 < max_entries c" and "0 < effective_ttl response ttl"
  shows "cache_get t qname qtype ident (cache_insert order now qname qtype response ttl c) =
      (if t < now + from_secs (effective_ttl response ttl) then Some (rewrite_id response ident) else None) \<and>
    cache_ok (cache_insert order now qname qtype response ttl c) \<and>
    effective_ttl response ttl \<le> ttl \<and>
    (4 \<le> length response \<and> response ! 3 AND 0x0F \<in> {2, 3} \<longrightarrow> effective_ttl response ttl \<le> 60)"
proof -
  show ?thesis
    using cache_get_after_insert_eq [OF assms(4)] cache_insert_ok [OF assms(1-3)] by (auto simp: effective_ttl_def Let_def)
qed

theorem cache_get_after_insert_witness:
  "cache_get 5 ''a'' 1 9 (cache_insert (\<lambda>es. es) 0 ''a'' 1 [1, 2, 0x81, 0x80, 5] 300 (cache_new 2)) =
     Some [0, 9, 0x81, 0x80, 5]"
proof -
  have "effective_ttl [1, 2, 0x81, 0x80, 5] 300 = 300" by (simp add: effective_ttl_def)
  with cache_get_after_insert [of "cache_new 2" "\<lambda>es. es" "[1, 2, 0x81, 0x80, 5]" 300 5 "''a''" 1 9 0]
  show ?thesis
    by (simp add: cache_ok_def cache_new_def reorders_def from_secs_def rewrite_id_def be_bytes_2)
qed

section \<open>A change of network\<close>

fun network_changes :: "nat \<Rightarrow> dns_proxy \<Rightarrow> dns_proxy" where
  "network_changes 0 px = px"
| "network_changes (Suc n) px = network_changes n (network_changed px)"

lemma generation_network_changes: "generation (network_changes n px) = generation px + n"
  by (induction n arbitrary: px) (simp_all add: network_changed_def)

lemma entries_network_changes: "0 < n \<Longrightarrow> dc_entries (px_cache (network_changes n px)) = []"
proof (induction n arbitrary: px)
  case (Suc n)
  show ?case
  proof (cases "n = 0")
    case True
    then show ?thesis by (simp add: network_changed_def cache_clear_def)
  next
    case False
    with Suc.IH [of "network_changed px"] show ?thesis by simp
  qed
qed simp

text \<open>
  C36: what a change of network does to a query under way. A change before the answer is compared makes
  the proxy refuse it; a change after it was stored removes it; but one in between, after the
  comparison and before the insertion, leaves the old network's answer in the cache, where queries on
  the new network find it (the comparison and the insertion are not one step).
\<close>

theorem network_change_and_answers:
  assumes "cache_ok (px_cache px)" and "reorders order" and "0 < max_entries (px_cache px)"
    and "0 < effective_ttl response (extract_min_ttl response)"
    and "t < now + from_secs (effective_ttl response (extract_min_ttl response))"
  shows "(0 < n \<longrightarrow> compare_generation job (generation px) (Some response) (network_changes n px) =
       Done job (servfail (job_query job))) \<and>
    (0 < n \<longrightarrow> cache_get t qname qtype ident
       (px_cache (network_changes n (store_answer order enabled now job response px))) = None) \<and>
    (compare_generation job (generation px) (Some response) px = Accepted job response \<and>
     cache_get t (job_qname job) (job_qtype job) ident
       (px_cache (store_answer order True now job response (network_changed px))) = Some (rewrite_id response ident))"
proof (intro conjI impI)
  show "compare_generation job (generation px) (Some response) (network_changes n px) = Done job (servfail (job_query job))"
    if "0 < n"
    using that by (simp add: compare_generation_def generation_network_changes)
  have empty: "0 < n \<Longrightarrow> dc_entries (px_cache (network_changes n p)) = []" for p
    by (rule entries_network_changes)
  show "cache_get t qname qtype ident
       (px_cache (network_changes n (store_answer order enabled now job response px))) = None" if "0 < n"
    using empty [OF that] by (simp add: cache_get_def)
  show "compare_generation job (generation px) (Some response) px = Accepted job response"
    by (simp add: compare_generation_def)
  have "cache_ok (px_cache (network_changed px))" "max_entries (px_cache (network_changed px)) = max_entries (px_cache px)"
    by (simp_all add: network_changed_def cache_clear_def cache_ok_def)
  then show "cache_get t (job_qname job) (job_qtype job) ident
       (px_cache (store_answer order True now job response (network_changed px))) = Some (rewrite_id response ident)"
    using cache_get_after_insert_eq [OF assms(4)] assms(5)
    by (simp add: store_answer_def)
qed

definition demo_job :: query_job where
  "demo_job = \<lparr>job_query = [], job_qname = ''a.b'', job_qtype = 1, job_client = 7, job_source = 0\<rparr>"

theorem network_change_and_answers_witness:
  "\<exists>response. cache_get 5 ''a.b'' 1 9 (px_cache (store_answer (\<lambda>es. es) True 0 demo_job response
     (network_changed \<lparr>px_cache = cache_new 2, generation = 4, queries_total = 0, cache_hits = 0, cache_misses = 0\<rparr>)))
   = Some (rewrite_id response 9)"
proof -
  let ?px = "\<lparr>px_cache = cache_new 2, generation = 4, queries_total = 0, cache_hits = 0, cache_misses = 0\<rparr>"
  let ?r = "enc_packet 7 0x8180 [demo_question] [demo_answer] [] []"
  have ok: "record_ok demo_answer" "name_ok (q_name demo_question)"
    by (simp_all add: record_ok_def demo_answer_def demo_question_def label_ok_def is_ascii_def byte_of_def)
  have ttl: "extract_min_ttl ?r = 300"
    using extract_min_ttl_eq [of "[demo_answer]" "[]" "[]" "[demo_question]" 7 "0x8180"] ok
    by (simp add: demo_answer_def u32_top_def Let_def)
  have "?r ! 3 = 0x80" by (simp add: enc_packet_def be_bytes_2)
  then have "effective_ttl ?r 300 = 300" by (simp add: effective_ttl_def)
  with ttl network_change_and_answers [of ?px "\<lambda>es. es" ?r 5 0 0 demo_job "[]" 0 9 True]
  show ?thesis
    by (intro exI [of _ ?r]) (simp add: cache_ok_def cache_new_def reorders_def from_secs_def demo_job_def)
qed

end
