(* ===== verification/Dns_Service.thy ===== *)
theory Dns_Service
  imports Dns_Proxy "HOL-Library.Multiset"
begin

text \<open>
  The running encrypted-DNS proxy (\<open>zte-agent/src/doh/mod.rs\<close>): the listener thread, the bounded queue
  and the query workers around the shared proxy state, as a step relation in which any of the threads
  may move next and the network may change at any moment. What a datagram holds, what the upstream
  answers and when a step happens are the step's own.
\<close>

definition QUERY_WORKERS :: nat where "QUERY_WORKERS = 8"

definition QUERY_QUEUE_CAPACITY :: nat where "QUERY_QUEUE_CAPACITY = 256"

record service =
  proxy :: dns_proxy
  waiting_jobs :: "query_job list"
  busy :: "worker list"
  sent :: "(nat \<times> bytes) list"

definition hear :: "nat \<Rightarrow> heard \<times> dns_proxy \<Rightarrow> service \<Rightarrow> service" where
  "hear source r sv =
     (let sv = sv\<lparr>proxy := snd r\<rparr>
      in case fst r of
           Ignored \<Rightarrow> sv
         | Answer b \<Rightarrow> sv\<lparr>sent := sent sv @ [(source, b)]\<rparr>
         | Queued job \<Rightarrow> sv\<lparr>waiting_jobs := waiting_jobs sv @ [job]\<rparr>)"

text \<open>What is seen from outside: a datagram, what the upstream made of a query, anything else.\<close>

datatype dns_event = Datagram nat bytes | Upstream bytes "bytes option" | Quiet

text \<open>
  A datagram's job may be refused because the queue is full or because its workers are gone. A change of
  network counts the generation up and clears the cache, with other threads' steps between the two
  (\<open>generation_up\<close>, then \<open>clear_cache\<close>).
\<close>

inductive service_step :: "service \<Rightarrow> dns_event \<Rightarrow> service \<Rightarrow> bool" where
  datagram: "room \<longrightarrow> length (waiting_jobs sv) < QUERY_QUEUE_CAPACITY \<Longrightarrow>
    service_step sv (Datagram source query) (hear source (listen room now source query (proxy sv)) sv)"
| take_job: "waiting_jobs sv = job # js \<Longrightarrow> length (busy sv) < QUERY_WORKERS \<Longrightarrow>
    service_step sv Quiet (sv\<lparr>waiting_jobs := js, busy := Start job # busy sv\<rparr>)"
| look: "busy sv = ws @ Start job # vs \<Longrightarrow> look_up now job (proxy sv) = (w, px) \<Longrightarrow>
    service_step sv Quiet (sv\<lparr>busy := ws @ w # vs, proxy := px\<rparr>)"
| compare: "busy sv = ws @ Waiting job noted # vs \<Longrightarrow>
    service_step sv (Upstream (job_query job) upstream)
      (sv\<lparr>busy := ws @ compare_generation job noted upstream (proxy sv) # vs\<rparr>)"
| store: "busy sv = ws @ Accepted job response # vs \<Longrightarrow> reorders order \<Longrightarrow>
    service_step sv Quiet (sv\<lparr>busy := ws @ Done job response # vs,
      proxy := store_answer order cache_enabled now job response (proxy sv)\<rparr>)"
| send: "busy sv = ws @ Done job b # vs \<Longrightarrow>
    service_step sv Quiet (sv\<lparr>busy := ws @ vs, sent := sent sv @ [(job_source job, b)]\<rparr>)"
| generation_up: "service_step sv Quiet (sv\<lparr>proxy := (proxy sv)\<lparr>generation := generation (proxy sv) + 1\<rparr>\<rparr>)"
| clear_cache: "service_step sv Quiet (sv\<lparr>proxy := (proxy sv)\<lparr>px_cache := cache_clear (px_cache (proxy sv))\<rparr>\<rparr>)"
| update_config: "service_step sv Quiet (sv\<lparr>proxy := (proxy sv)\<lparr>px_cache := cache_prune now (px_cache (proxy sv))\<rparr>\<rparr>)"

definition started :: "dns_proxy \<Rightarrow> service" where
  "started px = \<lparr>proxy = px, waiting_jobs = [], busy = [], sent = []\<rparr>"

definition fresh_proxy :: "nat \<Rightarrow> dns_proxy" where
  "fresh_proxy entries = \<lparr>px_cache = cache_new entries, generation = 0, queries_total = 0, cache_hits = 0, cache_misses = 0\<rparr>"

inductive service_run :: "nat \<Rightarrow> dns_event list \<Rightarrow> service \<Rightarrow> bool" for entries where
  start: "service_run entries [] (started (fresh_proxy entries))"
| step: "service_run entries es sv \<Longrightarrow> service_step sv e sv' \<Longrightarrow> service_run entries (es @ [e]) sv'"

section \<open>Who asked, and what was answered\<close>

definition question :: "bytes \<Rightarrow> (string \<times> nat) option" where
  "question query = map_option (\<lambda>(qname, qtype, pos). (qname, qtype)) (parse_question query)"

text \<open>The queries the proxy takes, with their askers: the datagrams that hold a query with a question.\<close>

fun taken :: "dns_event \<Rightarrow> (nat \<times> bytes) option" where
  "taken (Datagram source query) = (if is_valid_query query \<and> question query \<noteq> None then Some (source, query) else None)"
| "taken _ = None"

definition asked :: "dns_event list \<Rightarrow> (nat \<times> bytes) list" where
  "asked es = List.map_filter taken es"

text \<open>A reply: who is answered, which query, with what, and whether the statistics tell it as a hit.\<close>

type_synonym reply = "nat \<times> bytes \<times> bytes \<times> bool"

definition right_answer :: "dns_event list \<Rightarrow> reply \<Rightarrow> bool" where
  "right_answer es = (\<lambda>(source, query, answer, hit).
     if hit then \<exists>query' response. Upstream query' (Some response) \<in> set es \<and> question query' = question query \<and>
         answer = rewrite_id response (u16_at query 0)
     else answer = servfail query \<or> Upstream query (Some answer) \<in> set es)"

definition asker :: "query_job \<Rightarrow> nat \<times> bytes" where
  "asker job = (job_source job, job_query job)"

fun job_of :: "worker \<Rightarrow> query_job" where
  "job_of (Start job) = job"
| "job_of (Waiting job _) = job"
| "job_of (Accepted job _) = job"
| "job_of (Done job _) = job"

definition is_hit :: "reply \<Rightarrow> bool" where
  "is_hit = (\<lambda>(source, query, answer, hit). hit)"

section \<open>The invariant\<close>

text \<open>How a worker's query is counted: not yet, as a hit, or as a miss.\<close>

fun marked :: "dns_event list \<Rightarrow> worker \<Rightarrow> bool option \<Rightarrow> bool" where
  "marked es (Start job) m \<longleftrightarrow> m = None"
| "marked es (Waiting job _) m \<longleftrightarrow> m = Some False"
| "marked es (Accepted job r) m \<longleftrightarrow> m = Some False \<and> Upstream (job_query job) (Some r) \<in> set es"
| "marked es (Done job b) m \<longleftrightarrow> (\<exists>hit. m = Some hit \<and> right_answer es (job_source job, job_query job, b, hit))"

definition job_ok :: "query_job \<Rightarrow> bool" where
  "job_ok job \<longleftrightarrow> question (job_query job) = Some (job_qname job, job_qtype job) \<and> job_client job = u16_at (job_query job) 0"

definition cache_known :: "dns_event list \<Rightarrow> dns_cache \<Rightarrow> bool" where
  "cache_known es c \<longleftrightarrow>
     (\<forall>(k, e) \<in> set (dc_entries c). \<exists>query r. Upstream query (Some r) \<in> set es \<and> question query = Some k \<and> ce_response e = rewrite_id r 0)"

definition told :: "dns_event list \<Rightarrow> service \<Rightarrow> reply list \<Rightarrow> bool option list \<Rightarrow> bool" where
  "told es sv replies marks \<longleftrightarrow>
     map (\<lambda>(source, query, answer, hit). (source, answer)) replies = sent sv \<and>
     mset (map (\<lambda>(source, query, answer, hit). (source, query)) replies) +
       mset (map asker (waiting_jobs sv)) + mset (map (\<lambda>w. asker (job_of w)) (busy sv)) = mset (asked es) \<and>
     list_all (right_answer es) replies \<and> list_all2 (marked es) (busy sv) marks \<and>
     list_all job_ok (waiting_jobs sv) \<and> list_all (\<lambda>w. job_ok (job_of w)) (busy sv) \<and>
     cache_known es (px_cache (proxy sv)) \<and>
     cache_hits (proxy sv) = length (filter is_hit replies) + count_list marks (Some True) \<and>
     cache_misses (proxy sv) = length (filter (\<lambda>r. \<not> is_hit r) replies) + count_list marks (Some False) \<and>
     queries_total (proxy sv) = length (asked es)"

definition within_bounds :: "nat \<Rightarrow> service \<Rightarrow> bool" where
  "within_bounds entries sv \<longleftrightarrow>
     length (waiting_jobs sv) \<le> QUERY_QUEUE_CAPACITY \<and> length (busy sv) \<le> QUERY_WORKERS \<and>
     max_entries (px_cache (proxy sv)) = entries \<and> (0 < entries \<longrightarrow> cache_ok (px_cache (proxy sv)))"

lemma asked_snoc: "asked (es @ [e]) = asked es @ (case taken e of None \<Rightarrow> [] | Some a \<Rightarrow> [a])"
  by (simp add: asked_def List.map_filter_def split: option.split)

lemma right_answer_later: "right_answer es r \<Longrightarrow> right_answer (es @ [e]) r"
  by (auto simp: right_answer_def split: if_splits)

lemma marked_later: "marked es w m \<Longrightarrow> marked (es @ [e]) w m"
  by (cases w) (auto intro: right_answer_later)

lemma cache_known_later: "cache_known es c \<Longrightarrow> cache_known (es @ [e]) c"
  unfolding cache_known_def by fastforce

lemma told_later:
  assumes "told es sv replies marks" and "taken e = None"
  shows "told (es @ [e]) sv replies marks"
proof -
  have "list_all2 (marked (es @ [e])) (busy sv) marks" "list_all (right_answer (es @ [e])) replies"
    using assms(1) by (auto simp: told_def intro: list_all2_mono marked_later list.pred_mono_strong right_answer_later)
  then show ?thesis using assms by (simp add: told_def asked_snoc cache_known_later)
qed

lemma known_get:
  assumes "cache_known es c" and "cache_get now qname qtype ident c = Some b"
  shows "\<exists>query r. Upstream query (Some r) \<in> set es \<and> question query = Some (qname, qtype) \<and> b = rewrite_id r ident"
proof -
  obtain e where e: "map_of (dc_entries c) (qname, qtype) = Some e" "b = rewrite_id (ce_response e) ident"
    using assms(2) by (auto simp: cache_get_def split: option.splits if_splits)
  from map_of_SomeD [OF e(1)] assms(1) obtain query r where
    "Upstream query (Some r) \<in> set es" "question query = Some (qname, qtype)" "ce_response e = rewrite_id r 0"
    unfolding cache_known_def by fast
  with e(2) show ?thesis by (auto simp: rewrite_rewrite_id)
qed

lemma known_hit:
  assumes "cache_known es c" and "cache_get now (job_qname job) (job_qtype job) (job_client job) c = Some b" and "job_ok job"
  shows "right_answer es (job_source job, job_query job, b, True)"
  using known_get [OF assms(1,2)] assms(3) by (auto simp: right_answer_def job_ok_def)

lemma known_insert:
  assumes "cache_known es c" and "Upstream query (Some r) \<in> set es" and "question query = Some (qname, qtype)"
  shows "cache_known es (cache_insert order now qname qtype r ttl c)"
proof -
  have "cache_known es (make_room order now c)" using assms(1) make_room_sub [of order now c] by (auto simp: cache_known_def)
  with assms(2,3) show ?thesis by (auto simp: cache_insert_def Let_def cache_put_def cache_known_def)
qed

lemma known_fewer: "cache_known es c \<Longrightarrow> cache_known es (cache_prune now c)" "cache_known es (cache_clear c)"
  by (auto simp: cache_known_def cache_prune_def cache_clear_def)

lemma store_answer_keeps [simp]:
  "queries_total (store_answer order on now job r px) = queries_total px"
  "cache_hits (store_answer order on now job r px) = cache_hits px"
  "cache_misses (store_answer order on now job r px) = cache_misses px"
  by (simp_all add: store_answer_def)

text \<open>What the listener makes of a datagram, by cases.\<close>

lemma listen_cases:
  obtains (ignored) "taken (Datagram source query) = None" "listen room now source query px = (Ignored, px)"
  | (hit) job b where "taken (Datagram source query) = Some (source, query)" "job_ok job" "asker job = (source, query)"
      "cache_get now (job_qname job) (job_qtype job) (job_client job) (px_cache px) = Some b"
      "listen room now source query px = (Answer b, px\<lparr>cache_hits := cache_hits px + 1, queries_total := queries_total px + 1\<rparr>)"
  | (queued) job where "taken (Datagram source query) = Some (source, query)" "job_ok job" "asker job = (source, query)" "room"
      "listen room now source query px = (Queued job, px\<lparr>queries_total := queries_total px + 1\<rparr>)"
  | (refused) "taken (Datagram source query) = Some (source, query)"
      "listen room now source query px =
        (Answer (servfail query), px\<lparr>queries_total := queries_total px + 1, cache_misses := cache_misses px + 1\<rparr>)"
proof (cases "is_valid_query query \<and> question query \<noteq> None")
  case False
  then have "taken (Datagram source query) = None" "listen room now source query px = (Ignored, px)"
    by (cases "parse_question query"; auto simp: listen_def question_def)+
  then show ?thesis by (rule ignored)
next
  case True
  then obtain qname qtype pos where q: "parse_question query = Some (qname, qtype, pos)"
    by (auto simp: question_def)
  define job where "job = \<lparr>job_query = query, job_qname = qname, job_qtype = qtype, job_client = u16_at query 0, job_source = source\<rparr>"
  have job: "job_ok job" "asker job = (source, query)" by (simp_all add: job_def job_ok_def asker_def question_def q)
  have t: "taken (Datagram source query) = Some (source, query)" using True by simp
  show ?thesis
  proof (cases "cache_get now qname qtype (u16_at query 0) (px_cache px)")
    case (Some b)
    show ?thesis by (rule hit [OF t job, of b]) (use True q Some in \<open>simp_all add: job_def listen_def Let_def\<close>)
  next
    case None
    show ?thesis
    proof (cases room)
      case r: True
      show ?thesis by (rule queued [OF t job r]) (use True q None r in \<open>simp add: job_def listen_def Let_def\<close>)
    next
      case False
      show ?thesis by (rule refused [OF t]) (use True q None False in \<open>simp add: listen_def Let_def\<close>)
    qed
  qed
qed

lemma told_datagram:
  assumes "told es sv replies marks"
  shows "\<exists>replies'. told (es @ [Datagram source query]) (hear source (listen room now source query (proxy sv)) sv) replies' marks"
proof -
  let ?e = "Datagram source query"
  have later: "list_all2 (marked (es @ [?e])) (busy sv) marks" "list_all (right_answer (es @ [?e])) replies"
    "cache_known (es @ [?e]) (px_cache (proxy sv))"
    using assms by (auto simp: told_def intro: list_all2_mono marked_later list.pred_mono_strong right_answer_later cache_known_later)
  show ?thesis
  proof (cases rule: listen_cases [of source query room now "proxy sv"])
    case ignored
    then have "told (es @ [?e]) (hear source (listen room now source query (proxy sv)) sv) replies marks"
      using told_later [OF assms] by (simp add: hear_def)
    then show ?thesis ..
  next
    case (hit job b)
    have "right_answer (es @ [?e]) (source, query, b, True)"
      using known_hit [OF later(3) hit(4,2)] hit(3) by (simp add: asker_def)
    then have "told (es @ [?e]) (hear source (listen room now source query (proxy sv)) sv) (replies @ [(source, query, b, True)]) marks"
      using assms later hit(1,5) by (simp add: told_def hear_def asked_snoc is_hit_def del: taken.simps)
    then show ?thesis ..
  next
    case (queued job)
    then have "told (es @ [?e]) (hear source (listen room now source query (proxy sv)) sv) replies marks"
      using assms later by (simp add: told_def hear_def asked_snoc del: taken.simps)
    then show ?thesis ..
  next
    case refused
    have "right_answer (es @ [?e]) (source, query, servfail query, False)" by (simp add: right_answer_def)
    then have "told (es @ [?e]) (hear source (listen room now source query (proxy sv)) sv)
        (replies @ [(source, query, servfail query, False)]) marks"
      using assms later refused by (simp add: told_def hear_def asked_snoc is_hit_def del: taken.simps)
    then show ?thesis ..
  qed
qed

text \<open>A worker's step changes its own entry only.\<close>

lemma told_worker:
  assumes told: "told es sv replies (ms @ m # ns)" and busy: "busy sv = ws @ w # vs" and len: "length ms = length ws"
    and job: "job_of w' = job_of w" and w': "marked es w' m'" and cache: "cache_known es (px_cache px)"
    and total: "queries_total px = queries_total (proxy sv)"
    and hits: "cache_hits px + count_list [m] (Some True) = cache_hits (proxy sv) + count_list [m'] (Some True)"
    and misses: "cache_misses px + count_list [m] (Some False) = cache_misses (proxy sv) + count_list [m'] (Some False)"
  shows "told es (sv\<lparr>busy := ws @ w' # vs, proxy := px\<rparr>) replies (ms @ m' # ns)"
proof -
  have "list_all2 (marked es) (ws @ w # vs) (ms @ m # ns)" using told busy by (simp add: told_def)
  then have "list_all2 (marked es) (ws @ w' # vs) (ms @ m' # ns)" using len w' by (simp add: list_all2_append)
  moreover have "count_list (ms @ m # ns) x + count_list [m'] x = count_list (ms @ m' # ns) x + count_list [m] x" for x
    by simp
  note this [of "Some True"] this [of "Some False"]
  ultimately show ?thesis
    using told hits misses unfolding told_def
    by (simp add: busy job cache total del: count_list.simps)
qed

lemma marks_split:
  assumes told: "told es sv replies marks" and busy: "busy sv = ws @ w # vs"
  obtains ms m ns where "marks = ms @ m # ns" "length ms = length ws" "marked es w m"
proof -
  have "list_all2 (marked es) (ws @ w # vs) marks" using told busy by (simp add: told_def)
  then show thesis by (auto simp: list_all2_append1 list_all2_Cons1 intro: that)
qed

lemma told_quiet: "told es sv replies marks \<Longrightarrow> \<exists>replies marks. told (es @ [Quiet]) sv replies marks"
  using told_later [of es sv replies marks Quiet] by auto

lemma job_split: "told es sv replies marks \<Longrightarrow> busy sv = ws @ w # vs \<Longrightarrow> job_ok (job_of w)"
  by (simp add: told_def)

lemma told_step:
  assumes "service_step sv e sv'" and "told es sv replies marks"
  shows "\<exists>replies marks. told (es @ [e]) sv' replies marks"
  using assms(1)
proof (cases rule: service_step.cases)
  case (datagram room source query now)
  then show ?thesis using told_datagram [OF assms(2)] by blast
next
  case (take_job job js)
  then have "told es sv' replies (None # marks)" using assms(2) by (simp add: told_def add_ac)
  then show ?thesis unfolding take_job(1) by (rule told_quiet)
next
  case (look ws job vs now w px)
  obtain ms m ns where ms: "marks = ms @ m # ns" "length ms = length ws" "marked es (Start job) m"
    using marks_split [OF assms(2) look(3)] by blast
  have known: "cache_known es (px_cache (proxy sv))" using assms(2) by (simp add: told_def)
  have "\<exists>m'. told es sv' replies (ms @ m' # ns)"
  proof (cases "cache_get now (job_qname job) (job_qtype job) (job_client job) (px_cache (proxy sv))")
    case None
    with look(4) have "w = Waiting job (generation (proxy sv))" "px = (proxy sv)\<lparr>cache_misses := cache_misses (proxy sv) + 1\<rparr>"
      by (simp_all add: look_up_def)
    then show ?thesis
      using told_worker [OF assms(2) [unfolded ms(1)] look(3) ms(2), of w "Some False" px] known ms(3) look(2) by auto
  next
    case (Some b)
    have "right_answer es (job_source job, job_query job, b, True)"
      using known_hit [OF known Some] job_split [OF assms(2) look(3)] by simp
    moreover have "w = Done job b" "px = (proxy sv)\<lparr>cache_hits := cache_hits (proxy sv) + 1\<rparr>"
      using look(4) Some by (simp_all add: look_up_def)
    ultimately show ?thesis
      using told_worker [OF assms(2) [unfolded ms(1)] look(3) ms(2), of w "Some True" px] known ms(3) look(2) by auto
  qed
  then show ?thesis unfolding look(1) using told_quiet by blast
next
  case (compare ws job noted vs upstream)
  let ?w = "compare_generation job noted upstream (proxy sv)"
  have later: "told (es @ [e]) sv replies marks" using told_later [OF assms(2)] compare(1) by simp
  obtain ms m ns where ms: "marks = ms @ m # ns" "length ms = length ws" "marked (es @ [e]) (Waiting job noted) m"
    using marks_split [OF later compare(3)] by blast
  have "job_of ?w = job" "marked (es @ [e]) ?w (Some False)"
    using compare(1) by (auto simp: compare_generation_def right_answer_def split: option.split)
  then have "told (es @ [e]) (sv\<lparr>busy := ws @ ?w # vs, proxy := proxy sv\<rparr>) replies (ms @ Some False # ns)"
    using told_worker [OF later [unfolded ms(1)] compare(3) ms(2), of ?w "Some False" "proxy sv"] ms(3) later
    by (simp add: told_def [of _ sv])
  then show ?thesis using compare(2) by auto
next
  case (store ws job response vs order cache_enabled now)
  let ?px = "store_answer order cache_enabled now job response (proxy sv)"
  obtain ms m ns where ms: "marks = ms @ m # ns" "length ms = length ws" "marked es (Accepted job response) m"
    using marks_split [OF assms(2) store(3)] by blast
  have "cache_known es (px_cache ?px)"
    using known_insert [of es "px_cache (proxy sv)" "job_query job" response] ms(3) assms(2) job_split [OF assms(2) store(3)]
    by (simp add: store_answer_def job_ok_def told_def)
  moreover have "m = Some False" "marked es (Done job response) (Some False)" using ms(3) by (auto simp: right_answer_def)
  ultimately have "told es sv' replies (ms @ Some False # ns)"
    using told_worker [OF assms(2) [unfolded ms(1)] store(3) ms(2), of "Done job response" "Some False" ?px] store(2)
    by (simp del: marked.simps)
  then show ?thesis unfolding store(1) by (rule told_quiet)
next
  case (send ws job b vs)
  obtain ms m ns where ms: "marks = ms @ m # ns" "length ms = length ws" "marked es (Done job b) m"
    using marks_split [OF assms(2) send(3)] by blast
  from ms(3) obtain hit where hit: "m = Some hit" "right_answer es (job_source job, job_query job, b, hit)" by auto
  have "list_all2 (marked es) (ws @ Done job b # vs) (ms @ m # ns)" using assms(2) send(3) ms(1) by (simp add: told_def)
  then have "list_all2 (marked es) (ws @ vs) (ms @ ns)" using ms(2) by (simp add: list_all2_append)
  then have "told es sv' (replies @ [(job_source job, job_query job, b, hit)]) (ms @ ns)"
    using assms(2) ms(1) hit unfolding told_def
    by (cases hit) (simp_all add: send(2,3) is_hit_def asker_def)
  then show ?thesis unfolding send(1) by (rule told_quiet)
next
  case generation_up
  then have "told es sv' replies marks" using assms(2) by (simp add: told_def)
  then show ?thesis unfolding generation_up(1) by (rule told_quiet)
next
  case clear_cache
  then have "told es sv' replies marks" using assms(2) by (simp add: told_def known_fewer)
  then show ?thesis unfolding clear_cache(1) by (rule told_quiet)
next
  case (update_config now)
  then have "told es sv' replies marks" using assms(2) by (simp add: told_def known_fewer)
  then show ?thesis unfolding update_config(1) by (rule told_quiet)
qed

lemma max_entries_insert [simp]:
  "max_entries (cache_insert order now qname qtype response ttl c) = max_entries c"
  by (simp add: cache_insert_def Let_def)

lemma cache_ok_clear [simp]: "cache_ok (cache_clear c)" "max_entries (cache_clear c) = max_entries c"
  by (simp_all add: cache_ok_def cache_clear_def)

lemma cache_ok_prune: "cache_ok c \<Longrightarrow> cache_ok (cache_prune now c)"
  by (auto simp: cache_ok_def cache_prune_def distinct_map_filter intro: le_trans [OF length_filter_le])

lemma within_hear:
  assumes "within_bounds entries sv" and "room \<longrightarrow> length (waiting_jobs sv) < QUERY_QUEUE_CAPACITY"
  shows "within_bounds entries (hear source (listen room now source query (proxy sv)) sv)"
  using assms
  by (cases rule: listen_cases [of source query room now "proxy sv"]) (simp_all add: hear_def within_bounds_def)

lemma within_step:
  assumes "service_step sv e sv'" and "within_bounds entries sv"
  shows "within_bounds entries sv'"
  using assms
proof (cases rule: service_step.cases)
  case (datagram room source query now)
  then show ?thesis using within_hear [OF assms(2) datagram(3)] by simp
next
  case (look ws job vs now w px)
  then show ?thesis using assms(2) by (auto simp: within_bounds_def look_up_def split: option.splits)
next
  case (store ws job response vs order cache_enabled now)
  then show ?thesis
    using assms(2) by (auto simp: within_bounds_def store_answer_def intro: cache_insert_ok)
qed (auto simp: within_bounds_def cache_ok_prune)

lemma service_run_ok: "service_run entries es sv \<Longrightarrow> (\<exists>replies marks. told es sv replies marks) \<and> within_bounds entries sv"
proof (induction rule: service_run.induct)
  case start
  have "told [] (started (fresh_proxy entries)) [] []"
    by (simp add: told_def started_def fresh_proxy_def asked_def cache_known_def cache_new_def List.map_filter_def)
  then show ?case
    by (auto simp: within_bounds_def started_def fresh_proxy_def cache_ok_def cache_new_def)
next
  case (step es sv e sv')
  then show ?case using told_step within_step by blast
qed

text \<open>
  C12: whatever the clients, the upstream and the network do and however the threads interleave, the
  queries the proxy has taken are, each once, those it has answered, those in the queue and those with a
  worker. Each answer went to its query's asker and is the upstream's answer to that very query, the
  failure made of the query, or, told as a hit, an answer the upstream gave for the same name and type with
  the query's own identifier. The statistics count the queries taken and, when none is left, exactly those
  hits and misses; and the queue, the workers and the cache keep within their bounds.
\<close>

theorem queries_accounted:
  assumes "service_run entries es sv"
  shows "(\<exists>replies. map (\<lambda>(source, query, answer, hit). (source, answer)) replies = sent sv \<and>
       list_all (right_answer es) replies \<and>
       mset (map (\<lambda>(source, query, answer, hit). (source, query)) replies) + mset (map asker (waiting_jobs sv)) +
         mset (map (\<lambda>w. asker (job_of w)) (busy sv)) = mset (asked es) \<and>
       (waiting_jobs sv = [] \<and> busy sv = [] \<longrightarrow>
         cache_hits (proxy sv) = length (filter is_hit replies) \<and>
         cache_misses (proxy sv) = length (filter (\<lambda>r. \<not> is_hit r) replies))) \<and>
    queries_total (proxy sv) = length (asked es) \<and>
    cache_hits (proxy sv) + cache_misses (proxy sv) \<le> queries_total (proxy sv) \<and>
    length (waiting_jobs sv) \<le> 256 \<and> length (busy sv) \<le> 8 \<and>
    (0 < entries \<longrightarrow> length (dc_entries (px_cache (proxy sv))) \<le> entries)"
proof -
  obtain replies marks where told: "told es sv replies marks" and within: "within_bounds entries sv"
    using service_run_ok [OF assms] by blast
  have "count_list marks (Some True) + count_list marks (Some False) \<le> length marks"
    by (induction marks) auto
  moreover have "length marks = length (busy sv)" using told by (auto simp: told_def dest: list_all2_lengthD)
  moreover have "length replies + length (waiting_jobs sv) + length (busy sv) = length (asked es)"
  proof -
    have "size (mset (map (\<lambda>(source, query, answer, hit). (source, query)) replies) + mset (map asker (waiting_jobs sv)) +
        mset (map (\<lambda>w. asker (job_of w)) (busy sv))) = size (mset (asked es))"
      using told unfolding told_def by (simp only:)
    then show ?thesis by (simp only: size_union size_mset length_map)
  qed
  moreover have "length (filter is_hit replies) + length (filter (\<lambda>r. \<not> is_hit r) replies) = length replies"
    by (rule sum_length_filter_compl)
  ultimately have "cache_hits (proxy sv) + cache_misses (proxy sv) \<le> queries_total (proxy sv)"
    using told by (simp add: told_def)
  moreover have "cache_hits (proxy sv) = length (filter is_hit replies) \<and>
      cache_misses (proxy sv) = length (filter (\<lambda>r. \<not> is_hit r) replies)" if "busy sv = []"
    using told that by (simp add: told_def)
  moreover have "queries_total (proxy sv) = length (asked es)" "map (\<lambda>(source, query, answer, hit). (source, answer)) replies = sent sv"
    "list_all (right_answer es) replies"
    "mset (map (\<lambda>(source, query, answer, hit). (source, query)) replies) + mset (map asker (waiting_jobs sv)) +
         mset (map (\<lambda>w. asker (job_of w)) (busy sv)) = mset (asked es)"
    using told unfolding told_def by (simp_all only: simp_thms)
  moreover have "length (waiting_jobs sv) \<le> 256 \<and> length (busy sv) \<le> 8 \<and>
    (0 < entries \<longrightarrow> length (dc_entries (px_cache (proxy sv))) \<le> entries)"
    using within by (auto simp: within_bounds_def cache_ok_def QUERY_QUEUE_CAPACITY_def QUERY_WORKERS_def)
  ultimately show ?thesis by blast
qed

definition demo_query :: bytes where
  "demo_query = [0, 7, 1, 0, 0, 1, 0, 0, 0, 0, 0, 0, 1, 97, 0, 0, 1, 0, 1]"

definition demo_heard :: service where
  "demo_heard = hear 9 (listen True 0 9 demo_query (fresh_proxy 2)) (started (fresh_proxy 2))"

lemma demo_heard_counts: "length (waiting_jobs demo_heard) = 1 \<and> busy demo_heard = [] \<and> sent demo_heard = []"
  by code_simp

theorem queries_accounted_witness:
  "asked [Datagram 9 demo_query] = [(9, demo_query)] \<and> queries_total (proxy demo_heard) = 1 \<and>
   mset (map asker (waiting_jobs demo_heard)) = {#(9, demo_query)#}"
proof -
  have run: "service_run 2 ([] @ [Datagram 9 demo_query]) demo_heard"
    unfolding demo_heard_def
    using service_step.datagram [of True "started (fresh_proxy 2)" 9 demo_query 0]
    by (intro service_run.step [OF service_run.start]) (simp add: started_def QUERY_QUEUE_CAPACITY_def)
  have asked: "asked [Datagram 9 demo_query] = [(9, demo_query)]" by code_simp
  note q = queries_accounted [OF run, unfolded append_Nil, unfolded asked]
  from demo_heard_counts have "mset (map asker (waiting_jobs demo_heard)) = {#(9, demo_query)#}"
    using q [THEN conjunct1] by auto
  moreover have "queries_total (proxy demo_heard) = 1" using q by simp
  ultimately show ?thesis using asked by simp
qed

end
