(* ===== verification/Es10_Notifications.thy ===== *)
theory Es10_Notifications
  imports Card_Session Hex_Codec
begin

text \<open>
  \<open>euicc/src/es10b.rs\<close>: the pending notifications of the card, listed, retrieved for the operator's
  server and removed after delivery. The lemmas show that what is forwarded is the card's own
  element, byte for byte, and that the sequence number sent to the card is the one asked for.
\<close>

record notification_metadata =
  seq_number :: u64
  profile_management_operation :: "string option"
  notification_address :: "string option"
  notification_iccid :: "string option"

record pending_notification =
  pending_address :: string
  pending_der :: bytes

definition default_notification :: notification_metadata where
  "default_notification =
     \<lparr>seq_number = 0, profile_management_operation = None, notification_address = None, notification_iccid = None\<rparr>"

text \<open>NotificationEvent is a BIT STRING: the unused bits, then the flags.\<close>

definition operation :: "bytes \<Rightarrow> string option" where
  "operation value =
     (case get_at value 1 of
        None \<Rightarrow> None
      | Some flags \<Rightarrow> Some (
          if flags = 0x80 then ''install''
          else if flags = 0x40 then ''enable''
          else if flags = 0x20 then ''disable''
          else if flags = 0x10 then ''delete''
          else ''unknown''))"

definition read_notification_field :: "notification_metadata \<Rightarrow> tlv \<Rightarrow> notification_metadata" where
  "read_notification_field n t =
     (if tlv_tag t = 0x80 then n\<lparr>seq_number := to_u64 (tlv_value t)\<rparr>
      else if tlv_tag t = 0x81 then n\<lparr>profile_management_operation := operation (tlv_value t)\<rparr>
      else if tlv_tag t = 0x0C then n\<lparr>notification_address := Some (from_utf8_lossy (tlv_value t))\<rparr>
      else if tlv_tag t = 0x5A then n\<lparr>notification_iccid := Some (bcd_to_iccid (tlv_value t))\<rparr>
      else n)"

definition parse_notifications :: "bytes \<Rightarrow> error + notification_metadata list" where
  "parse_notifications body =
     and_then (ok_or (find_tag body 0xA0) (Malformed ''notification list error''))
       (\<lambda>l. Inr (map (\<lambda>meta. foldl read_notification_field default_notification (tlvs (tlv_value meta)))
         (filter (\<lambda>t. tlv_tag t = 0xBF2F) (tlvs (tlv_value l)))))"

definition pending_meta :: "tlv \<Rightarrow> tlv option" where
  "pending_meta p =
     (if tlv_tag p = 0xBF37 then
        (case find_tag (tlv_value p) 0xBF27 of
           None \<Rightarrow> None
         | Some d \<Rightarrow> find_tag (tlv_value d) 0xBF2F)
      else find_tag (tlv_value p) 0xBF2F)"

definition parse_pending :: "bytes \<Rightarrow> error + pending_notification" where
  "parse_pending body =
     and_then (ok_or (find_tag body 0xA0) (Malformed ''no pending notification'')) (\<lambda>l.
     and_then (ok_or (find_any (tlv_value l) [0xBF37, 0x30]) (Malformed ''no pending notification'')) (\<lambda>p.
     and_then (ok_or (pending_meta p) (Malformed ''no notification metadata'')) (\<lambda>meta.
     and_then (ok_or (find_tag (tlv_value meta) 0x0C) (Malformed ''no notification address'')) (\<lambda>address.
     Inr \<lparr>pending_address = from_utf8_lossy (tlv_value address), pending_der = tlv_raw p\<rparr>))))"

definition list_notifications ::
  "'s apdu \<Rightarrow> u8 \<Rightarrow> 's \<Rightarrow> ((error + notification_metadata list) \<times> 's) option" where
  "list_notifications io channel s = with_reply (request io channel (Prim 0xBF28 []) s) parse_notifications"

definition retrieve_request :: "u64 \<Rightarrow> node" where
  "retrieve_request seq = Cons_node 0xBF2B [Cons_node 0xA0 [Prim 0x80 (from_u64 seq)]]"

definition retrieve_notification ::
  "'s apdu \<Rightarrow> u8 \<Rightarrow> u64 \<Rightarrow> 's \<Rightarrow> ((error + pending_notification) \<times> 's) option" where
  "retrieve_notification io channel seq s = with_reply (request io channel (retrieve_request seq) s) parse_pending"

definition remove_request :: "u64 \<Rightarrow> node" where
  "remove_request seq = Cons_node 0xBF30 [Prim 0x80 (from_u64 seq)]"

definition remove_notification :: "'s apdu \<Rightarrow> u8 \<Rightarrow> u64 \<Rightarrow> 's \<Rightarrow> ((error + u64) \<times> 's) option" where
  "remove_notification io channel seq s = result_code io channel (remove_request seq) s"

section \<open>What is sent and what is forwarded\<close>

text \<open>
  What is handed to the operator's server as a pending notification is one whole element of the
  card's answer, byte for byte as the card sent it, and it is an installation result or a signed
  notification.
\<close>

theorem pending_is_card_bytes:
  assumes "parse_pending body = Inr p"
  shows "\<exists>before after t. body = before @ pending_der p @ after \<and> parse (pending_der p) = Some t \<and>
    tlv_raw t = pending_der p \<and> tlv_tag t \<in> {0xBF37, 0x30}"
proof -
  from assms obtain l e where l: "find_tag body 0xA0 = Some l"
    and e: "find_any (tlv_value l) [0xBF37, 0x30] = Some e" and der: "pending_der p = tlv_raw e"
    by (auto simp: parse_pending_def and_then_Inr_iff ok_or_Inr_iff)
  from l have "l \<in> set (tlvs body)" by (auto simp: find_tag_def dest: find_SomeD)
  from tlvs_elements [OF this] obtain a b where pl: "parse (tlv_raw l) = Some l" and body: "body = a @ tlv_raw l @ b"
    by blast
  from tlv_value_infix [OF pl] obtain c where lv: "tlv_raw l = c @ tlv_value l" by blast
  from e have "e \<in> set (tlvs (tlv_value l))" and tag: "tlv_tag e \<in> {0xBF37, 0x30}"
    by (auto simp: find_any_def dest: find_SomeD)
  from tlvs_elements [OF this(1)] obtain d f where pe: "parse (tlv_raw e) = Some e"
    and inner: "tlv_value l = d @ tlv_raw e @ f" by blast
  have "body = (a @ c @ d) @ tlv_raw e @ (f @ b)"
    by (simp add: body lv inner)
  with pe der tag show ?thesis by metis
qed

theorem pending_is_card_bytes_witness:
  "\<exists>before after t. [0xA0, 0x0D, 0x30, 0x0B, 0xBF, 0x2F, 0x06, 0x0C, 0x01, 0x41, 0x80, 0x01, 0x05, 0x05, 0x00] =
     before @ [0x30, 0x0B, 0xBF, 0x2F, 0x06, 0x0C, 0x01, 0x41, 0x80, 0x01, 0x05, 0x05, 0x00 :: u8] @ after \<and>
     parse [0x30, 0x0B, 0xBF, 0x2F, 0x06, 0x0C, 0x01, 0x41, 0x80, 0x01, 0x05, 0x05, 0x00] = Some t \<and>
     tlv_raw t = [0x30, 0x0B, 0xBF, 0x2F, 0x06, 0x0C, 0x01, 0x41, 0x80, 0x01, 0x05, 0x05, 0x00] \<and>
     tlv_tag t \<in> {0xBF37, 0x30}"
proof -
  have "parse_pending [0xA0, 0x0D, 0x30, 0x0B, 0xBF, 0x2F, 0x06, 0x0C, 0x01, 0x41, 0x80, 0x01, 0x05, 0x05, 0x00] =
    Inr \<lparr>pending_address = from_utf8_lossy [0x41],
      pending_der = [0x30, 0x0B, 0xBF, 0x2F, 0x06, 0x0C, 0x01, 0x41, 0x80, 0x01, 0x05, 0x05, 0x00]\<rparr>"
    by (simp add: parse_pending_def find_tag_def find_any_def tlvs.simps parse_def parse_tag_def get_at_def
        parse_length_def get_range_def Let_def pending_meta_def)
  from pending_is_card_bytes [OF this] show ?thesis by simp
qed

text \<open>
  Retrieving and removing a notification name it by the sequence number given: the card reads it
  back from the request's bytes exactly, for every 64-bit number.
\<close>

theorem notification_requests_name_seq:
  "(\<exists>inner. tlvs (node_contents (retrieve_request seq)) = [inner] \<and> tlv_tag inner = 0xA0 \<and>
      map_option (\<lambda>t. to_u64 (tlv_value t)) (find_tag (tlv_value inner) 0x80) = Some seq) \<and>
   map_option (\<lambda>t. to_u64 (tlv_value t)) (find_tag (node_contents (remove_request seq)) 0x80) = Some seq"
proof -
  have len: "length (from_u64 seq) < 0x80" using from_u64_length [of seq] by simp
  then have num: "node_ok (Prim 0x80 (from_u64 seq))" by (simp add: tag_ok_def)
  have outer: "node_ok (Cons_node 0xA0 [Prim 0x80 (from_u64 seq)])"
    using len by (simp add: tag_ok_def encode_tlv_def encode_tag_def encode_length_def)
  have "tlvs (node_encode (Prim 0x80 (from_u64 seq))) = [node_tlv (Prim 0x80 (from_u64 seq))]"
    using tlvs_nodes [of "[Prim 0x80 (from_u64 seq)]" "[]"] num by simp
  moreover have "tlvs (node_encode (Cons_node 0xA0 [Prim 0x80 (from_u64 seq)])) =
    [node_tlv (Cons_node 0xA0 [Prim 0x80 (from_u64 seq)])]"
    using tlvs_nodes [of "[Cons_node 0xA0 [Prim 0x80 (from_u64 seq)]]" "[]"] outer by simp
  moreover have "to_u64 (from_u64 seq) = seq" by (rule to_u64_from_u64)
  ultimately show ?thesis
    by (simp add: retrieve_request_def remove_request_def find_tag_def del: node_encode.simps)
      (simp add: node_tlv_def find_tag_def)
qed

end
