(* ===== verification/Es10_Profiles.thy ===== *)
theory Es10_Profiles
  imports Card_Session Text_Ops
begin

text \<open>
  \<open>euicc/src/es10c.rs\<close>: the profile commands. A profile entry is read field by field, a later
  element replacing an earlier one; an identifier is an ISD-P AID of 32 hex digits or an ICCID of
  at most 20. \<open>base64\<close>, the crate's \<open>STANDARD.encode\<close>, is the parameter \<open>b64enc\<close>. The lemmas show
  which identifiers are accepted, that the bytes sent for one stand for exactly that identifier,
  and what a listing of profiles is read as.
\<close>

record profile_info =
  pi_iccid :: string
  pi_isdp_aid :: string
  pi_profile_state :: "string option"
  pi_profile_nickname :: "string option"
  pi_service_provider_name :: "string option"
  pi_profile_name :: "string option"
  pi_icon_type :: "string option"
  pi_icon :: "string option"
  pi_profile_class :: "string option"

definition default_profile_info :: profile_info where
  "default_profile_info =
     \<lparr>pi_iccid = [], pi_isdp_aid = [], pi_profile_state = None, pi_profile_nickname = None,
      pi_service_provider_name = None, pi_profile_name = None, pi_icon_type = None, pi_icon = None,
      pi_profile_class = None\<rparr>"

section \<open>Reading a listing\<close>

definition profile_state :: "u64 \<Rightarrow> string" where
  "profile_state v = (if v = 0 then ''disabled'' else if v = 1 then ''enabled'' else ''unknown'')"

definition profile_class :: "u64 \<Rightarrow> string" where
  "profile_class v =
     (if v = 0 then ''test'' else if v = 1 then ''provisioning''
      else if v = 2 then ''operational'' else ''unknown'')"

definition icon_type :: "u64 \<Rightarrow> string" where
  "icon_type v = (if v = 0 then ''jpeg'' else if v = 1 then ''png'' else ''unknown'')"

definition read_profile_field :: "(bytes \<Rightarrow> string) \<Rightarrow> profile_info \<Rightarrow> tlv \<Rightarrow> profile_info" where
  "read_profile_field b64enc p t =
     (let v = tlv_value t in
      if tlv_tag t = 0x5A then p\<lparr>pi_iccid := bcd_to_iccid v\<rparr>
      else if tlv_tag t = 0x4F then p\<lparr>pi_isdp_aid := hex_encode v\<rparr>
      else if tlv_tag t = 0x9F70 then p\<lparr>pi_profile_state := Some (profile_state (to_u64 v))\<rparr>
      else if tlv_tag t = 0x90 then p\<lparr>pi_profile_nickname := Some (from_utf8_lossy v)\<rparr>
      else if tlv_tag t = 0x91 then p\<lparr>pi_service_provider_name := Some (from_utf8_lossy v)\<rparr>
      else if tlv_tag t = 0x92 then p\<lparr>pi_profile_name := Some (from_utf8_lossy v)\<rparr>
      else if tlv_tag t = 0x93 then p\<lparr>pi_icon_type := Some (icon_type (to_u64 v))\<rparr>
      else if tlv_tag t = 0x94 then p\<lparr>pi_icon := Some (b64enc v)\<rparr>
      else if tlv_tag t = 0x95 then p\<lparr>pi_profile_class := Some (profile_class (to_u64 v))\<rparr>
      else p)"

definition read_profile :: "(bytes \<Rightarrow> string) \<Rightarrow> tlv \<Rightarrow> profile_info" where
  "read_profile b64enc info = foldl (read_profile_field b64enc) default_profile_info (tlvs (tlv_value info))"

definition parse_profiles :: "(bytes \<Rightarrow> string) \<Rightarrow> bytes \<Rightarrow> error + profile_info list" where
  "parse_profiles b64enc body =
     and_then (ok_or (find_tag body 0xA0) (Malformed ''profile list error''))
       (\<lambda>okl. Inr (map (read_profile b64enc) (filter (\<lambda>t. tlv_tag t = 0xE3) (tlvs (tlv_value okl)))))"

section \<open>Requests\<close>

definition profile_id :: "string \<Rightarrow> error + node" where
  "profile_id i =
     (if length i = 32 then
        and_then (ok_or (hex_decode i) (Argument ''ISD-P AID'')) (\<lambda>aid. Inr (Prim 0x4F aid))
      else if i = [] \<or> length i > 20 \<or> \<not> list_all is_ascii_hexdigit i then Inl (Argument ''ICCID'')
      else and_then (ok_or (iccid_to_bcd i 10) (Argument ''ICCID'')) (\<lambda>bcd. Inr (Prim 0x5A bcd)))"

definition switch_request :: "u16 \<Rightarrow> string \<Rightarrow> bool \<Rightarrow> error + node" where
  "switch_request tag i refresh =
     and_then (profile_id i)
       (\<lambda>n. Inr (Cons_node tag [Cons_node 0xA0 [n], Prim 0x81 [if refresh then 0xFF else 0x00]]))"

text \<open>A method whose request may be refused before anything is sent.\<close>

definition send_code :: "'s apdu \<Rightarrow> u8 \<Rightarrow> error + node \<Rightarrow> 's \<Rightarrow> ((error + u64) \<times> 's) option" where
  "send_code io channel req s =
     (case req of Inl e \<Rightarrow> Some (Inl e, s) | Inr n \<Rightarrow> result_code io channel n s)"

definition profiles ::
  "(bytes \<Rightarrow> string) \<Rightarrow> 's apdu \<Rightarrow> u8 \<Rightarrow> 's \<Rightarrow> ((error + profile_info list) \<times> 's) option" where
  "profiles b64enc io channel s = with_reply (request io channel (Prim 0xBF2D []) s) (parse_profiles b64enc)"

definition enable_profile :: "'s apdu \<Rightarrow> u8 \<Rightarrow> string \<Rightarrow> bool \<Rightarrow> 's \<Rightarrow> ((error + u64) \<times> 's) option" where
  "enable_profile io channel i refresh s = send_code io channel (switch_request 0xBF31 i refresh) s"

definition disable_profile :: "'s apdu \<Rightarrow> u8 \<Rightarrow> string \<Rightarrow> bool \<Rightarrow> 's \<Rightarrow> ((error + u64) \<times> 's) option" where
  "disable_profile io channel i refresh s = send_code io channel (switch_request 0xBF32 i refresh) s"

definition delete_profile :: "'s apdu \<Rightarrow> u8 \<Rightarrow> string \<Rightarrow> 's \<Rightarrow> ((error + u64) \<times> 's) option" where
  "delete_profile io channel i s =
     send_code io channel (and_then (profile_id i) (\<lambda>n. Inr (Cons_node 0xBF33 [n]))) s"

definition eid :: "'s apdu \<Rightarrow> u8 \<Rightarrow> 's \<Rightarrow> ((error + string) \<times> 's) option" where
  "eid io channel s =
     with_reply (request io channel (Cons_node 0xBF3E [Prim 0x5C [0x5A]]) s)
       (\<lambda>body. ok_or (map_option (\<lambda>t. hex_encode (tlv_value t)) (find_tag body 0x5A)) (Malformed ''no EID''))"

definition set_nickname :: "'s apdu \<Rightarrow> u8 \<Rightarrow> string \<Rightarrow> string \<Rightarrow> 's \<Rightarrow> ((error + u64) \<times> 's) option" where
  "set_nickname io channel iccid nickname s =
     send_code io channel
       (and_then (ok_or (iccid_to_bcd iccid 10) (Argument ''ICCID''))
         (\<lambda>bcd. Inr (Cons_node 0xBF29 [Prim 0x5A bcd, Prim 0x90 (as_bytes nickname)]))) s"

definition result_reason :: "string \<Rightarrow> u64 \<Rightarrow> string" where
  "result_reason op code =
     (if code = 1 then if op = ''set_nickname'' then ''iccidNotFound'' else ''iccidOrAidNotFound''
      else if (op = ''enable_profile'' \<or> op = ''delete_profile'') \<and> code = 2 then ''profileNotInDisabledState''
      else if op = ''disable_profile'' \<and> code = 2 then ''profileNotInEnabledState''
      else if code = 3 \<and> op \<noteq> ''set_nickname'' then ''disallowedByPolicy''
      else if op = ''enable_profile'' \<and> code = 4 then ''wrongProfileReenabling''
      else if (op = ''enable_profile'' \<or> op = ''disable_profile'') \<and> code = 5 then ''catBusy''
      else if code = 127 then ''undefinedError''
      else ''unknown result '' @ show_nat (unat code))"

section \<open>Identifiers\<close>

lemma hexdigit_ascii: "to_digit16 c \<noteq> None \<Longrightarrow> byte_of c < 0x80"
  by (auto simp: to_digit16_def Let_def word_less_nat_alt split: if_splits)

lemma iccid_to_bcd_hex:
  assumes digits: "list_all is_ascii_hexdigit i" and fits: "length i \<le> 2 * n"
  shows "\<exists>bcd. iccid_to_bcd i n = Some bcd \<and> length bcd = n"
proof -
  let ?cs = "swap_pairs (if odd (length i) then i @ ''f'' else i)"
  have hexd: "\<forall>c \<in> set ?cs. to_digit16 c \<noteq> None" and ev: "even (length ?cs)"
    using digits by (auto simp: list_all_iff is_ascii_hexdigit_iff to_digit16_def)
  then have "from_utf8 (as_bytes ?cs) = Some ?cs"
    by (intro from_utf8_ascii) (blast intro: hexdigit_ascii)
  moreover obtain out where out: "decode_pairs ?cs = Some out"
    using decode_pairs_Some_iff [OF ev] hexd by blast
  moreover have "length out \<le> n"
    using length_decode_pairs [OF out] fits by (cases "odd (length i)") (auto elim!: oddE)
  ultimately show ?thesis
    using ev by (simp add: iccid_to_bcd_def hex_decode_def Let_def)
qed

text \<open>
  The identifiers the profile commands accept are exactly those of 32 hex digits (an ISD-P AID)
  and those of 1 to 20 hex digits (an ICCID); anything else is refused before the card sees it.
\<close>

theorem profile_id_accepts:
  "(\<exists>n. profile_id i = Inr n) \<longleftrightarrow>
     list_all is_ascii_hexdigit i \<and> (length i = 32 \<or> 1 \<le> length i \<and> length i \<le> 20)"
proof (cases "length i = 32")
  case True
  then have "(\<exists>b. hex_decode i = Some b) \<longleftrightarrow> list_all is_ascii_hexdigit i"
    by (simp add: hex_decode_Some_iff list_all_iff is_ascii_hexdigit_iff)
  with True show ?thesis
    by (auto simp: profile_id_def and_then_Inr_iff ok_or_Inr_iff)
next
  case False
  then show ?thesis
    using iccid_to_bcd_hex [of i 10]
    by (auto simp: profile_id_def and_then_Inr_iff ok_or_Inr_iff Suc_le_eq)
qed

text \<open>
  The request for a profile named by its ICCID digits carries, as its only child, ten bytes that
  read back as those digits, and the card can parse the request it is sent back into its parts.
\<close>

theorem switch_request_roundtrip:
  assumes "set i \<subseteq> set DIGITS" and "i \<noteq> []" and "last i \<noteq> CHR ''f''" and "length i \<le> 20" and "tag_ok tag"
  shows "\<exists>bcd. switch_request tag i refresh =
      Inr (Cons_node tag [Cons_node 0xA0 [Prim 0x5A bcd], Prim 0x81 [if refresh then 0xFF else 0x00]]) \<and>
    bcd_to_iccid bcd = i \<and>
    node_ok (Cons_node tag [Cons_node 0xA0 [Prim 0x5A bcd], Prim 0x81 [if refresh then 0xFF else 0x00]])"
proof -
  obtain bcd where bcd: "iccid_to_bcd i 10 = Some bcd" "length bcd = 10" "bcd_to_iccid bcd = i"
    using iccid_bcd_exists [of i 10] assms by auto
  have "list_all is_ascii_hexdigit i"
    using assms(1) DIGITS_to_digit16 by (fastforce simp: list_all_iff is_ascii_hexdigit_iff)
  with bcd assms have "profile_id i = Inr (Prim 0x5A bcd)"
    by (auto simp: profile_id_def)
  moreover have "node_ok (Cons_node tag [Cons_node 0xA0 [Prim 0x5A bcd], Prim 0x81 [if refresh then 0xFF else 0x00]])"
    using assms(5) bcd(2) by (simp add: tag_ok_def encode_tlv_def encode_tag_def encode_length_def)
  ultimately show ?thesis using bcd(3) by (auto simp: switch_request_def)
qed

theorem switch_request_roundtrip_witness:
  "\<exists>bcd. switch_request 0xBF31 ''8963000000000000001'' True =
      Inr (Cons_node 0xBF31 [Cons_node 0xA0 [Prim 0x5A bcd], Prim 0x81 [if True then 0xFF else 0x00]]) \<and>
    bcd_to_iccid bcd = ''8963000000000000001'' \<and>
    node_ok (Cons_node 0xBF31 [Cons_node 0xA0 [Prim 0x5A bcd], Prim 0x81 [if True then 0xFF else 0x00]])"
  by (rule switch_request_roundtrip) (simp_all add: DIGITS_def tag_ok_def)

section \<open>What a listing is read as\<close>

text \<open>The contents of the last element with a given tag.\<close>

definition last_field :: "u16 \<Rightarrow> tlv list \<Rightarrow> bytes option" where
  "last_field tag ts = map_option tlv_value (List.find (\<lambda>t. tlv_tag t = tag) (rev ts))"

lemma last_field_Nil [simp]: "last_field tag [] = None"
  by (simp add: last_field_def)

lemma last_field_snoc:
  "last_field tag (ts @ [t]) = (if tlv_tag t = tag then Some (tlv_value t) else last_field tag ts)"
  by (simp add: last_field_def)

definition profile_of_fields :: "(bytes \<Rightarrow> string) \<Rightarrow> tlv list \<Rightarrow> profile_info" where
  "profile_of_fields b64enc ts =
     \<lparr>pi_iccid = (case last_field 0x5A ts of None \<Rightarrow> [] | Some v \<Rightarrow> bcd_to_iccid v),
      pi_isdp_aid = (case last_field 0x4F ts of None \<Rightarrow> [] | Some v \<Rightarrow> hex_encode v),
      pi_profile_state = map_option (profile_state \<circ> to_u64) (last_field 0x9F70 ts),
      pi_profile_nickname = map_option from_utf8_lossy (last_field 0x90 ts),
      pi_service_provider_name = map_option from_utf8_lossy (last_field 0x91 ts),
      pi_profile_name = map_option from_utf8_lossy (last_field 0x92 ts),
      pi_icon_type = map_option (icon_type \<circ> to_u64) (last_field 0x93 ts),
      pi_icon = map_option b64enc (last_field 0x94 ts),
      pi_profile_class = map_option (profile_class \<circ> to_u64) (last_field 0x95 ts)\<rparr>"

lemma read_profile_fields:
  "foldl (read_profile_field b64enc) default_profile_info ts = profile_of_fields b64enc ts"
proof (induction ts rule: rev_induct)
  case Nil
  then show ?case by (simp add: default_profile_info_def profile_of_fields_def)
next
  case (snoc t ts)
  then show ?case
    by (simp add: profile_of_fields_def read_profile_field_def last_field_snoc Let_def)
qed

text \<open>
  A listing that the card encodes is read as one profile per \<open>E3\<close> entry, in order; each field is
  the decoded contents of the entry's last element with the field's tag, whatever order the card
  uses and whatever else it includes.
\<close>

theorem parse_profiles_listing:
  assumes "node_ok (Cons_node 0xA0 entries)"
  shows "parse_profiles b64enc (node_encode (Cons_node 0xA0 entries)) =
    Inr (map (\<lambda>e. profile_of_fields b64enc (tlvs (node_contents e)))
      (filter (\<lambda>e. node_tag e = 0xE3) entries))"
proof -
  have "find_tag (node_encode (Cons_node 0xA0 entries)) 0xA0 = Some (node_tlv (Cons_node 0xA0 entries))"
    using parse_node_encode [OF assms, of "[]"] tlvs_step [of "node_encode (Cons_node 0xA0 entries)"]
    by (simp add: find_tag_def) (simp add: node_tlv_def)
  moreover have "tlvs (tlv_value (node_tlv (Cons_node 0xA0 entries))) = map node_tlv entries"
    using tlvs_nodes [of entries "[]"] assms by (simp add: node_tlv_def)
  ultimately show ?thesis
    by (simp add: parse_profiles_def read_profile_def read_profile_fields filter_map comp_def)
      (simp add: node_tlv_def)
qed

theorem parse_profiles_listing_witness:
  "parse_profiles hex_encode (node_encode (Cons_node 0xA0 [Cons_node 0xE3 [Prim 0x5A [0x98, 0xF1], Prim 0x91 [0x41]]])) =
     Inr (map (\<lambda>e. profile_of_fields hex_encode (tlvs (node_contents e)))
       (filter (\<lambda>e. node_tag e = 0xE3) [Cons_node 0xE3 [Prim 0x5A [0x98, 0xF1], Prim 0x91 [0x41]]]))"
  by (rule parse_profiles_listing) (simp add: tag_ok_def encode_tlv_def encode_tag_def encode_length_def)

end
