(* ===== verification/Es8_Metadata.thy ===== *)
theory Es8_Metadata
  imports Card_Session Hex_Codec Base64_Decode
begin

text \<open>
  \<open>euicc/src/es8p.rs\<close>: the profile metadata shown before a download is accepted. The four fields the
  code never fills (notification configuration, owner, proprietary data, policy rules) are its
  constants and left out of the record. \<open>b64enc\<close> is the \<open>base64\<close> crate's encoder. The lemmas
  show exactly which access-rule extensions are accepted, that a parsed rule always has its
  certificate hash, and what the decoded metadata of a well-formed request is.
\<close>

record access_rule =
  certificate_hash :: "string option"
  package_name :: "string option"

record profile_metadata =
  pm_iccid :: string
  pm_service_provider_name :: "string option"
  pm_profile_name :: "string option"
  pm_icon_type :: "string option"
  pm_icon :: "string option"
  pm_profile_class :: "string option"
  pm_access_rules :: "access_rule list"

definition default_metadata :: profile_metadata where
  "default_metadata =
     \<lparr>pm_iccid = [], pm_service_provider_name = None, pm_profile_name = None, pm_icon_type = None,
      pm_icon = None, pm_profile_class = None, pm_access_rules = []\<rparr>"

section \<open>Decoding\<close>

text \<open>The bytes up to the first NUL, where a C string ends.\<close>

definition c_text :: "bytes \<Rightarrow> string" where
  "c_text value = from_utf8_lossy (takeWhile (\<lambda>b. b \<noteq> 0) value)"

definition enumerated :: "bytes \<Rightarrow> u32" where
  "enumerated value = ucast (to_u64 value)"

definition icon_type32 :: "bytes \<Rightarrow> string" where
  "icon_type32 value =
     (let n = enumerated value in if n = 0 then ''jpeg'' else if n = 1 then ''png'' else ''unknown'')"

definition profile_class32 :: "bytes \<Rightarrow> string" where
  "profile_class32 value =
     (let n = enumerated value in
      if n = 0 then ''test'' else if n = 1 then ''provisioning''
      else if n = 2 then ''operational'' else ''unknown'')"

definition read_rule_field :: "access_rule \<Rightarrow> tlv \<Rightarrow> error + access_rule" where
  "read_rule_field rule t =
     (if tlv_tag t = 0xC1 then
        if certificate_hash rule \<noteq> None
        then Inl (Malformed ''access rule with several certificate hashes'')
        else Inr (rule\<lparr>certificate_hash := Some (hex_encode (tlv_value t))\<rparr>)
      else if tlv_tag t = 0xCA then
        if package_name rule \<noteq> None
        then Inl (Malformed ''access rule with several package names'')
        else Inr (rule\<lparr>package_name := Some (c_text (tlv_value t))\<rparr>)
      else Inr rule)"

definition read_rule :: "tlv \<Rightarrow> error + access_rule" where
  "read_rule entry =
     (case filter (\<lambda>t. tlv_tag t = 0xE1) (tlvs (tlv_value entry)) of
        [] \<Rightarrow> Inl (Malformed ''access rule without REF-DO'')
      | ref_do # others \<Rightarrow>
          if others \<noteq> [] then Inl (Malformed ''access rule with several REF-DOs'')
          else
            and_then (try_fold read_rule_field \<lparr>certificate_hash = None, package_name = None\<rparr> (tlvs (tlv_value ref_do)))
              (\<lambda>rule. if certificate_hash rule = None
                then Inl (Malformed ''access rule without certificate hash'') else Inr rule))"

definition parse_access_rules :: "bytes \<Rightarrow> error + access_rule list" where
  "parse_access_rules value =
     try_fold (\<lambda>rules entry. and_then (read_rule entry) (\<lambda>rule. Inr (rules @ [rule]))) []
       (filter (\<lambda>t. tlv_tag t = 0xE2) (tlvs value))"

definition read_metadata_field ::
  "(bytes \<Rightarrow> string) \<Rightarrow> profile_metadata \<Rightarrow> tlv \<Rightarrow> error + profile_metadata" where
  "read_metadata_field b64enc m t =
     (let v = tlv_value t in
      if tlv_tag t = 0x5A \<and> length v \<le> 10 then Inr (m\<lparr>pm_iccid := bcd_to_iccid v\<rparr>)
      else if tlv_tag t = 0x91 then Inr (m\<lparr>pm_service_provider_name := Some (c_text v)\<rparr>)
      else if tlv_tag t = 0x92 then Inr (m\<lparr>pm_profile_name := Some (c_text v)\<rparr>)
      else if tlv_tag t = 0x93 then Inr (m\<lparr>pm_icon_type := Some (icon_type32 v)\<rparr>)
      else if tlv_tag t = 0x94 then Inr (m\<lparr>pm_icon := Some (b64enc v)\<rparr>)
      else if tlv_tag t = 0x95 then Inr (m\<lparr>pm_profile_class := Some (profile_class32 v)\<rparr>)
      else if tlv_tag t = 0xBF76 then
        and_then (parse_access_rules v) (\<lambda>rules. Inr (m\<lparr>pm_access_rules := rules\<rparr>))
      else Inr m)"

definition parse_store_metadata :: "(bytes \<Rightarrow> string) \<Rightarrow> bytes \<Rightarrow> error + profile_metadata" where
  "parse_store_metadata b64enc buf =
     and_then (ok_or (find_tag buf 0xBF25) (Malformed ''no StoreMetadataRequest''))
       (\<lambda>req. try_fold (read_metadata_field b64enc) default_metadata (tlvs (tlv_value req)))"

definition parse_metadata :: "(bytes \<Rightarrow> string) \<Rightarrow> string \<Rightarrow> error + profile_metadata" where
  "parse_metadata b64enc b64_metadata = parse_store_metadata b64enc (b64_decode b64_metadata)"

section \<open>Access rules\<close>

text \<open>One certificate hash, at most one package name, in a REF-DO that is the only one.\<close>

definition contents_of :: "u16 \<Rightarrow> tlv list \<Rightarrow> bytes list" where
  "contents_of tag ts = map tlv_value (filter (\<lambda>t. tlv_tag t = tag) ts)"

definition rule_of :: "tlv \<Rightarrow> access_rule option" where
  "rule_of entry =
     (case contents_of 0xE1 (tlvs (tlv_value entry)) of
        [ref] \<Rightarrow>
          (case (contents_of 0xC1 (tlvs ref), contents_of 0xCA (tlvs ref)) of
             ([h], []) \<Rightarrow> Some \<lparr>certificate_hash = Some (hex_encode h), package_name = None\<rparr>
           | ([h], [n]) \<Rightarrow> Some \<lparr>certificate_hash = Some (hex_encode h), package_name = Some (c_text n)\<rparr>
           | _ \<Rightarrow> None)
      | _ \<Rightarrow> None)"

lemma contents_of_simps [simp]:
  "contents_of tag [] = []"
  "contents_of tag (t # ts) = (if tlv_tag t = tag then tlv_value t # contents_of tag ts else contents_of tag ts)"
  by (simp_all add: contents_of_def)

text \<open>The loop over a REF-DO's fields, from any rule read so far.\<close>

definition hash_list :: "access_rule \<Rightarrow> tlv list \<Rightarrow> string list" where
  "hash_list rule ts = (case certificate_hash rule of None \<Rightarrow> [] | Some h \<Rightarrow> [h]) @ map hex_encode (contents_of 0xC1 ts)"

definition name_list :: "access_rule \<Rightarrow> tlv list \<Rightarrow> string list" where
  "name_list rule ts = (case package_name rule of None \<Rightarrow> [] | Some h \<Rightarrow> [h]) @ map c_text (contents_of 0xCA ts)"

definition opt_of :: "'a list \<Rightarrow> 'a option" where
  "opt_of xs = (case xs of [] \<Rightarrow> None | x # _ \<Rightarrow> Some x)"

lemma read_rule_fields:
  "try_fold read_rule_field rule ts = Inr r \<longleftrightarrow>
     length (hash_list rule ts) \<le> 1 \<and> length (name_list rule ts) \<le> 1 \<and>
     r = \<lparr>certificate_hash = opt_of (hash_list rule ts), package_name = opt_of (name_list rule ts)\<rparr>"
proof (induction ts arbitrary: rule)
  case Nil
  show ?case by (cases rule) (auto simp: hash_list_def name_list_def opt_of_def split: option.splits)
next
  case (Cons t ts)
  have one: "try_fold read_rule_field rule (t # ts) = Inr r \<longleftrightarrow>
    (\<exists>b. read_rule_field rule t = Inr b \<and> length (hash_list b ts) \<le> 1 \<and> length (name_list b ts) \<le> 1 \<and>
      r = \<lparr>certificate_hash = opt_of (hash_list b ts), package_name = opt_of (name_list b ts)\<rparr>)"
    by (simp add: and_then_Inr_iff Cons)
  show ?case
    unfolding one
    by (cases "certificate_hash rule"; cases "package_name rule"; cases "tlv_tag t = 0xC1"; cases "tlv_tag t = 0xCA")
      (auto simp: read_rule_field_def hash_list_def name_list_def opt_of_def)
qed

lemma read_rule_iff: "read_rule entry = Inr r \<longleftrightarrow> rule_of entry = Some r"
proof -
  have e1: "contents_of 0xE1 (tlvs (tlv_value entry)) =
    map tlv_value (filter (\<lambda>t. tlv_tag t = 0xE1) (tlvs (tlv_value entry)))"
    by (simp add: contents_of_def)
  show ?thesis
    by (auto simp: read_rule_def rule_of_def e1 and_then_Inr_iff read_rule_fields hash_list_def name_list_def
        opt_of_def le_Suc_eq length_Suc_conv split: list.splits if_splits)
qed

text \<open>\<open>map\<close> with a function that may fail on an element.\<close>

fun map_all :: "('a \<Rightarrow> 'b option) \<Rightarrow> 'a list \<Rightarrow> 'b list option" where
  "map_all f [] = Some []"
| "map_all f (x # xs) = (case f x of None \<Rightarrow> None | Some y \<Rightarrow> map_option (Cons y) (map_all f xs))"

lemma collect_rules:
  "try_fold (\<lambda>rules entry. and_then (read_rule entry) (\<lambda>rule. Inr (rules @ [rule]))) acc es = Inr rs \<longleftrightarrow>
     (\<exists>rs2. map_all rule_of es = Some rs2 \<and> rs = acc @ rs2)"
proof (induction es arbitrary: acc)
  case (Cons e es)
  show ?case
    by (cases "rule_of e") (auto simp: and_then_Inr_iff read_rule_iff Cons)
qed auto

text \<open>
  An access-rule extension is accepted exactly when every one of its REF-AR-DO entries has a single
  REF-DO with exactly one certificate hash and at most one package name; the rules then are those
  of the entries, in order, and every one has a certificate hash.
\<close>

theorem parse_access_rules_iff:
  "parse_access_rules v = Inr rules \<longleftrightarrow>
     map_all rule_of (filter (\<lambda>t. tlv_tag t = 0xE2) (tlvs v)) = Some rules"
  by (simp add: parse_access_rules_def collect_rules)

lemma rule_of_hash: "rule_of e = Some r \<Longrightarrow> certificate_hash r \<noteq> None"
  by (auto simp: rule_of_def split: list.splits)

lemma map_all_elements: "map_all f xs = Some ys \<Longrightarrow> y \<in> set ys \<Longrightarrow> \<exists>x \<in> set xs. f x = Some y"
  by (induction xs arbitrary: ys) (auto split: option.splits)

text \<open>
  A profile shown for acceptance never has an access rule without a certificate hash, and its ICCID
  never has more than twenty characters.
\<close>

theorem parse_metadata_safe:
  assumes "parse_metadata b64enc b64 = Inr m"
  shows "list_all (\<lambda>r. certificate_hash r \<noteq> None) (pm_access_rules m) \<and> length (pm_iccid m) \<le> 20"
proof -
  obtain req :: tlv where
    "try_fold (read_metadata_field b64enc) default_metadata (tlvs (tlv_value req)) = Inr m"
    using assms unfolding parse_metadata_def parse_store_metadata_def and_then_Inr_iff by blast
  then show ?thesis
  proof (rule try_fold_invariant)
    show "list_all (\<lambda>r. certificate_hash r \<noteq> None) (pm_access_rules default_metadata) \<and>
      length (pm_iccid default_metadata) \<le> 20"
      by (simp add: default_metadata_def)
  next
    fix a x b
    assume "list_all (\<lambda>r. certificate_hash r \<noteq> None) (pm_access_rules a) \<and> length (pm_iccid a) \<le> 20"
      and "read_metadata_field b64enc a x = Inr b"
    moreover have "list_all (\<lambda>r. certificate_hash r \<noteq> None) rules" if "parse_access_rules v = Inr rules" for v rules
      using that rule_of_hash by (fastforce simp: parse_access_rules_def collect_rules list_all_iff dest: map_all_elements)
    moreover have "length (bcd_to_iccid v) \<le> 20" if "length v \<le> 10" for v
      using length_bcd_to_iccid [of v] that by simp
    ultimately show "list_all (\<lambda>r. certificate_hash r \<noteq> None) (pm_access_rules b) \<and> length (pm_iccid b) \<le> 20"
      by (auto simp: read_metadata_field_def Let_def and_then_Inr_iff split: if_splits)
  qed
qed

theorem parse_metadata_safe_witness:
  "\<exists>m. parse_metadata b64_unpadded (b64_unpadded [0xBF, 0x25, 0x04, 0x5A, 0x02, 0x98, 0xF1]) = Inr m \<and>
     length (pm_iccid m) \<le> 20"
proof -
  have "b64_decode (b64_unpadded [0xBF, 0x25, 0x04, 0x5A, 0x02, 0x98, 0xF1]) = [0xBF, 0x25, 0x04, 0x5A, 0x02, 0x98, 0xF1]"
    using b64_decode_groups [of "[0xBF, 0x25, 0x04, 0x5A, 0x02, 0x98, 0xF1]"] .
  then have "\<exists>m. parse_metadata b64_unpadded (b64_unpadded [0xBF, 0x25, 0x04, 0x5A, 0x02, 0x98, 0xF1]) = Inr m"
    by (simp add: parse_metadata_def parse_store_metadata_def find_tag_def tlvs.simps parse_def parse_tag_def
        get_at_def parse_length_def get_range_def Let_def read_metadata_field_def)
  then show ?thesis using parse_metadata_safe by blast
qed

end
