(* ===== verification/Event_Topics.thy ===== *)
theory Event_Topics
  imports Boot_Clock
begin

text \<open>
  The topics of live updates (\<open>zte-agent/src/events/mod.rs\<close>): their names, their sampling and the sets
  of them a client subscribes to (a bit per topic in a \<open>u32\<close>). An array indexed by \<open>Topic as usize\<close>
  is a list, read at \<open>topic_index\<close>.
\<close>

unbundle bit_operations_syntax

datatype topic =
  Signal | Traffic | Battery | Health | Clients | Wan | Sim | Modem | Charger | BatteryInfo
| SimIdentity | Service | PowerState | Sms | EsimSwitch | EsimDownload | Processes | Usb
| Speedtest | Netscan | SignalDetect | Stk

datatype lane = Fast | Ubus | Unread

record topic_spec =
  ts_lane :: lane
  ts_cadence :: "duration option"
  always_bump :: bool
  max_age_on_subscribe :: "duration option"

definition from_millis :: "nat \<Rightarrow> duration" where
  "from_millis ms = ms * 1000000"

definition spec :: "lane \<Rightarrow> nat \<Rightarrow> nat \<Rightarrow> topic_spec" where
  "spec l cadence_ms max_age_s =
     \<lparr>ts_lane = l, ts_cadence = (if 0 < cadence_ms then Some (from_millis cadence_ms) else None), always_bump = False,
      max_age_on_subscribe = (if 0 < max_age_s then Some (from_secs max_age_s) else None)\<rparr>"

definition SPECS :: "topic_spec list" where
  "SPECS =
     [(spec Ubus 2000 0)\<lparr>always_bump := True\<rparr>, spec Ubus 1000 0, spec Fast 5000 0, spec Fast 2000 0,
      spec Ubus 10000 0, spec Ubus 0 30, spec Ubus 0 30, spec Ubus 0 30, spec Ubus 10000 10,
      spec Ubus 30000 10, spec Fast 0 0, spec Ubus 0 30, spec Unread 0 0, spec Unread 0 0, spec Fast 0 0,
      spec Fast 0 0, spec Fast 3000 0, spec Ubus 10000 10, spec Fast 0 0, spec Ubus 2000 0,
      spec Ubus 2000 0, spec Fast 0 0]"

definition NAMES :: string where
  "NAMES = ''signaltrafficbatteryhealthclientswansimmodemchargerbattery_info'' @
     ''sim_identityservicepower_statesmsesim_switchesim_downloadprocessesusbspeedtest'' @
     ''netscansignal_detectstk''"

definition NAME_END :: "nat list" where
  "NAME_END = [6, 13, 20, 26, 33, 36, 39, 44, 51, 63, 75, 82, 93, 96, 107, 120, 129, 132, 141, 148, 161, 164]"

definition all_topics :: "topic list" where
  "all_topics =
     [Signal, Traffic, Battery, Health, Clients, Wan, Sim, Modem, Charger, BatteryInfo, SimIdentity, Service,
      PowerState, Sms, EsimSwitch, EsimDownload, Processes, Usb, Speedtest, Netscan, SignalDetect, Stk]"

fun topic_index :: "topic \<Rightarrow> nat" where
  "topic_index Signal = 0" | "topic_index Traffic = 1" | "topic_index Battery = 2"
| "topic_index Health = 3" | "topic_index Clients = 4" | "topic_index Wan = 5"
| "topic_index Sim = 6" | "topic_index Modem = 7" | "topic_index Charger = 8"
| "topic_index BatteryInfo = 9" | "topic_index SimIdentity = 10" | "topic_index Service = 11"
| "topic_index PowerState = 12" | "topic_index Sms = 13" | "topic_index EsimSwitch = 14"
| "topic_index EsimDownload = 15" | "topic_index Processes = 16" | "topic_index Usb = 17"
| "topic_index Speedtest = 18" | "topic_index Netscan = 19" | "topic_index SignalDetect = 20"
| "topic_index Stk = 21"

definition topic_name :: "topic \<Rightarrow> string" where
  "topic_name t =
     (let i = topic_index t; start = (if i = 0 then 0 else NAME_END ! (i - 1))
      in take (NAME_END ! i - start) (drop start NAMES))"

definition from_name :: "string \<Rightarrow> topic option" where
  "from_name s = find (\<lambda>t. topic_name t = s) all_topics"

definition topic_spec_of :: "topic \<Rightarrow> topic_spec" where
  "topic_spec_of t = SPECS ! topic_index t"

section \<open>Sets of topics\<close>

type_synonym topic_set = "32 word"

definition ts_insert :: "topic \<Rightarrow> topic_set \<Rightarrow> topic_set" where
  "ts_insert t s = s OR push_bit (topic_index t) 1"

definition ts_contains :: "topic_set \<Rightarrow> topic \<Rightarrow> bool" where
  "ts_contains s t \<longleftrightarrow> s AND push_bit (topic_index t) 1 \<noteq> 0"

definition ts_iter :: "topic_set \<Rightarrow> topic list" where
  "ts_iter s = filter (ts_contains s) all_topics"

definition ts_from_iter :: "topic list \<Rightarrow> topic_set" where
  "ts_from_iter ts = fold ts_insert ts 0"

section \<open>Topics in order\<close>

lemma topic_index_bound: "topic_index t < 22"
  by (cases t) simp_all

lemma topic_at_index: "all_topics ! topic_index t = t"
  by (cases t) (simp_all add: all_topics_def)

lemma topic_index_inj: "topic_index t = topic_index u \<longleftrightarrow> t = u"
  by (metis topic_at_index)

lemma length_all_topics: "length all_topics = 22"
  by (simp add: all_topics_def)

lemma in_all_topics [simp]: "t \<in> set all_topics"
  using topic_at_index [of t] nth_mem [of "topic_index t" all_topics] topic_index_bound [of t]
  by (simp add: length_all_topics)

lemma all_topics_sorted: "map topic_index all_topics = [0 ..< 22]"
  by (simp add: all_topics_def upt_rec)

lemma distinct_all_topics: "distinct all_topics"
  using all_topics_sorted distinct_map [of topic_index all_topics] by (metis distinct_upt)

instantiation topic :: linorder
begin

definition less_eq_topic :: "topic \<Rightarrow> topic \<Rightarrow> bool" where
  "less_eq_topic t u \<longleftrightarrow> topic_index t \<le> topic_index u"

definition less_topic :: "topic \<Rightarrow> topic \<Rightarrow> bool" where
  "less_topic t u \<longleftrightarrow> topic_index t < topic_index u"

instance
  by standard (auto simp: less_eq_topic_def less_topic_def topic_index_inj)

end

lemma ts_contains_iff: "ts_contains s t \<longleftrightarrow> bit s (topic_index t)"
  using topic_index_bound [of t] by (simp add: ts_contains_def bit_iff_and_push_bit_not_eq_0)

lemma ts_contains_0 [simp]: "\<not> ts_contains 0 t"
  by (simp add: ts_contains_def)

lemma ts_contains_insert [simp]: "ts_contains (ts_insert t s) u \<longleftrightarrow> u = t \<or> ts_contains s u"
  using topic_index_bound [of u] by (auto simp: ts_contains_iff ts_insert_def bit_simps topic_index_inj)

lemma ts_contains_from_iter: "ts_contains (ts_from_iter ts) t \<longleftrightarrow> t \<in> set ts"
proof -
  have "ts_contains (fold ts_insert ts s) t \<longleftrightarrow> t \<in> set ts \<or> ts_contains s t" for s
    by (induction ts arbitrary: s) auto
  then show ?thesis by (simp add: ts_from_iter_def)
qed

lemma set_ts_iter [simp]: "t \<in> set (ts_iter s) \<longleftrightarrow> ts_contains s t"
  by (simp add: ts_iter_def)

lemma distinct_ts_iter [simp]: "distinct (ts_iter s)"
  by (simp add: ts_iter_def distinct_all_topics)

lemma sorted_all_topics: "sorted all_topics"
proof -
  have "sorted_wrt (\<lambda>t u. topic_index t \<le> topic_index u) all_topics"
    using all_topics_sorted sorted_map [of topic_index all_topics] by (metis sorted_upt)
  then show ?thesis by (rule sorted_wrt_mono_rel [rotated]) (simp add: less_eq_topic_def)
qed

lemma ts_iter_from_iter: "ts_iter (ts_from_iter ts) = sorted_list_of_set (set ts)"
proof (rule sorted_distinct_set_unique)
  show "sorted (ts_iter (ts_from_iter ts))" by (simp add: ts_iter_def sorted_wrt_filter sorted_all_topics)
  show "set (ts_iter (ts_from_iter ts)) = set (sorted_list_of_set (set ts))"
    by (auto simp: ts_contains_from_iter)
qed simp_all

definition name_list :: "string list" where
  "name_list =
     [''signal'', ''traffic'', ''battery'', ''health'', ''clients'', ''wan'', ''sim'', ''modem'', ''charger'',
      ''battery_info'', ''sim_identity'', ''service'', ''power_state'', ''sms'', ''esim_switch'', ''esim_download'',
      ''processes'', ''usb'', ''speedtest'', ''netscan'', ''signal_detect'', ''stk'']"

lemma NAMES_concat: "NAMES = concat name_list"
  by (simp add: NAMES_def name_list_def)

fun ends :: "nat \<Rightarrow> string list \<Rightarrow> nat list" where
  "ends n [] = []"
| "ends n (s # ss) = (n + length s) # ends (n + length s) ss"

lemma NAME_END_ends: "NAME_END = ends 0 name_list"
  by (simp add: NAME_END_def name_list_def)

lemma ends_nth: "i < length ss \<Longrightarrow> ends n ss ! i = n + length (concat (take (Suc i) ss))"
  by (induction n ss arbitrary: i rule: ends.induct) (auto simp: nth_Cons split: nat.split)

lemma drop_concat: "drop (length (concat (take i ss))) (concat ss) = concat (drop i ss)"
  by (metis append_eq_conv_conj append_take_drop_id concat_append)

lemma length_name_list: "length name_list = 22"
  by (simp add: name_list_def)

lemma topic_name_nth: "topic_name t = name_list ! topic_index t"
proof -
  let ?i = "topic_index t"
  have i: "?i < length name_list" using topic_index_bound [of t] by (simp add: length_name_list)
  have "(if ?i = 0 then 0 else NAME_END ! (?i - 1)) = length (concat (take ?i name_list))"
    using i ends_nth [of "?i - 1" name_list 0] by (simp add: NAME_END_ends)
  moreover have "NAME_END ! ?i - length (concat (take ?i name_list)) = length (name_list ! ?i)"
    using ends_nth [OF i, of 0] i by (simp add: NAME_END_ends take_Suc_conv_app_nth)
  moreover have "take (length (name_list ! ?i)) (concat (drop ?i name_list)) = name_list ! ?i"
    using i by (simp add: Cons_nth_drop_Suc [symmetric])
  ultimately show ?thesis by (simp add: topic_name_def NAMES_concat drop_concat Let_def)
qed

lemma names_distinct: "distinct (map topic_name all_topics)"
proof -
  have "map topic_name all_topics = map ((!) name_list) (map topic_index all_topics)" by (simp add: topic_name_nth)
  also have "\<dots> = name_list" by (simp only: all_topics_sorted map_nth [of name_list, unfolded length_name_list])
  finally show ?thesis by (simp add: name_list_def)
qed

lemma from_name_iff: "from_name s = Some t \<longleftrightarrow> s = topic_name t"
proof -
  have "inj_on topic_name (set all_topics)" using names_distinct by (simp add: distinct_map)
  from inj_on_eq_iff [OF this in_all_topics in_all_topics]
  have inj: "topic_name u = topic_name t \<longleftrightarrow> u = t" for u .
  show ?thesis
  proof
    show "from_name s = Some t \<Longrightarrow> s = topic_name t" by (auto simp: from_name_def find_Some_iff)
    assume "s = topic_name t"
    then have "find (\<lambda>u. topic_name u = s) all_topics = find (\<lambda>u. u = t) all_topics"
      by (simp add: inj)
    then show "from_name s = Some t"
      using in_all_topics [of t] by (cases "find (\<lambda>u. u = t) all_topics") (auto simp: from_name_def find_None_iff find_Some_iff)
  qed
qed

text \<open>
  Topic names and sets are what clients may rely on: a string names a topic exactly when it is that
  topic's name, and the set collected from any list of topics holds exactly these and lists each of
  them once, in the topics' order.
\<close>

theorem topic_names_and_sets:
  "(from_name s = Some t \<longleftrightarrow> s = topic_name t) \<and>
   (ts_contains (ts_from_iter ts) t \<longleftrightarrow> t \<in> set ts) \<and> ts_iter (ts_from_iter ts) = sorted_list_of_set (set ts)"
  by (simp add: from_name_iff ts_contains_from_iter ts_iter_from_iter)

end
