(* ===== verification/Signal_History.thy ===== *)
theory Signal_History
  imports Boot_Clock
begin

text \<open>
  The signal chart's ring of readings (\<open>zte-agent/src/events/history.rs\<close>): a fixed array, the next slot
  and the length, against the list of the last readings it stands for. A reading's three levels are
  what the JSON filter (\<open>live_activity::number\<close>, then rounding) makes of the route's data: a whole
  number of dBm or nothing; an \<open>i16\<close> is an \<open>int\<close> in its range.
\<close>

definition LEN :: nat where "LEN = 120"

definition NO_LEVEL :: int where "NO_LEVEL = - 32768"

record hist_point =
  at_ms :: nat
  nr_rsrp :: int
  lte_rsrp :: int
  rscp :: int

definition EMPTY :: hist_point where
  "EMPTY = \<lparr>at_ms = 0, nr_rsrp = NO_LEVEL, lte_rsrp = NO_LEVEL, rscp = NO_LEVEL\<rparr>"

record signal_history =
  points :: "hist_point list"
  next_slot :: nat
  hist_len :: nat

definition history_new :: signal_history where
  "history_new = \<lparr>points = replicate LEN EMPTY, next_slot = 0, hist_len = 0\<rparr>"

definition level :: "int option \<Rightarrow> int" where
  "level v = (case v of None \<Rightarrow> NO_LEVEL | Some d \<Rightarrow> d)"

definition hist_push :: "boot_instant \<Rightarrow> int option \<Rightarrow> int option \<Rightarrow> int option \<Rightarrow> signal_history \<Rightarrow> signal_history" where
  "hist_push at nr lte wcdma h =
     \<lparr>points = (points h)[next_slot h := \<lparr>at_ms = as_millis at, nr_rsrp = level nr, lte_rsrp = level lte, rscp = level wcdma\<rparr>],
      next_slot = (next_slot h + 1) mod LEN, hist_len = min (hist_len h + 1) LEN\<rparr>"

definition hist_list :: "signal_history \<Rightarrow> hist_point list" where
  "hist_list h =
     (let start = (next_slot h + LEN - hist_len h) mod LEN
      in map (\<lambda>i. points h ! ((start + i) mod LEN)) [0 ..< hist_len h])"

section \<open>The list it stands for\<close>

definition ring_ok :: "signal_history \<Rightarrow> bool" where
  "ring_ok h \<longleftrightarrow> length (points h) = LEN \<and> next_slot h < LEN \<and> hist_len h \<le> LEN"

lemma LEN_pos: "0 < LEN"
  by (simp add: LEN_def)

lemma ring_ok_new: "ring_ok history_new"
  by (simp add: ring_ok_def history_new_def LEN_def)

lemma ring_ok_push: "ring_ok h \<Longrightarrow> ring_ok (hist_push at nr lte w h)"
  by (simp add: ring_ok_def hist_push_def LEN_pos)

lemma hist_len_push [simp]: "hist_len (hist_push at nr lte w h) = min (hist_len h + 1) LEN"
  by (simp add: hist_push_def)

lemma length_hist_list [simp]: "length (hist_list h) = hist_len h"
  by (simp add: hist_list_def Let_def)

lemma ring_index:
  "ring_ok h \<Longrightarrow> i < hist_len h \<Longrightarrow> hist_list h ! i = points h ! ((next_slot h + (LEN - hist_len h) + i) mod LEN)"
  by (simp add: hist_list_def Let_def ring_ok_def mod_add_left_eq add.assoc)

lemma mod_ring: "a < n \<Longrightarrow> b \<le> n \<Longrightarrow> (a + b) mod n = (if a + b < n then a + b else a + b - (n :: nat))"
  by (auto simp: mod_if)

text \<open>The slot at a distance from the next one, before and after a push.\<close>

definition at_distance :: "signal_history \<Rightarrow> nat \<Rightarrow> hist_point" where
  "at_distance h d = points h ! ((next_slot h + d) mod LEN)"

lemma hist_list_distance: "ring_ok h \<Longrightarrow> hist_list h = map (\<lambda>i. at_distance h (LEN - hist_len h + i)) [0 ..< hist_len h]"
  by (intro nth_equalityI) (simp_all add: ring_index at_distance_def add.assoc)

lemma distance_push:
  assumes "ring_ok h" and "d < LEN"
  shows "at_distance (hist_push at nr lte w h) d =
    (if d = LEN - 1 then \<lparr>at_ms = as_millis at, nr_rsrp = level nr, lte_rsrp = level lte, rscp = level w\<rparr>
     else at_distance h (d + 1))"
proof -
  have h: "length (points h) = LEN" "next_slot h < LEN" using assms(1) by (simp_all add: ring_ok_def)
  have "((next_slot h + 1) mod LEN + d) mod LEN = (next_slot h + (d + 1)) mod LEN"
    using mod_add_left_eq [of "next_slot h + 1" LEN d] by (simp add: ac_simps)
  moreover have "(next_slot h + (d + 1)) mod LEN = next_slot h \<longleftrightarrow> d = LEN - 1"
    using mod_ring [OF h(2), of "d + 1"] assms(2) by auto
  ultimately show ?thesis using h by (auto simp: at_distance_def hist_push_def nth_list_update)
qed

lemma hist_push_list:
  assumes "ring_ok h"
  shows "hist_list (hist_push at nr lte w h) =
    (if hist_len h < LEN then hist_list h else tl (hist_list h)) @
    [\<lparr>at_ms = as_millis at, nr_rsrp = level nr, lte_rsrp = level lte, rscp = level w\<rparr>]"
  (is "hist_list ?h = _ @ [?p]")
proof -
  have ok: "ring_ok ?h" "hist_len ?h = min (hist_len h + 1) LEN"
    using ring_ok_push [OF assms] by (simp_all add: hist_push_def)
  have L: "hist_len h \<le> LEN" using assms by (simp add: ring_ok_def)
  show ?thesis
  proof (cases "hist_len h < LEN")
    case True
    then have "hist_list ?h = map (\<lambda>i. at_distance ?h (LEN - (hist_len h + 1) + i)) [0 ..< hist_len h + 1]"
      using hist_list_distance [OF ok(1)] ok(2) by simp
    also have "\<dots> = map (\<lambda>i. at_distance h (LEN - hist_len h + i)) [0 ..< hist_len h] @ [?p]"
      using True by (simp add: distance_push [OF assms] Suc_diff_Suc)
    finally show ?thesis using True hist_list_distance [OF assms] by simp
  next
    case False
    then have full: "hist_len h = LEN" using L by simp
    have "hist_list ?h = map (\<lambda>i. at_distance ?h i) [0 ..< LEN]"
      using hist_list_distance [OF ok(1)] ok(2) full by simp
    also have "\<dots> = map (\<lambda>i. at_distance h (Suc i)) [0 ..< LEN - 1] @ [?p]"
    proof -
      obtain n where n: "LEN = Suc n" using LEN_pos by (metis Suc_pred')
      have up: "[0 ..< LEN] = [0 ..< n] @ [n]" "LEN - 1 = n" by (simp_all add: n)
      have "at_distance ?h i = at_distance h (Suc i)" if "i < n" for i
        using that n by (subst distance_push [OF assms]) simp_all
      moreover have "at_distance ?h n = ?p" using n by (subst distance_push [OF assms]) simp_all
      ultimately show ?thesis by (simp only: up map_append list.map) simp
    qed
    also have "map (\<lambda>i. at_distance h (Suc i)) [0 ..< LEN - 1] = tl (hist_list h)"
    proof -
      have "map (\<lambda>i. at_distance h (Suc i)) [0 ..< LEN - 1] = map (at_distance h) (map Suc [0 ..< LEN - 1])" by simp
      also have "map Suc [0 ..< LEN - 1] = [1 ..< LEN]" using LEN_pos by (simp only: map_Suc_upt) simp
      also have "map (at_distance h) [1 ..< LEN] = tl (map (at_distance h) [0 ..< LEN])"
        using upt_conv_Cons [OF LEN_pos] by simp
      finally show ?thesis using hist_list_distance [OF assms] full by simp
    qed
    finally show ?thesis using False by simp
  qed
qed

text \<open>
  The ring shows the last readings: after any number of readings the chart's list is exactly the
  last 120 of them, oldest first, and every slot it shows was written.
\<close>

theorem history_is_last_120:
  "hist_list (fold (\<lambda>(at, nr, lte, w) h. hist_push at nr lte w h) rs history_new) =
   drop (length rs - 120)
     (map (\<lambda>(at, nr, lte, w). \<lparr>at_ms = as_millis at, nr_rsrp = level nr, lte_rsrp = level lte, rscp = level w\<rparr>) rs)"
proof -
  let ?f = "\<lambda>(at, nr, lte, w) h. hist_push at nr lte w h"
  let ?p = "\<lambda>(at, nr, lte, w). \<lparr>at_ms = as_millis at, nr_rsrp = level nr, lte_rsrp = level lte, rscp = level w\<rparr>"
  have "ring_ok (fold ?f rs history_new) \<and> hist_list (fold ?f rs history_new) = drop (length rs - LEN) (map ?p rs) \<and>
      hist_len (fold ?f rs history_new) = min (length rs) LEN"
  proof (induction rs rule: rev_induct)
    case Nil
    then show ?case by (simp add: ring_ok_new) (simp add: history_new_def hist_list_def)
  next
    case (snoc r rs)
    obtain at nr lte w where r: "r = (at, nr, lte, w)" by (cases r)
    define h where "h = fold ?f rs history_new"
    have h: "ring_ok h" "hist_list h = drop (length rs - LEN) (map ?p rs)" "hist_len h = min (length rs) LEN"
      using snoc by (simp_all add: h_def)
    have "fold ?f (rs @ [r]) history_new = hist_push at nr lte w h" by (simp add: r h_def)
    moreover have "hist_list (hist_push at nr lte w h) = drop (length (rs @ [r]) - LEN) (map ?p (rs @ [r]))"
      using hist_push_list [OF h(1)] h(2,3)
      by (cases "length rs < LEN") (auto simp: r tl_drop drop_Suc Suc_diff_le Suc_leI [OF LEN_pos])
    ultimately show ?case using ring_ok_push [OF h(1)] h(3) by simp
  qed
  then show ?thesis by (simp add: LEN_def)
qed

end
