(* ===== verification/Event_Hub.thy ===== *)
theory Event_Hub
  imports Event_Topics Signal_History "HOL-Library.Sublist"
begin

text \<open>
  The hub of live updates (\<open>zte-agent/src/events/hub.rs\<close>): the latest value of every topic, who is
  subscribed to what and when the sampler reads next. A JSON value is of any type \<open>'v\<close>; the few
  members the hub itself looks at and the objects it builds are given by a \<open>reader\<close>; the monotonic and the boot clock are arguments
  of the operations that read them. An array indexed by topics is a function of the topic. Each
  operation runs under the hub's lock and is one step; the sampler lanes it wakes are its result. The
  \<open>watch\<close> channel is the sequence number. Counters of \<open>u64\<close> are natural numbers, and so is the
  \<open>u16\<close> of the demand, which never exceeds the number of entries (shown with the invariant).
\<close>

definition MAX_STREAMS :: nat where "MAX_STREAMS = 8"
definition MAX_PER_OWNER :: nat where "MAX_PER_OWNER = 3"
definition MAX_CONNS :: nat where "MAX_CONNS = 64"
definition ENTRY_TABLE :: nat where "ENTRY_TABLE = MAX_CONNS"

definition SIGNAL_CADENCE :: duration where "SIGNAL_CADENCE = from_secs 2"
definition SIGNAL_HINT_MIN :: duration where "SIGNAL_HINT_MIN = from_secs 1"
definition SIGNAL_HINT_MAX :: duration where "SIGNAL_HINT_MAX = from_secs 10"
definition TOUCH_COALESCE :: duration where "TOUCH_COALESCE = from_millis 500"
definition SETTLE_REREAD :: duration where "SETTLE_REREAD = from_secs 2"
definition ERR_BACKOFF_MIN :: duration where "ERR_BACKOFF_MIN = from_secs 5"
definition ERR_BACKOFF_MAX :: duration where "ERR_BACKOFF_MAX = from_secs 60"
definition RESULT_KEEP_SECS :: nat where "RESULT_KEEP_SECS = 600"

section \<open>State\<close>

record 'v reader =
  rd_levels :: "'v \<Rightarrow> int option \<times> int option \<times> int option"
  rd_state :: "'v \<Rightarrow> string option"
  rd_finished_at :: "'v \<Rightarrow> nat option"
  rd_network_type :: "'v \<Rightarrow> string option"
  rd_action :: "'v \<Rightarrow> string option"
  rd_wms_status :: "'v \<Rightarrow> string option"
  json_received :: "nat \<Rightarrow> 'v"
  json_network_type :: "string \<Rightarrow> 'v"
  json_power :: "string \<Rightarrow> 'v \<Rightarrow> 'v"
  json_identity :: "'v \<Rightarrow> 'v"

record 'v slot_view =
  sv_version :: nat
  sv_at :: boot_instant
  sv_value_at :: boot_instant
  sv_value :: "'v option"
  sv_error :: "string option"

record 'v read_out =
  ro_value :: "'v option"
  ro_error :: "string option"

datatype end_reason = Evicted | LoggedOut | Standby

datatype stream_wake = Changed | Ended end_reason

record subscribe_req =
  rq_owner :: nat
  rq_topics :: topic_set
  rq_signal_hint :: "duration option"
  rq_replace_same :: "nat option"

record 'v hub_slot =
  version :: nat
  slot_at :: boot_instant
  value_at :: boot_instant
  slot_value :: "'v option"
  slot_error :: "string option"
  read_started :: "duration option"
  last_read :: "duration option"
  stale :: bool
  touched_at :: "duration option"
  pull_after :: "duration option"
  settle_until :: "duration option"
  err_backoff :: duration
  err_retry :: bool
  recheck_at :: "duration option"
  announce :: bool

definition default_slot :: "'v hub_slot" where
  "default_slot =
     \<lparr>version = 0, slot_at = 0, value_at = 0, slot_value = None, slot_error = None, read_started = None,
      last_read = None, stale = False, touched_at = None, pull_after = None, settle_until = None,
      err_backoff = 0, err_retry = False, recheck_at = None, announce = False\<rparr>"

definition view :: "'v hub_slot \<Rightarrow> 'v slot_view" where
  "view s = \<lparr>sv_version = version s, sv_at = slot_at s, sv_value_at = value_at s, sv_value = slot_value s,
     sv_error = slot_error s\<rparr>"

definition has_data :: "'v hub_slot \<Rightarrow> bool" where
  "has_data s \<longleftrightarrow> slot_value s \<noteq> None \<or> slot_error s \<noteq> None"

record stream_entry =
  se_owner :: nat
  se_topics :: topic_set
  signal_hint :: "duration option"
  replace_same :: "nat option"
  serial :: nat
  ended :: "end_reason option"

record 'v hub =
  seq :: nat
  slots :: "topic \<Rightarrow> 'v hub_slot"
  demand :: "topic \<Rightarrow> nat"
  signal_cadence :: duration
  history :: signal_history
  sms_received :: nat
  streams :: "stream_entry option list"
  next_serial :: nat

definition hub_empty :: "'v hub" where
  "hub_empty =
     \<lparr>seq = 0, slots = (\<lambda>_. default_slot), demand = (\<lambda>_. 0), signal_cadence = SIGNAL_CADENCE,
      history = history_new, sms_received = 0, streams = replicate ENTRY_TABLE None, next_serial = 0\<rparr>"

record lanes =
  fast :: bool
  ubus :: bool

definition no_lanes :: lanes where
  "no_lanes = \<lparr>fast = False, ubus = False\<rparr>"

definition lanes_add :: "lane \<Rightarrow> lanes \<Rightarrow> lanes" where
  "lanes_add l ls = (case l of Fast \<Rightarrow> ls\<lparr>fast := True\<rparr> | Ubus \<Rightarrow> ls\<lparr>ubus := True\<rparr> | Unread \<Rightarrow> ls)"

section \<open>Entries and demand\<close>

definition lanes_join :: "lanes \<Rightarrow> lanes \<Rightarrow> lanes" where
  "lanes_join k l = \<lparr>fast = (fast k \<or> fast l), ubus = (ubus k \<or> ubus l)\<rparr>"

definition set_slot :: "topic \<Rightarrow> 'v hub_slot \<Rightarrow> 'v hub \<Rightarrow> 'v hub" where
  "set_slot t s st = st\<lparr>slots := (slots st)(t := s)\<rparr>"

definition cadence :: "'v hub \<Rightarrow> topic \<Rightarrow> duration option" where
  "cadence st t =
     (case ts_cadence (topic_spec_of t) of
        None \<Rightarrow> None
      | Some base \<Rightarrow> Some (if t = Signal then signal_cadence st else base))"

definition live :: "'v hub \<Rightarrow> (nat \<times> stream_entry) list" where
  "live st = List.map_filter (\<lambda>(i, e). case e of
       Some e \<Rightarrow> if ended e = None then Some (i, e) else None | None \<Rightarrow> None)
     (enumerate 0 (streams st))"

text \<open>\<open>release\<close> gives back one stream's demand for its topics.\<close>

definition release :: "topic_set \<Rightarrow> 'v hub \<times> lanes \<Rightarrow> 'v hub \<times> lanes" where
  "release ts = fold (\<lambda>t (st, ls).
     (st\<lparr>demand := (demand st)(t := demand st t - 1)\<rparr>, lanes_add (ts_lane (topic_spec_of t)) ls)) (ts_iter ts)"

definition end_entry :: "nat \<Rightarrow> end_reason \<Rightarrow> 'v hub \<times> lanes \<Rightarrow> 'v hub \<times> lanes" where
  "end_entry i reason = (\<lambda>(st, ls).
     case streams st ! i of
       Some e \<Rightarrow>
         if ended e = None
         then release (se_topics e) (st\<lparr>streams := (streams st)[i := Some (e\<lparr>ended := Some reason\<rparr>)]\<rparr>, ls)
         else (st, ls)
     | None \<Rightarrow> (st, ls))"

definition clamp_hint :: "duration option \<Rightarrow> duration" where
  "clamp_hint hint =
     (let h = (case hint of Some h \<Rightarrow> h | None \<Rightarrow> SIGNAL_CADENCE)
      in if h < SIGNAL_HINT_MIN then SIGNAL_HINT_MIN else if SIGNAL_HINT_MAX < h then SIGNAL_HINT_MAX else h)"

definition recompute_signal_cadence :: "'v hub \<Rightarrow> 'v hub" where
  "recompute_signal_cadence st =
     st\<lparr>signal_cadence :=
       (case map (\<lambda>(_, e). clamp_hint (signal_hint e)) (filter (\<lambda>(_, e). ts_contains (se_topics e) Signal) (live st)) of
          [] \<Rightarrow> SIGNAL_CADENCE
        | c # cs \<Rightarrow> fold min cs c)\<rparr>"

section \<open>What is due\<close>

definition earlier :: "duration \<Rightarrow> duration option \<Rightarrow> duration option" where
  "earlier d due = Some (case due of None \<Rightarrow> d | Some x \<Rightarrow> min x d)"

definition due_time :: "'v hub \<Rightarrow> topic \<Rightarrow> duration \<Rightarrow> duration option" where
  "due_time st t now =
     (let s = slots st t;
          due = (case last_read s of
              None \<Rightarrow> earlier now None
            | Some prev \<Rightarrow>
                let due = (case cadence st t of Some c \<Rightarrow> earlier (prev + c) None | None \<Rightarrow> None);
                    due = (if (case settle_until s of Some u \<Rightarrow> now < u | None \<Rightarrow> False)
                           then earlier (prev + SETTLE_REREAD) due else due)
                in if err_retry s \<and> cadence st t = None then earlier (prev + err_backoff s) due else due);
          due = (if stale s then earlier (case pull_after s of Some p \<Rightarrow> p | None \<Rightarrow> now) due else due)
      in case recheck_at s of Some r \<Rightarrow> earlier r due | None \<Rightarrow> due)"

text \<open>
  \<open>due_job_locked\<close>: the topic to read (\<open>Inr\<close>), or how long to park (\<open>Inl\<close>).
\<close>

definition better :: "'v hub \<Rightarrow> lane \<Rightarrow> duration \<Rightarrow> topic \<Rightarrow> (duration \<times> topic) option \<Rightarrow> (duration \<times> topic) option" where
  "better st l now t best =
     (if l = Unread \<or> ts_lane (topic_spec_of t) \<noteq> l \<or> demand st t = 0 then best
      else case due_time st t now of
        None \<Rightarrow> best
      | Some due \<Rightarrow> (if (case best of None \<Rightarrow> True | Some (b, _) \<Rightarrow> due < b) then Some (due, t) else best))"

definition due_job :: "'v hub \<Rightarrow> lane \<Rightarrow> duration \<Rightarrow> duration option + topic" where
  "due_job st l now =
     (case fold (better st l now) all_topics None of
        Some (due, t) \<Rightarrow> if due \<le> now then Inr t else Inl (Some due)
      | None \<Rightarrow> Inl None)"

definition result_expiry :: "'v reader \<Rightarrow> 'v \<Rightarrow> nat \<Rightarrow> duration option" where
  "result_expiry rd v unix_now =
     (if rd_state rd v \<notin> {Some ''done'', Some ''failed'', Some ''cancelled''} then None
      else case rd_finished_at rd v of
        None \<Rightarrow> None
      | Some finished \<Rightarrow>
          let left = int finished + int RESULT_KEEP_SECS - int unix_now;
              left = (if left < 1 then 1 else if int RESULT_KEEP_SECS < left then int RESULT_KEEP_SECS else left)
          in Some (from_secs (nat left + 1)))"

section \<open>Values\<close>

definition wake_streams :: "'v hub \<Rightarrow> 'v hub" where
  "wake_streams st = st\<lparr>seq := seq st + 1\<rparr>"

definition bump :: "topic \<Rightarrow> 'v hub \<Rightarrow> 'v hub" where
  "bump t st =
     (let st = wake_streams st in set_slot t ((slots st t)\<lparr>version := seq st\<rparr>) st)"

text \<open>\<open>put\<close> (and \<open>set\<close>): a pushed value, stored as a fresh read.\<close>

definition put :: "duration \<Rightarrow> boot_instant \<Rightarrow> topic \<Rightarrow> 'v \<Rightarrow> 'v hub \<Rightarrow> 'v hub" where
  "put now at t data st =
     (let old = slots st t;
          s = old\<lparr>read_started := Some now, last_read := Some now, slot_at := at, value_at := at, stale := False,
                pull_after := None, err_backoff := 0, err_retry := False, announce := False\<rparr>
      in if slot_error s \<noteq> None \<or> slot_value s \<noteq> Some data \<or> announce old
         then bump t (set_slot t (s\<lparr>slot_value := Some data, slot_error := None\<rparr>) st)
         else set_slot t s st)"

definition hub_new :: "'v reader \<Rightarrow> duration \<Rightarrow> boot_instant \<Rightarrow> 'v hub" where
  "hub_new rd now at = put now at Sms (json_received rd 0) hub_empty"

definition touch :: "duration \<Rightarrow> topic \<Rightarrow> duration option \<Rightarrow> 'v hub \<Rightarrow> 'v hub \<times> lanes" where
  "touch now t settle st =
     (let s = (slots st t)\<lparr>stale := True, touched_at := Some now\<rparr>;
          s = s\<lparr>pull_after := Some (case pull_after s of Some p \<Rightarrow> p | None \<Rightarrow> now + TOUCH_COALESCE)\<rparr>;
          s = (case settle of Some window \<Rightarrow> s\<lparr>settle_until := Some (now + window)\<rparr> | None \<Rightarrow> s)
      in (set_slot t s st, if 0 < demand st t then lanes_add (ts_lane (topic_spec_of t)) no_lanes else no_lanes))"

definition clamp_backoff :: "duration \<Rightarrow> duration" where
  "clamp_backoff d =
     (if d < ERR_BACKOFF_MIN then ERR_BACKOFF_MIN else if ERR_BACKOFF_MAX < d then ERR_BACKOFF_MAX else d)"

text \<open>
  \<open>store_at\<close>: a read's result (\<open>None\<close>: the topic has no reader) that began at \<open>started\<close>, in the
  code's steps: what a read always updates, the error bookkeeping, then the value.
\<close>

definition store_read :: "duration \<Rightarrow> boot_instant \<Rightarrow> duration \<Rightarrow> 'v hub_slot \<Rightarrow> 'v hub_slot" where
  "store_read now at started s =
     (let s = s\<lparr>read_started := Some started, last_read := Some now, slot_at := at\<rparr>
      in if (case touched_at s of None \<Rightarrow> True | Some x \<Rightarrow> x \<le> started)
         then s\<lparr>stale := False, pull_after := None\<rparr>
         else s\<lparr>pull_after := Some (now + TOUCH_COALESCE)\<rparr>)"

definition store_error :: "boot_instant \<Rightarrow> 'v read_out \<Rightarrow> 'v hub_slot \<Rightarrow> 'v hub_slot" where
  "store_error at out s =
     (let s = s\<lparr>err_backoff := (if ro_error out = None then 0 else clamp_backoff (err_backoff s * 2)),
                err_retry := (ro_error out \<noteq> None \<and> (ro_value out = None \<or> slot_error s \<noteq> ro_error out))\<rparr>
      in if ro_value out = None then s\<lparr>recheck_at := None\<rparr> else s\<lparr>value_at := at\<rparr>)"

definition store_value :: "'v reader \<Rightarrow> nat \<Rightarrow> duration \<Rightarrow> topic \<Rightarrow> 'v read_out \<Rightarrow> 'v hub_slot \<Rightarrow> bool \<times> 'v hub_slot" where
  "store_value rd unix_now now t out s =
     (case ro_value out of
        Some v \<Rightarrow>
          let s = (if t = EsimDownload
                   then s\<lparr>recheck_at := map_option (\<lambda>d. now + d) (result_expiry rd v unix_now)\<rparr> else s);
              changed = (slot_value s \<noteq> Some v \<or> slot_error s \<noteq> ro_error out)
          in (changed, if changed then s\<lparr>slot_value := Some v, slot_error := ro_error out\<rparr> else s)
      | None \<Rightarrow>
          if ro_error out \<noteq> None then (slot_error s \<noteq> ro_error out, s\<lparr>slot_error := ro_error out\<rparr>)
          else (False, s))"

definition push_history :: "'v reader \<Rightarrow> boot_instant \<Rightarrow> topic \<Rightarrow> 'v read_out \<Rightarrow> 'v hub \<Rightarrow> 'v hub" where
  "push_history rd at t out st =
     (case ro_value out of
        Some v \<Rightarrow>
          if t = Signal
          then (case rd_levels rd v of (nr, lte, w) \<Rightarrow> st\<lparr>history := hist_push at nr lte w (history st)\<rparr>)
          else st
      | None \<Rightarrow> st)"

definition store_at :: "'v reader \<Rightarrow> nat \<Rightarrow> duration \<Rightarrow> boot_instant \<Rightarrow> topic \<Rightarrow> 'v read_out option \<Rightarrow> duration \<Rightarrow> 'v hub \<Rightarrow> 'v hub" where
  "store_at rd unix_now now at t out started st =
     (if (case read_started (slots st t) of Some r \<Rightarrow> started < r | None \<Rightarrow> False) then st
      else
        let s = store_read now at started (slots st t)
        in case out of
             None \<Rightarrow> set_slot t s st
           | Some out \<Rightarrow>
               let s = store_error at out s;
                   ann = (ro_value out \<noteq> None \<and> announce s);
                   s = (if ro_value out \<noteq> None then s\<lparr>announce := False\<rparr> else s);
                   (changed, s) = store_value rd unix_now now t out s;
                   st = set_slot t s (push_history rd at t out st)
               in if changed \<or> ann \<or> always_bump (topic_spec_of t) then bump t st else st)"

definition peek :: "topic \<Rightarrow> 'v hub \<Rightarrow> 'v slot_view" where
  "peek t st = view (slots st t)"

definition cadences :: "topic_set \<Rightarrow> 'v hub \<Rightarrow> (topic \<times> duration) list" where
  "cadences ts st = List.map_filter (\<lambda>t. map_option (\<lambda>c. (t, c)) (cadence st t)) (ts_iter ts)"

section \<open>Ending streams\<close>

definition end_sessions :: "nat list \<Rightarrow> 'v hub \<Rightarrow> 'v hub \<times> lanes" where
  "end_sessions ids st =
     (let (st, ls) = fold (\<lambda>i (st, ls).
            case streams st ! i of
              Some e \<Rightarrow> if se_owner e \<in> set ids then end_entry i LoggedOut (st, ls) else (st, ls)
            | None \<Rightarrow> (st, ls)) [0 ..< ENTRY_TABLE] (st, no_lanes)
      in (wake_streams (recompute_signal_cadence st), ls))"

definition end_all :: "end_reason \<Rightarrow> 'v hub \<Rightarrow> 'v hub \<times> lanes" where
  "end_all reason st =
     (let (st, ls) = fold (\<lambda>i. end_entry i reason) [0 ..< ENTRY_TABLE] (st, no_lanes)
      in (wake_streams (recompute_signal_cadence st), ls))"

section \<open>The bus and the cache\<close>

text \<open>
  \<open>on_bus_event\<close> takes and releases the lock for each of its steps; here they follow one another. A
  missing action is the empty string, and \<open>json_power\<close> copies the payload's \<open>parameter\<close>.
\<close>

definition SIM_IDENTITY_EVENT :: string where "SIM_IDENTITY_EVENT = ''zte_agent.sim_identity''"

definition on_service_status :: "'v reader \<Rightarrow> duration \<Rightarrow> boot_instant \<Rightarrow> 'v \<Rightarrow> 'v hub \<Rightarrow> 'v hub \<times> lanes" where
  "on_service_status rd now at payload st =
     (let st = (case rd_network_type rd payload of
                  Some nt \<Rightarrow> if nt \<noteq> [] then put now at Service (json_network_type rd nt) st else st
                | None \<Rightarrow> st);
          (st, modem) = touch now Modem None st;
          (st, signal) = touch now Signal None st
      in (st, lanes_join modem signal))"

definition on_power_state :: "'v reader \<Rightarrow> duration \<Rightarrow> boot_instant \<Rightarrow> 'v \<Rightarrow> 'v hub \<Rightarrow> 'v hub \<times> lanes" where
  "on_power_state rd now at payload st =
     (let action = (case rd_action rd payload of Some a \<Rightarrow> a | None \<Rightarrow> []);
          st = put now at PowerState (json_power rd action payload) st
      in if prefix ''mode_power_off'' action then end_all Standby st else (st, no_lanes))"

definition on_new_sms :: "'v reader \<Rightarrow> duration \<Rightarrow> boot_instant \<Rightarrow> 'v hub \<Rightarrow> 'v hub" where
  "on_new_sms rd now at st =
     (let st = st\<lparr>sms_received := sms_received st + 1\<rparr>
      in put now at Sms (json_received rd (sms_received st)) st)"

definition on_bus_event :: "'v reader \<Rightarrow> duration \<Rightarrow> boot_instant \<Rightarrow> string \<Rightarrow> 'v \<Rightarrow> 'v hub \<Rightarrow> 'v hub \<times> lanes" where
  "on_bus_event rd now at event_name payload st =
     (if event_name = ''zwrt_servicestatus'' then on_service_status rd now at payload st
      else if event_name = ''zwrt_device_power_state_event'' then on_power_state rd now at payload st
      else if event_name = ''zwrt_wms_status_event'' \<and> rd_wms_status rd payload = Some ''new_sms_received''
      then (on_new_sms rd now at st, no_lanes)
      else if event_name = SIM_IDENTITY_EVENT
      then touch now EsimSwitch None (put now at SimIdentity (json_identity rd payload) st)
      else (st, no_lanes))"

definition WAN :: string where "WAN = ''network/wan''"
definition WAN6 :: string where "WAN6 = ''network/wan6''"
definition BATTERY_INFO :: string where "BATTERY_INFO = ''device/battery-info''"
definition CHARGER :: string where "CHARGER = ''device/charger''"
definition MODEM_DATA :: string where "MODEM_DATA = ''modem/data''"
definition SIM_INFO :: string where "SIM_INFO = ''sim/info''"

definition on_cache_invalidated :: "duration \<Rightarrow> string \<Rightarrow> duration option \<Rightarrow> 'v hub \<Rightarrow> 'v hub \<times> lanes" where
  "on_cache_invalidated now key settle st =
     (if key = WAN \<or> key = WAN6 then touch now Wan settle st
      else if key = MODEM_DATA then touch now Modem settle st
      else if key = SIM_INFO then touch now Sim settle st
      else if key = CHARGER then
        let (st, usb) = touch now Usb settle st; (st, charger) = touch now Charger settle st
        in (st, lanes_join usb charger)
      else if key = BATTERY_INFO then touch now BatteryInfo settle st
      else (st, no_lanes))"

section \<open>Subscribing\<close>

record subscription =
  sub_entry :: nat
  sub_topics :: topic_set
  seen :: "topic \<Rightarrow> nat"

fun min_serial :: "(nat \<times> stream_entry) list \<Rightarrow> (nat \<times> stream_entry) option" where
  "min_serial [] = None"
| "min_serial (x # xs) = Some (fold (\<lambda>y best. if serial (snd y) < serial (snd best) then y else best) xs x)"

definition evicted_by :: "subscribe_req \<Rightarrow> 'v hub \<Rightarrow> nat option" where
  "evicted_by req st =
     (let own = filter (\<lambda>(_, e). se_owner e = rq_owner req) (live st);
          oldest_own = map_option fst (min_serial own);
          same = map_option fst (find (\<lambda>(_, e). rq_replace_same req \<noteq> None \<and> replace_same e = rq_replace_same req \<and>
                   se_owner e = rq_owner req \<and> se_topics e = rq_topics req) (live st))
      in case same of
           Some i \<Rightarrow> Some i
         | None \<Rightarrow> if MAX_PER_OWNER \<le> length own then oldest_own else None)"

text \<open>A new subscriber's demand for one topic.\<close>

definition demand_topic :: "duration \<Rightarrow> boot_instant \<Rightarrow> topic \<Rightarrow> 'v hub \<times> lanes \<Rightarrow> 'v hub \<times> lanes" where
  "demand_topic now boot_now t = (\<lambda>(st, ls).
     let st = st\<lparr>demand := (demand st)(t := demand st t + 1)\<rparr>; sp = topic_spec_of t
     in if ts_lane sp = Unread then (st, ls)
        else
          let s = slots st t;
              age = saturating_duration_since boot_now (slot_at s);
              too_old = (case max_age_on_subscribe sp of Some m \<Rightarrow> m < age | None \<Rightarrow> False);
              s = (if has_data s \<and> (too_old \<or> (case cadence st t of Some c \<Rightarrow> 2 * c < age | None \<Rightarrow> False))
                   then s\<lparr>announce := True\<rparr> else s);
              s = (if last_read s = None \<or> too_old \<or> recheck_at s \<noteq> None
                   then s\<lparr>stale := True, pull_after := Some now\<rparr> else s)
          in (set_slot t s st, lanes_add (ts_lane sp) ls))"

definition subscribe :: "duration \<Rightarrow> boot_instant \<Rightarrow> subscribe_req \<Rightarrow> 'v hub \<Rightarrow> subscription option \<times> 'v hub \<times> lanes" where
  "subscribe now boot_now req st =
     (let evict = evicted_by req st
      in if MAX_STREAMS \<le> length (live st) - (if evict = None then 0 else 1) then (None, st, no_lanes)
         else case position (\<lambda>e. e = None) (streams st) of
           None \<Rightarrow> (None, st, no_lanes)
         | Some entry \<Rightarrow>
             let (st, ls) = (case evict of
                   Some i \<Rightarrow> (case end_entry i Evicted (st, no_lanes) of (st, ls) \<Rightarrow> (wake_streams st, ls))
                 | None \<Rightarrow> (st, no_lanes));
                 st = st\<lparr>next_serial := next_serial st + 1\<rparr>;
                 st = st\<lparr>streams := (streams st)[entry := Some \<lparr>se_owner = rq_owner req, se_topics = rq_topics req,
                        signal_hint = rq_signal_hint req, replace_same = rq_replace_same req,
                        serial = next_serial st, ended = None\<rparr>]\<rparr>;
                 (st, ls) = fold (demand_topic now boot_now) (ts_iter (rq_topics req)) (st, ls)
             in (Some \<lparr>sub_entry = entry, sub_topics = rq_topics req, seen = (\<lambda>_. 0)\<rparr>,
                 recompute_signal_cadence st, ls))"

section \<open>A subscription\<close>

definition collect_changes :: "bool \<Rightarrow> 'v hub \<Rightarrow> subscription \<Rightarrow> (topic \<times> 'v slot_view) list \<times> subscription" where
  "collect_changes everything st sub =
     (List.map_filter (\<lambda>t. if has_data (slots st t) \<and> (everything \<or> seen sub t < version (slots st t))
          then Some (t, view (slots st t)) else None) (ts_iter (sub_topics sub)),
      sub\<lparr>seen := (\<lambda>t. if ts_contains (sub_topics sub) t then version (slots st t) else seen sub t)\<rparr>)"

record topic_age =
  ta_topic :: topic
  ta_at :: boot_instant
  ta_value_at :: boot_instant
  ta_error :: bool

definition ages :: "'v hub \<Rightarrow> subscription \<Rightarrow> topic_age list" where
  "ages st sub =
     map (\<lambda>t. let s = slots st t
               in \<lparr>ta_topic = t, ta_at = slot_at s, ta_value_at = value_at s, ta_error = (slot_error s \<noteq> None)\<rparr>)
       (filter (\<lambda>t. has_data (slots st t)) (ts_iter (sub_topics sub)))"

text \<open>What \<open>changed\<close> answers at a look; \<open>None\<close>: it waits on.\<close>

definition stream_changed :: "'v hub \<Rightarrow> subscription \<Rightarrow> stream_wake option" where
  "stream_changed st sub =
     (case (case streams st ! sub_entry sub of Some e \<Rightarrow> ended e | None \<Rightarrow> None) of
        Some reason \<Rightarrow> Some (Ended reason)
      | None \<Rightarrow>
          if list_ex (\<lambda>t. seen sub t < version (slots st t)) (ts_iter (sub_topics sub)) then Some Changed else None)"

definition drop_subscription :: "subscription \<Rightarrow> 'v hub \<Rightarrow> 'v hub \<times> lanes" where
  "drop_subscription sub st =
     (let (st, ls) = (case streams st ! sub_entry sub of
            None \<Rightarrow> (st, no_lanes)
          | Some e \<Rightarrow>
              let st = st\<lparr>streams := (streams st)[sub_entry sub := None]\<rparr>
              in if ended e = None then release (se_topics e) (st, no_lanes) else (st, no_lanes))
      in (recompute_signal_cadence st, ls))"

end
