(* ===== verification/Hub_Entries.thy ===== *)
theory Hub_Entries
  imports Event_Hub
begin

text \<open>
  The bookkeeping of the hub: what every operation does to the entries, the demand and the signal
  cadence, and the invariant they keep. The hub's world adds to the hub its open subscriptions, each
  with what its client was last sent of every topic; \<open>hub_step\<close> is any one operation on it at any clock
  readings.
\<close>

section \<open>The world of the hub\<close>

record 'v opened =
  op_sub :: subscription
  op_sent :: "topic \<Rightarrow> 'v slot_view option"

record 'v hub_world =
  the_hub :: "'v hub"
  open_subs :: "nat \<Rightarrow> 'v opened option"

datatype 'v hub_op =
    Set_value topic 'v
  | Touch topic "duration option"
  | Sessions_over "nat list"
  | All_over end_reason
  | Store_read topic "'v read_out option" duration
  | Bus_event string 'v
  | Cache_event string "duration option"
  | Subscribe subscribe_req
  | Collect bool nat
  | Drop_sub nat

record clocks =
  ck_now :: duration
  ck_boot :: boot_instant
  ck_unix :: nat

text \<open>What a client has been sent of a topic is the last view it was given.\<close>

definition sent_after :: "(topic \<times> 'v slot_view) list \<Rightarrow> (topic \<Rightarrow> 'v slot_view option) \<Rightarrow> topic \<Rightarrow> 'v slot_view option" where
  "sent_after out sent = (\<lambda>t. case map_of out t of Some v \<Rightarrow> Some v | None \<Rightarrow> sent t)"

fun hub_step :: "'v reader \<Rightarrow> clocks \<Rightarrow> 'v hub_op \<Rightarrow> 'v hub_world \<Rightarrow> 'v hub_world" where
  "hub_step rd ck (Set_value t v) w = w\<lparr>the_hub := put (ck_now ck) (ck_boot ck) t v (the_hub w)\<rparr>"
| "hub_step rd ck (Touch t settle) w = w\<lparr>the_hub := fst (touch (ck_now ck) t settle (the_hub w))\<rparr>"
| "hub_step rd ck (Sessions_over ids) w = w\<lparr>the_hub := fst (end_sessions ids (the_hub w))\<rparr>"
| "hub_step rd ck (All_over reason) w = w\<lparr>the_hub := fst (end_all reason (the_hub w))\<rparr>"
| "hub_step rd ck (Store_read t out started) w =
     w\<lparr>the_hub := store_at rd (ck_unix ck) (ck_now ck) (ck_boot ck) t out started (the_hub w)\<rparr>"
| "hub_step rd ck (Bus_event n v) w = w\<lparr>the_hub := fst (on_bus_event rd (ck_now ck) (ck_boot ck) n v (the_hub w))\<rparr>"
| "hub_step rd ck (Cache_event key settle) w =
     w\<lparr>the_hub := fst (on_cache_invalidated (ck_now ck) key settle (the_hub w))\<rparr>"
| "hub_step rd ck (Subscribe req) w =
     (case subscribe (ck_now ck) (ck_boot ck) req (the_hub w) of
        (None, _) \<Rightarrow> w
      | (Some sub, st, _) \<Rightarrow>
          w\<lparr>the_hub := st, open_subs := (open_subs w)(sub_entry sub \<mapsto> \<lparr>op_sub = sub, op_sent = (\<lambda>_. None)\<rparr>)\<rparr>)"
| "hub_step rd ck (Collect everything i) w =
     (case open_subs w i of
        None \<Rightarrow> w
      | Some o1 \<Rightarrow>
          (case collect_changes everything (the_hub w) (op_sub o1) of
             (out, sub) \<Rightarrow> w\<lparr>open_subs := (open_subs w)(i \<mapsto> \<lparr>op_sub = sub, op_sent = sent_after out (op_sent o1)\<rparr>)\<rparr>))"
| "hub_step rd ck (Drop_sub i) w =
     (case open_subs w i of
        None \<Rightarrow> w
      | Some o1 \<Rightarrow>
          w\<lparr>the_hub := fst (drop_subscription (op_sub o1) (the_hub w)), open_subs := (open_subs w)(i := None)\<rparr>)"

definition hub_run :: "'v reader \<Rightarrow> (clocks \<times> 'v hub_op) list \<Rightarrow> 'v hub_world \<Rightarrow> 'v hub_world" where
  "hub_run rd ops = fold (\<lambda>(ck, oper). hub_step rd ck oper) ops"

definition hub_start :: "'v reader \<Rightarrow> clocks \<Rightarrow> 'v hub_world" where
  "hub_start rd ck = \<lparr>the_hub = hub_new rd (ck_now ck) (ck_boot ck), open_subs = (\<lambda>_. None)\<rparr>"

section \<open>Counting live entries\<close>

fun live_with :: "(stream_entry \<Rightarrow> bool) \<Rightarrow> stream_entry option \<Rightarrow> bool" where
  "live_with P None \<longleftrightarrow> False"
| "live_with P (Some e) \<longleftrightarrow> ended e = None \<and> P e"

definition counted :: "(stream_entry \<Rightarrow> bool) \<Rightarrow> 'v hub \<Rightarrow> nat" where
  "counted P st = length (filter (live_with P) (streams st))"

definition carries :: "topic \<Rightarrow> stream_entry \<Rightarrow> bool" where
  "carries t e \<longleftrightarrow> ts_contains (se_topics e) t"

lemma live_from: "length (filter (\<lambda>(_, e). P e) (List.map_filter (\<lambda>(i, e). case e of
       Some e \<Rightarrow> if ended e = None then Some (i, e) else None | None \<Rightarrow> None) (enumerate n xs))) =
    length (filter (live_with P) xs)"
proof (induction xs arbitrary: n)
  case (Cons x xs)
  then show ?case by (cases x) (auto simp: List.map_filter_simps)
qed (simp add: List.map_filter_simps)

lemma live_counted: "length (filter (\<lambda>(_, e). P e) (live st)) = counted P st"
  by (simp add: live_def counted_def live_from)

lemma length_live: "length (live st) = counted (\<lambda>_. True) st"
  using live_counted [of "\<lambda>_. True" st] by simp

lemma in_live: "(i, e) \<in> set (live st) \<longleftrightarrow> i < length (streams st) \<and> streams st ! i = Some e \<and> ended e = None"
proof -
  have "(i, e) \<in> set (live st) \<longleftrightarrow> (\<exists>y. (i, y) \<in> set (enumerate 0 (streams st)) \<and> y = Some e \<and> ended e = None)"
    by (auto simp: live_def List.map_filter_def image_iff split: option.splits if_splits) force+
  then show ?thesis by (auto simp: in_set_enumerate_eq)
qed

lemma counted_update:
  assumes "i < length (streams st)"
  shows "counted P (st\<lparr>streams := (streams st)[i := x]\<rparr>) + (if live_with P (streams st ! i) then 1 else 0) =
    counted P st + (if live_with P x then 1 else 0)"
  using length_filter_update [OF assms, of "live_with P" x] by (simp add: counted_def)

lemma counted_cong [simp]:
  "counted P (st\<lparr>demand := d\<rparr>) = counted P st" "counted P (st\<lparr>slots := s\<rparr>) = counted P st"
  "counted P (st\<lparr>seq := q\<rparr>) = counted P st" "counted P (st\<lparr>signal_cadence := c\<rparr>) = counted P st"
  "counted P (st\<lparr>next_serial := n\<rparr>) = counted P st"
  by (simp_all add: counted_def)

section \<open>Operations on the entries\<close>

lemma release_effect:
  "release ts (st, ls) = (st\<lparr>demand := (\<lambda>t. demand st t - (if ts_contains ts t then 1 else 0))\<rparr>, snd (release ts (st, ls)))"
proof -
  have "fst (fold (\<lambda>t (st, ls). (st\<lparr>demand := (demand st)(t := demand st t - 1)\<rparr>, lanes_add (ts_lane (topic_spec_of t)) ls)) us (st, ls)) =
      st\<lparr>demand := (\<lambda>t. demand st t - (if t \<in> set us then 1 else 0))\<rparr>" if "distinct us" for us
    using that by (induction us arbitrary: st ls) (auto intro!: ext simp: fun_eq_iff)
  from this [OF distinct_ts_iter [of ts]] show ?thesis by (simp add: release_def prod_eq_iff)
qed

text \<open>\<open>entries_ok\<close>: the caps, and the demand of every topic is the number of live streams that carry it.\<close>

definition entries_ok :: "'v hub \<Rightarrow> bool" where
  "entries_ok st \<longleftrightarrow> length (streams st) = ENTRY_TABLE \<and> (\<forall>t. demand st t = counted (carries t) st) \<and>
     counted (\<lambda>_. True) st \<le> MAX_STREAMS \<and> (\<forall>u. counted (\<lambda>e. se_owner e = u) st \<le> MAX_PER_OWNER)"

lemma entries_ok_cong:
  assumes "streams st' = streams st" and "demand st' = demand st"
  shows "entries_ok st' = entries_ok st"
  using assms by (simp add: entries_ok_def counted_def)

lemma end_entry_cases:
  obtains (idle) "\<not> live_with (\<lambda>_. True) (streams st ! i)" "end_entry i reason (st, ls) = (st, ls)"
  | (live) e ls' where "streams st ! i = Some e" "ended e = None"
      "end_entry i reason (st, ls) =
        (st\<lparr>streams := (streams st)[i := Some (e\<lparr>ended := Some reason\<rparr>)],
           demand := (\<lambda>t. demand st t - (if carries t e then 1 else 0))\<rparr>, ls')"
proof (cases "streams st ! i")
  case None
  then show thesis using idle by (simp add: end_entry_def)
next
  case (Some e)
  show thesis
  proof (cases "ended e = None")
    case True
    then show thesis
      using live [OF Some] Some release_effect [of "se_topics e" "st\<lparr>streams := (streams st)[i := Some (e\<lparr>ended := Some reason\<rparr>)]\<rparr>" ls]
      by (simp add: end_entry_def carries_def)
  next
    case False
    with idle Some show thesis by (auto simp: end_entry_def)
  qed
qed

lemma end_entry_counted:
  assumes "i < length (streams st)"
  shows "counted P (fst (end_entry i reason (st, ls))) = counted P st - (if live_with P (streams st ! i) then 1 else 0)"
proof (cases rule: end_entry_cases [where st = st and i = i and reason = reason and ls = ls])
  case idle
  then show ?thesis by (cases "streams st ! i") auto
next
  case (live e ls')
  with counted_update [OF assms, of P "Some (e\<lparr>ended := Some reason\<rparr>)"] show ?thesis by auto
qed

lemma end_entry_ok:
  assumes "entries_ok st" and "i < ENTRY_TABLE"
  shows "entries_ok (fst (end_entry i reason (st, ls)))"
proof -
  have i: "i < length (streams st)" using assms by (simp add: entries_ok_def)
  note c = end_entry_counted [OF i, of _ reason ls]
  have "length (streams (fst (end_entry i reason (st, ls)))) = ENTRY_TABLE" and
    "demand (fst (end_entry i reason (st, ls))) t = counted (carries t) (fst (end_entry i reason (st, ls)))" for t
    using assms(1) c [of "carries t"]
    by (cases rule: end_entry_cases [where st = st and i = i and reason = reason and ls = ls];
        cases "streams st ! i"; auto simp: entries_ok_def)+
  with assms(1) show ?thesis by (auto simp: entries_ok_def c intro: diff_le_self order_trans)
qed

lemma end_entry_fixed [simp]:
  "length (streams (fst (end_entry i reason x))) = length (streams (fst x))"
  "slots (fst (end_entry i reason x)) = slots (fst x)" "seq (fst (end_entry i reason x)) = seq (fst x)"
  "signal_cadence (fst (end_entry i reason x)) = signal_cadence (fst x)"
  "next_serial (fst (end_entry i reason x)) = next_serial (fst x)"
  by (cases x; cases rule: end_entry_cases [where st = "fst x" and i = i and reason = reason and ls = "snd x"]; simp)+

lemma end_all_ok:
  assumes "entries_ok st"
  shows "entries_ok (fst (fold (\<lambda>i. end_entry i reason) [0 ..< ENTRY_TABLE] (st, no_lanes)))"
  by (rule fold_invariant [where P = "\<lambda>x. entries_ok (fst x)" and Q = "\<lambda>i. i < ENTRY_TABLE"])
    (use assms end_entry_ok in auto)

lemma end_sessions_ok:
  assumes "entries_ok st"
  shows "entries_ok (fst (fold (\<lambda>i (st, ls). case streams st ! i of
              Some e \<Rightarrow> if se_owner e \<in> set ids then end_entry i LoggedOut (st, ls) else (st, ls)
            | None \<Rightarrow> (st, ls)) [0 ..< ENTRY_TABLE] (st, no_lanes)))"
  by (rule fold_invariant [where P = "\<lambda>x. entries_ok (fst x)" and Q = "\<lambda>i. i < ENTRY_TABLE"])
    (use assms end_entry_ok in \<open>auto split: option.split\<close>)

section \<open>Subscribing\<close>

lemma min_serial_in: "min_serial xs = Some x \<Longrightarrow> x \<in> set xs"
proof -
  have "fold (\<lambda>y best. if serial (snd y) < serial (snd best) then y else best) xs y \<in> insert y (set xs)" for xs and y :: "nat \<times> stream_entry"
    by (rule fold_invariant [where P = "\<lambda>b. b \<in> insert y (set xs)" and Q = "\<lambda>z. z \<in> set xs"]) auto
  then show "min_serial xs = Some x \<Longrightarrow> x \<in> set xs" by (cases xs) fastforce+
qed

lemma min_serial_least:
  assumes "min_serial xs = Some x" and "y \<in> set xs"
  shows "serial (snd x) \<le> serial (snd y)"
proof -
  have "\<forall>z \<in> insert y (set xs). serial (snd (fold (\<lambda>y best. if serial (snd y) < serial (snd best) then y else best) xs y)) \<le> serial (snd z)"
    for xs and y :: "nat \<times> stream_entry"
    by (induction xs arbitrary: y) (auto, (meson order_trans less_imp_le not_less)+)
  with assms show ?thesis by (cases xs) fastforce+
qed

lemma min_serial_None: "min_serial xs = None \<longleftrightarrow> xs = []"
  by (cases xs) auto

lemma evicted_by_live:
  assumes "evicted_by req st = Some i"
  obtains e where "(i, e) \<in> set (live st)" and "se_owner e = rq_owner req"
proof (cases "find (\<lambda>(_, e). rq_replace_same req \<noteq> None \<and> replace_same e = rq_replace_same req \<and>
                   se_owner e = rq_owner req \<and> se_topics e = rq_topics req) (live st)")
  case None
  with assms obtain e where "min_serial (filter (\<lambda>(_, e). se_owner e = rq_owner req) (live st)) = Some (i, e)"
    by (auto simp: evicted_by_def Let_def split: if_splits)
  from min_serial_in [OF this] show thesis using that by auto
next
  case (Some x)
  with assms have "fst x = i" by (simp add: evicted_by_def Let_def)
  moreover have "x \<in> set (live st) \<and> se_owner (snd x) = rq_owner req"
    using Some by (auto simp: find_Some_iff in_set_conv_nth)
  ultimately show thesis using that [of "snd x"] by (cases x) auto
qed

lemma evicted_by_none:
  assumes "evicted_by req st = None"
  shows "counted (\<lambda>e. se_owner e = rq_owner req) st < MAX_PER_OWNER"
proof (rule ccontr)
  assume "\<not> counted (\<lambda>e. se_owner e = rq_owner req) st < MAX_PER_OWNER"
  then have many: "MAX_PER_OWNER \<le> length (filter (\<lambda>(_, e). se_owner e = rq_owner req) (live st))"
    by (simp add: live_counted)
  with assms have "min_serial (filter (\<lambda>(_, e). se_owner e = rq_owner req) (live st)) = None"
    by (auto simp: evicted_by_def Let_def split: option.splits)
  with many show False by (simp add: min_serial_None MAX_PER_OWNER_def)
qed

lemma demand_topic_effect:
  "fold (demand_topic now boot_now) us (st, ls) =
     (st\<lparr>demand := (\<lambda>t. demand st t + count_list us t), slots := slots (fst (fold (demand_topic now boot_now) us (st, ls)))\<rparr>,
      snd (fold (demand_topic now boot_now) us (st, ls)))"
proof (induction us arbitrary: st ls)
  case (Cons u us)
  obtain st' ls' where d: "demand_topic now boot_now u (st, ls) = (st', ls')" by force
  have "st' = st\<lparr>demand := (demand st)(u := demand st u + 1), slots := slots st'\<rparr>"
    using d by (auto simp: demand_topic_def Let_def set_slot_def split: if_splits)
  then have "demand st' = (demand st)(u := demand st u + 1)" "st'\<lparr>demand := d', slots := s'\<rparr> = st\<lparr>demand := d', slots := s'\<rparr>" for d' s'
    by (cases st; cases st'; simp)+
  moreover have "(\<lambda>t. ((demand st)(u := demand st u + 1)) t + count_list us t) = (\<lambda>t. demand st t + count_list (u # us) t)"
    by auto
  ultimately show ?case using Cons [of st' ls'] by (simp only: d fold_Cons o_apply)
qed simp

lemma count_list_distinct: "distinct xs \<Longrightarrow> count_list xs x = (if x \<in> set xs then 1 else 0)"
  by (induction xs) auto

lemma demand_fold:
  assumes "(st2, ls2) = fold (demand_topic now boot_now) (ts_iter ts) (st, ls)"
  shows "streams st2 = streams st" and "seq st2 = seq st" and "next_serial st2 = next_serial st"
    and "demand st2 = (\<lambda>t. demand st t + (if ts_contains ts t then 1 else 0))"
proof -
  have "st2 = st\<lparr>demand := (\<lambda>t. demand st t + count_list (ts_iter ts) t), slots := slots st2\<rparr>"
    using demand_topic_effect [of now boot_now "ts_iter ts" st ls] by (simp add: assms [symmetric])
  note eq = arg_cong [OF this]
  show "streams st2 = streams st" "seq st2 = seq st" "next_serial st2 = next_serial st"
    using eq [of streams] eq [of seq] eq [of next_serial] by simp_all
  show "demand st2 = (\<lambda>t. demand st t + (if ts_contains ts t then 1 else 0))"
    using eq [of demand] by (simp add: count_list_distinct)
qed

text \<open>
  What a successful \<open>subscribe\<close> does: the stream it replaces (if any) ends, the new one takes the first
  free entry and its demand is added.
\<close>

lemma subscribe_cases:
  obtains (refused) "subscribe now boot_now req st = (None, st, no_lanes)"
      "MAX_STREAMS \<le> counted (\<lambda>_. True) st - (if evicted_by req st = None then 0 else 1) \<or> None \<notin> set (streams st)"
  | (opened) entry sub st1 ls1 new st2 ls2 where
      "counted (\<lambda>_. True) st - (if evicted_by req st = None then 0 else 1) < MAX_STREAMS"
      "entry < length (streams st)" "streams st ! entry = None"
      "st1 = (case evicted_by req st of
                Some i \<Rightarrow> wake_streams (fst (end_entry i Evicted (st, no_lanes))) | None \<Rightarrow> st)"
      "new = \<lparr>se_owner = rq_owner req, se_topics = rq_topics req, signal_hint = rq_signal_hint req,
              replace_same = rq_replace_same req, serial = next_serial st + 1, ended = None\<rparr>"
      "sub = \<lparr>sub_entry = entry, sub_topics = rq_topics req, seen = (\<lambda>_. 0)\<rparr>"
      "(st2, ls2) = fold (demand_topic now boot_now) (ts_iter (rq_topics req))
         (st1\<lparr>next_serial := next_serial st + 1, streams := (streams st1)[entry := Some new]\<rparr>, ls1)"
      "subscribe now boot_now req st = (Some sub, recompute_signal_cadence st2, ls2)"
proof (cases "MAX_STREAMS \<le> length (live st) - (if evicted_by req st = None then 0 else 1)")
  case True
  then show thesis using refused by (simp add: subscribe_def length_live Let_def)
next
  case False
  show thesis
  proof (cases "position (\<lambda>e. e = None) (streams st)")
    case None
    then have "None \<notin> set (streams st)" by (auto simp: position_None_iff)
    moreover have "subscribe now boot_now req st = (None, st, no_lanes)"
      using None by (simp add: subscribe_def Let_def)
    ultimately show thesis using refused by blast
  next
    case (Some entry)
    then have entry: "entry < length (streams st)" "streams st ! entry = None"
      using position_SomeD [of "\<lambda>e. e = None" "streams st" entry] by auto
    obtain st1 ls1 where 1: "(case evicted_by req st of
                   Some i \<Rightarrow> (case end_entry i Evicted (st, no_lanes) of (st, ls) \<Rightarrow> (wake_streams st, ls))
                 | None \<Rightarrow> (st, no_lanes)) = (st1, ls1)" by force
    then have st1: "st1 = (case evicted_by req st of
        Some i \<Rightarrow> wake_streams (fst (end_entry i Evicted (st, no_lanes))) | None \<Rightarrow> st)"
      by (auto split: option.splits prod.splits)
    then have "next_serial st1 = next_serial st"
      by (simp add: wake_streams_def split: option.split)
    moreover obtain st2 ls2 where 2: "fold (demand_topic now boot_now) (ts_iter (rq_topics req))
         (st1\<lparr>next_serial := next_serial st + 1, streams := (streams st1)[entry := Some \<lparr>se_owner = rq_owner req,
            se_topics = rq_topics req, signal_hint = rq_signal_hint req, replace_same = rq_replace_same req,
            serial = next_serial st + 1, ended = None\<rparr>]\<rparr>, ls1) = (st2, ls2)" by force
    ultimately have "subscribe now boot_now req st =
        (Some \<lparr>sub_entry = entry, sub_topics = rq_topics req, seen = (\<lambda>_. 0)\<rparr>, recompute_signal_cadence st2, ls2)"
      using False Some 1 by (simp add: subscribe_def Let_def)
    then show thesis
      using opened [OF _ entry st1 refl refl 2 [symmetric]] False by (simp add: length_live)
  qed
qed

lemma recompute_fixed [simp]:
  "streams (recompute_signal_cadence st) = streams st" "demand (recompute_signal_cadence st) = demand st"
  "slots (recompute_signal_cadence st) = slots st" "seq (recompute_signal_cadence st) = seq st"
  "entries_ok (recompute_signal_cadence st) = entries_ok st"
  by (simp_all add: recompute_signal_cadence_def entries_ok_def)

lemma wake_fixed [simp]:
  "streams (wake_streams st) = streams st" "demand (wake_streams st) = demand st" "slots (wake_streams st) = slots st"
  "signal_cadence (wake_streams st) = signal_cadence st" "seq (wake_streams st) = seq st + 1"
  "entries_ok (wake_streams st) = entries_ok st" "counted P (wake_streams st) = counted P st"
  by (simp_all add: wake_streams_def entries_ok_def)

lemma subscribe_ok:
  assumes ok: "entries_ok st"
  shows "entries_ok (fst (snd (subscribe now boot_now req st)))"
proof (cases rule: subscribe_cases [where st = st and now = now and boot_now = boot_now and req = req])
  case refused
  with ok show ?thesis by simp
next
  case (opened entry sub st1 ls1 new st2 ls2)
  have 1: "entries_ok st1 \<and> counted (\<lambda>_. True) st1 < MAX_STREAMS \<and> counted (\<lambda>e. se_owner e = rq_owner req) st1 < MAX_PER_OWNER \<and>
      streams st1 ! entry = None"
  proof (cases "evicted_by req st")
    case None
    with opened ok evicted_by_none [OF None] show ?thesis by simp
  next
    case (Some i)
    from evicted_by_live [OF this] obtain e where e: "i < length (streams st)" "streams st ! i = Some e" "ended e = None"
      "se_owner e = rq_owner req" by (auto simp: in_live)
    with opened(4) Some have st1: "st1 = wake_streams (fst (end_entry i Evicted (st, no_lanes)))"
      by simp
    have "entry \<noteq> i" using e opened(3) by auto
    then have "streams st1 ! entry = None"
      using opened(3) e by (cases rule: end_entry_cases [where st = st and i = i and reason = Evicted and ls = no_lanes]) (auto simp: st1)
    moreover have "counted (\<lambda>e. se_owner e = rq_owner req) st1 < MAX_PER_OWNER"
      using ok e by (auto simp: st1 end_entry_counted [OF e(1)] entries_ok_def MAX_PER_OWNER_def less_Suc_eq_le
          intro: order.strict_trans1 [OF diff_le_mono])
    ultimately show ?thesis
      using ok e opened(1) Some end_entry_ok [OF ok, of i Evicted no_lanes]
      by (simp add: st1 end_entry_counted [OF e(1)] entries_ok_def)
  qed
  let ?st = "st1\<lparr>next_serial := next_serial st + 1, streams := (streams st1)[entry := Some new]\<rparr>"
  have st2: "streams st2 = streams ?st" "demand st2 = (\<lambda>t. demand st1 t + (if ts_contains (rq_topics req) t then 1 else 0))"
    using demand_fold [OF opened(7)] by simp_all
  have entry: "entry < length (streams st1)"
    using opened(2) 1 ok by (simp add: entries_ok_def)
  have counted: "counted P st2 = counted P st1 + (if P new then 1 else 0)" for P
    using counted_update [OF entry, of P "Some new"] 1 opened(5) st2(1) by (simp add: counted_def)
  have "entries_ok st2"
    using 1 opened(5) by (auto simp: entries_ok_def counted st2 carries_def)
  with opened(8) show ?thesis by simp
qed

lemma drop_ok:
  assumes ok: "entries_ok st" and i: "sub_entry sub < ENTRY_TABLE"
  shows "entries_ok (fst (drop_subscription sub st))"
proof (cases "streams st ! sub_entry sub")
  case None
  with ok show ?thesis by (simp add: drop_subscription_def)
next
  case (Some e)
  have i: "sub_entry sub < length (streams st)" using assms by (simp add: entries_ok_def)
  have c: "counted P (st\<lparr>streams := (streams st)[sub_entry sub := None]\<rparr>) = counted P st - (if ended e = None \<and> P e then 1 else 0)" for P
    using counted_update [OF i, of P None] Some by auto
  let ?st = "st\<lparr>streams := (streams st)[sub_entry sub := None]\<rparr>"
  have "fst (drop_subscription sub st) = recompute_signal_cadence
      (?st\<lparr>demand := (\<lambda>t. demand st t - (if ended e = None \<and> carries t e then 1 else 0))\<rparr>)"
    using Some release_effect [of "se_topics e" ?st no_lanes, THEN arg_cong [where f = fst]]
    by (cases "ended e") (simp_all add: drop_subscription_def carries_def Let_def case_prod_unfold fun_eq_iff)
  moreover have "entries_ok (?st\<lparr>demand := (\<lambda>t. demand st t - (if ended e = None \<and> carries t e then 1 else 0))\<rparr>)"
    using ok by (auto simp: entries_ok_def c intro: diff_le_self order_trans)
  ultimately show ?thesis by simp
qed

section \<open>Operations on the slots\<close>

text \<open>Reads, pushes and touches leave the entries alone.\<close>

definition entries_of :: "'v hub \<Rightarrow> stream_entry option list \<times> (topic \<Rightarrow> nat) \<times> duration" where
  "entries_of st = (streams st, demand st, signal_cadence st)"

lemma entries_of_put [simp]: "entries_of (put now at t v st) = entries_of st"
  by (simp add: entries_of_def put_def bump_def wake_streams_def set_slot_def Let_def)

lemma entries_of_touch [simp]: "entries_of (fst (touch now t settle st)) = entries_of st"
  by (simp add: entries_of_def touch_def set_slot_def Let_def)

lemma entries_of_store [simp]: "entries_of (store_at rd unix now at t out started st) = entries_of st"
  by (simp add: entries_of_def store_at_def bump_def wake_streams_def set_slot_def push_history_def Let_def
      split: option.split prod.split)

lemma entries_of_sms [simp]: "entries_of (st\<lparr>sms_received := n\<rparr>) = entries_of st"
  by (simp add: entries_of_def)

lemma entries_of_cache [simp]: "entries_of (fst (on_cache_invalidated now key settle st)) = entries_of st"
  unfolding on_cache_invalidated_def Let_def by (simp add: case_prod_unfold)

lemma entries_of_service [simp]: "entries_of (fst (on_service_status rd now at v st)) = entries_of st"
  by (simp add: on_service_status_def Let_def case_prod_unfold split: option.split)

lemma entries_of_new_sms [simp]: "entries_of (on_new_sms rd now at st) = entries_of st"
  by (simp add: on_new_sms_def)

text \<open>A bus event is some of these and, for a standby, the end of every stream.\<close>

lemma power_state_cases:
  obtains (quiet) "entries_of (fst (on_power_state rd now at v st)) = entries_of st"
  | (standby) action where "fst (on_power_state rd now at v st) =
      fst (end_all Standby (put now at PowerState (json_power rd action v) st))"
  using that by (cases "prefix ''mode_power_off'' (case rd_action rd v of Some a \<Rightarrow> a | None \<Rightarrow> [])")
    (simp_all add: on_power_state_def Let_def del: prefix_code)

lemma if_chain: "(if a then x else if b then y else if c then z else if d then u else w) \<in> {x, y, z, u, w}"
  by simp

lemma bus_event_is: "on_bus_event rd now at n v st \<in>
    {on_service_status rd now at v st, on_power_state rd now at v st, (on_new_sms rd now at st, no_lanes),
     touch now EsimSwitch None (put now at SimIdentity (json_identity rd v) st), (st, no_lanes)}"
  unfolding on_bus_event_def by (rule if_chain)

lemma bus_event_cases:
  obtains (quiet) "entries_of (fst (on_bus_event rd now at n v st)) = entries_of st"
  | (standby) st' where "entries_of st' = entries_of st" "fst (on_bus_event rd now at n v st) = fst (end_all Standby st')"
proof (cases "on_bus_event rd now at n v st = on_power_state rd now at v st")
  case True
  with quiet standby [OF entries_of_put] show thesis
    by (cases rule: power_state_cases [of rd now at v st]) (simp_all only:)
next
  case False
  then have "entries_of (fst (on_bus_event rd now at n v st)) = entries_of st"
    using bus_event_is [of rd now at n v st] by auto
  then show thesis by (rule quiet)
qed

lemma entries_ok_of: "entries_of st' = entries_of st \<Longrightarrow> entries_ok st' = entries_ok st"
  by (rule entries_ok_cong) (simp_all add: entries_of_def)

section \<open>The invariant of the world\<close>

definition topics_at :: "'v hub \<Rightarrow> nat \<Rightarrow> topic_set option" where
  "topics_at st i = (if i < length (streams st) then map_option se_topics (streams st ! i) else None)"

definition world_ok :: "'v hub_world \<Rightarrow> bool" where
  "world_ok w \<longleftrightarrow> entries_ok (the_hub w) \<and>
     (\<forall>i. topics_at (the_hub w) i = map_option (sub_topics \<circ> op_sub) (open_subs w i)) \<and>
     (\<forall>i o1. open_subs w i = Some o1 \<longrightarrow> sub_entry (op_sub o1) = i) \<and>
     signal_cadence (the_hub w) = signal_cadence (recompute_signal_cadence (the_hub w))"

lemma recompute_cong: "streams st' = streams st \<Longrightarrow> signal_cadence (recompute_signal_cadence st') = signal_cadence (recompute_signal_cadence st)"
  by (simp add: recompute_signal_cadence_def live_def)

lemma recompute_idem [simp]: "signal_cadence (recompute_signal_cadence (recompute_signal_cadence st)) = signal_cadence (recompute_signal_cadence st)"
  by (rule recompute_cong) simp

lemma recompute_wake [simp]:
  "signal_cadence (recompute_signal_cadence (wake_streams st)) = signal_cadence (recompute_signal_cadence st)"
  by (rule recompute_cong) simp

lemma world_ok_of:
  assumes "world_ok w" and "entries_of st = entries_of (the_hub w)"
  shows "world_ok (w\<lparr>the_hub := st\<rparr>)"
proof -
  have st: "streams st = streams (the_hub w)" "signal_cadence st = signal_cadence (the_hub w)"
    using assms(2) by (simp_all add: entries_of_def)
  then have "topics_at st = topics_at (the_hub w)" by (simp add: topics_at_def fun_eq_iff)
  with assms(1) entries_ok_of [OF assms(2)] recompute_cong [OF st(1)] st(2) show ?thesis by (simp add: world_ok_def)
qed

lemma topics_at_end_entry [simp]: "topics_at (fst (end_entry i reason x)) = topics_at (fst x)"
proof -
  have "topics_at (st\<lparr>streams := (streams st)[i := Some (e\<lparr>ended := r\<rparr>)], demand := d\<rparr>) = topics_at st"
    if "streams st ! i = Some e" for st :: "'v hub" and e r d
  proof
    show "topics_at (st\<lparr>streams := (streams st)[i := Some (e\<lparr>ended := r\<rparr>)], demand := d\<rparr>) j = topics_at st j" for j
      using that by (cases "j = i") (auto simp: topics_at_def)
  qed
  then show ?thesis
    by (cases x; cases rule: end_entry_cases [where st = "fst x" and i = i and reason = reason and ls = "snd x"]) auto
qed

lemma topics_at_fixed [simp]:
  "topics_at (recompute_signal_cadence st) = topics_at st" "topics_at (wake_streams st) = topics_at st"
  by (simp_all add: topics_at_def fun_eq_iff)

lemma topics_at_fold:
  "(\<And>i x. topics_at (fst (f i x)) = topics_at (fst x)) \<Longrightarrow> topics_at (fst (fold f is x)) = topics_at (fst x)"
  by (induction "is" arbitrary: x) auto

lemma topics_at_ends [simp]:
  "topics_at (fst (end_all reason st)) = topics_at st" "topics_at (fst (end_sessions ids st)) = topics_at st"
  by (simp_all add: end_all_def end_sessions_def case_prod_unfold Let_def)
    (subst topics_at_fold; simp split: option.split)+

lemma ends_ok:
  assumes "entries_ok st"
  shows "entries_ok (fst (end_all reason st))" and "entries_ok (fst (end_sessions ids st))"
  using end_all_ok [OF assms, of reason] end_sessions_ok [OF assms, of ids]
  by (simp_all add: end_all_def end_sessions_def Let_def case_prod_unfold)

lemma ends_cadence:
  "signal_cadence (recompute_signal_cadence (fst (end_all reason st))) = signal_cadence (fst (end_all reason st))"
  "signal_cadence (recompute_signal_cadence (fst (end_sessions ids st))) = signal_cadence (fst (end_sessions ids st))"
  by (simp_all add: end_all_def end_sessions_def Let_def case_prod_unfold)

lemma world_ok_ends:
  assumes "world_ok w"
  shows "world_ok (w\<lparr>the_hub := fst (end_all reason (the_hub w))\<rparr>)"
    and "world_ok (w\<lparr>the_hub := fst (end_sessions ids (the_hub w))\<rparr>)"
  using assms by (simp_all add: world_ok_def ends_ok ends_cadence)

lemma subscribe_topics:
  assumes ok: "entries_ok st" and sub: "subscribe now boot_now req st = (Some sub, st', ls)"
  shows "topics_at st' = (topics_at st)(sub_entry sub \<mapsto> sub_topics sub)" and "topics_at st (sub_entry sub) = None"
    and "signal_cadence st' = signal_cadence (recompute_signal_cadence st')"
proof -
  have "topics_at st (sub_entry sub) = None \<and> signal_cadence st' = signal_cadence (recompute_signal_cadence st') \<and>
    topics_at st' = (topics_at st)(sub_entry sub \<mapsto> sub_topics sub)"
  proof (cases rule: subscribe_cases [where st = st and now = now and boot_now = boot_now and req = req])
    case (opened entry sub' st1 ls1 new st2 ls2)
    have eq: "sub = sub'" "st' = recompute_signal_cadence st2" using opened(8) sub by simp_all
    have "topics_at st (sub_entry sub) = None" using opened(2,3,6) eq by (simp add: topics_at_def)
    moreover have "topics_at st1 = topics_at st"
      using opened(4) by (simp split: option.split)
    moreover have "topics_at st2 = (topics_at st1)(entry \<mapsto> rq_topics req)"
    proof
      have "length (streams st1) = length (streams st)"
        using opened(4) by (simp split: option.split)
      then show "topics_at st2 j = ((topics_at st1)(entry \<mapsto> rq_topics req)) j" for j
        using opened(2,5) demand_fold(1) [OF opened(7)] by (cases "j = entry") (simp_all add: topics_at_def)
    qed
    ultimately show ?thesis using opened(6) eq by simp
  qed (use sub in simp_all)
  then show "topics_at st (sub_entry sub) = None" "signal_cadence st' = signal_cadence (recompute_signal_cadence st')"
    "topics_at st' = (topics_at st)(sub_entry sub \<mapsto> sub_topics sub)" by simp_all
qed

lemma drop_topics:
  "topics_at (fst (drop_subscription sub st)) = (topics_at st)(sub_entry sub := None)"
proof
  fix j
  show "topics_at (fst (drop_subscription sub st)) j = ((topics_at st)(sub_entry sub := None)) j"
  proof (cases "streams st ! sub_entry sub")
    case (Some e)
    then show ?thesis
      using release_effect [of "se_topics e" "st\<lparr>streams := (streams st)[sub_entry sub := None]\<rparr>" no_lanes, THEN arg_cong [where f = fst]]
      by (cases "ended e"; cases "j = sub_entry sub")
        (simp_all add: drop_subscription_def Let_def case_prod_unfold topics_at_def)
  qed (simp add: drop_subscription_def topics_at_def)
qed

lemma drop_cadence:
  "signal_cadence (recompute_signal_cadence (fst (drop_subscription sub st))) = signal_cadence (fst (drop_subscription sub st))"
  by (simp add: drop_subscription_def case_prod_unfold Let_def)

lemma world_ok_step:
  assumes "world_ok w"
  shows "world_ok (hub_step rd ck oper w)"
proof (cases oper)
  case (Bus_event n v)
  show ?thesis
  proof (cases rule: bus_event_cases [of rd "ck_now ck" "ck_boot ck" n v "the_hub w"])
    case quiet
    with world_ok_of [OF assms] show ?thesis by (simp add: Bus_event)
  next
    case (standby st')
    with world_ok_ends(1) [OF world_ok_of [OF assms standby(1)], of Standby] show ?thesis by (simp add: Bus_event)
  qed
next
  case (Subscribe req)
  show ?thesis
  proof (cases "fst (subscribe (ck_now ck) (ck_boot ck) req (the_hub w))")
    case None
    then have "hub_step rd ck oper w = w" by (auto simp: Subscribe split: prod.splits)
    with assms show ?thesis by simp
  next
    case (Some sub)
    then obtain st' ls where sub: "subscribe (ck_now ck) (ck_boot ck) req (the_hub w) = (Some sub, st', ls)"
      by (cases "subscribe (ck_now ck) (ck_boot ck) req (the_hub w)") auto
    have ok: "entries_ok (the_hub w)" using assms by (simp add: world_ok_def)
    show ?thesis
      using assms subscribe_ok [OF ok, of "ck_now ck" "ck_boot ck" req] subscribe_topics [OF ok sub] sub
      by (auto simp: Subscribe world_ok_def)
  qed
next
  case (Collect everything i)
  with assms show ?thesis
    by (auto simp: world_ok_def collect_changes_def split: option.split)
next
  case (Drop_sub i)
  show ?thesis
  proof (cases "open_subs w i")
    case (Some o1)
    with assms have i: "sub_entry (op_sub o1) = i" "entries_ok (the_hub w)" "topics_at (the_hub w) i \<noteq> None"
      by (simp_all add: world_ok_def)
    then have "i < ENTRY_TABLE" by (simp add: topics_at_def entries_ok_def split: if_splits)
    with assms i Some drop_ok [OF i(2), of "op_sub o1"] show ?thesis
      by (simp add: Drop_sub world_ok_def drop_topics drop_cadence)
  qed (use assms Drop_sub in simp)
qed (use assms world_ok_of [OF assms] world_ok_ends [OF assms] in simp_all)

lemma live_empty: "live hub_empty = []"
proof -
  have "x \<notin> set (live (hub_empty :: 'a hub))" for x
    by (cases x) (auto simp: in_live hub_empty_def)
  then show "live (hub_empty :: 'a hub) = []" by (cases "live (hub_empty :: 'a hub)") auto
qed

lemma recompute_empty: "signal_cadence (recompute_signal_cadence hub_empty) = SIGNAL_CADENCE"
  by (simp add: recompute_signal_cadence_def live_empty)

lemma world_ok_start: "world_ok (hub_start rd ck)"
proof -
  have "world_ok \<lparr>the_hub = hub_empty, open_subs = (\<lambda>_. None)\<rparr>"
    by (simp add: recompute_empty world_ok_def entries_ok_def counted_def topics_at_def MAX_STREAMS_def) (simp add: hub_empty_def)
  from world_ok_of [OF this entries_of_put] show ?thesis by (simp add: hub_start_def hub_new_def)
qed

lemma world_ok_run: "world_ok (hub_run rd ops (hub_start rd ck))"
proof -
  have "world_ok (hub_run rd ops w)" if "world_ok w" for w
    unfolding hub_run_def using that
    by (intro fold_invariant [where Q = "\<lambda>_. True" and P = world_ok]) (auto intro: world_ok_step)
  then show ?thesis using world_ok_start .
qed

text \<open>The signal cadence is the fastest clamped hint of the live streams that carry the signal topic.\<close>

lemma clamp_hint_bounds: "from_secs 1 \<le> clamp_hint h \<and> clamp_hint h \<le> from_secs 10"
  by (simp add: clamp_hint_def Let_def SIGNAL_HINT_MIN_def SIGNAL_HINT_MAX_def from_secs_def)

definition signal_hints :: "'v hub \<Rightarrow> duration set" where
  "signal_hints st = {clamp_hint (signal_hint e) |i e. (i, e) \<in> set (live st) \<and> carries Signal e}"

lemma fold_min: "fold min xs a = Min (insert a (set xs))" for a :: "'a :: linorder"
  by (simp add: Min.set_eq_fold [symmetric])

lemma recompute_is_min:
  "signal_cadence (recompute_signal_cadence st) = (if signal_hints st = {} then SIGNAL_CADENCE else Min (signal_hints st))"
proof -
  let ?hs = "map (\<lambda>(_, e). clamp_hint (signal_hint e)) (filter (\<lambda>(_, e). ts_contains (se_topics e) Signal) (live st))"
  have "set ?hs = signal_hints st" by (force simp: signal_hints_def carries_def)
  then show ?thesis
    by (cases ?hs) (auto simp: recompute_signal_cadence_def fold_min)
qed

lemma signal_hints_bounds: "finite (signal_hints st) \<and> (\<forall>h \<in> signal_hints st. from_secs 1 \<le> h \<and> h \<le> from_secs 10)"
proof -
  have "signal_hints st = (\<lambda>(i, e). clamp_hint (signal_hint e)) ` {x \<in> set (live st). carries Signal (snd x)}"
    by (force simp: signal_hints_def)
  then show ?thesis using clamp_hint_bounds by auto
qed

lemma signal_cadence_bounds:
  assumes "world_ok w"
  shows "from_secs 1 \<le> signal_cadence (the_hub w) \<and> signal_cadence (the_hub w) \<le> from_secs 10"
proof -
  have "signal_hints (the_hub w) \<noteq> {} \<Longrightarrow> Min (signal_hints (the_hub w)) \<in> signal_hints (the_hub w)"
    using signal_hints_bounds [of "the_hub w"] by simp
  moreover have "signal_cadence (the_hub w) = signal_cadence (recompute_signal_cadence (the_hub w))"
    using assms by (simp add: world_ok_def)
  ultimately show ?thesis
    using signal_hints_bounds [of "the_hub w"]
    by (auto simp: recompute_is_min SIGNAL_CADENCE_def) (simp_all add: from_secs_def)
qed

text \<open>
  C25: the hub's bookkeeping is exact, whatever is subscribed, dropped, ended, evicted, pushed and read in
  any order: the demand of a topic is the number of live streams that carry it (so sampling stops when
  the last one goes and never before), at most 8 streams live and at most 3 of one owner, and the
  signal topic is read at the fastest rate a live subscriber asked for, between 1 and 10 seconds, or
  every 2 seconds when none carries it.
\<close>

theorem hub_bookkeeping:
  "let st = the_hub (hub_run rd ops (hub_start rd ck)) in
     demand st t = length (filter (\<lambda>(_, e). ts_contains (se_topics e) t) (live st)) \<and>
     length (live st) \<le> 8 \<and> length (filter (\<lambda>(_, e). se_owner e = u) (live st)) \<le> 3 \<and>
     signal_cadence st = (if signal_hints st = {} then from_secs 2 else Min (signal_hints st)) \<and>
     from_secs 1 \<le> signal_cadence st \<and> signal_cadence st \<le> from_secs 10"
proof -
  let ?st = "the_hub (hub_run rd ops (hub_start rd ck))"
  have "world_ok (hub_run rd ops (hub_start rd ck))" by (rule world_ok_run)
  then have ok: "entries_ok ?st" "signal_cadence ?st = signal_cadence (recompute_signal_cadence ?st)"
    by (simp_all add: world_ok_def)
  with ok signal_cadence_bounds [OF world_ok_run, of rd ops ck] show ?thesis
    by (simp add: Let_def entries_ok_def live_counted length_live carries_def [abs_def] MAX_STREAMS_def
        MAX_PER_OWNER_def recompute_is_min SIGNAL_CADENCE_def)
qed

section \<open>Who gets a stream\<close>

lemma streams_end_entry:
  assumes "j < length (streams st)"
  shows "(streams (fst (end_entry i reason (st, ls))) ! j = Some e \<and> ended e = None) \<longleftrightarrow>
    j \<noteq> i \<and> streams st ! j = Some e \<and> ended e = None"
  using assms
  by (cases rule: end_entry_cases [where st = st and i = i and reason = reason and ls = ls]; cases "j = i") auto

lemma subscribe_live:
  assumes "subscribe now boot_now req st = (Some sub, st', ls)"
  shows "set (live st') = {x \<in> set (live st). evicted_by req st \<noteq> Some (fst x)} \<union>
    {(sub_entry sub, \<lparr>se_owner = rq_owner req, se_topics = rq_topics req, signal_hint = rq_signal_hint req,
       replace_same = rq_replace_same req, serial = next_serial st + 1, ended = None\<rparr>)}"
proof (cases rule: subscribe_cases [where st = st and now = now and boot_now = boot_now and req = req])
  case (opened entry sub' st1 ls1 new st2 ls2)
  have eq: "sub = sub'" "st' = recompute_signal_cadence st2" using opened(8) assms by simp_all
  have 1: "streams st1 ! j = Some e \<and> ended e = None \<longleftrightarrow> evicted_by req st \<noteq> Some j \<and> streams st ! j = Some e \<and> ended e = None"
    if "j < length (streams st)" for j e
    using opened(4) streams_end_entry [OF that] by (cases "evicted_by req st") auto
  have len: "length (streams st1) = length (streams st)" using opened(4) by (simp split: option.split)
  have "(j, e) \<in> set (live st') \<longleftrightarrow> (j, e) \<in> set (live st) \<and> evicted_by req st \<noteq> Some j \<or> (j, e) = (entry, new)" for j e
    using opened(2,3,5) 1 [of j e] 1 [of entry] demand_fold(1) [OF opened(7)] len
    by (cases "j = entry") (auto simp: in_live eq)
  then show ?thesis using opened(5,6) eq by auto
qed (use assms in simp)

lemma evicted_by_some:
  assumes "evicted_by req st = Some i"
  shows "\<exists>e. (i, e) \<in> set (live st) \<and> se_owner e = rq_owner req \<and>
    (rq_replace_same req \<noteq> None \<and> replace_same e = rq_replace_same req \<and> se_topics e = rq_topics req \<or>
     3 \<le> length (filter (\<lambda>(_, e). se_owner e = rq_owner req) (live st)) \<and>
     (\<forall>(j, d) \<in> set (live st). se_owner d = rq_owner req \<longrightarrow> serial e \<le> serial d))"
proof (cases "find (\<lambda>(_, e). rq_replace_same req \<noteq> None \<and> replace_same e = rq_replace_same req \<and>
                   se_owner e = rq_owner req \<and> se_topics e = rq_topics req) (live st)")
  case None
  with assms obtain e where e: "min_serial (filter (\<lambda>(_, e). se_owner e = rq_owner req) (live st)) = Some (i, e)"
    and "3 \<le> length (filter (\<lambda>(_, e). se_owner e = rq_owner req) (live st))"
    by (auto simp: evicted_by_def Let_def MAX_PER_OWNER_def split: if_splits)
  moreover have "serial e \<le> serial d" if "(j, d) \<in> set (live st)" "se_owner d = rq_owner req" for j d
    using min_serial_least [OF e, of "(j, d)"] that by simp
  ultimately show ?thesis using min_serial_in [OF e] by auto
next
  case (Some x)
  with assms have "fst x = i" by (simp add: evicted_by_def Let_def)
  moreover have "x \<in> set (live st)" using Some by (auto simp: find_Some_iff in_set_conv_nth)
  ultimately show ?thesis using Some by (intro exI [of _ "snd x"]) (auto simp: find_Some_iff)
qed

text \<open>With a connection to spare there is a free entry.\<close>

lemma free_entry:
  assumes "world_ok w" and "card {i. open_subs w i \<noteq> None} < MAX_CONNS"
  shows "None \<in> set (streams (the_hub w))"
proof (rule ccontr)
  assume none: "None \<notin> set (streams (the_hub w))"
  have len: "length (streams (the_hub w)) = MAX_CONNS" using assms(1) by (simp add: world_ok_def entries_ok_def ENTRY_TABLE_def)
  have "topics_at (the_hub w) i \<noteq> None \<longleftrightarrow> i < MAX_CONNS" for i
    using none len nth_mem [of i "streams (the_hub w)"]
    by (cases "streams (the_hub w) ! i") (auto simp: topics_at_def)
  then have "{i. open_subs w i \<noteq> None} = {..< MAX_CONNS}"
    using assms(1) by (auto simp: world_ok_def)
  with assms(2) show False by simp
qed

text \<open>
  Who gets a stream. With a connection to spare, a subscription is refused exactly when 8 streams
  live on beside the one it would replace, so ended streams whose connections linger never crowd out a
  newcomer; a refusal changes nothing. An accepted one joins the live streams at the expense of at most
  one, which is a stream of the same owner: the one it reconnects (same key and topics), or else the
  oldest of three.
\<close>

theorem subscribe_outcome:
  assumes "w = hub_run rd ops (hub_start rd ck)" and "card {i. open_subs w i \<noteq> None} < 64"
    and "subscribe now boot_now req (the_hub w) = (answer, st', ls)"
  shows "(answer = None \<longleftrightarrow> 8 \<le> length (live (the_hub w)) - (if evicted_by req (the_hub w) = None then 0 else 1)) \<and>
    (answer = None \<longrightarrow> st' = the_hub w) \<and>
    (\<forall>sub. answer = Some sub \<longrightarrow>
      (\<exists>new. se_owner new = rq_owner req \<and> se_topics new = rq_topics req \<and>
        set (live st') = {x \<in> set (live (the_hub w)). evicted_by req (the_hub w) \<noteq> Some (fst x)} \<union> {(sub_entry sub, new)})) \<and>
    (\<forall>i. evicted_by req (the_hub w) = Some i \<longrightarrow>
      (\<exists>e. (i, e) \<in> set (live (the_hub w)) \<and> se_owner e = rq_owner req \<and>
        (rq_replace_same req \<noteq> None \<and> replace_same e = rq_replace_same req \<and> se_topics e = rq_topics req \<or>
         3 \<le> length (filter (\<lambda>(_, e). se_owner e = rq_owner req) (live (the_hub w))) \<and>
         (\<forall>(j, d) \<in> set (live (the_hub w)). se_owner d = rq_owner req \<longrightarrow> serial e \<le> serial d))))"
proof -
  have free: "None \<in> set (streams (the_hub w))"
    using free_entry [of w] world_ok_run [of rd ops ck] assms(1,2) by (simp add: MAX_CONNS_def)
  have refused: "(answer = None \<longleftrightarrow> 8 \<le> length (live (the_hub w)) - (if evicted_by req (the_hub w) = None then 0 else 1)) \<and>
      (answer = None \<longrightarrow> st' = the_hub w)"
    using assms(3) free
    by (cases rule: subscribe_cases [where st = "the_hub w" and now = now and boot_now = boot_now and req = req])
      (auto simp: length_live MAX_STREAMS_def)
  show ?thesis
    using refused subscribe_live [of now boot_now req "the_hub w" _ st' ls] evicted_by_some [of req "the_hub w"] assms(3)
    by (intro conjI allI impI) (auto intro!: exI)
qed

definition demo_reader :: "nat reader" where
  "demo_reader = \<lparr>rd_levels = (\<lambda>_. (None, None, None)), rd_state = (\<lambda>_. None), rd_finished_at = Some,
     rd_network_type = (\<lambda>_. None), rd_action = (\<lambda>_. None), rd_wms_status = (\<lambda>_. None), json_received = id,
     json_network_type = length, json_power = (\<lambda>_. id), json_identity = id\<rparr>"

definition demo_clocks :: clocks where "demo_clocks = \<lparr>ck_now = 0, ck_boot = 0, ck_unix = 0\<rparr>"

definition demo_request :: subscribe_req where
  "demo_request = \<lparr>rq_owner = 1, rq_topics = 3, rq_signal_hint = None, rq_replace_same = None\<rparr>"

lemma demo_live: "live (the_hub (hub_start demo_reader demo_clocks)) = []"
proof -
  let ?w = "hub_start demo_reader demo_clocks"
  have "streams (the_hub ?w) = replicate ENTRY_TABLE None"
    using entries_of_put [of 0 0 Sms 0 "hub_empty :: nat hub"]
    by (simp add: hub_start_def hub_new_def entries_of_def demo_clocks_def demo_reader_def hub_empty_def)
  then have "x \<notin> set (live (the_hub ?w))" for x by (cases x) (auto simp: in_live)
  then show ?thesis by (cases "live (the_hub ?w)") auto
qed

theorem subscribe_outcome_witness: "fst (subscribe 0 0 demo_request (the_hub (hub_start demo_reader demo_clocks))) \<noteq> None"
proof -
  let ?w = "hub_start demo_reader demo_clocks"
  have "?w = hub_run demo_reader [] ?w" "card {i. open_subs ?w i \<noteq> None} < 64"
    by (simp_all add: hub_run_def hub_start_def)
  with demo_live show ?thesis
    using subscribe_outcome [of ?w demo_reader "[]" demo_clocks 0 0 demo_request]
    by (cases "subscribe 0 0 demo_request (the_hub ?w)") auto
qed

lemma demo_subscribed: "\<exists>i o1. open_subs (hub_run demo_reader [(demo_clocks, Subscribe demo_request)] (hub_start demo_reader demo_clocks)) i = Some o1"
proof -
  let ?st = "the_hub (hub_start demo_reader demo_clocks)"
  have "None \<in> set (streams ?st)"
    by (rule free_entry [OF world_ok_start]) (simp add: hub_start_def MAX_CONNS_def)
  moreover have "counted (\<lambda>_. True) ?st = 0" using length_live [of ?st] by (simp add: demo_live)
  ultimately have "fst (subscribe 0 0 demo_request ?st) \<noteq> None"
    by (cases rule: subscribe_cases [where st = ?st and now = 0 and boot_now = 0 and req = demo_request])
      (auto simp: MAX_STREAMS_def)
  then show ?thesis
    by (auto simp: hub_run_def demo_clocks_def split: prod.split option.split)
qed

end
