(* ===== verification/Run_Invariant.thy ===== *)
theory Run_Invariant
  imports Main
begin

text \<open>
  The contract between a component's steps and the properties of its runs: a step that keeps an
  invariant keeps it over every run. A component that steps under an invariant interprets
  \<open>invariant_machine\<close> on its own step function; a relation between the states before and after a step
  that is reflexive and transitive extends to runs in \<open>progress_machine\<close>.
\<close>

locale invariant_machine =
  fixes step :: "'i \<Rightarrow> 's \<Rightarrow> 's" and inv :: "'s \<Rightarrow> bool"
  assumes inv_step: "inv s \<Longrightarrow> inv (step i s)"
begin

lemma inv_run: "inv s \<Longrightarrow> inv (fold step is s)"
  by (induction "is" arbitrary: s) (simp_all add: inv_step)

lemma inv_run_then: "inv s \<Longrightarrow> inv (step i (fold step is s))"
  by (intro inv_step inv_run)

end

locale progress_machine = invariant_machine step inv for step :: "'i \<Rightarrow> 's \<Rightarrow> 's" and inv +
  fixes rel :: "'s \<Rightarrow> 's \<Rightarrow> bool"
  assumes rel_refl: "rel s s"
    and rel_trans: "rel s t \<Longrightarrow> rel t u \<Longrightarrow> rel s u"
    and rel_step: "inv s \<Longrightarrow> rel s (step i s)"
begin

lemma rel_run: "inv s \<Longrightarrow> rel s (fold step is s)"
proof (induction "is" arbitrary: s)
  case (Cons i "is")
  then have "rel (step i s) (fold step is (step i s))" by (simp add: inv_step)
  then show ?case using rel_trans [OF rel_step [OF Cons.prems]] by simp
qed (simp add: rel_refl)

end

end
