(* ===== verification/Hub_Delivery.thy ===== *)
theory Hub_Delivery
  imports Hub_Entries Run_Invariant
begin

text \<open>
  What the hub promises its subscribers: there is no queue, and yet no change is lost. Every operation
  on the hub is \<open>progress\<close>: it leaves a topic's value and version alone, or gives it a version beyond
  every one before (and only the download's topic is ever given a recheck time). From that alone follows that a subscriber whose versions are current has been sent
  the current values.
\<close>

section \<open>Progress\<close>

definition same_data :: "'v hub \<Rightarrow> 'v hub \<Rightarrow> topic \<Rightarrow> bool" where
  "same_data st st' t \<longleftrightarrow> version (slots st' t) = version (slots st t) \<and>
     slot_value (slots st' t) = slot_value (slots st t) \<and> slot_error (slots st' t) = slot_error (slots st t)"

definition progress :: "'v hub \<Rightarrow> 'v hub \<Rightarrow> bool" where
  "progress st st' \<longleftrightarrow> seq st \<le> seq st' \<and>
     (\<forall>t. same_data st st' t \<or> seq st < version (slots st' t) \<and> version (slots st' t) \<le> seq st') \<and>
     (\<forall>t. t \<noteq> EsimDownload \<longrightarrow> recheck_at (slots st' t) = recheck_at (slots st t) \<or> recheck_at (slots st' t) = None)"

lemma progress_refl [simp]: "progress st st"
  by (simp add: progress_def same_data_def)

lemma progress_trans: "progress st st' \<Longrightarrow> progress st' st'' \<Longrightarrow> progress st st''"
proof -
  assume 1: "progress st st'" and 2: "progress st' st''"
  have "same_data st st'' t \<or> seq st < version (slots st'' t) \<and> version (slots st'' t) \<le> seq st''" for t
  proof (cases "same_data st' st'' t")
    case True
    with 1 2 show ?thesis by (auto simp: progress_def same_data_def dest: spec [of _ t])
  next
    case False
    with 1 2 show ?thesis by (auto simp: progress_def dest: spec [of _ t])
  qed
  moreover have "t \<noteq> EsimDownload \<longrightarrow> recheck_at (slots st'' t) = recheck_at (slots st t) \<or> recheck_at (slots st'' t) = None" for t
    using 1 2 unfolding progress_def by metis
  ultimately show ?thesis using 1 2 by (simp add: progress_def)
qed

lemma progress_slots: "slots st' = slots st \<Longrightarrow> seq st \<le> seq st' \<Longrightarrow> progress st st'"
  by (simp add: progress_def same_data_def)

lemma progress_put: "progress st (put now at t v st)"
  by (auto simp: progress_def same_data_def put_def bump_def wake_streams_def set_slot_def Let_def)

lemma progress_touch: "progress st (fst (touch now t settle st))"
  by (cases settle) (simp_all add: progress_def same_data_def touch_def set_slot_def Let_def)

text \<open>A read that is stored changes the topic's value or error only with its version.\<close>

lemma store_read_data [simp]:
  "version (store_read now at started s) = version s" "slot_value (store_read now at started s) = slot_value s"
  "slot_error (store_read now at started s) = slot_error s" "recheck_at (store_read now at started s) = recheck_at s"
  by (simp_all add: store_read_def Let_def)

lemma store_error_data [simp]:
  "version (store_error at out s) = version s" "slot_value (store_error at out s) = slot_value s"
  "slot_error (store_error at out s) = slot_error s"
  by (simp_all add: store_error_def Let_def)

lemma store_value_data:
  "version (snd (store_value rd unix now t out s)) = version s"
  "\<not> fst (store_value rd unix now t out s) \<Longrightarrow>
     slot_value (snd (store_value rd unix now t out s)) = slot_value s \<and>
     slot_error (snd (store_value rd unix now t out s)) = slot_error s"
  "t \<noteq> EsimDownload \<Longrightarrow> recheck_at (snd (store_value rd unix now t out s)) = recheck_at s"
  unfolding store_value_def Let_def by (cases "t = EsimDownload"; auto split: option.split)+

lemma push_history_fixed [simp]:
  "slots (push_history rd at t out st) = slots st" "seq (push_history rd at t out st) = seq st"
  by (simp_all add: push_history_def split: option.split prod.split)

lemma progress_set_slot:
  assumes "slots st' = slots st" and "seq st' = seq st"
    and "version s = version (slots st t)" and "slot_value s = slot_value (slots st t)"
    and "slot_error s = slot_error (slots st t)"
    and "t \<noteq> EsimDownload \<longrightarrow> recheck_at s = recheck_at (slots st t) \<or> recheck_at s = None"
  shows "progress st (set_slot t s st')"
  using assms by (simp add: progress_def same_data_def set_slot_def)

lemma progress_bump:
  assumes "slots st' = slots st" and "seq st' = seq st"
    and "t \<noteq> EsimDownload \<longrightarrow> recheck_at s = recheck_at (slots st t) \<or> recheck_at s = None"
  shows "progress st (bump t (set_slot t s st'))"
  using assms by (simp add: progress_def same_data_def bump_def wake_streams_def set_slot_def Let_def)

lemma progress_store: "progress st (store_at rd unix now at t out started st)"
proof (cases "case read_started (slots st t) of Some r \<Rightarrow> started < r | None \<Rightarrow> False")
  case True
  then show ?thesis by (simp add: store_at_def)
next
  case False
  note not_dropped = this
  show ?thesis
  proof (cases out)
    case None
    with False show ?thesis by (simp add: store_at_def progress_set_slot)
  next
    case (Some out')
    define s0 where "s0 = store_error at out' (store_read now at started (slots st t))"
    define s1 where "s1 = (if ro_value out' \<noteq> None then s0\<lparr>announce := False\<rparr> else s0)"
    have r: "recheck_at s1 = recheck_at (slots st t) \<or> recheck_at s1 = None"
      by (simp add: s1_def s0_def store_error_def Let_def)
    have s1: "version s1 = version (slots st t)" "slot_value s1 = slot_value (slots st t)" "slot_error s1 = slot_error (slots st t)"
      by (simp_all add: s1_def s0_def)
    obtain changed s2 where v: "store_value rd unix now t out' s1 = (changed, s2)" by force
    let ?st = "set_slot t s2 (push_history rd at t out' st)"
    have "store_at rd unix now at t out started st = bump t ?st \<or>
        store_at rd unix now at t out started st = ?st \<and> \<not> changed"
      using v unfolding store_at_def if_not_P [OF not_dropped] Some Let_def
      by (simp only: option.case s0_def [symmetric] s1_def [symmetric] prod.case split: if_split) simp
    then show ?thesis
      using store_value_data(1,2) [of rd unix now t out' s1] store_value_data(3) [of t rd unix now out' s1] s1 r v by (elim disjE conjE) (simp_all add: progress_bump progress_set_slot)
  qed
qed

lemma progress_cache: "progress st (fst (on_cache_invalidated now key settle st))"
  unfolding on_cache_invalidated_def Let_def
  by (simp add: case_prod_unfold progress_touch progress_trans [OF progress_touch progress_touch])

lemma progress_end_entry: "progress st (fst (end_entry i reason (st, ls)))"
  by (rule progress_slots) simp_all

lemma fold_end_fixed:
  assumes "\<And>i x. slots (fst (f i x)) = slots (fst x) \<and> seq (fst (f i x)) = seq (fst x)"
  shows "slots (fst (fold f is x)) = slots (fst x) \<and> seq (fst (fold f is x)) = seq (fst x)"
  using assms by (induction "is" arbitrary: x) auto

lemma progress_ends: "progress st (fst (end_all reason st))" "progress st (fst (end_sessions ids st))"
proof -
  show "progress st (fst (end_all reason st))"
    using fold_end_fixed [of "\<lambda>i. end_entry i reason" "[0 ..< ENTRY_TABLE]" "(st, no_lanes)"]
    by (intro progress_slots) (simp_all add: end_all_def case_prod_unfold Let_def)
  show "progress st (fst (end_sessions ids st))"
    using fold_end_fixed [of "\<lambda>i x. case streams (fst x) ! i of
              Some e \<Rightarrow> if se_owner e \<in> set ids then end_entry i LoggedOut (fst x, snd x) else (fst x, snd x)
            | None \<Rightarrow> (fst x, snd x)" "[0 ..< ENTRY_TABLE]" "(st, no_lanes)"]
    by (intro progress_slots) (simp_all add: end_sessions_def case_prod_unfold Let_def split: option.split)
qed

lemma progress_power: "progress st (fst (on_power_state rd now at v st))"
  by (cases rule: power_state_cases [of rd now at v st])
    (simp_all add: on_power_state_def Let_def progress_put progress_trans [OF progress_put progress_ends(1)])

lemma progress_sms: "progress st (on_new_sms rd now at st)"
proof -
  have "progress st (st\<lparr>sms_received := n\<rparr>)" for n by (rule progress_slots) simp_all
  from progress_trans [OF this progress_put] show ?thesis by (simp add: on_new_sms_def Let_def)
qed

lemma progress_service: "progress st (fst (on_service_status rd now at v st))"
proof -
  have "progress st (fst (touch now Signal None (fst (touch now Modem None st'))))" if "progress st st'" for st'
    using that by (intro progress_trans [OF progress_trans [OF _ progress_touch] progress_touch])
  then show ?thesis
    by (simp add: on_service_status_def Let_def case_prod_unfold progress_put split: option.split)
qed

lemma progress_bus: "progress st (fst (on_bus_event rd now at n v st))"
  using bus_event_is [of rd now at n v st] progress_service [of st rd now at v] progress_power [of st rd now at v]
    progress_sms [of st rd now at]
  by (auto intro: progress_trans [OF progress_put progress_touch])

lemma demand_topic_data:
  "same_data st (fst (demand_topic now boot_now t (st, ls))) u \<and>
   recheck_at (slots (fst (demand_topic now boot_now t (st, ls))) u) = recheck_at (slots st u)"
  by (simp add: same_data_def demand_topic_def Let_def set_slot_def)

lemma demand_fold_data:
  "same_data st (fst (fold (demand_topic now boot_now) ts (st, ls))) u \<and>
   recheck_at (slots (fst (fold (demand_topic now boot_now) ts (st, ls))) u) = recheck_at (slots st u)"
proof (induction ts arbitrary: st ls)
  case (Cons t ts)
  then show ?case
    using demand_topic_data [of st now boot_now t ls u]
    by (cases "demand_topic now boot_now t (st, ls)") (auto simp: same_data_def)
qed (simp add: same_data_def)

lemma demand_fold_same:
  assumes "(st2, ls2) = fold (demand_topic now boot_now) ts (st, ls)"
  shows "same_data st st2 u \<and> recheck_at (slots st2 u) = recheck_at (slots st u)"
  using demand_fold_data [of st now boot_now ts ls u] by (simp add: assms [symmetric])

lemma progress_subscribe: "progress st (fst (snd (subscribe now boot_now req st)))"
proof (cases rule: subscribe_cases [where st = st and now = now and boot_now = boot_now and req = req])
  case (opened entry sub st1 ls1 new st2 ls2)
  have "progress st st1"
    using opened(4) progress_end_entry [of st] by (auto intro: progress_trans progress_slots split: option.splits)
  moreover have "progress st1 st2"
    using demand_fold_same [OF opened(7)] demand_fold(2) [OF opened(7)]
    by (simp add: progress_def same_data_def)
  moreover have "progress st2 (recompute_signal_cadence st2)" by (rule progress_slots) simp_all
  ultimately show ?thesis using opened(8) by (auto intro: progress_trans)
qed simp

lemma progress_drop: "progress st (fst (drop_subscription sub st))"
proof (cases "streams st ! sub_entry sub")
  case (Some e)
  show ?thesis
    using Some release_effect [of "se_topics e" "st\<lparr>streams := (streams st)[sub_entry sub := None]\<rparr>" no_lanes, THEN arg_cong [where f = fst]]
    by (intro progress_slots) (simp_all add: drop_subscription_def Let_def case_prod_unfold)
qed (simp add: drop_subscription_def progress_slots)

lemma progress_step: "progress (the_hub w) (the_hub (hub_step rd ck oper w))"
proof (cases oper)
  case (Subscribe req)
  then show ?thesis
    using progress_subscribe [of "the_hub w" "ck_now ck" "ck_boot ck" req] by (auto split: prod.split option.split)
qed (auto simp: progress_put progress_touch progress_ends progress_store progress_bus progress_cache progress_drop
      split: option.split prod.split)

section \<open>Delivery\<close>

text \<open>A client knows a topic when the last view it was sent shows the topic's value and error.\<close>

definition knows :: "'v opened \<Rightarrow> 'v hub \<Rightarrow> topic \<Rightarrow> bool" where
  "knows o1 st t \<longleftrightarrow> (\<exists>v. op_sent o1 t = Some v \<and> sv_value v = slot_value (slots st t) \<and> sv_error v = slot_error (slots st t))"

definition sub_ok :: "'v opened \<Rightarrow> 'v hub \<Rightarrow> bool" where
  "sub_ok o1 st \<longleftrightarrow> (\<forall>t. ts_contains (sub_topics (op_sub o1)) t \<longrightarrow>
     seen (op_sub o1) t \<le> version (slots st t) \<and>
     (has_data (slots st t) \<longrightarrow> seen (op_sub o1) t = version (slots st t) \<longrightarrow> knows o1 st t) \<and>
     (\<forall>v. op_sent o1 t = Some v \<longrightarrow> sv_version v \<le> seen (op_sub o1) t))"

definition versions_ok :: "'v hub \<Rightarrow> bool" where
  "versions_ok st \<longleftrightarrow> (\<forall>t. version (slots st t) \<le> seq st \<and> (has_data (slots st t) \<longrightarrow> 0 < version (slots st t)))"

definition delivery_ok :: "'v hub_world \<Rightarrow> bool" where
  "delivery_ok w \<longleftrightarrow> versions_ok (the_hub w) \<and> (\<forall>i o1. open_subs w i = Some o1 \<longrightarrow> sub_ok o1 (the_hub w))"

lemma same_data_has: "same_data st st' t \<Longrightarrow> has_data (slots st' t) = has_data (slots st t)"
  by (simp add: same_data_def has_data_def)

lemma versions_ok_progress:
  assumes "versions_ok st" and "progress st st'"
  shows "versions_ok st'"
proof -
  have "version (slots st' t) \<le> seq st' \<and> (has_data (slots st' t) \<longrightarrow> 0 < version (slots st' t))" for t
  proof (cases "same_data st st' t")
    case True
    with assms same_data_has [OF True] show ?thesis
      by (auto simp: versions_ok_def progress_def same_data_def intro: order_trans)
  next
    case False
    with assms(2) show ?thesis by (auto simp: progress_def intro: gr_implies_not0 dest: spec [of _ t])
  qed
  then show ?thesis by (simp add: versions_ok_def)
qed

lemma sub_ok_progress:
  assumes "versions_ok st" and "progress st st'" and "sub_ok o1 st"
  shows "sub_ok o1 st'"
  unfolding sub_ok_def
proof (intro allI impI)
  fix t
  assume t: "ts_contains (sub_topics (op_sub o1)) t"
  show "seen (op_sub o1) t \<le> version (slots st' t) \<and>
     (has_data (slots st' t) \<longrightarrow> seen (op_sub o1) t = version (slots st' t) \<longrightarrow> knows o1 st' t) \<and>
     (\<forall>v. op_sent o1 t = Some v \<longrightarrow> sv_version v \<le> seen (op_sub o1) t)"
  proof (cases "same_data st st' t")
    case True
    with assms(3) t same_data_has [OF True] show ?thesis by (auto simp: sub_ok_def same_data_def knows_def)
  next
    case False
    with assms(2) have "seq st < version (slots st' t)" by (auto simp: progress_def)
    moreover have "seen (op_sub o1) t \<le> seq st"
      using assms(1,3) t by (auto simp: sub_ok_def versions_ok_def intro: order_trans)
    ultimately show ?thesis using assms(3) t by (auto simp: sub_ok_def)
  qed
qed

lemma map_of_map_filter:
  "map_of (List.map_filter (\<lambda>t. if P t then Some (t, f t) else None) ts) u = (if u \<in> set ts \<and> P u then Some (f u) else None)"
  by (induction ts) (auto simp: List.map_filter_simps)

lemma collect_ok:
  assumes "sub_ok o1 st" and "collect_changes everything st (op_sub o1) = (out, sub)"
  shows "sub_ok \<lparr>op_sub = sub, op_sent = sent_after out (op_sent o1)\<rparr> st"
    and "ts_contains (sub_topics (op_sub o1)) t \<Longrightarrow> has_data (slots st t) \<Longrightarrow>
      knows \<lparr>op_sub = sub, op_sent = sent_after out (op_sent o1)\<rparr> st t"
proof -
  have out: "map_of out t = (if ts_contains (sub_topics (op_sub o1)) t \<and> has_data (slots st t) \<and>
        (everything \<or> seen (op_sub o1) t < version (slots st t)) then Some (view (slots st t)) else None)" for t
    using assms(2) by (auto simp: collect_changes_def map_of_map_filter)
  have seen: "seen sub t = version (slots st t)" if "ts_contains (sub_topics (op_sub o1)) t" for t
    using assms(2) that by (auto simp: collect_changes_def)
  show know: "knows \<lparr>op_sub = sub, op_sent = sent_after out (op_sent o1)\<rparr> st t"
    if t: "ts_contains (sub_topics (op_sub o1)) t" "has_data (slots st t)" for t
  proof (cases "everything \<or> seen (op_sub o1) t < version (slots st t)")
    case True
    with t show ?thesis by (simp add: knows_def sent_after_def out view_def)
  next
    case False
    with t assms(1) have "knows o1 st t" by (auto simp: sub_ok_def)
    with False t show ?thesis by (simp add: knows_def sent_after_def out)
  qed
  have "sv_version v \<le> version (slots st t)" if "ts_contains (sub_topics (op_sub o1)) t" "sent_after out (op_sent o1) t = Some v" for t v
    using that assms(1) by (auto simp: sent_after_def out view_def sub_ok_def split: if_splits intro: order_trans)
  with know seen assms(2) show "sub_ok \<lparr>op_sub = sub, op_sent = sent_after out (op_sent o1)\<rparr> st"
    by (auto simp: sub_ok_def collect_changes_def)
qed

lemma delivery_ok_step:
  assumes "delivery_ok w"
  shows "delivery_ok (hub_step rd ck oper w)"
proof -
  have v: "versions_ok (the_hub w)" and s: "open_subs w i = Some o1 \<Longrightarrow> sub_ok o1 (the_hub w)" for i o1
    using assms by (auto simp: delivery_ok_def)
  have v': "versions_ok (the_hub (hub_step rd ck oper w))" by (rule versions_ok_progress [OF v progress_step])
  have kept: "sub_ok o1 (the_hub (hub_step rd ck oper w))" if "open_subs w i = Some o1" for i o1
    by (rule sub_ok_progress [OF v progress_step s [OF that]])
  have "sub_ok o1 (the_hub (hub_step rd ck oper w))" if o1: "open_subs (hub_step rd ck oper w) i = Some o1" for i o1
  proof (cases "open_subs w i = Some o1")
    case True
    then show ?thesis by (rule kept)
  next
    case False
    note new = this
    show ?thesis
    proof (cases oper)
      case (Subscribe req)
      with o1 new obtain sub where "seen (op_sub o1) = (\<lambda>_. 0)" "op_sent o1 = (\<lambda>_. None)"
        by (cases rule: subscribe_cases [where st = "the_hub w" and now = "ck_now ck" and boot_now = "ck_boot ck" and req = req])
          (auto split: if_splits)
      with v' show ?thesis by (auto simp: sub_ok_def versions_ok_def)
    next
      case (Collect everything j)
      then show ?thesis
        using o1 new s collect_ok(1) [of _ "the_hub w" everything]
        by (auto split: option.splits prod.splits if_splits)
    qed (use o1 new in \<open>auto split: option.splits if_splits\<close>)
  qed
  with v' show ?thesis by (simp add: delivery_ok_def)
qed

interpretation hub_world:
  progress_machine "\<lambda>(ck, oper). hub_step rd ck oper" delivery_ok "\<lambda>w w'. progress (the_hub w) (the_hub w')" for rd
  by unfold_locales (auto simp: delivery_ok_step progress_step elim: progress_trans)

text \<open>The versions of a topic never go back, and a topic whose version stands still has not changed.\<close>

lemma versions_advance:
  assumes "delivery_ok w"
  shows "version (slots (the_hub w) t) \<le> version (slots (the_hub (hub_run rd ops w)) t) \<and>
    (version (slots (the_hub (hub_run rd ops w)) t) = version (slots (the_hub w) t) \<longrightarrow>
      same_data (the_hub w) (the_hub (hub_run rd ops w)) t)"
proof -
  have "progress (the_hub w) (the_hub (hub_run rd ops w))" unfolding hub_run_def by (rule hub_world.rel_run [OF assms])
  moreover have "version (slots (the_hub w) t) \<le> seq (the_hub w)" using assms by (simp add: delivery_ok_def versions_ok_def)
  ultimately show ?thesis by (auto simp: progress_def same_data_def dest: spec [of _ t])
qed

lemma delivery_ok_run: "delivery_ok (hub_run rd ops (hub_start rd ck))"
proof -
  have "versions_ok (hub_empty :: 'a hub)"
    by (simp add: versions_ok_def hub_empty_def default_slot_def has_data_def)
  then have "delivery_ok (hub_start rd ck)"
    using versions_ok_progress [OF _ progress_put] by (simp add: delivery_ok_def hub_start_def hub_new_def)
  then show ?thesis unfolding hub_run_def by (rule hub_world.inv_run)
qed

text \<open>
  C24: no change is lost and none is sent twice, though the hub queues nothing and a slow client skips
  values: whenever an open stream has nothing to take (\<open>changed\<close> waits on), the last view its client was
  sent of every one of its topics shows the topic's current value and error, whatever pushes, reads and
  errors arrived in between; taking the changes (or a snapshot) always brings the client up to date; and
  a view among the changes is of a newer version than the one its client was sent before.
\<close>

theorem no_update_lost:
  assumes "w = hub_run rd ops (hub_start rd ck)" and "open_subs w i = Some o1"
  shows "(stream_changed (the_hub w) (op_sub o1) = None \<longrightarrow>
      (\<forall>t. ts_contains (sub_topics (op_sub o1)) t \<longrightarrow> has_data (slots (the_hub w) t) \<longrightarrow> knows o1 (the_hub w) t)) \<and>
    (\<exists>o2. open_subs (hub_step rd ck' (Collect everything i) w) i = Some o2 \<and>
      (\<forall>t. ts_contains (sub_topics (op_sub o1)) t \<longrightarrow> has_data (slots (the_hub w) t) \<longrightarrow> knows o2 (the_hub w) t)) \<and>
    (\<forall>(t, v) \<in> set (fst (collect_changes False (the_hub w) (op_sub o1))).
      \<forall>u. op_sent o1 t = Some u \<longrightarrow> sv_version u < sv_version v)"
proof (intro conjI)
  have ok: "sub_ok o1 (the_hub w)" using delivery_ok_run [of rd ops ck] assms by (auto simp: delivery_ok_def)
  show "stream_changed (the_hub w) (op_sub o1) = None \<longrightarrow>
      (\<forall>t. ts_contains (sub_topics (op_sub o1)) t \<longrightarrow> has_data (slots (the_hub w) t) \<longrightarrow> knows o1 (the_hub w) t)"
  proof (intro impI allI)
    fix t
    assume quiet: "stream_changed (the_hub w) (op_sub o1) = None" and t: "ts_contains (sub_topics (op_sub o1)) t"
      and data: "has_data (slots (the_hub w) t)"
    from quiet t have "\<not> seen (op_sub o1) t < version (slots (the_hub w) t)"
      by (auto simp: stream_changed_def list_ex_iff split: option.splits if_splits)
    with ok t have "seen (op_sub o1) t = version (slots (the_hub w) t)" by (simp add: sub_ok_def le_antisym)
    with ok t data show "knows o1 (the_hub w) t" by (simp add: sub_ok_def)
  qed
  show "\<exists>o2. open_subs (hub_step rd ck' (Collect everything i) w) i = Some o2 \<and>
      (\<forall>t. ts_contains (sub_topics (op_sub o1)) t \<longrightarrow> has_data (slots (the_hub w) t) \<longrightarrow> knows o2 (the_hub w) t)"
    using assms(2) collect_ok(2) [OF ok, of everything] by (auto split: prod.split)
  show "\<forall>(t, v) \<in> set (fst (collect_changes False (the_hub w) (op_sub o1))).
      \<forall>u. op_sent o1 t = Some u \<longrightarrow> sv_version u < sv_version v"
    using ok by (auto simp: collect_changes_def List.map_filter_def view_def sub_ok_def intro: order.strict_trans1 split: if_splits)
qed

theorem no_update_lost_witness:
  "\<exists>i o2. open_subs (hub_step demo_reader demo_clocks (Collect True i)
     (hub_run demo_reader [(demo_clocks, Subscribe demo_request)] (hub_start demo_reader demo_clocks))) i = Some o2"
  using demo_subscribed no_update_lost [OF refl, of demo_reader "[(demo_clocks, Subscribe demo_request)]" demo_clocks]
  by blast

end
