(* ===== verification/Hub_Schedule.thy ===== *)
theory Hub_Schedule
  imports Hub_Delivery "HOL-Library.Product_Lexorder" "HOL-Library.Code_Target_Nat"
begin

text \<open>
  What the sampler reads next and how often: the job a lane takes is the least of its demanded topics,
  by due time and then in topic order, and a read that was stored is never due again within half a
  second, whatever it returned.
\<close>

section \<open>The next job\<close>

definition candidates :: "'v hub \<Rightarrow> lane \<Rightarrow> duration \<Rightarrow> (duration \<times> topic) set" where
  "candidates st l now =
     {(d, t). l \<noteq> Unread \<and> ts_lane (topic_spec_of t) = l \<and> 0 < demand st t \<and> due_time st t now = Some d}"

text \<open>The best of some candidates, in the order of their topics.\<close>

definition best_of :: "(duration \<times> topic) set \<Rightarrow> (duration \<times> topic) option" where
  "best_of C = (if C = {} then None else Some (Min C))"

lemma best_of_insert:
  assumes "finite C" and "\<forall>(e, u) \<in> C. u < t"
  shows "best_of (insert (d, t) C) = (if (case best_of C of None \<Rightarrow> True | Some (b, _) \<Rightarrow> d < b) then Some (d, t) else best_of C)"
proof (cases "C = {}")
  case False
  obtain b u where m: "Min C = (b, u)" by force
  with assms False Min_in [of C] have "u < t" by fastforce
  have "Min (insert (d, t) C) = min (d, t) (b, u)" using assms False m by simp
  also have "\<dots> = (if d < b then (d, t) else (b, u))"
    using \<open>u < t\<close> by (auto simp: min_def less_eq_prod_def)
  finally show ?thesis using False m by (simp add: best_of_def)
qed (simp add: best_of_def)

lemma fold_better:
  assumes "sorted_wrt (<) ts" and "finite C" and "\<forall>(e, u) \<in> C. \<forall>t \<in> set ts. u < t"
  shows "fold (better st l now) ts (best_of C) = best_of (C \<union> {(d, t) \<in> candidates st l now. t \<in> set ts})"
  using assms
proof (induction ts arbitrary: C)
  case (Cons t ts)
  show ?case
  proof (cases "l \<noteq> Unread \<and> ts_lane (topic_spec_of t) = l \<and> 0 < demand st t \<and> due_time st t now \<noteq> None")
    case True
    then obtain d where d: "due_time st t now = Some d" by auto
    then have 1: "{(d, u) \<in> candidates st l now. u \<in> set (t # ts)} = insert (d, t) {(d, u) \<in> candidates st l now. u \<in> set ts}"
      using True by (auto simp: candidates_def)
    have "better st l now t (best_of C) = best_of (insert (d, t) C)"
      using True d Cons.prems by (subst best_of_insert) (auto simp: better_def split: option.split)
    moreover have "fold (better st l now) ts (best_of (insert (d, t) C)) = best_of (insert (d, t) C \<union> {(d, u) \<in> candidates st l now. u \<in> set ts})"
      using Cons.prems by (intro Cons.IH) auto
    ultimately show ?thesis by (simp only: fold_Cons o_apply 1) simp
  next
    case False
    then have "{(d, u) \<in> candidates st l now. u \<in> set (t # ts)} = {(d, u) \<in> candidates st l now. u \<in> set ts}"
      by (auto simp: candidates_def)
    moreover have "better st l now t (best_of C) = best_of C"
      using False by (auto simp: better_def split: option.split)
    moreover have "fold (better st l now) ts (best_of C) = best_of (C \<union> {(d, u) \<in> candidates st l now. u \<in> set ts})"
      by (intro Cons.IH) (use Cons.prems in auto)
    ultimately show ?thesis by (simp only: fold_Cons o_apply)
  qed
qed simp

lemma all_topics_increasing: "sorted_wrt (<) all_topics"
  using sorted_all_topics distinct_all_topics by (simp add: strict_sorted_iff)

lemma due_job_best:
  "fold (better st l now) all_topics None = best_of (candidates st l now)"
proof -
  have "{(d, t) \<in> candidates st l now. t \<in> set all_topics} = candidates st l now" by auto
  with fold_better [OF all_topics_increasing, of "{}" st l now] show ?thesis by (simp add: best_of_def)
qed

text \<open>
  What a sampler lane does next is determined by one minimum: among the topics of the lane that
  somebody subscribed to and that will ever be due, the one due first, and of these the first in topic
  order. It is read if its time has come; else the lane parks until that time, or without a timeout when
  there is no such topic.
\<close>

theorem due_job_is_earliest:
  "due_job st l now =
     (let C = {(d, t). l \<noteq> Unread \<and> ts_lane (topic_spec_of t) = l \<and> 0 < demand st t \<and> due_time st t now = Some d}
      in if C = {} then Inl None else if fst (Min C) \<le> now then Inr (snd (Min C)) else Inl (Some (fst (Min C))))"
  unfolding Let_def candidates_def [symmetric]
  by (simp add: due_job_def due_job_best best_of_def case_prod_unfold)

section \<open>Pacing\<close>

lemma cadence_base: "ts_cadence (topic_spec_of t) = Some c \<Longrightarrow> from_secs 1 \<le> c"
  by (cases t) (auto simp: topic_spec_of_def SPECS_def spec_def from_millis_def from_secs_def split: if_splits)

text \<open>A due time is at least what each of its reasons is.\<close>

definition not_before :: "duration \<Rightarrow> duration option \<Rightarrow> bool" where
  "not_before m x \<longleftrightarrow> (case x of Some d \<Rightarrow> m \<le> d | None \<Rightarrow> True)"

lemma not_before_simps [simp]:
  "not_before m None" "not_before m (Some d) \<longleftrightarrow> m \<le> d"
  "not_before m (earlier d x) \<longleftrightarrow> m \<le> d \<and> not_before m x"
  by (auto simp: not_before_def earlier_def split: option.split)

lemma not_before_cases:
  "(\<And>d. x = Some d \<Longrightarrow> m \<le> g d) \<Longrightarrow> not_before m (case x of Some d \<Rightarrow> earlier (g d) None | None \<Rightarrow> None)"
  "(\<And>d. x = Some d \<Longrightarrow> m \<le> d) \<Longrightarrow> not_before m y \<Longrightarrow> not_before m (case x of Some d \<Rightarrow> earlier d y | None \<Rightarrow> y)"
  "(b \<Longrightarrow> m \<le> e) \<Longrightarrow> not_before m y \<Longrightarrow> not_before m (if b then earlier e y else y)"
  by (auto split: option.split)

lemma due_time_bound:
  assumes "last_read (slots st t) = Some prev"
    and "\<And>c. cadence st t = Some c \<Longrightarrow> m \<le> prev + c"
    and "m \<le> prev + SETTLE_REREAD"
    and "err_retry (slots st t) \<Longrightarrow> m \<le> prev + err_backoff (slots st t)"
    and "stale (slots st t) \<Longrightarrow> \<exists>p. pull_after (slots st t) = Some p \<and> m \<le> p"
    and "\<And>r. recheck_at (slots st t) = Some r \<Longrightarrow> m \<le> r"
  shows "not_before m (due_time st t later)"
  unfolding due_time_def Let_def assms(1) option.case
  by (intro not_before_cases) (use assms in auto)

text \<open>What a read leaves of the times in its slot.\<close>

lemma result_expiry_bound: "result_expiry rd v unix = Some d \<Longrightarrow> from_secs 2 \<le> d"
  by (auto simp: result_expiry_def Let_def from_secs_def RESULT_KEEP_SECS_def split: if_splits option.splits)

lemma store_value_fixed [simp]:
  "last_read (snd (store_value rd unix now t out s)) = last_read s"
  "err_retry (snd (store_value rd unix now t out s)) = err_retry s"
  "err_backoff (snd (store_value rd unix now t out s)) = err_backoff s"
  "stale (snd (store_value rd unix now t out s)) = stale s"
  "pull_after (snd (store_value rd unix now t out s)) = pull_after s"
  unfolding store_value_def Let_def by (cases "t = EsimDownload"; simp split: option.split)+

lemma store_value_recheck:
  "recheck_at (snd (store_value rd unix now t out s)) =
     (case ro_value out of
        Some v \<Rightarrow> if t = EsimDownload then map_option (\<lambda>d. now + d) (result_expiry rd v unix) else recheck_at s
      | None \<Rightarrow> recheck_at s)"
  unfolding store_value_def Let_def by (cases "t = EsimDownload"; simp split: option.split)

lemma stored_slot:
  assumes "case read_started (slots st t) of Some r \<Rightarrow> r \<le> started | None \<Rightarrow> True"
  obtains s where "s = snd (store_value rd unix now t out
      (let s = store_error at out (store_read now at started (slots st t)) in if ro_value out \<noteq> None then s\<lparr>announce := False\<rparr> else s))"
    and "slots (store_at rd unix now at t (Some out) started st) t = s \<or>
      (\<exists>n. slots (store_at rd unix now at t (Some out) started st) t = s\<lparr>version := n\<rparr>)"
proof -
  have nd: "\<not> (case read_started (slots st t) of Some r \<Rightarrow> started < r | None \<Rightarrow> False)"
    using assms by (auto split: option.split)
  define s0 where "s0 = store_error at out (store_read now at started (slots st t))"
  define s1 where "s1 = (if ro_value out \<noteq> None then s0\<lparr>announce := False\<rparr> else s0)"
  obtain changed s2 where v: "store_value rd unix now t out s1 = (changed, s2)" by force
  have "slots (store_at rd unix now at t (Some out) started st) t = s2 \<or>
      (\<exists>n. slots (store_at rd unix now at t (Some out) started st) t = s2\<lparr>version := n\<rparr>)"
    unfolding store_at_def if_not_P [OF nd] option.case Let_def
    by (simp only: s0_def [symmetric] s1_def [symmetric] v prod.case split: if_split)
      (simp add: set_slot_def bump_def wake_streams_def Let_def, blast)
  moreover have "s2 = snd (store_value rd unix now t out
      (let s = store_error at out (store_read now at started (slots st t)) in if ro_value out \<noteq> None then s\<lparr>announce := False\<rparr> else s))"
    unfolding Let_def s0_def [symmetric] s1_def [symmetric] v by simp
  ultimately show thesis using that by blast
qed

lemma recheck_run:
  assumes "t \<noteq> EsimDownload"
  shows "recheck_at (slots (the_hub (hub_run rd ops (hub_start rd ck))) t) = None"
proof -
  have "recheck_at (slots (the_hub (hub_start rd ck)) t) = None"
    by (simp add: hub_start_def hub_new_def put_def bump_def wake_streams_def set_slot_def hub_empty_def default_slot_def Let_def)
  moreover have "recheck_at (slots (the_hub (hub_step rd c oper w)) t) = None" if "recheck_at (slots (the_hub w) t) = None" for w c oper
    using progress_step [of w rd c oper] assms that by (auto simp: progress_def)
  ultimately show ?thesis
    unfolding hub_run_def
    by (intro fold_invariant [where Q = "\<lambda>_. True" and P = "\<lambda>w. recheck_at (slots (the_hub w) t) = None"]) auto
qed

lemma cadence_bound: "world_ok w \<Longrightarrow> cadence (the_hub w) t = Some c \<Longrightarrow> from_secs 1 \<le> c"
  using signal_cadence_bounds [of w] cadence_base [of t] by (auto simp: cadence_def split: option.splits if_splits)

text \<open>
  C32: reads are paced. Once a read has been stored, its topic is not due again for half a second,
  whatever the read returned (a value, an error or both), however fast a client wants the topic, and
  even if an invalidation arrived while it ran: no lane ever spins.
\<close>

theorem reads_paced:
  assumes "w = hub_run rd ops (hub_start rd ck)"
    and "case read_started (slots (the_hub w) t) of Some r \<Rightarrow> r \<le> started | None \<Rightarrow> True"
    and "due_time (store_at rd unix now at t (Some out) started (the_hub w)) t later = Some d"
  shows "now + from_millis 500 \<le> d"
proof -
  let ?st = "store_at rd unix now at t (Some out) started (the_hub w)"
  let ?s1 = "let s = store_error at out (store_read now at started (slots (the_hub w) t)) in
      if ro_value out \<noteq> None then s\<lparr>announce := False\<rparr> else s"
  have w: "world_ok w" using world_ok_run assms(1) by simp
  have ms: "from_millis 500 \<le> from_secs 1" "from_secs 1 \<le> from_secs 2" "from_secs 1 \<le> ERR_BACKOFF_MIN"
    "from_millis 500 \<le> from_secs 60"
    by (simp_all add: from_millis_def from_secs_def ERR_BACKOFF_MIN_def)
  obtain s where s: "s = snd (store_value rd unix now t out ?s1)"
    and "slots ?st t = s \<or> (\<exists>n. slots ?st t = s\<lparr>version := n\<rparr>)"
    using stored_slot [OF assms(2), of rd unix now out at] by blast
  then have slot: "last_read (slots ?st t) = last_read s" "err_retry (slots ?st t) = err_retry s"
    "err_backoff (slots ?st t) = err_backoff s" "stale (slots ?st t) = stale s"
    "pull_after (slots ?st t) = pull_after s" "recheck_at (slots ?st t) = recheck_at s" by auto
  have "signal_cadence ?st = signal_cadence (the_hub w)"
    using entries_of_store [of rd unix now at t "Some out" started "the_hub w"] by (simp add: entries_of_def)
  then have "cadence ?st t = cadence (the_hub w) t" by (simp only: cadence_def)
  then have "cadence ?st t = Some c \<Longrightarrow> now + from_millis 500 \<le> now + c" for c
    using cadence_bound [OF w] ms by fastforce
  moreover have "err_retry s \<Longrightarrow> now + from_millis 500 \<le> now + err_backoff s"
    using ms by (auto simp: s Let_def store_error_def clamp_backoff_def ERR_BACKOFF_MAX_def split: if_splits)
  moreover have "stale s \<Longrightarrow> \<exists>p. pull_after s = Some p \<and> now + from_millis 500 \<le> p"
    by (auto simp: s Let_def store_error_def store_read_def TOUCH_COALESCE_def split: if_splits)
  moreover have "now + from_millis 500 \<le> r" if "recheck_at s = Some r" for r
    using that recheck_run [of t rd ops ck] result_expiry_bound [of rd _ unix] ms assms(1)
    by (auto simp: s store_value_recheck Let_def store_error_def split: option.splits if_splits) fastforce+
  moreover have "last_read s = Some now"
    by (simp add: s Let_def store_error_def store_read_def)
  ultimately have "not_before (now + from_millis 500) (due_time ?st t later)"
    using ms by (intro due_time_bound [where prev = now]) (simp_all add: slot SETTLE_REREAD_def)
  with assms(3) show ?thesis by simp
qed

lemma demo_due:
  "due_time (store_at demo_reader 0 (from_secs 7) 0 Battery (Some \<lparr>ro_value = Some 5, ro_error = None\<rparr>) (from_secs 6)
     (the_hub (hub_start demo_reader demo_clocks))) Battery (from_secs 8) = Some (from_secs 12)"
  by code_simp

lemma demo_unread: "read_started (slots (the_hub (hub_start demo_reader demo_clocks)) Battery) = None"
  by code_simp

theorem reads_paced_witness: "from_secs 7 + from_millis 500 \<le> from_secs 12"
  using reads_paced [of "hub_start demo_reader demo_clocks" demo_reader "[]" demo_clocks, OF _ _ demo_due]
  by (simp add: demo_unread hub_run_def)

end
