(* ===== verification/Job_Scheduler.thy ===== *)
theory Job_Scheduler
  imports Text_Ops
begin

text \<open>
  \<open>src/zte-agent/src/scheduler.rs\<close>: the jobs the owner schedules (an API call once or on weekdays at a
  time, and optionally a second call that restores what the first changed), the minute tick that runs
  them and the handlers that edit them. Requests arrive parsed (\<open>serde\<close> is a parameter, a body that
  does not parse is \<open>None\<close>); a call's effect is the parameter \<open>route\<close>, which gives the status and the
  error text. \<open>'v\<close> is the type of JSON bodies and \<open>to_vec\<close> their text. A \<open>i64\<close> time is an \<open>int\<close>, a
  \<open>u32\<close> id a number below \<open>2 ^ 32\<close>.

  The lemmas show when a job runs, that it runs once per scheduled minute, what the handlers keep, and
  where the sleeps of the tick thread land.
\<close>

section \<open>Data\<close>

datatype schedule = Once int | Recurring string "nat list"

record 'v action =
  act_method :: string
  act_path :: string
  act_body :: "'v option"

record 'v restore =
  res_time :: string
  res_body :: "'v option"

record 'v job =
  job_id :: nat
  job_name :: string
  enabled :: bool
  job_schedule :: schedule
  job_action :: "'v action"
  job_restore :: "'v restore option"
  last_run :: "int option"
  last_status :: "nat option"
  last_error :: "string option"
  last_restore :: "int option"
  created_at :: int

type_synonym 'v scheduler_data = "'v job list"

record pending_action =
  pa_job :: nat
  pa_method :: string
  pa_path :: string
  pa_body :: bytes
  pa_restore :: bool

record exec_result =
  er_job :: nat
  er_restore :: bool
  er_status :: nat
  er_error :: "string option"

datatype http_method = Get | Post | Put | Delete

section \<open>Time\<close>

definition next_tick_delay :: "int \<Rightarrow> int" where
  "next_tick_delay now_ts = max 1 (min 61 (61 - now_ts mod 60))"

definition two_digits :: "nat \<Rightarrow> string" where
  "two_digits n = (if n < 10 then CHR ''0'' # show_nat n else show_nat n)"

definition format_hm :: "nat \<Rightarrow> nat \<Rightarrow> string" where
  "format_hm hour minute = two_digits hour @ '':'' @ two_digits minute"

definition has_enabled_job :: "'v scheduler_data \<Rightarrow> bool" where
  "has_enabled_job jobs = list_ex enabled jobs"

definition parse_method :: "string \<Rightarrow> http_method option" where
  "parse_method s =
     (if s = ''GET'' then Some Get else if s = ''POST'' then Some Post
      else if s = ''PUT'' then Some Put else if s = ''DELETE'' then Some Delete else None)"

section \<open>Validation\<close>

definition validate_time :: "string \<Rightarrow> string + unit" where
  "validate_time s =
     (case split_char CHR '':'' s of
        [hour, minute] \<Rightarrow>
          (case parse_uint 8 hour of
             None \<Rightarrow> Err ''invalid hour''
           | Some h \<Rightarrow> (case parse_uint 8 minute of
               None \<Rightarrow> Err ''invalid minute''
             | Some m \<Rightarrow>
                 if 23 < h then Err ''hour must be 0-23''
                 else if 59 < m then Err ''minute must be 0-59''
                 else Ok ()))
      | _ \<Rightarrow> Err ''time must be HH:MM'')"

definition starts_with :: "string \<Rightarrow> string \<Rightarrow> bool" where
  "starts_with s pre \<longleftrightarrow> take (length pre) s = pre"

definition validate_job :: "'v action \<Rightarrow> schedule \<Rightarrow> 'v restore option \<Rightarrow> string + unit" where
  "validate_job a s r =
     (if \<not> starts_with (act_path a) ''/api/'' then Err ''action.path must start with /api/''
      else if starts_with (act_path a) ''/api/scheduler/'' then Err ''cannot schedule scheduler endpoints''
      else if starts_with (act_path a) ''/api/auth/'' then Err ''cannot schedule auth endpoints''
      else if act_path a \<in> {''/api/tailscale/setup'', ''/api/tailscale/logout'', ''/api/tailscale/update''}
      then Err ''cannot schedule tailscale enrollment or maintenance endpoints''
      else if parse_method (act_method a) = None then Err ''action.method must be GET, POST, PUT, or DELETE''
      else
        and_then
          (case s of
             Recurring time days \<Rightarrow>
               and_then (validate_time time) (\<lambda>_.
                 if days = [] then Err ''days must not be empty''
                 else if list_ex (\<lambda>d. 6 < d) days then Err ''days must be 0-6 (Mon-Sun)''
                 else Ok ())
           | Once at \<Rightarrow> if at \<le> 1000000000 then Err ''once.at must be a valid unix timestamp'' else Ok ())
          (\<lambda>_. case r of None \<Rightarrow> Ok () | Some r \<Rightarrow> validate_time (res_time r)))"

section \<open>The tick\<close>

definition action_body :: "('v \<Rightarrow> bytes) \<Rightarrow> 'v option \<Rightarrow> bytes" where
  "action_body to_vec body = (case body of Some v \<Rightarrow> to_vec v | None \<Rightarrow> [])"

text \<open>\<open>last.map(|lr| now_ts - lr > 60).unwrap_or(true)\<close>\<close>

definition guard_passed :: "int \<Rightarrow> int option \<Rightarrow> bool" where
  "guard_passed now_ts prev = (case prev of Some lr \<Rightarrow> 60 < now_ts - lr | None \<Rightarrow> True)"

definition action_due :: "int \<Rightarrow> string \<Rightarrow> nat \<Rightarrow> 'v job \<Rightarrow> bool" where
  "action_due now_ts now_hm dow job =
     (case job_schedule job of
        Recurring time days \<Rightarrow> time = now_hm \<and> dow \<in> set days \<and> guard_passed now_ts (last_run job)
      | Once at \<Rightarrow> at \<le> now_ts \<and> last_run job = None)"

definition restore_due :: "int \<Rightarrow> string \<Rightarrow> 'v job \<Rightarrow> bool" where
  "restore_due now_ts now_hm job =
     (case job_restore job of
        None \<Rightarrow> False
      | Some r \<Rightarrow>
          res_time r = now_hm \<and>
          (case (last_run job, last_restore job) of
             (Some lr, Some lrest) \<Rightarrow> lrest < lr
           | (Some _, None) \<Rightarrow> True
           | _ \<Rightarrow> False) \<and>
          guard_passed now_ts (last_restore job))"

definition pending_of :: "('v \<Rightarrow> bytes) \<Rightarrow> 'v job \<Rightarrow> 'v option \<Rightarrow> bool \<Rightarrow> pending_action" where
  "pending_of to_vec job body is_restore =
     \<lparr>pa_job = job_id job, pa_method = act_method (job_action job), pa_path = act_path (job_action job),
      pa_body = action_body to_vec body, pa_restore = is_restore\<rparr>"

definition collect_job :: "('v \<Rightarrow> bytes) \<Rightarrow> int \<Rightarrow> string \<Rightarrow> nat \<Rightarrow> 'v job \<Rightarrow> pending_action list" where
  "collect_job to_vec now_ts now_hm dow job =
     (if \<not> enabled job then []
      else
        (if action_due now_ts now_hm dow job
         then [pending_of to_vec job (act_body (job_action job)) False] else []) @
        (case job_restore job of
           None \<Rightarrow> []
         | Some r \<Rightarrow>
             if restore_due now_ts now_hm job then [pending_of to_vec job (res_body r) True] else []))"

definition collect :: "('v \<Rightarrow> bytes) \<Rightarrow> int \<Rightarrow> string \<Rightarrow> nat \<Rightarrow> 'v scheduler_data \<Rightarrow> pending_action list" where
  "collect to_vec now_ts now_hm dow jobs = concat (map (collect_job to_vec now_ts now_hm dow) jobs)"

fun execute :: "(http_method \<Rightarrow> string \<Rightarrow> bytes \<Rightarrow> 's \<Rightarrow> (nat \<times> string option) \<times> 's) \<Rightarrow> pending_action list \<Rightarrow> 's \<Rightarrow>
    exec_result list \<times> 's" where
  "execute route [] s = ([], s)"
| "execute route (pa # pas) s =
     (case parse_method (pa_method pa) of
        None \<Rightarrow> execute route pas s
      | Some meth \<Rightarrow>
          let ((status, err_text), s) = route meth (pa_path pa) (pa_body pa) s;
              err = (if 400 \<le> status then err_text else None);
              (rs, s) = execute route pas s
          in (\<lparr>er_job = pa_job pa, er_restore = pa_restore pa, er_status = status, er_error = err\<rparr> # rs, s))"

definition is_once :: "schedule \<Rightarrow> bool" where
  "is_once s = (case s of Once _ \<Rightarrow> True | Recurring _ _ \<Rightarrow> False)"

definition finish :: "int \<Rightarrow> exec_result \<Rightarrow> 'v job \<Rightarrow> 'v job" where
  "finish now_ts r job =
     (if er_restore r
      then let job = job\<lparr>last_restore := Some now_ts\<rparr>
           in if is_once (job_schedule job) then job\<lparr>enabled := False\<rparr> else job
      else let job = job\<lparr>last_run := Some now_ts, last_status := Some (er_status r), last_error := er_error r\<rparr>
           in if is_once (job_schedule job) \<and> job_restore job = None then job\<lparr>enabled := False\<rparr> else job)"

definition apply_results :: "int \<Rightarrow> exec_result list \<Rightarrow> 'v scheduler_data \<Rightarrow> 'v scheduler_data" where
  "apply_results now_ts rs jobs =
     fold (\<lambda>r jobs. update_first (\<lambda>j. job_id j = er_job r) (finish now_ts r) jobs) rs jobs"

text \<open>
  The whole tick on jobs no handler edits meanwhile (\<open>tick_with\<close> lets \<open>edit\<close> happen while the actions
  run, when no lock is held).
\<close>

definition tick_with :: "('v \<Rightarrow> bytes) \<Rightarrow> (http_method \<Rightarrow> string \<Rightarrow> bytes \<Rightarrow> 's \<Rightarrow> (nat \<times> string option) \<times> 's) \<Rightarrow>
    ('v scheduler_data \<Rightarrow> 'v scheduler_data) \<Rightarrow> int \<Rightarrow> nat \<Rightarrow> nat \<Rightarrow> nat \<Rightarrow> 'v scheduler_data \<Rightarrow> 's \<Rightarrow> 'v scheduler_data \<times> 's" where
  "tick_with to_vec route edit now_ts hour minute dow jobs s =
     (let now_hm = format_hm hour minute;
          pending = collect to_vec now_ts now_hm dow jobs
      in if pending = [] then (jobs, s)
         else let (rs, s) = execute route pending s in (apply_results now_ts rs (edit jobs), s))"

definition tick where
  "tick to_vec route = tick_with to_vec route (\<lambda>jobs. jobs)"

section \<open>Handlers\<close>

record 'v job_request =
  rq_id :: nat
  rq_name :: string
  rq_enabled :: bool
  rq_schedule :: schedule
  rq_action :: "'v action"
  rq_restore :: "'v restore option"

definition jobs_create :: "int \<Rightarrow> 'v job_request option \<Rightarrow> 'v scheduler_data \<Rightarrow> nat \<times> 'v scheduler_data" where
  "jobs_create now_ts req jobs =
     (case req of
        None \<Rightarrow> (400, jobs)
      | Some req \<Rightarrow>
          (case validate_job (rq_action req) (rq_schedule req) (rq_restore req) of
             Inl _ \<Rightarrow> (400, jobs)
           | Inr _ \<Rightarrow>
               let next_id = (fold (\<lambda>j m. max (job_id j) m) jobs 0 + 1) mod 2 ^ 32
               in (201, jobs @ [\<lparr>job_id = next_id, job_name = rq_name req, enabled = True,
                    job_schedule = rq_schedule req, job_action = rq_action req, job_restore = rq_restore req,
                    last_run = None, last_status = None, last_error = None, last_restore = None,
                    created_at = now_ts\<rparr>])))"

definition jobs_update :: "'v job_request option \<Rightarrow> 'v scheduler_data \<Rightarrow> nat \<times> 'v scheduler_data" where
  "jobs_update req jobs =
     (case req of
        None \<Rightarrow> (400, jobs)
      | Some req \<Rightarrow>
          (case validate_job (rq_action req) (rq_schedule req) (rq_restore req) of
             Inl _ \<Rightarrow> (400, jobs)
           | Inr _ \<Rightarrow>
               if find (\<lambda>j. job_id j = rq_id req) jobs = None then (404, jobs)
               else (200, update_first (\<lambda>j. job_id j = rq_id req)
                 (\<lambda>j. j\<lparr>job_name := rq_name req, enabled := rq_enabled req, job_schedule := rq_schedule req,
                    job_action := rq_action req, job_restore := rq_restore req\<rparr>) jobs)))"

text \<open>\<open>jobs_delete\<close> and \<open>jobs_toggle\<close> read the id as a \<open>u64\<close> and cut it to 32 bits.\<close>

definition jobs_delete :: "nat option option \<Rightarrow> 'v scheduler_data \<Rightarrow> nat \<times> 'v scheduler_data" where
  "jobs_delete parsed jobs =
     (case parsed of
        None \<Rightarrow> (400, jobs)
      | Some None \<Rightarrow> (400, jobs)
      | Some (Some u) \<Rightarrow>
          let i = u mod 2 ^ 32; left = filter (\<lambda>j. job_id j \<noteq> i) jobs
          in if length left = length jobs then (404, left) else (200, left))"

definition jobs_toggle :: "(nat option \<times> bool option) option \<Rightarrow> 'v scheduler_data \<Rightarrow> nat \<times> 'v scheduler_data" where
  "jobs_toggle parsed jobs =
     (case parsed of
        None \<Rightarrow> (400, jobs)
      | Some (None, _) \<Rightarrow> (400, jobs)
      | Some (Some u, None) \<Rightarrow> (400, jobs)
      | Some (Some u, Some on) \<Rightarrow>
          let i = u mod 2 ^ 32
          in if find (\<lambda>j. job_id j = i) jobs = None then (404, jobs)
             else (200, update_first (\<lambda>j. job_id j = i) (\<lambda>j. j\<lparr>enabled := on\<rparr>) jobs))"

section \<open>Where the ticks land\<close>

text \<open>
  The tick thread's sleep always ends one second into the next minute, whatever the time (negative
  times included), so ticks visit every minute once and never drift.
\<close>

theorem next_tick_lands:
  "(now_ts + next_tick_delay now_ts) mod 60 = 1 \<and>
   (now_ts + next_tick_delay now_ts) div 60 = now_ts div 60 + 1 \<and>
   1 \<le> next_tick_delay now_ts \<and> next_tick_delay now_ts \<le> 61"
proof -
  have b: "0 \<le> now_ts mod 60" "now_ts mod 60 < 60" by simp_all
  then have d: "next_tick_delay now_ts = 61 - now_ts mod 60"
    by (simp add: next_tick_delay_def)
  have sum: "now_ts + next_tick_delay now_ts = 1 + (now_ts div 60 + 1) * 60"
    unfolding d by presburger
  have "(now_ts + next_tick_delay now_ts) mod 60 = 1" unfolding sum by (subst mod_mult_self1) simp
  moreover have "(now_ts + next_tick_delay now_ts) div 60 = now_ts div 60 + 1"
    unfolding sum by (subst div_mult_self1) simp_all
  ultimately show ?thesis using b d by simp
qed

section \<open>What a tick does to one job\<close>

lemma finish_keeps [simp]:
  "job_id (finish now_ts r j) = job_id j"
  "job_schedule (finish now_ts r j) = job_schedule j"
  "job_action (finish now_ts r j) = job_action j"
  "job_restore (finish now_ts r j) = job_restore j"
  by (simp_all add: finish_def Let_def)

lemma update_first_distinct:
  "distinct (map f xs) \<Longrightarrow> update_first (\<lambda>x. f x = a) g xs = map (\<lambda>x. if f x = a then g x else x) xs"
proof (induction xs)
  case (Cons x xs)
  then show ?case by (auto simp: image_iff intro!: map_idI [symmetric])
qed simp

definition settle :: "int \<Rightarrow> exec_result list \<Rightarrow> 'v job \<Rightarrow> 'v job" where
  "settle now_ts rs j = fold (finish now_ts) (filter (\<lambda>r. er_job r = job_id j) rs) j"

lemma settle_simps [simp]:
  "settle now_ts [] j = j"
  "settle now_ts (r # rs) j =
     (if er_job r = job_id j then settle now_ts rs (finish now_ts r j) else settle now_ts rs j)"
  by (simp_all add: settle_def)

lemma settle_keeps [simp]:
  "job_id (settle now_ts rs j) = job_id j"
  "job_schedule (settle now_ts rs j) = job_schedule j"
  "job_action (settle now_ts rs j) = job_action j"
  "job_restore (settle now_ts rs j) = job_restore j"
  by (induction rs arbitrary: j) auto

lemma apply_results_eq:
  "distinct (map job_id jobs) \<Longrightarrow> apply_results now_ts rs jobs = map (settle now_ts rs) jobs"
proof (induction rs arbitrary: jobs)
  case Nil
  then show ?case by (simp add: apply_results_def cong: map_cong)
next
  case (Cons r rs)
  let ?jobs = "map (\<lambda>j. if job_id j = er_job r then finish now_ts r j else j) jobs"
  have ids: "map job_id ?jobs = map job_id jobs" by (induction jobs) auto
  have "distinct (map job_id ?jobs)" unfolding ids by (rule Cons.prems)
  then have "apply_results now_ts rs ?jobs = map (settle now_ts rs) ?jobs" by (rule Cons.IH)
  moreover have "apply_results now_ts (r # rs) jobs = apply_results now_ts rs ?jobs"
    using Cons.prems by (simp add: apply_results_def update_first_distinct)
  ultimately show ?case by auto
qed

definition callable :: "pending_action \<Rightarrow> bool" where
  "callable pa \<longleftrightarrow> parse_method (pa_method pa) \<noteq> None"

lemma execute_results:
  "map (\<lambda>r. (er_job r, er_restore r)) (fst (execute route pas s)) =
     map (\<lambda>pa. (pa_job pa, pa_restore pa)) (filter callable pas)"
proof (induction pas arbitrary: s)
  case (Cons pa pas)
  show ?case
  proof (cases "parse_method (pa_method pa)")
    case None
    with Cons show ?thesis by (simp add: callable_def)
  next
    case (Some meth)
    obtain st e s' where "route meth (pa_path pa) (pa_body pa) s = ((st, e), s')"
      by (metis surj_pair)
    with Some Cons [of s'] show ?thesis by (simp add: callable_def Let_def case_prod_unfold)
  qed
qed simp

lemma pending_of_simps [simp]:
  "pa_job (pending_of to_vec j b is_res) = job_id j"
  "pa_restore (pending_of to_vec j b is_res) = is_res"
  "pa_method (pending_of to_vec j b is_res) = act_method (job_action j)"
  by (simp_all add: pending_of_def)

lemma collect_job_kinds:
  "map (\<lambda>pa. (pa_job pa, pa_restore pa)) (collect_job to_vec now_ts hm dow j) =
     (if enabled j \<and> action_due now_ts hm dow j then [(job_id j, False)] else []) @
     (if enabled j \<and> restore_due now_ts hm j then [(job_id j, True)] else [])"
  by (auto simp: collect_job_def restore_due_def split: option.split)

lemma collect_of_job:
  assumes "distinct (map job_id jobs)" and "j \<in> set jobs"
  shows "filter (\<lambda>pa. pa_job pa = job_id j) (collect to_vec now_ts hm dow jobs) = collect_job to_vec now_ts hm dow j"
  using assms
proof (induction jobs)
  case (Cons k jobs)
  have own: "pa_job pa = job_id i" if "pa \<in> set (collect_job to_vec now_ts hm dow i)" for pa i
    using that by (auto simp: collect_job_def split: if_splits option.splits)
  have same: "filter (\<lambda>pa. pa_job pa = a) (collect_job to_vec now_ts hm dow i) =
      (if a = job_id i then collect_job to_vec now_ts hm dow i else [])" for a i
    using own [of _ i] by (auto simp: filter_empty_conv intro!: filter_True)
  show ?case
  proof (cases "j = k")
    case True
    have "filter (\<lambda>pa. pa_job pa = job_id k) (collect to_vec now_ts hm dow jobs) = []"
      using Cons.prems(1) by (auto simp: collect_def filter_empty_conv dest!: own)
    with True show ?thesis by (simp add: collect_def same)
  next
    case False
    with Cons.prems have j: "j \<in> set jobs" by simp
    moreover have "job_id k \<notin> job_id ` set jobs" using Cons.prems(1) by simp
    ultimately have "job_id j \<noteq> job_id k" by (metis imageI)
    with Cons j show ?thesis by (simp add: collect_def same)
  qed
qed simp

text \<open>The results of one job's actions, in the order they ran.\<close>

lemma results_of_job:
  assumes "distinct (map job_id jobs)" and "j \<in> set jobs" and "parse_method (act_method (job_action j)) \<noteq> None"
  shows "map er_restore (filter (\<lambda>r. er_job r = job_id j) (fst (execute route (collect to_vec now_ts hm dow jobs) s))) =
     (if enabled j \<and> action_due now_ts hm dow j then [False] else []) @
     (if enabled j \<and> restore_due now_ts hm j then [True] else [])"
proof -
  let ?rs = "fst (execute route (collect to_vec now_ts hm dow jobs) s)"
  let ?c = "collect to_vec now_ts hm dow jobs"
  have sel: "map er_restore (filter (\<lambda>r. er_job r = a) rs) = map snd (filter (\<lambda>x. fst x = a) (map (\<lambda>r. (er_job r, er_restore r)) rs))"
    for a and rs :: "exec_result list"
    by (induction rs) auto
  have gen: "map snd (filter (\<lambda>x. fst x = job_id j) (map (\<lambda>pa. (pa_job pa, pa_restore pa)) (filter callable c))) =
      map pa_restore (filter callable (filter (\<lambda>pa. pa_job pa = job_id j) c))" for c
    by (induction c) auto
  have "map snd (filter (\<lambda>x. fst x = job_id j) (map (\<lambda>pa. (pa_job pa, pa_restore pa)) (filter callable ?c))) =
      map pa_restore (filter callable (filter (\<lambda>pa. pa_job pa = job_id j) ?c))"
    by (rule gen)
  also have "\<dots> = map pa_restore (filter callable (collect_job to_vec now_ts hm dow j))"
    by (simp only: collect_of_job [OF assms(1,2)])
  also have "filter callable (collect_job to_vec now_ts hm dow j) = collect_job to_vec now_ts hm dow j"
    using assms(3) by (auto simp: collect_job_def callable_def split: option.split)
  also have "map pa_restore (collect_job to_vec now_ts hm dow j) =
      map snd (map (\<lambda>pa. (pa_job pa, pa_restore pa)) (collect_job to_vec now_ts hm dow j))"
    by simp
  finally show ?thesis
    unfolding sel execute_results collect_job_kinds by (simp only: map_append if_distrib [of "map snd"] list.map snd_conv)
qed

definition after_tick :: "int \<Rightarrow> string \<Rightarrow> nat \<Rightarrow> 'v job \<Rightarrow> 'v job \<Rightarrow> bool" where
  "after_tick now_ts hm dow j j' \<longleftrightarrow>
     job_id j' = job_id j \<and> job_schedule j' = job_schedule j \<and> job_action j' = job_action j \<and>
     job_restore j' = job_restore j \<and>
     last_run j' = (if enabled j \<and> action_due now_ts hm dow j then Some now_ts else last_run j) \<and>
     last_restore j' = (if enabled j \<and> restore_due now_ts hm j then Some now_ts else last_restore j) \<and>
     (enabled j' \<longleftrightarrow> enabled j \<and> \<not> (is_once (job_schedule j) \<and>
        (restore_due now_ts hm j \<or> action_due now_ts hm dow j \<and> job_restore j = None)))"

lemma settle_after:
  assumes "map er_restore (filter (\<lambda>r. er_job r = job_id j) rs) =
     (if enabled j \<and> action_due now_ts hm dow j then [False] else []) @
     (if enabled j \<and> restore_due now_ts hm j then [True] else [])"
  shows "after_tick now_ts hm dow j (settle now_ts rs j)"
proof -
  have res: "restore_due now_ts hm j \<Longrightarrow> job_restore j \<noteq> None"
    by (auto simp: restore_due_def split: option.splits)
  show ?thesis
    using assms res
    by (cases "enabled j \<and> action_due now_ts hm dow j"; cases "enabled j \<and> restore_due now_ts hm j")
      (auto simp: settle_def after_tick_def finish_def Let_def map_eq_Cons_conv split: if_splits)
qed

lemma tick_job:
  assumes "distinct (map job_id jobs)" and "j \<in> set jobs" and "parse_method (act_method (job_action j)) \<noteq> None"
  shows "\<exists>j' \<in> set (fst (tick to_vec route now_ts hour minute dow jobs s)).
     after_tick now_ts (format_hm hour minute) dow j j'"
proof -
  let ?hm = "format_hm hour minute"
  let ?rs = "fst (execute route (collect to_vec now_ts ?hm dow jobs) s)"
  have settled: "after_tick now_ts ?hm dow j (settle now_ts ?rs j)"
    by (rule settle_after [OF results_of_job [OF assms]])
  show ?thesis
  proof (cases "collect to_vec now_ts ?hm dow jobs = []")
    case True
    then have "?rs = []" by simp
    with settled have "after_tick now_ts ?hm dow j j" by simp
    with True assms(2) show ?thesis by (auto simp: tick_def tick_with_def Let_def)
  next
    case False
    then have "fst (tick to_vec route now_ts hour minute dow jobs s) = map (settle now_ts ?rs) jobs"
      using assms(1) by (simp add: tick_def tick_with_def Let_def case_prod_unfold apply_results_eq)
    with settled assms(2) show ?thesis by auto
  qed
qed

text \<open>
  One tick does to each job exactly what its schedule says: a job that is on and due has its action
  called once and is marked as run now; its restore is called once, after it, when the restore's time
  comes and the action has run since the last restore; a one-time job turns itself off when it is
  done; nothing else about a job changes.
\<close>

theorem tick_runs_what_is_due:
  assumes "distinct (map job_id jobs)" and "j \<in> set jobs" and "parse_method (act_method (job_action j)) \<noteq> None"
  shows "map pa_restore (filter (\<lambda>pa. pa_job pa = job_id j) (collect to_vec now_ts (format_hm hour minute) dow jobs)) =
      (if enabled j \<and> action_due now_ts (format_hm hour minute) dow j then [False] else []) @
      (if enabled j \<and> restore_due now_ts (format_hm hour minute) j then [True] else []) \<and>
    (\<exists>j'. j' \<in> set (fst (tick to_vec route now_ts hour minute dow jobs s)) \<and>
      after_tick now_ts (format_hm hour minute) dow j j')"
proof
  have "map pa_restore (collect_job to_vec now_ts hm dow j) =
      map snd (map (\<lambda>pa. (pa_job pa, pa_restore pa)) (collect_job to_vec now_ts hm dow j))" for hm
    by simp
  then show "map pa_restore (filter (\<lambda>pa. pa_job pa = job_id j) (collect to_vec now_ts (format_hm hour minute) dow jobs)) =
      (if enabled j \<and> action_due now_ts (format_hm hour minute) dow j then [False] else []) @
      (if enabled j \<and> restore_due now_ts (format_hm hour minute) j then [True] else [])"
    unfolding collect_of_job [OF assms(1,2)] collect_job_kinds
    by (simp only: map_append if_distrib [of "map snd"] list.map snd_conv)
  show "\<exists>j'. j' \<in> set (fst (tick to_vec route now_ts hour minute dow jobs s)) \<and>
      after_tick now_ts (format_hm hour minute) dow j j'"
    using tick_job [OF assms, where to_vec = to_vec and route = route and now_ts = now_ts and hour = hour and
        minute = minute and dow = dow and s = s] by blast
qed

definition demo_job_at :: "schedule \<Rightarrow> unit job" where
  "demo_job_at sch = \<lparr>job_id = 1, job_name = ''j'', enabled = True, job_schedule = sch,
     job_action = \<lparr>act_method = ''PUT'', act_path = ''/api/wifi'', act_body = None\<rparr>, job_restore = None,
     last_run = None, last_status = None, last_error = None, last_restore = None, created_at = 0\<rparr>"

definition demo_route :: "http_method \<Rightarrow> string \<Rightarrow> bytes \<Rightarrow> nat \<Rightarrow> (nat \<times> string option) \<times> nat" where
  "demo_route meth path body n = ((200, None), n + 1)"

theorem tick_runs_what_is_due_witness:
  "\<exists>j'. j' \<in> set (fst (tick (\<lambda>_. []) demo_route 1700000041 22 30 4 [demo_job_at (Recurring ''22:30'' [4])] 0)) \<and>
     last_run j' = Some 1700000041"
proof -
  have "format_hm 22 30 = ''22:30''"
    by code_simp
  with tick_runs_what_is_due [of "[demo_job_at (Recurring ''22:30'' [4])]" "demo_job_at (Recurring ''22:30'' [4])"
      "\<lambda>_. []" 1700000041 22 30 4 demo_route 0]
  show ?thesis
    by (auto simp: demo_job_at_def after_tick_def action_due_def guard_passed_def parse_method_def)
qed

section \<open>Runs of ticks\<close>

record tick_time =
  tt_now :: int
  tt_hour :: nat
  tt_minute :: nat
  tt_dow :: nat

fun run_ticks :: "('v \<Rightarrow> bytes) \<Rightarrow> (http_method \<Rightarrow> string \<Rightarrow> bytes \<Rightarrow> 's \<Rightarrow> (nat \<times> string option) \<times> 's) \<Rightarrow>
    tick_time list \<Rightarrow> 'v scheduler_data \<Rightarrow> 's \<Rightarrow> (int \<times> pending_action) list" where
  "run_ticks to_vec route [] jobs s = []"
| "run_ticks to_vec route (t # ts) jobs s =
     (let called = collect to_vec (tt_now t) (format_hm (tt_hour t) (tt_minute t)) (tt_dow t) jobs;
          (jobs', s') = tick to_vec route (tt_now t) (tt_hour t) (tt_minute t) (tt_dow t) jobs s
      in map (\<lambda>pa. (tt_now t, pa)) called @ run_ticks to_vec route ts jobs' s')"

definition action_times :: "nat \<Rightarrow> (int \<times> pending_action) list \<Rightarrow> int list" where
  "action_times i calls = map fst (filter (\<lambda>(t, pa). pa_job pa = i \<and> \<not> pa_restore pa) calls)"

lemma action_times_append: "action_times i (xs @ ys) = action_times i xs @ action_times i ys"
  by (simp add: action_times_def)

lemma action_times_tick:
  assumes "distinct (map job_id jobs)" and "j \<in> set jobs"
  shows "action_times (job_id j) (map (\<lambda>pa. (now, pa)) (collect to_vec now hm dow jobs)) =
     (if enabled j \<and> action_due now hm dow j then [now] else [])"
proof -
  have "action_times (job_id j) (map (\<lambda>pa. (now, pa)) c) =
      map (\<lambda>_. now) (filter (\<lambda>b. \<not> b) (map pa_restore (filter (\<lambda>pa. pa_job pa = job_id j) c)))" for c
    by (induction c) (auto simp: action_times_def)
  then have "action_times (job_id j) (map (\<lambda>pa. (now, pa)) (collect to_vec now hm dow jobs)) =
      map (\<lambda>_. now) (filter (\<lambda>b. \<not> b) (map snd (map (\<lambda>pa. (pa_job pa, pa_restore pa)) (collect_job to_vec now hm dow j))))"
    by (simp add: collect_of_job [OF assms] comp_def)
  then show ?thesis unfolding collect_job_kinds by auto
qed

lemma distinct_ids_tick:
  "distinct (map job_id jobs) \<Longrightarrow> distinct (map job_id (fst (tick to_vec route now h m dow jobs s)))"
  by (auto simp: tick_def tick_with_def Let_def case_prod_unfold apply_results_eq comp_def)

definition after_last :: "'v job \<Rightarrow> int \<Rightarrow> bool" where
  "after_last j t \<longleftrightarrow>
     (case last_run j of None \<Rightarrow> True | Some lr \<Rightarrow> \<not> is_once (job_schedule j) \<and> 60 < t - lr)"

lemma run_ticks_spaced:
  assumes "distinct (map job_id jobs)" and "j \<in> set jobs" and "parse_method (act_method (job_action j)) \<noteq> None"
    and "sorted (map tt_now ts)"
  shows "sorted_wrt (\<lambda>a b. \<not> is_once (job_schedule j) \<and> 60 < b - a) (action_times (job_id j) (run_ticks to_vec route ts jobs s)) \<and>
    list_all (after_last j) (action_times (job_id j) (run_ticks to_vec route ts jobs s))"
  using assms
proof (induction ts arbitrary: jobs s j)
  case (Cons t ts)
  let ?hm = "format_hm (tt_hour t) (tt_minute t)" and ?now = "tt_now t"
  let ?tick = "tick to_vec route ?now (tt_hour t) (tt_minute t) (tt_dow t) jobs s"
  obtain j' where j': "j' \<in> set (fst ?tick)" "after_tick ?now ?hm (tt_dow t) j j'"
    using tick_job [OF Cons.prems(1-3), where to_vec = to_vec and route = route and now_ts = "?now" and
        hour = "tt_hour t" and minute = "tt_minute t" and dow = "tt_dow t" and s = s] by blast
  then have same: "job_id j' = job_id j" "job_schedule j' = job_schedule j" "job_action j' = job_action j"
    by (simp_all add: after_tick_def)
  let ?rest = "action_times (job_id j) (run_ticks to_vec route ts (fst ?tick) (snd ?tick))"
  have IH: "sorted_wrt (\<lambda>a b. \<not> is_once (job_schedule j) \<and> 60 < b - a) ?rest \<and> list_all (after_last j') ?rest"
    using Cons.IH [OF distinct_ids_tick [OF Cons.prems(1)] j'(1)] Cons.prems(3,4) by (simp add: same)
  have times: "action_times (job_id j) (run_ticks to_vec route (t # ts) jobs s) =
      (if enabled j \<and> action_due ?now ?hm (tt_dow t) j then [?now] else []) @ ?rest"
    by (simp add: Let_def case_prod_unfold action_times_append action_times_tick [OF Cons.prems(1,2)])
  show ?case
  proof (cases "enabled j \<and> action_due ?now ?hm (tt_dow t) j")
    case False
    then have "last_run j' = last_run j" using j'(2) unfolding after_tick_def by presburger
    then have "after_last j' = after_last j" by (intro ext) (simp add: after_last_def same split: option.split)
    with IH show ?thesis unfolding times if_not_P [OF False] by simp
  next
    case True
    then have "last_run j' = Some ?now" using j'(2) unfolding after_tick_def by presburger
    then have next': "after_last j' = (\<lambda>u. \<not> is_once (job_schedule j) \<and> 60 < u - ?now)"
      by (intro ext) (simp add: after_last_def same)
    have here: "after_last j ?now"
      using True by (auto simp: after_last_def action_due_def guard_passed_def is_once_def split: schedule.splits option.splits)
    have "after_last j u" if "after_last j' u" for u
      using that here unfolding next' by (auto simp: after_last_def split: option.splits)
    with IH True here show ?thesis
      unfolding times next' by (auto simp: list_all_iff)
  qed
qed (simp add: action_times_def)

text \<open>
  C27: over any sequence of ticks, whatever the clock says between them as long as it does not go back,
  a recurring job's action is never called twice within a minute, and a one-time job's action is called
  at most once ever.
\<close>

theorem actions_never_repeat:
  assumes "distinct (map job_id jobs)" and "j \<in> set jobs" and "parse_method (act_method (job_action j)) \<noteq> None"
    and "sorted (map tt_now ts)"
  shows "sorted_wrt (\<lambda>a b. 60 < b - a) (action_times (job_id j) (run_ticks to_vec route ts jobs s)) \<and>
    (is_once (job_schedule j) \<longrightarrow> length (action_times (job_id j) (run_ticks to_vec route ts jobs s)) \<le> 1)"
proof -
  let ?ts = "action_times (job_id j) (run_ticks to_vec route ts jobs s)"
  have s: "sorted_wrt (\<lambda>a b. \<not> is_once (job_schedule j) \<and> 60 < b - a) ?ts"
    using run_ticks_spaced [OF assms, where to_vec = to_vec and route = route and s = s] by blast
  then have "sorted_wrt (\<lambda>a b. 60 < b - a) ?ts"
    by (rule sorted_wrt_mono_rel [rotated]) simp
  moreover have "length ?ts \<le> 1" if "is_once (job_schedule j)"
    using s that by (cases ?ts; cases "tl ?ts") auto
  ultimately show ?thesis by blast
qed

theorem actions_never_repeat_witness:
  "length (action_times 1 (run_ticks (\<lambda>_. []) demo_route
     [\<lparr>tt_now = 1700000101, tt_hour = 22, tt_minute = 15, tt_dow = 1\<rparr>,
      \<lparr>tt_now = 1700000161, tt_hour = 22, tt_minute = 16, tt_dow = 1\<rparr>]
     [demo_job_at (Once 1700000100)] 0)) \<le> 1"
  using actions_never_repeat [of "[demo_job_at (Once 1700000100)]" "demo_job_at (Once 1700000100)"
     "[\<lparr>tt_now = 1700000101, tt_hour = 22, tt_minute = 15, tt_dow = 1\<rparr>,
       \<lparr>tt_now = 1700000161, tt_hour = 22, tt_minute = 16, tt_dow = 1\<rparr>]" "\<lambda>_. []" demo_route 0]
  by (simp add: demo_job_at_def parse_method_def is_once_def)

section \<open>Validation\<close>

definition time_of :: "string \<Rightarrow> (nat \<times> nat) option" where
  "time_of s =
     (case split_char CHR '':'' s of
        [hour, minute] \<Rightarrow>
          (case (parse_uint 8 hour, parse_uint 8 minute) of
             (Some h, Some m) \<Rightarrow> if h < 24 \<and> m < 60 then Some (h, m) else None
           | _ \<Rightarrow> None)
      | _ \<Rightarrow> None)"

lemma validate_time_iff: "validate_time s = Inr u \<longleftrightarrow> time_of s \<noteq> None"
  by (auto simp: validate_time_def time_of_def split: list.splits option.splits)

lemma two_digits_chars: "n < 100 \<Longrightarrow> list_all is_ascii_digit (two_digits n) \<and> two_digits n \<noteq> []"
  by (simp add: two_digits_def digits_show_nat is_ascii_digit_def)

lemma colon_not_digit: "list_all is_ascii_digit s \<Longrightarrow> CHR '':'' \<notin> set s"
  by (auto dest: list_allD simp: is_ascii_digit_def less_eq_char_def)

lemma parse_two_digits: "n < 100 \<Longrightarrow> parse_uint 8 (two_digits n) = Some n"
proof -
  assume n: "n < 100"
  show ?thesis
  proof (cases "n < 10")
    case True
    have "parse_digits (CHR ''0'' # show_nat n) = n"
      using parse_show_nat [of n] by (simp add: parse_digits_def digit_value_def)
    with True digits_show_nat [of n] show ?thesis
      by (simp add: two_digits_def parse_uint_def is_ascii_digit_def)
  next
    case False
    with n parse_uint_show_nat [of n 8] show ?thesis by (simp add: two_digits_def)
  qed
qed

lemma time_of_format: "h < 24 \<Longrightarrow> m < 60 \<Longrightarrow> time_of (format_hm h m) = Some (h, m)"
  using two_digits_chars [of h] two_digits_chars [of m]
  by (simp add: time_of_def format_hm_def split_char_append split_char_no colon_not_digit parse_two_digits)

lemma length_format_hm: "h < 24 \<Longrightarrow> m < 60 \<Longrightarrow> length (format_hm h m) = 5"
proof -
  have "length (two_digits n) = 2" if "n < 100" for n
    using that by (cases "n < 10") (simp_all add: two_digits_def show_nat_small show_nat_step)
  then show "h < 24 \<Longrightarrow> m < 60 \<Longrightarrow> length (format_hm h m) = 5" by (simp add: format_hm_def)
qed

text \<open>
  Every time the clock can show is a valid time for a job, and a job whose time is written as the
  clock shows it is due at that minute; but validation also accepts times the clock never shows
  (such as \<open>7:30\<close>), and a job with such a time is accepted and never runs.
\<close>

theorem accepted_times:
  assumes "h < 24" and "m < 60"
  shows "validate_time (format_hm h m) = Inr () \<and>
    (length time \<noteq> 5 \<longrightarrow> \<not> action_due now_ts (format_hm h m) dow (job\<lparr>job_schedule := Recurring time days\<rparr>)) \<and>
    validate_time ''7:30'' = Inr ()"
proof (intro conjI impI)
  show "validate_time (format_hm h m) = Inr ()"
    using assms by (simp add: validate_time_iff time_of_format)
  show "\<not> action_due now_ts (format_hm h m) dow (job\<lparr>job_schedule := Recurring time days\<rparr>)" if "length time \<noteq> 5"
    using that length_format_hm [OF assms] by (auto simp: action_due_def)
  show "validate_time ''7:30'' = Inr ()"
    by (simp add: validate_time_def parse_uint_def is_ascii_digit_def parse_digits_def digit_value_def)
qed

theorem accepted_times_witness:
  "\<not> action_due 1700000041 (format_hm 7 30) 3 (demo_job_at (Recurring ''7:30'' [0, 1, 2, 3, 4, 5, 6]))"
proof -
  have "demo_job_at (Recurring ''7:30'' d) = (demo_job_at (Once 0))\<lparr>job_schedule := Recurring ''7:30'' d\<rparr>" for d
    by (simp add: demo_job_at_def)
  then show ?thesis
    using accepted_times [where h = 7 and m = 30 and time = "''7:30''" and now_ts = 1700000041 and dow = 3 and
        job = "demo_job_at (Once 0)" and days = "[0, 1, 2, 3, 4, 5, 6]"] by simp
qed

section \<open>The handlers\<close>

definition job_ok :: "'v job \<Rightarrow> bool" where
  "job_ok j \<longleftrightarrow> validate_job (job_action j) (job_schedule j) (job_restore j) = Inr ()"

lemma job_ok_enabled [simp]: "job_ok (j\<lparr>enabled := on\<rparr>) = job_ok j"
  by (simp add: job_ok_def)

definition jobs_inv :: "'v scheduler_data \<Rightarrow> bool" where
  "jobs_inv jobs \<longleftrightarrow> distinct (map job_id jobs) \<and> list_all job_ok jobs"

lemma fold_max_ge: "j \<in> set jobs \<Longrightarrow> job_id j \<le> fold (\<lambda>j m. max (job_id j) m) jobs b"
proof (induction jobs arbitrary: b)
  case (Cons k jobs)
  have "b \<le> fold (\<lambda>j m. max (job_id j) m) jobs b" for b
    by (induction jobs arbitrary: b) (auto intro: order_trans [OF max.cobounded2])
  from this [of "max (job_id k) b"] Cons show ?case by auto
qed simp

lemma job_ok_tick: "jobs_inv jobs \<Longrightarrow> jobs_inv (fst (tick to_vec route now h m dow jobs s))"
  using distinct_ids_tick [of jobs to_vec route now h m dow s]
  by (auto simp: jobs_inv_def tick_def tick_with_def Let_def case_prod_unfold apply_results_eq list_all_iff job_ok_def)

text \<open>
  The handlers and the ticks keep the job list well-formed: ids stay distinct and every job passes
  validation (so it calls an API path that may be scheduled, with a known method); a request that is
  refused changes nothing. Required: fewer ids in use than a \<open>u32\<close> has.
\<close>

theorem handlers_keep_jobs_valid:
  assumes "jobs_inv jobs" and "list_all (\<lambda>j. job_id j + 1 < 2 ^ 32) jobs"
  shows "jobs_inv (snd (jobs_create now_ts req jobs)) \<and> jobs_inv (snd (jobs_update req jobs)) \<and>
    jobs_inv (snd (jobs_delete del jobs)) \<and> jobs_inv (snd (jobs_toggle tog jobs)) \<and>
    jobs_inv (fst (tick to_vec route now_ts h m dow jobs s)) \<and>
    (400 \<le> fst (jobs_create now_ts req jobs) \<longrightarrow> snd (jobs_create now_ts req jobs) = jobs) \<and>
    (400 \<le> fst (jobs_update req jobs) \<longrightarrow> snd (jobs_update req jobs) = jobs) \<and>
    (400 \<le> fst (jobs_delete del jobs) \<longrightarrow> snd (jobs_delete del jobs) = jobs) \<and>
    (400 \<le> fst (jobs_toggle tog jobs) \<longrightarrow> snd (jobs_toggle tog jobs) = jobs)"
proof (intro conjI impI)
  let ?max = "fold (\<lambda>j m. max (job_id j) m) jobs 0"
  have "?max + 1 < 2 ^ 32"
  proof -
    have "fold (\<lambda>j m. max (job_id j) m) js b + 1 < 2 ^ 32" if "list_all (\<lambda>j. job_id j + 1 < 2 ^ 32) js" "b + 1 < 2 ^ 32"
      for js :: "'a job list" and b
      using that by (induction js arbitrary: b) auto
    with assms(2) show ?thesis by simp
  qed
  then have "(?max + 1) mod 2 ^ 32 = ?max + 1" by (rule mod_less)
  moreover have "?max + 1 \<notin> job_id ` set jobs"
    using fold_max_ge [of _ jobs 0] by fastforce
  ultimately have fresh: "(?max + 1) mod 2 ^ 32 \<notin> job_id ` set jobs" by simp
  show "jobs_inv (snd (jobs_create now_ts req jobs))"
    using assms(1) fresh
    by (auto simp: jobs_create_def jobs_inv_def job_ok_def Let_def simp del: One_nat_def split: option.split sum.split)
  have upd: "map job_id (update_first p f js) = map job_id js" if "\<And>j. job_id (f j) = job_id j" for p f and js :: "'a job list"
    using that by (induction js) auto
  have keep: "list_all job_ok (update_first p f js)" if "list_all job_ok js" "\<And>j. job_ok j \<Longrightarrow> job_ok (f j)"
    for p f and js :: "'a job list"
    using that by (rule list_all_update_first)
  show "jobs_inv (snd (jobs_update req jobs))"
    using assms(1)
    by (auto simp: jobs_update_def jobs_inv_def upd job_ok_def [of "_\<lparr>job_name := _, enabled := _, job_schedule := _,
        job_action := _, job_restore := _\<rparr>"] intro!: keep split: option.split sum.split)
  show "jobs_inv (snd (jobs_delete del jobs))"
    using assms(1) by (auto simp: jobs_delete_def jobs_inv_def Let_def list_all_iff distinct_map_filter split: option.split)
  show "jobs_inv (snd (jobs_toggle tog jobs))"
    using assms(1)
    by (auto simp: jobs_toggle_def jobs_inv_def Let_def upd intro!: keep split: option.split)
  show "jobs_inv (fst (tick to_vec route now_ts h m dow jobs s))"
    using assms(1) by (rule job_ok_tick)
  show "snd (jobs_create now_ts req jobs) = jobs" if "400 \<le> fst (jobs_create now_ts req jobs)"
    using that by (auto simp: jobs_create_def Let_def split: option.splits sum.splits)
  show "snd (jobs_update req jobs) = jobs" if "400 \<le> fst (jobs_update req jobs)"
    using that by (auto simp: jobs_update_def split: option.splits sum.splits if_splits)
  show "snd (jobs_delete del jobs) = jobs" if "400 \<le> fst (jobs_delete del jobs)"
  proof -
    have "filter p js = js" if "length (filter p js) = length js" for p and js :: "'a job list"
      using that by (metis filter_True length_filter_less less_irrefl)
    with that show ?thesis by (auto simp: jobs_delete_def Let_def split: option.splits if_splits)
  qed
  show "snd (jobs_toggle tog jobs) = jobs" if "400 \<le> fst (jobs_toggle tog jobs)"
    using that by (auto simp: jobs_toggle_def Let_def split: option.splits if_splits prod.splits)
qed

theorem handlers_keep_jobs_valid_witness:
  "jobs_inv (snd (jobs_delete (Some (Some 1)) [demo_job_at (Once 1700000000)])) \<and>
   jobs_inv (snd (jobs_toggle (Some (Some 1, Some False)) [demo_job_at (Once 1700000000)]))"
proof -
  have "jobs_inv [demo_job_at (Once 1700000000)]" "list_all (\<lambda>j. job_id j + 1 < 2 ^ 32) [demo_job_at (Once 1700000000)]"
    by (simp_all add: jobs_inv_def job_ok_def demo_job_at_def validate_job_def starts_with_def parse_method_def)
  from handlers_keep_jobs_valid [OF this, where del = "Some (Some 1)" and tog = "Some (Some 1, Some False)" and now_ts = 0 and
      req = None and to_vec = "\<lambda>_. []" and route = demo_route and h = 0 and m = 0 and dow = 0 and s = 0]
  show ?thesis by blast
qed

text \<open>
  A deletion names its job by the low 32 bits of the number it is given: one beyond 32 bits deletes
  the job whose id those bits spell, where no job has the number given.
\<close>

theorem delete_cuts_ids:
  "jobs_delete (Some (Some (u + 2 ^ 32))) jobs = jobs_delete (Some (Some u)) jobs"
  by (simp add: jobs_delete_def)

text \<open>
  A one-time job that has run and is edited to a later time, and turned on again, never runs at
  that time: its last run is kept by the edit, and a one-time job is due only if it has none.
\<close>

theorem rescheduled_once_never_runs:
  assumes "distinct (map job_id jobs)" and "j \<in> set jobs" and "last_run j \<noteq> None"
    and "job_id j = rq_id req" and "rq_schedule req = Once at"
    and "validate_job (rq_action req) (Once at) (rq_restore req) = Inr ()"
    and "sorted (map tt_now ts)"
  shows "action_times (rq_id req) (run_ticks to_vec route ts (snd (jobs_update (Some req) jobs)) s) = []"
proof -
  let ?edit = "\<lambda>j. j\<lparr>job_name := rq_name req, enabled := rq_enabled req, job_schedule := rq_schedule req,
      job_action := rq_action req, job_restore := rq_restore req\<rparr>"
  obtain k where "find (\<lambda>j. job_id j = rq_id req) jobs = Some k"
    using assms(2,4) by (cases "find (\<lambda>j. job_id j = rq_id req) jobs") (auto simp: find_None_iff)
  then have upd: "snd (jobs_update (Some req) jobs) = map (\<lambda>j. if job_id j = rq_id req then ?edit j else j) jobs"
    using assms(1,5,6) by (simp add: jobs_update_def update_first_distinct)
  have "map job_id (snd (jobs_update (Some req) jobs)) = map job_id jobs"
    unfolding upd by (induction jobs) auto
  then have dist: "distinct (map job_id (snd (jobs_update (Some req) jobs)))" using assms(1) by simp
  have mem: "?edit j \<in> set (snd (jobs_update (Some req) jobs))"
    unfolding upd using assms(2,4) by force
  have "parse_method (act_method (rq_action req)) \<noteq> None"
    using assms(6) by (auto simp: validate_job_def split: if_splits)
  then have "list_all (after_last (?edit j)) (action_times (job_id (?edit j))
      (run_ticks to_vec route ts (snd (jobs_update (Some req) jobs)) s))"
    using run_ticks_spaced [OF dist mem _ assms(7), where to_vec = to_vec and route = route and s = s] by simp
  moreover have "\<not> after_last (?edit j) t" for t
    using assms(3,5) by (auto simp: after_last_def is_once_def)
  ultimately show ?thesis using assms(4) by (auto simp: list_all_iff)
qed

theorem rescheduled_once_never_runs_witness:
  "action_times 1 (run_ticks (\<lambda>_. []) demo_route
     [\<lparr>tt_now = 1800000001, tt_hour = 8, tt_minute = 0, tt_dow = 4\<rparr>]
     (snd (jobs_update (Some \<lparr>rq_id = 1, rq_name = ''j'', rq_enabled = True, rq_schedule = Once 1800000000,
        rq_action = \<lparr>act_method = ''PUT'', act_path = ''/api/wifi'', act_body = None\<rparr>, rq_restore = None\<rparr>)
        [(demo_job_at (Once 1700000000))\<lparr>last_run := Some 1700000041, enabled := False\<rparr>])) 0) = []"
  using rescheduled_once_never_runs [of "[(demo_job_at (Once 1700000000))\<lparr>last_run := Some 1700000041, enabled := False\<rparr>]"
      "(demo_job_at (Once 1700000000))\<lparr>last_run := Some 1700000041, enabled := False\<rparr>"
      "\<lparr>rq_id = 1, rq_name = ''j'', rq_enabled = True, rq_schedule = Once 1800000000,
        rq_action = \<lparr>act_method = ''PUT'', act_path = ''/api/wifi'', act_body = None\<rparr>, rq_restore = None\<rparr>"
      1800000000 "[\<lparr>tt_now = 1800000001, tt_hour = 8, tt_minute = 0, tt_dow = 4\<rparr>]" "\<lambda>_. []" demo_route 0]
  by (simp add: demo_job_at_def validate_job_def starts_with_def parse_method_def)

end
