(* ===== verification/Uci_Config.thy ===== *)
theory Uci_Config
  imports Text_Ops
begin

text \<open>
  How the agent reads OpenWrt's configuration files (the parser of \<open>zte-agent/src/wifi_watchdog.rs\<close>, which
  the standby guard uses too): the words of a line, the sections of a file, and the value of an option. The
  lemmas show that a file reads as the words it was written with, in whatever of the quotings they stand.
\<close>

section \<open>Words\<close>

text \<open>A literal up to the closing quote (or the end), and what is left of the line.\<close>

fun single_quoted :: "string \<Rightarrow> string \<times> string" where
  "single_quoted [] = ([], [])"
| "single_quoted (c # s) =
     (if c = CHR 0x27 then ([], s) else (case single_quoted s of (w, rest) \<Rightarrow> (c # w, rest)))"

fun double_quoted :: "string \<Rightarrow> string \<times> string" where
  "double_quoted [] = ([], [])"
| "double_quoted (c # s) =
     (if c = CHR 0x22 then ([], s)
      else if c = CHR 0x5C
      then (case s of [] \<Rightarrow> ([], []) | d # s \<Rightarrow> (case double_quoted s of (w, rest) \<Rightarrow> (d # w, rest)))
      else (case double_quoted s of (w, rest) \<Rightarrow> (c # w, rest)))"

lemma single_quoted_shrinks: "length (snd (single_quoted s)) \<le> length s"
  by (induction s) (auto simp: case_prod_unfold)

lemma double_quoted_shrinks: "length (snd (double_quoted s)) \<le> length s"
proof (induction s rule: length_induct)
  case (1 s)
  show ?case
  proof (cases s)
    case (Cons c t)
    have t: "length (snd (double_quoted t)) \<le> length t" using 1 Cons by simp
    show ?thesis
    proof (cases t)
      case t2: (Cons d u)
      have "length (snd (double_quoted u)) \<le> length u" using 1 Cons t2 by simp
      with t Cons t2 show ?thesis by (simp add: case_prod_unfold)
    qed (simp add: Cons case_prod_unfold)
  qed simp
qed

function words_from :: "string \<Rightarrow> string \<Rightarrow> bool \<Rightarrow> string list" where
  "words_from [] word in_word = (if in_word then [word] else [])"
| "words_from (c # s) word in_word =
     (if c = CHR 0x27 then words_from (snd (single_quoted s)) (word @ fst (single_quoted s)) True
      else if c = CHR 0x22 then words_from (snd (double_quoted s)) (word @ fst (double_quoted s)) True
      else if c = CHR 0x5C then words_from (tl s) (word @ take 1 s) True
      else if c = CHR ''#'' \<and> \<not> in_word then []
      else if is_whitespace c
      then (if in_word then word # words_from s [] False else words_from s word in_word)
      else words_from s (word @ [c]) True)"
  by pat_completeness auto
termination
  by (relation "measure (\<lambda>(s, _, _). length s)")
    (auto simp: less_Suc_eq_le single_quoted_shrinks double_quoted_shrinks)

declare words_from.simps(2) [simp del]

definition uci_words :: "string \<Rightarrow> string list" where
  "uci_words line = words_from line [] False"

section \<open>Sections\<close>

record uci_section =
  s_kind :: string
  s_name :: "string option"
  s_options :: "(string \<times> string) list"

definition uci_get :: "uci_section \<Rightarrow> string \<Rightarrow> string option" where
  "uci_get s key = map_option snd (find (\<lambda>(k, _). k = key) (rev (s_options s)))"

text \<open>\<open>str::lines\<close>: split at line feeds, a last empty line dropped, and a carriage return before the feed.\<close>

fun text_lines :: "string \<Rightarrow> string list" where
  "text_lines s =
     (let parts = split_char (CHR 0x0A) s;
          full = map (\<lambda>l. if l \<noteq> [] \<and> last l = CHR 0x0D then butlast l else l) (butlast parts)
      in full @ (if last parts = [] then [] else [last parts]))"

declare text_lines.simps [simp del]

definition uci_line :: "uci_section list \<Rightarrow> string \<Rightarrow> uci_section list" where
  "uci_line sections line =
     (let ws = uci_words line in
      case ws of
        cmd # a # rest \<Rightarrow>
          if cmd = ''config''
          then sections @ [\<lparr>s_kind = a, s_name = (case rest of [] \<Rightarrow> None | n # _ \<Rightarrow> Some n), s_options = []\<rparr>]
          else if cmd = ''option'' \<and> rest \<noteq> [] \<and> sections \<noteq> []
          then butlast sections @ [(last sections)\<lparr>s_options := s_options (last sections) @ [(a, hd rest)]\<rparr>]
          else sections
      | _ \<Rightarrow> sections)"

definition parse_uci :: "string \<Rightarrow> uci_section list" where
  "parse_uci t = foldl uci_line [] (text_lines t)"

definition config_option :: "string \<Rightarrow> string \<Rightarrow> string \<Rightarrow> string option" where
  "config_option t sec key = Option.bind (find (\<lambda>s. s_name s = Some sec) (parse_uci t)) (\<lambda>s. uci_get s key)"

section \<open>Files as they are written\<close>

text \<open>
  A word is written in pieces, glued together: in single quotes, in double quotes with any of its characters
  escaped, an escaped character, or bare.
\<close>

datatype piece = Single string | Double "(bool \<times> char) list" | Escaped char | Bare string

fun piece_text :: "piece \<Rightarrow> string" where
  "piece_text (Single t) = CHR 0x27 # t @ [CHR 0x27]"
| "piece_text (Double cs) = CHR 0x22 # concat (map (\<lambda>(escaped, c). if escaped then [CHR 0x5C, c] else [c]) cs) @ [CHR 0x22]"
| "piece_text (Escaped c) = [CHR 0x5C, c]"
| "piece_text (Bare t) = t"

fun piece_means :: "piece \<Rightarrow> string" where
  "piece_means (Single t) = t"
| "piece_means (Double cs) = map snd cs"
| "piece_means (Escaped c) = [c]"
| "piece_means (Bare t) = t"

definition special :: "char \<Rightarrow> bool" where
  "special c \<longleftrightarrow> c = CHR 0x27 \<or> c = CHR 0x22 \<or> c = CHR 0x5C \<or> is_whitespace c"

fun piece_ok :: "piece \<Rightarrow> bool" where
  "piece_ok (Single t) \<longleftrightarrow> CHR 0x27 \<notin> set t"
| "piece_ok (Double cs) \<longleftrightarrow> list_all (\<lambda>(escaped, c). escaped \<or> c \<noteq> CHR 0x22 \<and> c \<noteq> CHR 0x5C) cs"
| "piece_ok (Escaped c) \<longleftrightarrow> True"
| "piece_ok (Bare t) \<longleftrightarrow> t \<noteq> [] \<and> list_all (\<lambda>c. \<not> special c) t"

definition word_text :: "piece list \<Rightarrow> string" where "word_text ps = concat (map piece_text ps)"
definition word_means :: "piece list \<Rightarrow> string" where "word_means ps = concat (map piece_means ps)"

definition word_ok :: "piece list \<Rightarrow> bool" where
  "word_ok ps \<longleftrightarrow> ps \<noteq> [] \<and> list_all piece_ok ps \<and> hd (word_text ps) \<noteq> CHR ''#''"

text \<open>
  A line: blanks, words with blanks after them (at least one between two words and before a comment), and
  perhaps a comment, which starts with a hash sign.
\<close>

record written_line =
  lead :: string
  words :: "(piece list \<times> string) list"
  comment :: "string option"

definition blanks :: "string \<Rightarrow> bool" where "blanks s \<longleftrightarrow> list_all is_whitespace s"

definition line_text :: "written_line \<Rightarrow> string" where
  "line_text l = lead l @ concat (map (\<lambda>(w, after). word_text w @ after) (words l)) @
     (case comment l of None \<Rightarrow> [] | Some t \<Rightarrow> CHR ''#'' # t)"

definition line_words :: "written_line \<Rightarrow> string list" where
  "line_words l = map (\<lambda>(w, after). word_means w) (words l)"

definition line_ok :: "written_line \<Rightarrow> bool" where
  "line_ok l \<longleftrightarrow> blanks (lead l) \<and> list_all (\<lambda>(w, after). word_ok w \<and> blanks after) (words l) \<and>
     list_all (\<lambda>(w, after). after \<noteq> []) (if comment l = None then butlast (words l) else words l) \<and>
     CHR 0x0A \<notin> set (line_text l) \<and> (line_text l = [] \<or> last (line_text l) \<noteq> CHR 0x0D)"

definition file_text :: "written_line list \<Rightarrow> string" where
  "file_text ls = concat (map (\<lambda>l. line_text l @ [CHR 0x0A]) ls)"

text \<open>The words of a section: its \<open>config\<close> line and the lines of its options.\<close>

definition section_words :: "uci_section \<Rightarrow> string list list" where
  "section_words s =
     (''config'' # s_kind s # (case s_name s of None \<Rightarrow> [] | Some n \<Rightarrow> [n])) # map (\<lambda>(k, v). [''option'', k, v]) (s_options s)"

section \<open>What is written is read\<close>

lemma single_quoted_literal: "CHR 0x27 \<notin> set t \<Longrightarrow> single_quoted (t @ CHR 0x27 # s) = (t, s)"
  by (induction t) auto

lemma double_quoted_escapes:
  "list_all (\<lambda>(escaped, c). escaped \<or> c \<noteq> CHR 0x22 \<and> c \<noteq> CHR 0x5C) cs \<Longrightarrow>
     double_quoted (concat (map (\<lambda>(escaped, c). if escaped then [CHR 0x5C, c] else [c]) cs) @ CHR 0x22 # s) = (map snd cs, s)"
  by (induction cs) (auto split: if_splits)

lemma words_from_bare:
  "list_all (\<lambda>c. \<not> special c) t \<Longrightarrow> words_from (t @ s) word True = words_from s (word @ t) True"
  by (induction t arbitrary: word) (auto simp: words_from.simps(2) special_def)

lemma words_from_piece:
  assumes "piece_ok p" and "in_word \<or> hd (piece_text p) \<noteq> CHR ''#''"
  shows "words_from (piece_text p @ s) word in_word = words_from s (word @ piece_means p) True"
proof (cases p)
  case (Bare t)
  with assms(1) obtain c u where t: "t = c # u" by (cases t) auto
  with assms Bare have "words_from (t @ s) word in_word = words_from (u @ s) (word @ [c]) True"
    by (auto simp: words_from.simps(2) special_def)
  also have "\<dots> = words_from s ((word @ [c]) @ u) True"
    using assms(1) Bare t by (intro words_from_bare) simp
  finally show ?thesis by (simp add: Bare t)
qed (use assms in \<open>simp_all add: words_from.simps(2) single_quoted_literal double_quoted_escapes\<close>)

lemma piece_text_nonempty: "piece_ok p \<Longrightarrow> piece_text p \<noteq> []"
  by (cases p) auto

lemma words_from_pieces:
  "list_all piece_ok ps \<Longrightarrow> words_from (word_text ps @ s) word True = words_from s (word @ word_means ps) True"
  by (induction ps arbitrary: word) (simp_all add: word_text_def word_means_def words_from_piece)

lemma words_from_word: "word_ok w \<Longrightarrow> words_from (word_text w @ s) [] False = words_from s (word_means w) True"
proof -
  assume w: "word_ok w"
  then obtain p ps where ps: "w = p # ps" by (cases w) (auto simp: word_ok_def)
  with w have p: "piece_ok p" "list_all piece_ok ps" "hd (piece_text p) \<noteq> CHR ''#''"
    using piece_text_nonempty [of p] by (auto simp: word_ok_def word_text_def hd_append)
  have "words_from (word_text w @ s) [] False = words_from (word_text ps @ s) (piece_means p) True"
    using words_from_piece [of p False "word_text ps @ s" "[]"] p by (simp add: ps word_text_def)
  also have "\<dots> = words_from s (word_means w) True"
    using words_from_pieces [OF p(2)] by (simp add: ps word_means_def)
  finally show ?thesis .
qed

lemma blank_plain: "is_whitespace c \<Longrightarrow> c \<noteq> CHR 0x27 \<and> c \<noteq> CHR 0x22 \<and> c \<noteq> CHR 0x5C \<and> c \<noteq> CHR ''#''"
  by (auto simp: is_whitespace_def is_ascii_whitespace_def)

lemma words_from_blanks: "blanks b \<Longrightarrow> words_from (b @ s) [] False = words_from s [] False"
  by (induction b) (auto simp: blanks_def words_from.simps(2) dest: blank_plain)

lemma words_from_separated:
  "blanks b \<Longrightarrow> b \<noteq> [] \<Longrightarrow> words_from (b @ s) word True = word # words_from s [] False"
  using words_from_blanks [of "tl b" s] by (cases b) (auto simp: blanks_def words_from.simps(2) dest: blank_plain)

lemma words_from_line:
  assumes "list_all (\<lambda>(w, after). word_ok w \<and> blanks after) ws" and "list_all (\<lambda>(w, after). after \<noteq> []) (if t = None then butlast ws else ws)"
  shows "words_from (concat (map (\<lambda>(w, after). word_text w @ after) ws) @ (case t of None \<Rightarrow> [] | Some t \<Rightarrow> CHR ''#'' # t)) [] False =
     map (\<lambda>(w, after). word_means w) ws"
  using assms
proof (induction ws)
  case Nil
  then show ?case by (simp add: words_from.simps(2) split: option.split)
next
  case (Cons a ws)
  obtain w after where a: "a = (w, after)" by fastforce
  let ?rest = "concat (map (\<lambda>(w, after). word_text w @ after) ws) @ (case t of None \<Rightarrow> [] | Some t \<Rightarrow> CHR ''#'' # t)"
  have w: "word_ok w" "blanks after" using Cons.prems a by simp_all
  have start: "words_from (word_text w @ after @ ?rest) [] False = words_from (after @ ?rest) (word_means w) True"
    by (rule words_from_word [OF w(1)])
  show ?case
  proof (cases "after = []")
    case True
    with Cons.prems(2) a have "t = None" "ws = []" by (auto split: if_splits)
    then show ?thesis using start a True by simp
  next
    case False
    have "words_from ?rest [] False = map (\<lambda>(w, after). word_means w) ws"
      using Cons.prems by (intro Cons.IH) (auto split: if_splits)
    then show ?thesis using start words_from_separated [OF w(2) False, of ?rest "word_means w"] by (simp add: a)
  qed
qed

lemma uci_words_line: "line_ok l \<Longrightarrow> uci_words (line_text l) = line_words l"
  using words_from_blanks [of "lead l"] words_from_line [of "words l" "comment l"]
  by (simp add: line_ok_def line_text_def uci_words_def line_words_def)

lemma text_lines_concat:
  "list_all (\<lambda>l. CHR 0x0A \<notin> set l \<and> (l = [] \<or> last l \<noteq> CHR 0x0D)) ls \<Longrightarrow>
     text_lines (concat (map (\<lambda>l. l @ [CHR 0x0A]) ls)) = ls"
proof (induction ls)
  case (Cons l ls)
  let ?s = "concat (map (\<lambda>l. l @ [CHR 0x0A]) ls)"
  have "split_char (CHR 0x0A) (l @ CHR 0x0A # ?s) = l # split_char (CHR 0x0A) ?s"
    using Cons.prems by (intro split_char_append) simp
  then have "text_lines (l @ CHR 0x0A # ?s) = l # text_lines ?s"
    using Cons.prems by (auto simp: text_lines.simps Let_def)
  with Cons show ?case by simp
qed (simp add: text_lines.simps)

text \<open>A line changes the sections by its words only.\<close>

definition take_words :: "uci_section list \<Rightarrow> string list \<Rightarrow> uci_section list" where
  "take_words sections ws =
     (case ws of
        cmd # a # rest \<Rightarrow>
          if cmd = ''config''
          then sections @ [\<lparr>s_kind = a, s_name = (case rest of [] \<Rightarrow> None | n # _ \<Rightarrow> Some n), s_options = []\<rparr>]
          else if cmd = ''option'' \<and> rest \<noteq> [] \<and> sections \<noteq> []
          then butlast sections @ [(last sections)\<lparr>s_options := s_options (last sections) @ [(a, hd rest)]\<rparr>]
          else sections
      | _ \<Rightarrow> sections)"

lemma uci_line_words: "uci_line sections line = take_words sections (uci_words line)"
  by (simp add: uci_line_def take_words_def)

lemma take_options:
  "foldl take_words (ss @ [s]) (map (\<lambda>(k, v). [''option'', k, v]) os) = ss @ [s\<lparr>s_options := s_options s @ os\<rparr>]"
proof (induction os arbitrary: s)
  case (Cons a os)
  then show ?case by (cases a) (simp add: take_words_def)
qed simp

lemma take_section: "foldl take_words ss (section_words s) = ss @ [s]"
proof -
  have "take_words ss (''config'' # s_kind s # (case s_name s of None \<Rightarrow> [] | Some n \<Rightarrow> [n])) =
      ss @ [\<lparr>s_kind = s_kind s, s_name = s_name s, s_options = []\<rparr>]"
    by (simp add: take_words_def split: option.split)
  then show ?thesis by (simp add: section_words_def take_options)
qed

lemma take_sections: "foldl take_words ss (concat (map section_words ts)) = ss @ ts"
  by (induction ts arbitrary: ss) (simp_all add: take_section)

lemma take_nothing: "foldl take_words ss (filter (\<lambda>ws. ws \<noteq> []) wss) = foldl take_words ss wss"
  by (induction wss arbitrary: ss) (simp_all add: take_words_def)

lemma foldl_uci_line: "list_all line_ok ls \<Longrightarrow> foldl uci_line ss (map line_text ls) = foldl take_words ss (map line_words ls)"
  by (induction ls arbitrary: ss) (simp_all add: uci_line_words uci_words_line)

text \<open>
  C33: a configuration file reads as its sections however its words are written: in single quotes, in double
  quotes with or without escapes, bare, or glued together of such pieces, with any blanks around them, and with blank
  lines and comments between and behind. So every kind, name, key and value comes through, with
  quotes, backslashes, blanks and hash signs in them; the one character a word cannot hold is the line feed.
\<close>

theorem parse_uci_roundtrip:
  assumes "list_all line_ok ls"
    and "filter (\<lambda>ws. ws \<noteq> []) (map line_words ls) = concat (map section_words ss)"
  shows "parse_uci (file_text ls) = ss"
proof -
  have "list_all (\<lambda>l. CHR 0x0A \<notin> set l \<and> (l = [] \<or> last l \<noteq> CHR 0x0D)) (map line_text ls)"
    using assms(1) by (auto simp: list_all_iff line_ok_def)
  from text_lines_concat [OF this] have "text_lines (file_text ls) = map line_text ls" by (simp add: file_text_def comp_def)
  then have "parse_uci (file_text ls) = foldl take_words [] (map line_words ls)"
    by (simp add: parse_uci_def foldl_uci_line [OF assms(1)])
  also have "\<dots> = foldl take_words [] (concat (map section_words ss))"
    unfolding assms(2) [symmetric] take_nothing ..
  finally show ?thesis by (simp add: take_sections)
qed

text \<open>An access point as \<open>uci\<close> writes it, its name with an apostrophe and a hash sign.\<close>

definition demo_written :: "written_line list" where
  "demo_written =
     [\<lparr>lead = [], words = [], comment = Some '' Wi-Fi''\<rparr>,
      \<lparr>lead = [], words = [([Bare ''config''], '' ''), ([Bare ''wifi-iface''], '' ''), ([Single ''main''], [])], comment = None\<rparr>,
      \<lparr>lead = [CHR 0x09], words = [([Bare ''option''], '' ''), ([Bare ''ssid''], '' ''),
         ([Single ''Jo'', Escaped (CHR 0x27), Single ''s # 5G''], [])], comment = None\<rparr>]"

definition demo_section :: uci_section where
  "demo_section = \<lparr>s_kind = ''wifi-iface'', s_name = Some ''main'', s_options = [(''ssid'', ''Jo'' @ CHR 0x27 # ''s # 5G'')]\<rparr>"

theorem parse_uci_roundtrip_witness: "parse_uci (file_text demo_written) = [demo_section]"
  by (rule parse_uci_roundtrip) (code_simp, code_simp)

end
