(* ===== verification/Line_Blocks.thy ===== *)
theory Line_Blocks
  imports Uci_Config Rust_Text
begin

text \<open>
  Text cut at line feeds: decoding bytes with replacement, splitting into lines and searching the lines from
  the end all work block by block. The followers of the firmware's logs rest on it.
\<close>

section \<open>Decoding\<close>

abbreviation LF :: u8 where "LF \<equiv> 0x0A"

lemma LF_continues_nothing [simp]: "\<not> is_cont LF" "\<not> second_ok b LF" "utf8_char_width LF = 1"
  by (auto simp: is_cont_def second_ok_def utf8_char_width_def)

lemma utf8_next_LF: "a \<noteq> [] \<Longrightarrow> utf8_next (a @ LF # b) = utf8_next a"
proof (cases a)
  case (Cons x a1)
  show ?thesis
  proof (cases a1)
    case Nil
    then show ?thesis using Cons by (simp add: utf8_next_def safe_get_def Let_def)
  next
    case c1: (Cons y a2)
    show ?thesis
    proof (cases a2)
      case Nil
      then show ?thesis using Cons c1 by (simp add: utf8_next_def safe_get_def Let_def)
    next
      case c2: (Cons z a3)
      then show ?thesis using Cons c1 by (cases a3) (simp_all add: utf8_next_def safe_get_def Let_def)
    qed
  qed
qed simp

lemma utf8_next_length: "a \<noteq> [] \<Longrightarrow> snd (utf8_next a) \<le> length a"
proof -
  assume a: "a \<noteq> []"
  have c: "is_cont (safe_get a i) \<Longrightarrow> i < length a" and s: "second_ok b (safe_get a i) \<Longrightarrow> i < length a" for i b
    by (auto simp: safe_get_def split: if_splits)
  have "snd (utf8_next a) \<le> 1 \<or> snd (utf8_next a) = 2 \<and> (is_cont (safe_get a 1) \<or> (\<exists>b. second_ok b (safe_get a 1))) \<or>
      snd (utf8_next a) = 3 \<and> is_cont (safe_get a 2) \<or> snd (utf8_next a) = 4 \<and> is_cont (safe_get a 3)"
    by (auto simp: utf8_next_def Let_def simp del: One_nat_def)
  moreover have "1 \<le> length a" using a by (cases a) simp_all
  moreover have "\<exists>b. second_ok b (safe_get a 1) \<Longrightarrow> 1 < length a" using s by blast
  ultimately show ?thesis using c [of 1] c [of 2] c [of 3]
    by (elim disjE conjE; (erule order_trans | simp del: One_nat_def))
qed

lemma utf8_lossy_LF: "utf8_lossy (a @ LF # b) = utf8_lossy a @ LF # utf8_lossy b"
proof (induction a rule: utf8_lossy.induct)
  case (1 a)
  show ?case
  proof (cases "a = []")
    case True
    have "utf8_next (LF # b) = (True, 1)" by (simp add: utf8_next_def safe_get_def)
    with True show ?thesis by (subst utf8_lossy.simps) simp
  next
    case False
    note n = utf8_next_LF [OF False, of b] and le = utf8_next_length [OF False]
    have "utf8_lossy (a @ LF # b) =
        (if fst (utf8_next a) then take (snd (utf8_next a)) a else REPLACEMENT) @
          utf8_lossy (drop (snd (utf8_next a)) a @ LF # b)"
      by (subst utf8_lossy.simps) (simp add: n le)
    also have "utf8_lossy (drop (snd (utf8_next a)) a @ LF # b) = utf8_lossy (drop (snd (utf8_next a)) a) @ LF # utf8_lossy b"
      by (rule 1) (rule False)
    finally show ?thesis
      using utf8_lossy.simps [of a] False by simp
  qed
qed

lemma from_utf8_lossy_LF: "from_utf8_lossy (a @ LF # b) = from_utf8_lossy a @ CHR 0x0A # from_utf8_lossy b"
proof -
  have "chr_of LF = CHR 0x0A" by code_simp
  then show ?thesis by (simp add: from_utf8_lossy_def utf8_lossy_LF of_bytes_def)
qed

section \<open>Blocks of complete lines\<close>

text \<open>A block is empty or ends with a line feed.\<close>

definition block :: "bytes \<Rightarrow> bool" where
  "block bs \<longleftrightarrow> bs = [] \<or> last bs = LF"

lemma block_Nil [simp]: "block []"
  by (simp add: block_def)

lemma block_snoc [simp]: "block (a @ [LF])"
  by (simp add: block_def)

lemma block_cases: "block bs \<Longrightarrow> bs = [] \<or> (\<exists>a. bs = a @ [LF])"
  by (cases bs rule: rev_cases) (auto simp: block_def)

lemma block_append: "block a \<Longrightarrow> block b \<Longrightarrow> block (a @ b)"
  by (auto simp: block_def last_append)

lemma text_lines_LF: "text_lines (a @ CHR 0x0A # b) = text_lines (a @ [CHR 0x0A]) @ text_lines b"
proof -
  let ?p = "split_char (CHR 0x0A)"
  have "?p (a @ [CHR 0x0A]) = ?p a @ [[]]" using split_char_app [of "CHR 0x0A" a "[]"] by simp
  then show ?thesis
    by (simp add: text_lines.simps [of "a @ _"] text_lines.simps [of b] split_char_app Let_def butlast_append)
qed

definition block_lines :: "bytes \<Rightarrow> string list" where
  "block_lines bs = text_lines (from_utf8_lossy bs)"

lemma block_lines_append: "block a \<Longrightarrow> block_lines (a @ b) = block_lines a @ block_lines b"
proof (drule block_cases, elim disjE exE)
  fix c
  assume a: "a = c @ [LF]"
  have "from_utf8_lossy (c @ LF # b) = from_utf8_lossy c @ CHR 0x0A # from_utf8_lossy b" by (rule from_utf8_lossy_LF)
  moreover have "from_utf8_lossy (c @ [LF]) = from_utf8_lossy c @ [CHR 0x0A]"
    using from_utf8_lossy_LF [of c "[]"] by (simp add: from_utf8_lossy_def of_bytes_def)
  ultimately show ?thesis
    using text_lines_LF [of "from_utf8_lossy c" "from_utf8_lossy b"] by (simp add: block_lines_def a)
qed (simp add: block_lines_def from_utf8_lossy_def of_bytes_def text_lines.simps)

text \<open>\<open>Iterator::rposition\<close> of a line feed, as the number of bytes through it.\<close>

fun through_last_LF :: "bytes \<Rightarrow> nat" where
  "through_last_LF [] = 0"
| "through_last_LF (b # bs) =
     (if through_last_LF bs > 0 then Suc (through_last_LF bs) else if b = LF then 1 else 0)"

lemma through_last_LF_le: "through_last_LF bs \<le> length bs"
  by (induction bs) auto

lemma through_last_LF_none: "LF \<notin> set bs \<Longrightarrow> through_last_LF bs = 0"
  by (induction bs) auto

lemma through_last_LF_append: "LF \<notin> set b \<Longrightarrow> through_last_LF (a @ LF # b) = Suc (length a)"
  by (induction a) (auto simp: through_last_LF_none)

lemma split_last_LF:
  obtains (none) "LF \<notin> set bs" "through_last_LF bs = 0"
  | (some) a b where "bs = a @ LF # b" "LF \<notin> set b" "through_last_LF bs = Suc (length a)"
proof (cases "LF \<in> set bs")
  case True
  then obtain a b where "bs = a @ LF # b" "LF \<notin> set b" by (meson split_list_last)
  with some [OF this] through_last_LF_append show ?thesis by simp
next
  case False
  from none [OF this through_last_LF_none [OF this]] show ?thesis .
qed

lemma block_through: "block (take (through_last_LF bs) bs)"
  by (cases bs rule: split_last_LF) simp_all

lemma no_LF_behind: "LF \<notin> set (drop (through_last_LF bs) bs)"
  by (cases bs rule: split_last_LF) simp_all

lemma through_block: "block bs \<Longrightarrow> through_last_LF bs = length bs"
  using through_last_LF_append [of "[]"] by (auto dest!: block_cases)

lemma through_append: "block a \<Longrightarrow> through_last_LF (a @ b) = length a + through_last_LF b"
proof (cases b rule: split_last_LF)
  case none
  assume "block a"
  from block_cases [OF this] show ?thesis
    using none through_last_LF_append [of b] by (auto simp: through_last_LF_none)
next
  case (some c d)
  then show ?thesis using through_last_LF_append [of d "a @ c"] by simp
qed

end
