(* ===== verification/Key_Log.thy ===== *)
theory Key_Log
  imports Line_Blocks
begin

text \<open>
  Backward reads of the firmware's log (\<open>zte-agent/src/key_log.rs\<close>). A file is its length and a reader, which
  may fail; the lines are looked for by a function the caller passes. The locale \<open>newest_find\<close> states what
  such a function owes, and shows that reading window by window finds what reading the whole file would.
\<close>

section \<open>The scan\<close>

text \<open>An opened file gives the bytes of a range, as far as it has them.\<close>

type_synonym reader = "nat \<Rightarrow> nat \<Rightarrow> bytes option"

definition read_range :: "bytes \<Rightarrow> reader" where
  "read_range content s e = Some (take (e - s) (drop s content))"

text \<open>\<open>position(b'\\n').map_or(len, |i| i + 1)\<close>.\<close>

fun through_first_LF :: "bytes \<Rightarrow> nat" where
  "through_first_LF [] = 0"
| "through_first_LF (b # bs) = (if b = LF then 1 else Suc (through_first_LF bs))"

text \<open>
  One window, read from \<open>lo\<close>: what it shows, where the next window ends, whether the newest line is still
  looked for, and how far complete lines reach.
\<close>

definition scan_window ::
    "nat \<Rightarrow> (string \<Rightarrow> 'a option) \<Rightarrow> nat \<Rightarrow> bytes \<Rightarrow> bool \<Rightarrow> nat \<Rightarrow> 'a option \<times> nat \<times> bool \<times> nat" where
  "scan_window low look lo buf newest_window consumed =
     (let stop = (if newest_window then through_last_LF buf else length buf);
          start = (if lo = low then 0 else through_first_LF buf)
      in (if start < stop then look (from_utf8_lossy (take (stop - start) (drop start buf))) else None,
          if start = 0 \<or> length buf \<le> start then lo else lo + start,
          newest_window \<and> stop = 0,
          if newest_window \<and> stop > 0 then lo + stop else consumed))"

text \<open>The loop may run forever for an empty window, so its value is an option.\<close>

partial_function (option) scan_loop ::
    "reader \<Rightarrow> nat \<Rightarrow> nat \<Rightarrow> (string \<Rightarrow> 'a option) \<Rightarrow> nat \<Rightarrow> bool \<Rightarrow> nat \<Rightarrow> ('a option \<times> nat) option" where
  "scan_loop rd low chunk look hi newest_window consumed =
     (if hi \<le> low then Some (None, consumed)
      else case rd (max (hi - chunk) low) hi of
             None \<Rightarrow> Some (None, consumed)
           | Some buf \<Rightarrow>
               (case scan_window low look (max (hi - chunk) low) buf newest_window consumed of
                  (found, hi, newest_window, consumed) \<Rightarrow>
                    (case found of
                       Some x \<Rightarrow> Some (Some x, consumed)
                     | None \<Rightarrow> scan_loop rd low chunk look hi newest_window consumed)))"

definition scan_back ::
    "reader option \<Rightarrow> nat \<Rightarrow> nat \<Rightarrow> nat \<Rightarrow> (string \<Rightarrow> 'a option) \<Rightarrow> ('a option \<times> nat) option" where
  "scan_back file low hi chunk look =
     (case file of None \<Rightarrow> Some (None, low) | Some rd \<Rightarrow> scan_loop rd low chunk look hi True low)"

record log_file =
  lf_len :: nat
  lf_open :: "reader option"

definition pending_line :: "log_file \<Rightarrow> nat \<Rightarrow> nat \<Rightarrow> string" where
  "pending_line log chunk consumed =
     (if consumed < lf_len log
      then case Option.bind (lf_open log) (\<lambda>rd. rd consumed (min (lf_len log) (consumed + chunk))) of
             Some buf \<Rightarrow> from_utf8_lossy buf
           | None \<Rightarrow> []
      else [])"

definition newest :: "log_file \<Rightarrow> log_file \<Rightarrow> nat \<Rightarrow> (string \<Rightarrow> 'a option) \<Rightarrow> ('a option \<times> string) option" where
  "newest log rotated chunk look =
     Option.bind (scan_back (lf_open log) 0 (lf_len log) chunk look) (\<lambda>(found, consumed).
       case found of
         Some x \<Rightarrow> Some (Some x, pending_line log chunk consumed)
       | None \<Rightarrow>
           map_option (\<lambda>(found, _). (found, pending_line log chunk consumed))
             (scan_back (lf_open rotated) 0 (lf_len rotated) chunk look))"

section \<open>It ends\<close>

lemma through_first_LF_le: "through_first_LF bs \<le> length bs"
  by (induction bs) auto

lemma through_first_LF_append: "LF \<notin> set a \<Longrightarrow> through_first_LF (a @ LF # b) = Suc (length a)"
  by (induction a) auto

lemma through_first_LF_none: "LF \<notin> set a \<Longrightarrow> through_first_LF a = length a"
  by (induction a) auto

definition honest :: "reader \<Rightarrow> bool" where
  "honest rd \<longleftrightarrow> (\<forall>s e buf. rd s e = Some buf \<longrightarrow> length buf \<le> e - s)"

lemma scan_loop_returns:
  assumes "honest rd" and "0 < chunk"
  shows "\<exists>r. scan_loop rd low chunk look hi newest_window consumed = Some r"
proof (induction hi arbitrary: newest_window consumed rule: less_induct)
  case (less hi)
  show ?case
  proof (cases "hi \<le> low")
    case True
    then show ?thesis by (simp add: scan_loop.simps)
  next
    case False
    define lo where "lo = max (hi - chunk) low"
    have lo: "lo < hi" using False assms(2) by (simp add: lo_def)
    show ?thesis
    proof (cases "rd lo hi")
      case None
      then show ?thesis using False by (simp add: scan_loop.simps lo_def)
    next
      case (Some buf)
      obtain found next_hi nw cons where w: "scan_window low look lo buf newest_window consumed = (found, next_hi, nw, cons)"
        by (metis prod_cases4)
      have "length buf \<le> hi - lo" using Some assms(1) by (auto simp: honest_def)
      then have "next_hi < hi" using lo w by (auto simp: scan_window_def Let_def split: if_splits)
      from less [OF this, of nw cons] show ?thesis
        using False Some w by (subst scan_loop.simps) (auto simp: lo_def [symmetric] split: option.split)
    qed
  qed
qed

text \<open>
  The search of the log always ends, whatever the file holds and however its reads fail or fall short, as
  long as a window is not empty and a read gives no more than was asked for.
\<close>

theorem newest_returns:
  assumes "0 < chunk" and "\<forall>rd \<in> set_option (lf_open log) \<union> set_option (lf_open rotated). honest rd"
  shows "\<exists>found pending. newest log rotated chunk look = Some (found, pending)"
proof -
  have *: "\<exists>found consumed. scan_back (lf_open f) 0 hi chunk look = Some (found, consumed)" if "f \<in> {log, rotated}" for f hi
    using assms that scan_loop_returns [of _ chunk 0 look hi True 0]
    by (cases "lf_open f") (auto simp: scan_back_def)
  obtain found consumed where "scan_back (lf_open log) 0 (lf_len log) chunk look = Some (found, consumed)" using * by blast
  moreover obtain found' consumed' where "scan_back (lf_open rotated) 0 (lf_len rotated) chunk look = Some (found', consumed')"
    using * by blast
  ultimately show ?thesis by (cases found) (simp_all add: newest_def)
qed

section \<open>It finds the newest\<close>

text \<open>Every complete line, with its line feed, is shorter than a window.\<close>

fun short_lines :: "nat \<Rightarrow> nat \<Rightarrow> bytes \<Rightarrow> bool" where
  "short_lines n k [] = True"
| "short_lines n k (b # bs) = (if b = LF then k + 1 < n \<and> short_lines n 0 bs else short_lines n (Suc k) bs)"

lemma short_lines_line: "short_lines n k (u @ l @ LF # v) \<Longrightarrow> LF \<notin> set l \<Longrightarrow> length l + 1 < n"
proof (induction u arbitrary: k)
  case Nil
  have "k + length l + 1 < n" if "short_lines n k (l @ LF # v)" "LF \<notin> set l" for k l
    using that
  proof (induction l arbitrary: k)
    case (Cons b l)
    from Cons.IH [of "Suc k"] Cons.prems show ?case by simp
  qed simp
  from this [OF _ Nil(2), of k] Nil(1) show ?case by simp
next
  case (Cons b u)
  then show ?case by (auto split: if_splits)
qed

lemma last_line:
  assumes "block x" and "x \<noteq> []"
  obtains u l where "x = u @ l @ [LF]" "block u" "LF \<notin> set l"
proof -
  obtain a where a: "x = a @ [LF]" using block_cases [OF assms(1)] assms(2) by blast
  show ?thesis
  proof (cases a rule: split_last_LF)
    case none
    then show ?thesis using that [of "[]" a] a by simp
  next
    case (some c d)
    then show ?thesis using that [of "c @ [LF]" d] a by simp
  qed
qed

text \<open>A window that ends a block cuts it behind a line feed, and the line at its end fits.\<close>

lemma cut_block:
  assumes "block x" and "lo < length x" and "short_lines chunk 0 (x @ y)" and "length x - lo \<ge> chunk" and "0 < lo"
  obtains p q where "drop lo x = p @ q" "block (take lo x @ p)" "block q" "q \<noteq> []" "p \<noteq> []"
    "\<And>r. through_first_LF (drop lo x @ r) = length p"
proof -
  have "x \<noteq> []" using assms(2) by auto
  then obtain u l where x: "x = u @ l @ [LF]" "block u" "LF \<notin> set l" by (rule last_line [OF assms(1)])
  have l: "length l + 1 < chunk" using short_lines_line [of chunk 0 u l y] assms(3) x by simp
  then have u: "lo < length u" using x(1) assms(2,4) by simp
  have "drop lo u \<noteq> []" "last (drop lo u) = LF" using u block_cases [OF x(2)] by (auto simp: last_drop)
  then have "LF \<in> set (drop lo u)" using last_in_set by metis
  then obtain a b where ab: "drop lo u = a @ LF # b" "LF \<notin> set a" by (meson split_list_first)
  have d: "drop lo x = (a @ [LF]) @ (b @ l @ [LF])" using x(1) u ab by simp
  have "block (take lo x @ a @ [LF])" by (simp add: block_def)
  moreover have "block (b @ l @ [LF])" by (simp add: block_def)
  moreover have "through_first_LF (drop lo x @ r) = length (a @ [LF])" for r
    using through_first_LF_append [OF ab(2), of "b @ l @ [LF] @ r"] d by simp
  ultimately show ?thesis using that [of "a @ [LF]" "b @ l @ [LF]"] d by simp
qed

locale newest_find =
  fixes look :: "string \<Rightarrow> 'a option"
  assumes look_Nil: "look [] = None"
    and look_append: "block a \<Longrightarrow> block b \<Longrightarrow>
      look (from_utf8_lossy (a @ b)) =
        (case look (from_utf8_lossy b) of Some x \<Rightarrow> Some x | None \<Rightarrow> look (from_utf8_lossy a))"
begin

lemma look_empty [simp]: "look (from_utf8_lossy []) = None"
  by (simp add: from_utf8_lossy_def of_bytes_def look_Nil)

lemma scan_blocks:
  assumes "0 < chunk" and "short_lines chunk 0 (x @ y)" and "block x"
  shows "scan_loop (read_range (x @ y)) 0 chunk look (length x) False c = Some (look (from_utf8_lossy x), c)"
  using assms(2,3)
proof (induction x arbitrary: y rule: length_induct)
  case (1 x)
  note IH = 1(1) [rule_format] and short = 1(2) and blk = 1(3)
  show ?case
  proof (cases "x = []")
    case True
    then show ?thesis by (simp add: scan_loop.simps)
  next
    case False
    define lo where "lo = length x - chunk"
    have lo: "lo < length x" using False assms(1) by (simp add: lo_def)
    have buf: "read_range (x @ y) lo (length x) = Some (drop lo x)" using lo by (simp add: read_range_def)
    show ?thesis
    proof (cases "lo = 0")
      case True
      then show ?thesis
        using False buf by (subst scan_loop.simps) (simp add: lo_def [symmetric] scan_window_def scan_loop.simps [of _ 0 _ _ 0] split: option.split)
    next
      case lo0: False
      then have "chunk \<le> length x - lo" by (simp add: lo_def)
      with blk lo short lo0 obtain p q where pq: "drop lo x = p @ q" "block (take lo x @ p)" "block q" "q \<noteq> []" "p \<noteq> []"
        "through_first_LF (drop lo x) = length p"
        using cut_block [of x lo chunk y] by (metis append_Nil2 gr0I)
      have x: "x = (take lo x @ p) @ q" using pq(1) by (metis append_assoc append_take_drop_id)
      have n: "length (take lo x @ p) = lo + length p" using lo by simp
      have w: "scan_window 0 look lo (drop lo x) False c = (look (from_utf8_lossy q), lo + length p, False, c)"
        using lo0 pq(4,5,6) by (simp add: scan_window_def pq(1))
      have "scan_loop (read_range (x @ y)) 0 chunk look (lo + length p) False c = Some (look (from_utf8_lossy (take lo x @ p)), c)"
        using IH [of "take lo x @ p" "q @ y"] short pq(2,4) x n by (metis append_assoc length_append length_greater_0_conv less_add_same_cancel1)
      moreover have "look (from_utf8_lossy x) = (case look (from_utf8_lossy q) of Some r \<Rightarrow> Some r | None \<Rightarrow> look (from_utf8_lossy (take lo x @ p)))"
        using look_append [OF pq(2,3)] x by simp
      ultimately show ?thesis
        using False buf w by (subst scan_loop.simps) (simp add: lo_def [symmetric] split: option.split)
    qed
  qed
qed

text \<open>The first windows, which look for the newest complete line behind a partial one.\<close>

lemma scan_newest:
  assumes "0 < chunk" and "short_lines chunk 0 (x @ t @ y)" and "block x" and "LF \<notin> set t"
  shows "scan_loop (read_range (x @ t @ y)) 0 chunk look (length x + length t) True c =
    Some (look (from_utf8_lossy x), if x = [] then c else length x)"
  using assms(2,4)
proof (induction t arbitrary: y rule: length_induct)
  case (1 t)
  note IH = 1(1) [rule_format] and short = 1(2) and tail = 1(3)
  define hi where "hi = length x + length t"
  define lo where "lo = hi - chunk"
  have buf: "read_range (x @ t @ y) lo hi = Some (drop lo (x @ t))"
    by (simp add: read_range_def hi_def)
  show ?case
  proof (cases "hi = 0")
    case True
    then show ?thesis by (simp add: scan_loop.simps hi_def)
  next
    case hi: False
    have lo: "lo < hi" using hi assms(1) by (simp add: lo_def)
    show ?thesis
    proof (cases "length x \<le> lo")
      case True
      define t' where "t' = take (lo - length x) t"
      have t: "t = t' @ drop (lo - length x) t" by (simp add: t'_def)
      have t': "length t' < length t" "length x + length t' = lo" "LF \<notin> set t'"
        using True lo tail by (auto simp: t'_def hi_def dest: in_set_takeD)
      have d: "drop lo (x @ t) = drop (lo - length x) t" using True by simp
      have "LF \<notin> set (drop (lo - length x) t)" using tail by (meson in_set_dropD)
      then have w: "scan_window 0 look lo (drop lo (x @ t)) True c = (None, lo, True, c)"
        unfolding d by (simp add: scan_window_def through_last_LF_none through_first_LF_none)
      have "scan_loop (read_range (x @ t @ y)) 0 chunk look lo True c =
          Some (look (from_utf8_lossy x), if x = [] then c else length x)"
        using IH [of t' "drop (lo - length x) t @ y"] t' short t by (metis append_assoc)
      then show ?thesis
        using hi buf w by (subst scan_loop.simps) (simp add: lo_def [symmetric] hi_def [symmetric])
    next
      case x_in: False
      then have ne: "x \<noteq> []" by auto
      have d: "drop lo (x @ t) = drop lo x @ t" using x_in by simp
      have "drop lo x \<noteq> []" "last (drop lo x) = LF"
        using x_in block_cases [OF assms(3)] by (auto simp: last_drop)
      then have stop: "through_last_LF (drop lo x @ t) = length x - lo"
        using through_append [of "drop lo x" t] through_last_LF_none [OF tail] by (simp add: block_def)
      have rest: "scan_loop (read_range (x @ t @ y)) 0 chunk look (length x) False (length x) = Some (look (from_utf8_lossy x), length x)"
        using scan_blocks [OF assms(1), of x "t @ y"] short assms(3) by simp
      show ?thesis
      proof (cases "lo = 0")
        case True
        then have "scan_window 0 look lo (drop lo (x @ t)) True c = (look (from_utf8_lossy x), 0, False, length x)"
          using stop ne by (simp add: scan_window_def)
        then show ?thesis
          using hi ne buf True by (subst scan_loop.simps)
            (simp add: lo_def [symmetric] hi_def [symmetric] scan_loop.simps [of _ 0 _ _ 0] split: option.split)
      next
        case lo0: False
        have "LF \<in> set (drop lo x)" using \<open>drop lo x \<noteq> []\<close> \<open>last (drop lo x) = LF\<close> last_in_set by metis
        then obtain a b where ab: "drop lo x = a @ LF # b" "LF \<notin> set a" by (meson split_list_first)
        define p where "p = a @ [LF]"
        have pq: "drop lo x = p @ b" "p \<noteq> []" "block (take lo x @ p)" by (simp_all add: p_def ab block_def)
        have first: "through_first_LF (drop lo x @ t) = length p"
          using through_first_LF_append [OF ab(2), of "b @ t"] by (simp add: p_def ab)
        have b: "block b" using \<open>last (drop lo x) = LF\<close> ab by (auto simp: block_def split: if_splits)
        have x: "x = (take lo x @ p) @ b" using pq(1) by (metis append_assoc append_take_drop_id)
        have n: "length (take lo x @ p) = lo + length p" using x_in by simp
        have "length (drop lo x) = length p + length b" by (simp add: pq(1))
        then have len: "length x - lo = length p + length b" by simp
        have more: "b \<noteq> [] \<or> t \<noteq> []"
        proof (rule ccontr)
          assume "\<not> (b \<noteq> [] \<or> t \<noteq> [])"
          moreover from this have "chunk \<le> length x - lo" using lo0 by (simp add: lo_def hi_def)
          ultimately show False
            using cut_block [of x lo chunk "t @ y"] assms(3) x_in short lo0 first pq(1)
            by (metis append_Nil2 append_self_conv gr0I not_le same_append_eq length_append add_left_cancel length_0_conv)
        qed
        have d2: "drop lo (x @ t) = p @ b @ t" using d pq(1) by simp
        have stop2: "through_last_LF (p @ b @ t) = length p + length b" using stop len pq(1) by simp
        have first2: "through_first_LF (p @ b @ t) = length p" using first pq(1) by simp
        have lx: "length x = lo + (length p + length b)" using len x_in by simp
        have w: "scan_window 0 look lo (drop lo (x @ t)) True c =
            (look (from_utf8_lossy b), lo + length p, False, length x)"
          unfolding d2 scan_window_def Let_def if_True stop2 first2
          using lo0 pq(2) more lx by (cases "b = []") simp_all
        have "scan_loop (read_range (x @ t @ y)) 0 chunk look (lo + length p) False (length x) = Some (look (from_utf8_lossy (take lo x @ p)), length x)"
          using scan_blocks [OF assms(1), of "take lo x @ p" "b @ t @ y"] short pq(3) x n by (metis append_assoc)
        moreover have "look (from_utf8_lossy x) =
            (case look (from_utf8_lossy b) of Some r \<Rightarrow> Some r | None \<Rightarrow> look (from_utf8_lossy (take lo x @ p)))"
          using look_append [OF pq(3) b] x by simp
        ultimately show ?thesis
          using hi ne buf w by (subst scan_loop.simps)
            (simp add: lo_def [symmetric] hi_def [symmetric] split: option.split)
      qed
    qed
  qed
qed

text \<open>A file that can be read.\<close>

lemma newest_found:
  assumes "0 < chunk" and "short_lines chunk 0 a" and "short_lines chunk 0 b"
  shows "newest \<lparr>lf_len = length a, lf_open = Some (read_range a)\<rparr> \<lparr>lf_len = length b, lf_open = Some (read_range b)\<rparr> chunk look =
    Some (case look (from_utf8_lossy (take (through_last_LF a) a)) of
        Some x \<Rightarrow> Some x
      | None \<Rightarrow> look (from_utf8_lossy (take (through_last_LF b) b)),
      from_utf8_lossy (take chunk (drop (through_last_LF a) a)))"
proof -
  have scan: "scan_back (Some (read_range f)) 0 (length f) chunk look =
      Some (look (from_utf8_lossy (take (through_last_LF f) f)), through_last_LF f)" if "short_lines chunk 0 f" for f
  proof -
    let ?x = "take (through_last_LF f) f" and ?t = "drop (through_last_LF f) f"
    have l: "length ?x = through_last_LF f" by (simp add: through_last_LF_le)
    have "scan_loop (read_range (?x @ ?t @ [])) 0 chunk look (length ?x + length ?t) True 0 =
        Some (look (from_utf8_lossy ?x), if ?x = [] then 0 else length ?x)"
      by (rule scan_newest [OF assms(1)]) (simp_all add: that block_through no_LF_behind)
    moreover have "length ?x + length ?t = length f" using l through_last_LF_le [of f] by simp
    moreover have "(if ?x = [] then 0 else length ?x) = through_last_LF f" using l by auto
    ultimately show ?thesis by (simp add: scan_back_def)
  qed
  have "pending_line \<lparr>lf_len = length a, lf_open = Some (read_range a)\<rparr> chunk (through_last_LF a) =
      from_utf8_lossy (take chunk (drop (through_last_LF a) a))"
    by (simp add: pending_line_def read_range_def min_def from_utf8_lossy_def of_bytes_def)
  then show ?thesis using scan assms(2,3) by (simp add: newest_def split: option.split)
qed

end

text \<open>
  A line that fills a window is another matter: its end is skipped, but its head is handed on as if it were a
  complete line.
\<close>

lemma long_line_head_found:
  "scan_loop (read_range (replicate 15 0x61 @ [LF])) 0 8 Some 16 True 0 = Some (Some (replicate 8 (CHR ''a'')), 16)"
proof -
  have "from_utf8_ok (replicate 8 0x61)" by (rule from_utf8_ok_ascii) simp
  moreover have "chr_of 0x61 = CHR ''a''" by code_simp
  ultimately have "from_utf8_lossy (replicate 8 0x61) = replicate 8 (CHR ''a'')"
    by (simp add: from_utf8_lossy_def utf8_lossy_id of_bytes_def)
  moreover have "through_last_LF (replicate 7 0x61 @ [LF]) = 8" "through_first_LF (replicate 7 0x61 @ [LF]) = 8"
    using through_last_LF_append [of "[]" "replicate 7 0x61"] through_first_LF_append [of "replicate 7 0x61" "[]"] by simp_all
  ultimately show ?thesis
    by (simp add: scan_loop.simps read_range_def scan_window_def)
qed

end
