(* ===== verification/Mobile_Side.thy ===== *)
theory Mobile_Side
  imports Boot_Clock Run_Invariant Text_Ops
begin

text \<open>
  The refusal of connections from the mobile-data side (\<open>zte-agent/src/httpd/mobile.rs\<close>): which peers an
  interface table admits, and the accept loop's guard with its cached table. A read of the table runs
  beside the loop: an accept is given what a read that was still running has brought, and whether one it
  starts comes back in time. Log lines are kept as their contents.
\<close>

section \<open>Addresses\<close>

datatype ip_addr = Ipv4 u32 | Ipv6 "128 word"

record socket_addr =
  sa_ip :: ip_addr
  sa_port :: nat
  sa_scope :: nat

definition to_canonical :: "ip_addr \<Rightarrow> ip_addr" where
  "to_canonical ip =
     (case ip of
        Ipv4 a \<Rightarrow> Ipv4 a
      | Ipv6 a \<Rightarrow> if drop_bit 32 a = 0xFFFF then Ipv4 (ucast a) else Ipv6 a)"

definition is_loopback :: "ip_addr \<Rightarrow> bool" where
  "is_loopback ip \<longleftrightarrow> (case ip of Ipv4 a \<Rightarrow> drop_bit 24 a = 127 | Ipv6 a \<Rightarrow> a = 1)"

definition link_local :: "ip_addr \<Rightarrow> bool" where
  "link_local ip \<longleftrightarrow> (case ip of Ipv4 _ \<Rightarrow> False | Ipv6 a \<Rightarrow> drop_bit 112 a AND 0xFFC0 = 0xFE80)"

section \<open>The interface table\<close>

definition MOBILE :: "string list" where "MOBILE = [''rmnet'']"
definition MAX_AGE :: duration where "MAX_AGE = from_secs 5"
definition RETRY :: duration where "RETRY = from_secs 1"
definition KEEP :: duration where "KEEP = from_secs 600"
definition LOG_EVERY :: duration where "LOG_EVERY = from_secs 60"

record if_addr =
  if_name :: string
  if_ip :: ip_addr
  if_prefix :: nat
  if_scope :: nat

definition mobile_side :: "string \<Rightarrow> bool" where
  "mobile_side n \<longleftrightarrow> list_ex (\<lambda>p. prefix p n) MOBILE"

definition bits :: "if_addr \<Rightarrow> nat" where
  "bits i =
     (let most = (case if_ip i of Ipv4 _ \<Rightarrow> 32 | Ipv6 _ \<Rightarrow> 128)
      in if if_prefix i = 0 then most else min (if_prefix i) most)"

text \<open>\<open>checked_shl\<close> of the widest value, or 0.\<close>

definition keep_mask :: "nat \<Rightarrow> 'w :: len word" where
  "keep_mask shift = (if shift < LENGTH('w) then push_bit shift (- 1) else 0)"

definition contains :: "if_addr \<Rightarrow> ip_addr \<Rightarrow> bool" where
  "contains i ip \<longleftrightarrow>
     (case (if_ip i, ip) of
        (Ipv4 n, Ipv4 a) \<Rightarrow> n AND keep_mask (32 - bits i) = a AND keep_mask (32 - bits i)
      | (Ipv6 n, Ipv6 a) \<Rightarrow> n AND keep_mask (128 - bits i) = a AND keep_mask (128 - bits i)
      | _ \<Rightarrow> False)"

text \<open>\<open>Iterator::max_by_key\<close> gives the last of equal maxima; a pair is compared component by component.\<close>

definition key_le :: "nat \<times> bool \<Rightarrow> nat \<times> bool \<Rightarrow> bool" where
  "key_le a b \<longleftrightarrow> fst a < fst b \<or> fst a = fst b \<and> (snd a \<longrightarrow> snd b)"

definition max_by_key :: "('a \<Rightarrow> nat \<times> bool) \<Rightarrow> 'a list \<Rightarrow> 'a option" where
  "max_by_key f xs =
     foldl (\<lambda>best x. case best of None \<Rightarrow> Some x | Some b \<Rightarrow> if key_le (f b) (f x) then Some x else Some b) None xs"

definition subnet_of :: "if_addr list \<Rightarrow> ip_addr \<Rightarrow> if_addr option" where
  "subnet_of table ip = max_by_key (\<lambda>i. (bits i, mobile_side (if_name i))) (filter (\<lambda>i. contains i ip) table)"

definition arrived_on :: "if_addr list \<Rightarrow> socket_addr \<Rightarrow> if_addr option" where
  "arrived_on table peer =
     (case sa_ip peer of
        Ipv6 _ \<Rightarrow> if sa_scope peer \<noteq> 0 then find (\<lambda>i. if_scope i = sa_scope peer) table else None
      | Ipv4 _ \<Rightarrow> None)"

definition on_local_side :: "if_addr option \<Rightarrow> bool" where
  "on_local_side i \<longleftrightarrow> (case i of Some i \<Rightarrow> \<not> mobile_side (if_name i) | None \<Rightarrow> False)"

definition admits :: "if_addr list \<Rightarrow> socket_addr \<Rightarrow> bool" where
  "admits table peer \<longleftrightarrow>
     (let ip = to_canonical (sa_ip peer)
      in if link_local ip then on_local_side (arrived_on table peer)
         else is_loopback ip \<or> list_ex (\<lambda>i. if_ip i = ip) table \<or> on_local_side (subnet_of table ip))"

section \<open>The guard\<close>

datatype http_line =
    Works_again
  | Table_kept string
  | Serving_everything string
  | Refused_peer socket_addr "socket_addr option" string nat

type_synonym read_result = "string + if_addr list"

record mobile_guard =
  g_off :: bool
  g_flag :: "bool option"
  g_table :: "if_addr list option"
  good_at :: "boot_instant option"
  read_at :: "boot_instant option"
  miss_at :: "boot_instant option"
  failing :: bool
  unlogged :: nat
  logged_at :: "boot_instant option"
  pending :: bool

definition guard_new :: "bool \<Rightarrow> bool option \<Rightarrow> mobile_guard" where
  "guard_new off flag = \<lparr>g_off = off, g_flag = flag, g_table = None, good_at = None, read_at = None, miss_at = None,
     failing = False, unlogged = 0, logged_at = None, pending = False\<rparr>"

text \<open>\<open>ZTE_AGENT_ALLOW_MOBILE\<close>; \<open>None\<close> inside: not text.\<close>

definition opt_out :: "string option option \<Rightarrow> bool" where
  "opt_out v \<longleftrightarrow> map_option (map_option trim) v = Some (Some ''1'')"

definition serves :: "mobile_guard \<Rightarrow> socket_addr \<Rightarrow> bool" where
  "serves g peer \<longleftrightarrow> (case g_table g of None \<Rightarrow> True | Some t \<Rightarrow> admits t peer)"

definition open_to_all :: "mobile_guard \<Rightarrow> bool" where
  "open_to_all g \<longleftrightarrow> failing g \<and> g_table g = None"

definition elapsed :: "boot_instant \<Rightarrow> boot_instant option \<Rightarrow> duration \<Rightarrow> bool" where
  "elapsed now t d \<longleftrightarrow> (case t of None \<Rightarrow> True | Some t \<Rightarrow> d \<le> saturating_duration_since now t)"

definition wants_read :: "socket_addr \<Rightarrow> boot_instant \<Rightarrow> mobile_guard \<Rightarrow> bool \<times> mobile_guard" where
  "wants_read peer now g =
     (if is_loopback (to_canonical (sa_ip peer)) then (False, g)
      else case read_at g of
        None \<Rightarrow> (True, g)
      | Some read \<Rightarrow>
          let age = saturating_duration_since now read
          in if MAX_AGE \<le> age \<or> failing g \<and> RETRY \<le> age then (True, g)
             else
               let miss = \<not> serves g peer \<and> elapsed now (miss_at g) RETRY
               in (miss, if miss then g\<lparr>miss_at := Some now\<rparr> else g))"

definition store_read :: "boot_instant \<Rightarrow> read_result \<Rightarrow> mobile_guard \<Rightarrow> mobile_guard \<times> http_line list" where
  "store_read now got g =
     (let g = g\<lparr>read_at := Some now\<rparr>;
          (g, lines) =
            (case got of
               Inr table \<Rightarrow>
                 (g\<lparr>failing := False, g_table := Some table, good_at := Some now\<rparr>, if failing g then [Works_again] else [])
             | Inl e \<Rightarrow>
                 let kept = g_table g \<noteq> None \<and> good_at g \<noteq> None \<and> \<not> elapsed now (good_at g) KEEP
                 in if kept then (g\<lparr>failing := True\<rparr>, if \<not> failing g then [Table_kept e] else [])
                    else (g\<lparr>g_table := None, failing := True\<rparr>,
                      if g_table g \<noteq> None \<or> \<not> failing g then [Serving_everything e] else []))
      in (g\<lparr>g_flag := map_option (\<lambda>_. open_to_all g) (g_flag g)\<rparr>, lines))"

definition canonical :: "socket_addr \<Rightarrow> socket_addr" where
  "canonical s = s\<lparr>sa_ip := to_canonical (sa_ip s), sa_scope := 0\<rparr>"

definition note_refused :: "boot_instant \<Rightarrow> socket_addr \<Rightarrow> socket_addr option \<Rightarrow> mobile_guard \<Rightarrow> mobile_guard \<times> http_line list" where
  "note_refused now peer local g =
     (let g = g\<lparr>unlogged := unlogged g + 1\<rparr>
      in if \<not> elapsed now (logged_at g) LOG_EVERY then (g, [])
         else
           let ip = to_canonical (sa_ip peer);
               table = (case g_table g of Some t \<Rightarrow> t | None \<Rightarrow> []);
               local = map_option canonical local;
               came = (if link_local ip then arrived_on table peer else subnet_of table ip);
               via = (case came of
                        Some i \<Rightarrow> ''interface '' @ if_name i
                      | None \<Rightarrow>
                          (case Option.bind local (\<lambda>l. find (\<lambda>i. if_ip i = sa_ip l) table) of
                             Some i \<Rightarrow> ''no local subnet, reached via '' @ if_name i
                           | None \<Rightarrow> ''no local subnet''))
           in (g\<lparr>unlogged := 0, logged_at := Some now\<rparr>, [Refused_peer (canonical peer) local via (unlogged g)]))"

definition decide_peer :: "boot_instant \<Rightarrow> socket_addr \<Rightarrow> socket_addr option \<Rightarrow> read_result option \<Rightarrow> mobile_guard \<Rightarrow>
    bool \<times> http_line list \<times> mobile_guard" where
  "decide_peer now peer local got g =
     (let (g, lines) = (case got of Some r \<Rightarrow> store_read now r g | None \<Rightarrow> (g, []))
      in if serves g peer then (True, lines, g)
         else (case note_refused now peer local g of (g, more_lines) \<Rightarrow> (False, lines @ more_lines, g)))"

text \<open>
  What an accept meets: the running read's result, if it has finished, and what a read it starts brings
  within the wait (\<open>None\<close>: it is left running).
\<close>

record accept =
  a_now :: boot_instant
  a_peer :: socket_addr
  a_local :: "socket_addr option"
  a_finished :: "read_result option"
  a_lookup :: "read_result option"

text \<open>The read an accept stores, if any.\<close>

definition take_read :: "accept \<Rightarrow> mobile_guard \<Rightarrow> read_result option \<times> mobile_guard" where
  "take_read a g =
     (if pending g
      then (case a_finished a of Some r \<Rightarrow> (Some r, g\<lparr>pending := False\<rparr>) | None \<Rightarrow> (None, g))
      else
        let (wants, g) = wants_read (a_peer a) (a_now a) g
        in if wants then (case a_lookup a of Some r \<Rightarrow> (Some r, g) | None \<Rightarrow> (None, g\<lparr>pending := True\<rparr>))
           else (None, g))"

definition admit :: "accept \<Rightarrow> mobile_guard \<Rightarrow> bool \<times> http_line list \<times> mobile_guard" where
  "admit a g =
     (if g_off g then (True, [], g)
      else case take_read a g of (got, g) \<Rightarrow> decide_peer (a_now a) (a_peer a) (a_local a) got g)"

end
