(* ===== verification/Mobile_Safety.thy ===== *)
theory Mobile_Safety
  imports Mobile_Side
begin

text \<open>
  What the guard of the accept loop promises: a table decides by the most specific subnet, in whatever
  order it lists the interfaces; and the guard decides by the last table read, and lets everybody in only
  when reads have failed ten minutes beyond it or none has ever worked.
\<close>

section \<open>The most specific subnet\<close>

lemma key_le_total: "key_le a b \<or> key_le b a"
  by (auto simp: key_le_def)

lemma key_le_trans: "key_le a b \<Longrightarrow> key_le b c \<Longrightarrow> key_le a c"
  by (auto simp: key_le_def)

lemma key_le_refl [simp]: "key_le a a"
  by (simp add: key_le_def)

lemma max_by_key_Nil [simp]: "max_by_key f [] = None"
  by (simp add: max_by_key_def)

lemma max_by_key_snoc:
  "max_by_key f (xs @ [x]) = (case max_by_key f xs of None \<Rightarrow> Some x | Some b \<Rightarrow> if key_le (f b) (f x) then Some x else Some b)"
  by (simp add: max_by_key_def)

lemma max_by_key_None [simp]: "max_by_key f xs = None \<longleftrightarrow> xs = []"
  by (induction xs rule: rev_induct) (auto simp: max_by_key_snoc split: option.split)

lemma max_by_key_SomeD: "max_by_key f xs = Some b \<Longrightarrow> b \<in> set xs \<and> (\<forall>x \<in> set xs. key_le (f x) (f b))"
proof (induction xs arbitrary: b rule: rev_induct)
  case (snoc x xs)
  show ?case
  proof (cases "max_by_key f xs")
    case None
    with snoc.prems show ?thesis by (simp add: max_by_key_snoc)
  next
    case (Some c)
    with snoc.IH [OF Some] snoc.prems key_le_total [of "f c" "f x"] show ?thesis
      by (auto simp: max_by_key_snoc intro: key_le_trans split: if_splits)
  qed
qed simp

text \<open>Two addresses agree on the leading bits of an interface's subnet.\<close>

definition in_subnet :: "if_addr \<Rightarrow> ip_addr \<Rightarrow> bool" where
  "in_subnet i ip \<longleftrightarrow>
     (case (if_ip i, ip) of
        (Ipv4 n, Ipv4 a) \<Rightarrow> drop_bit (32 - bits i) n = drop_bit (32 - bits i) a
      | (Ipv6 n, Ipv6 a) \<Rightarrow> drop_bit (128 - bits i) n = drop_bit (128 - bits i) a
      | _ \<Rightarrow> False)"

lemma masked_eq:
  fixes n a :: "'w :: len word"
  assumes "k < LENGTH('w)"
  shows "n AND keep_mask k = a AND keep_mask k \<longleftrightarrow> drop_bit k n = drop_bit k a"
proof
  assume "n AND keep_mask k = a AND keep_mask k"
  then have "drop_bit k (n AND push_bit k (- 1)) = drop_bit k (a AND push_bit k (- 1))" using assms by (simp add: keep_mask_def)
  moreover have "drop_bit k (w AND push_bit k (- 1)) = drop_bit k w" for w :: "'w word"
    by (rule bit_word_eqI) (auto simp: bit_simps dest: bit_imp_le_length)
  ultimately show "drop_bit k n = drop_bit k a" by simp
next
  assume "drop_bit k n = drop_bit k a"
  then have "push_bit k (drop_bit k n) = push_bit k (drop_bit k a)" by simp
  moreover have "push_bit k (drop_bit k w) = w AND push_bit k (- 1)" for w :: "'w word"
    by (rule bit_word_eqI) (auto simp: bit_simps)
  ultimately show "n AND keep_mask k = a AND keep_mask k" using assms by (simp add: keep_mask_def)
qed

lemma bits_bound: "0 < bits i" "if_ip i = Ipv4 n \<Longrightarrow> bits i \<le> 32" "if_ip i = Ipv6 m \<Longrightarrow> bits i \<le> 128"
  by (auto simp: bits_def Let_def split: ip_addr.split)

lemma contains_iff: "contains i ip \<longleftrightarrow> in_subnet i ip"
  using bits_bound(1) [of i] by (auto simp: contains_def in_subnet_def masked_eq split: ip_addr.split)

lemma local_subnet_iff:
  "on_local_side (subnet_of table ip) \<longleftrightarrow>
     (\<exists>i \<in> set table. in_subnet i ip \<and> \<not> mobile_side (if_name i) \<and>
       (\<forall>j \<in> set table. in_subnet j ip \<and> mobile_side (if_name j) \<longrightarrow> bits j < bits i))"
proof -
  let ?f = "\<lambda>i. (bits i, mobile_side (if_name i))"
  let ?xs = "filter (\<lambda>i. contains i ip) table"
  show ?thesis
  proof (cases "subnet_of table ip")
    case None
    then show ?thesis by (auto simp: subnet_of_def on_local_side_def filter_empty_conv contains_iff)
  next
    case (Some b)
    then have b: "b \<in> set ?xs" "\<forall>x \<in> set ?xs. key_le (?f x) (?f b)"
      using max_by_key_SomeD [of ?f ?xs b] by (simp_all add: subnet_of_def)
    have "\<not> mobile_side (if_name b) \<longleftrightarrow> (\<exists>i \<in> set table. in_subnet i ip \<and> \<not> mobile_side (if_name i) \<and>
       (\<forall>j \<in> set table. in_subnet j ip \<and> mobile_side (if_name j) \<longrightarrow> bits j < bits i))"
      using b by (fastforce simp: contains_iff key_le_def)
    with Some show ?thesis by (simp add: on_local_side_def)
  qed
qed

text \<open>
  C9: which peers a table admits, whatever the order of its interfaces: loopback, the router's own
  addresses, and a peer in the subnet of an interface of the local side that no mobile interface's subnet
  holds as specifically; a link-local peer is admitted by the interface it came in on alone.
\<close>

theorem admits_by_subnet:
  "admits table peer \<longleftrightarrow>
     (let ip = to_canonical (sa_ip peer)
      in if link_local ip
         then sa_scope peer \<noteq> 0 \<and> (\<exists>i. find (\<lambda>i. if_scope i = sa_scope peer) table = Some i \<and> \<not> mobile_side (if_name i))
         else is_loopback ip \<or> (\<exists>i \<in> set table. if_ip i = ip) \<or>
           (\<exists>i \<in> set table. in_subnet i ip \<and> \<not> mobile_side (if_name i) \<and>
             (\<forall>j \<in> set table. in_subnet j ip \<and> mobile_side (if_name j) \<longrightarrow> bits j < bits i)))"
proof (cases "link_local (to_canonical (sa_ip peer))")
  case True
  then obtain a where "sa_ip peer = Ipv6 a"
    by (cases "sa_ip peer") (auto simp: to_canonical_def link_local_def)
  with True show ?thesis
    by (auto simp: admits_def arrived_on_def on_local_side_def split: option.split)
next
  case False
  then show ?thesis
    by (auto simp: admits_def local_subnet_iff list_ex_iff Let_def not_le)
qed

definition demo_table :: "if_addr list" where
  "demo_table =
     [\<lparr>if_name = ''br-lan'', if_ip = Ipv4 0x0A000001, if_prefix = 8, if_scope = 0\<rparr>,
      \<lparr>if_name = ''rmnet_data0'', if_ip = Ipv4 0x0A2F0301, if_prefix = 30, if_scope = 0\<rparr>]"

definition demo_peer :: "u32 \<Rightarrow> socket_addr" where
  "demo_peer a = \<lparr>sa_ip = Ipv4 a, sa_port = 50000, sa_scope = 0\<rparr>"

theorem admits_by_subnet_witness:
  "admits demo_table (demo_peer 0x0A000105) \<and> \<not> admits demo_table (demo_peer 0x0A2F0302)"
  unfolding admits_by_subnet
  by (simp add: demo_table_def demo_peer_def to_canonical_def link_local_def is_loopback_def in_subnet_def bits_def
      mobile_side_def MOBILE_def Let_def)

section \<open>The guard over time\<close>

text \<open>
  A guard with what happened so far: the reads stored and when, how many connections were refused, and
  the refusal lines with their times and counts.
\<close>

record guarded =
  the_guard :: mobile_guard
  reads :: "(boot_instant \<times> read_result) list"
  refusals :: nat
  refusal_lines :: "(boot_instant \<times> nat) list"

definition counts_of :: "boot_instant \<Rightarrow> http_line list \<Rightarrow> (boot_instant \<times> nat) list" where
  "counts_of now ls = List.map_filter (\<lambda>l. case l of Refused_peer _ _ _ n \<Rightarrow> Some (now, n) | _ \<Rightarrow> None) ls"

definition guard_step :: "accept \<Rightarrow> guarded \<Rightarrow> guarded" where
  "guard_step a w =
     (case admit a (the_guard w) of (ok, ls, g) \<Rightarrow>
        w\<lparr>the_guard := g,
          reads := reads w @ (if g_off (the_guard w) then []
            else case fst (take_read a (the_guard w)) of Some r \<Rightarrow> [(a_now a, r)] | None \<Rightarrow> []),
          refusals := refusals w + (if ok then 0 else 1),
          refusal_lines := refusal_lines w @ counts_of (a_now a) ls\<rparr>)"

definition guarded_new :: "bool \<Rightarrow> bool option \<Rightarrow> guarded" where
  "guarded_new off flag = \<lparr>the_guard = guard_new off flag, reads = [], refusals = 0, refusal_lines = []\<rparr>"

definition guard_run :: "accept list \<Rightarrow> guarded \<Rightarrow> guarded" where
  "guard_run = fold guard_step"

text \<open>The last table that was read, when, and the times of the failed reads since.\<close>

definition last_good :: "(boot_instant \<times> read_result) list \<Rightarrow> (if_addr list \<times> boot_instant \<times> boot_instant list) option" where
  "last_good rs =
     foldl (\<lambda>acc (now, r).
       case r of
         Inr t \<Rightarrow> Some (t, now, [])
       | Inl _ \<Rightarrow> map_option (\<lambda>(t, at, fs). (t, at, fs @ [now])) acc) None rs"

definition given_up :: "boot_instant \<Rightarrow> boot_instant list \<Rightarrow> bool" where
  "given_up at fs \<longleftrightarrow> (\<exists>f \<in> set fs. at + KEEP \<le> f)"

definition table_by_reads :: "(boot_instant \<times> read_result) list \<Rightarrow> if_addr list option" where
  "table_by_reads rs = (case last_good rs of None \<Rightarrow> None | Some (t, at, fs) \<Rightarrow> if given_up at fs then None else Some t)"

definition last_failed :: "(boot_instant \<times> read_result) list \<Rightarrow> bool" where
  "last_failed rs \<longleftrightarrow> rs \<noteq> [] \<and> isl (snd (last rs))"

definition table_ok :: "(boot_instant \<times> read_result) list \<Rightarrow> mobile_guard \<Rightarrow> bool" where
  "table_ok rs g \<longleftrightarrow> g_table g = table_by_reads rs \<and> failing g = last_failed rs \<and>
     (last_good rs \<noteq> None \<longrightarrow> good_at g = map_option (\<lambda>(t, at, fs). at) (last_good rs)) \<and>
     g_flag g \<in> {None, Some (open_to_all g)}"

lemma no_table_iff:
  "table_by_reads rs = None \<longleftrightarrow> (case last_good rs of None \<Rightarrow> True | Some (t, at, fs) \<Rightarrow> given_up at fs)"
  by (auto simp: table_by_reads_def split: option.split)

lemma last_good_snoc:
  "last_good (rs @ [(now, Inr t)]) = Some (t, now, [])"
  "last_good (rs @ [(now, Inl e)]) = map_option (\<lambda>(t, at, fs). (t, at, fs @ [now])) (last_good rs)"
  by (simp_all add: last_good_def)

lemma keep_elapsed: "elapsed now (Some at) KEEP \<longleftrightarrow> at + KEEP \<le> now"
  by (auto simp: elapsed_def saturating_duration_since_def KEEP_def from_secs_def)

lemma store_read_ok:
  assumes "table_ok rs g"
  shows "table_ok (rs @ [(now, got)]) (fst (store_read now got g))"
proof (cases got)
  case (Inr t)
  with assms show ?thesis
    by (auto simp: store_read_def table_ok_def table_by_reads_def last_good_snoc given_up_def last_failed_def open_to_all_def Let_def)
next
  case (Inl e)
  show ?thesis
  proof (cases "last_good rs")
    case None
    with assms Inl show ?thesis
      by (auto simp: store_read_def table_ok_def table_by_reads_def last_good_snoc last_failed_def open_to_all_def Let_def)
  next
    case (Some x)
    obtain t at fs where x: "x = (t, at, fs)" by (cases x)
    have good: "good_at g = Some at" and table: "g_table g = (if given_up at fs then None else Some t)"
      using assms by (simp_all add: table_ok_def table_by_reads_def Some x)
    have "given_up at (fs @ [now]) \<longleftrightarrow> given_up at fs \<or> elapsed now (good_at g) KEEP"
      by (auto simp: given_up_def good keep_elapsed)
    with assms Inl good table show ?thesis
      by (auto simp: store_read_def table_ok_def table_by_reads_def last_good_snoc Some x last_failed_def open_to_all_def Let_def)
  qed
qed

lemma wants_read_keeps:
  "g_table (snd (wants_read peer now g)) = g_table g" "failing (snd (wants_read peer now g)) = failing g"
  "good_at (snd (wants_read peer now g)) = good_at g" "g_flag (snd (wants_read peer now g)) = g_flag g"
  "g_off (snd (wants_read peer now g)) = g_off g" "unlogged (snd (wants_read peer now g)) = unlogged g"
  "logged_at (snd (wants_read peer now g)) = logged_at g"
  by (simp_all add: wants_read_def Let_def split: option.split)

lemma take_read_keeps:
  "g_table (snd (take_read a g)) = g_table g" "failing (snd (take_read a g)) = failing g"
  "good_at (snd (take_read a g)) = good_at g" "g_flag (snd (take_read a g)) = g_flag g"
  "g_off (snd (take_read a g)) = g_off g" "unlogged (snd (take_read a g)) = unlogged g"
  "logged_at (snd (take_read a g)) = logged_at g"
  by (simp_all add: take_read_def Let_def case_prod_unfold wants_read_keeps split: option.split)

lemma store_read_keeps:
  "g_off (fst (store_read now r g)) = g_off g" "unlogged (fst (store_read now r g)) = unlogged g"
  "logged_at (fst (store_read now r g)) = logged_at g" "counts_of t (snd (store_read now r g)) = []"
  by (simp_all add: store_read_def Let_def counts_of_def List.map_filter_simps split: sum.split)

lemma note_refused_keeps:
  "g_off (fst (note_refused now peer local g)) = g_off g" "g_table (fst (note_refused now peer local g)) = g_table g"
  "failing (fst (note_refused now peer local g)) = failing g" "good_at (fst (note_refused now peer local g)) = good_at g"
  "g_flag (fst (note_refused now peer local g)) = g_flag g"
  by (simp_all add: note_refused_def Let_def)

lemma table_ok_cong:
  "g_table g' = g_table g \<Longrightarrow> failing g' = failing g \<Longrightarrow> good_at g' = good_at g \<Longrightarrow> g_flag g' = g_flag g \<Longrightarrow>
     table_ok rs g' = table_ok rs g"
  by (simp add: table_ok_def open_to_all_def)

text \<open>What an accept does to a guard that is on.\<close>

lemma admit_cases:
  assumes "\<not> g_off g"
  obtains g1 ls where "g_off g1 = g_off g" "unlogged g1 = unlogged g" "logged_at g1 = logged_at g" "counts_of (a_now a) ls = []"
    "table_ok rs g \<Longrightarrow> table_ok (rs @ (case fst (take_read a g) of Some r \<Rightarrow> [(a_now a, r)] | None \<Rightarrow> [])) g1"
    "admit a g = (if serves g1 (a_peer a) then (True, ls, g1)
       else (False, ls @ snd (note_refused (a_now a) (a_peer a) (a_local a) g1), fst (note_refused (a_now a) (a_peer a) (a_local a) g1)))"
proof -
  obtain got g0 where t: "take_read a g = (got, g0)" by force
  note keeps = take_read_keeps [of a g, unfolded t snd_conv]
  have ok0: "table_ok rs g \<Longrightarrow> table_ok rs g0" using table_ok_cong [OF keeps(1-4)] by blast
  show thesis
  proof (cases got)
    case None
    then show thesis
      using assms t keeps ok0
      by (intro that [of g0 "[]"]) (simp_all add: admit_def decide_peer_def counts_of_def List.map_filter_simps case_prod_unfold)
  next
    case (Some r)
    then show thesis
      using assms t keeps store_read_ok [OF ok0, where now = "a_now a" and got = r] store_read_keeps [where now = "a_now a" and r = r and g = g0]
      by (intro that [of "fst (store_read (a_now a) r g0)" "snd (store_read (a_now a) r g0)"])
        (simp_all add: admit_def decide_peer_def case_prod_unfold Let_def)
  qed
qed

fun spaced :: "duration \<Rightarrow> boot_instant list \<Rightarrow> bool" where
  "spaced d (s # t # ts) \<longleftrightarrow> s + d \<le> t \<and> spaced d (t # ts)"
| "spaced d _ \<longleftrightarrow> True"

lemma spaced_snoc: "spaced d (ts @ [t]) \<longleftrightarrow> spaced d ts \<and> (ts \<noteq> [] \<longrightarrow> last ts + d \<le> t)"
  by (induction ts rule: spaced.induct) auto

definition guarded_ok :: "guarded \<Rightarrow> bool" where
  "guarded_ok w \<longleftrightarrow> (\<not> g_off (the_guard w) \<longrightarrow> table_ok (reads w) (the_guard w)) \<and>
     refusals w = sum_list (map snd (refusal_lines w)) + unlogged (the_guard w) \<and>
     spaced LOG_EVERY (map fst (refusal_lines w)) \<and>
     logged_at (the_guard w) = (if refusal_lines w = [] then None else Some (fst (last (refusal_lines w)))) \<and>
     (g_off (the_guard w) \<longrightarrow> refusals w = 0)"

lemma counts_of_append: "counts_of now (ls @ ms) = counts_of now ls @ counts_of now ms"
  by (induction ls) (simp_all add: counts_of_def List.map_filter_simps split: option.split)

lemma log_elapsed: "elapsed now (Some t) LOG_EVERY \<longleftrightarrow> t + LOG_EVERY \<le> now"
  by (auto simp: elapsed_def saturating_duration_since_def LOG_EVERY_def from_secs_def)

lemma guarded_ok_step: "guarded_ok w \<Longrightarrow> guarded_ok (guard_step a w)"
proof (cases "g_off (the_guard w)")
  case True
  assume "guarded_ok w"
  moreover have "guard_step a w = w"
    using True by (simp add: guard_step_def admit_def counts_of_def List.map_filter_simps)
  ultimately show ?thesis by simp
next
  case False
  assume w: "guarded_ok w"
  let ?g = "the_guard w" and ?now = "a_now a"
  have t: "table_ok (reads w) ?g" using w False by (simp add: guarded_ok_def)
  from False obtain g1 ls where g1: "g_off g1 = g_off ?g" "unlogged g1 = unlogged ?g" "logged_at g1 = logged_at ?g" "counts_of ?now ls = []"
    "table_ok (reads w @ (case fst (take_read a ?g) of Some r \<Rightarrow> [(?now, r)] | None \<Rightarrow> [])) g1"
    "admit a ?g = (if serves g1 (a_peer a) then (True, ls, g1)
       else (False, ls @ snd (note_refused ?now (a_peer a) (a_local a) g1), fst (note_refused ?now (a_peer a) (a_local a) g1)))"
    using t by (cases rule: admit_cases [of ?g a "reads w"]) blast+
  show ?thesis
  proof (cases "serves g1 (a_peer a)")
    case True
    with w False g1 show ?thesis by (simp add: guarded_ok_def guard_step_def)
  next
    case refuse: False
    let ?n = "note_refused ?now (a_peer a) (a_local a) g1"
    note keeps = note_refused_keeps [of ?now "a_peer a" "a_local a" g1]
    have ok: "table_ok (reads w @ (case fst (take_read a ?g) of Some r \<Rightarrow> [(?now, r)] | None \<Rightarrow> [])) (fst ?n)"
      using g1(5) table_ok_cong [OF keeps(2-5)] by blast
    show ?thesis
    proof (cases "elapsed ?now (logged_at g1) LOG_EVERY")
      case True
      then have n: "logged_at (fst ?n) = Some ?now" "unlogged (fst ?n) = 0" "counts_of ?now (snd ?n) = [(?now, unlogged g1 + 1)]"
        by (simp_all add: note_refused_def Let_def counts_of_def List.map_filter_simps)
      have "refusal_lines w \<noteq> [] \<longrightarrow> last (map fst (refusal_lines w)) + LOG_EVERY \<le> ?now"
        using True w by (auto simp: guarded_ok_def g1(3) last_map log_elapsed)
      with w False g1 refuse ok n keeps(1) show ?thesis
        by (simp add: guarded_ok_def guard_step_def counts_of_append spaced_snoc)
    next
      case early: False
      then have n: "logged_at (fst ?n) = logged_at g1" "unlogged (fst ?n) = unlogged g1 + 1" "snd ?n = []"
        by (simp_all add: note_refused_def Let_def)
      with w False g1 refuse ok keeps(1) show ?thesis
        by (simp add: guarded_ok_def guard_step_def counts_of_append counts_of_def List.map_filter_simps)
    qed
  qed
qed

interpretation guard_machine: invariant_machine guard_step guarded_ok
  by unfold_locales (rule guarded_ok_step)

lemma guarded_ok_run: "flag \<in> {None, Some False} \<Longrightarrow> guarded_ok (guard_run accepts (guarded_new off flag))"
  unfolding guard_run_def
  by (rule guard_machine.inv_run)
    (auto simp: guarded_ok_def guarded_new_def guard_new_def table_ok_def table_by_reads_def last_good_def last_failed_def open_to_all_def)

text \<open>
  C8: the mobile side cannot talk its way past the guard: whatever connections come when and whatever the
  reads of the table bring, fail or hang, a connection is served exactly if no table has ever been read,
  or the last one admits its peer, or reads kept failing until ten minutes after it was read; and the
  listener's warning flag is on exactly when it serves everybody because the last read failed.
\<close>

theorem mobile_side_shut:
  assumes "flag \<in> {None, Some False}"
  shows "let w = guard_run accepts (guarded_new False flag); w' = guard_step a w in
    (fst (admit a (the_guard w)) \<longleftrightarrow>
      (case last_good (reads w') of
         None \<Rightarrow> True
       | Some (table, at, failures) \<Rightarrow> admits table (a_peer a) \<or> given_up at failures)) \<and>
    g_flag (the_guard w') \<in> {None, Some (last_failed (reads w') \<and>
      (case last_good (reads w') of None \<Rightarrow> True | Some (table, at, failures) \<Rightarrow> given_up at failures))}"
proof -
  define w where "w = guard_run accepts (guarded_new False flag)"
  have "guarded_ok w" unfolding w_def by (rule guarded_ok_run [OF assms])
  then have ok': "guarded_ok (guard_step a w)" by (rule guarded_ok_step)
  have on: "\<not> g_off (the_guard w)"
  proof -
    have "g_off (the_guard (guard_step a v)) = g_off (the_guard v)" for a v
    proof (cases "g_off (the_guard v)")
      case False
      then show ?thesis
        by (cases rule: admit_cases [of "the_guard v" a "[]"]) (simp_all add: guard_step_def note_refused_keeps)
    qed (simp add: guard_step_def admit_def)
    then have "g_off (the_guard (fold guard_step accepts v)) = g_off (the_guard v)" for v
      by (induction accepts arbitrary: v) simp_all
    then show ?thesis by (simp add: w_def guard_run_def guarded_new_def guard_new_def)
  qed
  then have t: "table_ok (reads w) (the_guard w)" using \<open>guarded_ok w\<close> by (simp add: guarded_ok_def)
  from on obtain g1 ls where g1: "g_off g1 = g_off (the_guard w)"
    "table_ok (reads w @ (case fst (take_read a (the_guard w)) of Some r \<Rightarrow> [(a_now a, r)] | None \<Rightarrow> [])) g1"
    "admit a (the_guard w) = (if serves g1 (a_peer a) then (True, ls, g1)
       else (False, ls @ snd (note_refused (a_now a) (a_peer a) (a_local a) g1), fst (note_refused (a_now a) (a_peer a) (a_local a) g1)))"
    using t by (cases rule: admit_cases [of "the_guard w" a "reads w"]) blast+
  have rs: "reads (guard_step a w) = reads w @ (case fst (take_read a (the_guard w)) of Some r \<Rightarrow> [(a_now a, r)] | None \<Rightarrow> [])"
    using on by (simp add: guard_step_def case_prod_unfold)
  note ok1 = g1(2) [folded rs]
  have "fst (admit a (the_guard w)) \<longleftrightarrow> serves g1 (a_peer a)" by (simp add: g1(3))
  also have "\<dots> \<longleftrightarrow> (case last_good (reads (guard_step a w)) of
         None \<Rightarrow> True
       | Some (table, at, failures) \<Rightarrow> admits table (a_peer a) \<or> given_up at failures)"
    using ok1 by (auto simp: table_ok_def serves_def table_by_reads_def split: option.split)
  finally have decided: "fst (admit a (the_guard w)) \<longleftrightarrow> (case last_good (reads (guard_step a w)) of
         None \<Rightarrow> True
       | Some (table, at, failures) \<Rightarrow> admits table (a_peer a) \<or> given_up at failures)" .
  have "table_ok (reads (guard_step a w)) (the_guard (guard_step a w))"
  proof -
    have "the_guard (guard_step a w) = (if serves g1 (a_peer a) then g1
        else fst (note_refused (a_now a) (a_peer a) (a_local a) g1))"
      by (simp add: guard_step_def g1(3))
    with ok1 table_ok_cong [OF note_refused_keeps(2-5)] show ?thesis by simp
  qed
  then have "g_flag (the_guard (guard_step a w)) \<in> {None, Some (last_failed (reads (guard_step a w)) \<and>
      (case last_good (reads (guard_step a w)) of None \<Rightarrow> True | Some (table, at, failures) \<Rightarrow> given_up at failures))}"
    unfolding table_ok_def open_to_all_def no_table_iff [symmetric] by auto
  with decided show ?thesis unfolding Let_def w_def [symmetric] by blast
qed

text \<open>
  Every refusal is counted in the log, and the log cannot be flooded: whatever connections come, the
  counts of the refusal lines and those still to be logged add up to the connections refused, and two
  lines are at least a minute apart.
\<close>

theorem refusals_are_logged:
  assumes "flag \<in> {None, Some False}"
  shows "let w = guard_run accepts (guarded_new off flag) in
    refusals w = sum_list (map snd (refusal_lines w)) + unlogged (the_guard w) \<and>
    spaced (from_secs 60) (map fst (refusal_lines w))"
  using guarded_ok_run [OF assms, of accepts off] by (simp add: guarded_ok_def LOG_EVERY_def Let_def)

definition demo_accept :: accept where
  "demo_accept = \<lparr>a_now = from_secs 100, a_peer = demo_peer 0x0A2F0302, a_local = None, a_finished = None,
     a_lookup = Some (Inr demo_table)\<rparr>"

lemma demo_take: "fst (take_read demo_accept (guard_new False (Some False))) = Some (Inr demo_table)"
  by (simp add: take_read_def demo_accept_def guard_new_def wants_read_def demo_peer_def to_canonical_def is_loopback_def)

lemma demo_masks:
  "(170853121 :: u32) AND NOT (mask 2) = 170853120"
  "(170853122 :: u32) AND NOT (mask 2) = 170853120"
  by (code_simp, code_simp)

lemma demo_refused: "\<not> admits demo_table (a_peer demo_accept)"
  by (simp add: admits_def demo_accept_def demo_table_def demo_peer_def to_canonical_def link_local_def is_loopback_def
      subnet_of_def max_by_key_def contains_def bits_def keep_mask_def key_le_def mobile_side_def MOBILE_def on_local_side_def Let_def demo_masks)

theorem mobile_side_shut_witness: "\<not> fst (admit demo_accept (guard_new False (Some False)))"
proof -
  have "last_good (reads (guard_step demo_accept (guarded_new False (Some False)))) = Some (demo_table, from_secs 100, [])"
    using demo_take by (simp add: guard_step_def guarded_new_def case_prod_unfold last_good_def guard_new_def demo_accept_def)
  then show ?thesis
    using mobile_side_shut [of "Some False" "[]" demo_accept] demo_refused
    by (simp add: guard_run_def Let_def given_up_def guarded_new_def)
qed

theorem refusals_are_logged_witness:
  "refusals (guard_run [demo_accept] (guarded_new False (Some False))) =
     sum_list (map snd (refusal_lines (guard_run [demo_accept] (guarded_new False (Some False))))) +
     unlogged (the_guard (guard_run [demo_accept] (guarded_new False (Some False))))"
  using refusals_are_logged [of "Some False" "[demo_accept]" False] by (simp add: Let_def)

end
