(* ===== verification/Oos_Policy.thy ===== *)
theory Oos_Policy
  imports Boot_Clock Decimal_Text "HOL-Library.Sublist"
begin

text \<open>
  The no-service power policy (\<open>zte-agent/src/oos_policy.rs\<close>): its configuration and its state machine.
  Without service it waits a grace period, then parks the modem in low power (LPM) and probes for service
  at a doubling interval. An \<open>Instant\<close> is the nanoseconds since the monotonic clock's start; the busy
  check is what the closure would answer when a step calls it. The fields of a JSON patch are absent
  (\<open>None\<close>), of the wrong type (\<open>Some None\<close>) or a value.
\<close>

definition DEFAULT_GRACE_MIN :: nat where "DEFAULT_GRACE_MIN = 10"
definition DEFAULT_PROBE_EVERY_MIN :: nat where "DEFAULT_PROBE_EVERY_MIN = 20"
definition DEFAULT_PROBE_WINDOW_MIN :: nat where "DEFAULT_PROBE_WINDOW_MIN = 3"
definition PROBE_EVERY_MAX :: duration where "PROBE_EVERY_MAX = from_secs (60 * 60)"
definition OOS_ACTIVITY_GUARD :: duration where "OOS_ACTIVITY_GUARD = from_secs 120"
definition OOS_GUARD_RETRY :: duration where "OOS_GUARD_RETRY = from_secs 60"

section \<open>Configuration\<close>

record oos_config =
  oos_enabled :: bool
  grace_min :: nat
  probe_every_min :: nat
  probe_window_min :: nat

definition oos_config_default :: oos_config where
  "oos_config_default = \<lparr>oos_enabled = False, grace_min = DEFAULT_GRACE_MIN,
     probe_every_min = DEFAULT_PROBE_EVERY_MIN, probe_window_min = DEFAULT_PROBE_WINDOW_MIN\<rparr>"

definition oos_validate :: "oos_config \<Rightarrow> string + unit" where
  "oos_validate c =
     (if \<not> (1 \<le> grace_min c \<and> grace_min c \<le> 240) then Err ''grace_min must be 1-240''
      else if \<not> (1 \<le> probe_every_min c \<and> probe_every_min c \<le> 240) then Err ''probe_every_min must be 1-240''
      else if \<not> (1 \<le> probe_window_min c \<and> probe_window_min c \<le> 30) then Err ''probe_window_min must be 1-30''
      else Ok ())"

definition oos_grace :: "oos_config \<Rightarrow> duration" where
  "oos_grace c = from_secs (grace_min c * 60)"

definition probe_window :: "oos_config \<Rightarrow> duration" where
  "probe_window c = from_secs (probe_window_min c * 60)"

definition probe_interval :: "oos_config \<Rightarrow> nat \<Rightarrow> duration" where
  "probe_interval c probes =
     (let base = from_secs (min (probe_every_min c * 60) (2 ^ 64 - 1)); cap = max PROBE_EVERY_MAX base
      in min (dur_saturating_mul base (2 ^ min probes 16)) cap)"

definition patch_field :: "'a option option \<Rightarrow> 'a \<Rightarrow> string \<Rightarrow> string + 'a" where
  "patch_field p old msg = (case p of None \<Rightarrow> Ok old | Some v \<Rightarrow> ok_or v msg)"

definition oos_patched :: "oos_config \<Rightarrow> bool option option \<Rightarrow> nat option option \<Rightarrow> nat option option \<Rightarrow> nat option option \<Rightarrow> string + oos_config" where
  "oos_patched c enabled grace every window =
     and_then (patch_field enabled (oos_enabled c) ''enabled must be a boolean'') (\<lambda>enabled.
     and_then (patch_field grace (grace_min c) ''grace_min must be an integer'') (\<lambda>grace.
     and_then (patch_field every (probe_every_min c) ''probe_every_min must be an integer'') (\<lambda>every.
     and_then (patch_field window (probe_window_min c) ''probe_window_min must be an integer'') (\<lambda>window.
       let next = \<lparr>oos_enabled = enabled, grace_min = grace, probe_every_min = every, probe_window_min = window\<rparr>
       in and_then (oos_validate next) (\<lambda>_. Ok next)))))"

text \<open>\<open>Config::load\<close> on what the file holds (\<open>None\<close>: no file, or not a configuration).\<close>

definition oos_load :: "oos_config option \<Rightarrow> oos_config" where
  "oos_load stored =
     (case stored of
        Some c \<Rightarrow> if oos_validate c = Ok () then c else oos_config_default
      | None \<Rightarrow> oos_config_default)"

text \<open>\<open>service_from_event\<close> on the payload's \<open>network_type\<close>.\<close>

definition service_from_event :: "string option \<Rightarrow> bool option" where
  "service_from_event network_type =
     (case network_type of
        None \<Rightarrow> None
      | Some nt \<Rightarrow> if nt = [] then None else Some (nt \<noteq> ''NO_SERVICE'' \<and> \<not> prefix ''LIMITED_SERVICE'' nt))"

section \<open>Inputs, actions and states\<close>

datatype oos_event = Service bool | UserMode bool | Standby_mode | Timer | Config oos_config

datatype oos_action = SetQuietKnobs | RestoreKnobs | SetLpm | GoOnline | Log string

datatype oos_state = Idle | Grace duration | Quiet nat | Probing nat

record oos_machine =
  oos_config :: oos_config
  oos_state :: oos_state
  deadline :: "duration option"
  has_service :: "bool option"
  no_service_since :: "duration option"
  knobs_quiet :: bool
  suspended :: bool
  user_activity :: "duration option"

definition oos_machine_new :: "oos_config \<Rightarrow> oos_machine" where
  "oos_machine_new c = \<lparr>oos_config = c, oos_state = Idle, deadline = None, has_service = None, no_service_since = None,
     knobs_quiet = False, suspended = False, user_activity = None\<rparr>"

section \<open>The steps\<close>

definition minutes :: "duration \<Rightarrow> string" where
  "minutes d = show_nat (dur_as_secs d div 60)"

definition start_grace :: "duration \<Rightarrow> oos_machine \<Rightarrow> oos_action list \<times> oos_machine" where
  "start_grace now m =
     ([Log (''no service; entering LPM in '' @ show_nat (grace_min (oos_config m)) @ '' min unless service returns'')],
      m\<lparr>oos_state := Grace now, deadline := Some (now + oos_grace (oos_config m))\<rparr>)"

definition stand_down :: "string \<Rightarrow> bool \<Rightarrow> oos_machine \<Rightarrow> oos_action list \<times> oos_machine" where
  "stand_down why go_online m =
     (let idle = m\<lparr>oos_state := Idle, deadline := None, knobs_quiet := False\<rparr>
      in case oos_state m of
           Idle \<Rightarrow> ([], m)
         | Grace _ \<Rightarrow> ([Log (why @ ''; grace cancelled'')], idle)
         | Quiet _ \<Rightarrow>
             (if go_online then [Log (why @ ''; leaving LPM and restoring knobs''), RestoreKnobs, GoOnline]
              else [Log (why @ ''; restoring knobs''), RestoreKnobs], idle)
         | Probing _ \<Rightarrow> ([Log (why @ ''; staying online and restoring knobs''), RestoreKnobs], idle))"

definition recover :: "string \<Rightarrow> duration \<Rightarrow> oos_machine \<Rightarrow> oos_action list \<times> oos_machine" where
  "recover why now m =
     (let probes = (case oos_state m of Quiet p \<Rightarrow> Some p | Probing p \<Rightarrow> Some p | _ \<Rightarrow> None);
          since = no_service_since m;
          (actions, m) = stand_down why True (m\<lparr>no_service_since := None\<rparr>)
      in (case (probes, since) of
            (Some p, Some s) \<Rightarrow>
              actions @ [Log (why @ '' after '' @ show_nat p @ '' probe(s), '' @ minutes (now - s) @ '' min without service'')]
          | _ \<Rightarrow> actions, m))"

definition on_service :: "bool \<Rightarrow> duration \<Rightarrow> oos_machine \<Rightarrow> oos_action list \<times> oos_machine" where
  "on_service has now m =
     (let m = m\<lparr>has_service := Some has\<rparr>
      in if has then recover ''service restored'' now (m\<lparr>suspended := False\<rparr>)
         else
           let m = m\<lparr>no_service_since := Some (case no_service_since m of Some s \<Rightarrow> s | None \<Rightarrow> now)\<rparr>
           in if oos_enabled (oos_config m) \<and> \<not> suspended m \<and> oos_state m = Idle then start_grace now m else ([], m))"

definition leave_cycle :: "oos_machine \<Rightarrow> oos_action list \<times> oos_machine" where
  "leave_cycle m =
     (case oos_state m of
        Quiet _ \<Rightarrow> stand_down ''user requested ONLINE; leaving the LPM cycle'' False m
      | Probing _ \<Rightarrow> stand_down ''user requested ONLINE; leaving the LPM cycle'' False m
      | _ \<Rightarrow> ([], m))"

definition on_user_mode :: "bool \<Rightarrow> duration \<Rightarrow> oos_machine \<Rightarrow> oos_action list \<times> oos_machine" where
  "on_user_mode online now m =
     (let m = m\<lparr>user_activity := Some now\<rparr>
      in if \<not> online
         then stand_down ''user requested LPM; policy suspended until ONLINE'' False (m\<lparr>suspended := True\<rparr>)
         else
           let (actions, m) = leave_cycle (m\<lparr>suspended := False\<rparr>)
           in if oos_enabled (oos_config m) \<and> has_service m = Some False
              then
                let m = m\<lparr>no_service_since := Some (case no_service_since m of Some s \<Rightarrow> s | None \<Rightarrow> now)\<rparr>;
                    (more, m) = start_grace now m
                in (actions @ more, m)
              else (actions, m))"

definition on_standby :: "oos_machine \<Rightarrow> oos_action list \<times> oos_machine" where
  "on_standby = stand_down ''modem is not ONLINE (airplane mode set outside the agent); standing by'' False"

definition blocked_until :: "string option \<Rightarrow> duration \<Rightarrow> oos_machine \<Rightarrow> (duration \<times> string) option" where
  "blocked_until busy now m =
     (case busy of
        Some reason \<Rightarrow> Some (now + OOS_GUARD_RETRY, reason @ '' in progress'')
      | None \<Rightarrow>
          (case user_activity m of
             Some at \<Rightarrow> if now < at + OOS_ACTIVITY_GUARD then Some (at + OOS_ACTIVITY_GUARD, ''recent user modem change'') else None
           | None \<Rightarrow> None))"

definition on_timer :: "string option \<Rightarrow> duration \<Rightarrow> oos_machine \<Rightarrow> oos_action list \<times> oos_machine" where
  "on_timer busy now m =
     (if (case deadline m of Some d \<Rightarrow> now < d | None \<Rightarrow> True) then ([], m)
      else if oos_state m = Idle then ([], m\<lparr>deadline := None\<rparr>)
      else case blocked_until busy now m of
        Some (until, reason) \<Rightarrow>
          ([Log (''action deferred '' @ show_nat (dur_as_secs (until - now)) @ '' s: '' @ reason)], m\<lparr>deadline := Some until\<rparr>)
      | None \<Rightarrow>
          (case oos_state m of
             Idle \<Rightarrow> ([], m)
           | Grace since \<Rightarrow>
               let wait = probe_interval (oos_config m) 0
               in ([Log (''no service for '' @ minutes (now - since) @
                      '' min; quieting firmware knobs and entering LPM, first probe in '' @ minutes wait @ '' min''),
                    SetQuietKnobs, SetLpm],
                   m\<lparr>oos_state := Quiet 0, knobs_quiet := True, deadline := Some (now + wait)\<rparr>)
           | Quiet probes \<Rightarrow>
               let probes = (probes + 1) mod 2 ^ 32
               in ([Log (''probe '' @ show_nat probes @ '': going ONLINE for '' @
                      show_nat (probe_window_min (oos_config m)) @ '' min''), GoOnline],
                   m\<lparr>oos_state := Probing probes, deadline := Some (now + probe_window (oos_config m))\<rparr>)
           | Probing probes \<Rightarrow>
               let wait = probe_interval (oos_config m) probes
               in ([Log (''probe '' @ show_nat probes @ '' found no service; back to LPM, next probe in '' @
                      minutes wait @ '' min''), SetLpm],
                   m\<lparr>oos_state := Quiet probes, deadline := Some (now + wait)\<rparr>)))"

definition on_config :: "oos_config \<Rightarrow> duration \<Rightarrow> oos_machine \<Rightarrow> oos_action list \<times> oos_machine" where
  "on_config c now m =
     (let was_enabled = oos_enabled (oos_config m); m = m\<lparr>oos_config := c\<rparr>
      in if \<not> oos_enabled c then
           let (actions, m) = stand_down ''policy disabled'' True m
           in (if was_enabled \<and> actions = [] then [Log ''policy disabled''] else actions, m)
         else case oos_state m of
           Grace since \<Rightarrow> ([], m\<lparr>deadline := Some (max (since + oos_grace c) now)\<rparr>)
         | Idle \<Rightarrow>
             if \<not> suspended m \<and> has_service m = Some False then
               let m = m\<lparr>no_service_since := Some (case no_service_since m of Some s \<Rightarrow> s | None \<Rightarrow> now)\<rparr>;
                   (actions, m) = start_grace now m
               in (Log ''policy enabled'' # actions, m)
             else (if was_enabled then [] else [Log ''policy enabled''], m)
         | _ \<Rightarrow> (if was_enabled then [] else [Log ''policy enabled''], m))"

fun oos_step :: "string option \<Rightarrow> oos_event \<Rightarrow> duration \<Rightarrow> oos_machine \<Rightarrow> oos_action list \<times> oos_machine" where
  "oos_step busy (Service has) now m = on_service has now m"
| "oos_step busy (UserMode online) now m = on_user_mode online now m"
| "oos_step busy Standby_mode now m = on_standby m"
| "oos_step busy Timer now m = on_timer busy now m"
| "oos_step busy (Config c) now m = on_config c now m"

end
