(* ===== verification/Oos_Executor.thy ===== *)
theory Oos_Executor
  imports Oos_Policy
begin

text \<open>
  How the no-service policy acts on the device (\<open>zte-agent/src/oos_policy.rs\<close>, \<open>Executor\<close> and the
  policy thread). The three firmware knobs, the modem's mode and the backup file are part of the host's
  state; every call of an effect and every file operation takes its outcome from the host's script, so a
  theorem over all scripts is a theorem over all ways the calls can fail. A failed \<open>write_knobs\<close> has
  written the first few knobs (it sets them one by one and then commits), a failed write of the file
  leaves it unreadable, any other failed call changes nothing. Messages on the standard error are left
  out.
\<close>

definition RESTORE_RETRY :: duration where "RESTORE_RETRY = from_secs 60"
definition RESTORE_RETRY_MAX :: duration where "RESTORE_RETRY_MAX = from_secs (60 * 60)"

record knobs =
  ps_no_srv_check_timer_cfg :: string
  abs_lpm_online_max_times_cfg :: string
  abs_restart_max_times_cfg :: string

definition quiet :: knobs where
  "quiet = \<lparr>ps_no_srv_check_timer_cfg = ''60'', abs_lpm_online_max_times_cfg = ''0'', abs_restart_max_times_cfg = ''0''\<rparr>"

section \<open>The device\<close>

datatype outcome = Works | Fails nat

record host =
  backup :: "knobs option"
  ex_knobs_quiet :: bool
  retry_at :: "duration option"
  retry_delay :: duration
  dev_knobs :: knobs
  dev_mode :: string
  dev_file :: "knobs option"
  script :: "outcome list"

definition outcome_of :: "host \<Rightarrow> outcome" where
  "outcome_of h = (case script h of [] \<Rightarrow> Works | x # _ \<Rightarrow> x)"

definition consume :: "host \<Rightarrow> host" where
  "consume h = h\<lparr>script := tl (script h)\<rparr>"

definition partly_written :: "nat \<Rightarrow> knobs \<Rightarrow> knobs \<Rightarrow> knobs" where
  "partly_written n new old =
     \<lparr>ps_no_srv_check_timer_cfg = (if 0 < n then ps_no_srv_check_timer_cfg new else ps_no_srv_check_timer_cfg old),
      abs_lpm_online_max_times_cfg = (if 1 < n then abs_lpm_online_max_times_cfg new else abs_lpm_online_max_times_cfg old),
      abs_restart_max_times_cfg = (if 2 < n then abs_restart_max_times_cfg new else abs_restart_max_times_cfg old)\<rparr>"

definition write_knobs :: "knobs \<Rightarrow> host \<Rightarrow> bool \<times> host" where
  "write_knobs k h =
     (case outcome_of h of
        Works \<Rightarrow> (True, (consume h)\<lparr>dev_knobs := k\<rparr>)
      | Fails n \<Rightarrow> (False, (consume h)\<lparr>dev_knobs := partly_written n k (dev_knobs h)\<rparr>))"

definition read_knobs :: "host \<Rightarrow> knobs option \<times> host" where
  "read_knobs h = (if outcome_of h = Works then Some (dev_knobs h) else None, consume h)"

definition operate_mode :: "host \<Rightarrow> string option \<times> host" where
  "operate_mode h = (if outcome_of h = Works then Some (dev_mode h) else None, consume h)"

definition set_mode :: "string \<Rightarrow> host \<Rightarrow> host" where
  "set_mode mode h = (if outcome_of h = Works then (consume h)\<lparr>dev_mode := mode\<rparr> else consume h)"

definition write_file :: "knobs \<Rightarrow> host \<Rightarrow> bool \<times> host" where
  "write_file k h =
     (if outcome_of h = Works then (True, (consume h)\<lparr>dev_file := Some k\<rparr>) else (False, (consume h)\<lparr>dev_file := None\<rparr>))"

definition remove_file :: "host \<Rightarrow> host" where
  "remove_file h = (if outcome_of h = Works then (consume h)\<lparr>dev_file := None\<rparr> else consume h)"

section \<open>The executor\<close>

definition executor_new :: "host \<Rightarrow> host" where
  "executor_new h =
     h\<lparr>backup := dev_file h, ex_knobs_quiet := (dev_file h \<noteq> None), retry_at := None, retry_delay := RESTORE_RETRY\<rparr>"

definition quiet_knobs :: "host \<Rightarrow> oos_event option \<times> host" where
  "quiet_knobs h =
     (case operate_mode h of (mode, h) \<Rightarrow>
        if mode \<noteq> None \<and> mode \<noteq> Some ''ONLINE'' then (Some Standby_mode, h)
        else
          (case read_knobs (h\<lparr>retry_at := None, retry_delay := RESTORE_RETRY\<rparr>) of
             (None, h) \<Rightarrow> (None, h)
           | (Some current, h) \<Rightarrow>
               let (saved, h) =
                 (if backup h = None \<and> current \<noteq> quiet
                  then (case write_file current h of
                          (True, h) \<Rightarrow> (True, h\<lparr>backup := Some current\<rparr>) | (False, h) \<Rightarrow> (False, h))
                  else (True, h))
               in if \<not> saved then (None, h)
                  else (case write_knobs quiet h of
                          (True, h) \<Rightarrow> (None, h\<lparr>ex_knobs_quiet := True\<rparr>) | (False, h) \<Rightarrow> (None, h))))"

definition restore_knobs :: "duration \<Rightarrow> host \<Rightarrow> host" where
  "restore_knobs now h =
     (case backup h of
        None \<Rightarrow> h
      | Some saved \<Rightarrow>
          (case write_knobs saved (h\<lparr>backup := None\<rparr>) of
             (True, h) \<Rightarrow> (remove_file h)\<lparr>ex_knobs_quiet := False, retry_at := None, retry_delay := RESTORE_RETRY\<rparr>
           | (False, h) \<Rightarrow>
               h\<lparr>backup := Some saved, retry_at := Some (now + retry_delay h),
                 retry_delay := min (retry_delay h * 2) RESTORE_RETRY_MAX\<rparr>))"

fun perform :: "duration \<Rightarrow> oos_action \<Rightarrow> host \<Rightarrow> oos_event option \<times> host" where
  "perform now (Log _) h = (None, h)"
| "perform now SetQuietKnobs h = quiet_knobs h"
| "perform now RestoreKnobs h = (None, restore_knobs now h)"
| "perform now SetLpm h = (None, set_mode ''LPM'' h)"
| "perform now GoOnline h = (None, set_mode ''ONLINE'' h)"

definition restore_leftover :: "duration \<Rightarrow> host \<Rightarrow> host" where
  "restore_leftover now h =
     (if backup h = None then h
      else
        (case operate_mode (restore_knobs now h) of (mode, h) \<Rightarrow>
           if mode = Some ''LPM'' \<or> mode = None then set_mode ''ONLINE'' h else h))"

definition retry_restore :: "duration \<Rightarrow> host \<Rightarrow> host" where
  "retry_restore now h =
     (if (case retry_at h of Some at \<Rightarrow> now < at | None \<Rightarrow> True) then h
      else if backup h = None then h\<lparr>retry_at := None\<rparr>
      else restore_knobs now h)"

section \<open>The policy thread\<close>

fun perform_all :: "duration \<Rightarrow> oos_action list \<Rightarrow> host \<Rightarrow> oos_event option \<times> host" where
  "perform_all now [] h = (None, h)"
| "perform_all now (a # as) h =
     (case perform now a h of (Some e, h) \<Rightarrow> (Some e, h) | (None, h) \<Rightarrow> perform_all now as h)"

text \<open>\<open>apply\<close>: at most four rounds of a step and its actions, one for each number of the range.\<close>

fun apply_rounds :: "nat list \<Rightarrow> string option \<Rightarrow> duration option \<Rightarrow> duration \<Rightarrow> oos_event \<Rightarrow> oos_machine \<times> host \<Rightarrow> oos_machine \<times> host" where
  "apply_rounds [] busy activity now e x = x"
| "apply_rounds (_ # ns) busy activity now e (m, h) =
     (let (actions, m) = oos_step busy e now (m\<lparr>user_activity := activity\<rparr>);
          (follow_up, h) = perform_all now actions h
      in case follow_up of Some e \<Rightarrow> apply_rounds ns busy activity now e (m, h) | None \<Rightarrow> (m, h))"

definition oos_apply :: "string option \<Rightarrow> duration option \<Rightarrow> duration \<Rightarrow> oos_event \<Rightarrow> oos_machine \<times> host \<Rightarrow> oos_machine \<times> host" where
  "oos_apply = apply_rounds [0, 1, 2, 3]"

text \<open>
  An iteration of \<open>run\<close>: an event, or \<open>None\<close> when the wait timed out; and the wait's end, if any.
\<close>

definition run_iteration :: "string option \<Rightarrow> duration option \<Rightarrow> duration \<Rightarrow> oos_event option \<Rightarrow> oos_machine \<times> host \<Rightarrow> oos_machine \<times> host" where
  "run_iteration busy activity now e x =
     (case x of (m, h) \<Rightarrow>
        oos_apply busy activity now (case e of Some e \<Rightarrow> e | None \<Rightarrow> Timer) (m, retry_restore now h))"

definition wait_until :: "oos_machine \<times> host \<Rightarrow> duration option" where
  "wait_until x =
     (case (deadline (fst x), retry_at (snd x)) of
        (Some a, Some b) \<Rightarrow> Some (min a b) | (Some a, None) \<Rightarrow> Some a | (None, r) \<Rightarrow> r)"

text \<open>The start of the thread: a new machine and executor, leftovers restored, the service read once.\<close>

definition run_start :: "oos_config \<Rightarrow> string option \<Rightarrow> duration option \<Rightarrow> duration \<Rightarrow> bool option \<Rightarrow> host \<Rightarrow> oos_machine \<times> host" where
  "run_start c busy activity now service h =
     (let x = (oos_machine_new c, restore_leftover now (executor_new h))
      in case service of Some has \<Rightarrow> oos_apply busy activity now (Service has) x | None \<Rightarrow> x)"

section \<open>The world\<close>

text \<open>
  What happens to the policy over time: iterations of its thread, the user's airplane switch (whose
  handler changes the modem's mode and reports it; the change and the report are one step, and of the modes the
  firmware takes there are the two the agent's own pages send), and restarts of the agent.
\<close>

datatype oos_input =
    Iterate "string option" "duration option" duration "oos_event option"
  | Airplane bool "string option" "duration option" duration
  | Restart oos_config "string option" "duration option" duration "bool option"

fun oos_world_step :: "oos_input \<Rightarrow> oos_machine \<times> host \<Rightarrow> oos_machine \<times> host" where
  "oos_world_step (Iterate busy activity now e) x = run_iteration busy activity now e x"
| "oos_world_step (Airplane online busy activity now) x =
     run_iteration busy activity now (Some (UserMode online))
       (fst x, (snd x)\<lparr>dev_mode := (if online then ''ONLINE'' else ''LPM'')\<rparr>)"
| "oos_world_step (Restart c busy activity now service) x = run_start c busy activity now service (snd x)"

definition oos_world_run :: "oos_input list \<Rightarrow> oos_machine \<times> host \<Rightarrow> oos_machine \<times> host" where
  "oos_world_run = fold oos_world_step"

end
