(* ===== verification/Oos_Safety.thy ===== *)
theory Oos_Safety
  imports Oos_Executor "HOL-Library.Code_Target_Nat"
begin

text \<open>
  What the no-service policy can never do: park a modem that has service, that is in use or that the user
  wants otherwise; lose the owner's firmware knobs, whatever calls fail and whenever the agent restarts;
  leave the modem in low power once its cycle is over (when the calls work). And what it does do when
  nobody's knobs differ from the quiet ones and the agent restarts during a cycle.
\<close>

section \<open>The machine's invariant\<close>

definition oos_inv :: "oos_machine \<Rightarrow> bool" where
  "oos_inv m \<longleftrightarrow>
     (oos_state m \<noteq> Idle \<longrightarrow> oos_enabled (oos_config m) \<and> \<not> suspended m \<and> has_service m = Some False) \<and>
     (deadline m = None \<longleftrightarrow> oos_state m = Idle) \<and>
     (\<forall>since. oos_state m = Grace since \<longrightarrow> (\<exists>d. deadline m = Some d \<and> since + oos_grace (oos_config m) \<le> d))"

lemma oos_inv_new: "oos_inv (oos_machine_new c)"
  by (simp add: oos_inv_def oos_machine_new_def)

lemma oos_inv_activity [simp]: "oos_inv (m\<lparr>user_activity := a\<rparr>) = oos_inv m"
  by (simp add: oos_inv_def)

lemma oos_inv_stand_down: "oos_inv m \<Longrightarrow> oos_inv (snd (stand_down why b m)) \<and> oos_state (snd (stand_down why b m)) = Idle"
  by (cases "oos_state m") (simp_all add: stand_down_def oos_inv_def Let_def)

lemma stand_down_keeps [simp]:
  "oos_config (snd (stand_down why b m)) = oos_config m" "suspended (snd (stand_down why b m)) = suspended m"
  "has_service (snd (stand_down why b m)) = has_service m" "no_service_since (snd (stand_down why b m)) = no_service_since m"
  by (simp_all add: stand_down_def Let_def split: oos_state.split)

lemma stand_down_idle [simp]: "oos_state (snd (stand_down why b m)) = Idle"
  by (simp add: stand_down_def Let_def split: oos_state.split)

text \<open>Standing down makes any machine whose deadline fits its state fit the invariant.\<close>

lemma oos_inv_down:
  "(deadline m = None \<longleftrightarrow> oos_state m = Idle) \<Longrightarrow> oos_inv (snd (stand_down why b m))"
  by (cases "oos_state m") (simp_all add: stand_down_def oos_inv_def Let_def)

lemma oos_inv_grace:
  "oos_enabled (oos_config m) \<Longrightarrow> \<not> suspended m \<Longrightarrow> has_service m = Some False \<Longrightarrow> oos_inv (snd (start_grace now m))"
  by (simp add: start_grace_def oos_inv_def)

lemma oos_inv_deadline: "oos_inv m \<Longrightarrow> deadline m = None \<longleftrightarrow> oos_state m = Idle"
  by (simp add: oos_inv_def)

lemma oos_inv_service:
  assumes "oos_inv m"
  shows "oos_inv (snd (on_service has now m))"
proof (cases has)
  case True
  then show ?thesis
    using oos_inv_deadline [OF assms]
    by (simp add: on_service_def recover_def Let_def case_prod_unfold oos_inv_down)
next
  case False
  with assms show ?thesis
    by (auto simp: on_service_def Let_def intro: oos_inv_grace) (auto simp: oos_inv_def)
qed

lemma oos_inv_user:
  assumes "oos_inv m"
  shows "oos_inv (snd (on_user_mode online now m))"
proof (cases online)
  case False
  then show ?thesis using oos_inv_deadline [OF assms] by (simp add: on_user_mode_def Let_def oos_inv_down)
next
  case True
  let ?m = "m\<lparr>user_activity := Some now, suspended := False\<rparr>"
  have "oos_inv ?m" using assms by (auto simp: oos_inv_def)
  then have "oos_inv (snd (leave_cycle ?m))" "\<not> suspended (snd (leave_cycle ?m))"
    using oos_inv_stand_down [of ?m] by (auto simp: leave_cycle_def split: oos_state.split)
  with True show ?thesis
    by (auto simp: on_user_mode_def Let_def case_prod_unfold intro: oos_inv_grace)
qed

lemma oos_inv_config:
  assumes "oos_inv m"
  shows "oos_inv (snd (on_config c now m))"
proof (cases "oos_enabled c")
  case False
  then show ?thesis
    using oos_inv_deadline [OF assms] by (simp add: on_config_def Let_def case_prod_unfold oos_inv_down)
next
  case True
  with assms show ?thesis
    by (cases "oos_state m") (auto simp: on_config_def Let_def case_prod_unfold oos_inv_def start_grace_def)
qed

lemma oos_blocked_later: "blocked_until busy now m = Some (until, why) \<Longrightarrow> now \<le> until"
  by (auto simp: blocked_until_def split: option.splits if_splits)

lemma timer_cases:
  obtains (early) "on_timer busy now m = ([], m)"
  | (idle) "oos_state m = Idle" "on_timer busy now m = ([], m\<lparr>deadline := None\<rparr>)"
  | (deferred) w d until where "oos_state m \<noteq> Idle" "deadline m = Some d" "d \<le> now" "now \<le> until"
      "on_timer busy now m = ([Log w], m\<lparr>deadline := Some until\<rparr>)"
  | (park) w since d where "oos_state m = Grace since" "deadline m = Some d" "d \<le> now" "blocked_until busy now m = None"
      "on_timer busy now m = ([Log w, SetQuietKnobs, SetLpm],
         m\<lparr>oos_state := Quiet 0, knobs_quiet := True, deadline := Some (now + probe_interval (oos_config m) 0)\<rparr>)"
  | (probe) w p d where "oos_state m = Quiet p" "deadline m = Some d" "d \<le> now" "blocked_until busy now m = None"
      "on_timer busy now m = ([Log w, GoOnline],
         m\<lparr>oos_state := Probing ((p + 1) mod 2 ^ 32), deadline := Some (now + probe_window (oos_config m))\<rparr>)"
  | (unprobe) w p d where "oos_state m = Probing p" "deadline m = Some d" "d \<le> now" "blocked_until busy now m = None"
      "on_timer busy now m = ([Log w, SetLpm],
         m\<lparr>oos_state := Quiet p, deadline := Some (now + probe_interval (oos_config m) p)\<rparr>)"
proof (cases "deadline m")
  case None
  then show thesis by (intro early) (simp add: on_timer_def)
next
  case (Some d)
  show thesis
  proof (cases "now < d")
    case True
    with Some show thesis by (intro early) (simp add: on_timer_def)
  next
    case False
    then have d: "d \<le> now" by simp
    show thesis
    proof (cases "blocked_until busy now m")
      case None
      with Some d show thesis
        by (cases "oos_state m")
          (auto simp: on_timer_def Let_def intro: idle park [OF _ Some d None] probe [OF _ Some d None] unprobe [OF _ Some d None])
    next
      case (Some b)
      obtain until why where b: "b = (until, why)" by force
      show thesis
      proof (cases "oos_state m = Idle")
        case True
        with d \<open>deadline m = Some d\<close> show thesis by (intro idle) (simp_all add: on_timer_def)
      next
        case False
        then show thesis
          using d Some b oos_blocked_later [of busy now m until why] \<open>deadline m = Some d\<close>
          by (intro deferred [OF False \<open>deadline m = Some d\<close> d]) (simp_all add: on_timer_def)
      qed
    qed
  qed
qed

lemma oos_inv_timer:
  assumes "oos_inv m"
  shows "oos_inv (snd (on_timer busy now m))"
  using assms by (cases rule: timer_cases [of busy now m]) (auto simp: oos_inv_def)

lemma oos_inv_step: "oos_inv m \<Longrightarrow> oos_inv (snd (oos_step busy e now m))"
  by (cases e) (simp_all add: oos_inv_service oos_inv_user oos_inv_config oos_inv_timer on_standby_def oos_inv_stand_down)

section \<open>When the modem is parked\<close>

text \<open>A run of the machine alone, on any events with any busy answers and user activity.\<close>

definition oos_machine_run :: "(string option \<times> duration option \<times> oos_event \<times> duration) list \<Rightarrow> oos_machine \<Rightarrow> oos_machine" where
  "oos_machine_run = fold (\<lambda>(busy, activity, e, now) m. snd (oos_step busy e now (m\<lparr>user_activity := activity\<rparr>)))"

lemma oos_inv_run: "oos_inv m \<Longrightarrow> oos_inv (oos_machine_run is m)"
  unfolding oos_machine_run_def
  by (intro fold_invariant [where Q = "\<lambda>_. True" and P = oos_inv]) (auto intro: oos_inv_step)

lemma stand_down_actions [simp]:
  "SetLpm \<notin> set (fst (stand_down why b m))" "SetQuietKnobs \<notin> set (fst (stand_down why b m))"
  by (simp_all add: stand_down_def Let_def split: oos_state.split)

lemma leave_cycle_actions [simp]: "SetLpm \<notin> set (fst (leave_cycle m))" "SetQuietKnobs \<notin> set (fst (leave_cycle m))"
  by (simp_all add: leave_cycle_def split: oos_state.split)

lemma start_grace_actions [simp]: "set (fst (start_grace now m)) \<subseteq> range Log"
  by (simp add: start_grace_def)

lemma parking_is_timed:
  assumes "SetLpm \<in> set (fst (oos_step busy e now m)) \<or> SetQuietKnobs \<in> set (fst (oos_step busy e now m))"
  shows "e = Timer"
  using assms
  by (cases e)
    (auto simp: on_service_def recover_def on_user_mode_def on_standby_def on_config_def start_grace_def Let_def
      case_prod_unfold split: if_splits option.splits oos_state.splits)

text \<open>
  The policy parks the modem only where it promises to: whatever happened before, a step that puts
  the modem in low power is a timer's, with the policy enabled, no service and no airplane mode asked for
  through the agent, no call, USSD session or speed test running, the user's last modem change two minutes
  old or older, and, when it begins the cycle, the grace period over.
\<close>

theorem parks_only_without_service:
  assumes "m = (oos_machine_run is (oos_machine_new c))\<lparr>user_activity := activity\<rparr>"
    and "SetLpm \<in> set (fst (oos_step busy e now m))"
  shows "e = Timer \<and> oos_enabled (oos_config m) \<and> has_service m = Some False \<and> \<not> suspended m \<and> busy = None \<and>
    (\<forall>at. activity = Some at \<longrightarrow> at + from_secs 120 \<le> now) \<and>
    (\<forall>since. oos_state m = Grace since \<longrightarrow> since + from_secs (60 * grace_min (oos_config m)) \<le> now)"
proof -
  have e: "e = Timer" using parking_is_timed assms(2) by blast
  have inv: "oos_inv m" using oos_inv_run [OF oos_inv_new] assms(1) by simp
  have "SetLpm \<in> set (fst (on_timer busy now m))" using assms(2) e by simp
  then have "oos_state m \<noteq> Idle \<and> blocked_until busy now m = None \<and> (\<exists>d. deadline m = Some d \<and> d \<le> now)"
    by (cases rule: timer_cases [of busy now m]) auto
  with inv e assms(1) show ?thesis
    by (auto simp: oos_inv_def blocked_until_def OOS_ACTIVITY_GUARD_def oos_grace_def mult.commute not_less
        split: option.splits if_splits)
qed

definition demo_config :: oos_config where
  "demo_config = \<lparr>oos_enabled = True, grace_min = 10, probe_every_min = 20, probe_window_min = 3\<rparr>"

definition demo_outage :: "(string option \<times> duration option \<times> oos_event \<times> duration) list" where
  "demo_outage = [(None, None, Service False, from_secs 5)]"

lemma demo_parks: "SetLpm \<in> set (fst (oos_step None Timer (from_secs 605)
    ((oos_machine_run demo_outage (oos_machine_new demo_config))\<lparr>user_activity := Some (from_secs 400)\<rparr>)))"
  by code_simp

theorem parks_only_without_service_witness:
  "from_secs 400 + from_secs 120 \<le> from_secs 605 \<and> oos_enabled (oos_config (oos_machine_run demo_outage (oos_machine_new demo_config)))"
  using parks_only_without_service [OF refl demo_parks] by simp

section \<open>The probe interval\<close>

text \<open>
  Probes get rarer, within bounds: under any accepted configuration the wait before the first probe is
  the configured one, every further wait is twice the one before until it reaches an hour (or the
  configured interval, if that is longer), and no wait is ever shorter than configured or longer than that
  cap.
\<close>

theorem probe_interval_doubles:
  assumes "oos_validate c = Ok ()"
  shows "probe_interval c 0 = from_secs (60 * probe_every_min c) \<and>
    from_secs (60 * probe_every_min c) \<le> probe_interval c n \<and>
    probe_interval c n \<le> max (from_secs 3600) (from_secs (60 * probe_every_min c)) \<and>
    (n < 16 \<longrightarrow> probe_interval c (n + 1) =
      min (2 * probe_interval c n) (max (from_secs 3600) (from_secs (60 * probe_every_min c)))) \<and>
    (16 \<le> n \<longrightarrow> probe_interval c n = max (from_secs 3600) (from_secs (60 * probe_every_min c)))"
proof -
  define b where "b = from_secs (60 * probe_every_min c)"
  define cap where "cap = max (from_secs 3600) b"
  have every: "1 \<le> probe_every_min c" "probe_every_min c \<le> 240"
    using assms by (auto simp: oos_validate_def split: if_splits)
  then have b: "from_secs 60 \<le> b" "b \<le> from_secs 14400" by (simp_all add: b_def from_secs_def)
  have pow: "(2 :: nat) ^ min n 16 \<le> 2 ^ 16" for n by (rule power_increasing) simp_all
  have "b * 2 ^ min n 16 \<le> from_secs 14400 * 2 ^ 16" for n by (intro mult_le_mono b pow)
  also have "from_secs 14400 * 2 ^ 16 \<le> dur_max" by (simp add: from_secs_def dur_max_def)
  finally have fits: "b * 2 ^ min n 16 \<le> dur_max" for n .
  have base: "from_secs (min (probe_every_min c * 60) (2 ^ 64 - 1)) = b"
    using every by (simp add: b_def mult.commute)
  have exact: "probe_interval c n = min (b * 2 ^ min n 16) cap" for n
    unfolding probe_interval_def Let_def base dur_saturating_mul_def min_absorb1 [OF fits]
    by (simp add: PROBE_EVERY_MAX_def cap_def)
  have cap: "b \<le> cap" "cap \<le> b * 2 ^ 16" using b by (auto simp: cap_def from_secs_def)
  have "probe_interval c 0 = b" using cap by (simp add: exact)
  moreover have "b \<le> probe_interval c n" using cap by (simp add: exact)
  moreover have "probe_interval c n \<le> cap" by (simp add: exact)
  moreover have "probe_interval c (n + 1) = min (2 * probe_interval c n) cap" if "n < 16"
    using that by (simp add: exact min_def)
  moreover have "probe_interval c n = cap" if "16 \<le> n"
    using that cap(2) by (simp add: exact min_absorb1)
  ultimately show ?thesis by (simp add: b_def cap_def)
qed

theorem probe_interval_doubles_witness:
  "probe_interval demo_config 1 = from_secs 2400 \<and> probe_interval demo_config 2 = from_secs 3600"
proof -
  have v: "oos_validate demo_config = Ok ()" by (simp add: oos_validate_def demo_config_def)
  from probe_interval_doubles [OF v, of 0] probe_interval_doubles [OF v, of 1] show ?thesis
    by (simp add: demo_config_def from_secs_def numeral_2_eq_2)
qed

end
