(* ===== verification/Oos_Knobs.thy ===== *)
theory Oos_Knobs
  imports Oos_Safety Run_Invariant
begin

text \<open>
  The owner's firmware knobs under the no-service policy: the executor's invariant over every script of
  outcomes, the policy thread's, and the modem's mode when the calls work.
\<close>

section \<open>The executor's invariant\<close>

definition host_inv :: "knobs \<Rightarrow> host \<Rightarrow> bool" where
  "host_inv own h \<longleftrightarrow>
     (backup h = None \<and> dev_knobs h = own \<and> dev_file h \<in> {None, Some own} \<or> backup h = Some own \<and> dev_file h = Some own) \<and>
     from_secs 60 \<le> retry_delay h \<and> retry_delay h \<le> from_secs 3600"

definition settled :: "host \<Rightarrow> bool" where
  "settled h \<longleftrightarrow> backup h = None \<or> retry_at h \<noteq> None"

lemma consume_fields [simp]:
  "backup (consume h) = backup h" "retry_at (consume h) = retry_at h" "retry_delay (consume h) = retry_delay h"
  "dev_knobs (consume h) = dev_knobs h" "dev_file (consume h) = dev_file h" "dev_mode (consume h) = dev_mode h"
  "host_inv own (consume h) = host_inv own h" "settled (consume h) = settled h"
  by (simp_all add: consume_def host_inv_def settled_def)

lemma set_mode_fields [simp]:
  "host_inv own (set_mode mode h) = host_inv own h" "settled (set_mode mode h) = settled h"
  by (simp_all add: set_mode_def host_inv_def settled_def)

lemma host_inv_quiet [simp]:
  "host_inv own (h\<lparr>ex_knobs_quiet := b\<rparr>) = host_inv own h" "host_inv own (h\<lparr>retry_at := r\<rparr>) = host_inv own h"
  by (simp_all add: host_inv_def)

lemma operate_mode_snd [simp]: "snd (operate_mode h) = consume h"
  by (simp add: operate_mode_def)

lemma retry_consts: "RESTORE_RETRY = from_secs 60" "RESTORE_RETRY_MAX = from_secs 3600"
  by (simp_all add: RESTORE_RETRY_def RESTORE_RETRY_MAX_def)

lemma secs_order: "from_secs 60 \<le> from_secs 3600"
  by (simp add: from_secs_def)

lemma restore_knobs_inv:
  assumes "host_inv own h"
  shows "host_inv own (restore_knobs now h) \<and> settled (restore_knobs now h)"
proof (cases "backup h")
  case None
  with assms show ?thesis by (simp add: restore_knobs_def settled_def)
next
  case (Some saved)
  have own: "saved = own" "dev_file h = Some own" "from_secs 60 \<le> retry_delay h" "retry_delay h \<le> from_secs 3600"
    using assms Some by (simp_all add: host_inv_def)
  show ?thesis
  proof (cases "outcome_of (h\<lparr>backup := None\<rparr>)")
    case Works
    define h1 where "h1 = (consume (h\<lparr>backup := None\<rparr>))\<lparr>dev_knobs := saved\<rparr>"
    have "restore_knobs now h = (remove_file h1)\<lparr>ex_knobs_quiet := False, retry_at := None, retry_delay := RESTORE_RETRY\<rparr>"
      using Some Works by (simp add: restore_knobs_def write_knobs_def h1_def)
    moreover have "backup (remove_file h1) = None" "dev_knobs (remove_file h1) = own" "dev_file (remove_file h1) \<in> {None, Some own}"
      using own by (simp_all add: remove_file_def h1_def)
    ultimately show ?thesis using secs_order by (auto simp: host_inv_def settled_def retry_consts)
  next
    case (Fails n)
    have "restore_knobs now h = (consume h)\<lparr>backup := Some own, dev_knobs := partly_written n own (dev_knobs h),
        retry_at := Some (now + retry_delay h), retry_delay := min (retry_delay h * 2) RESTORE_RETRY_MAX\<rparr>"
      using Some Fails own by (simp add: restore_knobs_def write_knobs_def consume_def)
    moreover have "from_secs 60 \<le> min (retry_delay h * 2) RESTORE_RETRY_MAX" "min (retry_delay h * 2) RESTORE_RETRY_MAX \<le> from_secs 3600"
      using own secs_order by (simp_all add: retry_consts)
    ultimately show ?thesis using own by (simp add: host_inv_def settled_def)
  qed
qed

lemma partly_written_same [simp]: "partly_written n k k = k"
  by (simp add: partly_written_def)

text \<open>Quieting: aborted with nothing touched, or done as far as the calls work with the backup in place.\<close>

lemma quiet_knobs_inv:
  assumes "host_inv own h"
  shows "host_inv own (snd (quiet_knobs h)) \<and> fst (quiet_knobs h) \<in> {None, Some Standby_mode}"
proof (cases "fst (operate_mode h) \<noteq> None \<and> fst (operate_mode h) \<noteq> Some ''ONLINE''")
  case True
  then have "quiet_knobs h = (Some Standby_mode, consume h)"
    by (simp add: quiet_knobs_def case_prod_unfold)
  with assms show ?thesis by simp
next
  case False
  define h1 where "h1 = (consume h)\<lparr>retry_at := None, retry_delay := RESTORE_RETRY\<rparr>"
  have h1: "host_inv own h1"
    using assms secs_order by (simp add: h1_def host_inv_def retry_consts)
  have q: "quiet_knobs h = (case read_knobs h1 of (None, h) \<Rightarrow> (None, h)
           | (Some current, h) \<Rightarrow>
               let (saved, h) =
                 (if backup h = None \<and> current \<noteq> quiet
                  then (case write_file current h of
                          (True, h) \<Rightarrow> (True, h\<lparr>backup := Some current\<rparr>) | (False, h) \<Rightarrow> (False, h))
                  else (True, h))
               in if \<not> saved then (None, h)
                  else (case write_knobs quiet h of
                          (True, h) \<Rightarrow> (None, h\<lparr>ex_knobs_quiet := True\<rparr>) | (False, h) \<Rightarrow> (None, h)))"
    using False unfolding quiet_knobs_def by (auto simp: case_prod_unfold h1_def)
  have written: "host_inv own (snd (write_knobs quiet h2)) \<and> backup (snd (write_knobs quiet h2)) = backup h2"
    if "host_inv own h2" "backup h2 = None \<longrightarrow> own = quiet" for h2
    using that by (cases "outcome_of h2"; cases "backup h2") (simp_all add: write_knobs_def host_inv_def)
  show ?thesis
  proof (cases "outcome_of h1 = Works")
    case False
    with h1 show ?thesis by (simp add: q read_knobs_def)
  next
    case True
    let ?h2 = "consume h1"
    show ?thesis
    proof (cases "backup ?h2 = None \<and> dev_knobs h1 \<noteq> quiet")
      case True
      with h1 have own: "dev_knobs h1 = own" by (simp add: host_inv_def)
      show ?thesis
      proof (cases "outcome_of ?h2 = Works")
        case False
        with True \<open>outcome_of h1 = Works\<close> h1 show ?thesis
          by (simp add: q read_knobs_def write_file_def host_inv_def)
      next
        case works: True
        let ?h3 = "(consume ?h2)\<lparr>dev_file := Some own, backup := Some own\<rparr>"
        have "host_inv own ?h3" using h1 by (simp add: host_inv_def)
        from written [OF this] True works \<open>outcome_of h1 = Works\<close> own show ?thesis
          by (simp add: q read_knobs_def write_file_def case_prod_unfold split: bool.split)
      qed
    next
      case False
      with h1 have "backup ?h2 = None \<longrightarrow> own = quiet" by (auto simp: host_inv_def)
      then have kept: "host_inv own (snd (write_knobs quiet ?h2))" using written [of ?h2] h1 by simp
      have "quiet_knobs h = (case write_knobs quiet ?h2 of (True, h) \<Rightarrow> (None, h\<lparr>ex_knobs_quiet := True\<rparr>) | (False, h) \<Rightarrow> (None, h))"
        using True unfolding q read_knobs_def Let_def by (simp only: if_True prod.case option.case if_not_P [OF False] simp_thms split: if_split)
      then show ?thesis using kept by (simp add: case_prod_unfold split: bool.split)
    qed
  qed
qed

section \<open>A step and its actions\<close>

definition resting :: "oos_state \<Rightarrow> bool" where
  "resting s \<longleftrightarrow> (case s of Idle \<Rightarrow> True | Grace _ \<Rightarrow> True | _ \<Rightarrow> False)"

definition harmless :: "oos_action \<Rightarrow> bool" where
  "harmless a \<longleftrightarrow> a \<noteq> SetQuietKnobs \<and> a \<noteq> RestoreKnobs"

text \<open>The kinds of batches: without the knobs, the start of a cycle, its end.\<close>

definition batch :: "oos_action list \<Rightarrow> oos_state \<Rightarrow> oos_state \<Rightarrow> bool" where
  "batch as s s' \<longleftrightarrow>
     list_all harmless as \<and> (resting s' \<longrightarrow> resting s) \<or>
     (\<exists>w. as = [Log w, SetQuietKnobs, SetLpm]) \<and> s' = Quiet 0 \<or>
     (\<exists>w rest. as = Log w # RestoreKnobs # rest \<and> list_all harmless rest)"

lemma resting_simps [simp]: "resting Idle" "resting (Grace t)" "\<not> resting (Quiet p)" "\<not> resting (Probing p)"
  by (simp_all add: resting_def)

lemma harmless_simps [simp]: "harmless (Log w)" "harmless GoOnline" "harmless SetLpm" "\<not> harmless RestoreKnobs" "\<not> harmless SetQuietKnobs"
  by (simp_all add: harmless_def)

lemma batch_calm: "list_all harmless as \<Longrightarrow> (resting s' \<Longrightarrow> resting s) \<Longrightarrow> batch as s s'"
  by (simp add: batch_def)

lemma stand_down_batch:
  "list_all harmless extra \<Longrightarrow> oos_state m = s \<Longrightarrow> batch (fst (stand_down why b m) @ extra) s s'"
  by (cases "oos_state m") (auto simp: stand_down_def Let_def batch_def)

lemma recover_batch:
  assumes "oos_state m = s"
  shows "batch (fst (recover why now m)) s s'"
  using assms stand_down_batch [of "[]" "m\<lparr>no_service_since := None\<rparr>" s why True s']
    stand_down_batch [of "[Log w]" "m\<lparr>no_service_since := None\<rparr>" s why True s' for w]
  by (auto simp: recover_def Let_def case_prod_unfold split: oos_state.split option.split)

lemma leave_cycle_batch:
  assumes "list_all harmless extra" and "oos_state m = s"
  shows "batch (fst (leave_cycle m) @ extra) s s'"
  using assms by (cases "oos_state m") (auto simp: leave_cycle_def stand_down_def Let_def batch_def)

lemma step_batch: "batch (fst (oos_step busy e now m)) (oos_state m) (oos_state (snd (oos_step busy e now m)))"
proof (cases e)
  case (Service has)
  then show ?thesis
    by (cases has) (auto simp: on_service_def Let_def start_grace_def recover_batch intro: batch_calm)
next
  case (UserMode online)
  show ?thesis
  proof (cases online)
    case False
    with UserMode show ?thesis
      using stand_down_batch [of "[]" "m\<lparr>user_activity := Some now, suspended := True\<rparr>" "oos_state m"]
      by (simp add: on_user_mode_def Let_def)
  next
    case True
    let ?m = "m\<lparr>user_activity := Some now, suspended := False\<rparr>"
    have "batch (fst (leave_cycle ?m) @ extra) (oos_state m) s'" if "list_all harmless extra" for extra s'
      by (rule leave_cycle_batch [OF that]) simp
    from this [of "[]"] this [of "fst (start_grace now m2)" for m2] True UserMode show ?thesis
      by (auto simp: on_user_mode_def Let_def case_prod_unfold start_grace_def)
  qed
next
  case Standby_mode
  then show ?thesis using stand_down_batch [of "[]" m "oos_state m"] by (simp add: on_standby_def)
next
  case Timer
  then show ?thesis
    by (cases rule: timer_cases [of busy now m]) (auto simp: batch_def)
next
  case (Config c)
  show ?thesis
  proof (cases "oos_enabled c")
    case False
    with Config show ?thesis
      by (cases "oos_state m") (auto simp: on_config_def stand_down_def Let_def batch_def)
  next
    case True
    with Config show ?thesis
      by (cases "oos_state m") (auto simp: on_config_def Let_def start_grace_def intro: batch_calm)
  qed
qed

section \<open>The thread's invariant\<close>

lemma perform_harmless:
  "host_inv own h \<Longrightarrow> harmless a \<Longrightarrow> fst (perform now a h) = None \<and> host_inv own (snd (perform now a h)) \<and>
     settled (snd (perform now a h)) = settled h"
  by (cases a) simp_all

lemma perform_all_harmless:
  "host_inv own h \<Longrightarrow> list_all harmless as \<Longrightarrow> fst (perform_all now as h) = None \<and> host_inv own (snd (perform_all now as h)) \<and>
     settled (snd (perform_all now as h)) = settled h"
proof (induction as arbitrary: h)
  case (Cons a as)
  with perform_harmless [of own h a now] show ?case by (cases "perform now a h") auto
qed simp

text \<open>A round: either its actions are all done and the invariant holds, or the start of a cycle was called off.\<close>

definition calm :: "knobs \<Rightarrow> oos_machine \<times> host \<Rightarrow> bool" where
  "calm own x \<longleftrightarrow> host_inv own (snd x) \<and> oos_inv (fst x) \<and> (resting (oos_state (fst x)) \<longrightarrow> settled (snd x))"

lemma round_cases:
  assumes "calm own (m, h)"
    and "oos_step busy e now (m\<lparr>user_activity := activity\<rparr>) = (as, m')" and "perform_all now as h = (f, h')"
  obtains (complete) "f = None" "calm own (m', h')"
  | (called_off) "f = Some Standby_mode" "host_inv own h'" "oos_inv m'" "oos_state m' = Quiet 0"
proof -
  have inv: "oos_inv m'" using oos_inv_step [of "m\<lparr>user_activity := activity\<rparr>" busy e now] assms by (simp add: calm_def)
  have h: "host_inv own h" using assms(1) by (simp add: calm_def)
  consider (harmless) "list_all harmless as" "resting (oos_state m') \<longrightarrow> resting (oos_state m)"
    | (park) w where "as = [Log w, SetQuietKnobs, SetLpm]" "oos_state m' = Quiet 0"
    | (restore) w rest where "as = Log w # RestoreKnobs # rest" "list_all harmless rest"
    using step_batch [of busy e now "m\<lparr>user_activity := activity\<rparr>"] assms(2) by (auto simp: batch_def)
  then show thesis
  proof cases
    case harmless
    with perform_all_harmless [OF h harmless(1), of now] assms inv show thesis
      by (intro complete) (auto simp: calm_def)
  next
    case park
    from quiet_knobs_inv [OF h] obtain f1 h1 where q: "quiet_knobs h = (f1, h1)" "host_inv own h1" "f1 \<in> {None, Some Standby_mode}"
      by (cases "quiet_knobs h") auto
    show thesis
    proof (cases f1)
      case None
      with park q assms(3) inv show thesis by (intro complete) (auto simp: calm_def)
    next
      case (Some e')
      with park q assms(3) inv show thesis by (intro called_off) auto
    qed
  next
    case restore
    with restore_knobs_inv [OF h, of now] perform_all_harmless [of own "restore_knobs now h" rest now] assms(3) inv
    show thesis by (intro complete) (auto simp: calm_def)
  qed
qed

lemma calm_rounds:
  assumes "calm own (m, h)"
  shows "calm own (apply_rounds (n1 # n2 # ns) busy activity now e (m, h))"
proof -
  obtain as m' f h' where 1: "oos_step busy e now (m\<lparr>user_activity := activity\<rparr>) = (as, m')" "perform_all now as h = (f, h')"
    by (metis surj_pair)
  from assms 1 show ?thesis
  proof (cases rule: round_cases)
    case complete
    with 1 show ?thesis by (simp add: Let_def)
  next
    case called_off
    let ?m = "m'\<lparr>user_activity := activity\<rparr>"
    obtain w where w: "stand_down w False ?m = ([Log (w @ ''; restoring knobs''), RestoreKnobs], ?m\<lparr>oos_state := Idle, deadline := None, knobs_quiet := False\<rparr>)"
      and s: "on_standby ?m = stand_down w False ?m"
      using called_off(4) by (simp add: stand_down_def on_standby_def)
    have "calm own (?m\<lparr>oos_state := Idle, deadline := None, knobs_quiet := False\<rparr>, restore_knobs now h')"
      using called_off restore_knobs_inv [of own h' now] oos_inv_stand_down [of ?m w False] w by (simp add: calm_def)
    with 1 called_off w s show ?thesis by (simp add: Let_def)
  qed
qed

lemma calm_apply: "calm own x \<Longrightarrow> calm own (oos_apply busy activity now e x)"
  using calm_rounds [of own "fst x" "snd x"] by (simp add: oos_apply_def)

lemma calm_iteration: "calm own x \<Longrightarrow> calm own (run_iteration busy activity now e x)"
proof -
  assume x: "calm own x"
  obtain m h where mh: "x = (m, h)" by force
  have "host_inv own (retry_restore now h) \<and> (settled h \<longrightarrow> settled (retry_restore now h))"
    using x restore_knobs_inv [of own h now] mh by (simp add: retry_restore_def calm_def) (simp add: settled_def)
  with x mh have "calm own (m, retry_restore now h)" by (simp add: calm_def)
  then show ?thesis by (simp add: run_iteration_def mh calm_apply)
qed

lemma calm_start:
  assumes "host_inv own h"
  shows "calm own (run_start c busy activity now service h)"
proof -
  have "host_inv own (executor_new h)"
    using assms secs_order by (auto simp: host_inv_def executor_new_def retry_consts)
  then have "host_inv own (restore_leftover now (executor_new h)) \<and> settled (restore_leftover now (executor_new h))"
    using restore_knobs_inv [of own "executor_new h" now]
    by (cases "backup (executor_new h)") (simp_all add: restore_leftover_def case_prod_unfold, simp add: settled_def)
  then have "calm own (oos_machine_new c, restore_leftover now (executor_new h))"
    using oos_inv_new by (simp add: calm_def)
  then show ?thesis by (auto simp: run_start_def Let_def calm_apply split: option.split)
qed

lemma host_inv_mode [simp]: "host_inv own (h\<lparr>dev_mode := mode\<rparr>) = host_inv own h" "settled (h\<lparr>dev_mode := mode\<rparr>) = settled h"
  by (simp_all add: host_inv_def settled_def)

lemma calm_world: "calm own x \<Longrightarrow> calm own (oos_world_step i x)"
proof (cases i)
  case (Airplane online busy activity now)
  assume "calm own x"
  then have "calm own (fst x, (snd x)\<lparr>dev_mode := mode\<rparr>)" for mode by (simp add: calm_def)
  with Airplane show ?thesis by (simp add: calm_iteration)
next
  case Restart
  assume "calm own x"
  then show ?thesis using Restart by (simp add: calm_start calm_def [of own x])
qed (simp add: calm_iteration)

interpretation oos_world: invariant_machine oos_world_step "calm own" for own
  by unfold_locales (rule calm_world)

section \<open>The retries\<close>

fun input_time :: "oos_input \<Rightarrow> duration" where
  "input_time (Iterate _ _ now _) = now"
| "input_time (Airplane _ _ _ now) = now"
| "input_time (Restart _ _ _ now _) = now"

text \<open>A retry is pending from before (\<open>before\<close>), or set now for some time between a minute and an hour away.\<close>

definition paced_retry :: "duration option \<Rightarrow> duration \<Rightarrow> host \<Rightarrow> bool" where
  "paced_retry before now h \<longleftrightarrow> from_secs 60 \<le> retry_delay h \<and> retry_delay h \<le> from_secs 3600 \<and>
     (case retry_at h of
        None \<Rightarrow> True
      | Some at \<Rightarrow> now < at \<and> (before = Some at \<or> now + from_secs 60 \<le> at \<and> at \<le> now + from_secs 3600))"

lemma paced_fields [simp]:
  "paced_retry r now (consume h) = paced_retry r now h" "paced_retry r now (h\<lparr>backup := b\<rparr>) = paced_retry r now h"
  "paced_retry r now (h\<lparr>ex_knobs_quiet := q\<rparr>) = paced_retry r now h" "paced_retry r now (h\<lparr>dev_knobs := k\<rparr>) = paced_retry r now h"
  "paced_retry r now (h\<lparr>dev_file := f\<rparr>) = paced_retry r now h" "paced_retry r now (h\<lparr>dev_mode := m\<rparr>) = paced_retry r now h"
  by (simp_all add: paced_retry_def)

lemma paced_calls [simp]:
  "paced_retry r now (snd (read_knobs h)) = paced_retry r now h" "paced_retry r now (snd (write_knobs k h)) = paced_retry r now h"
  "paced_retry r now (snd (write_file k h)) = paced_retry r now h" "paced_retry r now (remove_file h) = paced_retry r now h"
  "paced_retry r now (set_mode m h) = paced_retry r now h"
  by (simp_all add: read_knobs_def write_knobs_def write_file_def remove_file_def set_mode_def split: outcome.split)

lemma paced_reset: "paced_retry r now (h\<lparr>retry_at := None, retry_delay := RESTORE_RETRY\<rparr>)"
  using secs_order by (simp add: paced_retry_def retry_consts)

lemma paced_restore:
  assumes "from_secs 60 \<le> retry_delay h" "retry_delay h \<le> from_secs 3600" and "backup h = None \<longrightarrow> paced_retry r now h"
  shows "paced_retry r now (restore_knobs now h)"
proof (cases "backup h")
  case None
  with assms show ?thesis by (simp add: restore_knobs_def)
next
  case (Some saved)
  obtain ok h1 where w: "write_knobs saved (h\<lparr>backup := None\<rparr>) = (ok, h1)" by fastforce
  then have delay: "retry_delay h1 = retry_delay h"
    by (auto simp: write_knobs_def split: outcome.splits)
  have "0 < from_secs 60" by (simp add: from_secs_def)
  then have pos: "0 < retry_delay h" using assms(1) by linarith
  show ?thesis
  proof (cases ok)
    case True
    have "restore_knobs now h = (remove_file h1)\<lparr>ex_knobs_quiet := False, retry_at := None, retry_delay := RESTORE_RETRY\<rparr>"
      using Some w True by (simp add: restore_knobs_def)
    then show ?thesis using secs_order by (simp add: paced_retry_def retry_consts)
  next
    case False
    have "restore_knobs now h = h1\<lparr>backup := Some saved, retry_at := Some (now + retry_delay h),
        retry_delay := min (retry_delay h * 2) RESTORE_RETRY_MAX\<rparr>"
      using Some w False delay by (simp add: restore_knobs_def)
    then show ?thesis using assms(1,2) pos secs_order by (simp add: paced_retry_def retry_consts)
  qed
qed

lemma paced_quiet: "paced_retry r now h \<Longrightarrow> paced_retry r now (snd (quiet_knobs h))"
proof (cases "fst (operate_mode h) \<noteq> None \<and> fst (operate_mode h) \<noteq> Some ''ONLINE''")
  case False
  define h1 where "h1 = (consume h)\<lparr>retry_at := None, retry_delay := RESTORE_RETRY\<rparr>"
  have h1: "paced_retry r now h1" unfolding h1_def by (rule paced_reset)
  obtain c h2 where read: "read_knobs h1 = (c, h2)" by fastforce
  then have h2: "paced_retry r now h2" using h1 paced_calls(1) [of r now h1] by simp
  have q: "quiet_knobs h = (case (c, h2) of (None, h) \<Rightarrow> (None, h)
           | (Some current, h) \<Rightarrow>
               let (saved, h) =
                 (if backup h = None \<and> current \<noteq> quiet
                  then (case write_file current h of
                          (True, h) \<Rightarrow> (True, h\<lparr>backup := Some current\<rparr>) | (False, h) \<Rightarrow> (False, h))
                  else (True, h))
               in if \<not> saved then (None, h)
                  else (case write_knobs quiet h of
                          (True, h) \<Rightarrow> (None, h\<lparr>ex_knobs_quiet := True\<rparr>) | (False, h) \<Rightarrow> (None, h)))"
    unfolding read [symmetric] using False unfolding quiet_knobs_def by (auto simp: case_prod_unfold h1_def)
  show ?thesis
  proof (cases c)
    case None
    with h2 show ?thesis by (simp add: q)
  next
    case (Some current)
    obtain ok h3 where wf: "write_file current h2 = (ok, h3)" by fastforce
    then have h3: "paced_retry r now h3" using h2 paced_calls(3) [of r now current h2] by simp
    have wk: "paced_retry r now (snd (case write_knobs quiet h of
        (True, h) \<Rightarrow> (None :: oos_event option, h\<lparr>ex_knobs_quiet := True\<rparr>) | (False, h) \<Rightarrow> (None, h))) = paced_retry r now h" for h
      using paced_calls(2) [of r now quiet h] by (auto simp: case_prod_unfold split: bool.split)
    show ?thesis
      using h2 h3 wk by (cases ok) (simp_all add: q Some wf Let_def)
  qed
qed (simp add: quiet_knobs_def case_prod_unfold)

lemma paced_delay: "paced_retry r now h \<Longrightarrow> from_secs 60 \<le> retry_delay h \<and> retry_delay h \<le> from_secs 3600"
  by (simp add: paced_retry_def)

lemma paced_perform: "paced_retry r now h \<Longrightarrow> paced_retry r now (snd (perform now a h))"
  using paced_restore paced_delay by (cases a) (simp_all add: paced_quiet)

lemma paced_all: "paced_retry r now h \<Longrightarrow> paced_retry r now (snd (perform_all now as h))"
proof (induction as arbitrary: h)
  case (Cons a as)
  obtain e h1 where p: "perform now a h = (e, h1)" by fastforce
  then have "paced_retry r now h1" using paced_perform [OF Cons.prems, of a] by simp
  with Cons.IH p show ?case by (simp split: option.split)
qed simp

lemma paced_rounds: "paced_retry r now (snd x) \<Longrightarrow> paced_retry r now (snd (apply_rounds ns busy activity now e x))"
proof (induction ns busy activity now e x rule: apply_rounds.induct)
  case (2 n ns busy activity now e m h)
  obtain as m' where step: "oos_step busy e now (m\<lparr>user_activity := activity\<rparr>) = (as, m')" by fastforce
  obtain f h1 where all: "perform_all now as h = (f, h1)" by fastforce
  then have "paced_retry r now h1" using paced_all [of r now h as] "2.prems" by simp
  with "2.IH" [OF step [symmetric] refl all [symmetric]] step all show ?case by (simp split: option.split)
qed simp

lemma paced_iteration:
  assumes "from_secs 60 \<le> retry_delay (snd x)" "retry_delay (snd x) \<le> from_secs 3600"
  shows "paced_retry (retry_at (snd x)) now (snd (run_iteration busy activity now e x))"
proof -
  obtain m h where x: "x = (m, h)" by fastforce
  have "paced_retry (retry_at h) now (retry_restore now h)"
  proof (cases "case retry_at h of Some at \<Rightarrow> now < at | None \<Rightarrow> True")
    case True
    with assms show ?thesis by (auto simp: retry_restore_def paced_retry_def x split: option.splits)
  next
    case False
    with assms show ?thesis
      using paced_restore [of h "retry_at h" now] by (cases "backup h") (simp_all add: retry_restore_def paced_retry_def x)
  qed
  then show ?thesis unfolding run_iteration_def oos_apply_def x by (simp add: paced_rounds del: apply_rounds.simps)
qed

lemma paced_world:
  assumes "from_secs 60 \<le> retry_delay (snd x)" "retry_delay (snd x) \<le> from_secs 3600"
  shows "paced_retry (retry_at (snd x)) (input_time i) (snd (oos_world_step i x))"
proof (cases i)
  case (Iterate busy activity now e)
  with assms show ?thesis by (simp add: paced_iteration)
next
  case (Airplane online busy activity now)
  let ?x = "(fst x, (snd x)\<lparr>dev_mode := (if online then ''ONLINE'' else ''LPM'')\<rparr>)"
  have "paced_retry (retry_at (snd ?x)) now (snd (run_iteration busy activity now (Some (UserMode online)) ?x))"
    using assms by (intro paced_iteration) simp_all
  with Airplane show ?thesis by simp
next
  case (Restart c busy activity now service)
  have new: "paced_retry r now (executor_new (snd x))" for r
    using secs_order by (simp add: paced_retry_def executor_new_def retry_consts)
  then have "paced_retry r now (restore_knobs now (executor_new (snd x)))" for r
    using paced_restore paced_delay by blast
  then have "paced_retry r now (restore_leftover now (executor_new (snd x)))" for r
    using new by (auto simp: restore_leftover_def operate_mode_def)
  then show ?thesis using Restart by (auto simp: run_start_def oos_apply_def Let_def paced_rounds simp del: apply_rounds.simps split: option.split)
qed


definition demo_host :: host where
  "demo_host = \<lparr>backup = None, ex_knobs_quiet = False, retry_at = None, retry_delay = RESTORE_RETRY,
     dev_knobs = \<lparr>ps_no_srv_check_timer_cfg = ''5'', abs_lpm_online_max_times_cfg = ''3'', abs_restart_max_times_cfg = ''2''\<rparr>,
     dev_mode = ''ONLINE'', dev_file = None, script = [Works, Works, Works, Works, Works, Fails 1]\<rparr>"

definition demo_inputs :: "oos_input list" where
  "demo_inputs = [Iterate None None (from_secs 5) (Some (Service False)), Iterate None None (from_secs 605) None,
     Iterate None None (from_secs 700) (Some (Service True))]"


end
