(* ===== verification/Oos_Modem.thy ===== *)
theory Oos_Modem
  imports Oos_Knobs
begin

text \<open>
  The modem under the no-service policy when the calls work (an empty script): whatever is reported, the
  modem is in low power only inside the cycle or because the user wants it there. And the restart that
  breaks this promise: without a backup of the knobs the new agent does not look at the modem.
\<close>

section \<open>When the calls work\<close>

definition working :: "host \<Rightarrow> bool" where
  "working h \<longleftrightarrow> script h = [] \<and> retry_at h = None"

lemma working_outcome [simp]: "script h = [] \<Longrightarrow> outcome_of h = Works" "script h = [] \<Longrightarrow> consume h = h"
  by (simp_all add: outcome_of_def consume_def)

lemma working_restore:
  assumes "working h"
  shows "working (restore_knobs now h) \<and> dev_mode (restore_knobs now h) = dev_mode h \<and> backup (restore_knobs now h) = None"
proof (cases "backup h")
  case None
  with assms show ?thesis by (simp add: restore_knobs_def)
next
  case (Some saved)
  have "outcome_of (h\<lparr>backup := None\<rparr>) = Works" "script h = []" using assms by (simp_all add: working_def outcome_of_def)
  with Some show ?thesis
    by (simp add: restore_knobs_def write_knobs_def remove_file_def working_def outcome_of_def consume_def)
qed

lemma working_quiet:
  assumes "working h"
  shows "working (snd (quiet_knobs h)) \<and> dev_mode (snd (quiet_knobs h)) = dev_mode h \<and>
    (fst (quiet_knobs h) = (if dev_mode h = ''ONLINE'' then None else Some Standby_mode))"
  using assms
  by (simp add: quiet_knobs_def operate_mode_def read_knobs_def write_file_def write_knobs_def working_def
      outcome_of_def consume_def Let_def)

lemma working_set_mode: "working h \<Longrightarrow> working (set_mode mode h) \<and> dev_mode (set_mode mode h) = mode"
  by (simp add: set_mode_def working_def outcome_of_def consume_def)

lemma working_retry: "working h \<Longrightarrow> retry_restore now h = h"
  by (simp add: retry_restore_def working_def)

section \<open>The modem's mode\<close>

text \<open>The thread hears of the user's switch from the handler alone, and of a standby from itself.\<close>

fun honest :: "oos_input \<Rightarrow> bool" where
  "honest (Iterate _ _ _ e) \<longleftrightarrow> (case e of Some (UserMode _) \<Rightarrow> False | Some Standby_mode \<Rightarrow> False | _ \<Rightarrow> True)"
| "honest (Airplane _ _ _ _) \<longleftrightarrow> True"
| "honest (Restart _ _ _ _ _) \<longleftrightarrow> False"

fun airplane_after :: "oos_input \<Rightarrow> bool \<Rightarrow> bool" where
  "airplane_after (Airplane online _ _ _) u \<longleftrightarrow> \<not> online"
| "airplane_after _ u \<longleftrightarrow> u"

definition airplane_on :: "oos_input list \<Rightarrow> bool" where
  "airplane_on inputs = fold airplane_after inputs False"

definition parked :: "oos_machine \<Rightarrow> bool" where
  "parked m \<longleftrightarrow> (\<exists>p. oos_state m = Quiet p)"

definition mode_ok :: "bool \<Rightarrow> oos_machine \<times> host \<Rightarrow> bool" where
  "mode_ok u x \<longleftrightarrow> working (snd x) \<and> dev_mode (snd x) \<in> {''ONLINE'', ''LPM''} \<and>
     (dev_mode (snd x) = ''LPM'' \<longrightarrow> parked (fst x) \<or> u)"

text \<open>The mode after a batch that is not called off: the last mode action's, if there is one.\<close>

fun mode_after :: "oos_action list \<Rightarrow> string \<Rightarrow> string" where
  "mode_after [] mode = mode"
| "mode_after (SetLpm # as) mode = mode_after as ''LPM''"
| "mode_after (GoOnline # as) mode = mode_after as ''ONLINE''"
| "mode_after (_ # as) mode = mode_after as mode"

lemma working_batch:
  "working h \<Longrightarrow> SetQuietKnobs \<notin> set as \<Longrightarrow>
     fst (perform_all now as h) = None \<and> working (snd (perform_all now as h)) \<and>
     dev_mode (snd (perform_all now as h)) = mode_after as (dev_mode h)"
proof (induction as arbitrary: h)
  case (Cons a as)
  then show ?case
    using working_restore [of h now] working_set_mode [of h] by (cases a) auto
qed simp

text \<open>What a step that does not start a cycle does to the mode.\<close>

definition mode_step :: "bool \<Rightarrow> string \<Rightarrow> oos_action list \<Rightarrow> oos_machine \<Rightarrow> bool" where
  "mode_step u mode as m' \<longleftrightarrow> SetQuietKnobs \<notin> set as \<and> mode_after as mode \<in> {''ONLINE'', ''LPM''} \<and>
     (mode_after as mode = ''LPM'' \<longrightarrow> parked m' \<or> u)"

lemma stand_down_mode:
  "mode \<in> {''ONLINE'', ''LPM''} \<Longrightarrow> mode = ''LPM'' \<longrightarrow> parked m \<or> u \<Longrightarrow>
     mode_step u mode (fst (stand_down why True m)) m'"
  by (cases "oos_state m") (auto simp: stand_down_def Let_def mode_step_def parked_def)

lemma mode_after_append [simp]: "mode_after (as @ bs) mode = mode_after bs (mode_after as mode)"
  by (induction as mode rule: mode_after.induct) simp_all

lemma mode_after_logs: "set as \<subseteq> range Log \<Longrightarrow> mode_after as mode = mode"
  by (induction as mode rule: mode_after.induct) auto

lemma online_stays: "SetLpm \<notin> set as \<Longrightarrow> mode_after as ''ONLINE'' = ''ONLINE''"
proof (induction as)
  case (Cons a as)
  then show ?case by (cases a) auto
qed simp

lemma service_mode:
  assumes "mode \<in> {''ONLINE'', ''LPM''}" and "mode = ''LPM'' \<longrightarrow> parked m \<or> u"
  shows "mode_step u mode (fst (on_service has now m)) (snd (on_service has now m))"
proof (cases has)
  case True
  let ?m = "m\<lparr>has_service := Some True, suspended := False, no_service_since := None\<rparr>"
  have p: "parked ?m = parked m" by (simp add: parked_def)
  let ?as = "fst (stand_down ''service restored'' True ?m)"
  have st: "mode_step u mode ?as m'" for m'
    using stand_down_mode [OF assms(1), of ?m u] assms(2) by (simp add: p)
  then have "mode_step u mode (?as @ [Log w]) m'" for w m'
    by (simp add: mode_step_def)
  with st show ?thesis
    using True by (auto simp: on_service_def recover_def Let_def case_prod_unfold split: oos_state.split option.split)
next
  case False
  then show ?thesis
    using assms by (auto simp: on_service_def start_grace_def Let_def mode_step_def parked_def)
qed

lemma config_mode:
  assumes "mode \<in> {''ONLINE'', ''LPM''}" and "mode = ''LPM'' \<longrightarrow> parked m \<or> u"
  shows "mode_step u mode (fst (on_config c now m)) (snd (on_config c now m))"
proof (cases "oos_enabled c")
  case False
  let ?m = "m\<lparr>oos_config := c\<rparr>"
  have "parked ?m = parked m" by (simp add: parked_def)
  then have "mode_step u mode (fst (stand_down ''policy disabled'' True ?m)) m'" for m'
    using stand_down_mode [OF assms(1), of ?m u] assms(2) by simp
  then show ?thesis
    using False by (auto simp: on_config_def Let_def case_prod_unfold mode_step_def)
next
  case True
  with assms show ?thesis
    by (cases "oos_state m") (auto simp: on_config_def start_grace_def Let_def mode_step_def parked_def)
qed

lemma timer_mode:
  assumes "mode \<in> {''ONLINE'', ''LPM''}" and "mode = ''LPM'' \<longrightarrow> parked m \<or> u"
    and "SetQuietKnobs \<notin> set (fst (on_timer busy now m))"
  shows "mode_step u mode (fst (on_timer busy now m)) (snd (on_timer busy now m))"
  using assms by (cases rule: timer_cases [of busy now m]) (auto simp: mode_step_def parked_def)

lemma user_mode_step:
  assumes "mode = (if online then ''ONLINE'' else ''LPM'')"
  shows "mode_step (\<not> online) mode (fst (on_user_mode online now m)) (snd (on_user_mode online now m))"
proof (cases online)
  case True
  have "SetLpm \<notin> set (fst (on_user_mode True now m)) \<and> SetQuietKnobs \<notin> set (fst (on_user_mode True now m))"
    by (auto simp: on_user_mode_def start_grace_def Let_def case_prod_unfold)
  with True assms online_stays show ?thesis by (simp add: mode_step_def)
next
  case False
  with assms show ?thesis
    by (cases "oos_state m") (simp_all add: on_user_mode_def stand_down_def Let_def mode_step_def)
qed

text \<open>One round and the thread's iteration.\<close>

lemma mode_round:
  assumes "working h"
    and "mode_step u (dev_mode h) (fst (oos_step busy e now (m\<lparr>user_activity := activity\<rparr>)))
      (snd (oos_step busy e now (m\<lparr>user_activity := activity\<rparr>)))"
  shows "mode_ok u (oos_apply busy activity now e (m, h))"
proof -
  obtain as m' where s: "oos_step busy e now (m\<lparr>user_activity := activity\<rparr>) = (as, m')" by force
  with assms(2) have ms: "mode_step u (dev_mode h) as m'" by simp
  then have "fst (perform_all now as h) = None \<and> working (snd (perform_all now as h)) \<and>
      dev_mode (snd (perform_all now as h)) = mode_after as (dev_mode h)"
    by (intro working_batch [OF assms(1)]) (simp add: mode_step_def)
  with ms s show ?thesis
    by (cases "perform_all now as h") (simp add: oos_apply_def mode_ok_def mode_step_def)
qed

lemma mode_park:
  assumes ok: "mode_ok u (m, h)" and "oos_state m = Grace since"
    and step: "on_timer busy now (m\<lparr>user_activity := activity\<rparr>) = ([Log w, SetQuietKnobs, SetLpm], m')" and "oos_state m' = Quiet 0"
  shows "mode_ok u (oos_apply busy activity now Timer (m, h))"
proof -
  obtain f h1 where q: "quiet_knobs h = (f, h1)" by force
  have h: "working h" using ok by (simp add: mode_ok_def)
  have h1: "working h1" "dev_mode h1 = dev_mode h" "f = (if dev_mode h = ''ONLINE'' then None else Some Standby_mode)"
    using working_quiet [OF h] q by simp_all
  show ?thesis
  proof (cases "dev_mode h = ''ONLINE''")
    case True
    with h1 q step assms(4) working_set_mode [OF h1(1), of "''LPM''"] show ?thesis
      by (simp add: oos_apply_def Let_def mode_ok_def parked_def)
  next
    case False
    with ok assms(2) have u: "u" "dev_mode h = ''LPM''" by (auto simp: mode_ok_def parked_def)
    let ?m = "m'\<lparr>user_activity := activity\<rparr>"
    obtain w2 m2 where "on_standby ?m = ([Log w2, RestoreKnobs], m2)"
      using assms(4) by (simp add: on_standby_def stand_down_def Let_def)
    with False h1 q step working_restore [OF h1(1), of now] u show ?thesis
      by (simp add: oos_apply_def Let_def mode_ok_def)
  qed
qed

lemma mode_ok_step:
  assumes ok: "mode_ok u x" and "honest i"
  shows "mode_ok (airplane_after i u) (oos_world_step i x)"
proof -
  obtain m h where x: "x = (m, h)" by force
  have h: "working h" "dev_mode h \<in> {''ONLINE'', ''LPM''}" "dev_mode h = ''LPM'' \<longrightarrow> parked (m\<lparr>user_activity := a\<rparr>) \<or> u" for a
    using ok by (simp_all add: x mode_ok_def parked_def)
  show ?thesis
  proof (cases i)
    case (Airplane online busy activity now)
    let ?h = "h\<lparr>dev_mode := (if online then ''ONLINE'' else ''LPM'')\<rparr>"
    have "working ?h" using h(1) by (simp add: working_def)
    moreover have "mode_step (\<not> online) (dev_mode ?h) (fst (on_user_mode online now m')) (snd (on_user_mode online now m'))" for m'
      by (rule user_mode_step) simp
    ultimately have "mode_ok (\<not> online) (oos_apply busy activity now (UserMode online) (m, ?h))"
      by (intro mode_round) simp_all
    with \<open>working ?h\<close> show ?thesis by (simp add: Airplane x run_iteration_def working_retry)
  next
    case (Iterate busy activity now e)
    define e' where "e' = (case e of Some e \<Rightarrow> e | None \<Rightarrow> Timer)"
    have "mode_ok u (oos_apply busy activity now e' (m, h))"
    proof (cases e')
      case (Service has)
      then show ?thesis using mode_round [OF h(1)] service_mode [OF h(2,3)] by simp
    next
      case (Config c)
      then show ?thesis using mode_round [OF h(1)] config_mode [OF h(2,3)] by simp
    next
      case Timer
      show ?thesis
      proof (cases "SetQuietKnobs \<in> set (fst (on_timer busy now (m\<lparr>user_activity := activity\<rparr>)))")
        case False
        then show ?thesis using mode_round [OF h(1)] timer_mode [OF h(2,3)] Timer by simp
      next
        case True
        then show ?thesis
          using mode_park ok x Timer
          by (cases rule: timer_cases [of busy now "m\<lparr>user_activity := activity\<rparr>"]) auto
      qed
    qed (use assms(2) Iterate in \<open>auto simp: e'_def split: option.splits oos_event.splits\<close>)
    then show ?thesis by (simp add: Iterate x run_iteration_def working_retry [OF h(1)] flip: e'_def)
  qed (use assms(2) in simp)
qed

lemma mode_ok_run:
  "mode_ok u x \<Longrightarrow> list_all honest inputs \<Longrightarrow> mode_ok (fold airplane_after inputs u) (oos_world_run inputs x)"
  by (induction inputs arbitrary: u x) (simp_all add: oos_world_run_def mode_ok_step)

lemma mode_ok_start:
  assumes "script h = []" and "dev_file h = None" and "dev_mode h = ''ONLINE''"
  shows "mode_ok False (run_start c busy activity now service h)"
proof -
  define x where "x = (oos_machine_new c, executor_new h)"
  have x: "mode_ok False x" and r: "restore_leftover now (executor_new h) = executor_new h"
    using assms by (simp_all add: x_def mode_ok_def working_def executor_new_def restore_leftover_def)
  show ?thesis
  proof (cases service)
    case None
    with x r show ?thesis by (simp add: run_start_def x_def)
  next
    case (Some has)
    have "mode_ok False (oos_apply busy activity now (Service has) x)"
      using mode_ok_step [OF x, of "Iterate busy activity now (Some (Service has))"] working_retry [of "executor_new h" now] x
      by (simp add: x_def run_iteration_def mode_ok_def)
    with Some r show ?thesis by (simp add: run_start_def x_def)
  qed
qed

text \<open>
  C14: while the modem's calls work, the policy never costs the user the connection: whatever services,
  configurations and timeouts the thread sees, with whatever busy answers and user activity, at any time
  at which it is outside the parked state of its cycle and the user has not switched the airplane mode
  on, the modem is in ONLINE mode; and in no state is the mode anything but ONLINE or LPM.
\<close>

theorem modem_comes_back:
  assumes "script h = []" and "dev_file h = None" and "dev_mode h = ''ONLINE''" and "list_all honest inputs"
  shows "let x = oos_world_run inputs (run_start c busy activity now service h) in
    dev_mode (snd x) \<in> {''ONLINE'', ''LPM''} \<and>
    ((\<nexists>p. oos_state (fst x) = Quiet p) \<and> \<not> airplane_on inputs \<longrightarrow> dev_mode (snd x) = ''ONLINE'')"
  using mode_ok_run [OF mode_ok_start [OF assms(1-3), of c busy activity now service] assms(4)]
  by (auto simp: Let_def mode_ok_def parked_def airplane_on_def)

definition works_host :: host where
  "works_host = demo_host\<lparr>script := []\<rparr>"

lemma works_host_simps [simp]: "script works_host = []" "dev_file works_host = None" "dev_mode works_host = ''ONLINE''"
  by (simp_all add: works_host_def demo_host_def)

theorem modem_comes_back_witness:
  "dev_mode (snd (oos_world_run (take 2 demo_inputs) (run_start demo_config None None 0 None works_host))) = ''LPM'' \<and>
   dev_mode (snd (oos_world_run demo_inputs (run_start demo_config None None 0 None works_host))) = ''ONLINE''"
proof
  show "dev_mode (snd (oos_world_run (take 2 demo_inputs) (run_start demo_config None None 0 None works_host))) = ''LPM''"
    by code_simp
  have "oos_state (fst (oos_world_run demo_inputs (run_start demo_config None None 0 None works_host))) = Idle" by code_simp
  moreover have "list_all honest demo_inputs" "\<not> airplane_on demo_inputs" by code_simp+
  ultimately show "dev_mode (snd (oos_world_run demo_inputs (run_start demo_config None None 0 None works_host))) = ''ONLINE''"
    using modem_comes_back [of works_host demo_inputs demo_config None None 0 None] by (simp add: Let_def)
qed

section \<open>A restart inside the cycle\<close>

text \<open>
  A new agent's machine is at rest. Without a backup of the knobs it leaves the modem alone, and from a
  machine at rest no event brings the modem back: nothing but the user's switch does.
\<close>

fun leaves_switch :: "oos_input \<Rightarrow> bool" where
  "leaves_switch (Airplane _ _ _ _) \<longleftrightarrow> False"
| "leaves_switch _ \<longleftrightarrow> True"

definition stranded :: "oos_machine \<times> host \<Rightarrow> bool" where
  "stranded x \<longleftrightarrow> working (snd x) \<and> backup (snd x) = None \<and> dev_file (snd x) = None \<and>
     dev_mode (snd x) = ''LPM'' \<and> resting (oos_state (fst x))"

definition idle_batch :: "oos_action list \<Rightarrow> bool" where
  "idle_batch as \<longleftrightarrow> set as \<subseteq> insert RestoreKnobs (range Log)"

lemma idle_batch_simps [simp]:
  "idle_batch []" "idle_batch (Log w # as) = idle_batch as" "idle_batch (RestoreKnobs # as) = idle_batch as"
  "idle_batch (as @ bs) \<longleftrightarrow> idle_batch as \<and> idle_batch bs"
  by (auto simp: idle_batch_def)

lemma resting_cases [consumes 1]:
  assumes "resting s" obtains "s = Idle" | t where "s = Grace t"
  using assms by (cases s) auto

lemma stand_down_idle_batch: "resting (oos_state m) \<Longrightarrow> idle_batch (fst (stand_down why b m))"
  by (cases "oos_state m") (simp_all add: stand_down_def Let_def)

lemma resting_step:
  assumes "resting (oos_state m)"
  obtains (idle) "idle_batch (fst (oos_step busy e now m))" "resting (oos_state (snd (oos_step busy e now m)))"
  | (park) w m' where "oos_step busy e now m = ([Log w, SetQuietKnobs, SetLpm], m')" "oos_state m' = Quiet 0"
proof (cases e)
  case (Service has)
  have "idle_batch (fst (on_service has now m)) \<and> resting (oos_state (snd (on_service has now m)))"
    using assms by (cases rule: resting_cases) (auto simp: on_service_def recover_def start_grace_def stand_down_def Let_def)
  with Service show thesis by (intro idle) simp_all
next
  case (UserMode online)
  have "idle_batch (fst (on_user_mode online now m)) \<and> resting (oos_state (snd (on_user_mode online now m)))"
    using assms
    by (cases rule: resting_cases) (auto simp: on_user_mode_def leave_cycle_def start_grace_def stand_down_def Let_def)
  with UserMode show thesis by (intro idle) simp_all
next
  case Standby_mode
  with assms stand_down_idle_batch show thesis by (intro idle) (simp_all add: on_standby_def)
next
  case (Config c)
  have "idle_batch (fst (on_config c now m)) \<and> resting (oos_state (snd (on_config c now m)))"
    using assms by (cases rule: resting_cases) (auto simp: on_config_def start_grace_def stand_down_def Let_def)
  with Config show thesis by (intro idle) simp_all
next
  case Timer
  show thesis
    using assms Timer by (cases rule: timer_cases [of busy now m]) (auto intro: idle park)
qed

lemma idle_batch_host: "idle_batch as \<Longrightarrow> backup h = None \<Longrightarrow> perform_all now as h = (None, h)"
proof (induction as)
  case (Cons a as)
  then show ?case by (cases a) (auto simp: idle_batch_def restore_knobs_def)
qed simp

lemma stranded_apply:
  assumes "stranded (m, h)"
  shows "stranded (oos_apply busy activity now e (m, h))"
proof -
  let ?m = "m\<lparr>user_activity := activity\<rparr>"
  have "resting (oos_state ?m)" using assms by (simp add: stranded_def)
  then show ?thesis
  proof (cases rule: resting_step [of ?m busy e now])
    case idle
    with assms idle_batch_host [of "fst (oos_step busy e now ?m)" h now] show ?thesis
      by (simp add: oos_apply_def Let_def case_prod_unfold stranded_def)
  next
    case (park w m')
    obtain f h1 where q: "quiet_knobs h = (f, h1)" by force
    have "h1 = h" "f = Some Standby_mode"
      using assms q by (simp_all add: stranded_def working_def quiet_knobs_def operate_mode_def)
    moreover obtain w2 m2 where "on_standby (m'\<lparr>user_activity := activity\<rparr>) = ([Log w2, RestoreKnobs], m2)" "oos_state m2 = Idle"
      using park(2) by (simp add: on_standby_def stand_down_def Let_def)
    ultimately show ?thesis
      using assms park q by (simp add: oos_apply_def Let_def stranded_def restore_knobs_def)
  qed
qed

lemma stranded_start:
  assumes "script h = []" and "dev_file h = None" and "dev_mode h = ''LPM''"
  shows "stranded (run_start c busy activity now service h)"
proof -
  have "stranded (oos_machine_new c, executor_new h)"
    using assms by (simp add: stranded_def working_def executor_new_def oos_machine_new_def)
  then show ?thesis
    using stranded_apply assms(2)
    by (auto simp: run_start_def Let_def restore_leftover_def executor_new_def split: option.split)
qed

lemma stranded_step: "stranded x \<Longrightarrow> leaves_switch i \<Longrightarrow> stranded (oos_world_step i x)"
proof (cases i)
  case (Iterate busy activity now e)
  assume "stranded x"
  then show ?thesis
    using Iterate stranded_apply [of "fst x" "snd x"] working_retry [of "snd x" now]
    by (cases x) (simp add: run_iteration_def stranded_def)
next
  case (Restart c busy activity now service)
  assume "stranded x"
  then show ?thesis using Restart stranded_start [of "snd x"] by (simp add: stranded_def working_def)
qed simp

lemma stranded_run: "stranded x \<Longrightarrow> list_all leaves_switch inputs \<Longrightarrow> stranded (oos_world_run inputs x)"
  by (induction inputs arbitrary: x) (simp_all add: oos_world_run_def stranded_step)

text \<open>
  C39: a restart inside the cycle can strand the modem. When the cycle was entered without a backup, as it
  is when the owner's knobs already have the quiet values, the new agent finds no file and returns
  without reading the modem's mode: in low power there is no service to report, the grace period's end
  takes the low power for the user's airplane mode, and the modem stays in LPM for good, whatever the
  thread sees and however often the agent is restarted, until the user uses the switch.
\<close>

theorem restart_strands_modem:
  assumes "script h = []" and "dev_file h = None" and "dev_mode h = ''LPM''" and "list_all leaves_switch inputs"
  shows "dev_mode (snd (oos_world_run inputs (run_start c busy activity now service h))) = ''LPM''"
  using stranded_run [OF stranded_start [OF assms(1-3), of c busy activity now service] assms(4)] by (simp add: stranded_def)

text \<open>A device whose knobs already have the quiet values goes into the cycle, and the agent is restarted.\<close>

definition quiet_host :: host where
  "quiet_host = works_host\<lparr>dev_knobs := quiet\<rparr>"

definition parked_host :: host where
  "parked_host = snd (oos_world_run (take 2 demo_inputs) (run_start demo_config None None 0 None quiet_host))"

theorem restart_strands_modem_witness:
  "dev_mode quiet_host = ''ONLINE'' \<and>
   dev_mode (snd (oos_world_run demo_inputs (run_start demo_config None None 0 (Some False) parked_host))) = ''LPM''"
proof
  show "dev_mode quiet_host = ''ONLINE''" by code_simp
  have "script parked_host = [] \<and> dev_file parked_host = None \<and> dev_mode parked_host = ''LPM''" by code_simp
  moreover have "list_all leaves_switch demo_inputs" by code_simp
  ultimately show "dev_mode (snd (oos_world_run demo_inputs (run_start demo_config None None 0 (Some False) parked_host))) = ''LPM''"
    by (simp add: restart_strands_modem)
qed

end
