(* ===== verification/Request_Guard.thy ===== *)
theory Request_Guard
  imports Text_Ops
begin

text \<open>
  The header checks shared by the API and the web UI (\<open>zte-agent/src/httpd/guard.rs\<close>): the authority of a
  \<open>Host\<close> header, the names the agent answers to, and the same-origin verdicts. The IP literals are read
  as the standard library reads them (\<open>Ipv4Addr::from_str\<close>, \<open>Ipv6Addr::from_str\<close>).
\<close>

section \<open>IP literals\<close>

definition read_given :: "char \<Rightarrow> string \<Rightarrow> string option" where
  "read_given c s = (case s of x # xs \<Rightarrow> if x = c then Some xs else None | [] \<Rightarrow> None)"

definition read_octet :: "string \<Rightarrow> (nat \<times> string) option" where
  "read_octet s =
     (let ds = takeWhile is_ascii_digit s
      in if ds = [] \<or> 3 < length ds \<or> hd ds = CHR ''0'' \<and> 1 < length ds \<or> 256 \<le> parse_digits ds then None
         else Some (parse_digits ds, drop (length ds) s))"

fun read_octets :: "string \<Rightarrow> string \<Rightarrow> (nat list \<times> string) option" where
  "read_octets [] s = Some ([], s)"
| "read_octets (sep # seps) s =
     Option.bind (read_given sep s) (\<lambda>s. Option.bind (read_octet s) (\<lambda>(n, s).
       map_option (\<lambda>(ns, s). (n # ns, s)) (read_octets seps s)))"

definition read_ipv4 :: "string \<Rightarrow> (nat list \<times> string) option" where
  "read_ipv4 s =
     Option.bind (read_octet s) (\<lambda>(n, s). map_option (\<lambda>(ns, s). (n # ns, s)) (read_octets ''...'' s))"

definition parse_ipv4 :: "string \<Rightarrow> u32 option" where
  "parse_ipv4 s =
     (if 15 < length s then None
      else case read_ipv4 s of
        Some (os, []) \<Rightarrow> Some (foldl (\<lambda>v n. 256 * v + word_of_nat n) 0 os)
      | _ \<Rightarrow> None)"

definition hex_value :: "string \<Rightarrow> nat" where
  "hex_value s = foldl (\<lambda>v c. 16 * v + unat (the (to_digit16 c))) 0 s"

definition read_group :: "string \<Rightarrow> (nat \<times> string) option" where
  "read_group s =
     (let ds = takeWhile is_ascii_hexdigit s
      in if ds = [] \<or> 4 < length ds then None else Some (hex_value ds, drop (length ds) s))"

definition read_separator :: "nat \<Rightarrow> (string \<Rightarrow> 'a option) \<Rightarrow> string \<Rightarrow> 'a option" where
  "read_separator i rd s = (if 0 < i then Option.bind (read_given CHR '':'' s) rd else rd s)"

text \<open>
  The groups read at the given indices, whether the last two were an embedded IPv4 address, and the rest.
\<close>

fun read_groups :: "nat \<Rightarrow> nat list \<Rightarrow> string \<Rightarrow> nat list \<times> bool \<times> string" where
  "read_groups limit [] s = ([], False, s)"
| "read_groups limit (i # is) s =
     (case (if i < limit - 1 then read_separator i read_ipv4 s else None) of
        Some (os, s) \<Rightarrow> ([os ! 0 * 256 + os ! 1, os ! 2 * 256 + os ! 3], True, s)
      | None \<Rightarrow>
          (case read_separator i read_group s of
             None \<Rightarrow> ([], False, s)
           | Some (g, s) \<Rightarrow> (case read_groups limit is s of (gs, v4, s) \<Rightarrow> (g # gs, v4, s))))"

definition parse_ipv6 :: "string \<Rightarrow> 128 word option" where
  "parse_ipv6 s =
     (let addr = (\<lambda>gs. foldl (\<lambda>v g. 65536 * v + word_of_nat g) 0 gs)
      in case read_groups 8 [0..<8] s of (front, v4, s) \<Rightarrow>
           if length front = 8 then (if s = [] then Some (addr front) else None)
           else if v4 then None
           else case s of
             a # b # s \<Rightarrow>
               if a = CHR '':'' \<and> b = CHR '':''
               then (let limit = 8 - (length front + 1)
                     in case read_groups limit [0..<limit] s of (back, _, s) \<Rightarrow>
                          if s = [] then Some (addr (front @ replicate (8 - length front - length back) 0 @ back))
                          else None)
               else None
           | _ \<Rightarrow> None)"

section \<open>Authorities\<close>

datatype authority = V4 u32 | V6 "128 word" | Name string

definition is_ascii_control :: "char \<Rightarrow> bool" where
  "is_ascii_control c \<longleftrightarrow> c < CHR '' '' \<or> c = CHR 0x7F"

definition parse_port :: "string \<Rightarrow> nat option" where
  "parse_port p = (if p = [] \<or> 5 < length p \<or> \<not> list_all is_ascii_digit p then None else parse_uint 16 p)"

definition valid_char :: "char \<Rightarrow> bool" where
  "valid_char b \<longleftrightarrow> is_ascii_alphanumeric b \<or> b = CHR ''-'' \<or> b = CHR ''_'' \<or> b = CHR ''.''"

definition numeric_label :: "string \<Rightarrow> bool" where
  "numeric_label l \<longleftrightarrow> list_all is_ascii_digit l \<or>
     (case strip_prefix ''0x'' l of Some h \<Rightarrow> list_all is_ascii_hexdigit h | None \<Rightarrow> False)"

text \<open>The text after the address, with a port or nothing: the port, or a refusal.\<close>

definition port_after :: "string \<Rightarrow> nat option option" where
  "port_after s =
     (if s = [] then Some None
      else Option.bind (strip_prefix '':'' s) (\<lambda>p. map_option Some (parse_port p)))"

definition parse_name :: "string \<Rightarrow> authority option" where
  "parse_name host =
     (let host = to_ascii_lowercase host;
          host = (case strip_suffix ''.'' host of Some h \<Rightarrow> h | None \<Rightarrow> host)
      in case parse_ipv4 host of
           Some v4 \<Rightarrow> Some (V4 v4)
         | None \<Rightarrow>
             if host = [] \<or> \<not> list_all valid_char host \<or> list_ex (\<lambda>l. l = []) (split_char CHR ''.'' host) then None
             else if numeric_label (last (split_char CHR ''.'' host)) then None
             else Some (Name host))"

definition parse_authority :: "string \<Rightarrow> (authority \<times> nat option) option" where
  "parse_authority s =
     (if s = [] \<or> list_ex (\<lambda>b. is_ascii_whitespace b \<or> is_ascii_control b \<or> b = CHR ''@'') s then None
      else case strip_prefix ''['' s of
        Some rest \<Rightarrow>
          Option.bind (split_once CHR '']'' rest) (\<lambda>(inside, after).
          Option.bind (port_after after) (\<lambda>port.
            map_option (\<lambda>a. (V6 a, port)) (parse_ipv6 inside)))
      | None \<Rightarrow>
          Option.bind
            (case split_once CHR '':'' s of
               Some (h, p) \<Rightarrow> map_option (\<lambda>p. (h, Some p)) (parse_port p)
             | None \<Rightarrow> Some (s, None)) (\<lambda>(host, port).
          if CHR ''['' \<in> set host \<or> CHR '']'' \<in> set host then None
          else map_option (\<lambda>a. (a, port)) (parse_name host)))"

section \<open>The names answered to\<close>

record host_policy =
  extra :: "string list"
  local_name :: "string option"

definition name_of_entry :: "string \<Rightarrow> string option" where
  "name_of_entry raw = (case parse_authority raw of Some (Name n, _) \<Rightarrow> Some n | _ \<Rightarrow> None)"

definition host_policy_new :: "string list \<Rightarrow> host_policy" where
  "host_policy_new names =
     \<lparr>extra = List.map_filter name_of_entry (filter (\<lambda>n. n \<noteq> []) (map trim names)), local_name = None\<rparr>"

definition from_env_with :: "string option \<Rightarrow> string \<Rightarrow> host_policy" where
  "from_env_with var local =
     (host_policy_new (case var of Some v \<Rightarrow> split_char CHR '','' v | None \<Rightarrow> []))
       \<lparr>local_name := Some (to_ascii_lowercase local)\<rparr>"

definition allows :: "host_policy \<Rightarrow> string \<Rightarrow> bool \<Rightarrow> string list \<Rightarrow> bool" where
  "allows p host_header loopback ts_names \<longleftrightarrow>
     (case parse_authority host_header of
        None \<Rightarrow> False
      | Some (V4 _, _) \<Rightarrow> True
      | Some (V6 _, _) \<Rightarrow> True
      | Some (Name n, _) \<Rightarrow> n \<in> set (extra p) \<or> loopback \<and> (n = ''localhost'' \<or> n \<in> set ts_names))"

definition allows_via :: "host_policy \<Rightarrow> string \<Rightarrow> bool \<Rightarrow> bool \<Rightarrow> string list \<Rightarrow> bool" where
  "allows_via p host_header loopback secure ts_names \<longleftrightarrow>
     allows p host_header loopback ts_names \<or>
     secure \<and> (case parse_authority host_header of Some (Name n, _) \<Rightarrow> Some n = local_name p | _ \<Rightarrow> False)"

section \<open>Origins\<close>

record req_headers =
  host :: "string option"
  origin :: "string option"
  referer :: "string option"
  sec_fetch_site :: "string option"

datatype origin_verdict = Same | Cross | Absent

definition port_or_80 :: "nat option \<Rightarrow> nat" where
  "port_or_80 p = (case p of Some n \<Rightarrow> n | None \<Rightarrow> 80)"

definition same_as_host :: "string \<Rightarrow> string \<Rightarrow> string option \<Rightarrow> origin_verdict" where
  "same_as_host scheme auth host_header =
     (if \<not> eq_ignore_ascii_case scheme ''http'' then Cross
      else case (parse_authority auth, Option.bind host_header parse_authority) of
        (Some (a, p), Some (b, q)) \<Rightarrow> if a = b \<and> port_or_80 p = port_or_80 q then Same else Cross
      | _ \<Rightarrow> Cross)"

text \<open>\<open>split_once\<close> at \<open>://\<close>.\<close>

fun split_scheme :: "string \<Rightarrow> (string \<times> string) option" where
  "split_scheme [] = None"
| "split_scheme (c # s) =
     (case strip_prefix ''://'' (c # s) of
        Some rest \<Rightarrow> Some ([], rest)
      | None \<Rightarrow> map_option (\<lambda>(a, b). (c # a, b)) (split_scheme s))"

definition origin_verdict :: "req_headers \<Rightarrow> origin_verdict" where
  "origin_verdict h =
     (case origin h of
        None \<Rightarrow> Absent
      | Some v \<Rightarrow>
          (case split_scheme v of
             Some (scheme, auth) \<Rightarrow> same_as_host scheme auth (host h)
           | None \<Rightarrow> Cross))"

definition referer_verdict :: "req_headers \<Rightarrow> origin_verdict" where
  "referer_verdict h =
     (case referer h of
        None \<Rightarrow> Absent
      | Some v \<Rightarrow>
          (case split_scheme v of
             None \<Rightarrow> Cross
           | Some (scheme, rest) \<Rightarrow> same_as_host scheme (takeWhile (\<lambda>c. c \<notin> set ''/?#'') rest) (host h)))"

definition fetch_site_foreign :: "req_headers \<Rightarrow> bool" where
  "fetch_site_foreign h \<longleftrightarrow>
     (case sec_fetch_site h of
        None \<Rightarrow> False
      | Some v \<Rightarrow> \<not> eq_ignore_ascii_case (trim v) ''same-origin'' \<and> \<not> eq_ignore_ascii_case (trim v) ''none'')"

datatype request_method = Get | Post | Put | Delete | Other

definition api_mutation_refused :: "request_method \<Rightarrow> req_headers \<Rightarrow> bool" where
  "api_mutation_refused m h \<longleftrightarrow> m \<noteq> Get \<and> (origin_verdict h = Cross \<or> fetch_site_foreign h)"

definition ui_post_allowed :: "req_headers \<Rightarrow> bool" where
  "ui_post_allowed h \<longleftrightarrow> \<not> fetch_site_foreign h \<and>
     (case origin_verdict h of
        Same \<Rightarrow> True
      | Cross \<Rightarrow> False
      | Absent \<Rightarrow> referer_verdict h \<noteq> Cross)"

end
