(* ===== verification/Url_Text.thy ===== *)
theory Url_Text
  imports Text_Ops
begin

text \<open>
  Percent encoding, query strings and form bodies (\<open>percent_encode\<close> and \<open>query_param\<close> of
  \<open>zte-agent/src/web/session.rs\<close>, \<open>Form\<close> there, \<open>percent_decode\<close> of \<open>httpd/api.rs\<close>).
\<close>

section \<open>Definitions\<close>

definition DIGITS_UPPER :: string where
  "DIGITS_UPPER = ''0123456789ABCDEF''"

definition unreserved :: "char \<Rightarrow> bool" where
  "unreserved c \<longleftrightarrow> is_ascii_alphanumeric c \<or> c \<in> set ''-._~''"

definition encode_char :: "char \<Rightarrow> string" where
  "encode_char c =
     (if unreserved c then [c]
      else [CHR ''%'', DIGITS_UPPER ! (of_char c div 16), DIGITS_UPPER ! (of_char c mod 16)])"

definition percent_encode :: "string \<Rightarrow> string" where
  "percent_encode s = concat (map encode_char s)"

text \<open>The byte of \<open>%XX\<close> at the start of a text.\<close>

definition hex_pair :: "string \<Rightarrow> char option" where
  "hex_pair s =
     (case s of
        p # h # l # _ \<Rightarrow>
          if p = CHR ''%''
          then (case (to_digit16 h, to_digit16 l) of
                  (Some x, Some y) \<Rightarrow> Some (char_of (unat (x * 16 + y))) | _ \<Rightarrow> None)
          else None
      | _ \<Rightarrow> None)"

function decode_bytes :: "string \<Rightarrow> string" where
  "decode_bytes [] = []"
| "decode_bytes (c # s) =
     (case hex_pair (c # s) of
        Some b \<Rightarrow> b # decode_bytes (drop 2 s)
      | None \<Rightarrow> (if c = CHR ''+'' then CHR '' '' else c) # decode_bytes s)"
  by pat_completeness auto
termination by (relation "measure length") auto

definition percent_decode :: "string \<Rightarrow> string" where
  "percent_decode s = from_utf8_lossy (as_bytes (decode_bytes s))"

text \<open>\<open>split_once\<close> with the whole text and nothing as its default.\<close>

definition key_value :: "string \<Rightarrow> string \<times> string" where
  "key_value p = (case split_once CHR ''='' p of Some kv \<Rightarrow> kv | None \<Rightarrow> (p, []))"

definition query_param :: "string option \<Rightarrow> string \<Rightarrow> string option" where
  "query_param query key =
     (case query of
        None \<Rightarrow> None
      | Some q \<Rightarrow> map_option (\<lambda>p. percent_decode (snd (key_value p)))
          (find (\<lambda>p. fst (key_value p) = key) (split_char CHR ''&'' q)))"

type_synonym form = "(string \<times> string) list"

definition form_parse :: "bytes \<Rightarrow> form" where
  "form_parse body =
     map (\<lambda>p. (percent_decode (fst (key_value p)), percent_decode (snd (key_value p))))
       (filter (\<lambda>p. p \<noteq> []) (split_char CHR ''&'' (from_utf8_lossy body)))"

definition form_get :: "form \<Rightarrow> string \<Rightarrow> string option" where
  "form_get f key = map_option snd (find (\<lambda>kv. fst kv = key) f)"

section \<open>Encoding and decoding\<close>

lemma of_char_div_mod: "of_char c div 16 < (16 :: nat)" "of_char c mod 16 < (16 :: nat)"
  using nat_of_char_less_256 [of c] by (simp_all add: less_mult_imp_div_less)

lemma upper_digit:
  assumes "n < 16"
  shows "to_digit16 (DIGITS_UPPER ! n) = Some (word_of_nat n)" "DIGITS_UPPER ! n \<in> set DIGITS_UPPER"
proof -
  have "list_all (\<lambda>n. to_digit16 (DIGITS_UPPER ! n) = Some (word_of_nat n)) [0..<16]" by code_simp
  with assms show "to_digit16 (DIGITS_UPPER ! n) = Some (word_of_nat n)" by (simp add: list_all_iff)
  show "DIGITS_UPPER ! n \<in> set DIGITS_UPPER" using assms by (intro nth_mem) (simp add: DIGITS_UPPER_def)
qed

lemma hex_pair_encoded: "hex_pair (CHR ''%'' # DIGITS_UPPER ! (of_char c div 16) # DIGITS_UPPER ! (of_char c mod 16) # s) = Some c"
proof -
  have "unat (word_of_nat (of_char c div 16) * 16 + word_of_nat (of_char c mod 16) :: u32) = of_char c"
  proof -
    have "(word_of_nat (of_char c div 16) * 16 + word_of_nat (of_char c mod 16) :: u32) =
        word_of_nat (of_char c div 16 * 16 + of_char c mod 16)"
      by (simp only: of_nat_add of_nat_mult of_nat_numeral)
    also have "of_char c div 16 * 16 + of_char c mod 16 = (of_char c :: nat)" by simp
    finally have "?thesis \<longleftrightarrow> unat (word_of_nat (of_char c) :: u32) = of_char c" by simp
    moreover have "of_char c < (2 ^ 32 :: nat)" using nat_of_char_less_256 [of c] by (rule less_trans) simp
    ultimately show ?thesis by (simp add: unat_of_nat)
  qed
  then show ?thesis by (simp add: hex_pair_def upper_digit(1) [OF of_char_div_mod(1)] upper_digit(1) [OF of_char_div_mod(2)])
qed

lemma decode_encoded: "decode_bytes (encode_char c @ s) = c # decode_bytes s"
proof (cases "unreserved c")
  case True
  then have "c \<noteq> CHR ''%''" "c \<noteq> CHR ''+''"
    by (auto simp: unreserved_def is_ascii_alphanumeric_def is_ascii_digit_def less_eq_char_def)
  then have "hex_pair (c # s) = None" by (auto simp: hex_pair_def split: list.split)
  with True \<open>c \<noteq> CHR ''+''\<close> show ?thesis by (simp add: encode_char_def)
next
  case False
  then show ?thesis by (simp add: encode_char_def hex_pair_encoded)
qed

lemma percent_encode_simps [simp]: "percent_encode [] = []" "percent_encode (c # s) = encode_char c @ percent_encode s"
  by (simp_all add: percent_encode_def)

lemma decode_encode: "decode_bytes (percent_encode s) = s"
  by (induction s) (simp_all add: decode_encoded)

text \<open>A Rust string is valid UTF-8.\<close>

definition valid_text :: "string \<Rightarrow> bool" where
  "valid_text s \<longleftrightarrow> from_utf8_ok (as_bytes s)"

lemma percent_roundtrip: "valid_text s \<Longrightarrow> percent_decode (percent_encode s) = s"
  by (simp add: percent_decode_def decode_encode valid_text_def from_utf8_lossy_def utf8_lossy_id)

lemma set_percent_encode: "set (percent_encode s) \<subseteq> insert CHR ''%'' (Collect unreserved)"
proof (induction s)
  case (Cons c s)
  have "set DIGITS_UPPER \<subseteq> Collect unreserved" by code_simp
  with upper_digit(2) [OF of_char_div_mod(1), of c] upper_digit(2) [OF of_char_div_mod(2), of c] Cons show ?case
    by (auto simp: encode_char_def)
qed simp

lemma percent_encode_plain:
  "CHR ''&'' \<notin> set (percent_encode s)" "CHR ''='' \<notin> set (percent_encode s)" "CHR ''?'' \<notin> set (percent_encode s)"
proof -
  have "\<not> unreserved CHR ''&''" "\<not> unreserved CHR ''=''" "\<not> unreserved CHR ''?''" by code_simp+
  then show "CHR ''&'' \<notin> set (percent_encode s)" "CHR ''='' \<notin> set (percent_encode s)" "CHR ''?'' \<notin> set (percent_encode s)"
    using set_percent_encode [of s] by auto
qed

lemma ascii_alphanumeric: "is_ascii_alphanumeric c \<Longrightarrow> byte_of c < 0x80"
  by (cases c) (auto simp: is_ascii_alphanumeric_def is_ascii_digit_def less_eq_char_def byte_of_def)

lemma ascii_text: "\<forall>c \<in> set s. byte_of c < 0x80 \<Longrightarrow> from_utf8_lossy (as_bytes s) = s"
proof -
  assume "\<forall>c \<in> set s. byte_of c < 0x80"
  then have "from_utf8_ok (as_bytes s)" by (intro from_utf8_ok_ascii) (simp add: as_bytes_def)
  then show ?thesis by (simp add: from_utf8_lossy_def utf8_lossy_id)
qed

lemma percent_encode_ascii: "c \<in> set (percent_encode s) \<Longrightarrow> byte_of c < 0x80"
proof -
  assume c: "c \<in> set (percent_encode s)"
  have "\<forall>c \<in> set ''%-._~''. byte_of c < 0x80" by code_simp
  moreover have "c = CHR ''%'' \<or> is_ascii_alphanumeric c \<or> c \<in> set ''-._~''"
    using c set_percent_encode [of s] by (auto simp: unreserved_def)
  ultimately show ?thesis using ascii_alphanumeric [of c] by auto
qed

section \<open>Forms\<close>

text \<open>The body a browser sends for a form (with \<open>%20\<close> for a space, which \<open>Form\<close> reads as well as \<open>+\<close>).\<close>

definition form_pair :: "string \<times> string \<Rightarrow> string" where
  "form_pair kv = percent_encode (fst kv) @ CHR ''='' # percent_encode (snd kv)"

definition form_encode :: "form \<Rightarrow> string" where
  "form_encode f = join [CHR ''&''] (map form_pair f)"

lemma key_value_pair: "key_value (form_pair kv) = (percent_encode (fst kv), percent_encode (snd kv))"
  by (simp add: key_value_def form_pair_def split_once_append percent_encode_plain)

lemma form_pair_plain: "CHR ''&'' \<notin> set (form_pair kv)" "form_pair kv \<noteq> []"
  by (auto simp: form_pair_def percent_encode_plain)

lemma split_form: "f \<noteq> [] \<Longrightarrow> split_char CHR ''&'' (form_encode f) = map form_pair f"
  unfolding form_encode_def by (intro split_char_join) (auto simp: form_pair_plain)

lemma form_encode_ascii: "from_utf8_lossy (as_bytes (form_encode f)) = form_encode f"
proof (intro ascii_text ballI)
  fix c
  have "byte_of CHR ''='' < 0x80" "byte_of CHR ''&'' < 0x80" by code_simp+
  moreover assume "c \<in> set (form_encode f)"
  then have "c = CHR ''&'' \<or> (\<exists>kv. c \<in> set (form_pair kv))"
    using set_join [of "[CHR ''&'']" "map form_pair f"] by (auto simp: form_encode_def)
  ultimately show "byte_of c < 0x80" using percent_encode_ascii by (auto simp: form_pair_def)
qed

text \<open>
  Forms are read as they were posted: whatever text the fields hold (any UTF-8, with \<open>&\<close>, \<open>=\<close>, \<open>%\<close>
  or \<open>+\<close> in it), parsing the encoded body gives back the fields in order, and \<open>get\<close> gives the first value
  of a field.
\<close>

theorem form_roundtrip:
  assumes "\<forall>(k, v) \<in> set f. valid_text k \<and> valid_text v"
  shows "form_parse (as_bytes (form_encode f)) = f \<and> form_get (form_parse (as_bytes (form_encode f))) key = map_of f key"
proof -
  have "form_parse (as_bytes (form_encode f)) = f"
  proof (cases "f = []")
    case True
    then show ?thesis using form_encode_ascii [of f] by (simp add: form_parse_def form_encode_def)
  next
    case False
    have "filter (\<lambda>p. p \<noteq> []) (map form_pair f) = map form_pair f" by (simp add: form_pair_plain filter_id_conv)
    moreover have "map ((\<lambda>p. (percent_decode (fst (key_value p)), percent_decode (snd (key_value p)))) \<circ> form_pair) f = f"
      using assms by (intro map_idI) (auto simp: key_value_pair percent_roundtrip)
    ultimately show ?thesis using False by (simp add: form_parse_def form_encode_ascii split_form)
  qed
  moreover have "form_get g key = map_of g key" for g
    by (induction g) (auto simp: form_get_def)
  ultimately show ?thesis by simp
qed

theorem form_roundtrip_witness:
  "form_get (form_parse (as_bytes ''name=a%26b%3D%20%2B&pin=1''))  ''name'' = Some ''a&b= +''"
proof -
  have "form_encode [(''name'', ''a&b= +''), (''pin'', ''1'')] = ''name=a%26b%3D%20%2B&pin=1''" by code_simp
  moreover have "valid_text ''name''" "valid_text ''a&b= +''" "valid_text ''pin''" "valid_text ''1''"
    by (auto simp: valid_text_def as_bytes_def byte_of_def intro!: from_utf8_ok_ascii)
  ultimately show ?thesis
    using form_roundtrip [of "[(''name'', ''a&b= +''), (''pin'', ''1'')]" "''name''"] by (simp add: form_get_def)
qed

lemma query_param_encoded:
  assumes "valid_text v"
  shows "query_param (Some (percent_encode k @ CHR ''='' # percent_encode v)) (percent_encode k) = Some v"
    and "query_param (Some (percent_encode k @ CHR ''='' # percent_encode v @ CHR ''&'' # rest)) (percent_encode k) = Some v"
proof -
  have "CHR ''&'' \<notin> set (form_pair (k, v))" "key_value (form_pair (k, v)) = (percent_encode k, percent_encode v)"
    by (simp_all add: form_pair_plain key_value_pair)
  then have p: "CHR ''&'' \<notin> set (percent_encode k @ CHR ''='' # percent_encode v)"
    "key_value (percent_encode k @ CHR ''='' # percent_encode v) = (percent_encode k, percent_encode v)"
    by (simp_all add: form_pair_def)
  then show "query_param (Some (percent_encode k @ CHR ''='' # percent_encode v)) (percent_encode k) = Some v"
    using assms by (simp add: query_param_def split_char_no percent_roundtrip)
  have "split_char CHR ''&'' ((percent_encode k @ CHR ''='' # percent_encode v) @ CHR ''&'' # rest) =
      (percent_encode k @ CHR ''='' # percent_encode v) # split_char CHR ''&'' rest"
    by (rule split_char_append) (rule p(1))
  with p(2) assms show "query_param (Some (percent_encode k @ CHR ''='' # percent_encode v @ CHR ''&'' # rest)) (percent_encode k) = Some v"
    by (simp add: query_param_def percent_roundtrip)
qed

end
