(* ===== verification/Web_Session.thy ===== *)
theory Web_Session
  imports Auth_Sessions Url_Text
begin

text \<open>
  Browser sessions of the web UI (\<open>zte-agent/src/web/session.rs\<close>): cookies, the session a request
  brings, the rule for \<open>next\<close> targets, the redirect to the login and the marker hop. Headers are the
  list of their names (lower case) and values in the order received; the answer is what the browser acts
  on: a redirect's \<open>Location\<close> or the hop page's target, and the cookies it sets. The route table's answer
  to \<open>form_page\<close> is an argument, as is the clock: \<open>clock i\<close> is what its \<open>i\<close>-th reading gives.
\<close>

section \<open>Headers and cookies\<close>

type_synonym headers = "(string \<times> string) list"

definition visible :: "char \<Rightarrow> bool" where
  "visible c \<longleftrightarrow> CHR '' '' \<le> c \<and> c < CHR 0x7F \<or> c = CHR 0x09"

definition to_str :: "string \<Rightarrow> string option" where
  "to_str v = (if list_all visible v then Some v else None)"

definition get_all :: "headers \<Rightarrow> string \<Rightarrow> string list" where
  "get_all h name = map snd (filter (\<lambda>kv. fst kv = name) h)"

definition header_of :: "headers \<Rightarrow> string \<Rightarrow> string option" where
  "header_of h name = (case get_all h name of [] \<Rightarrow> None | v # _ \<Rightarrow> to_str v)"

definition SESSION_COOKIE :: string where "SESSION_COOKIE = ''zte_ui_session''"
definition PRE_COOKIE :: string where "PRE_COOKIE = ''zte_ui_pre''"
definition MARKER_COOKIE :: string where "MARKER_COOKIE = ''zte_ui_signed_in''"
definition MAX_SESSION_COOKIES :: nat where "MAX_SESSION_COOKIES = 16"
definition PRE_MAX_AGE :: nat where "PRE_MAX_AGE = 15 * 60"
definition NEXT_MAX :: nat where "NEXT_MAX = 200"
definition HOP :: string where "HOP = ''hop=1''"
definition HOP_MAX :: nat where "HOP_MAX = 400"
definition CLEAR_MARKER :: string where
  "CLEAR_MARKER = ''zte_ui_signed_in=; Path=/ui/; Max-Age=0; HttpOnly; SameSite=Lax''"

definition set_session :: "string \<Rightarrow> nat \<Rightarrow> string" where
  "set_session token max_age_secs =
     SESSION_COOKIE @ ''='' @ token @ ''; Path=/ui/; Max-Age='' @ show_nat max_age_secs @ ''; HttpOnly; SameSite=Strict''"

definition set_marker :: "nat \<Rightarrow> string" where
  "set_marker max_age_secs =
     MARKER_COOKIE @ ''=1; Path=/ui/; Max-Age='' @ show_nat max_age_secs @ ''; HttpOnly; SameSite=Lax''"

definition set_pre :: "string \<Rightarrow> string" where
  "set_pre v = PRE_COOKIE @ ''='' @ v @ ''; Path=/ui/; Max-Age='' @ show_nat PRE_MAX_AGE @ ''; HttpOnly; SameSite=Strict''"

definition cookie_pair :: "string \<Rightarrow> (string \<times> string) option" where
  "cookie_pair pair = map_option (\<lambda>(k, v). (trim k, trim v)) (split_once CHR ''='' (trim pair))"

definition cookie_pairs :: "headers \<Rightarrow> (string \<times> string) list" where
  "cookie_pairs h = List.map_filter cookie_pair (concat (map (split_char CHR '';'') (List.map_filter to_str (get_all h ''cookie''))))"

definition cookies :: "headers \<Rightarrow> string \<Rightarrow> string list" where
  "cookies h name = map snd (filter (\<lambda>kv. fst kv = name) (cookie_pairs h))"

definition has_marker :: "headers \<Rightarrow> bool" where
  "has_marker h \<longleftrightarrow> ''1'' \<in> set (cookies h MARKER_COOKIE)"

definition is_hex64 :: "string \<Rightarrow> bool" where
  "is_hex64 v \<longleftrightarrow> length v = 64 \<and> list_all (\<lambda>b. is_ascii_digit b \<or> CHR ''a'' \<le> b \<and> b \<le> CHR ''f'') v"

definition session_cookies :: "headers \<Rightarrow> string list" where
  "session_cookies h = take MAX_SESSION_COOKIES (filter is_hex64 (cookies h SESSION_COOKIE))"

definition pre_cookie :: "headers \<Rightarrow> string option" where
  "pre_cookie h = find is_hex64 (cookies h PRE_COOKIE)"

fun first_session :: "(bytes \<Rightarrow> bytes) \<Rightarrow> auth_config \<Rightarrow> (nat \<Rightarrow> boot_instant) \<Rightarrow> nat \<Rightarrow> string list \<Rightarrow> 'r auth \<Rightarrow>
    principal option \<times> 'r auth" where
  "first_session sha cfg clock i [] st = (None, st)"
| "first_session sha cfg clock i (v # vs) st =
     (case authenticate sha cfg (clock i) Browser v st of
        (Some p, st) \<Rightarrow> (Some p, st)
      | (None, st) \<Rightarrow> first_session sha cfg clock (Suc i) vs st)"

definition find_session :: "(bytes \<Rightarrow> bytes) \<Rightarrow> auth_config \<Rightarrow> (nat \<Rightarrow> boot_instant) \<Rightarrow> headers \<Rightarrow> 'r auth \<Rightarrow>
    principal option \<times> 'r auth" where
  "find_session sha cfg clock h st = first_session sha cfg clock 0 (session_cookies h) st"

section \<open>Where a page leads\<close>

definition plain_char :: "char \<Rightarrow> bool" where
  "plain_char b \<longleftrightarrow> is_ascii_alphanumeric b \<or> b \<in> set ''/_-.?=&%''"

fun encoded_dot :: "string \<Rightarrow> bool" where
  "encoded_dot (a # b # c # s) \<longleftrightarrow>
     a = CHR ''%'' \<and> b = CHR ''2'' \<and> eq_ignore_ascii_case [c] ''e'' \<or> encoded_dot (b # c # s)"
| "encoded_dot _ \<longleftrightarrow> False"

definition path_part :: "string \<Rightarrow> string" where
  "path_part s = hd (split_char CHR ''?'' s)"

definition has_dot_segment :: "string \<Rightarrow> bool" where
  "has_dot_segment s \<longleftrightarrow>
     encoded_dot (path_part s) \<or> list_ex (\<lambda>seg. seg = ''.'' \<or> seg = ''..'') (split_char CHR ''/'' (path_part s))"

definition EXCLUDED :: "string list" where
  "EXCLUDED = [''/ui/login'', ''/ui/logout'', ''/ui/live/'', ''/ui/a/'', ''/ui/op/'']"

definition is_safe_next :: "string \<Rightarrow> bool" where
  "is_safe_next s \<longleftrightarrow> prefix ''/ui/'' s \<and> length s \<le> NEXT_MAX \<and> \<not> prefix ''//'' s \<and> list_all plain_char s \<and>
     \<not> has_dot_segment s \<and> \<not> list_ex (\<lambda>p. prefix p s) EXCLUDED"

definition safe_next :: "string option \<Rightarrow> string" where
  "safe_next s = (case s of Some s \<Rightarrow> if is_safe_next s then s else ''/ui/'' | None \<Rightarrow> ''/ui/'')"

datatype answer = See_other "string option" | Hop_page string

record response =
  answer :: answer
  set_cookies :: "string list"

definition header_value_ok :: "string \<Rightarrow> bool" where
  "header_value_ok v \<longleftrightarrow> list_all (\<lambda>c. CHR '' '' \<le> c \<and> c \<noteq> CHR 0x7F \<or> c = CHR 0x09) v"

definition see_other :: "string \<Rightarrow> response" where
  "see_other loc = \<lparr>answer = See_other (if header_value_ok loc then Some loc else None), set_cookies = []\<rparr>"

definition add_cookie :: "response \<Rightarrow> string \<Rightarrow> response" where
  "add_cookie resp cookie = (if header_value_ok cookie then resp\<lparr>set_cookies := set_cookies resp @ [cookie]\<rparr> else resp)"

text \<open>The parameters of a query but empty ones and those named \<open>name\<close>.\<close>

definition parts_without :: "string \<Rightarrow> string option \<Rightarrow> string list" where
  "parts_without name query =
     filter (\<lambda>p. p \<noteq> [] \<and> p \<noteq> name \<and> \<not> prefix (name @ ''='') p)
       (split_char CHR ''&'' (case query of Some q \<Rightarrow> q | None \<Rightarrow> []))"

definition form_page :: "(string \<Rightarrow> string option) \<Rightarrow> string \<Rightarrow> string" where
  "form_page routes path =
     (case routes path of Some page \<Rightarrow> page | None \<Rightarrow> if is_safe_next path then path else ''/ui/'')"

definition login_redirect :: "(string \<Rightarrow> string option) \<Rightarrow> string \<Rightarrow> string \<Rightarrow> string option \<Rightarrow> response" where
  "login_redirect routes method path query =
     (if method = ''GET'' \<or> method = ''HEAD'' then
        let query = parts_without ''q'' query;
            target = (if query \<noteq> [] then path @ ''?'' @ join ''&'' query else path)
        in if is_safe_next target then see_other (''/ui/login?next='' @ percent_encode target)
           else see_other ''/ui/login''
      else see_other (''/ui/login?next='' @ percent_encode (form_page routes path) @ ''&expired=1''))"

section \<open>The marker hop\<close>

definition without_hop :: "string option \<Rightarrow> string option" where
  "without_hop query = (let kept = parts_without ''hop'' query in if kept \<noteq> [] then Some (join ''&'' kept) else None)"

definition hopped :: "string option \<Rightarrow> bool" where
  "hopped query \<longleftrightarrow> HOP \<in> set (split_char CHR ''&'' (case query of Some q \<Rightarrow> q | None \<Rightarrow> []))"

definition hop_target :: "string \<Rightarrow> string option \<Rightarrow> string option" where
  "hop_target path query =
     (let query = parts_without ''q'' query;
          target = (if query = [] then path @ ''?'' @ HOP else path @ ''?'' @ join ''&'' query @ ''&'' @ HOP)
      in if prefix ''/ui/'' target \<and> length target \<le> HOP_MAX \<and> list_all plain_char target \<and>
            \<not> has_dot_segment target \<and> \<not> prefix ''/ui/live/'' target \<and> \<not> prefix ''/ui/a/'' target
         then Some target else None)"

definition not_a_navigation :: "headers \<Rightarrow> bool" where
  "not_a_navigation h \<longleftrightarrow>
     (case header_of h ''sec-fetch-mode'' of Some m \<Rightarrow> m \<noteq> ''navigate'' | None \<Rightarrow> False) \<or>
     (case header_of h ''sec-fetch-dest'' of Some d \<Rightarrow> d \<noteq> ''document'' | None \<Rightarrow> False)"

definition without_session :: "headers \<Rightarrow> string \<Rightarrow> string \<Rightarrow> string option \<Rightarrow> (string option \<Rightarrow> response) \<Rightarrow> response" where
  "without_session h method path query to =
     (let marker = has_marker h;
          site = header_of h ''sec-fetch-site'';
          gone = hopped query \<or> session_cookies h \<noteq> [] \<or> site = Some ''same-origin'' \<or> site = Some ''same-site'';
          query = without_hop query;
          resp = to query;
          resp = (if marker \<and> gone then add_cookie resp CLEAR_MARKER else resp)
      in if marker \<and> \<not> gone \<and> method = ''GET'' \<and> \<not> not_a_navigation h
         then (case hop_target path query of Some target \<Rightarrow> \<lparr>answer = Hop_page target, set_cookies = []\<rparr> | None \<Rightarrow> resp)
         else resp)"

definition after_hop :: "string \<Rightarrow> string option \<Rightarrow> response option" where
  "after_hop path query =
     (if hopped query
      then Some (case without_hop query of Some q \<Rightarrow> see_other (path @ ''?'' @ q) | None \<Rightarrow> see_other path)
      else None)"

end
