(* ===== verification/Request_Admission.thy ===== *)
theory Request_Admission
  imports Request_Guard Web_Session
begin

text \<open>
  What is decided before a request's body is read: \<open>precheck\<close> of the JSON API and the lane its work
  waits in (\<open>zte-agent/src/server.rs\<close>), a posted form's check (\<open>verify_post\<close> of \<open>web/session.rs\<close>), and
  how the HTTPS listener presents a request to the app (\<open>inbound\<close> and \<open>outbound\<close> of \<open>httpd/tls.rs\<close>).
\<close>

section \<open>The API\<close>

definition API_BODY_MAX :: nat where "API_BODY_MAX = 64 * 1024"
definition LIVE_ACTIVITY_BODY_MAX :: nat where "LIVE_ACTIVITY_BODY_MAX = 4096"
definition LAN_DOWNLOAD_DEFAULT :: nat where "LAN_DOWNLOAD_DEFAULT = 50 * 1024 * 1024"
definition LAN_DOWNLOAD_MAX :: nat where "LAN_DOWNLOAD_MAX = 200 * 1024 * 1024"

record req_info =
  req_method :: request_method
  path :: string
  query :: "string option"
  bearer :: "string option"
  hdrs :: req_headers
  loopback :: bool
  secure :: bool

datatype reply_body = Error_body string | Ping_body

datatype pre =
    Reply nat reply_body
  | Login
  | LanDownload nat
  | LanUpload
  | EsimQr
  | Events session_id
  | Dashboard
  | Dispatch nat

definition refuse :: "nat \<Rightarrow> string \<Rightarrow> pre" where
  "refuse status error = Reply status (Error_body error)"

definition parse_query_usize :: "string option \<Rightarrow> string \<Rightarrow> nat option" where
  "parse_query_usize q key =
     (case q of
        None \<Rightarrow> None
      | Some s \<Rightarrow>
          (case find (\<lambda>p. fst (key_value p) = key) (split_char CHR ''&'' s) of
             None \<Rightarrow> None
           | Some p \<Rightarrow> Option.bind (split_once CHR ''='' p) (\<lambda>(_, v). parse_uint 64 v)))"

text \<open>What follows the token check: the host, the origin, the routes that bypass the dispatch.\<close>

definition route_early :: "bool \<Rightarrow> principal option \<Rightarrow> req_info \<Rightarrow> pre" where
  "route_early has_pw found req =
     (let m = req_method req; p = path req
      in if m = Post \<and> p = ''/api/auth/login'' then Login
         else if m = Get \<and> p = ''/api/lan/ping'' then Reply 200 Ping_body
         else if m = Get \<and> p = ''/api/lan/download''
         then LanDownload (min (case parse_query_usize (query req) ''size'' of Some n \<Rightarrow> n | None \<Rightarrow> LAN_DOWNLOAD_DEFAULT) LAN_DOWNLOAD_MAX)
         else if m = Post \<and> p = ''/api/lan/upload'' then LanUpload
         else if m = Post \<and> p = ''/api/esim/qr''
         then (if found \<noteq> None then EsimQr else refuse 403 ''agent password required'')
         else if m = Get \<and> p = ''/api/dashboard/events''
         then (if found \<noteq> None then Dashboard else refuse 403 ''agent password required'')
         else if m = Get \<and> p = ''/api/events''
         then (case found of Some pr \<Rightarrow> Events (pr_id pr) | None \<Rightarrow> refuse 403 ''agent password required'')
         else
           let live_activity = prefix ''/api/live-activity'' p
           in if live_activity \<and> \<not> has_pw then refuse 403 ''agent password required''
              else Dispatch (if live_activity then LIVE_ACTIVITY_BODY_MAX else API_BODY_MAX))"

definition check_headers :: "host_policy \<Rightarrow> string list \<Rightarrow> bool \<Rightarrow> req_info \<Rightarrow> pre option" where
  "check_headers hosts ts_names has_pw req =
     (let browser = \<not> has_pw \<or> origin (hdrs req) \<noteq> None \<or> sec_fetch_site (hdrs req) \<noteq> None;
          refused =
            (if browser
             then (case host (hdrs req) of
                     None \<Rightarrow> Some (refuse 400 ''missing host'')
                   | Some h \<Rightarrow>
                       if \<not> allows_via hosts h (loopback req) (secure req) ts_names then Some (refuse 403 ''host not allowed'')
                       else None)
             else None)
      in if refused \<noteq> None then refused
         else if api_mutation_refused (req_method req) (hdrs req) then Some (refuse 403 ''cross-origin request refused'')
         else None)"

definition precheck :: "(bytes \<Rightarrow> bytes) \<Rightarrow> auth_config \<Rightarrow> boot_instant \<Rightarrow> host_policy \<Rightarrow> string list \<Rightarrow> req_info \<Rightarrow>
    'r auth \<Rightarrow> pre \<times> 'r auth" where
  "precheck sha cfg now hosts ts_names req st =
     (let has_pw = has_password st;
          checked = path req \<noteq> ''/api/auth/login'' \<and> has_pw;
          (found, st) =
            (if checked
             then (case bearer req of
                     Some t \<Rightarrow> authenticate sha cfg now Bearer t st
                   | None \<Rightarrow> (None, st))
             else (None, st))
      in if checked \<and> found = None then (refuse 401 ''unauthorized'', st)
         else (case check_headers hosts ts_names has_pw req of
                 Some r \<Rightarrow> (r, st)
               | None \<Rightarrow> (route_early has_pw found req, st)))"

datatype gate_lane = General | Slow

definition lane_of :: "request_method \<Rightarrow> string \<Rightarrow> gate_lane" where
  "lane_of m p =
     (if m = Get \<and> p = ''/api/network/client-details'' then Slow
      else if m = Get \<and> p = ''/api/esim/switch'' \<or> (m = Get \<or> m = Delete) \<and> p = ''/api/esim/download''
        \<or> m = Post \<and> p \<in> {''/api/esim/download/confirm'', ''/api/esim/download/cancel''}
        \<or> m = Get \<and> p = ''/api/tailscale/status'' \<or> m = Get \<and> p \<in> {''/api/stk/menu'', ''/api/stk/session''} then General
      else if prefix ''/api/esim/'' p \<or> prefix ''/api/tailscale/'' p \<or> prefix ''/api/https/'' p then Slow
      else if (m = Put \<or> m = Post) \<and> prefix ''/api/vpn/wireguard'' p then Slow
      else if prefix ''/api/ussd/'' p \<or> prefix ''/api/stk/'' p then Slow
      else if m = Post \<and> (prefix ''/api/sim/'' p \<or> prefix ''/api/cell/'' p) then Slow
      else if prefix ''/api/dns/'' p then Slow
      else if prefix ''/api/update/'' p \<and> p \<noteq> ''/api/update/status'' then Slow
      else if m = Post \<and> p \<in> {''/api/at/send'', ''/api/modem/online'', ''/api/modem/airplane'', ''/api/modem/scan'',
          ''/api/modem/register'', ''/api/sms/forward/test'', ''/api/sms/forward/retry'', ''/api/speedtest/start'',
          ''/api/doh/enable'', ''/api/doh/disable''} then Slow
      else if m = Get \<and> p = ''/api/speedtest/servers'' then Slow
      else General)"

section \<open>Posted forms\<close>

definition req_headers_of :: "headers \<Rightarrow> req_headers" where
  "req_headers_of h = \<lparr>host = header_of h ''host'', origin = header_of h ''origin'', referer = header_of h ''referer'',
     sec_fetch_site = header_of h ''sec-fetch-site''\<rparr>"

definition verify_post :: "headers \<Rightarrow> principal \<Rightarrow> string option \<Rightarrow> bool" where
  "verify_post h p csrf \<longleftrightarrow>
     ui_post_allowed (req_headers_of h) \<and> (case csrf of Some c \<Rightarrow> check_csrf p c | None \<Rightarrow> False)"

section \<open>The HTTPS listener\<close>

definition COOKIE_PREFIX :: string where "COOKIE_PREFIX = ''__Host-''"
definition APP :: string where "APP = ''zte_ui_''"

definition remove_header :: "string \<Rightarrow> headers \<Rightarrow> headers" where
  "remove_header name h = filter (\<lambda>kv. fst kv \<noteq> name) h"

definition own_cookie :: "string \<Rightarrow> string option" where
  "own_cookie pair =
     (case strip_prefix COOKIE_PREFIX (trim pair) of
        Some p \<Rightarrow> if prefix APP p then Some p else None
      | None \<Rightarrow> None)"

definition own_cookies :: "headers \<Rightarrow> string list" where
  "own_cookies h = List.map_filter own_cookie
     (concat (map (split_char CHR '';'') (List.map_filter to_str (get_all h ''cookie''))))"

definition map_origin :: "string \<Rightarrow> headers \<Rightarrow> headers" where
  "map_origin name h =
     (case get_all h name of
        [] \<Rightarrow> h
      | v # _ \<Rightarrow>
          remove_header name h @
            [(name, case Option.bind (to_str v) (strip_prefix ''https://'') of
                Some rest \<Rightarrow> ''http://'' @ rest
              | None \<Rightarrow> ''null'')])"

definition inbound :: "headers \<Rightarrow> headers" where
  "inbound h =
     (let mine = own_cookies h;
          h = remove_header ''cookie'' h @ (if mine \<noteq> [] then [(''cookie'', join ''; '' mine)] else [])
      in map_origin ''referer'' (map_origin ''origin'' h))"

text \<open>The attributes after the first part of a cookie.\<close>

definition secure_attribute :: "string \<Rightarrow> string option" where
  "secure_attribute p =
     (let lower = to_ascii_lowercase p
      in if prefix ''path='' lower then Some ''Path=/''
         else if \<not> prefix ''domain='' lower \<and> lower \<noteq> ''secure'' \<and> p \<noteq> [] then Some p
         else None)"

definition secure_cookie :: "string \<Rightarrow> string" where
  "secure_cookie s =
     (let ps = map trim (split_char CHR '';'' s);
          parts = (COOKIE_PREFIX @ hd ps) # List.map_filter secure_attribute (tl ps);
          parts = (if ''Path=/'' \<in> set parts then parts else parts @ [''Path=/''])
      in join ''; '' (parts @ [''Secure'']))"

definition outbound_value :: "string \<Rightarrow> string option" where
  "outbound_value v =
     (case to_str v of
        Some s \<Rightarrow>
          if prefix APP s then (if header_value_ok (secure_cookie s) then Some (secure_cookie s) else None) else Some v
      | None \<Rightarrow> Some v)"

definition outbound :: "headers \<Rightarrow> headers" where
  "outbound h =
     (if get_all h ''set-cookie'' = [] then h
      else remove_header ''set-cookie'' h @
        map (\<lambda>v. (''set-cookie'', v)) (List.map_filter outbound_value (get_all h ''set-cookie'')))"

end
