(* ===== verification/Request_Safety.thy ===== *)
theory Request_Safety
  imports Request_Admission
begin

text \<open>
  What the admission of requests guarantees: who is let into the API, that a rebound name and a foreign
  page are not, that a live session is found among a browser's cookies, and that the HTTPS listener keeps
  its origin's cookies and pages apart from the plain one's.
\<close>

section \<open>Hosts and origins\<close>

lemma same_as_host_Same:
  "same_as_host scheme auth hh = Same \<longleftrightarrow> eq_ignore_ascii_case scheme ''http'' \<and>
     (\<exists>hv a p q. hh = Some hv \<and> parse_authority auth = Some (a, p) \<and> parse_authority hv = Some (a, q) \<and>
       port_or_80 p = port_or_80 q)"
  by (auto simp: same_as_host_def Option.bind_eq_Some_conv split: option.split prod.split if_splits)

lemma same_as_host_present: "same_as_host scheme auth hh \<noteq> Absent"
  by (auto simp: same_as_host_def split: option.split prod.split if_splits)

lemma split_scheme_SomeD: "split_scheme s = Some (a, b) \<Longrightarrow> s = a @ ''://'' @ b"
proof (induction s arbitrary: a b)
  case (Cons c s)
  show ?case
  proof (cases "strip_prefix ''://'' (c # s)")
    case None
    with Cons show ?thesis by auto
  next
    case (Some r)
    with strip_prefix_SomeD [OF Some] Cons.prems show ?thesis by simp
  qed
qed simp

text \<open>The page that sends a request, by the header that names it, has the host's name and port.\<close>

definition same_origin :: "string \<Rightarrow> string option \<Rightarrow> bool" where
  "same_origin text hh \<longleftrightarrow>
     (\<exists>scheme auth rest hv a p q. text = scheme @ ''://'' @ auth @ rest \<and> (rest = [] \<or> hd rest \<in> set ''/?#'') \<and>
       eq_ignore_ascii_case scheme ''http'' \<and> hh = Some hv \<and>
       parse_authority auth = Some (a, p) \<and> parse_authority hv = Some (a, q) \<and> port_or_80 p = port_or_80 q)"

lemma same_originI:
  "text = scheme @ ''://'' @ auth @ rest \<Longrightarrow> rest = [] \<or> hd rest \<in> set ''/?#'' \<Longrightarrow> same_as_host scheme auth hh = Same \<Longrightarrow>
     same_origin text hh"
  unfolding same_origin_def same_as_host_Same by blast

lemma origin_same: "origin_verdict h = Same \<Longrightarrow> \<exists>o1. origin h = Some o1 \<and> same_origin o1 (host h)"
proof -
  assume "origin_verdict h = Same"
  then obtain o1 scheme auth where o1: "origin h = Some o1" "split_scheme o1 = Some (scheme, auth)"
    "same_as_host scheme auth (host h) = Same"
    by (auto simp: origin_verdict_def split: option.splits)
  from split_scheme_SomeD [OF o1(2)] have "same_origin o1 (host h)"
    by (intro same_originI [OF _ _ o1(3), of _ "[]"]) simp_all
  with o1(1) show ?thesis by blast
qed

text \<open>A name a browser can only have looked up, never taken for an address.\<close>

definition host_name :: "string \<Rightarrow> bool" where
  "host_name n \<longleftrightarrow> n \<noteq> [] \<and> list_all valid_char n \<and> \<not> list_ex (\<lambda>l. l = []) (split_char CHR ''.'' n) \<and>
     \<not> numeric_label (last (split_char CHR ''.'' n)) \<and> to_ascii_lowercase n = n"

definition answers_to :: "host_policy \<Rightarrow> string list \<Rightarrow> bool \<Rightarrow> bool \<Rightarrow> authority \<Rightarrow> bool" where
  "answers_to p ts_names lo tls a \<longleftrightarrow>
     (case a of
        authority.V4 _ \<Rightarrow> True
      | authority.V6 _ \<Rightarrow> True
      | Name n \<Rightarrow> host_name n \<and>
          (n \<in> set (extra p) \<or> lo \<and> (n = ''localhost'' \<or> n \<in> set ts_names) \<or> tls \<and> local_name p = Some n))"

lemma lower_suffix: "strip_suffix ''.'' (to_ascii_lowercase s) = Some h \<Longrightarrow> to_ascii_lowercase h = h"
  using to_ascii_lowercase_append by (metis append_same_eq butlast_snoc last_snoc strip_suffix_SomeD to_ascii_lowercase_idem to_ascii_lowercase_length append_eq_append_conv)

lemma parse_name_host: "parse_name s = Some (Name n) \<Longrightarrow> host_name n"
  using lower_suffix [of s]
  by (auto simp: parse_name_def host_name_def Let_def split: option.splits if_splits)

lemma parse_authority_name: "parse_authority s = Some (Name n, q) \<Longrightarrow> host_name n"
  using parse_name_host
  by (auto simp: parse_authority_def Option.bind_eq_Some_conv split: if_splits option.splits)

lemma allows_via_iff:
  "allows_via p hv lo tls ts_names \<longleftrightarrow>
     (\<exists>a q. parse_authority hv = Some (a, q) \<and> answers_to p ts_names lo tls a)"
  by (auto simp: allows_via_def allows_def answers_to_def dest: parse_authority_name
      split: option.splits authority.splits)

section \<open>Admission\<close>

definition refused :: "pre \<Rightarrow> bool" where
  "refused r \<longleftrightarrow> (\<exists>status e. r = Reply status (Error_body e))"

text \<open>The session a token names at a time.\<close>

definition token_session :: "(bytes \<Rightarrow> bytes) \<Rightarrow> auth_config \<Rightarrow> boot_instant \<Rightarrow> kind \<Rightarrow> string \<Rightarrow> 'r auth \<Rightarrow> entry \<Rightarrow> bool" where
  "token_session sha cfg now k token st e \<longleftrightarrow>
     (\<exists>raw. token = hex_encode raw \<and> length raw = 32 \<and> ent_kind e = k \<and> ent_digest e = digest sha k raw) \<and>
     e \<in> set (entries (table st)) \<and> now < deadline cfg e"

definition principal_of :: "kind \<Rightarrow> entry \<Rightarrow> principal" where
  "principal_of k e = \<lparr>pr_id = ent_id e, pr_kind = k, pr_csrf = ent_csrf e\<rparr>"

lemma authenticate_session:
  assumes "keys_distinct (table st)"
  shows "fst (authenticate sha cfg now k token st) = Some p \<longleftrightarrow>
    (\<exists>e. token_session sha cfg now k token st e \<and> p = principal_of k e)"
proof -
  have "fst (authenticate sha cfg now k token st) = Some p \<longleftrightarrow>
      (\<exists>raw e. parse_hex 32 token = Some raw \<and> find_entry k (digest sha k raw) (table st) = Some e \<and>
        \<not> expired now cfg e \<and> p = principal_of k e)"
    by (auto simp: fst_authenticate [OF assms] session_of_def principal_of_def split: option.splits)
  then show ?thesis
    by (auto simp: parse_hex_iff find_entry_iff [OF assms] token_session_def entry_key_def expired_def not_le)
qed

lemma route_early_refused: "route_early has_pw found req = r \<Longrightarrow> found = None \<Longrightarrow> r \<noteq> EsimQr \<and> r \<noteq> Dashboard \<and> (\<forall>i. r \<noteq> Events i)"
  by (auto simp: route_early_def refuse_def Let_def split: if_splits)

lemma precheck_cases [consumes 1, case_names unauthorized headers route]:
  assumes "precheck sha cfg now hosts ts_names req st = (r, st')"
  obtains (unauthorized) "r = refuse 401 ''unauthorized''"
  | (headers) "check_headers hosts ts_names (has_password st) req = Some r"
  | (route) found where "r = route_early (has_password st) found req"
      "check_headers hosts ts_names (has_password st) req = None"
      "path req \<noteq> ''/api/auth/login'' \<and> has_password st \<longrightarrow>
        (\<exists>t p. bearer req = Some t \<and> found = Some p \<and> fst (authenticate sha cfg now Bearer t st) = Some p)"
      "path req = ''/api/auth/login'' \<or> \<not> has_password st \<longrightarrow> found = None"
  using assms unauthorized headers route
  by (auto simp: precheck_def Let_def split: if_splits option.splits prod.splits)

lemma check_headers_refuses: "check_headers hosts ts_names has_pw req = Some r \<Longrightarrow> refused r"
  by (auto simp: check_headers_def refused_def refuse_def Let_def split: if_splits option.splits)

lemma check_headers_None:
  assumes "check_headers hosts ts_names has_pw req = None"
  shows "(\<not> has_pw \<or> origin (hdrs req) \<noteq> None \<or> sec_fetch_site (hdrs req) \<noteq> None) \<longrightarrow>
      (\<exists>hv a q. host (hdrs req) = Some hv \<and> parse_authority hv = Some (a, q) \<and>
        answers_to hosts ts_names (loopback req) (secure req) a)"
    and "\<not> api_mutation_refused (req_method req) (hdrs req)"
  using assms by (auto simp: check_headers_def allows_via_iff Let_def split: if_splits option.splits)

text \<open>
  C4: with a password set, the API lets nobody in without a session: a request to anything but the login
  that is not refused carries the token of a session that is live at that moment (and one without is
  answered 401 whatever else it holds); and the streams and the upload that belong to a session are never
  given without one, password or not.
\<close>

theorem api_needs_session:
  assumes "keys_distinct (table st)" and "precheck sha cfg now hosts ts_names req st = (r, st')"
  shows "(has_password st \<and> path req \<noteq> ''/api/auth/login'' \<longrightarrow>
      r = Reply 401 (Error_body ''unauthorized'') \<and>
        (\<nexists>t e. bearer req = Some t \<and> token_session sha cfg now Bearer t st e) \<or>
      (\<exists>t e. bearer req = Some t \<and> token_session sha cfg now Bearer t st e)) \<and>
    (r \<in> {EsimQr, Dashboard} \<union> range Events \<longrightarrow> has_password st \<and>
      (\<exists>t e. bearer req = Some t \<and> token_session sha cfg now Bearer t st e \<and> (\<forall>i. r = Events i \<longrightarrow> i = ent_id e)))"
proof (intro conjI impI)
  assume pw: "has_password st \<and> path req \<noteq> ''/api/auth/login''"
  show "r = Reply 401 (Error_body ''unauthorized'') \<and> (\<nexists>t e. bearer req = Some t \<and> token_session sha cfg now Bearer t st e) \<or>
      (\<exists>t e. bearer req = Some t \<and> token_session sha cfg now Bearer t st e)"
  proof (cases "\<exists>t p. bearer req = Some t \<and> fst (authenticate sha cfg now Bearer t st) = Some p")
    case True
    then show ?thesis using authenticate_session [OF assms(1)] by blast
  next
    case False
    then have "r = refuse 401 ''unauthorized''"
      using assms(2) pw by (auto simp: precheck_def Let_def split: option.splits prod.splits)
    with False show ?thesis using authenticate_session [OF assms(1)] by (auto simp: refuse_def)
  qed
next
  assume r: "r \<in> {EsimQr, Dashboard} \<union> range Events"
  have *: "has_password st \<and> (\<exists>t p. bearer req = Some t \<and> fst (authenticate sha cfg now Bearer t st) = Some p \<and>
      (\<forall>i. r = Events i \<longrightarrow> i = pr_id p))"
    using assms(2)
  proof (cases rule: precheck_cases)
    case unauthorized
    with r show ?thesis by (auto simp: refuse_def)
  next
    case headers
    with check_headers_refuses [OF headers] r show ?thesis by (auto simp: refused_def)
  next
    case (route found)
    then have "found \<noteq> None" using r route_early_refused [of "has_password st" found req r] by auto
    with route(3,4) obtain t p where "has_password st" "bearer req = Some t" "found = Some p"
      "fst (authenticate sha cfg now Bearer t st) = Some p" by auto
    moreover have "i = pr_id p" if "r = Events i" for i
      using route(1) that \<open>found = Some p\<close> by (auto simp: route_early_def refuse_def Let_def split: if_splits)
    ultimately show ?thesis by blast
  qed
  show "has_password st" using * by blast
  from * show "\<exists>t e. bearer req = Some t \<and> token_session sha cfg now Bearer t st e \<and> (\<forall>i. r = Events i \<longrightarrow> i = ent_id e)"
    using authenticate_session [OF assms(1)] by (auto simp: principal_of_def)
qed

text \<open>
  C5: neither a rebound name nor a foreign page gets through: a request that is not refused, when it comes
  from a browser (or no password is set), asks for an address or one of the names the agent answers to on
  that connection, the latter never a text a browser takes for an address; and one that may change
  anything and names its origin comes from a page of that very host and port, not marked as cross-site.
\<close>

theorem foreign_pages_refused:
  assumes "precheck sha cfg now hosts ts_names req st = (r, st')" and "\<not> refused r"
  shows "(\<not> has_password st \<or> origin (hdrs req) \<noteq> None \<or> sec_fetch_site (hdrs req) \<noteq> None \<longrightarrow>
      (\<exists>hv a q. host (hdrs req) = Some hv \<and> parse_authority hv = Some (a, q) \<and>
        answers_to hosts ts_names (loopback req) (secure req) a)) \<and>
    (req_method req \<noteq> Get \<longrightarrow> \<not> fetch_site_foreign (hdrs req) \<and>
      (\<forall>o1. origin (hdrs req) = Some o1 \<longrightarrow> same_origin o1 (host (hdrs req))))"
proof -
  have ok: "check_headers hosts ts_names (has_password st) req = None"
    using assms(1)
  proof (cases rule: precheck_cases)
    case unauthorized
    with assms(2) show ?thesis by (simp add: refused_def refuse_def)
  next
    case headers
    with check_headers_refuses [OF headers] assms(2) show ?thesis by simp
  qed simp
  have "origin_verdict (hdrs req) = Same" if "req_method req \<noteq> Get" "origin (hdrs req) = Some o1" for o1
  proof -
    have "origin_verdict (hdrs req) \<noteq> Cross"
      using check_headers_None(2) [OF ok] that by (simp add: api_mutation_refused_def)
    moreover have "origin_verdict (hdrs req) \<noteq> Absent"
      using that same_as_host_present by (auto simp: origin_verdict_def split: option.split)
    ultimately show ?thesis by (cases "origin_verdict (hdrs req)") simp_all
  qed
  then show ?thesis
    using check_headers_None [OF ok] origin_same [of "hdrs req"] by (auto simp: api_mutation_refused_def)
qed

definition demo_auth :: "nat auth" where
  "demo_auth = demo_state\<lparr>table := (table_new default_auth_config)\<lparr>entries :=
     [new_entry 0 Bearer (digest (\<lambda>m. m) Bearer (replicate 32 0)) [] 7]\<rparr>\<rparr>"

definition demo_req :: req_info where
  "demo_req = \<lparr>req_method = Put, path = ''/api/wifi/settings'', query = None, bearer = Some (replicate 64 (CHR ''0'')),
     hdrs = \<lparr>host = Some ''192.168.0.1'', origin = Some ''http://192.168.0.1'', referer = None, sec_fetch_site = None\<rparr>,
     loopback = False, secure = False\<rparr>"

definition demo_precheck :: "req_info \<Rightarrow> pre \<times> nat auth" where
  "demo_precheck req = precheck (\<lambda>m. m) default_auth_config 0 (host_policy_new []) [] req demo_auth"

lemma demo_authenticated:
  "fst (authenticate (\<lambda>m. m) default_auth_config 0 Bearer (replicate 64 (CHR ''0'')) demo_auth) \<noteq> None"
proof -
  have "keys_distinct (table demo_auth)" by (simp add: keys_distinct_def demo_auth_def)
  moreover have "token_session (\<lambda>m. m) default_auth_config 0 Bearer (replicate 64 (CHR ''0'')) demo_auth
      (new_entry 0 Bearer (digest (\<lambda>m. m) Bearer (replicate 32 0)) [] 7)"
    unfolding token_session_def
    by (intro conjI exI [of _ "replicate 32 0"])
      (simp_all add: demo_auth_def new_entry_def deadline_def default_auth_config_def from_secs_def saturating_add_def
        hex_encode_zeros dur_saturating_add_def dur_max_def)
  ultimately show ?thesis using authenticate_session by fastforce
qed

lemma demo_admitted: "fst (demo_precheck demo_req) = Dispatch API_BODY_MAX"
proof -
  have "check_headers (host_policy_new []) [] True demo_req = None" by code_simp
  moreover have "route_early True found demo_req = Dispatch API_BODY_MAX" for found
    by (simp add: route_early_def demo_req_def Let_def prefix_def)
  moreover have "has_password demo_auth" by (simp add: demo_auth_def demo_state_def set_password_def with_parts_def has_password_def)
  moreover have "path demo_req = ''/api/wifi/settings''" "bearer demo_req = Some (replicate 64 (CHR ''0''))"
    by (simp_all add: demo_req_def)
  ultimately show ?thesis
    using demo_authenticated by (auto simp: demo_precheck_def precheck_def Let_def split: prod.split)
qed

theorem api_needs_session_witness:
  "\<exists>t e. bearer demo_req = Some t \<and> token_session (\<lambda>m. m) default_auth_config 0 Bearer t demo_auth e"
proof -
  have k: "keys_distinct (table demo_auth)" by (simp add: keys_distinct_def demo_auth_def)
  obtain st' where p: "precheck (\<lambda>m. m) default_auth_config 0 (host_policy_new []) [] demo_req demo_auth = (Dispatch API_BODY_MAX, st')"
    using demo_admitted by (cases "demo_precheck demo_req") (auto simp: demo_precheck_def)
  have "has_password demo_auth" by (simp add: demo_auth_def demo_state_def set_password_def with_parts_def has_password_def)
  moreover have "path demo_req \<noteq> ''/api/auth/login''" by (simp add: demo_req_def)
  ultimately show ?thesis using api_needs_session [OF k p] by simp
qed

theorem foreign_pages_refused_witness: "same_origin ''http://192.168.0.1'' (Some ''192.168.0.1'')"
proof -
  obtain st' where p: "precheck (\<lambda>m. m) default_auth_config 0 (host_policy_new []) [] demo_req demo_auth = (Dispatch API_BODY_MAX, st')"
    using demo_admitted by (cases "demo_precheck demo_req") (auto simp: demo_precheck_def)
  have "\<not> refused (Dispatch API_BODY_MAX)" by (simp add: refused_def)
  from foreign_pages_refused [OF p this] show ?thesis by (simp add: demo_req_def)
qed

section \<open>A browser's session\<close>

lemma keys_distinct_slide: "keys_distinct (slide q now t) = keys_distinct t"
  by (simp add: slide_def keys_distinct_def map_update_first entry_key_def)

lemma authenticate_keeps_live:
  assumes "keys_distinct (table st)"
  shows "keys_distinct (table (snd (authenticate sha cfg now k v st))) \<and>
    (fst (authenticate sha cfg now k v st) = None \<longrightarrow>
      (\<forall>e. e \<in> set (entries (table (snd (authenticate sha cfg now k v st)))) \<longrightarrow> e \<in> set (entries (table st))) \<and>
      (\<forall>e \<in> set (entries (table st)). now < deadline cfg e \<longrightarrow> e \<in> set (entries (table (snd (authenticate sha cfg now k v st))))))"
  using assms keys_distinct_prune [OF assms]
  by (auto simp: authenticate_def Let_def keys_distinct_slide set_entries_prune expired_def not_le split: option.split)

lemma token_session_earlier: "token_session sha cfg later k v st e \<Longrightarrow> now < later \<Longrightarrow> token_session sha cfg now k v st e"
  by (auto simp: token_session_def)

lemma first_session_spec:
  assumes "keys_distinct (table st)" and "\<And>j. clock j < limit"
  shows "(fst (first_session sha cfg clock i vs st) = Some p \<longrightarrow>
      (\<exists>v \<in> set vs. \<exists>e j. token_session sha cfg (clock j) Browser v st e \<and> p = principal_of Browser e)) \<and>
    ((\<exists>v \<in> set vs. \<exists>e. token_session sha cfg limit Browser v st e) \<longrightarrow> fst (first_session sha cfg clock i vs st) \<noteq> None)"
  using assms(1)
proof (induction vs arbitrary: i st)
  case (Cons v vs)
  obtain r st1 where a: "authenticate sha cfg (clock i) Browser v st = (r, st1)" by force
  note keeps = authenticate_keeps_live [OF Cons.prems, of sha cfg "clock i" Browser v, unfolded a fst_conv snd_conv]
  show ?case
  proof (cases r)
    case (Some p')
    with a authenticate_session [OF Cons.prems, of sha cfg "clock i" Browser v p'] show ?thesis by auto
  next
    case None
    have older: "token_session sha cfg now Browser w st1 e \<Longrightarrow> token_session sha cfg now Browser w st e" for now w e
      using keeps None by (auto simp: token_session_def)
    have newer: "token_session sha cfg limit Browser w st e \<Longrightarrow> token_session sha cfg limit Browser w st1 e" for w e
      using keeps None assms(2) [of i] by (auto simp: token_session_def)
    have "\<nexists>e. token_session sha cfg limit Browser v st e"
    proof
      assume "\<exists>e. token_session sha cfg limit Browser v st e"
      then obtain e where "token_session sha cfg (clock i) Browser v st e" using token_session_earlier [OF _ assms(2) [of i]] by blast
      then have "fst (authenticate sha cfg (clock i) Browser v st) \<noteq> None"
        using authenticate_session [OF Cons.prems] by blast
      with a None show False by simp
    qed
    moreover have "keys_distinct (table st1)" using keeps by blast
    ultimately show ?thesis
      using Cons.IH [of st1 "Suc i"] a None older newer by auto blast+
  qed
qed simp

text \<open>
  A browser's session is found behind other cookies: whatever cookies a request brings and in
  whatever order (another server on the host can set cookies of the same name), the session used is one
  whose token is among the first sixteen well-formed values, live when it was looked up; and if one of
  those values is the token of a session that stays live throughout, a session is found.
\<close>

theorem session_found_among_cookies:
  assumes "keys_distinct (table st)" and "\<forall>j. clock j < limit"
  shows "(\<forall>p. fst (find_session sha cfg clock h st) = Some p \<longrightarrow>
      (\<exists>v \<in> set (take 16 (filter is_hex64 (cookies h ''zte_ui_session''))). \<exists>e j.
        token_session sha cfg (clock j) Browser v st e \<and> p = principal_of Browser e)) \<and>
    ((\<exists>v \<in> set (take 16 (filter is_hex64 (cookies h ''zte_ui_session''))). \<exists>e. token_session sha cfg limit Browser v st e) \<longrightarrow>
      fst (find_session sha cfg clock h st) \<noteq> None)"
proof -
  have v: "session_cookies h = take 16 (filter is_hex64 (cookies h ''zte_ui_session''))"
    by (simp add: session_cookies_def MAX_SESSION_COOKIES_def SESSION_COOKIE_def)
  have "clock j < limit" for j using assms(2) by blast
  from first_session_spec [where clock = clock, OF assms(1) this, of sha cfg 0 "session_cookies h"] show ?thesis
    unfolding find_session_def v by blast
qed

theorem session_found_among_cookies_witness:
  "fst (find_session (\<lambda>m. m) default_auth_config (\<lambda>_. 0)
     [(''cookie'', ''theme=dark; zte_ui_session=junk; zte_ui_session='' @ replicate 64 (CHR ''0''))]
     (demo_auth\<lparr>table := (table_new default_auth_config)\<lparr>entries :=
       [new_entry 0 Browser (digest (\<lambda>m. m) Browser (replicate 32 0)) [] 7]\<rparr>\<rparr>)) \<noteq> None"
proof -
  let ?e = "new_entry 0 Browser (digest (\<lambda>m. m) Browser (replicate 32 0)) [] 7"
  let ?st = "demo_auth\<lparr>table := (table_new default_auth_config)\<lparr>entries := [?e]\<rparr>\<rparr>"
  let ?h = "[(''cookie'', ''theme=dark; zte_ui_session=junk; zte_ui_session='' @ replicate 64 (CHR ''0''))]"
  have "keys_distinct (table ?st)" by (simp add: keys_distinct_def)
  moreover have "token_session (\<lambda>m. m) default_auth_config 1 Browser (replicate 64 (CHR ''0'')) ?st ?e"
    unfolding token_session_def
    by (intro conjI exI [of _ "replicate 32 0"])
      (simp_all add: new_entry_def deadline_def default_auth_config_def from_secs_def saturating_add_def
        hex_encode_zeros dur_saturating_add_def dur_max_def)
  moreover have "replicate 64 (CHR ''0'') \<in> set (take 16 (filter is_hex64 (cookies ?h ''zte_ui_session'')))" by code_simp
  ultimately show ?thesis
    using session_found_among_cookies [of ?st "\<lambda>_. 0" 1 "\<lambda>m. m" default_auth_config ?h] by auto
qed

section \<open>Posted forms\<close>

text \<open>A page that is on the host and port of the request, named by its origin or by its address.\<close>

definition on_host :: "string \<Rightarrow> string option \<Rightarrow> bool" where
  "on_host auth hh \<longleftrightarrow>
     (\<exists>hv a p q. hh = Some hv \<and> parse_authority auth = Some (a, p) \<and> parse_authority hv = Some (a, q) \<and> port_or_80 p = port_or_80 q)"

definition origin_on_host :: "string \<Rightarrow> string option \<Rightarrow> bool" where
  "origin_on_host text hh \<longleftrightarrow> (\<exists>scheme auth. text = scheme @ ''://'' @ auth \<and> eq_ignore_ascii_case scheme ''http'' \<and> on_host auth hh)"

definition address_on_host :: "string \<Rightarrow> string option \<Rightarrow> bool" where
  "address_on_host text hh \<longleftrightarrow>
     (\<exists>scheme auth rest. text = scheme @ ''://'' @ auth @ rest \<and> eq_ignore_ascii_case scheme ''http'' \<and> on_host auth hh \<and>
       list_all (\<lambda>c. c \<notin> set ''/?#'') auth \<and> (rest = [] \<or> hd rest \<in> set ''/?#''))"

lemma split_scheme_first: "CHR '':'' \<notin> set scheme \<Longrightarrow> split_scheme (scheme @ ''://'' @ rest) = Some (scheme, rest)"
  by (induction scheme) (simp_all add: strip_prefix_def)

lemma split_scheme_http:
  assumes "eq_ignore_ascii_case scheme ''http''"
  shows "split_scheme (scheme @ ''://'' @ rest) = Some (scheme, rest)"
proof -
  have "to_ascii_lowercase scheme = ''http''"
    using assms to_ascii_lowercase_fixed [of "''http''"] by (simp add: eq_ignore_ascii_case_def less_eq_char_def)
  moreover have "CHR '':'' \<in> set (to_ascii_lowercase s)" if "CHR '':'' \<in> set s" for s
    using that by (force simp: to_ascii_lowercase_def less_eq_char_def)
  ultimately have "CHR '':'' \<in> set scheme \<Longrightarrow> CHR '':'' \<in> set ''http''" by metis
  then have "CHR '':'' \<notin> set scheme" by auto
  then show ?thesis by (rule split_scheme_first)
qed

lemma origin_verdict_Same: "origin_verdict h = Same \<longleftrightarrow> (\<exists>o1. origin h = Some o1 \<and> origin_on_host o1 (host h))"
proof
  assume "origin_verdict h = Same"
  then obtain o1 scheme auth where o1: "origin h = Some o1" "split_scheme o1 = Some (scheme, auth)"
    "same_as_host scheme auth (host h) = Same"
    by (auto simp: origin_verdict_def split: option.splits)
  with split_scheme_SomeD [OF o1(2)] show "\<exists>o1. origin h = Some o1 \<and> origin_on_host o1 (host h)"
    unfolding origin_on_host_def on_host_def same_as_host_Same by blast
next
  assume "\<exists>o1. origin h = Some o1 \<and> origin_on_host o1 (host h)"
  then obtain scheme auth where o1: "origin h = Some (scheme @ ''://'' @ auth)" "eq_ignore_ascii_case scheme ''http''" "on_host auth (host h)"
    unfolding origin_on_host_def by blast
  then have "same_as_host scheme auth (host h) = Same" unfolding same_as_host_Same on_host_def by blast
  with o1(1) split_scheme_http [OF o1(2), of auth] show "origin_verdict h = Same" by (simp add: origin_verdict_def)
qed

lemma referer_verdict_Same: "referer_verdict h = Same \<longleftrightarrow> (\<exists>r. referer h = Some r \<and> address_on_host r (host h))"
proof
  assume "referer_verdict h = Same"
  then obtain r scheme rest where r: "referer h = Some r" "split_scheme r = Some (scheme, rest)"
    "same_as_host scheme (takeWhile (\<lambda>c. c \<notin> set ''/?#'') rest) (host h) = Same"
    by (auto simp: referer_verdict_def split: option.splits)
  let ?auth = "takeWhile (\<lambda>c. c \<notin> set ''/?#'') rest" and ?rest = "dropWhile (\<lambda>c. c \<notin> set ''/?#'') rest"
  have "r = scheme @ ''://'' @ ?auth @ ?rest" using split_scheme_SomeD [OF r(2)] by simp
  moreover have "?rest = [] \<or> hd ?rest \<in> set ''/?#''" using hd_dropWhile [of "\<lambda>c. c \<notin> set ''/?#''" rest] by blast
  moreover have "list_all (\<lambda>c. c \<notin> set ''/?#'') ?auth" using set_takeWhileD by (fastforce simp: list_all_iff)
  moreover have "eq_ignore_ascii_case scheme ''http''" "on_host ?auth (host h)"
    using r(3) unfolding same_as_host_Same on_host_def by blast+
  ultimately have "address_on_host r (host h)" unfolding address_on_host_def by blast
  with r(1) show "\<exists>r. referer h = Some r \<and> address_on_host r (host h)" by blast
next
  assume "\<exists>r. referer h = Some r \<and> address_on_host r (host h)"
  then obtain scheme auth rest where r: "referer h = Some (scheme @ ''://'' @ auth @ rest)" "eq_ignore_ascii_case scheme ''http''"
    "on_host auth (host h)" "list_all (\<lambda>c. c \<notin> set ''/?#'') auth" "rest = [] \<or> hd rest \<in> set ''/?#''"
    unfolding address_on_host_def by blast
  have "takeWhile (\<lambda>c. c \<notin> set ''/?#'') rest = []" using r(5) by (cases rest) auto
  with r(4) have "takeWhile (\<lambda>c. c \<notin> set ''/?#'') (auth @ rest) = auth"
    by (simp add: list_all_iff takeWhile_append2 del: set_simps)
  moreover have "same_as_host scheme auth (host h) = Same" using r(2,3) unfolding same_as_host_Same on_host_def by blast
  ultimately show "referer_verdict h = Same"
    using r(1) split_scheme_http [OF r(2), of "auth @ rest"] by (simp add: referer_verdict_def)
qed

lemma verdict_Absent: "origin_verdict h = Absent \<longleftrightarrow> origin h = None" "referer_verdict h = Absent \<longleftrightarrow> referer h = None"
  using same_as_host_present by (auto simp: origin_verdict_def referer_verdict_def split: option.splits)

text \<open>
  C6: the check every form of a signed-in page goes through before it is acted on (\<open>verify_post\<close>; the login
  form has a token of its own) accepts exactly the posts of this site's own pages: those whose token is the
  browser session's secret, written in hex as the page was given it, that \<open>Sec-Fetch-Site\<close> does not call another
  site's, and whose page, by its \<open>Origin\<close> or, when there is none, by its \<open>Referer\<close>, is on the host and port
  the request was sent to; a post that names no page at all needs the token only.
\<close>

theorem posts_are_from_this_site:
  "verify_post h p csrf \<longleftrightarrow>
     pr_kind p = Browser \<and> csrf = Some (hex_encode (pr_csrf p)) \<and> length (pr_csrf p) = 32 \<and>
     (case header_of h ''sec-fetch-site'' of
        None \<Rightarrow> True
      | Some v \<Rightarrow> eq_ignore_ascii_case (trim v) ''same-origin'' \<or> eq_ignore_ascii_case (trim v) ''none'') \<and>
     (case header_of h ''origin'' of
        Some o1 \<Rightarrow> origin_on_host o1 (header_of h ''host'')
      | None \<Rightarrow> (case header_of h ''referer'' of Some r \<Rightarrow> address_on_host r (header_of h ''host'') | None \<Rightarrow> True))"
proof -
  let ?h = "req_headers_of h"
  have sel: "origin ?h = header_of h ''origin''" "referer ?h = header_of h ''referer''" "host ?h = header_of h ''host''"
    "sec_fetch_site ?h = header_of h ''sec-fetch-site''"
    by (simp_all add: req_headers_of_def)
  have "(case csrf of Some c \<Rightarrow> check_csrf p c | None \<Rightarrow> False) \<longleftrightarrow>
      pr_kind p = Browser \<and> csrf = Some (hex_encode (pr_csrf p)) \<and> length (pr_csrf p) = 32"
    by (auto simp: check_csrf_def parse_hex_iff split: option.split)
  moreover have "\<not> fetch_site_foreign ?h \<longleftrightarrow> (case header_of h ''sec-fetch-site'' of None \<Rightarrow> True
      | Some v \<Rightarrow> eq_ignore_ascii_case (trim v) ''same-origin'' \<or> eq_ignore_ascii_case (trim v) ''none'')"
    by (auto simp: fetch_site_foreign_def sel split: option.split)
  moreover have "(case origin_verdict ?h of Same \<Rightarrow> True | Cross \<Rightarrow> False | Absent \<Rightarrow> referer_verdict ?h \<noteq> Cross) \<longleftrightarrow>
      (case header_of h ''origin'' of Some o1 \<Rightarrow> origin_on_host o1 (header_of h ''host'')
       | None \<Rightarrow> (case header_of h ''referer'' of Some r \<Rightarrow> address_on_host r (header_of h ''host'') | None \<Rightarrow> True))"
    using origin_verdict_Same [of ?h] referer_verdict_Same [of ?h] verdict_Absent [of ?h]
    by (cases "origin_verdict ?h"; cases "referer_verdict ?h") (auto simp: sel split: option.splits)
  ultimately show ?thesis unfolding verify_post_def ui_post_allowed_def by blast
qed

end
