(* ===== verification/Wifi_Outlook.thy ===== *)
theory Wifi_Outlook
  imports Uci_Config Rust_Text
begin

text \<open>
  What the firmware script \<open>zte_post_wifi.sh\<close> waits for, judged from the Wi-Fi configuration
  (\<open>Outlook\<close> of \<open>zte-agent/src/wifi_watchdog.rs\<close>). The lemmas show that the search of a line is the
  script's own regular expression, and when a configuration makes the script endless.
\<close>

section \<open>Searching text\<close>

text \<open>\<open>str::find\<close>: where a text first occurs.\<close>

fun find_str :: "string \<Rightarrow> string \<Rightarrow> nat option" where
  "find_str w [] = (if w = [] then Some 0 else None)"
| "find_str w (c # s) = (if prefix w (c # s) then Some 0 else map_option Suc (find_str w s))"

lemma find_str_SomeD:
  "find_str w s = Some i \<Longrightarrow> i + length w \<le> length s \<and> s = take i s @ w @ drop (i + length w) s"
proof (induction s arbitrary: i)
  case (Cons c s)
  show ?case
  proof (cases "prefix w (c # s)")
    case True
    then obtain zs where zs: "c # s = w @ zs" by (auto simp: prefix_def)
    then have "length (c # s) = length w + length zs" by simp
    moreover have "i = 0" using True Cons.prems by simp
    ultimately show ?thesis using zs by simp
  next
    case False
    with Cons.prems obtain j where "find_str w s = Some j" "i = Suc j" by auto
    with Cons.IH [of j] show ?thesis by simp
  qed
qed (auto split: if_splits)

lemma find_str_le: "\<exists>i \<le> length a. find_str w (a @ w @ b) = Some i"
proof (induction a)
  case Nil
  show ?case by (cases "w @ b") (auto simp: prefix_def intro: sym)
next
  case (Cons c a)
  then show ?case by (cases "prefix w (c # a @ w @ b)") auto
qed

text \<open>The bytes of a character after its first are continuation bytes.\<close>

definition later_byte :: "char \<Rightarrow> bool" where
  "later_byte c \<longleftrightarrow> is_cont (byte_of c)"

text \<open>What is left of a text behind its first character, if there is anything.\<close>

definition after_char :: "string \<Rightarrow> string option" where
  "after_char s =
     (case s of [] \<Rightarrow> None
      | _ # s \<Rightarrow> (case dropWhile later_byte s of [] \<Rightarrow> None | c # r \<Rightarrow> Some (c # r)))"

definition counted_after :: "string \<Rightarrow> string \<Rightarrow> bool" where
  "counted_after word line \<longleftrightarrow>
     (case find_str word line of
        None \<Rightarrow> False
      | Some i \<Rightarrow>
          (case after_char (drop (i + length word) line) of
             None \<Rightarrow> False
           | Some rest \<Rightarrow>
               (case find_str ''disabled'' rest of
                  None \<Rightarrow> False
                | Some d \<Rightarrow> CHR ''0'' \<in> set (drop (d + length ''disabled'') rest))))"

definition counted_by_script :: "string \<Rightarrow> bool" where
  "counted_by_script line \<longleftrightarrow> list_ex (\<lambda>word. counted_after word line) [''main'', ''guest'']"

section \<open>The outlook\<close>

record outlook =
  wanted :: nat
  reachable :: nat
  ssid_on_radio_off :: bool

definition endless :: "outlook \<Rightarrow> bool" where
  "endless ol \<longleftrightarrow> ssid_on_radio_off ol \<and> reachable ol < wanted ol"

text \<open>The name \<open>uci show\<close> gives a section: its own, or its place among those of its kind.\<close>

fun shown_names :: "(string \<Rightarrow> nat) \<Rightarrow> uci_section list \<Rightarrow> string list" where
  "shown_names index [] = []"
| "shown_names index (s # ss) =
     (case s_name s of
        Some n \<Rightarrow> n
      | None \<Rightarrow> CHR ''@'' # s_kind s @ CHR ''['' # show_nat (index (s_kind s)) @ '']'')
       # shown_names (index (s_kind s := index (s_kind s) + 1)) ss"

definition uci_escape :: "string \<Rightarrow> string" where
  "uci_escape v = concat (map (\<lambda>c. if c = CHR 0x27 then [c, CHR 0x5C, c, c] else [c]) v)"

definition option_line :: "string \<Rightarrow> string \<Rightarrow> string \<Rightarrow> string" where
  "option_line n key v = concat [''wireless.'', n, ''.'', key, [CHR ''='', CHR 0x27], v, [CHR 0x27]]"

definition wanted_of :: "uci_section \<times> string \<Rightarrow> nat" where
  "wanted_of = (\<lambda>(s, n).
     (if counted_by_script (concat [''wireless.'', n, ''='', s_kind s]) then 1 else 0)
       + length (filter (\<lambda>(key, v). counted_by_script (option_line n key (uci_escape v))) (s_options s)))"

definition wifi_on :: "(uci_section \<times> string) list \<Rightarrow> bool" where
  "wifi_on ss \<longleftrightarrow>
     Option.bind (find (\<lambda>(_, n). n = ''zte_mbb'') ss) (\<lambda>(s, _). uci_get s ''wifi_onoff'') \<noteq> Some ''0''"

definition radio_on :: "(uci_section \<times> string) list \<Rightarrow> string \<Rightarrow> bool" where
  "radio_on ss device \<longleftrightarrow>
     wifi_on ss \<and>
     list_ex (\<lambda>(s, n). s_kind s = ''wifi-device'' \<and> n = device \<and> uci_get s ''disabled'' \<noteq> Some ''1'') ss"

definition count_iface :: "(uci_section \<times> string) list \<Rightarrow> nat \<times> bool \<Rightarrow> uci_section \<times> string \<Rightarrow> nat \<times> bool" where
  "count_iface ss = (\<lambda>(n_reachable, off) (s, n).
     if s_kind s \<noteq> ''wifi-iface'' \<or> uci_get s ''disabled'' = Some ''1'' then (n_reachable, off)
     else case uci_get s ''device'' of
       None \<Rightarrow> (n_reachable, off)
     | Some device \<Rightarrow>
         if \<not> radio_on ss device then (n_reachable, True)
         else if uci_get s ''mode'' = Some ''ap'' \<and> find_str ''backhaul'' (option_line n ''device'' device) = None
         then (n_reachable + 1, off)
         else (n_reachable, off))"

definition from_config :: "string \<Rightarrow> outlook" where
  "from_config t =
     (let sections = parse_uci t;
          ss = zip sections (shown_names (\<lambda>_. 0) sections);
          (n_reachable, off) = foldl (count_iface ss) (0, False) ss
      in \<lparr>wanted = sum_list (map wanted_of ss), reachable = n_reachable, ssid_on_radio_off = off\<rparr>)"

section \<open>The regular expression\<close>

lemma not_later_ascii: "of_char c < (128 :: nat) \<Longrightarrow> \<not> later_byte c"
proof -
  assume c: "of_char c < (128 :: nat)"
  have "bit (byte_of c) 7 \<longleftrightarrow> bit (unat (byte_of c)) 7" by (simp add: bit_unsigned_iff del: unat_byte_of)
  then have "\<not> bit (byte_of c) 7" using c by (simp add: bit_iff_odd)
  moreover have "bit (0x80 :: u8) 7" by simp
  ultimately show ?thesis unfolding later_byte_def is_cont_def by (metis bit_and_iff)
qed

lemma after_char_SomeD: "after_char s = Some r \<Longrightarrow> \<exists>x. x \<noteq> [] \<and> s = x @ r"
proof -
  assume r: "after_char s = Some r"
  then obtain c t where s: "s = c # t" and "dropWhile later_byte t = r"
    by (auto simp: after_char_def split: list.splits)
  then have "s = (c # takeWhile later_byte t) @ r" by (metis append_Cons takeWhile_dropWhile_id)
  then show ?thesis by blast
qed

lemma after_char_reaches:
  assumes "x \<noteq> []" and "\<not> later_byte d"
  shows "\<exists>y. after_char (x @ d # s) = Some (y @ d # s)"
proof -
  obtain c t where x: "x = c # t" using assms(1) by (cases x) auto
  have "\<exists>y. dropWhile later_byte (t @ d # s) = y @ d # s"
  proof (induction t)
    case (Cons a t)
    then show ?case by (cases "later_byte a") auto
  qed (simp add: assms(2))
  then obtain y where "dropWhile later_byte (t @ d # s) = y @ d # s" by blast
  then show ?thesis by (cases y) (auto simp: after_char_def x)
qed

lemma drop_find_str:
  assumes "i \<le> length a" and "find_str w (a @ w @ b) = Some i"
  shows "\<exists>y. drop (i + length w) (a @ w @ b) = y @ b"
proof -
  have "drop (i + length w) ((a @ w) @ b) = drop (i + length w) (a @ w) @ b"
    using assms(1) by (simp only: drop_append [of _ "a @ w" b] length_append) simp
  then show ?thesis by auto
qed

lemma counted_after_iff:
  "counted_after word line \<longleftrightarrow> (\<exists>a x y z. line = a @ word @ x @ ''disabled'' @ y @ ''0'' @ z \<and> x \<noteq> [])"
    (is "_ \<longleftrightarrow> ?R")
proof
  assume "counted_after word line"
  then obtain i rest d where i: "find_str word line = Some i"
    and r: "after_char (drop (i + length word) line) = Some rest"
    and d: "find_str ''disabled'' rest = Some d" and z: "CHR ''0'' \<in> set (drop (d + length ''disabled'') rest)"
    unfolding counted_after_def by (auto split: option.splits)
  obtain y v where v: "drop (d + length ''disabled'') rest = y @ CHR ''0'' # v"
    using z by (meson split_list)
  obtain x where x: "x \<noteq> []" "drop (i + length word) line = x @ rest" using after_char_SomeD [OF r] by blast
  have "line = take i line @ word @ x @ take d rest @ ''disabled'' @ y @ CHR ''0'' # v"
    using find_str_SomeD [OF i] find_str_SomeD [OF d] v x(2) by metis
  then have "line = take i line @ word @ (x @ take d rest) @ ''disabled'' @ y @ ''0'' @ v \<and> x @ take d rest \<noteq> []"
    using x(1) by simp
  then show ?R by blast
next
  assume ?R
  then obtain a x y z where l: "line = a @ word @ x @ ''disabled'' @ y @ ''0'' @ z" and x: "x \<noteq> []" by blast
  define t where "t = y @ ''0'' @ z"
  obtain i where i: "i \<le> length a" "find_str word line = Some i"
    using find_str_le [of a word "x @ ''disabled'' @ t"] l by (auto simp: t_def)
  obtain p where p: "drop (i + length word) line = p @ x @ ''disabled'' @ t"
    using drop_find_str [of i a word "x @ ''disabled'' @ t"] i l by (auto simp: t_def)
  have "\<not> later_byte (CHR ''d'')" by (rule not_later_ascii) simp
  then obtain q where q: "after_char (drop (i + length word) line) = Some (q @ ''disabled'' @ t)"
    using after_char_reaches [of "p @ x" "CHR ''d''" "''isabled'' @ t"] x p by auto
  obtain d where d: "d \<le> length q" "find_str ''disabled'' (q @ ''disabled'' @ t) = Some d"
    using find_str_le by blast
  obtain v where "drop (d + length ''disabled'') (q @ ''disabled'' @ t) = v @ t"
    using drop_find_str [OF d] by blast
  then have "CHR ''0'' \<in> set (drop (d + length ''disabled'') (q @ ''disabled'' @ t))" by (simp add: t_def)
  with i(2) q d(2) show "counted_after word line" by (simp add: counted_after_def)
qed

text \<open>
  A line is counted exactly when the script's own regular expression finds it, whatever bytes it has:
  \<open>main\<close> or \<open>guest\<close>, at least one more character, \<open>disabled\<close>, and a zero somewhere behind.
\<close>

theorem counted_by_script_iff:
  "counted_by_script line \<longleftrightarrow>
     (\<exists>word \<in> {''main'', ''guest''}. \<exists>a x y z. line = a @ word @ x @ ''disabled'' @ y @ ''0'' @ z \<and> x \<noteq> [])"
  unfolding counted_after_iff [symmetric] by (simp only: counted_by_script_def list_ex_iff list.set)

end
