(* ===== verification/Stuck_Script.thy ===== *)
theory Stuck_Script
  imports Wifi_Outlook Boot_Clock
begin

text \<open>
  The watchdog for stuck copies of \<open>zte_post_wifi.sh\<close> (\<open>zte-agent/src/wifi_watchdog.rs\<close>): how it finds the
  copies in \<open>/proc\<close>, the machine that decides when one is stopped, and the thread that feeds the machine.
  A wake-up is given what \<open>/proc\<close> and the Wi-Fi configuration hold when it reads them. Instants are
  nanoseconds since boot; those the code computes lie far below the largest \<open>Duration\<close>.
\<close>

section \<open>Processes\<close>

definition POST_WIFI_SCRIPT :: string where "POST_WIFI_SCRIPT = ''/sbin/zte_post_wifi.sh''"
definition MAX_AGE :: duration where "MAX_AGE = from_secs 120"
definition STUCK_AGE :: duration where "STUCK_AGE = from_secs 5"
definition MONITOR_RETRY :: duration where "MONITOR_RETRY = from_secs 5"
definition SLACK :: duration where "SLACK = from_secs 1"
definition SCAN_RETRY :: duration where "SCAN_RETRY = from_secs 30"

definition is_post_wifi_cmdline :: "string \<Rightarrow> bool" where
  "is_post_wifi_cmdline cmdline \<longleftrightarrow>
     (case filter (\<lambda>a. a \<noteq> []) (split_char (CHR 0x00) cmdline) of
        [shell, script] \<Rightarrow> shell \<in> {''sh'', ''/bin/sh'', ''ash'', ''/bin/ash''} \<and> script = POST_WIFI_SCRIPT
      | [shell, script, flag] \<Rightarrow>
          list_all is_ascii_digit flag \<and> shell \<in> {''sh'', ''/bin/sh'', ''ash'', ''/bin/ash''} \<and> script = POST_WIFI_SCRIPT
      | _ \<Rightarrow> False)"

definition is_hostapd_monitor :: "string \<Rightarrow> bool" where
  "is_hostapd_monitor cmdline \<longleftrightarrow>
     find_str ''grep'' cmdline = None \<and>
     (case find_str ''hostapd_cli'' cmdline of
        None \<Rightarrow> False
      | Some i \<Rightarrow> find_str ''wps-hostapd'' (drop i cmdline) \<noteq> None)"

text \<open>\<open>str::parse::<i32>()\<close> and \<open>str::split_whitespace\<close>.\<close>

definition parse_i32 :: "string \<Rightarrow> int option" where
  "parse_i32 s =
     (case s of
        CHR ''-'' # t \<Rightarrow>
          if t \<noteq> [] \<and> list_all is_ascii_digit t \<and> parse_digits t \<le> 2 ^ 31 then Some (- int (parse_digits t)) else None
      | _ \<Rightarrow> map_option int (parse_uint 31 s))"

fun split_blank :: "string \<Rightarrow> string list" where
  "split_blank [] = [[]]"
| "split_blank (c # s) =
     (if is_whitespace c then [] # split_blank s
      else case split_blank s of [] \<Rightarrow> [[c]] | l # ls \<Rightarrow> (c # l) # ls)"

definition split_whitespace :: "string \<Rightarrow> string list" where
  "split_whitespace s = filter (\<lambda>w. w \<noteq> []) (split_blank s)"

definition parse_stat :: "string \<Rightarrow> (int \<times> nat) option" where
  "parse_stat stat =
     (if CHR '')'' \<notin> set stat then None
      else
        let fields = split_whitespace (rev (takeWhile (\<lambda>c. c \<noteq> CHR '')'') (rev stat)))
        in if length fields \<le> 19 then None
           else Option.bind (parse_i32 (fields ! 1)) (\<lambda>ppid.
             map_option (Pair ppid) (parse_uint 64 (fields ! 19))))"

definition ticks_to_duration :: "nat \<Rightarrow> nat \<Rightarrow> duration" where
  "ticks_to_duration ticks hz =
     (let hz = max hz 1 in from_secs (ticks div hz) + (ticks mod hz) * 1000000000 div hz)"

record script_copy =
  c_pid :: int
  c_start :: duration

record found_proc =
  f_pid :: int
  f_ppid :: int
  f_start :: duration

definition top_level :: "found_proc list \<Rightarrow> script_copy list" where
  "top_level found =
     map (\<lambda>f. \<lparr>c_pid = f_pid f, c_start = f_start f\<rparr>) (filter (\<lambda>f. f_ppid f \<notin> f_pid ` set found) found)"

text \<open>A monitor is its parent and its start.\<close>

definition monitors_up :: "(int \<times> duration) list \<Rightarrow> found_proc list \<Rightarrow> duration list" where
  "monitors_up mons copies = map snd (filter (\<lambda>(ppid, _). ppid \<notin> f_pid ` set copies) mons)"

section \<open>The machine\<close>

record scan =
  copies :: "script_copy list"
  monitors :: "duration list"
  s_outlook :: "outlook option"

datatype script_event = Trigger | Timer | Scanned scan | Scan_failed

datatype rule = Age | Endless nat

definition for_outlook :: "outlook option \<Rightarrow> rule" where
  "for_outlook ol = (case ol of Some ol \<Rightarrow> if endless ol then Endless (reachable ol) else Age | None \<Rightarrow> Age)"

datatype script_action =
    Scan
  | Kill int duration rule
  | Watch int duration rule
  | Wait int nat nat
  | Relax int duration

record tracked_copy =
  t_start :: duration
  t_rule :: rule
  t_waited :: bool

record machine =
  deadline :: "duration option"
  tracked :: "int \<rightharpoonup> tracked_copy"

definition machine_new :: machine where
  "machine_new = \<lparr>deadline = None, tracked = Map.empty\<rparr>"

definition sooner :: "duration option \<Rightarrow> duration \<Rightarrow> duration" where
  "sooner d t = (case d of None \<Rightarrow> t | Some d \<Rightarrow> min d t)"

definition fresh :: "scan \<Rightarrow> script_copy \<Rightarrow> nat" where
  "fresh sc c = length (filter (\<lambda>m. c_start c \<le> m) (monitors sc))"

text \<open>The entry of a copy, and whether it is a new one; a reused pid is a new copy.\<close>

definition entry_of :: "scan \<Rightarrow> (int \<rightharpoonup> tracked_copy) \<Rightarrow> script_copy \<Rightarrow> tracked_copy \<times> bool" where
  "entry_of sc before c =
     (let t = \<lparr>t_start = c_start c, t_rule = for_outlook (s_outlook sc), t_waited = False\<rparr>
      in case before (c_pid c) of
           Some old \<Rightarrow> if t_start old = c_start c then (old, False) else (t, True)
         | None \<Rightarrow> (t, True))"

text \<open>When a copy is looked at again (\<open>None\<close>: it is stopped), its entry, a wait to announce and whether it relaxed.\<close>

definition check_copy ::
    "scan \<Rightarrow> duration \<Rightarrow> script_copy \<Rightarrow> tracked_copy \<Rightarrow> duration option \<times> tracked_copy \<times> nat option \<times> bool" where
  "check_copy sc now c t =
     (let age = now - c_start c;
          last_chance = c_start c + MAX_AGE + SLACK
      in if MAX_AGE \<le> age then (None, t, None, False)
         else case t_rule t of
           Age \<Rightarrow> (Some last_chance, t, None, False)
         | Endless _ \<Rightarrow>
             if age < STUCK_AGE then (Some (c_start c + STUCK_AGE + SLACK), t, None, False)
             else case for_outlook (s_outlook sc) of
               Age \<Rightarrow> (Some last_chance, t\<lparr>t_rule := Age\<rparr>, None, True)
             | Endless n \<Rightarrow>
                 if n \<le> fresh sc c then (None, t\<lparr>t_rule := Endless n\<rparr>, None, False)
                 else (Some (min (now + MONITOR_RETRY) last_chance), t\<lparr>t_rule := Endless n, t_waited := True\<rparr>,
                   if t_waited t then None else Some n, False))"

definition see_copy ::
    "scan \<Rightarrow> duration \<Rightarrow> script_action list \<times> machine \<times> (int \<rightharpoonup> tracked_copy) \<Rightarrow> script_copy \<Rightarrow>
     script_action list \<times> machine \<times> (int \<rightharpoonup> tracked_copy)" where
  "see_copy sc now = (\<lambda>(actions, m, before) c.
     let (t, new) = entry_of sc before c;
         (check_at, t, wait, relaxed) = check_copy sc now c t;
         before = before(c_pid c := None)
     in case check_at of
          None \<Rightarrow> (actions @ [Kill (c_pid c) (now - c_start c) (t_rule t)], m, before)
        | Some at \<Rightarrow>
            (actions @ (if new then [Watch (c_pid c) at (t_rule t)] else [])
               @ (case wait of Some n \<Rightarrow> [Wait (c_pid c) (fresh sc c) n] | None \<Rightarrow> [])
               @ (if relaxed then [Relax (c_pid c) at] else []),
             \<lparr>deadline = Some (sooner (deadline m) at), tracked = (tracked m)(c_pid c \<mapsto> t)\<rparr>, before))"

definition on_scanned :: "scan \<Rightarrow> duration \<Rightarrow> machine \<Rightarrow> script_action list \<times> machine" where
  "on_scanned sc now m =
     (case foldl (see_copy sc now) ([], machine_new, tracked m) (copies sc) of (actions, m, _) \<Rightarrow> (actions, m))"

definition machine_step :: "script_event \<Rightarrow> duration \<Rightarrow> machine \<Rightarrow> script_action list \<times> machine" where
  "machine_step event now m =
     (case event of
        Trigger \<Rightarrow> ([Scan], m)
      | Timer \<Rightarrow>
          (case deadline m of
             Some at \<Rightarrow> if at \<le> now then ([Scan], m\<lparr>deadline := None\<rparr>) else ([], m)
           | None \<Rightarrow> ([], m))
      | Scanned sc \<Rightarrow> on_scanned sc now m
      | Scan_failed \<Rightarrow> ([], m\<lparr>deadline := Some (sooner (deadline m) (now + SCAN_RETRY))\<rparr>))"

section \<open>The thread\<close>

text \<open>An entry of \<open>/proc\<close>: its name, and its two files unless the process has gone.\<close>

record proc_entry =
  e_name :: string
  e_cmdline :: "string option"
  e_stat :: "string option"

text \<open>The process an entry shows, if it is one of those looked for: whether it is a monitor, and its numbers.\<close>

definition read_entry :: "nat \<Rightarrow> proc_entry \<Rightarrow> (bool \<times> found_proc) option" where
  "read_entry hz e =
     Option.bind (parse_i32 (e_name e)) (\<lambda>pid.
     Option.bind (e_cmdline e) (\<lambda>cmdline.
       if \<not> is_hostapd_monitor cmdline \<and> \<not> is_post_wifi_cmdline cmdline then None
       else Option.bind (e_stat e) (\<lambda>stat.
         map_option (\<lambda>(ppid, ticks). (is_hostapd_monitor cmdline, \<lparr>f_pid = pid, f_ppid = ppid, f_start = ticks_to_duration ticks hz\<rparr>))
           (parse_stat stat))))"

definition scan_proc :: "nat \<Rightarrow> proc_entry list \<Rightarrow> scan" where
  "scan_proc hz entries =
     (let read = List.map_filter (read_entry hz) entries;
          found = map snd (filter (\<lambda>(monitor, _). \<not> monitor) read);
          mons = map (\<lambda>(_, f). (f_ppid f, f_start f)) (filter fst read)
      in \<lparr>copies = top_level found, monitors = monitors_up mons found, s_outlook = None\<rparr>)"

text \<open>What a scan reads (\<open>None\<close>: unreadable), and when.\<close>

record proc_read =
  p_now :: duration
  p_entries :: "proc_entry list option"
  p_config :: "string option"

datatype script_effect = Did script_action | Complained

record script_runtime =
  rt_machine :: machine
  scan_failing :: bool

definition runtime_new :: script_runtime where
  "runtime_new = \<lparr>rt_machine = machine_new, scan_failing = False\<rparr>"

text \<open>The configuration is read when the scan found a copy.\<close>

definition judged_scan :: "nat \<Rightarrow> proc_entry list \<Rightarrow> string option \<Rightarrow> scan" where
  "judged_scan hz entries config =
     (let sc = scan_proc hz entries
      in if copies sc \<noteq> [] then sc\<lparr>s_outlook := map_option from_config config\<rparr> else sc)"

definition runtime_scan :: "nat \<Rightarrow> proc_read \<Rightarrow> script_runtime \<Rightarrow> script_effect list \<times> script_runtime" where
  "runtime_scan hz pr rt =
     (case p_entries pr of
        None \<Rightarrow>
          (if scan_failing rt then [] else [Complained],
           \<lparr>rt_machine = snd (machine_step Scan_failed (p_now pr) (rt_machine rt)), scan_failing = True\<rparr>)
      | Some entries \<Rightarrow>
          (case machine_step (Scanned (judged_scan hz entries (p_config pr))) (p_now pr) (rt_machine rt) of
             (actions, m) \<Rightarrow> (map Did actions, \<lparr>rt_machine = m, scan_failing = False\<rparr>)))"

definition act :: "nat \<Rightarrow> proc_read \<Rightarrow> script_effect list \<times> script_runtime \<Rightarrow> script_action \<Rightarrow>
    script_effect list \<times> script_runtime" where
  "act hz pr = (\<lambda>(effects, rt) a.
     case a of
       Scan \<Rightarrow> (case runtime_scan hz pr rt of (more_effects, rt) \<Rightarrow> (effects @ more_effects, rt))
     | _ \<Rightarrow> (effects @ [Did a], rt))"

definition handle :: "nat \<Rightarrow> script_event \<Rightarrow> duration \<Rightarrow> proc_read \<Rightarrow> script_runtime \<Rightarrow> script_effect list \<times> script_runtime" where
  "handle hz event now pr rt =
     (case machine_step event now (rt_machine rt) of
        (actions, m) \<Rightarrow> foldl (act hz pr) ([], rt\<lparr>rt_machine := m\<rparr>) actions)"

text \<open>Without inotify: a sweep, which never reads the configuration.\<close>

definition sweep :: "nat \<Rightarrow> proc_read \<Rightarrow> machine \<Rightarrow> script_action list \<times> machine" where
  "sweep hz pr m =
     (let sc = (case p_entries pr of Some entries \<Rightarrow> scan_proc hz entries | None \<Rightarrow> \<lparr>copies = [], monitors = [], s_outlook = None\<rparr>);
          (actions, m) = machine_step (Scanned sc) (p_now pr) m
      in (filter (\<lambda>a. case a of Kill _ _ _ \<Rightarrow> True | _ \<Rightarrow> False) actions, m))"

end
