(* ===== verification/Standby_Inputs.thy ===== *)
theory Standby_Inputs
  imports Key_Log Stuck_Script
begin

text \<open>
  What the standby Wi-Fi guard reads (\<open>zte-agent/src/standby_guard.rs\<close>): the firmware's power modes, from
  events and from \<open>key.log\<close>, its Wi-Fi reports, followed line by line, and the user's switch.
\<close>

section \<open>Power modes\<close>

datatype power = On | Standby

definition classify_mode :: "string \<Rightarrow> power option" where
  "classify_mode mode =
     (if prefix ''mode_power_off'' mode then Some Standby
      else if mode = ''mode_startup'' \<or> mode = ''mode_initial'' \<or> prefix ''mode_power_on'' mode then Some On
      else None)"

definition entering_standby :: "string \<Rightarrow> bool" where
  "entering_standby mode \<longleftrightarrow> mode = ''mode_power_off'' \<or> suffix ''_quickening'' mode"

definition MARK :: string where "MARK = ''setModeState from ''"

definition set_mode_target :: "string \<Rightarrow> string option" where
  "set_mode_target line =
     Option.bind (find_str MARK line) (\<lambda>i.
       case split_whitespace (drop (i + length MARK) line) of
         old # to # new # _ \<Rightarrow> if to = ''to'' \<and> prefix ''mode_'' new then Some new else None
       | _ \<Rightarrow> None)"

fun find_map :: "('a \<Rightarrow> 'b option) \<Rightarrow> 'a list \<Rightarrow> 'b option" where
  "find_map f [] = None"
| "find_map f (x # xs) = (case f x of Some y \<Rightarrow> Some y | None \<Rightarrow> find_map f xs)"

definition newest_set_mode :: "string \<Rightarrow> string option" where
  "newest_set_mode t = find_map set_mode_target (rev (text_lines t))"

definition MODE_BEING_WRITTEN :: string where
  "MODE_BEING_WRITTEN = ''a setModeState line still being written''"

definition KEY_LOG_CHUNK :: nat where "KEY_LOG_CHUNK = 64 * 1024"

definition key_log_mode :: "log_file \<Rightarrow> log_file \<Rightarrow> nat \<Rightarrow> string option option" where
  "key_log_mode log rotated chunk =
     map_option (\<lambda>(found, pending). if find_str ''setModeState'' pending \<noteq> None then Some MODE_BEING_WRITTEN else found)
       (newest log rotated chunk newest_set_mode)"

section \<open>Wi-Fi reports\<close>

datatype wifi_line = PowerOn | PowerOff | Other_line

definition parse_wifi_line :: "string \<Rightarrow> wifi_line" where
  "parse_wifi_line line =
     (let ws = split_whitespace line
      in if length ws \<ge> 3 \<and> hd ws = ''1'' \<and> last ws = ''success''
         then (if last (butlast ws) = ''power_on'' then PowerOn
               else if last (butlast ws) = ''power_off'' then PowerOff
               else Other_line)
         else Other_line)"

definition newest_power_line :: "string list \<Rightarrow> wifi_line option" where
  "newest_power_line ls = find (\<lambda>l. l \<noteq> Other_line) (map parse_wifi_line (rev ls))"

definition user_wants_wifi :: "string \<Rightarrow> bool option" where
  "user_wants_wifi config = map_option (\<lambda>v. v = ''1'') (config_option config ''zte_mbb'' ''wifi_onoff_by_user'')"

section \<open>Following the log\<close>

definition MAX_FOLLOW :: nat where "MAX_FOLLOW = 16 * 1024"

definition complete_lines :: "bytes \<Rightarrow> bool \<Rightarrow> string list \<times> nat" where
  "complete_lines buf inside =
     (let stop = through_last_LF buf;
          start = (if inside then through_first_LF buf else 0)
      in if stop = 0 then ([], 0)
         else (block_lines (take (stop - min start stop) (drop (min start stop) buf)), stop))"

text \<open>A file that exists: its inode and its bytes.\<close>

record line_cursor =
  ino :: "nat option"
  offset :: nat

definition at_end :: "(nat \<times> bytes) option \<Rightarrow> line_cursor" where
  "at_end file = (case file of Some (i, content) \<Rightarrow> \<lparr>ino = Some i, offset = length content\<rparr> | None \<Rightarrow> \<lparr>ino = None, offset = 0\<rparr>)"

definition cursor_history :: "line_cursor \<Rightarrow> (nat \<times> bytes) option \<Rightarrow> string list" where
  "cursor_history c file =
     (case file of
        None \<Rightarrow> []
      | Some (i, content) \<Rightarrow>
          if ino c \<noteq> Some i then []
          else
            let from_byte = offset c - MAX_FOLLOW
            in (case read_range content from_byte (offset c) of
                  None \<Rightarrow> []
                | Some buf \<Rightarrow> fst (complete_lines buf (from_byte > 0))))"

definition read_new :: "(nat \<times> bytes) option \<Rightarrow> line_cursor \<Rightarrow> string list \<times> line_cursor" where
  "read_new file c =
     (case file of
        None \<Rightarrow> ([], c)
      | Some (i, content) \<Rightarrow>
          let c = (if ino c \<noteq> Some i \<or> length content < offset c then \<lparr>ino = Some i, offset = 0\<rparr> else c);
              from_byte = max (offset c) (length content - MAX_FOLLOW)
          in (case read_range content from_byte (length content) of
                None \<Rightarrow> ([], c)
              | Some buf \<Rightarrow>
                  (case complete_lines buf (from_byte > offset c) of
                     (ls, consumed) \<Rightarrow> (ls, c\<lparr>offset := from_byte + consumed\<rparr>))))"

section \<open>What key.log says\<close>

lemma find_map_append: "find_map f (xs @ ys) = (case find_map f xs of Some y \<Rightarrow> Some y | None \<Rightarrow> find_map f ys)"
  by (induction xs) (auto split: option.split)

interpretation set_mode: newest_find newest_set_mode
proof
  show "newest_set_mode [] = None" by (simp add: newest_set_mode_def text_lines.simps)
next
  fix a b
  assume "block a"
  from block_lines_append [OF this, of b]
  show "newest_set_mode (from_utf8_lossy (a @ b)) =
      (case newest_set_mode (from_utf8_lossy b) of Some x \<Rightarrow> Some x | None \<Rightarrow> newest_set_mode (from_utf8_lossy a))"
    by (simp add: newest_set_mode_def block_lines_def find_map_append split: option.split)
qed

definition readable :: "bytes \<Rightarrow> log_file" where
  "readable content = \<lparr>lf_len = length content, lf_open = Some (read_range content)\<rparr>"

definition complete_part :: "bytes \<Rightarrow> string list" where
  "complete_part content = block_lines (take (through_last_LF content) content)"

text \<open>
  C22: reading \<open>key.log\<close> backwards, window by window, gives the mode that reading all of it would: unless a mode line is
  still being written at the end, the mode of the newest complete mode line of the log, or of the rotated log when the
  log has none. The lines must be shorter than a window.
\<close>

theorem key_log_mode_newest:
  assumes "0 < chunk" and "short_lines chunk 0 log" and "short_lines chunk 0 rotated"
  shows "key_log_mode (readable log) (readable rotated) chunk =
    Some (if find_str ''setModeState'' (from_utf8_lossy (take chunk (drop (through_last_LF log) log))) \<noteq> None
          then Some MODE_BEING_WRITTEN
          else find_map set_mode_target (rev (complete_part rotated @ complete_part log)))"
  using set_mode.newest_found [OF assms]
  by (simp add: key_log_mode_def readable_def complete_part_def block_lines_def newest_set_mode_def find_map_append split: option.split)

section \<open>Every line once\<close>

text \<open>Reads of a growing file.\<close>

fun read_all :: "nat \<Rightarrow> bytes list \<Rightarrow> line_cursor \<Rightarrow> string list \<times> line_cursor" where
  "read_all i [] c = ([], c)"
| "read_all i (content # rest) c =
     (case read_new (Some (i, content)) c of (ls, c) \<Rightarrow> (case read_all i rest c of (more_lines, c) \<Rightarrow> (ls @ more_lines, c)))"

lemma complete_lines_uncut: "complete_lines buf False = (complete_part buf, through_last_LF buf)"
  by (simp add: complete_lines_def complete_part_def block_lines_def from_utf8_lossy_def of_bytes_def text_lines.simps Let_def)

lemma read_new_growing:
  assumes "ino c = Some i" and "offset c \<le> length content" and "length content \<le> offset c + MAX_FOLLOW"
  shows "read_new (Some (i, content)) c =
    (complete_part (drop (offset c) content), c\<lparr>offset := offset c + through_last_LF (drop (offset c) content)\<rparr>)"
proof -
  have "max (offset c) (length content - MAX_FOLLOW) = offset c" using assms(2,3) by simp
  then show ?thesis
    using assms(1,2) by (simp add: read_new_def read_range_def complete_lines_uncut Let_def)
qed

lemma complete_part_step:
  "complete_part (d @ e) = complete_part d @ complete_part (drop (through_last_LF d) d @ e)"
  "through_last_LF (d @ e) = through_last_LF d + through_last_LF (drop (through_last_LF d) d @ e)"
proof -
  let ?x = "take (through_last_LF d) d" and ?t = "drop (through_last_LF d) d"
  have b: "block ?x" by (rule block_through)
  have l: "length ?x = through_last_LF d" by (simp add: through_last_LF_le)
  have "d @ e = ?x @ ?t @ e" by simp
  then show 2: "through_last_LF (d @ e) = through_last_LF d + through_last_LF (?t @ e)"
    using through_append [OF b, of "?t @ e"] l by (metis append_assoc append_take_drop_id)
  have "take (through_last_LF (d @ e)) (d @ e) = ?x @ take (through_last_LF (?t @ e)) (?t @ e)"
    unfolding 2 take_add using through_last_LF_le [of d] by simp
  then show "complete_part (d @ e) = complete_part d @ complete_part (?t @ e)"
    using block_lines_append [OF b] by (simp add: complete_part_def)
qed

text \<open>The file only grows, and what is not read yet fits into a read.\<close>

fun keeps_up :: "nat \<Rightarrow> bytes list \<Rightarrow> bool" where
  "keeps_up start [] = True"
| "keeps_up start (x # xs) \<longleftrightarrow>
     start \<le> length x \<and> length x \<le> start + MAX_FOLLOW \<and> (case xs of [] \<Rightarrow> True | y # _ \<Rightarrow> prefix x y) \<and>
     keeps_up (start + through_last_LF (drop start x)) xs"

text \<open>
  C23: the follower gives every line once. While a file only grows, and no read finds more than sixteen kilobytes that
  are new, the lines its reads give are, together and in order, the complete lines behind where the cursor stood;
  a line still being written comes with the read that finds its end.
\<close>

theorem lines_read_once:
  assumes "ino c = Some i" and "contents \<noteq> []" and "keeps_up (offset c) contents"
  shows "fst (read_all i contents c) = complete_part (drop (offset c) (last contents))"
  using assms
proof (induction contents arbitrary: c)
  case (Cons x xs)
  let ?c = "c\<lparr>offset := offset c + through_last_LF (drop (offset c) x)\<rparr>"
  have new: "read_new (Some (i, x)) c = (complete_part (drop (offset c) x), ?c)"
    using Cons.prems by (intro read_new_growing) simp_all
  show ?case
  proof (cases "xs = []")
    case True
    then show ?thesis by (simp add: new)
  next
    case False
    then have IH: "fst (read_all i xs ?c) = complete_part (drop (offset ?c) (last xs))"
      using Cons.prems by (intro Cons.IH) simp_all
    have grown: "prefix x (last xs)"
    proof -
      have "keeps_up o1 (x # xs) \<Longrightarrow> xs \<noteq> [] \<Longrightarrow> prefix x (last xs)" for o1 x xs
      proof (induction xs arbitrary: o1 x)
        case (Cons y ys)
        then show ?case
          using Cons.IH [of "o1 + through_last_LF (drop o1 x)" y] by (cases "ys = []") (auto intro: prefix_order.order_trans)
      qed simp
      with Cons.prems(3) False show ?thesis by blast
    qed
    then obtain e where e: "last xs = x @ e" by (auto simp: prefix_def)
    have "offset c \<le> length x" using Cons.prems(3) by simp
    then have "drop (offset c) (last xs) = drop (offset c) x @ e"
      "drop (offset ?c) (last xs) = drop (through_last_LF (drop (offset c) x)) (drop (offset c) x) @ e"
      using through_last_LF_le [of "drop (offset c) x"] by (simp_all add: e add.commute)
    with complete_part_step(1) [of "drop (offset c) x" e] IH False show ?thesis
      by (simp add: new case_prod_unfold)
  qed
qed simp

text \<open>A line that comes in two pieces, and an empty log.\<close>

theorem lines_read_once_witness:
  "fst (read_all 7 [[0x61], [0x61, LF, 0x62]] \<lparr>ino = Some 7, offset = 0\<rparr>) = complete_part [0x61, LF, 0x62]"
  using lines_read_once [of "\<lparr>ino = Some 7, offset = 0\<rparr>" 7 "[[0x61], [0x61, LF, 0x62]]"]
  by (simp add: MAX_FOLLOW_def)

theorem key_log_mode_newest_witness:
  "key_log_mode (readable []) (readable [0x61, LF]) KEY_LOG_CHUNK = Some (find_map set_mode_target (rev (complete_part [0x61, LF])))"
proof -
  have "find_str ''setModeState'' (from_utf8_lossy []) = None" by (simp add: from_utf8_lossy_def of_bytes_def)
  then show ?thesis
    using key_log_mode_newest [of KEY_LOG_CHUNK "[]" "[0x61, LF]"]
    by (simp add: KEY_LOG_CHUNK_def complete_part_def block_lines_def from_utf8_lossy_def of_bytes_def text_lines.simps)
qed

end
