(* ===== verification/Standby_Guard.thy ===== *)
theory Standby_Guard
  imports Standby_Inputs
begin

text \<open>
  The standby Wi-Fi guard (\<open>zte-agent/src/standby_guard.rs\<close>): the machine that decides when Wi-Fi, switched on by
  the firmware in standby, is turned off again, the firmware steps of a switch, and the runtime that feeds the machine
  with power events and the lines of the test log.
\<close>

section \<open>The machine\<close>

definition MAX_ACTIONS :: nat where "MAX_ACTIONS = 3"
definition CONFIRM_WITHIN :: duration where "CONFIRM_WITHIN = from_secs 30"
definition RESTORE_AFTER :: duration where "RESTORE_AFTER = from_secs 90"
definition BOOT_SETTLE :: duration where "BOOT_SETTLE = from_secs 600"

datatype guard_event =
    Power_action string
  | Wifi wifi_line
  | Key_log "string option"
  | User_switch "bool option"
  | Guard_timer

datatype guard_note =
    Mode power string bool bool
  | Assumed_on
  | Learned_on "string option"
  | Missed_power_on string
  | Act_note string nat bool bool
  | Entering string
  | Not_off_before string
  | Key_log_disagrees "string option" bool
  | In_flight
  | Limit
  | Confirmed duration
  | Unconfirmed bool
  | Not_back "bool option"

datatype guard_action = Read_key_log | Read_user_switch | Wifi_off | Wifi_on | Log_note guard_note

record check =
  ck_again :: bool
  was_off :: bool

record waiting =
  since :: duration
  w_until :: duration
  w_again :: bool

record guard =
  g_power :: "power option"
  acted :: nat
  g_check :: "check option"
  g_waiting :: "waiting option"
  g_wifi :: "wifi_line option"
  restore_at :: "duration option"
  asking :: bool

definition guard_default :: guard where
  "guard_default = \<lparr>g_power = None, acted = 0, g_check = None, g_waiting = None, g_wifi = None, restore_at = None, asking = False\<rparr>"

definition guard_start :: "duration \<Rightarrow> wifi_line option \<Rightarrow> guard \<times> guard_action list" where
  "guard_start now newest_report =
     (let g = guard_default\<lparr>g_wifi := (if newest_report = Some Other_line then None else newest_report)\<rparr>
      in if now < BOOT_SETTLE then (g\<lparr>g_power := Some On\<rparr>, [Log_note Assumed_on]) else (g, []))"

definition earliest :: "duration option \<Rightarrow> duration option \<Rightarrow> duration option" where
  "earliest a b = (case (a, b) of (Some a, Some b) \<Rightarrow> Some (min a b) | (Some a, None) \<Rightarrow> Some a | (None, b) \<Rightarrow> b)"

definition guard_deadline :: "guard \<Rightarrow> duration option" where
  "guard_deadline g = earliest (map_option w_until (g_waiting g)) (restore_at g)"

definition on_power :: "string \<Rightarrow> duration \<Rightarrow> guard \<Rightarrow> guard_action list \<times> guard" where
  "on_power action now g =
     (case classify_mode action of
        None \<Rightarrow> ([], g)
      | Some p \<Rightarrow>
          if g_power g = Some p then ([], g)
          else
            let dropped = (p = On \<and> g_waiting g \<noteq> None);
                check_back = (p = On \<and> acted g > 0);
                g = g\<lparr>g_power := Some p, asking := False\<rparr>
            in ([Log_note (Mode p action dropped check_back)],
                case p of
                  On \<Rightarrow> g\<lparr>g_waiting := None, restore_at := (if check_back then Some (now + RESTORE_AFTER) else None), acted := 0, g_check := None\<rparr>
                | Standby \<Rightarrow> g\<lparr>restore_at := None\<rparr>))"

definition on_wifi_on :: "bool \<Rightarrow> guard \<Rightarrow> guard_action list \<times> guard" where
  "on_wifi_on off_before g =
     (if g_power g = Some On then ([], g)
      else if g_waiting g \<noteq> None then ([Log_note In_flight], g)
      else ([Read_key_log], g\<lparr>g_check := Some \<lparr>ck_again = False, was_off = off_before\<rparr>\<rparr>))"

definition on_wifi :: "wifi_line \<Rightarrow> duration \<Rightarrow> guard \<Rightarrow> guard_action list \<times> guard" where
  "on_wifi line now g =
     (case line of
        Other_line \<Rightarrow> ([], g)
      | PowerOff \<Rightarrow>
          (case g_waiting g of Some w \<Rightarrow> [Log_note (Confirmed (now - since w))] | None \<Rightarrow> [],
           g\<lparr>g_wifi := Some PowerOff, g_waiting := None\<rparr>)
      | PowerOn \<Rightarrow> on_wifi_on (g_wifi g = Some PowerOff) (g\<lparr>g_wifi := Some PowerOn, restore_at := None\<rparr>))"

text \<open>What \<open>key.log\<close> says to an asked guard: its answer in the source's order of cases.\<close>

definition judge_mode :: "string option \<Rightarrow> check \<Rightarrow> duration \<Rightarrow> guard \<Rightarrow> guard_action list \<times> guard" where
  "judge_mode mode ck now g =
     (let unknown = (g_power g = None) in
      case (Option.bind mode classify_mode, mode) of
        (Some Standby, Some m) \<Rightarrow>
          if entering_standby m then ([Log_note (Entering m)], g)
          else if unknown \<and> \<not> was_off ck then ([Log_note (Not_off_before m)], g)
          else if MAX_ACTIONS \<le> acted g then ([Log_note Limit], g)
          else ([Log_note (Act_note m (acted g + 1) unknown (ck_again ck)), Wifi_off],
                g\<lparr>g_power := Some Standby, acted := acted g + 1,
                  g_waiting := Some \<lparr>since = now, w_until = now + CONFIRM_WITHIN, w_again = ck_again ck\<rparr>\<rparr>)
      | (Some On, Some m) \<Rightarrow>
          if \<not> unknown
          then ([Log_note (Missed_power_on m)], g\<lparr>g_power := Some On, acted := 0, g_waiting := None, restore_at := None\<rparr>)
          else ([Log_note (Learned_on (Some m))], g\<lparr>g_power := Some On\<rparr>)
      | (None, None) \<Rightarrow>
          if unknown then ([Log_note (Learned_on None)], g\<lparr>g_power := Some On\<rparr>)
          else ([Log_note (Key_log_disagrees None (\<not> unknown))], g)
      | (_, mode) \<Rightarrow> ([Log_note (Key_log_disagrees mode (\<not> unknown))], g))"

definition on_key_log :: "string option \<Rightarrow> duration \<Rightarrow> guard \<Rightarrow> guard_action list \<times> guard" where
  "on_key_log mode now g =
     (case g_check g of
        None \<Rightarrow> ([], g)
      | Some ck \<Rightarrow>
          let g = g\<lparr>g_check := None\<rparr>
          in if g_power g = Some On then ([], g) else judge_mode mode ck now g)"

definition on_user_switch :: "bool option \<Rightarrow> guard \<Rightarrow> guard_action list \<times> guard" where
  "on_user_switch on g =
     (if \<not> asking g \<or> g_power g \<noteq> Some On \<or> g_wifi g \<noteq> Some PowerOff then ([], g\<lparr>asking := False\<rparr>)
      else (Log_note (Not_back on) # (if on = Some True then [Wifi_on] else []), g\<lparr>asking := False\<rparr>))"

definition on_confirm_timer :: "duration \<Rightarrow> guard \<Rightarrow> guard_action list \<times> guard" where
  "on_confirm_timer now g =
     (case g_waiting g of
        Some w \<Rightarrow>
          if w_until w \<le> now
          then
            let retrying = (\<not> w_again w \<and> g_power g = Some Standby \<and> acted g < MAX_ACTIONS);
                g = g\<lparr>g_waiting := None\<rparr>
            in if retrying
               then ([Log_note (Unconfirmed True), Read_key_log], g\<lparr>g_check := Some \<lparr>ck_again = True, was_off = True\<rparr>\<rparr>)
               else ([Log_note (Unconfirmed False)], g)
          else ([], g)
      | None \<Rightarrow> ([], g))"

definition on_restore_timer :: "duration \<Rightarrow> guard \<Rightarrow> guard_action list \<times> guard" where
  "on_restore_timer now g =
     (case restore_at g of
        Some at \<Rightarrow>
          if at \<le> now
          then
            let g = g\<lparr>restore_at := None\<rparr>
            in if g_power g = Some On \<and> g_wifi g = Some PowerOff then ([Read_user_switch], g\<lparr>asking := True\<rparr>) else ([], g)
          else ([], g)
      | None \<Rightarrow> ([], g))"

definition on_guard_timer :: "duration \<Rightarrow> guard \<Rightarrow> guard_action list \<times> guard" where
  "on_guard_timer now g =
     (case on_confirm_timer now g of (a, g) \<Rightarrow> (case on_restore_timer now g of (b, g) \<Rightarrow> (a @ b, g)))"

definition guard_step :: "guard_event \<Rightarrow> duration \<Rightarrow> guard \<Rightarrow> guard_action list \<times> guard" where
  "guard_step event now g =
     (case event of
        Power_action a \<Rightarrow> on_power a now g
      | Wifi line \<Rightarrow> on_wifi line now g
      | Key_log mode \<Rightarrow> on_key_log mode now g
      | User_switch on \<Rightarrow> on_user_switch on g
      | Guard_timer \<Rightarrow> on_guard_timer now g)"

section \<open>Switching Wi-Fi\<close>

datatype firmware_step = Set_wifi bool | Commit | Revert | Reload

text \<open>
  The steps run in a world \<open>'w\<close> that answers each of them, and in which a power change may have come
  whenever it is asked for.
\<close>

definition switch_wifi_with ::
    "bool \<Rightarrow> ('w \<Rightarrow> bool) \<Rightarrow> (firmware_step \<Rightarrow> 'w \<Rightarrow> (string + unit) \<times> 'w) \<Rightarrow> 'w \<Rightarrow> (string + unit) \<times> 'w" where
  "switch_wifi_with on interrupted run w =
     (if interrupted w then (Err ''a power change came first; nothing changed'', w)
      else case run (Set_wifi on) w of
        (Inl e, w) \<Rightarrow> (Err e, w)
      | (Inr _, w) \<Rightarrow>
          (case (if interrupted w then (Err ''a power change came before the commit'', w) else run Commit w) of
             (Inl e, w) \<Rightarrow>
               (case run Revert w of
                  (Inr _, w) \<Rightarrow> (Err (e @ ''; reverted the uncommitted change''), w)
                | (Inl r, w) \<Rightarrow> (Err (e @ ''; '' @ r), w))
           | (Inr _, w) \<Rightarrow>
               if interrupted w then (Err ''a power change came; left the reload to the firmware'', w)
               else run Reload w))"

section \<open>The runtime\<close>

text \<open>
  Received power actions are counted by class before they are queued; a switch remembers how many of the
  class that undoes it the guard had been fed. The counters are \<open>u64\<close> in the code and numbers here; counting an action
  and queueing it are one step, in the code the count comes first, so a switch may only notice a power change earlier.
\<close>

record switch_thread =
  sw_on :: bool
  sw_undo :: power
  sw_seen :: nat

record guard_runtime =
  r_guard :: guard
  r_events :: "string list"
  r_cursor :: line_cursor
  received_on :: nat
  received_standby :: nat
  fed_on :: nat
  fed_standby :: nat
  switches :: "switch_thread list"

definition received_of :: "power \<Rightarrow> guard_runtime \<Rightarrow> nat" where
  "received_of p r = (case p of On \<Rightarrow> received_on r | Standby \<Rightarrow> received_standby r)"

text \<open>\<open>wifi-guard-ev\<close> forwards an event's action.\<close>

definition forward_action :: "string \<Rightarrow> guard_runtime \<Rightarrow> guard_runtime" where
  "forward_action action r =
     (case classify_mode action of
        Some On \<Rightarrow> r\<lparr>received_on := received_on r + 1, r_events := r_events r @ [action]\<rparr>
      | Some Standby \<Rightarrow> r\<lparr>received_standby := received_standby r + 1, r_events := r_events r @ [action]\<rparr>
      | None \<Rightarrow> r\<lparr>r_events := r_events r @ [action]\<rparr>)"

text \<open>What the files say when an event makes the guard read them: \<open>key.log\<close>'s mode and the Wi-Fi configuration.\<close>

record files_now =
  f_now :: duration
  f_mode :: "string option"
  f_config :: "string option"

definition start_switch :: "guard_action \<Rightarrow> guard_runtime \<Rightarrow> guard_runtime" where
  "start_switch a r =
     (case a of
        Wifi_off \<Rightarrow> r\<lparr>switches := switches r @ [\<lparr>sw_on = False, sw_undo = On, sw_seen = fed_on r\<rparr>]\<rparr>
      | Wifi_on \<Rightarrow> r\<lparr>switches := switches r @ [\<lparr>sw_on = True, sw_undo = Standby, sw_seen = fed_standby r\<rparr>]\<rparr>
      | _ \<Rightarrow> r)"

text \<open>
  An action is run. The answers to the two reads make the guard log or switch, but never read again
  (\<open>answers_read_nothing\<close>), so what they ask for is started at once.
\<close>

definition guard_feed :: "guard_event \<Rightarrow> duration \<Rightarrow> guard_runtime \<Rightarrow> guard_action list \<times> guard_runtime" where
  "guard_feed event now r = (case guard_step event now (r_guard r) of (acts, g) \<Rightarrow> (acts, r\<lparr>r_guard := g\<rparr>))"

definition run_action :: "files_now \<Rightarrow> guard_action \<Rightarrow> guard_runtime \<Rightarrow> guard_runtime" where
  "run_action fs a r =
     (case a of
        Read_key_log \<Rightarrow> (case guard_feed (Key_log (f_mode fs)) (f_now fs) r of (acts, r) \<Rightarrow> fold start_switch acts r)
      | Read_user_switch \<Rightarrow>
          (case guard_feed (User_switch (Option.bind (f_config fs) user_wants_wifi)) (f_now fs) r of
             (acts, r) \<Rightarrow> fold start_switch acts r)
      | _ \<Rightarrow> start_switch a r)"

definition guard_handle :: "files_now \<Rightarrow> guard_event \<Rightarrow> duration \<Rightarrow> guard_runtime \<Rightarrow> guard_runtime" where
  "guard_handle fs event now r =
     (case guard_feed event now r of (acts, r) \<Rightarrow> fold (run_action fs) acts r)"

definition feed_one :: "files_now \<Rightarrow> duration \<Rightarrow> string \<Rightarrow> guard_runtime \<Rightarrow> guard_runtime" where
  "feed_one fs now action r =
     guard_handle fs (Power_action action) now
       (case classify_mode action of
          Some On \<Rightarrow> r\<lparr>fed_on := fed_on r + 1\<rparr>
        | Some Standby \<Rightarrow> r\<lparr>fed_standby := fed_standby r + 1\<rparr>
        | None \<Rightarrow> r)"

definition feed_power_events :: "files_now \<Rightarrow> duration \<Rightarrow> guard_runtime \<Rightarrow> guard_runtime" where
  "feed_power_events fs now r = fold (feed_one fs now) (r_events r) (r\<lparr>r_events := []\<rparr>)"

definition on_test_log :: "files_now \<Rightarrow> duration \<Rightarrow> (nat \<times> bytes) option \<Rightarrow> guard_runtime \<Rightarrow> guard_runtime" where
  "on_test_log fs now file r =
     (let r = feed_power_events fs now r
      in case read_new file (r_cursor r) of
           (ls, c) \<Rightarrow> fold (\<lambda>l. guard_handle fs (Wifi (parse_wifi_line l)) now) ls (r\<lparr>r_cursor := c\<rparr>))"

definition runtime_timer :: "files_now \<Rightarrow> duration \<Rightarrow> guard_runtime \<Rightarrow> guard_runtime" where
  "runtime_timer fs now r = guard_handle fs Guard_timer now r"

definition runtime_start :: "duration \<Rightarrow> (nat \<times> bytes) option \<Rightarrow> guard_runtime" where
  "runtime_start now file =
     (let c = at_end file;
          (g, acts) = guard_start now (newest_power_line (cursor_history c file))
      in fold start_switch acts
           \<lparr>r_guard = g, r_events = [], r_cursor = c, received_on = 0, received_standby = 0, fed_on = 0, fed_standby = 0, switches = []\<rparr>)"

text \<open>A switch gives up once its class has been received beyond what the guard was fed.\<close>

definition interrupted_now :: "switch_thread \<Rightarrow> guard_runtime \<Rightarrow> bool" where
  "interrupted_now t r \<longleftrightarrow> received_of (sw_undo t) r \<noteq> sw_seen t"

end
