(* ===== verification/Standby_Safety.thy ===== *)
theory Standby_Safety
  imports Standby_Guard Run_Invariant
begin

text \<open>
  What the standby guard can and cannot do, over any sequence of events: how often it turns Wi-Fi off, when,
  when it switches it on again, and that a switch which a power change overtakes leaves nothing half done.
\<close>

section \<open>Actions of a step\<close>

definition offs :: "guard_action list \<Rightarrow> nat" where "offs acts = length (filter (\<lambda>a. a = Wifi_off) acts)"
definition ons :: "guard_action list \<Rightarrow> nat" where "ons acts = length (filter (\<lambda>a. a = Wifi_on) acts)"

lemma act_counts [simp]:
  "offs [] = 0" "ons [] = 0"
  "offs (a # acts) = (if a = Wifi_off then 1 else 0) + offs acts"
  "ons (a # acts) = (if a = Wifi_on then 1 else 0) + ons acts"
  "offs (a1 @ a2) = offs a1 + offs a2" "ons (a1 @ a2) = ons a1 + ons a2"
  by (simp_all add: offs_def ons_def)

lemmas guard_defs = on_power_def on_wifi_def on_wifi_on_def on_key_log_def on_user_switch_def
  on_guard_timer_def on_confirm_timer_def on_restore_timer_def

text \<open>What an asked guard answers, case by case.\<close>

lemma judge_mode_cases:
  obtains (off) m where "mode = Some m" "classify_mode m = Some Standby" "\<not> entering_standby m" "acted g < MAX_ACTIONS"
      "g_power g = None \<Longrightarrow> was_off ck"
      "judge_mode mode ck now g = ([Log_note (Act_note m (acted g + 1) (g_power g = None) (ck_again ck)), Wifi_off],
        g\<lparr>g_power := Some Standby, acted := acted g + 1,
          g_waiting := Some \<lparr>since = now, w_until = now + CONFIRM_WITHIN, w_again = ck_again ck\<rparr>\<rparr>)"
  | (missed) m where "g_power g \<noteq> None" "classify_mode m = Some On"
      "judge_mode mode ck now g = ([Log_note (Missed_power_on m)], g\<lparr>g_power := Some On, acted := 0, g_waiting := None, restore_at := None\<rparr>)"
  | (learned) m where "g_power g = None" "judge_mode mode ck now g = ([Log_note (Learned_on m)], g\<lparr>g_power := Some On\<rparr>)"
  | (logs) n where "judge_mode mode ck now g = ([Log_note n], g)"
proof (cases mode)
  case None
  then show ?thesis
    by (cases "g_power g") (auto simp: judge_mode_def Let_def intro: learned logs)
next
  case (Some m)
  show ?thesis
  proof (cases "classify_mode m")
    case None
    with Some show ?thesis by (intro logs [of "Key_log_disagrees (Some m) (g_power g \<noteq> None)"]) (simp_all add: judge_mode_def Let_def)
  next
    case c: (Some p)
    show ?thesis
    proof (cases p)
      case On
      with Some c show ?thesis
        by (cases "g_power g") (auto simp: judge_mode_def Let_def intro: learned missed)
    next
      case Standby
      consider "entering_standby m" | "\<not> entering_standby m" "g_power g = None" "\<not> was_off ck"
        | "\<not> entering_standby m" "g_power g = None \<longrightarrow> was_off ck" "MAX_ACTIONS \<le> acted g"
        | "\<not> entering_standby m" "g_power g = None \<longrightarrow> was_off ck" "acted g < MAX_ACTIONS" by linarith
      then show ?thesis
      proof cases
        case 1
        with Some c Standby show ?thesis by (intro logs [of "Entering m"]) (simp_all add: judge_mode_def Let_def)
      next
        case 2
        with Some c Standby show ?thesis by (intro logs [of "Not_off_before m"]) (simp_all add: judge_mode_def Let_def)
      next
        case 3
        with Some c Standby show ?thesis by (intro logs [of Limit]) (auto simp: judge_mode_def Let_def)
      next
        case 4
        with Some c Standby show ?thesis by (intro off [of m]) (auto simp: judge_mode_def Let_def)
      qed
    qed
  qed
qed

section \<open>The guard under watch\<close>

text \<open>
  The guard with what it has done: the times it turned Wi-Fi off since it last took the router as on, the times it
  switched Wi-Fi on, the standbys in which it had turned Wi-Fi off and that ended, and the class of the newest power
  action it was fed.
\<close>

record watched =
  w_guard :: guard
  w_offs :: nat
  w_ons :: nat
  w_ended :: nat
  w_newest :: "power option"

definition after_acts :: "guard_action list \<times> guard \<Rightarrow> power option \<Rightarrow> watched \<Rightarrow> watched" where
  "after_acts = (\<lambda>(acts, g) p w.
     let turned_off = w_offs w + offs acts
     in \<lparr>w_guard = g, w_offs = (if g_power g = Some On then 0 else turned_off), w_ons = w_ons w + ons acts,
       w_ended = w_ended w + (if g_power g = Some On \<and> 0 < turned_off then 1 else 0),
       w_newest = (if p = None then w_newest w else p)\<rparr>)"

definition class_of :: "guard_event \<Rightarrow> power option" where
  "class_of event = (case event of Power_action a \<Rightarrow> classify_mode a | _ \<Rightarrow> None)"

definition watch_step :: "guard_event \<times> duration \<Rightarrow> watched \<Rightarrow> watched" where
  "watch_step = (\<lambda>(event, now) w. after_acts (guard_step event now (w_guard w)) (class_of event) w)"

definition watch_start :: "duration \<Rightarrow> wifi_line option \<Rightarrow> watched" where
  "watch_start now newest_report =
     \<lparr>w_guard = fst (guard_start now newest_report), w_offs = 0, w_ons = 0, w_ended = 0, w_newest = None\<rparr>"

definition guard_inv :: "watched \<Rightarrow> bool" where
  "guard_inv w \<longleftrightarrow>
     acted (w_guard w) \<le> MAX_ACTIONS \<and> w_offs w = acted (w_guard w) \<and>
     (g_power (w_guard w) \<noteq> Some Standby \<longrightarrow> acted (w_guard w) = 0) \<and>
     (restore_at (w_guard w) \<noteq> None \<or> asking (w_guard w) \<longrightarrow> g_power (w_guard w) = Some On) \<and>
     \<not> (restore_at (w_guard w) \<noteq> None \<and> asking (w_guard w)) \<and>
     w_ons w + (if restore_at (w_guard w) \<noteq> None \<or> asking (w_guard w) then 1 else 0) \<le> w_ended w \<and>
     (w_newest w = Some On \<longrightarrow> g_power (w_guard w) = Some On)"

text \<open>A step that keeps the guard's counters and its two checks, and does nothing.\<close>

lemma guard_inv_same:
  assumes "guard_inv w" and "acted g = acted (w_guard w)" and "g_power g = g_power (w_guard w)"
    and "restore_at g = restore_at (w_guard w)" and "asking g = asking (w_guard w)"
    and "offs acts = 0" and "ons acts = 0"
  shows "guard_inv (after_acts (acts, g) None w)"
  using assms by (simp add: guard_inv_def after_acts_def Let_def)

lemma guard_inv_power:
  assumes "guard_inv w"
  shows "guard_inv (after_acts (on_power a now (w_guard w)) (classify_mode a) w)"
proof (cases "classify_mode a")
  case None
  with assms show ?thesis by (simp add: on_power_def guard_inv_same)
next
  case (Some p)
  show ?thesis
  proof (cases "g_power (w_guard w) = Some p")
    case True
    with assms Some show ?thesis by (auto simp: on_power_def guard_inv_def after_acts_def Let_def)
  next
    case False
    with assms Some show ?thesis
      by (cases p) (auto simp: on_power_def guard_inv_def after_acts_def Let_def Let_def)
  qed
qed

lemma guard_inv_wifi:
  assumes "guard_inv w"
  shows "guard_inv (after_acts (on_wifi line now (w_guard w)) None w)"
proof (cases line)
  case PowerOn
  with assms show ?thesis
    by (auto simp: on_wifi_def on_wifi_on_def guard_inv_def after_acts_def Let_def)
next
  case PowerOff
  with assms show ?thesis
    by (auto simp: on_wifi_def split: option.split intro!: guard_inv_same)
next
  case Other_line
  with assms show ?thesis by (auto simp: on_wifi_def intro!: guard_inv_same)
qed

lemma guard_inv_key_log:
  assumes "guard_inv w"
  shows "guard_inv (after_acts (on_key_log mode now (w_guard w)) None w)"
proof (cases "g_check (w_guard w)")
  case None
  with assms show ?thesis by (simp add: on_key_log_def guard_inv_same)
next
  case (Some ck)
  let ?g = "(w_guard w)\<lparr>g_check := None\<rparr>"
  show ?thesis
  proof (cases "g_power (w_guard w) = Some On")
    case True
    with assms Some show ?thesis by (simp add: on_key_log_def Let_def guard_inv_same)
  next
    case not_on: False
    then have k: "on_key_log mode now (w_guard w) = judge_mode mode ck now ?g"
      using Some by (simp add: on_key_log_def Let_def)
    show ?thesis
    proof (cases rule: judge_mode_cases [of mode ?g ck now])
      case (off m)
      with assms not_on show ?thesis unfolding k by (auto simp: guard_inv_def after_acts_def Let_def)
    next
      case (missed m)
      with assms not_on show ?thesis unfolding k by (auto simp: guard_inv_def after_acts_def Let_def)
    next
      case (learned m)
      with assms not_on show ?thesis unfolding k by (auto simp: guard_inv_def after_acts_def Let_def)
    next
      case (logs n)
      show ?thesis unfolding k logs(1) by (rule guard_inv_same [OF assms]) simp_all
    qed
  qed
qed

lemma guard_inv_user:
  assumes "guard_inv w"
  shows "guard_inv (after_acts (on_user_switch on (w_guard w)) None w)"
  using assms by (auto simp: on_user_switch_def guard_inv_def after_acts_def Let_def)

lemma on_confirm_timer_keeps:
  "acted (snd (on_confirm_timer now g)) = acted g \<and> g_power (snd (on_confirm_timer now g)) = g_power g \<and>
   restore_at (snd (on_confirm_timer now g)) = restore_at g \<and> asking (snd (on_confirm_timer now g)) = asking g \<and>
   offs (fst (on_confirm_timer now g)) = 0 \<and> ons (fst (on_confirm_timer now g)) = 0"
  by (auto simp: on_confirm_timer_def Let_def split: option.split)

lemma on_restore_timer_keeps:
  "acted (snd (on_restore_timer now g)) = acted g \<and> g_power (snd (on_restore_timer now g)) = g_power g \<and>
   (restore_at (snd (on_restore_timer now g)) \<noteq> None \<longrightarrow> restore_at g \<noteq> None \<and> asking (snd (on_restore_timer now g)) = asking g) \<and>
   (asking (snd (on_restore_timer now g)) \<longrightarrow> asking g \<or> restore_at g \<noteq> None) \<and>
   offs (fst (on_restore_timer now g)) = 0 \<and> ons (fst (on_restore_timer now g)) = 0"
  by (auto simp: on_restore_timer_def Let_def split: option.split)

lemma guard_inv_timer:
  assumes "guard_inv w"
  shows "guard_inv (after_acts (on_guard_timer now (w_guard w)) None w)"
  using assms on_confirm_timer_keeps [of now "w_guard w"] on_restore_timer_keeps [of now "snd (on_confirm_timer now (w_guard w))"]
  by (auto simp: on_guard_timer_def guard_inv_def after_acts_def Let_def case_prod_unfold split: if_splits)

interpretation guard_run: invariant_machine watch_step guard_inv
proof
  fix w and i :: "guard_event \<times> duration"
  assume "guard_inv w"
  then show "guard_inv (watch_step i w)"
    by (cases i, cases "fst i")
      (simp_all add: watch_step_def guard_step_def class_of_def guard_inv_power guard_inv_wifi guard_inv_key_log guard_inv_user guard_inv_timer)
qed

lemma guard_inv_start: "guard_inv (watch_start now newest_report)"
  by (simp add: guard_inv_def watch_start_def guard_start_def guard_default_def Let_def)

text \<open>
  C18: whatever power events, Wi-Fi reports, answers and timers come, in any order, the guard turns Wi-Fi off at most three
  times between one time it takes the router as on and the next, and it has never switched Wi-Fi on more often than a
  standby ended in which it had turned Wi-Fi off.
\<close>

theorem guard_is_bounded:
  "let w = fold watch_step events (watch_start now newest_report) in w_offs w \<le> 3 \<and> w_ons w \<le> w_ended w"
  using guard_run.inv_run [OF guard_inv_start, of events now newest_report]
  by (simp add: guard_inv_def MAX_ACTIONS_def Let_def)

lemma quiet_ops:
  "Wifi_off \<notin> set (fst (on_power a now g))" "Wifi_off \<notin> set (fst (on_wifi line now g))"
  "Wifi_off \<notin> set (fst (on_user_switch on g))" "Wifi_off \<notin> set (fst (on_guard_timer now g))"
  by (auto simp: guard_defs Let_def case_prod_unfold split: option.splits wifi_line.splits if_splits)

text \<open>
  C19: Wi-Fi is turned off only in standby: the guard does it only upon an answer from \<open>key.log\<close> whose mode is a standby
  mode and not one the firmware passes through on its way there, and never when the newest power event it was
  fed was a power-on.
\<close>

theorem turned_off_only_in_standby:
  assumes "w = fold watch_step events (watch_start start newest_report)"
    and "Wifi_off \<in> set (fst (guard_step event now (w_guard w)))"
  shows "w_newest w \<noteq> Some On \<and> g_power (w_guard w) \<noteq> Some On \<and>
    (\<exists>m. event = Key_log (Some m) \<and> classify_mode m = Some Standby \<and> \<not> entering_standby m)"
proof -
  have inv: "guard_inv w" using guard_run.inv_run [OF guard_inv_start] assms(1) by simp
  obtain mode where e: "event = Key_log mode"
    using assms(2) quiet_ops by (cases event) (auto simp: guard_step_def)
  then obtain ck where on: "g_power (w_guard w) \<noteq> Some On"
    and act: "Wifi_off \<in> set (fst (judge_mode mode ck now ((w_guard w)\<lparr>g_check := None\<rparr>)))"
    using assms(2) by (auto simp: guard_step_def on_key_log_def Let_def split: option.splits if_splits)
  have "\<exists>m. mode = Some m \<and> classify_mode m = Some Standby \<and> \<not> entering_standby m"
    by (cases rule: judge_mode_cases [of mode "(w_guard w)\<lparr>g_check := None\<rparr>" ck now]) (use act in auto)
  with on inv e show ?thesis by (auto simp: guard_inv_def)
qed

section \<open>Overtaken switches\<close>

datatype runtime_event =
    Received string
  | Fed files_now duration
  | Test_log files_now duration "(nat \<times> bytes) option"
  | Timer_fired files_now duration

definition runtime_step :: "runtime_event \<Rightarrow> guard_runtime \<Rightarrow> guard_runtime" where
  "runtime_step event r =
     (case event of
        Received a \<Rightarrow> forward_action a r
      | Fed fs now \<Rightarrow> feed_power_events fs now r
      | Test_log fs now file \<Rightarrow> on_test_log fs now file r
      | Timer_fired fs now \<Rightarrow> runtime_timer fs now r)"

definition fed_of :: "power \<Rightarrow> guard_runtime \<Rightarrow> nat" where
  "fed_of p r = (case p of On \<Rightarrow> fed_on r | Standby \<Rightarrow> fed_standby r)"

definition of_class :: "power \<Rightarrow> string list \<Rightarrow> string list" where
  "of_class p acts = filter (\<lambda>a. classify_mode a = Some p) acts"

lemma counts_of_updates [simp]:
  "received_of p (r\<lparr>r_events := es\<rparr>) = received_of p r" "fed_of p (r\<lparr>r_events := es\<rparr>) = fed_of p r"
  "received_of p (r\<lparr>r_cursor := c\<rparr>) = received_of p r" "fed_of p (r\<lparr>r_cursor := c\<rparr>) = fed_of p r"
  by (cases p; simp add: received_of_def fed_of_def)+

text \<open>While \<open>todo\<close> is being fed: what was received has been fed, is being fed or is queued.\<close>

definition counts_agree :: "string list \<Rightarrow> guard_runtime \<Rightarrow> bool" where
  "counts_agree todo r \<longleftrightarrow>
     (\<forall>p. received_of p r = fed_of p r + length (of_class p (todo @ r_events r))) \<and>
     list_all (\<lambda>t. sw_seen t \<le> fed_of (sw_undo t) r) (switches r)"

definition same_counts :: "guard_runtime \<Rightarrow> guard_runtime \<Rightarrow> bool" where
  "same_counts r r' \<longleftrightarrow> (\<forall>p. received_of p r' = received_of p r \<and> fed_of p r' = fed_of p r) \<and> r_events r' = r_events r \<and>
     (\<exists>new. switches r' = switches r @ new \<and> list_all (\<lambda>t. sw_seen t \<le> fed_of (sw_undo t) r) new)"

lemma same_counts_refl: "same_counts r r"
  by (simp add: same_counts_def)

lemma same_counts_trans: "same_counts r s \<Longrightarrow> same_counts s t \<Longrightarrow> same_counts r t"
  unfolding same_counts_def by (metis (no_types, lifting) append.assoc list_all_append list.pred_cong)

lemma same_counts_agree: "counts_agree todo r \<Longrightarrow> same_counts r r' \<Longrightarrow> counts_agree todo r'"
  by (auto simp: counts_agree_def same_counts_def)

lemma same_counts_fold: "(\<And>x r. same_counts r (f x r)) \<Longrightarrow> same_counts r (fold f xs r)"
  by (induction xs arbitrary: r) (auto intro: same_counts_refl same_counts_trans)

lemma same_counts_switch: "same_counts r (start_switch a r)"
  by (cases a) (simp_all add: start_switch_def same_counts_def received_of_def fed_of_def split: power.split)

lemma same_counts_feed: "guard_feed event now r = (acts, r') \<Longrightarrow> same_counts r r'"
  by (auto simp: guard_feed_def same_counts_def received_of_def fed_of_def split: prod.splits power.split)

lemma same_counts_run: "same_counts r (run_action fs a r)"
  by (cases a) (auto simp: run_action_def split: prod.split
      intro: same_counts_switch same_counts_trans [OF same_counts_feed same_counts_fold [OF same_counts_switch]])

lemma same_counts_handle: "same_counts r (guard_handle fs event now r)"
  by (auto simp: guard_handle_def split: prod.split
      intro: same_counts_trans [OF same_counts_feed same_counts_fold [OF same_counts_run]])

lemma same_counts_lines: "same_counts r (fold (\<lambda>l. guard_handle fs (Wifi (parse_wifi_line l)) now) ls r)"
  by (rule same_counts_fold) (rule same_counts_handle)

lemma counts_feed_one: "counts_agree (a # todo) r \<Longrightarrow> counts_agree todo (feed_one fs now a r)"
proof -
  assume c: "counts_agree (a # todo) r"
  let ?r = "case classify_mode a of Some On \<Rightarrow> r\<lparr>fed_on := fed_on r + 1\<rparr>
        | Some Standby \<Rightarrow> r\<lparr>fed_standby := fed_standby r + 1\<rparr> | None \<Rightarrow> r"
  have "counts_agree todo ?r"
  proof (cases "classify_mode a")
    case None
    with c show ?thesis by (simp add: counts_agree_def of_class_def)
  next
    case (Some p)
    with c show ?thesis
      by (cases p) (auto simp: counts_agree_def of_class_def received_of_def fed_of_def list_all_iff split: power.splits)
  qed
  from same_counts_agree [OF this same_counts_handle] show ?thesis by (simp add: feed_one_def)
qed

lemma counts_feed_all: "counts_agree todo r \<Longrightarrow> counts_agree [] (fold (feed_one fs now) todo r)"
  by (induction todo arbitrary: r) (auto dest: counts_feed_one)

lemma counts_power_events: "counts_agree [] r \<Longrightarrow> counts_agree [] (feed_power_events fs now r)"
  unfolding feed_power_events_def
  by (rule counts_feed_all) (simp add: counts_agree_def)

lemma counts_step: "counts_agree [] r \<Longrightarrow> counts_agree [] (runtime_step event r)"
proof (cases event)
  case (Received a)
  assume "counts_agree [] r"
  with Received show ?thesis
    by (cases "classify_mode a")
      (auto simp: runtime_step_def forward_action_def counts_agree_def of_class_def received_of_def fed_of_def split: power.splits)
next
  case (Fed fs now)
  assume "counts_agree [] r"
  with Fed show ?thesis by (simp add: runtime_step_def counts_power_events)
next
  case (Test_log fs now f)
  assume "counts_agree [] r"
  from counts_power_events [OF this, of fs now] Test_log
  have "counts_agree [] ((feed_power_events fs now r)\<lparr>r_cursor := c\<rparr>)" for c
    by (simp add: counts_agree_def)
  from same_counts_agree [OF this same_counts_lines] Test_log show ?thesis
    by (simp add: runtime_step_def on_test_log_def Let_def split: prod.split)
next
  case (Timer_fired fs now)
  assume "counts_agree [] r"
  from same_counts_agree [OF this same_counts_handle] Timer_fired show ?thesis
    by (simp add: runtime_step_def runtime_timer_def)
qed

interpretation guard_runtime: invariant_machine runtime_step "counts_agree []"
  by unfold_locales (rule counts_step)

lemma counts_start: "counts_agree [] (runtime_start now file)"
  by (auto simp: counts_agree_def runtime_start_def guard_start_def of_class_def received_of_def fed_of_def Let_def
      start_switch_def split: power.split)

definition actions_received :: "runtime_event list \<Rightarrow> string list" where
  "actions_received events = List.map_filter (\<lambda>e. case e of Received a \<Rightarrow> Some a | _ \<Rightarrow> None) events"

lemma received_same: "same_counts r s \<Longrightarrow> received_of p s = received_of p r"
  by (simp add: same_counts_def)

lemma received_feed_one: "received_of p (feed_one fs now a r) = received_of p r"
proof -
  let ?r = "case classify_mode a of Some On \<Rightarrow> r\<lparr>fed_on := fed_on r + 1\<rparr>
        | Some Standby \<Rightarrow> r\<lparr>fed_standby := fed_standby r + 1\<rparr> | None \<Rightarrow> r"
  have "received_of p ?r = received_of p r" by (cases p) (auto simp: received_of_def split: option.split power.split)
  with received_same [OF same_counts_handle [of ?r fs "Power_action a" now], of p] show ?thesis by (simp add: feed_one_def)
qed

lemma received_feed: "received_of p (feed_power_events fs now r) = received_of p r"
proof -
  have "received_of p (fold (feed_one fs now) es r) = received_of p r" for es r
    by (induction es arbitrary: r) (simp_all add: received_feed_one)
  then show ?thesis by (simp add: feed_power_events_def)
qed

lemma received_step:
  "received_of p (runtime_step event r) = received_of p r + length (of_class p (actions_received [event]))"
proof (cases event)
  case (Received a)
  then show ?thesis
    by (cases p; cases "classify_mode a")
      (auto simp: runtime_step_def forward_action_def received_of_def of_class_def actions_received_def List.map_filter_simps split: power.split)
next
  case (Fed fs now)
  then show ?thesis by (simp add: runtime_step_def received_feed of_class_def actions_received_def List.map_filter_simps)
next
  case (Test_log fs now f)
  have "received_of p (fold (\<lambda>l. guard_handle fs (Wifi (parse_wifi_line l)) now) ls s) = received_of p s" for ls s
    by (rule received_same [OF same_counts_lines])
  with Test_log show ?thesis
    by (simp add: runtime_step_def on_test_log_def Let_def received_feed of_class_def actions_received_def List.map_filter_simps split: prod.split)
next
  case (Timer_fired fs now)
  with received_same [OF same_counts_handle [of r fs Guard_timer now], of p] show ?thesis
    by (simp add: runtime_step_def runtime_timer_def of_class_def actions_received_def List.map_filter_simps)
qed

lemma received_run:
  "received_of p (fold runtime_step events r) = received_of p r + length (of_class p (actions_received events))"
proof (induction events arbitrary: r)
  case (Cons e es)
  have "actions_received (e # es) = actions_received [e] @ actions_received es"
    by (cases e) (simp_all add: actions_received_def List.map_filter_simps)
  with Cons show ?case by (simp add: received_step of_class_def)
qed (simp add: of_class_def actions_received_def List.map_filter_simps)

text \<open>
  C20: a switch of Wi-Fi that a power change overtakes gives up. A switch thread that finds itself not interrupted, at any
  later time, was decided on with every power event of the class that undoes it, a power-on for a turn-off and a standby
  for a switch-on: none was waiting to be fed when it started, and none has been received since.
\<close>

theorem overtaken_switch_gives_up:
  assumes "r = fold runtime_step earlier (runtime_start now file)" and "t \<in> set (switches r)"
    and "\<not> interrupted_now t (fold runtime_step later r)"
  shows "of_class (sw_undo t) (r_events r @ actions_received later) = []"
proof -
  have "counts_agree [] r" using guard_runtime.inv_run [OF counts_start] assms(1) by simp
  then have "received_of (sw_undo t) r = fed_of (sw_undo t) r + length (of_class (sw_undo t) (r_events r))"
    and "sw_seen t \<le> fed_of (sw_undo t) r"
    using assms(2) by (auto simp: counts_agree_def list_all_iff)
  moreover have "received_of (sw_undo t) r + length (of_class (sw_undo t) (actions_received later)) = sw_seen t"
    using assms(3) received_run [of "sw_undo t" later r] by (simp add: interrupted_now_def)
  ultimately have "length (of_class (sw_undo t) (r_events r)) + length (of_class (sw_undo t) (actions_received later)) = 0"
    by linarith
  then show ?thesis by (simp add: of_class_def)
qed

section \<open>The firmware steps of a switch\<close>

text \<open>The steps taken in a world: each with whether a power change had come when it was taken, and whether it worked.\<close>

definition logged :: "('w \<Rightarrow> bool) \<Rightarrow> (firmware_step \<Rightarrow> 'w \<Rightarrow> (string + unit) \<times> 'w) \<Rightarrow> firmware_step \<Rightarrow>
    'w \<times> (firmware_step \<times> bool \<times> bool) list \<Rightarrow> (string + unit) \<times> 'w \<times> (firmware_step \<times> bool \<times> bool) list" where
  "logged interrupted run s =
     (\<lambda>(w, log). (case run s w of (r, w') \<Rightarrow> (r, w', log @ [(s, interrupted w, case r of Inl _ \<Rightarrow> False | Inr _ \<Rightarrow> True)])))"

text \<open>
  C21: a switch sets the firmware's Wi-Fi switch, commits it and reloads, and takes each of these steps only when the one
  before it worked and no power change has come; whenever it does not get to the end it reports a failure. A setting
  that was made and that a power change keeps from being committed, or whose commit fails, is reverted (or the revert
  failed): none is left behind for a later commit. When a power change comes after the commit only the reload is left out,
  and it reports success exactly when all three steps worked.
\<close>

theorem switch_leaves_nothing_behind:
  "let (r, w', steps) = switch_wifi_with on (\<lambda>(w, _). interrupted w) (logged interrupted run) (w, []) in
     (\<exists>e. r = Err e) \<and>
       (steps = [] \<and> interrupted w \<or>
        steps = [(Set_wifi on, False, False)] \<or>
        (\<exists>reverted. steps = [(Set_wifi on, False, True), (Revert, True, reverted)]) \<or>
        (\<exists>late reverted. steps = [(Set_wifi on, False, True), (Commit, False, False), (Revert, late, reverted)]) \<or>
        steps = [(Set_wifi on, False, True), (Commit, False, True)] \<and> interrupted w' \<or>
        steps = [(Set_wifi on, False, True), (Commit, False, True), (Reload, False, False)]) \<or>
     r = Ok () \<and> steps = [(Set_wifi on, False, True), (Commit, False, True), (Reload, False, True)]"
  by (auto simp: switch_wifi_with_def logged_def split: prod.split sum.split)

section \<open>A standby in which Wi-Fi comes on\<close>

definition standby_mode :: string where "standby_mode = ''mode_power_off_quicken''"

lemma standby_mode_class: "classify_mode standby_mode = Some Standby" "\<not> entering_standby standby_mode"
  by (code_simp, code_simp)

theorem turned_off_only_in_standby_witness:
  "w_newest (fold watch_step [(Power_action standby_mode, from_secs 700), (Wifi PowerOn, from_secs 800)]
     (watch_start (from_secs 650) None)) \<noteq> Some On"
  using turned_off_only_in_standby [OF refl, of "Key_log (Some standby_mode)" "from_secs 800"
      "[(Power_action standby_mode, from_secs 700), (Wifi PowerOn, from_secs 800)]" "from_secs 650" None]
  by (simp add: watch_step_def guard_step_def after_acts_def Let_def watch_start_def guard_start_def guard_default_def on_power_def
      on_wifi_def on_wifi_on_def on_key_log_def judge_mode_def standby_mode_class class_of_def BOOT_SETTLE_def from_secs_def
      MAX_ACTIONS_def Let_def)

definition demo_report :: string where "demo_report = ''1 800 power_on success''"

lemma demo_report_line: "parse_wifi_line demo_report = PowerOn"
  by code_simp

lemma demo_report_read:
  "read_new (Some (7, as_bytes demo_report @ [LF])) \<lparr>ino = None, offset = 0\<rparr> = ([demo_report], \<lparr>ino = Some 7, offset = 23\<rparr>)"
proof -
  have "from_utf8 (as_bytes demo_report) = Some demo_report"
    by (rule from_utf8_ascii) (auto simp: demo_report_def byte_of_def)
  then have "from_utf8_lossy (as_bytes demo_report) = demo_report" using from_utf8_lossy_valid by blast
  then have l: "from_utf8_lossy (as_bytes demo_report @ [LF]) = demo_report @ [CHR 0x0A]"
    using from_utf8_lossy_LF [of "as_bytes demo_report" "[]"] by (simp add: from_utf8_lossy_def of_bytes_def)
  have "text_lines (demo_report @ [CHR 0x0A]) = [demo_report]" by code_simp
  moreover have n: "length demo_report = 22" by (simp add: demo_report_def)
  moreover have "through_last_LF (as_bytes demo_report @ [LF]) = 23"
    using through_last_LF_append [of "[]" "as_bytes demo_report"] n by simp
  ultimately show ?thesis
    using l by (simp add: read_new_def read_range_def complete_lines_uncut complete_part_def block_lines_def MAX_FOLLOW_def)
qed

definition demo_files :: files_now where
  "demo_files = \<lparr>f_now = from_secs 800, f_mode = Some standby_mode, f_config = None\<rparr>"

definition demo_runtime :: guard_runtime where
  "demo_runtime = fold runtime_step
     [Received standby_mode, Test_log demo_files (from_secs 800) (Some (7, as_bytes demo_report @ [LF]))] (runtime_start (from_secs 650) None)"

lemma demo_switch: "\<lparr>sw_on = False, sw_undo = On, sw_seen = 0\<rparr> \<in> set (switches demo_runtime)"
  by (simp add: demo_runtime_def runtime_step_def forward_action_def standby_mode_class on_test_log_def feed_power_events_def feed_one_def
      guard_handle_def guard_feed_def guard_step_def runtime_start_def guard_start_def guard_default_def at_end_def cursor_history_def
      newest_power_line_def on_power_def BOOT_SETTLE_def from_secs_def demo_report_read demo_report_line on_wifi_def on_wifi_on_def
      run_action_def start_switch_def on_key_log_def judge_mode_def demo_files_def MAX_ACTIONS_def Let_def)

theorem overtaken_switch_gives_up_witness:
  "interrupted_now \<lparr>sw_on = False, sw_undo = On, sw_seen = 0\<rparr> (fold runtime_step [Received ''mode_startup''] demo_runtime)"
proof -
  have "of_class On (r_events demo_runtime @ actions_received [Received ''mode_startup'']) \<noteq> []"
    by (simp add: of_class_def actions_received_def List.map_filter_simps classify_mode_def)
  then show ?thesis
    using overtaken_switch_gives_up [OF demo_runtime_def demo_switch, of "[Received ''mode_startup'']"] by auto
qed

end
