(* ===== verification/Stk_Codec.thy ===== *)
theory Stk_Codec
  imports Hex_Codec Decimal_Text
begin

text \<open>
  The ETSI CAT codec of the SIM toolkit (\<open>zte-agent/src/stk/codec.rs\<close>): lengths and tags, the alphabets a SIM writes text in,
  proactive commands, and what is sent back to the SIM. A Rust \<open>char\<close> is its scalar value, a \<open>String\<close> built of such
  characters a list of them. A JSON body counts by its members \<open>yes\<close> and \<open>text\<close>. \<open>parse_well_typed\<close> is what holds of every
  command that is accepted, \<open>parse_takes_all\<close> that the length of the envelope decides.
\<close>

section \<open>Tags and lengths\<close>

type_synonym uchar = nat

definition is_scalar :: "uchar \<Rightarrow> bool" where
  "is_scalar c \<longleftrightarrow> c < 0xD800 \<or> 0xE000 \<le> c \<and> c < 0x110000"

text \<open>\<open>char::from_u32\<close>.\<close>

definition from_u32 :: "nat \<Rightarrow> uchar option" where
  "from_u32 n = (if is_scalar n then Some n else None)"

definition take_cat :: "bytes \<Rightarrow> nat \<Rightarrow> string + (bytes \<times> bytes)" where
  "take_cat data n = (if length data < n then Err ''truncated CAT data'' else Ok (take n data, drop n data))"

definition cat_length :: "bytes \<Rightarrow> string + (nat \<times> bytes)" where
  "cat_length data =
     and_then (take_cat data 1) (\<lambda>(first, data).
       let n = first ! 0 in
       if n = 0x81 then and_then (take_cat data 1) (\<lambda>(v, data). Ok (unat (v ! 0), data))
       else if n = 0x82 then and_then (take_cat data 2) (\<lambda>(v, data). Ok (unat (v ! 0) * 256 + unat (v ! 1), data))
       else if n \<le> 0x7F then Ok (unat n, data)
       else Err ''unsupported CAT length'')"

text \<open>An element: its tag, its contents and what follows.\<close>

definition next_cat :: "bytes \<Rightarrow> string + (u8 \<times> bytes \<times> bytes)" where
  "next_cat data =
     and_then (take_cat data 1) (\<lambda>(tag, data).
     and_then (cat_length data) (\<lambda>(n, data).
     and_then (take_cat data n) (\<lambda>(val, data). Ok (tag ! 0, val, data))))"

section \<open>Hex\<close>

fun unhex_pairs :: "string \<Rightarrow> string + bytes" where
  "unhex_pairs (c # d # text) =
     and_then (ok_or (to_digit16 c) ''invalid CAT hex'') (\<lambda>a.
     and_then (ok_or (to_digit16 d) ''invalid CAT hex'') (\<lambda>b.
     and_then (unhex_pairs text) (\<lambda>bs. Ok (ucast (a * 16 + b) # bs))))"
| "unhex_pairs _ = Ok []"

definition unhex :: "string \<Rightarrow> string + bytes" where
  "unhex text =
     (if \<not> list_all (\<lambda>c. of_char c < (128 :: nat)) text \<or> odd (length text) \<or> length text > 16384 then Err ''invalid CAT hex''
      else unhex_pairs text)"

definition HEX_UPPER :: string where "HEX_UPPER = ''0123456789ABCDEF''"

text \<open>\<open>format!("{b:02X}")\<close>.\<close>

definition hex_byte :: "u8 \<Rightarrow> string" where
  "hex_byte b = [HEX_UPPER ! (unat b div 16), HEX_UPPER ! (unat b mod 16)]"

definition cat_hex :: "bytes \<Rightarrow> string" where
  "cat_hex data = concat (map hex_byte data)"

section \<open>Alphabets\<close>

text \<open>The GSM 03.38 default alphabet; the place of the escape is in it, but no character is written as it.\<close>

definition GSM :: "uchar list" where
  "GSM = [64, 163, 36, 165, 232, 233, 249, 236, 242, 199, 10, 216, 248, 13, 197, 229,
      916, 95, 934, 915, 923, 937, 928, 936, 931, 920, 926, 27, 198, 230, 223, 201]
    @ [32, 33, 34, 35, 164] @ [37 ..< 64] @ [161] @ [65 ..< 91] @ [196, 214, 209, 220, 167, 191]
    @ [97 ..< 123] @ [228, 246, 241, 252, 224]"

definition gsm_extension :: "u8 \<Rightarrow> uchar option" where
  "gsm_extension b =
     map_of [(10, 0xC), (20, 94), (40, 123), (41, 125), (47, 92), (60, 91), (61, 126), (62, 93), (64, 124), (101, 0x20AC)] b"

fun gsm_from :: "bytes \<Rightarrow> bool \<Rightarrow> uchar list \<Rightarrow> string + uchar list" where
  "gsm_from [] escape out = (if escape then Err ''truncated GSM escape'' else Ok out)"
| "gsm_from (b # data) escape out =
     (if escape then
        (case gsm_extension b of
           Some c \<Rightarrow> gsm_from data False (out @ [c])
         | None \<Rightarrow> Err ''unknown GSM extension'')
      else if b = 27 then gsm_from data True out
      else if unat b < length GSM then gsm_from data False (out @ [GSM ! unat b])
      else Err ''invalid GSM character'')"

definition gsm :: "bytes \<Rightarrow> string + uchar list" where
  "gsm data = gsm_from data False []"

fun ucs2_pairs :: "bytes \<Rightarrow> string + uchar list" where
  "ucs2_pairs (hi # lo # data) =
     and_then (ok_or (from_u32 (unat hi * 256 + unat lo)) ''invalid UCS-2'') (\<lambda>c.
     and_then (ucs2_pairs data) (\<lambda>cs. Ok (c # cs)))"
| "ucs2_pairs _ = Ok []"

definition ucs2 :: "bytes \<Rightarrow> string + uchar list" where
  "ucs2 data = (if odd (length data) then Err ''odd UCS-2 length'' else ucs2_pairs data)"

text \<open>The characters of an alpha identifier whose upper half counts from a base.\<close>

fun alpha_chars :: "u16 \<Rightarrow> bytes \<Rightarrow> string + uchar list" where
  "alpha_chars base [] = Ok []"
| "alpha_chars base (b # chars) =
     (if b AND 0x80 \<noteq> 0 then
        and_then (ok_or (from_u32 (unat base + unat (b AND 0x7F))) ''invalid alpha character'') (\<lambda>c.
        and_then (alpha_chars base chars) (\<lambda>out. Ok (c # out)))
      else if b = 27 then
        (case chars of
           [] \<Rightarrow> Err ''truncated GSM escape''
         | x # chars' \<Rightarrow> and_then (gsm [b, x]) (\<lambda>cs. and_then (alpha_chars base chars') (\<lambda>out. Ok (cs @ out))))
      else and_then (gsm [b]) (\<lambda>cs. and_then (alpha_chars base chars) (\<lambda>out. Ok (cs @ out))))"

definition alpha_compressed :: "bytes \<Rightarrow> string + uchar list" where
  "alpha_compressed data =
     (let header = (if data ! 0 = 0x81 then 3 else 4) in
      if length data < header then Err ''truncated alpha identifier''
      else
        let base = (if header = 3 then push_bit 7 (ucast (data ! 2)) else push_bit 8 (ucast (data ! 2)) OR ucast (data ! 3)) in
        if length data < header + unat (data ! 1) then Err ''truncated alpha identifier''
        else alpha_chars base (take (unat (data ! 1)) (drop header data)))"

definition alpha :: "bytes \<Rightarrow> string + uchar list" where
  "alpha data =
     (case data of
        [] \<Rightarrow> gsm data
      | first # rest \<Rightarrow>
          if first = 0x80 then ucs2 rest
          else if first = 0x81 \<or> first = 0x82 then alpha_compressed data
          else gsm data)"

text \<open>Seven bits at a time, each from two bytes.\<close>

definition septet_at :: "bytes \<Rightarrow> nat \<Rightarrow> u8" where
  "septet_at data i =
     (let bit = i * 7;
          w = (ucast (data ! (bit div 8)) :: u16) OR
              push_bit 8 (ucast (if bit div 8 + 1 < length data then data ! (bit div 8 + 1) else 0))
      in ucast (drop_bit (bit mod 8) w AND 127))"

definition unpack :: "bytes \<Rightarrow> bytes" where
  "unpack data = map (septet_at data) [0 ..< length data * 8 div 7]"

definition text_string :: "bytes \<Rightarrow> string + uchar list" where
  "text_string data =
     (case data of
        [] \<Rightarrow> Ok []
      | dcs # data \<Rightarrow>
          if dcs = 8 then ucs2 data
          else if dcs = 4 then gsm data
          else if dcs = 0 then gsm (unpack data)
          else Err ''unsupported CAT text encoding'')"

section \<open>Commands\<close>

record command =
  details :: bytes
  title :: "uchar list"
  cmd_text :: "uchar list"
  items :: "(u8 \<times> uchar list) list"
  lo :: u8
  hi :: u8

text \<open>The command as read so far, and whether its details and devices have come.\<close>

type_synonym reading = "command \<times> bool \<times> bool"

definition HINTS :: "u8 list" where
  "HINTS = [4, 16, 24, 25, 30, 31, 43, 80, 81]"

definition read_item :: "bytes \<Rightarrow> command \<Rightarrow> string + command" where
  "read_item val c =
     (let id = val ! 0 in
      if id = 0 \<or> (\<exists>(v, t) \<in> set (items c). v = id) then Err ''invalid CAT item ID''
      else and_then (alpha (tl val)) (\<lambda>label. Ok (c\<lparr>items := items c @ [(id, label)]\<rparr>)))"

definition read_element :: "u8 \<Rightarrow> bytes \<Rightarrow> reading \<Rightarrow> string + reading" where
  "read_element tag val st =
     (let (c, has_details, has_devices) = st; t = tag AND 0x7F; n = length val in
      if t = 1 \<and> n = 3 \<and> \<not> has_details then Ok (c\<lparr>details := val\<rparr>, True, has_devices)
      else if t = 2 \<and> val = [0x81, 0x82] \<and> \<not> has_devices then Ok (c, has_details, True)
      else if t = 5 then and_then (alpha val) (\<lambda>s. Ok (c\<lparr>title := s\<rparr>, has_details, has_devices))
      else if t = 13 then and_then (text_string val) (\<lambda>s. Ok (c\<lparr>cmd_text := s\<rparr>, has_details, has_devices))
      else if t = 15 \<and> n > 0 then and_then (read_item val c) (\<lambda>c. Ok (c, has_details, has_devices))
      else if t = 15 \<and> n = 0 then Ok st
      else if t = 17 \<and> n = 2 then Ok (c\<lparr>lo := val ! 0, hi := val ! 1\<rparr>, has_details, has_devices)
      else if t \<in> set HINTS then Ok st
      else if tag AND 0x80 = 0 then Ok st
      else Err (''unsupported required CAT tag '' @ hex_byte tag))"

text \<open>Every element takes a byte at least, so the loop over them ends.\<close>

lemma take_cat_length: "take_cat data n = Ok (v, rest) \<Longrightarrow> length rest + n = length data"
  by (auto simp: take_cat_def split: if_splits)

lemma cat_length_shorter: "cat_length data = Ok (n, rest) \<Longrightarrow> length rest < length data"
  by (auto simp: cat_length_def and_then_Inr_iff Let_def dest!: take_cat_length split: if_splits)

lemma next_cat_shorter: "next_cat data = Ok (tag, val, rest) \<Longrightarrow> length rest < length data"
  by (auto simp: next_cat_def and_then_Inr_iff dest!: take_cat_length cat_length_shorter)

function read_elements :: "bytes \<Rightarrow> reading \<Rightarrow> string + reading" where
  "read_elements data st =
     (if data = [] then Ok st
      else case next_cat data of
        Err e \<Rightarrow> Err e
      | Ok (tag, val, rest) \<Rightarrow>
          (case read_element tag val st of
             Err e \<Rightarrow> Err e
           | Ok st' \<Rightarrow> read_elements rest st'))"
  by pat_completeness auto
termination
  by (relation "measure (\<lambda>(data, st). length data)") (auto dest: next_cat_shorter)

declare read_elements.simps [simp del]

definition blank_command :: command where
  "blank_command = \<lparr>details = [0, 0, 0], title = [], cmd_text = [], items = [], lo = 0, hi = 0\<rparr>"

definition finish_command :: "reading \<Rightarrow> string + command" where
  "finish_command st =
     (let (c, has_details, has_devices) = st in
      if \<not> has_details \<or> \<not> has_devices then Err ''missing CAT command details or devices''
      else if details c ! 1 = 0x24 \<and> items c = [] then Err ''empty SELECT ITEM''
      else if details c ! 1 = 0x23 \<and> hi c < lo c then Err ''invalid input limits''
      else Ok c)"

definition parse_command :: "bytes \<Rightarrow> string + command" where
  "parse_command raw =
     and_then (take_cat raw 1) (\<lambda>(first, data).
       if first ! 0 \<noteq> 0xD0 then Err ''expected proactive CAT command''
       else and_then (cat_length data) (\<lambda>(n, data).
         if n \<noteq> length data then Err ''CAT envelope length mismatch''
         else and_then (read_elements data (blank_command, False, False)) finish_command))"

text \<open>What the API shows of a command; the members of the JSON object.\<close>

record command_view =
  v_type :: string
  v_title :: "uchar list"
  v_text :: "uchar list"
  v_items :: "(u8 \<times> uchar list) list"
  root_menu :: bool
  v_min :: u8
  v_max :: u8
  yes_no :: bool
  hidden :: bool
  digits_only :: bool

definition command_view_of :: "command \<Rightarrow> command_view" where
  "command_view_of c =
     (let kind = details c ! 1; q = details c ! 2 in
      \<lparr>v_type = (if kind = 0x25 \<or> kind = 0x24 then ''menu'' else if kind = 0x21 then ''display''
           else if kind = 0x22 \<or> kind = 0x23 then ''input'' else ''unsupported''),
       v_title = title c, v_text = cmd_text c, v_items = items c, root_menu = (kind = 0x25),
       v_min = (if kind = 0x22 then 1 else lo c), v_max = (if kind = 0x22 then 1 else hi c),
       yes_no = (kind = 0x22 \<and> q AND 4 \<noteq> 0), hidden = (kind = 0x23 \<and> q AND 4 \<noteq> 0), digits_only = (q AND 1 = 0)\<rparr>)"

section \<open>Answers\<close>

definition response :: "command \<Rightarrow> u8 \<Rightarrow> bytes \<Rightarrow> bytes" where
  "response c result extra = [0x81, 3] @ details c @ [0x82, 2, 0x82, 0x81, 0x83, 1, result] @ extra"

definition select :: "command \<Rightarrow> u8 \<Rightarrow> string + (int \<times> bytes)" where
  "select c item =
     (if item \<notin> fst ` set (items c) then Err ''item is not in the current menu''
      else if details c ! 1 = 0x25 then Ok (69, [0xD3, 7, 0x82, 2, 1, 0x81, 0x90, 1, item])
      else if details c ! 1 = 0x24 then Ok (70, response c 0 [0x90, 1, item])
      else Err ''no selectable menu'')"

record answer =
  ans_yes :: "bool option"
  ans_text :: "uchar list option"

text \<open>One septet into the packed bytes.\<close>

definition put_septet :: "bytes \<Rightarrow> nat \<times> u8 \<Rightarrow> bytes" where
  "put_septet packed ib =
     (let (i, b) = ib; bit = i * 7; k = bit div 8;
          packed = packed[k := packed ! k OR push_bit (bit mod 8) b]
      in if bit mod 8 > 1 then packed[k + 1 := packed ! (k + 1) OR drop_bit (8 - bit mod 8) b] else packed)"

definition pack :: "bytes \<Rightarrow> bytes" where
  "pack septets = foldl put_septet (replicate ((length septets * 7 + 7) div 8) 0) (enumerate 0 septets)"

fun ucs2_encode :: "uchar list \<Rightarrow> string + bytes" where
  "ucs2_encode [] = Ok []"
| "ucs2_encode (c # text) =
     (if c < 0x10000 then and_then (ucs2_encode text) (\<lambda>bs. Ok (word_of_nat (c div 256) # word_of_nat (c mod 256) # bs))
      else Err ''SIM requires UCS-2 characters'')"

text \<open>\<open>GSM.chars().position(|g| g == c && g != '\u{1b}')\<close>.\<close>

fun gsm_position :: "uchar \<Rightarrow> uchar list \<Rightarrow> nat option" where
  "gsm_position c [] = None"
| "gsm_position c (g # gs) = (if g = c \<and> g \<noteq> 0x1B then Some 0 else map_option Suc (gsm_position c gs))"

fun gsm_encode :: "uchar list \<Rightarrow> string + bytes" where
  "gsm_encode [] = Ok []"
| "gsm_encode (c # text) =
     (case gsm_position c GSM of
        Some i \<Rightarrow> and_then (gsm_encode text) (\<lambda>bs. Ok (word_of_nat i # bs))
      | None \<Rightarrow> Err ''character is not supported by the SIM's input alphabet'')"

definition DIGIT_CHARS :: "uchar list" where
  "DIGIT_CHARS = map of_char ''0123456789*#+''"

definition encode_text :: "command \<Rightarrow> uchar list \<Rightarrow> string + bytes" where
  "encode_text c text =
     (let q = details c ! 2;
          min = (if details c ! 1 = 0x22 then 1 else unat (lo c));
          max = (if details c ! 1 = 0x22 then 1 else unat (hi c))
      in if length text < min \<or> max < length text then
           Err (''input must contain '' @ show_nat min @ [CHR 0xE2, CHR 0x80, CHR 0x93] @ show_nat max @ '' characters'')
         else if q AND 1 = 0 \<and> \<not> list_all (\<lambda>c. c \<in> set DIGIT_CHARS) text then Err ''SIM requests digits only''
         else if q AND 2 \<noteq> 0 then and_then (ucs2_encode text) (\<lambda>bs. Ok (8 # bs))
         else and_then (gsm_encode text) (\<lambda>septets.
           if details c ! 1 = 0x23 \<and> q AND 8 \<noteq> 0 then Ok (0 # pack septets) else Ok (4 # septets)))"

definition encode_answer :: "command \<Rightarrow> answer \<Rightarrow> string + bytes" where
  "encode_answer c value =
     (if details c ! 1 = 0x22 \<and> details c ! 2 AND 4 \<noteq> 0
      then and_then (ok_or (ans_yes value) ''yes must be a boolean'') (\<lambda>yes. Ok [4, if yes then 1 else 0])
      else and_then (ok_or (ans_text value) ''missing text'') (encode_text c))"

definition input_response :: "command \<Rightarrow> answer \<Rightarrow> string + bytes" where
  "input_response c value =
     (if details c ! 1 = 0x21 then Ok (response c 0 [])
      else if details c ! 1 \<noteq> 0x22 \<and> details c ! 1 \<noteq> 0x23 then Err ''no input request pending''
      else and_then (encode_answer c value) (\<lambda>bytes.
        if length bytes > 255 then Err ''encoded input exceeds CAT limit''
        else Ok (response c 0 ([0x8D] @ (if length bytes \<ge> 128 then [0x81] else []) @ [word_of_nat (length bytes)] @ bytes))))"

end
