(* ===== verification/Stk_Commands.thy ===== *)
theory Stk_Commands
  imports Stk_Codec "HOL-Library.Code_Target_Nat"
begin

text \<open>
  What holds of a proactive command the SIM toolkit accepts, of the elements it is read from, and of a choice in its menu.
\<close>

section \<open>Text\<close>

text \<open>Every decoder yields characters.\<close>

abbreviation scalars :: "uchar list \<Rightarrow> bool" where
  "scalars s \<equiv> list_all is_scalar s"

lemma GSM_scalars: "list_all is_scalar GSM"
  by code_simp

lemma extension_scalar: "gsm_extension b = Some c \<Longrightarrow> is_scalar c"
  by (auto simp: gsm_extension_def is_scalar_def split: if_splits)

lemma gsm_from_scalars: "gsm_from data e out = Ok s \<Longrightarrow> scalars out \<Longrightarrow> scalars s"
proof (induction data e out rule: gsm_from.induct)
  case (2 b data e out)
  have "unat b < length GSM \<Longrightarrow> is_scalar (GSM ! unat b)" using GSM_scalars by (simp add: list_all_length)
  with 2 extension_scalar show ?case by (auto split: if_splits option.splits)
qed (auto split: if_splits)

lemma gsm_scalars: "gsm data = Ok s \<Longrightarrow> scalars s"
  by (auto simp: gsm_def dest: gsm_from_scalars)

lemma ucs2_pairs_scalars: "ucs2_pairs data = Ok s \<Longrightarrow> scalars s"
  by (induction data arbitrary: s rule: ucs2_pairs.induct)
    (auto simp: and_then_Inr_iff ok_or_Inr_iff from_u32_def split: if_splits)

lemma ucs2_scalars: "ucs2 data = Ok s \<Longrightarrow> scalars s"
  by (auto simp: ucs2_def dest: ucs2_pairs_scalars split: if_splits)

lemma from_u32_scalar: "from_u32 n = Some c \<Longrightarrow> is_scalar c"
  by (simp add: from_u32_def split: if_splits)

lemma and_then_scalars:
  assumes "and_then r (\<lambda>out. Ok (cs @ out)) = Ok s" and "scalars cs" and "\<And>out. r = Ok out \<Longrightarrow> scalars out"
  shows "scalars s"
  using assms by (auto simp: and_then_Inr_iff)

lemma alpha_chars_scalars: "alpha_chars base data = Ok s \<Longrightarrow> scalars s"
proof (induction base data arbitrary: s rule: alpha_chars.induct)
  case (2 base b chars)
  show ?case
  proof (cases "b AND 0x80 \<noteq> 0")
    case True
    with "2.prems" obtain c where "from_u32 (unat base + unat (b AND 0x7F)) = Some c"
      and "and_then (alpha_chars base chars) (\<lambda>out. Ok ([c] @ out)) = Ok s"
      by (auto simp: and_then_Inr_iff ok_or_Inr_iff)
    with and_then_scalars [OF this(2)] 2(1) [OF True] from_u32_scalar show ?thesis by simp
  next
    case plain: False
    show ?thesis
    proof (cases "b = 27")
      case True
      with "2.prems" plain obtain x chars' cs where x: "chars = x # chars'" and "gsm [b, x] = Ok cs"
        and "and_then (alpha_chars base chars') (\<lambda>out. Ok (cs @ out)) = Ok s"
        by (auto simp: and_then_Inr_iff split: list.splits)
      with and_then_scalars [OF this(3)] 2(2) [OF plain True x] gsm_scalars show ?thesis by simp
    next
      case False
      with "2.prems" plain obtain cs where "gsm [b] = Ok cs" and "and_then (alpha_chars base chars) (\<lambda>out. Ok (cs @ out)) = Ok s"
        by (auto simp: and_then_Inr_iff)
      with and_then_scalars [OF this(2)] 2(3) [OF plain False] gsm_scalars show ?thesis by simp
    qed
  qed
qed simp

lemma alpha_scalars: "alpha data = Ok s \<Longrightarrow> scalars s"
  by (auto simp: alpha_def alpha_compressed_def Let_def dest: gsm_scalars ucs2_scalars alpha_chars_scalars
      split: list.splits if_splits)

lemma text_string_scalars: "text_string data = Ok s \<Longrightarrow> scalars s"
  by (auto simp: text_string_def dest: gsm_scalars ucs2_scalars split: list.splits if_splits)

section \<open>Commands\<close>

text \<open>What holds of a command all along.\<close>

definition well_typed :: "command \<Rightarrow> bool" where
  "well_typed c \<longleftrightarrow>
     length (details c) = 3 \<and> scalars (title c) \<and> scalars (cmd_text c) \<and>
     distinct (map fst (items c)) \<and> list_all (\<lambda>(id, label). id \<noteq> 0 \<and> scalars label) (items c)"

lemma read_item_typed: "read_item val c = Ok c' \<Longrightarrow> well_typed c \<Longrightarrow> well_typed c'"
  by (fastforce simp: read_item_def Let_def well_typed_def and_then_Inr_iff dest: alpha_scalars split: if_splits)

lemma read_element_typed:
  "read_element tag val (c, has_details, has_devices) = Ok (c', flags) \<Longrightarrow> well_typed c \<Longrightarrow> well_typed c'"
  by (auto simp: read_element_def Let_def and_then_Inr_iff dest: read_item_typed split: if_splits)
    (auto simp: well_typed_def dest: alpha_scalars text_string_scalars)

lemma read_elements_typed: "read_elements data st = Ok (c', flags) \<Longrightarrow> well_typed (fst st) \<Longrightarrow> well_typed c'"
proof (induction data st rule: read_elements.induct)
  case (1 data st)
  show ?case
  proof (cases "data = []")
    case True
    with 1 show ?thesis by (simp add: read_elements.simps)
  next
    case False
    with "1.prems"(1) obtain tag val rest st' where n: "next_cat data = Ok (tag, val, rest)" and e: "read_element tag val st = Ok st'"
      and r: "read_elements rest st' = Ok (c', flags)"
      by (auto simp: read_elements.simps [of data] split: sum.splits)
    have "well_typed (fst st')" using e "1.prems"(2) read_element_typed [of tag val "fst st" "fst (snd st)" "snd (snd st)" "fst st'" "snd st'"] by simp
    with 1(1) [OF False n _ _ e r] show ?thesis by simp
  qed
qed

text \<open>A command that is accepted is well typed: three bytes of details, characters throughout, item numbers that are not zero
  and differ; a choice has items, and the limits of an input are in order.\<close>

theorem parse_well_typed:
  assumes "parse_command raw = Ok c"
  shows "well_typed c \<and> (details c ! 1 = 0x24 \<longrightarrow> items c \<noteq> []) \<and> (details c ! 1 = 0x23 \<longrightarrow> lo c \<le> hi c)"
proof -
  from assms obtain data st where r: "read_elements data (blank_command, False, False) = Ok st" and f: "finish_command st = Ok c"
    by (auto simp: parse_command_def and_then_Inr_iff split: if_splits)
  have "well_typed blank_command" by (simp add: well_typed_def blank_command_def)
  with r have "well_typed (fst st)" using read_elements_typed [of data "(blank_command, False, False)" "fst st" "snd st"] by simp
  with f show ?thesis by (auto simp: finish_command_def not_less split: prod.splits if_splits)
qed

definition two_item_menu :: bytes where
  "two_item_menu = [0xD0, 17, 0x81, 3, 1, 0x25, 0, 0x82, 2, 0x81, 0x82, 0x8F, 2, 1, 77, 0x8F, 2, 2, 78]"

theorem parse_well_typed_witness:
  "\<exists>c. parse_command two_item_menu = Ok c \<and> map fst (items c) = [1, 2] \<and> well_typed c"
proof -
  have "case parse_command two_item_menu of Inl _ \<Rightarrow> False | Inr c \<Rightarrow> map fst (items c) = [1, 2]" by code_simp
  then obtain c where c: "parse_command two_item_menu = Ok c" "map fst (items c) = [1, 2]"
    by (cases "parse_command two_item_menu") simp_all
  from parse_well_typed [OF c(1)] have "well_typed c" by (rule conjunct1)
  with c show ?thesis by (intro exI [of _ c] conjI)
qed

text \<open>The length is what the first bytes say, whatever follows.\<close>

lemma take_cat_more: "take_cat data n = Ok (v, rest) \<Longrightarrow> take_cat (data @ extra) n = Ok (v, rest @ extra)"
  by (auto simp: take_cat_def split: if_splits)

lemma cat_length_more:
  assumes "cat_length data = Ok (n, rest)"
  shows "cat_length (data @ extra) = Ok (n, rest @ extra)"
proof -
  from assms obtain first d where t: "take_cat data 1 = Ok (first, d)"
    and r: "(if first ! 0 = 0x81 then and_then (take_cat d 1) (\<lambda>(v, data). Ok (unat (v ! 0), data))
       else if first ! 0 = 0x82 then and_then (take_cat d 2) (\<lambda>(v, data). Ok (unat (v ! 0) * 256 + unat (v ! 1), data))
       else if first ! 0 \<le> 0x7F then Ok (unat (first ! 0), d)
       else Err ''unsupported CAT length'') = Ok (n, rest)"
    by (auto simp: cat_length_def and_then_Inr_iff Let_def)
  have t': "take_cat (data @ extra) 1 = Ok (first, d @ extra)" by (rule take_cat_more [OF t])
  show ?thesis
  proof (cases "first ! 0 = 0x81")
    case True
    with r obtain v where "take_cat d 1 = Ok (v, rest)" "n = unat (v ! 0)" by (auto simp: and_then_Inr_iff)
    with True t' take_cat_more [OF this(1), of extra] show ?thesis by (simp add: cat_length_def)
  next
    case short: False
    show ?thesis
    proof (cases "first ! 0 = 0x82")
      case True
      with r obtain v where "take_cat d 2 = Ok (v, rest)" "n = unat (v ! 0) * 256 + unat (v ! 1)" by (auto simp: and_then_Inr_iff)
      with True t' take_cat_more [OF this(1), of extra] show ?thesis by (simp add: cat_length_def)
    next
      case False
      with short r t' show ?thesis by (simp add: cat_length_def split: if_splits)
    qed
  qed
qed

text \<open>The envelope's length decides: nothing shorter than an accepted command is accepted, and nothing longer.\<close>

theorem parse_takes_all:
  assumes "parse_command raw = Ok c" and "extra \<noteq> []"
  shows "parse_command (raw @ extra) = Err ''CAT envelope length mismatch'' \<and> (\<forall>pre. raw = pre @ extra \<longrightarrow> isl (parse_command pre))"
proof -
  from assms(1) obtain first data rest where t: "take_cat raw 1 = Ok (first, data)" "first ! 0 = 0xD0"
    and n: "cat_length data = Ok (length rest, rest)"
    by (auto simp: parse_command_def and_then_Inr_iff split: if_splits)
  from take_cat_more [OF t(1), of extra] cat_length_more [OF n, of extra] t(2) assms(2)
  have "parse_command (raw @ extra) = Err ''CAT envelope length mismatch''" by (simp add: parse_command_def)
  moreover have "isl (parse_command pre)" if raw: "raw = pre @ extra" for pre
  proof (cases "parse_command pre")
    case (Inr c')
    then obtain first' data' rest' where t': "take_cat pre 1 = Ok (first', data')" and n': "cat_length data' = Ok (length rest', rest')"
      by (auto simp: parse_command_def and_then_Inr_iff split: if_splits)
    from take_cat_more [OF t', of extra] t(1) raw have "data = data' @ extra" by simp
    with cat_length_more [OF n', of extra] n have "length rest' = length rest" "rest = rest' @ extra" by simp_all
    with assms(2) show ?thesis by simp
  qed simp
  ultimately show ?thesis by blast
qed

theorem parse_takes_all_witness:
  "parse_command (two_item_menu @ [0]) = Err ''CAT envelope length mismatch'' \<and> isl (parse_command (butlast two_item_menu))"
proof -
  have "case parse_command two_item_menu of Inl _ \<Rightarrow> False | Inr c \<Rightarrow> True" by code_simp
  then obtain c where c: "parse_command two_item_menu = Ok c" by (auto split: sum.splits)
  have "two_item_menu = butlast two_item_menu @ [78]" by code_simp
  with parse_takes_all [OF c, of "[0]"] parse_takes_all [OF c, of "[78]"] show ?thesis by blast
qed

section \<open>Choices\<close>

text \<open>Only an item of the menu on the screen is ever sent to the SIM, as a menu selection from the root menu and as the
  answer to the SIM's own choice otherwise.\<close>

theorem select_in_menu:
  "(case select c item of
      Err e \<Rightarrow> item \<notin> fst ` set (items c) \<or> details c ! 1 \<notin> {0x24, 0x25}
    | Ok (request, raw) \<Rightarrow> item \<in> fst ` set (items c) \<and>
        (if details c ! 1 = 0x25 then request = 69 \<and> raw = [0xD3, 7, 0x82, 2, 1, 0x81, 0x90, 1, item]
         else details c ! 1 = 0x24 \<and> request = 70 \<and> raw = response c 0 [0x90, 1, item]))"
  by (auto simp: select_def)

end
