(* ===== verification/Stk_Session.thy ===== *)
theory Stk_Session
  imports Stk_Codec Boot_Clock "HOL-Library.AList"
begin

text \<open>
  The SIM toolkit's session on the RIL socket and the one thread that owns it (\<open>zte-agent/src/stk/mod.rs\<close>): records on the
  wire, the requests of the API, the frames of the modem, deadlines, and what the thread publishes. Token and generation are
  \<open>u64\<close> counters that rise by one; they are natural numbers here, and a token is cut to eight bytes on the wire. A reply channel
  is the number of the request it belongs to. What the thread does to its surroundings is a log, whether a write succeeds a
  script (\<open>None\<close>, or the error). The times of one call are one instant.
\<close>

section \<open>Records\<close>

definition STK_TIMEOUT :: duration where "STK_TIMEOUT = from_secs 8"
definition WAITING_LIMIT :: duration where "WAITING_LIMIT = from_secs 30"

definition be4 :: "nat \<Rightarrow> bytes" where
  "be4 n = map (\<lambda>k. word_of_nat (n div 256 ^ k)) [3, 2, 1, 0]"

definition le_bytes :: "nat \<Rightarrow> nat \<Rightarrow> bytes" where
  "le_bytes w n = map (\<lambda>k. word_of_nat (n div 256 ^ k)) [0 ..< w]"

definition stk_record :: "nat \<Rightarrow> nat \<Rightarrow> bytes \<Rightarrow> bytes" where
  "stk_record msg tok payload = be4 (12 + length payload) @ le_bytes 4 msg @ le_bytes 8 tok @ payload"

definition marshal_hex :: "bytes \<Rightarrow> bytes" where
  "marshal_hex raw = be4 (length (cat_hex raw)) @ as_bytes (cat_hex raw)"

definition be_value :: "bytes \<Rightarrow> nat" where
  "be_value bs = foldl (\<lambda>n b. n * 256 + unat b) 0 bs"

definition number :: "bytes \<Rightarrow> nat \<Rightarrow> string + nat" where
  "number data offset =
     (if offset + 4 \<le> length data then Ok (be_value (take 4 (drop offset data))) else Err ''truncated RIL integer'')"

section \<open>The session\<close>

record pending =
  p_deadline :: duration
  p_reply :: "nat option"
  p_generation :: nat
  p_init :: bool

record session =
  buffer :: bytes
  tokens :: nat
  generation :: nat
  root :: "command option"
  current :: "command option"
  phase :: string
  reason :: string
  pendings :: "(nat \<times> pending) list"
  waiting_since :: "duration option"

record snapshot =
  shown_view :: "command_view option"
  supported :: bool
  shown_status :: string
  shown_reason :: string
  command_id :: string
  busy :: bool

datatype stk_reply = Stk_error nat string | Stk_session snapshot

datatype stk_event =
    Wrote bytes
  | Replied nat stk_reply
  | Dropped nat
  | Told

record io =
  writes :: "string option list"
  stk_log :: "stk_event list"

type_synonym outcome = "(string + unit) \<times> session \<times> io"

definition emit :: "stk_event \<Rightarrow> io \<Rightarrow> io" where
  "emit e d = d\<lparr>stk_log := stk_log d @ [e]\<rparr>"

text \<open>The result of the next write; when the script has ended, writes succeed.\<close>

definition next_write :: "io \<Rightarrow> string option \<times> io" where
  "next_write d = (case writes d of [] \<Rightarrow> (None, d) | x # xs \<Rightarrow> (x, d\<lparr>writes := xs\<rparr>))"

definition snapshot_of :: "session \<Rightarrow> snapshot" where
  "snapshot_of s =
     \<lparr>shown_view = map_option command_view_of (current s), supported = (root s \<noteq> None \<or> current s \<noteq> None),
      shown_status = phase s, shown_reason = reason s, command_id = show_nat (generation s),
      busy = (pendings s \<noteq> [] \<or> phase s = ''waiting'')\<rparr>"

definition stk_send :: "nat \<Rightarrow> bytes \<Rightarrow> nat option \<Rightarrow> bool \<Rightarrow> duration \<Rightarrow> session \<Rightarrow> io \<Rightarrow> outcome" where
  "stk_send msg raw reply init now s d =
     (let s = s\<lparr>tokens := tokens s + 1\<rparr>;
          payload = (if msg = 103 then [] else marshal_hex raw);
          (failed, d) = next_write d
      in case failed of
           Some e \<Rightarrow> (Err (''RIL write failed: '' @ e), s,
             (case reply of Some r \<Rightarrow> emit (Replied r (Stk_error 503 ''RIL write failed; session invalidated'')) d | None \<Rightarrow> d))
         | None \<Rightarrow> (Ok (),
             s\<lparr>pendings := AList.update (tokens s)
                 \<lparr>p_deadline = now + STK_TIMEOUT, p_reply = reply, p_generation = generation s, p_init = init\<rparr> (pendings s)\<rparr>,
             emit (Wrote (stk_record msg (tokens s) payload)) d))"

text \<open>\<open>Session::connect\<close> once the socket is there; \<open>ms\<close> is the time since the epoch.\<close>

definition session_new :: "nat \<Rightarrow> session" where
  "session_new ms =
     \<lparr>buffer = [], tokens = 0, generation = ms, root = None, current = None, phase = ''initializing'',
      reason = ''Connecting to SIM Toolkit'', pendings = [], waiting_since = None\<rparr>"

definition session_connect :: "nat \<Rightarrow> duration \<Rightarrow> io \<Rightarrow> outcome" where
  "session_connect ms now d = stk_send 103 [] None True now (session_new ms) d"

section \<open>Requests\<close>

record stk_request =
  rq_reply :: nat
  rq_action :: string
  rq_command_id :: "string option"
  rq_item :: "nat option"
  rq_answer :: answer

definition is_read :: "stk_request \<Rightarrow> bool" where
  "is_read req \<longleftrightarrow> rq_action req = ''menu'' \<or> rq_action req = ''status''"

text \<open>What the user's action says to the SIM: the RIL request and its bytes.\<close>

definition user_message :: "stk_request \<Rightarrow> command \<Rightarrow> string + (nat \<times> bytes)" where
  "user_message req cmd =
     (if rq_action req = ''select'' then
        (case rq_item req of
           Some v \<Rightarrow> if v < 256 then and_then (select cmd (word_of_nat v)) (\<lambda>(msg, raw). Ok (nat msg, raw))
                     else Err (''item_id must be 1'' @ [CHR 0xE2, CHR 0x80, CHR 0x93] @ ''255'')
         | None \<Rightarrow> Err (''item_id must be 1'' @ [CHR 0xE2, CHR 0x80, CHR 0x93] @ ''255''))
      else if rq_action req = ''respond'' then and_then (input_response cmd (rq_answer req)) (\<lambda>raw. Ok (70, raw))
      else if rq_action req = ''cancel'' \<and> details cmd ! 1 \<noteq> 0x25 then Ok (70, response cmd 0x10 [])
      else if rq_action req = ''back'' \<and> details cmd ! 1 \<noteq> 0x25 then Ok (70, response cmd 0x11 [])
      else Err ''no pending command for this action'')"

definition answer_read :: "stk_request \<Rightarrow> duration \<Rightarrow> session \<Rightarrow> io \<Rightarrow> outcome" where
  "answer_read req now s d =
     (if rq_action req = ''menu'' \<and> phase s = ''menu_unavailable'' \<and> pendings s = [] then
        (case stk_send 103 [] None True now
            (s\<lparr>phase := ''initializing'', reason := ''Requesting the SIM Toolkit menu''\<rparr>) d of
           (Err e, s, d) \<Rightarrow> (Err e, s, emit (Dropped (rq_reply req)) d)
         | (Ok _, s, d) \<Rightarrow> (Ok (), s, emit (Replied (rq_reply req) (Stk_session (snapshot_of s))) d))
      else (Ok (), s, emit (Replied (rq_reply req) (Stk_session (snapshot_of s))) d))"

definition refuse :: "stk_request \<Rightarrow> nat \<Rightarrow> string \<Rightarrow> session \<Rightarrow> io \<Rightarrow> outcome" where
  "refuse req status message s d = (Ok (), s, emit (Replied (rq_reply req) (Stk_error status message)) d)"

definition handle_request :: "stk_request \<Rightarrow> duration \<Rightarrow> session \<Rightarrow> io \<Rightarrow> outcome" where
  "handle_request req now s d =
     (if is_read req then answer_read req now s d
      else if pendings s \<noteq> [] \<or> phase s = ''waiting'' then
        refuse req 409 ''SIM request in progress; refresh the session'' s d
      else if rq_command_id req \<noteq> Some (show_nat (generation s)) then
        refuse req 409 ''stale or missing command_id; reload the SIM menu'' s d
      else case current s of
        None \<Rightarrow> refuse req 409 ''no SIM command is available'' s d
      | Some cmd \<Rightarrow>
          (case user_message req cmd of
             Ok (msg, raw) \<Rightarrow> stk_send msg raw (Some (rq_reply req)) False now s d
           | Err e \<Rightarrow> refuse req 400 e s d))"

section \<open>Frames\<close>

definition acknowledged :: "pending \<Rightarrow> duration \<Rightarrow> session \<Rightarrow> session" where
  "acknowledged p now s =
     (if p_init p \<and> current s = None then
        s\<lparr>phase := ''menu_unavailable'',
          reason := ''The modem accepted SIM Toolkit initialization but has not supplied a menu''\<rparr>
      else if p_reply p \<noteq> None \<and> generation s = p_generation p then
        s\<lparr>current := None, generation := generation s + 1, phase := ''waiting'', reason := ''Waiting for the SIM'',
          waiting_since := Some now\<rparr>
      else s)"

definition on_response :: "bytes \<Rightarrow> duration \<Rightarrow> session \<Rightarrow> io \<Rightarrow> outcome" where
  "on_response frame now s d =
     (if length frame < 12 then (Err ''truncated RIL token'', s, d)
      else
        let tok = be_value (take 8 (drop 4 frame)) in
        case number frame 12 of
          Err e \<Rightarrow> (Err e, s, d)
        | Ok errno \<Rightarrow>
            (case map_of (pendings s) tok of
               None \<Rightarrow> (Ok (), s, d)
             | Some p \<Rightarrow>
                 let s = s\<lparr>pendings := AList.delete tok (pendings s)\<rparr> in
                 if errno \<noteq> 0 then
                   (let message = ''RIL rejected STK request (error '' @ show_nat errno @ '')'' in
                    (Err message, s, (case p_reply p of Some r \<Rightarrow> emit (Replied r (Stk_error 502 message)) d | None \<Rightarrow> d)))
                 else
                   let s = acknowledged p now s in
                   (Ok (), s, (case p_reply p of Some r \<Rightarrow> emit (Replied r (Stk_session (snapshot_of s))) d | None \<Rightarrow> d))))"

definition proactive :: "command \<Rightarrow> duration \<Rightarrow> session \<Rightarrow> io \<Rightarrow> outcome" where
  "proactive cmd now s d =
     (let s = s\<lparr>generation := generation s + 1, waiting_since := None\<rparr>; kind = details cmd ! 1 in
      if kind = 0x25 then
        (let r = (if items cmd = [] then None else Some cmd) in
         stk_send 70 (response cmd 0 []) None False now
           (s\<lparr>root := r, current := r, phase := (if r \<noteq> None then ''ready'' else ''menu_unavailable''),
              reason := (if r \<noteq> None then [] else ''SIM removed its toolkit menu'')\<rparr>) d)
      else if 0x21 \<le> kind \<and> kind \<le> 0x24 then
        (Ok (), s\<lparr>current := Some cmd, phase := ''ready'', reason := []\<rparr>, d)
      else
        stk_send 70 (response cmd 0x30 []) None False now
          (s\<lparr>phase := ''unsupported_command'', reason := ''SIM command '' @ hex_byte kind @ '' is not implemented'', current := None\<rparr>) d)"

text \<open>The command in an indication: the text of its hex, without the zero bytes at its end.\<close>

definition proactive_of :: "bytes \<Rightarrow> string + command" where
  "proactive_of frame =
     and_then (number frame 8) (\<lambda>len.
       if len > 16384 then Err ''oversized proactive command''
       else if length frame < 12 + len then Err ''truncated proactive command''
       else case from_utf8 (take len (drop 12 frame)) of
         None \<Rightarrow> Err ''invalid proactive text''
       | Some hex \<Rightarrow> and_then (unhex (rev (dropWhile (\<lambda>c. c = CHR 0x00) (rev hex)))) parse_command)"

definition session_ended :: "session \<Rightarrow> session" where
  "session_ended s =
     s\<lparr>current := root s, generation := generation s + 1,
       phase := (if root s \<noteq> None then ''ready'' else ''menu_unavailable''), reason := ''SIM session ended'', waiting_since := None\<rparr>"

definition on_indication :: "bytes \<Rightarrow> duration \<Rightarrow> session \<Rightarrow> io \<Rightarrow> outcome" where
  "on_indication frame now s d =
     (case number frame 4 of
        Err e \<Rightarrow> (Err e, s, d)
      | Ok kind \<Rightarrow>
          if kind = 1012 then (Ok (), session_ended s, d)
          else if kind = 1013 then
            (case proactive_of frame of Err e \<Rightarrow> (Err e, s, d) | Ok cmd \<Rightarrow> proactive cmd now s d)
          else if kind = 1017 then (Err ''SIM refreshed; reload the toolkit session'', s, d)
          else if kind = 1014 \<or> kind = 1015 then
            (Ok (), s\<lparr>reason := ''SIM event received; no automatic service approval was sent''\<rparr>, d)
          else (Ok (), s, d))"

definition on_frame :: "bytes \<Rightarrow> duration \<Rightarrow> session \<Rightarrow> io \<Rightarrow> outcome" where
  "on_frame frame now s d =
     (case number frame 0 of
        Err e \<Rightarrow> (Err e, s, d)
      | Ok kind \<Rightarrow>
          if kind = 0 then on_response frame now s d
          else if kind = 1 then on_indication frame now s d
          else (Err ''unknown RIL frame type'', s, d))"

section \<open>The stream\<close>

text \<open>The buffer's first record, if it is complete.\<close>

definition next_record :: "bytes \<Rightarrow> string + (bytes \<times> bytes) option" where
  "next_record buf =
     (if length buf < 4 then Ok None
      else
        let n = be_value (take 4 buf) in
        if n < 4 \<or> 65536 < n then Err ''invalid RIL record length''
        else if length buf < n + 4 then Ok None
        else Ok (Some (take n (drop 4 buf), drop (n + 4) buf)))"

text \<open>Handling a frame leaves the buffer alone, so the loop over the records ends.\<close>

lemma next_record_shorter: "next_record buf = Ok (Some (frame, rest)) \<Longrightarrow> length rest < length buf"
  by (auto simp: next_record_def Let_def split: if_splits)

lemma send_keeps_buffer: "stk_send msg raw reply init now s d = (r, s', d') \<Longrightarrow> buffer s' = buffer s"
  by (auto simp: stk_send_def Let_def split: prod.splits option.splits)

lemma frame_keeps_buffer: "on_frame frame now s d = (r, s', d') \<Longrightarrow> buffer s' = buffer s"
  by (auto simp: on_frame_def on_response_def on_indication_def proactive_def acknowledged_def session_ended_def Let_def
      dest!: send_keeps_buffer split: sum.splits if_splits option.splits)

function read_records :: "duration \<Rightarrow> session \<Rightarrow> io \<Rightarrow> outcome" where
  "read_records now s d =
     (case next_record (buffer s) of
        Err e \<Rightarrow> (Err e, s, d)
      | Ok None \<Rightarrow> (Ok (), s, d)
      | Ok (Some (frame, rest)) \<Rightarrow>
          (case on_frame frame now (s\<lparr>buffer := rest\<rparr>) d of
             (Err e, s', d') \<Rightarrow> (Err e, s', d')
           | (Ok _, s', d') \<Rightarrow> read_records now s' d'))"
  by pat_completeness auto
termination
  by (relation "measure (\<lambda>(now, s, d). length (buffer s))") (auto dest!: frame_keeps_buffer [OF sym] next_record_shorter)

declare read_records.simps [simp del]

text \<open>What one \<open>read\<close> of the socket yields; no bytes are the end of the stream, would-block and its kin nothing.\<close>

datatype socket_read = Got bytes | Nothing_yet | Read_failed string

definition read_socket :: "socket_read \<Rightarrow> duration \<Rightarrow> session \<Rightarrow> io \<Rightarrow> outcome" where
  "read_socket got now s d =
     (case got of
        Got [] \<Rightarrow> (Err ''RIL socket disconnected'', s, d)
      | Got bs \<Rightarrow> read_records now (s\<lparr>buffer := buffer s @ bs\<rparr>) d
      | Nothing_yet \<Rightarrow> read_records now s d
      | Read_failed e \<Rightarrow> (Err (''RIL read failed: '' @ e), s, d))"

section \<open>Deadlines\<close>

definition check_deadlines :: "duration \<Rightarrow> session \<Rightarrow> string + unit" where
  "check_deadlines now s =
     (if \<exists>(t, p) \<in> set (pendings s). p_deadline p \<le> now then
        Err ''STK response timed out; session invalidated, no automatic retry''
      else case waiting_since s of
        Some t \<Rightarrow> if t + WAITING_LIMIT \<le> now
          then Err ''SIM did not return a command; reload the session before trying again'' else Ok ()
      | None \<Rightarrow> Ok ())"

definition stk_next_wake :: "session \<Rightarrow> duration option" where
  "stk_next_wake s =
     (let ts = map (p_deadline \<circ> snd) (pendings s) @ (case waiting_since s of Some t \<Rightarrow> [t + WAITING_LIMIT] | None \<Rightarrow> []) in
      if ts = [] then None else Some (Min (set ts)))"

text \<open>The timeout of \<open>poll\<close> in milliseconds, rounded up; \<open>-1\<close> is none.\<close>

definition poll_timeout_ms :: "duration option \<Rightarrow> duration \<Rightarrow> int" where
  "poll_timeout_ms wake now =
     (case wake of
        None \<Rightarrow> -1
      | Some t \<Rightarrow> int (min ((saturating_duration_since t now + 999999) div 1000000) (2 ^ 31 - 1)))"

section \<open>The thread\<close>

record worker =
  session :: "session option"
  last_error :: string
  shown :: "stk_reply option"
  dev :: io

definition worker_view :: "worker \<Rightarrow> stk_reply" where
  "worker_view w = (case session w of Some s \<Rightarrow> Stk_session (snapshot_of s) | None \<Rightarrow> Stk_error 503 (last_error w))"

definition publish :: "worker \<Rightarrow> worker" where
  "publish w = (if shown w = Some (worker_view w) then w else w\<lparr>shown := Some (worker_view w), dev := emit Told (dev w)\<rparr>)"

text \<open>The replies that are still due get the message; the order of the map does not matter.\<close>

definition fail_pendings :: "string \<Rightarrow> (nat \<times> pending) list \<Rightarrow> io \<Rightarrow> io" where
  "fail_pendings message ps d =
     foldl (\<lambda>d (t, p). case p_reply p of Some r \<Rightarrow> emit (Replied r (Stk_error 503 message)) d | None \<Rightarrow> d) d ps"

definition settle :: "outcome \<Rightarrow> worker \<Rightarrow> worker" where
  "settle out w =
     (case out of
        (Ok _, s, d) \<Rightarrow> w\<lparr>session := Some s, dev := d\<rparr>
      | (Err e, s, d) \<Rightarrow> w\<lparr>session := None, last_error := e, dev := fail_pendings e (pendings s) d\<rparr>)"

text \<open>The result of opening the socket: an error, or the time of the connection.\<close>

type_synonym socket_open = "string + nat"

definition connect_for :: "stk_request \<Rightarrow> socket_open \<Rightarrow> duration \<Rightarrow> worker \<Rightarrow> worker" where
  "connect_for req conn now w =
     (if session w = None \<and> rq_action req = ''menu'' then
        (case conn of
           Err e \<Rightarrow> w\<lparr>last_error := ''RIL connection failed: '' @ e\<rparr>
         | Ok ms \<Rightarrow>
             (case session_connect ms now (dev w) of
                (Ok _, s, d) \<Rightarrow> w\<lparr>session := Some s, dev := d\<rparr>
              | (Err e, s, d) \<Rightarrow> w\<lparr>last_error := e, dev := d\<rparr>))
      else w)"

definition dispatch :: "stk_request \<Rightarrow> socket_open \<Rightarrow> duration \<Rightarrow> worker \<Rightarrow> worker" where
  "dispatch req conn now w =
     (let w = connect_for req conn now w in
      case session w of
        Some s \<Rightarrow> settle (handle_request req now s (dev w)) w
      | None \<Rightarrow> w\<lparr>dev := emit (Replied (rq_reply req) (Stk_error 503 (last_error w))) (dev w)\<rparr>)"

fun replied_to :: "nat \<Rightarrow> stk_event \<Rightarrow> bool" where
  "replied_to r (Replied q a) = (q = r)"
| "replied_to r _ = False"

text \<open>\<open>serve\<close>: the answer to a read is held back until the state is published.\<close>

definition serve :: "stk_request \<Rightarrow> socket_open \<Rightarrow> duration \<Rightarrow> worker \<Rightarrow> worker" where
  "serve req conn now w =
     (let before = stk_log (dev w);
          w = dispatch req conn now (w\<lparr>dev := (dev w)\<lparr>stk_log := []\<rparr>\<rparr>);
          did = stk_log (dev w);
          held = (if is_read req then take 1 (filter (replied_to (rq_reply req)) did) else []);
          direct = (if is_read req then filter (Not \<circ> replied_to (rq_reply req)) did else did);
          w = publish (w\<lparr>dev := (dev w)\<lparr>stk_log := before @ direct\<rparr>\<rparr>)
      in w\<lparr>dev := (dev w)\<lparr>stk_log := stk_log (dev w) @ held\<rparr>\<rparr>)"

text \<open>What \<open>poll\<close> reports.\<close>

datatype polled = Poll_failed string | Not_readable | Readable socket_read

definition poll_outcome :: "polled \<Rightarrow> duration \<Rightarrow> session \<Rightarrow> io \<Rightarrow> outcome" where
  "poll_outcome p now s d =
     (let (r, s, d) = (case p of
            Poll_failed e \<Rightarrow> (Err e, s, d)
          | Not_readable \<Rightarrow> (Ok (), s, d)
          | Readable got \<Rightarrow> read_socket got now s d)
      in (and_then r (\<lambda>_. check_deadlines now s), s, d))"

definition after_poll :: "polled \<Rightarrow> duration \<Rightarrow> worker \<Rightarrow> worker" where
  "after_poll p now w =
     (case session w of
        None \<Rightarrow> w
      | Some s \<Rightarrow> publish (settle (poll_outcome p now s (dev w)) w))"

datatype stk_input = Serve stk_request socket_open duration | Polled polled duration

fun stk_step :: "stk_input \<Rightarrow> worker \<Rightarrow> worker" where
  "stk_step (Serve req conn now) w = serve req conn now w"
| "stk_step (Polled p now) w = after_poll p now w"

fun input_time :: "stk_input \<Rightarrow> duration" where
  "input_time (Serve req conn now) = now"
| "input_time (Polled p now) = now"

definition worker_new :: "string option list \<Rightarrow> worker" where
  "worker_new results = \<lparr>session = None, last_error = [], shown = None, dev = \<lparr>writes = results, stk_log = []\<rparr>\<rparr>"

end
