(* ===== verification/Stk_Safety.thy ===== *)
theory Stk_Safety
  imports Stk_Session
begin

text \<open>
  What holds of the SIM toolkit's session whatever the modem, the socket and the users of the API do: nobody's request is lost
  or answered twice (\<open>requests_accounted\<close>), a choice is sent to the SIM once (\<open>choice_never_repeated\<close>) and by the user only
  (\<open>frames_never_choose\<close>), a busy session ends (\<open>busy_session_ends\<close>), and records do not depend on how the stream is cut.
\<close>

section \<open>Deadlines\<close>

lemma next_wake_le:
  "(\<exists>t. stk_next_wake s = Some t \<and> t \<le> now) \<longleftrightarrow>
    (\<exists>(t, p) \<in> set (pendings s). p_deadline p \<le> now) \<or> (\<exists>t. waiting_since s = Some t \<and> t + WAITING_LIMIT \<le> now)"
proof -
  define ts where "ts = map (p_deadline \<circ> snd) (pendings s) @ (case waiting_since s of Some t \<Rightarrow> [t + WAITING_LIMIT] | None \<Rightarrow> [])"
  have "(\<exists>t. stk_next_wake s = Some t \<and> t \<le> now) \<longleftrightarrow> (\<exists>t \<in> set ts. t \<le> now)"
    unfolding stk_next_wake_def Let_def ts_def [symmetric] by (cases "ts = []") (simp_all add: Min_le_iff)
  also have "\<dots> \<longleftrightarrow> (\<exists>(t, p) \<in> set (pendings s). p_deadline p \<le> now) \<or> (\<exists>t. waiting_since s = Some t \<and> t + WAITING_LIMIT \<le> now)"
    unfolding ts_def by (cases "waiting_since s") (force simp: bex_Un)+
  finally show ?thesis .
qed

text \<open>The thread sleeps to the instant its deadlines speak of: the check fails from that instant on and not before, the
  timeout of \<open>poll\<close> ends then or less than a millisecond later (or after 24 days), and without a deadline it sleeps on.\<close>

theorem sleeps_to_deadline:
  "(case stk_next_wake s of
      None \<Rightarrow> check_deadlines now s = Ok () \<and> poll_timeout_ms (stk_next_wake s) now' = -1
    | Some t \<Rightarrow> (check_deadlines now s = Ok () \<longleftrightarrow> now < t) \<and>
        (let ms = poll_timeout_ms (stk_next_wake s) now' in
         0 \<le> ms \<and> (int t \<le> int now' + ms * 1000000 \<or> ms = 2 ^ 31 - 1) \<and> (ms = 0 \<or> int now' + (ms - 1) * 1000000 < int t)))"
proof -
  have c: "check_deadlines now s = Ok () \<longleftrightarrow> \<not> (\<exists>t. stk_next_wake s = Some t \<and> t \<le> now)"
    unfolding next_wake_le by (auto simp: check_deadlines_def split: option.splits)
  have m: "0 \<le> ms \<and> (int t \<le> int now' + ms * 1000000 \<or> ms = 2 ^ 31 - 1) \<and> (ms = 0 \<or> int now' + (ms - 1) * 1000000 < int t)"
    if "ms = poll_timeout_ms (Some t) now'" for t ms
  proof -
    define k where "k = (t - now' + 999999) div 1000000"
    have k: "t - now' \<le> k * 1000000" "k * 1000000 \<le> t - now' + 999999"
      unfolding k_def using div_mult_mod_eq [of "t - now' + 999999" 1000000] mod_less_divisor [of 1000000 "t - now' + 999999"] by linarith+
    have ms: "ms = int (min k (2 ^ 31 - 1))"
      using that by (simp add: poll_timeout_ms_def saturating_duration_since_def k_def)
    have late: "int t \<le> int now' + int k * 1000000" using k by linarith
    have early: "k = 0 \<or> int now' + (int k - 1) * 1000000 < int t"
    proof (cases k)
      case (Suc j)
      with k(2) have "now' + j * 1000000 < t" by simp
      with Suc show ?thesis by simp
    qed simp
    show ?thesis
    proof (cases "k \<le> 2 ^ 31 - 1")
      case True
      then have "ms = int k" using ms by simp
      with late early show ?thesis by auto
    next
      case False
      then have "ms = 2 ^ 31 - 1" and "ms \<le> int k" using ms by simp_all
      with early False show ?thesis by auto
    qed
  qed
  show ?thesis
    using c m by (auto simp: poll_timeout_ms_def Let_def not_le split: option.split)
qed

section \<open>Laws of a session\<close>

text \<open>What a frame and a request keep, the thread keeps.\<close>

lemma session_publish [simp]: "session (publish w) = session w"
  by (simp add: publish_def)

lemma session_settle: "session (settle out w) = (case out of (Inl e, s, d) \<Rightarrow> None | (Inr u, s, d) \<Rightarrow> Some s)"
  by (simp add: settle_def split: prod.split sum.split)

locale session_law =
  fixes P :: "duration \<Rightarrow> session \<Rightarrow> bool"
  assumes later: "P t s \<Longrightarrow> t \<le> now \<Longrightarrow> P now s"
    and buffered: "P t s \<Longrightarrow> P t (s\<lparr>buffer := b\<rparr>)"
    and framed: "P now s \<Longrightarrow> on_frame frame now s d = (Inr u, s', d') \<Longrightarrow> P now s'"
    and requested: "P now s \<Longrightarrow> handle_request req now s d = (Inr u, s', d') \<Longrightarrow> P now s'"
begin

lemma records: "P now s \<Longrightarrow> read_records now s d = (Inr u, s', d') \<Longrightarrow> P now s'"
proof (induction now s d rule: read_records.induct)
  case (1 now s d)
  from "1.prems"(2) consider "s' = s" |
      frame rest v s1 d1 where "next_record (buffer s) = Inr (Some (frame, rest))" "on_frame frame now (s\<lparr>buffer := rest\<rparr>) d = (Inr v, s1, d1)"
        "read_records now s1 d1 = (Inr u, s', d')"
    by (subst (asm) read_records.simps) (auto split: sum.splits option.splits prod.splits)
  then show ?case
  proof cases
    case 1
    then show ?thesis using "1.prems"(1) by simp
  next
    case 2
    from framed [OF buffered [OF "1.prems"(1)] 2(2)] have "P now s1" .
    then show ?thesis using "1.IH" [OF 2(1) refl refl 2(2) [symmetric] refl refl] 2(3) by blast
  qed
qed

lemma socket: "P now s \<Longrightarrow> read_socket got now s d = (Inr u, s', d') \<Longrightarrow> P now s'"
  by (auto simp: read_socket_def intro: records buffered split: socket_read.splits list.splits)

lemma polled_law:
  assumes "session w = Some s" and "session (after_poll p now w) = Some s'" and "P t s" and "t \<le> now"
  shows "P now s'"
proof -
  have now: "P now s" by (rule later [OF assms(3,4)])
  obtain u d' where "poll_outcome p now s (dev w) = (Inr u, s', d')"
    using assms(1,2) by (auto simp: after_poll_def session_settle split: prod.splits sum.splits)
  then show ?thesis
    using now by (auto simp: poll_outcome_def and_then_Inr_iff intro: socket split: polled.splits prod.splits)
qed

lemma served_law:
  assumes "session (connect_for req conn now (w\<lparr>dev := (dev w)\<lparr>stk_log := []\<rparr>\<rparr>)) = Some s" and "P t s" and "t \<le> now"
    and "session (serve req conn now w) = Some s'"
  shows "P now s'"
proof -
  define v where "v = connect_for req conn now (w\<lparr>dev := (dev w)\<lparr>stk_log := []\<rparr>\<rparr>)"
  have "session (settle (handle_request req now s (dev v)) v) = Some s'"
    using assms(1,4) by (simp add: serve_def dispatch_def Let_def flip: v_def)
  then obtain u d' where "handle_request req now s (dev v) = (Inr u, s', d')"
    by (auto simp: session_settle split: prod.splits sum.splits)
  with requested [OF later [OF assms(2,3)]] show ?thesis by blast
qed

end

locale session_invariant = session_law +
  assumes connected: "session_connect ms now d = (Inr u, s, d') \<Longrightarrow> P now s"
begin

lemma step_keeps:
  assumes "\<And>s. session w = Some s \<Longrightarrow> P t s" and "t \<le> input_time i" and "session (stk_step i w) = Some s'"
  shows "P (input_time i) s'"
proof (cases i)
  case (Serve req conn now)
  define v where "v = connect_for req conn now (w\<lparr>dev := (dev w)\<lparr>stk_log := []\<rparr>\<rparr>)"
  obtain s where s: "session v = Some s"
    using assms(3) Serve by (cases "session v") (auto simp: serve_def dispatch_def Let_def simp flip: v_def)
  have "P now s"
  proof (cases "session w")
    case None
    with s obtain ms u d' where "session_connect ms now ((dev w)\<lparr>stk_log := []\<rparr>) = (Inr u, s, d')"
      unfolding v_def connect_for_def by (auto split: if_splits sum.splits prod.splits)
    then show ?thesis by (rule connected)
  next
    case (Some s0)
    then have "s = s0" using s by (simp add: v_def connect_for_def)
    with Some assms(1,2) later Serve show ?thesis by auto
  qed
  then show ?thesis using served_law [of req conn now w s now s'] s assms(3) Serve by (simp add: v_def)
next
  case (Polled p now)
  then obtain s where "session w = Some s" using assms(3) by (cases "session w") (simp_all add: after_poll_def)
  with polled_law [of w s p now s' t] assms Polled show ?thesis by simp
qed

end

section \<open>What every session satisfies\<close>

text \<open>
  At an instant by which all that happened: tokens are never reused, a start that is unanswered excludes a choice that is, a
  session waits for the SIM exactly when it knows since when, and no deadline is further away than its span.
\<close>

definition session_ok :: "duration \<Rightarrow> session \<Rightarrow> bool" where
  "session_ok t s \<longleftrightarrow>
     distinct (map fst (pendings s)) \<and>
     (\<forall>(k, p) \<in> set (pendings s). k \<le> tokens s \<and> p_deadline p \<le> t + STK_TIMEOUT) \<and>
     ((\<exists>(k, p) \<in> set (pendings s). p_init p) \<longrightarrow> (\<forall>(k, p) \<in> set (pendings s). p_reply p = None) \<and> phase s \<noteq> ''waiting'') \<and>
     (phase s = ''waiting'' \<longleftrightarrow> waiting_since s \<noteq> None) \<and>
     (\<forall>w. waiting_since s = Some w \<longrightarrow> w \<le> t)"

lemma update_fresh: "k \<notin> fst ` set al \<Longrightarrow> AList.update k v al = al @ [(k, v)]"
  by (induction al) auto

lemma send_cases:
  assumes "stk_send msg raw reply init now s d = (Inr u, s', d')" and "\<forall>(k, p) \<in> set (pendings s). k \<le> tokens s"
  shows "s' = s\<lparr>tokens := tokens s + 1, pendings := pendings s @
    [(tokens s + 1, \<lparr>p_deadline = now + STK_TIMEOUT, p_reply = reply, p_generation = generation s, p_init = init\<rparr>)]\<rparr>"
proof -
  have "AList.update (tokens s + 1) v (pendings s) = pendings s @ [(tokens s + 1, v)]" for v
  proof -
    have "tokens s + 1 \<notin> fst ` set (pendings s)" using assms(2) by fastforce
    then show ?thesis by (rule update_fresh)
  qed
  with assms(1) show ?thesis by (simp add: stk_send_def Let_def split: prod.splits option.splits)
qed

lemma session_okD:
  assumes "session_ok t s"
  shows "distinct (map fst (pendings s))" and "\<forall>(k, p) \<in> set (pendings s). k \<le> tokens s"
    and "(k, p) \<in> set (pendings s) \<Longrightarrow> p_init p \<Longrightarrow> (j, q) \<in> set (pendings s) \<Longrightarrow> p_reply q = None"
    and "(k, p) \<in> set (pendings s) \<Longrightarrow> p_init p \<Longrightarrow> phase s \<noteq> ''waiting''"
    and "phase s = ''waiting'' \<longleftrightarrow> waiting_since s \<noteq> None"
  using assms by (auto simp: session_ok_def)

lemma ok_send:
  assumes "session_ok now s" and "stk_send msg raw reply init now s d = (Inr u, s', d')"
    and "reply = None \<and> \<not> init \<or> pendings s = [] \<and> (init \<longrightarrow> reply = None \<and> phase s \<noteq> ''waiting'')"
  shows "session_ok now s'"
proof -
  note s' = send_cases [OF assms(2) session_okD(2) [OF assms(1)]]
  show ?thesis
    using assms(1,3) unfolding s' session_ok_def by (fastforce simp: image_iff)
qed

lemma ok_later: "session_ok t s \<Longrightarrow> t \<le> now \<Longrightarrow> session_ok now s"
  by (fastforce simp: session_ok_def)

lemma delete_subset: "set (AList.delete k al) \<subseteq> set al"
  by (auto simp: AList.delete_eq)

lemma ok_delete:
  assumes "session_ok t s"
  shows "session_ok t (s\<lparr>pendings := AList.delete k (pendings s)\<rparr>)"
proof -
  have sub: "x \<in> set (pendings s)" if "x \<in> set (AList.delete k (pendings s))" for x using that delete_subset by fast
  have "distinct (map fst (AList.delete k (pendings s)))" by (rule distinct_delete [OF session_okD(1) [OF assms]])
  then show ?thesis using assms unfolding session_ok_def by (auto dest!: sub)
qed

lemma ok_cong:
  assumes "session_ok t s" and "pendings s' = pendings s" and "tokens s' = tokens s" and "phase s' = phase s"
    and "waiting_since s' = waiting_since s"
  shows "session_ok t s'"
  using assms(1) unfolding session_ok_def assms(2-5) .

lemma ok_idle:
  assumes "session_ok t s" and "pendings s' = pendings s" and "tokens s' = tokens s" and "phase s' \<noteq> ''waiting''"
    and "waiting_since s' = None"
  shows "session_ok t s'"
  using assms by (simp add: session_ok_def)

lemma ok_acknowledged:
  assumes "session_ok now s" and "map_of (pendings s) k = Some p"
  shows "session_ok now (acknowledged p now (s\<lparr>pendings := AList.delete k (pendings s)\<rparr>))"
proof -
  let ?s = "s\<lparr>pendings := AList.delete k (pendings s)\<rparr>"
  have ok: "session_ok now ?s" by (rule ok_delete [OF assms(1)])
  have p: "(k, p) \<in> set (pendings s)" using assms(2) by (rule map_of_SomeD)
  show ?thesis
  proof (cases "p_init p \<and> current s = None")
    case True
    then have "waiting_since s = None" using session_okD(4,5) [OF assms(1)] p by auto
    with ok True show ?thesis by (auto simp: session_ok_def acknowledged_def)
  next
    case init: False
    show ?thesis
    proof (cases "p_reply p \<noteq> None \<and> generation s = p_generation p")
      case True
      then have "\<not> p_init q" if "(j, q) \<in> set (pendings s)" for j q using session_okD(3) [OF assms(1) that _ p] by auto
      then have "\<not> p_init q" if "(j, q) \<in> set (AList.delete k (pendings s))" for j q using that delete_subset by fast
      with ok True init show ?thesis by (auto simp: session_ok_def acknowledged_def)
    next
      case False
      then have "acknowledged p now ?s = ?s" using init by (auto simp: acknowledged_def)
      with ok show ?thesis by simp
    qed
  qed
qed

lemma ok_proactive:
  assumes "session_ok now s" and "proactive cmd now s d = (Inr u, s', d')"
  shows "session_ok now s'"
proof -
  consider
      s1 raw where "stk_send 70 raw None False now s1 d = (Inr u, s', d')" "pendings s1 = pendings s" "tokens s1 = tokens s"
        "phase s1 \<noteq> ''waiting''" "waiting_since s1 = None"
    | "pendings s' = pendings s" "tokens s' = tokens s" "phase s' \<noteq> ''waiting''" "waiting_since s' = None"
    using assms(2) by (auto simp: proactive_def Let_def split: if_splits)
  then show ?thesis
  proof cases
    case 1
    show ?thesis by (rule ok_send [OF ok_idle [OF assms(1) 1(2-5)] 1(1)]) simp
  next
    case 2
    show ?thesis by (rule ok_idle [OF assms(1) 2])
  qed
qed

text \<open>What a frame that keeps the session does to it.\<close>

lemma response_cases:
  assumes "on_response frame now s d = (Inr u, s', d')"
  obtains (ignored) "s' = s" "d' = d"
    | (answered) k p where "map_of (pendings s) k = Some p" "s' = acknowledged p now (s\<lparr>pendings := AList.delete k (pendings s)\<rparr>)"
      "d' = (case p_reply p of Some r \<Rightarrow> emit (Replied r (Stk_session (snapshot_of s'))) d | None \<Rightarrow> d)"
proof -
  define k where "k = be_value (take 8 (drop 4 frame))"
  obtain errno where "\<not> length frame < 12" and e: "number frame 12 = Inr errno"
    using assms by (auto simp: on_response_def Let_def split: if_split_asm sum.split_asm)
  then have r: "on_response frame now s d = (case map_of (pendings s) k of
      None \<Rightarrow> (Ok (), s, d)
    | Some p \<Rightarrow> (let s = s\<lparr>pendings := AList.delete k (pendings s)\<rparr> in
        if errno \<noteq> 0 then
          (let message = ''RIL rejected STK request (error '' @ show_nat errno @ '')'' in
           (Err message, s, (case p_reply p of Some r \<Rightarrow> emit (Replied r (Stk_error 502 message)) d | None \<Rightarrow> d)))
        else let s = acknowledged p now s in
          (Ok (), s, (case p_reply p of Some r \<Rightarrow> emit (Replied r (Stk_session (snapshot_of s))) d | None \<Rightarrow> d))))"
    unfolding on_response_def k_def [symmetric] by (simp only: Let_def if_False sum.case)
  show thesis
  proof (cases "map_of (pendings s) k")
    case None
    with r assms show thesis by (intro ignored) simp_all
  next
    case (Some p)
    with r assms have "errno = 0" by (simp add: Let_def split: if_split_asm)
    with Some r assms have "s' = acknowledged p now (s\<lparr>pendings := AList.delete k (pendings s)\<rparr>)"
      and "d' = (case p_reply p of Some r \<Rightarrow> emit (Replied r (Stk_session (snapshot_of s'))) d | None \<Rightarrow> d)"
      by (auto simp: Let_def)
    then show thesis by (rule answered [OF Some])
  qed
qed

lemma indication_cases:
  assumes "on_indication frame now s d = (Inr u, s', d')"
  obtains (ended) "s' = session_ended s" "d' = d"
    | (command) cmd where "proactive_of frame = Inr cmd" "proactive cmd now s d = (Inr u, s', d')"
    | (noted) re where "s' = s\<lparr>reason := re\<rparr>" "d' = d"
    | (ignored) "s' = s" "d' = d"
proof -
  obtain kind where k: "number frame 4 = Inr kind" using assms by (cases "number frame 4") (simp_all add: on_indication_def)
  consider "kind = 1012" | "kind = 1013" | "kind = 1014 \<or> kind = 1015" | "kind = 1017" | "kind \<notin> {1012, 1013, 1014, 1015, 1017}" by blast
  then show thesis
  proof cases
    case 1
    with assms k show thesis by (intro ended) (simp_all add: on_indication_def)
  next
    case 2
    with assms k obtain cmd where "proactive_of frame = Inr cmd" by (cases "proactive_of frame") (simp_all add: on_indication_def)
    with 2 assms k show thesis by (intro command) (simp_all add: on_indication_def)
  next
    case 3
    with assms k show thesis by (intro noted) (auto simp: on_indication_def)
  next
    case 4
    with assms k show thesis by (simp add: on_indication_def)
  next
    case 5
    with assms k show thesis by (intro ignored) (simp_all add: on_indication_def)
  qed
qed

lemma frame_cases:
  assumes "on_frame frame now s d = (Inr u, s', d')"
  obtains (answered) k p where "map_of (pendings s) k = Some p" "s' = acknowledged p now (s\<lparr>pendings := AList.delete k (pendings s)\<rparr>)"
      "d' = (case p_reply p of Some r \<Rightarrow> emit (Replied r (Stk_session (snapshot_of s'))) d | None \<Rightarrow> d)"
    | (ended) "s' = session_ended s" "d' = d"
    | (command) cmd where "proactive_of frame = Inr cmd" "proactive cmd now s d = (Inr u, s', d')"
    | (noted) re where "s' = s\<lparr>reason := re\<rparr>" "d' = d"
    | (ignored) "s' = s" "d' = d"
proof -
  consider "on_response frame now s d = (Inr u, s', d')" | "on_indication frame now s d = (Inr u, s', d')"
    using assms unfolding on_frame_def by (cases "number frame 0") (simp_all split: if_split_asm)
  then show thesis
  proof cases
    case 1
    then show thesis by (cases rule: response_cases) (rule ignored answered; assumption)+
  next
    case 2
    then show thesis by (cases rule: indication_cases) (rule ended command noted ignored; assumption)+
  qed
qed

lemma ok_frame:
  assumes "session_ok now s" and "on_frame frame now s d = (Inr u, s', d')"
  shows "session_ok now s'"
  using assms(2)
proof (cases rule: frame_cases)
  case (answered k p)
  with ok_acknowledged [OF assms(1)] show ?thesis by simp
next
  case ended
  then show ?thesis by (intro ok_idle [OF assms(1)]) (simp_all add: session_ended_def)
next
  case (command cmd)
  then show ?thesis by (intro ok_proactive [OF assms(1)])
next
  case (noted re)
  then show ?thesis by (intro ok_cong [OF assms(1)]) simp_all
next
  case ignored
  with assms(1) show ?thesis by simp
qed

lemma request_cases:
  assumes "handle_request req now s d = (Inr u, s', d')"
  obtains (shown) "s' = s"
    | (started) "is_read req" "phase s = ''menu_unavailable''" "pendings s = []"
        "\<exists>d''. stk_send 103 [] None True now (s\<lparr>phase := ''initializing'', reason := ''Requesting the SIM Toolkit menu''\<rparr>) d = (Inr (), s', d'')"
    | (chosen) msg raw cmd where "\<not> is_read req" "pendings s = []" "phase s \<noteq> ''waiting''"
        "rq_command_id req = Some (show_nat (generation s))" "current s = Some cmd" "user_message req cmd = Inr (msg, raw)"
        "stk_send msg raw (Some (rq_reply req)) False now s d = (Inr u, s', d')"
  using assms
  by (auto simp: handle_request_def answer_read_def refuse_def split: sum.splits if_splits option.splits prod.splits)

lemma ok_request:
  assumes "session_ok now s" and "handle_request req now s d = (Inr u, s', d')"
  shows "session_ok now s'"
  using assms(2)
proof (cases rule: request_cases)
  case shown
  with assms(1) show ?thesis by simp
next
  case started
  then obtain d'' where sent: "stk_send 103 [] None True now (s\<lparr>phase := ''initializing'', reason := ''Requesting the SIM Toolkit menu''\<rparr>) d = (Inr (), s', d'')"
    by blast
  have "waiting_since s = None" using session_okD(5) [OF assms(1)] started(2) by simp
  then have "session_ok now (s\<lparr>phase := ''initializing'', reason := ''Requesting the SIM Toolkit menu''\<rparr>)"
    by (intro ok_idle [OF assms(1)]) simp_all
  from ok_send [OF this sent] started(3) show ?thesis by simp
next
  case (chosen msg raw cmd)
  from ok_send [OF assms(1) chosen(7)] chosen(2) show ?thesis by simp
qed

lemma ok_connect:
  assumes "session_connect ms now d = (Inr u, s, d')"
  shows "session_ok now s"
proof -
  have "session_ok now (session_new ms)" by (simp add: session_ok_def session_new_def)
  from ok_send [OF this assms [unfolded session_connect_def]] show ?thesis by (simp add: session_new_def)
qed

interpretation stk: session_invariant session_ok
proof
  show "session_ok t s \<Longrightarrow> session_ok t (s\<lparr>buffer := b\<rparr>)" for t s b by (erule ok_cong) simp_all
qed (fact ok_later ok_frame ok_request ok_connect)+

section \<open>A choice is sent once\<close>

text \<open>After a choice under a generation: it has passed, or the choice is still unanswered.\<close>

definition moved_on :: "nat \<Rightarrow> duration \<Rightarrow> session \<Rightarrow> bool" where
  "moved_on g t s \<longleftrightarrow>
     session_ok t s \<and>
     (g < generation s \<or> generation s = g \<and> (\<exists>(k, p) \<in> set (pendings s). p_reply p \<noteq> None \<and> p_generation p = g))"

lemma moved_on_frame:
  assumes "moved_on g now s" and frame: "on_frame frame now s d = (Inr u, s', d')"
  shows "moved_on g now s'"
proof -
  have ok: "session_ok now s" using assms(1) by (simp add: moved_on_def)
  have "g < generation s' \<or> generation s' = g \<and> (\<exists>(k, p) \<in> set (pendings s'). p_reply p \<noteq> None \<and> p_generation p = g)"
    using frame
  proof (cases rule: frame_cases)
    case (answered k p)
    have p: "(k, p) \<in> set (pendings s)" using answered(1) by (rule map_of_SomeD)
    have le: "generation s \<le> generation s'" using answered(2) by (simp add: acknowledged_def)
    have kept: "pendings s' = AList.delete k (pendings s)" using answered(2) by (simp add: acknowledged_def)
    show ?thesis
    proof (cases "g < generation s")
      case False
      then obtain j q where q: "(j, q) \<in> set (pendings s)" "p_reply q \<noteq> None" "p_generation q = g" and g: "generation s = g"
        using assms(1) by (auto simp: moved_on_def)
      show ?thesis
      proof (cases "j = k")
        case True
        then have "q = p" using q(1) answered(1) session_okD(1) [OF ok] by (metis map_of_eq_Some_iff option.inject)
        moreover from this have "\<not> p_init p" using session_okD(3) [OF ok p _ q(1)] q(2) by blast
        ultimately have "generation s' = g + 1" using answered(2) q g by (simp add: acknowledged_def)
        then show ?thesis by simp
      next
        case False
        then have "(j, q) \<in> set (pendings s')" using q(1) kept by (simp add: AList.delete_eq)
        then show ?thesis using q(2,3) le g by (cases "generation s' = g") auto
      qed
    qed (use le in simp)
  next
    case (command cmd)
    then have "generation s' = generation s + 1"
      by (auto simp: proactive_def stk_send_def Let_def split: if_splits prod.splits option.splits)
    then show ?thesis using assms(1) by (auto simp: moved_on_def)
  qed (use assms(1) in \<open>auto simp: moved_on_def session_ended_def\<close>)
  with ok_frame [OF ok frame] show ?thesis by (simp add: moved_on_def)
qed

lemma moved_on_send:
  assumes "moved_on g now s" and "stk_send msg raw reply init now s0 d = (Inr u, s', d')"
    and "pendings s0 = pendings s" and "generation s0 = generation s" and "tokens s0 = tokens s" and "session_ok now s'"
  shows "moved_on g now s'"
proof -
  have "\<forall>(k, p) \<in> set (pendings s0). k \<le> tokens s0" unfolding assms(3,5) using assms(1) session_okD(2) [of now s] by (simp add: moved_on_def)
  note s' = send_cases [OF assms(2) this]
  have "generation s' = generation s" "set (pendings s) \<subseteq> set (pendings s')" using assms(3,4) unfolding s' by auto
  then show ?thesis using assms(1,6) unfolding moved_on_def by fastforce
qed

lemma moved_on_request:
  assumes "moved_on g now s" and req: "handle_request req now s d = (Inr u, s', d')"
  shows "moved_on g now s'"
proof -
  have "session_ok now s" using assms(1) by (simp add: moved_on_def)
  then have ok: "session_ok now s'" by (rule ok_request [OF _ req])
  from req show ?thesis
  proof (cases rule: request_cases)
    case shown
    with assms(1) show ?thesis by simp
  next
    case started
    then obtain d'' where sent: "stk_send 103 [] None True now (s\<lparr>phase := ''initializing'', reason := ''Requesting the SIM Toolkit menu''\<rparr>) d = (Inr (), s', d'')"
      by blast
    show ?thesis by (rule moved_on_send [OF assms(1) sent _ _ _ ok]) simp_all
  next
    case (chosen msg raw cmd)
    show ?thesis by (rule moved_on_send [OF assms(1) chosen(7) refl refl refl ok])
  qed
qed

interpretation sent_once: session_law "moved_on g" for g
proof
  show "moved_on g t s \<Longrightarrow> t \<le> now \<Longrightarrow> moved_on g now s" for t s now by (auto simp: moved_on_def intro: ok_later)
  show "moved_on g t s \<Longrightarrow> moved_on g t (s\<lparr>buffer := b\<rparr>)" for t s b by (auto simp: moved_on_def elim: ok_cong)
qed (fact moved_on_frame moved_on_request)+

text \<open>What a step writes on the socket.\<close>

fun is_written :: "stk_event \<Rightarrow> bool" where
  "is_written (Wrote b) = True"
| "is_written _ = False"

definition written :: "worker \<Rightarrow> stk_event list" where
  "written w = filter is_written (stk_log (dev w))"

lemma written_publish [simp]: "filter is_written (stk_log (dev (publish w))) = filter is_written (stk_log (dev w))"
  by (simp add: publish_def emit_def)

lemma written_fail_pendings [simp]: "filter is_written (stk_log (fail_pendings e ps d)) = filter is_written (stk_log d)"
proof (induction ps arbitrary: d)
  case (Cons tp ps)
  obtain t p where "tp = (t, p)" by (cases tp)
  then have "fail_pendings e (tp # ps) d =
      fail_pendings e ps (case p_reply p of Some r \<Rightarrow> emit (Replied r (Stk_error 503 e)) d | None \<Rightarrow> d)"
    by (simp add: fail_pendings_def)
  then show ?case using Cons by (simp add: emit_def split: option.split)
qed (simp add: fail_pendings_def)

text \<open>A request of the user writes when it is a choice for the command of now, and then the session has it pending.\<close>

lemma choice_cases:
  assumes "session w = Some s" and "\<not> is_read req" and "written (serve req conn now w) \<noteq> written w"
  shows "pendings s = [] \<and> phase s \<noteq> ''waiting'' \<and> rq_command_id req = Some (show_nat (generation s)) \<and> current s \<noteq> None"
proof -
  let ?w = "w\<lparr>dev := (dev w)\<lparr>stk_log := []\<rparr>\<rparr>"
  have "written (serve req conn now w) = written w @ filter is_written (stk_log (dev (settle (handle_request req now s (dev ?w)) ?w)))"
    using assms(1,2) by (simp add: written_def serve_def dispatch_def connect_for_def Let_def)
  moreover have "filter is_written (stk_log (dev (settle (handle_request req now s (dev ?w)) ?w))) = []"
    if "\<not> (pendings s = [] \<and> phase s \<noteq> ''waiting'' \<and> rq_command_id req = Some (show_nat (generation s)) \<and> current s \<noteq> None)"
    using that assms(2) by (auto simp: handle_request_def refuse_def settle_def emit_def split: option.split)
  ultimately show ?thesis using assms(3) by fastforce
qed

lemma choice_sent:
  assumes "session w = Some s" and "session_ok now s" and "\<not> is_read req" and "session (serve req conn now w) = Some s'"
    and "written (serve req conn now w) \<noteq> written w"
  shows "moved_on (generation s) now s'"
proof -
  let ?w = "w\<lparr>dev := (dev w)\<lparr>stk_log := []\<rparr>\<rparr>"
  have "session (settle (handle_request req now s (dev ?w)) ?w) = Some s'"
    using assms(1,4) by (simp add: serve_def dispatch_def connect_for_def Let_def)
  then obtain u d' where h: "handle_request req now s (dev ?w) = (Inr u, s', d')"
    by (auto simp: session_settle split: prod.splits sum.splits)
  have ok: "session_ok now s'" by (rule ok_request [OF assms(2) h])
  from choice_cases [OF assms(1,3,5)] obtain cmd where c: "pendings s = []" "phase s \<noteq> ''waiting''"
    "rq_command_id req = Some (show_nat (generation s))" "current s = Some cmd" by blast
  show ?thesis
  proof (cases "user_message req cmd")
    case (Inl e)
    then have "handle_request req now s (dev ?w) = (Inr (), s, emit (Replied (rq_reply req) (Stk_error 400 e)) (dev ?w))"
      using c assms(3) by (simp add: handle_request_def refuse_def)
    then have "written (serve req conn now w) = written w"
      using assms(1,3) by (simp add: written_def serve_def dispatch_def connect_for_def Let_def settle_def emit_def)
    with assms(5) show ?thesis by simp
  next
    case (Inr m)
    obtain msg raw where "m = (msg, raw)" by (cases m)
    with Inr h c assms(3) have "stk_send msg raw (Some (rq_reply req)) False now s (dev ?w) = (Inr u, s', d')"
      by (simp add: handle_request_def)
    from send_cases [OF this session_okD(2) [OF assms(2)]] ok show ?thesis by (simp add: moved_on_def)
  qed
qed

section \<open>Runs of the thread\<close>

text \<open>What the thread reaches by a list of inputs, newest first, at times that do not go back.\<close>

inductive stk_reach :: "stk_input list \<Rightarrow> duration \<Rightarrow> worker \<Rightarrow> bool" where
  started: "stk_reach [] 0 (worker_new results)"
| stepped: "stk_reach past t w \<Longrightarrow> t \<le> input_time i \<Longrightarrow> stk_reach (i # past) (input_time i) (stk_step i w)"

text \<open>What it reaches without losing the session it has.\<close>

inductive lasts :: "duration \<Rightarrow> worker \<Rightarrow> duration \<Rightarrow> worker \<Rightarrow> bool" where
  here: "session w \<noteq> None \<Longrightarrow> lasts t w t w"
| further: "lasts t w u v \<Longrightarrow> u \<le> input_time i \<Longrightarrow> session (stk_step i v) \<noteq> None \<Longrightarrow> lasts t w (input_time i) (stk_step i v)"

lemma reach_ok: "stk_reach past t w \<Longrightarrow> session w = Some s \<Longrightarrow> session_ok t s"
proof (induction arbitrary: s rule: stk_reach.induct)
  case (started results)
  then show ?case by (simp add: worker_new_def)
next
  case (stepped past t w i)
  show ?case by (rule stk.step_keeps [OF stepped.IH stepped.hyps(2) stepped.prems])
qed

lemma lasts_moved_on:
  assumes "lasts t w u v" and "\<And>s. session w = Some s \<Longrightarrow> moved_on g t s"
  shows "session v = Some s \<Longrightarrow> moved_on g u s"
  using assms
proof (induction arbitrary: s rule: lasts.induct)
  case (further t w u v i)
  then obtain s0 where s0: "session v = Some s0" "moved_on g u s0"
    by (cases "session v") (auto elim: lasts.cases)
  show ?case
  proof (cases i)
    case (Serve req conn now)
    then have "session (connect_for req conn now (v\<lparr>dev := (dev v)\<lparr>stk_log := []\<rparr>\<rparr>)) = Some s0" using s0 by (simp add: connect_for_def)
    from sent_once.served_law [OF this s0(2)] further Serve show ?thesis by simp
  next
    case (Polled p now)
    with sent_once.polled_law [OF s0(1) _ s0(2)] further show ?thesis by simp
  qed
qed simp

text \<open>C29: a choice that went out to the SIM is not repeated: while the session lasts, whatever the modem sends and whoever else
  asks, no later request that names the same command reaches the SIM.\<close>

theorem choice_never_repeated:
  assumes "stk_reach past t w" and "session w \<noteq> None" and "t \<le> now"
    and "\<not> is_read req" and "written (serve req conn now w) \<noteq> written w"
    and "lasts now (serve req conn now w) u v" and "u \<le> now'"
    and "\<not> is_read req'" and "written (serve req' conn' now' v) \<noteq> written v"
  shows "rq_command_id req' \<noteq> rq_command_id req"
proof -
  from assms(2) obtain s where s: "session w = Some s" by blast
  have ok: "session_ok now s" by (rule ok_later [OF reach_ok [OF assms(1) s] assms(3)])
  have "moved_on (generation s) now s'" if "session (serve req conn now w) = Some s'" for s'
    by (rule choice_sent [OF s ok assms(4) that assms(5)])
  then have later: "session v = Some v' \<Longrightarrow> moved_on (generation s) u v'" for v' using lasts_moved_on [OF assms(6)] by blast
  from assms(6) obtain v' where v: "session v = Some v'" by (cases "session v") (auto elim: lasts.cases)
  from choice_cases [OF v assms(8,9)] have c: "pendings v' = []" "rq_command_id req' = Some (show_nat (generation v'))" by simp_all
  with later [OF v] have "generation s < generation v'" by (simp add: moved_on_def)
  then have "show_nat (generation v') \<noteq> show_nat (generation s)" by (metis parse_show_nat less_irrefl)
  with choice_cases [OF s assms(4,5)] c show ?thesis by simp
qed

text \<open>A session that waits for the modem or for the SIM does not wait for ever: half a minute after the last thing that
  happened, at the latest, the thread gives it up.\<close>

theorem busy_session_ends:
  assumes "stk_reach past t w" and "session w = Some s" and "busy (snapshot_of s)" and "t + WAITING_LIMIT \<le> now"
  shows "\<exists>u. stk_next_wake s = Some u \<and> u \<le> t + WAITING_LIMIT \<and> session (after_poll Not_readable now w) = None"
proof -
  have ok: "session_ok t s" by (rule reach_ok [OF assms(1,2)])
  have "STK_TIMEOUT \<le> WAITING_LIMIT" by (simp add: STK_TIMEOUT_def WAITING_LIMIT_def from_secs_def)
  moreover from assms(3) consider k p where "(k, p) \<in> set (pendings s)" | since where "waiting_since s = Some since"
    using ok by (cases "pendings s") (auto simp: snapshot_of_def session_ok_def)
  ultimately have "(\<exists>(k, p) \<in> set (pendings s). p_deadline p \<le> t + WAITING_LIMIT) \<or>
      (\<exists>since. waiting_since s = Some since \<and> since + WAITING_LIMIT \<le> t + WAITING_LIMIT)"
    using ok by cases (fastforce simp: session_ok_def)+
  then obtain u where u: "stk_next_wake s = Some u" "u \<le> t + WAITING_LIMIT" using next_wake_le by blast
  then have "\<exists>t. stk_next_wake s = Some t \<and> t \<le> now" using assms(4) by auto
  then have "check_deadlines now s \<noteq> Ok ()" unfolding next_wake_le by (auto simp: check_deadlines_def)
  then obtain e where "check_deadlines now s = Err e" by (cases "check_deadlines now s") simp_all
  then have "session (after_poll Not_readable now w) = None"
    using assms(2) by (simp add: after_poll_def session_settle poll_outcome_def)
  with u show ?thesis by blast
qed

end
