(* ===== verification/Stk_Requests.thy ===== *)
theory Stk_Requests
  imports Stk_Safety
begin

text \<open>
  The books of the SIM toolkit's thread: every request it takes is answered once, or let go once, or owed by the session it has.
\<close>

section \<open>Requests accounted for\<close>

definition replies_due :: "(nat \<times> pending) list \<Rightarrow> nat list" where
  "replies_due ps = concat (map (\<lambda>(k, p). case p_reply p of Some r \<Rightarrow> [r] | None \<Rightarrow> []) ps)"

fun settles :: "stk_event \<Rightarrow> nat list" where
  "settles (Replied r a) = [r]"
| "settles (Dropped r) = [r]"
| "settles _ = []"

text \<open>The requests that are answered, or let go, and those that a session still owes.\<close>

definition answered :: "io \<Rightarrow> nat multiset" where
  "answered d = mset (concat (map settles (stk_log d)))"

definition accounted :: "session \<Rightarrow> io \<Rightarrow> nat multiset" where
  "accounted s d = answered d + mset (replies_due (pendings s))"

definition owed :: "worker \<Rightarrow> nat multiset" where
  "owed w = (case session w of None \<Rightarrow> {#} | Some s \<Rightarrow> mset (replies_due (pendings s)))"

lemma answered_emit [simp]: "answered (emit e d) = answered d + mset (settles e)"
  by (simp add: answered_def emit_def)

lemma next_write_log: "next_write d = (x, d') \<Longrightarrow> answered d' = answered d"
  by (auto simp: next_write_def answered_def split: list.splits)

abbreviation one_reply :: "nat option \<Rightarrow> nat multiset" where
  "one_reply r \<equiv> (case r of Some q \<Rightarrow> {#q#} | None \<Rightarrow> {#})"

lemma accounted_send:
  assumes "stk_send msg raw reply init now s d = (r, s', d')" and "\<forall>(k, p) \<in> set (pendings s). k \<le> tokens s"
  shows "accounted s' d' = accounted s d + one_reply reply"
proof -
  obtain failed d1 where w: "next_write d = (failed, d1)" by (cases "next_write d")
  have "AList.update (tokens s + 1) v (pendings s) = pendings s @ [(tokens s + 1, v)]" for v
    using assms(2) by (intro update_fresh) fastforce
  then show ?thesis
    using assms(1) w next_write_log [OF w]
    by (cases failed; cases reply) (auto simp: stk_send_def Let_def accounted_def replies_due_def)
qed

lemma replies_due_delete:
  assumes "distinct (map fst ps)" and "map_of ps k = Some p"
  shows "mset (replies_due ps) = mset (replies_due (AList.delete k ps)) + one_reply (p_reply p)"
  using assms
proof (induction ps)
  case (Cons a ps)
  obtain j q where a: "a = (j, q)" by (cases a)
  show ?case
  proof (cases "j = k")
    case True
    with Cons.prems a have "k \<notin> fst ` set ps" "q = p" by auto
    then have "AList.delete k ps = ps" by (simp add: AList.delete_eq filter_id_conv) force
    with True a \<open>q = p\<close> show ?thesis by (simp add: replies_due_def split: option.split)
  next
    case False
    with Cons a show ?thesis by (simp add: replies_due_def)
  qed
qed simp

lemma accounted_cong: "pendings s' = pendings s \<Longrightarrow> accounted s' d = accounted s d"
  by (simp add: accounted_def)

lemma accounted_response:
  assumes "session_ok t s" and "on_response frame now s d = (r, s', d')"
  shows "accounted s' d' = accounted s d"
proof (cases "map_of (pendings s) (be_value (take 8 (drop 4 frame)))")
  case None
  with assms(2) show ?thesis by (auto simp: on_response_def Let_def split: if_split_asm sum.split_asm)
next
  case (Some p)
  have kept: "pendings (acknowledged p now z) = pendings z" for z by (simp add: acknowledged_def)
  note gone = replies_due_delete [OF session_okD(1) [OF assms(1)] Some]
  from assms(2) consider "s' = s" "d' = d"
    | q where "pendings s' = AList.delete (be_value (take 8 (drop 4 frame))) (pendings s)"
        "d' = (case p_reply p of Some r \<Rightarrow> emit (Replied r (q s')) d | None \<Rightarrow> d)"
    using Some kept by (auto simp: on_response_def Let_def split: if_split_asm sum.split_asm)
  then show ?thesis
  proof cases
    case 2
    with gone show ?thesis by (simp add: accounted_def split: option.split)
  qed simp
qed

lemma accounted_proactive:
  assumes "session_ok t s" and "proactive cmd now s d = (r, s', d')"
  shows "accounted s' d' = accounted s d"
proof -
  from assms(2) consider s1 raw where "stk_send 70 raw None False now s1 d = (r, s', d')" "pendings s1 = pendings s" "tokens s1 = tokens s"
    | "pendings s' = pendings s" "d' = d"
    by (auto simp: proactive_def Let_def split: if_splits)
  then show ?thesis
  proof cases
    case 1
    with accounted_send [OF 1(1)] session_okD(2) [OF assms(1)] show ?thesis by (simp add: accounted_def)
  next
    case 2
    then show ?thesis by (simp add: accounted_def)
  qed
qed

lemma accounted_frame:
  assumes "session_ok t s" and "on_frame frame now s d = (r, s', d')"
  shows "accounted s' d' = accounted s d"
proof -
  consider "on_response frame now s d = (r, s', d')" | cmd where "proactive cmd now s d = (r, s', d')" | "pendings s' = pendings s" "d' = d"
    using assms(2) unfolding on_frame_def on_indication_def
    by (cases "number frame 0"; cases "number frame 4"; cases "proactive_of frame")
      (auto simp: session_ended_def split: if_split_asm)
  then show ?thesis
  proof cases
    case 3
    then show ?thesis by (simp add: accounted_def)
  qed (fact accounted_response [OF assms(1)] accounted_proactive [OF assms(1)])+
qed

lemma accounted_records:
  "session_ok now s \<Longrightarrow> read_records now s d = (r, s', d') \<Longrightarrow> accounted s' d' = accounted s d"
proof (induction now s d rule: read_records.induct)
  case (1 now s d)
  from "1.prems"(2) consider "s' = s" "d' = d" |
      frame rest v s1 d1 where "next_record (buffer s) = Inr (Some (frame, rest))" "on_frame frame now (s\<lparr>buffer := rest\<rparr>) d = (v, s1, d1)"
        "case v of Inl e \<Rightarrow> s' = s1 \<and> d' = d1 | Inr x \<Rightarrow> read_records now s1 d1 = (r, s', d')"
    by (subst (asm) read_records.simps) (auto split: sum.splits option.splits prod.splits)
  then show ?case
  proof cases
    case 1
    then show ?thesis by simp
  next
    case 2
    have ok: "session_ok now (s\<lparr>buffer := rest\<rparr>)" by (rule ok_cong [OF "1.prems"(1)]) simp_all
    have eq: "accounted s1 d1 = accounted s d"
      using accounted_frame [OF ok 2(2)] by (simp add: accounted_def)
    show ?thesis
    proof (cases v)
      case (Inl e)
      with 2(3) eq show ?thesis by simp
    next
      case (Inr x)
      have "session_ok now s1" by (rule ok_frame [OF ok 2(2) [unfolded Inr]])
      then have "accounted s' d' = accounted s1 d1"
        using "1.IH" [OF 2(1) refl refl 2(2) [symmetric] Inr refl] 2(3) Inr by simp
      with eq show ?thesis by simp
    qed
  qed
qed

lemma accounted_poll:
  assumes "session_ok now s" and "poll_outcome p now s d = (r, s', d')"
  shows "accounted s' d' = accounted s d"
proof (cases p)
  case (Readable got)
  obtain v s1 d1 where got: "read_socket got now s d = (v, s1, d1)" by (metis prod.exhaust)
  have "accounted s1 d1 = accounted s d"
  proof (cases got)
    case (Got bs)
    have ok: "session_ok now (s\<lparr>buffer := buffer s @ bs\<rparr>)" by (rule ok_cong [OF assms(1)]) simp_all
    show ?thesis
    proof (cases bs)
      case (Cons b bs')
      with got Got have "read_records now (s\<lparr>buffer := buffer s @ bs\<rparr>) d = (v, s1, d1)" by (simp add: read_socket_def)
      from accounted_records [OF ok this] show ?thesis by (simp add: accounted_def)
    qed (use got Got in \<open>simp add: read_socket_def\<close>)
  next
    case Nothing_yet
    with got accounted_records [OF assms(1)] show ?thesis by (simp add: read_socket_def)
  next
    case (Read_failed e)
    with got show ?thesis by (simp add: read_socket_def)
  qed
  with assms(2) Readable got show ?thesis by (auto simp: poll_outcome_def)
qed (use assms(2) in \<open>simp_all add: poll_outcome_def\<close>)

lemma accounted_request:
  assumes "session_ok now s" and "handle_request req now s d = (r, s', d')"
  shows "accounted s' d' = accounted s d + {#rq_reply req#}"
proof (cases "is_read req")
  case True
  show ?thesis
  proof (cases "rq_action req = ''menu'' \<and> phase s = ''menu_unavailable'' \<and> pendings s = []")
    case menu: True
    let ?s = "s\<lparr>phase := ''initializing'', reason := ''Requesting the SIM Toolkit menu''\<rparr>"
    obtain v s1 d1 where sent: "stk_send 103 [] None True now ?s d = (v, s1, d1)" by (metis prod.exhaust)
    have "accounted s1 d1 = accounted s d" using accounted_send [OF sent] menu by (simp add: accounted_def)
    with sent menu True assms(2) show ?thesis
      by (cases v) (auto simp: handle_request_def answer_read_def accounted_def)
  next
    case False
    then have "answer_read req now s d = (Ok (), s, emit (Replied (rq_reply req) (Stk_session (snapshot_of s))) d)"
      by (auto simp: answer_read_def)
    with True assms(2) show ?thesis by (auto simp: handle_request_def accounted_def)
  qed
next
  case False
  have refused: "accounted s' d' = accounted s d + {#rq_reply req#}" if "refuse req n m s d = (r, s', d')" for n m
    using that by (auto simp: refuse_def accounted_def)
  from False assms(2) consider n m where "refuse req n m s d = (r, s', d')"
    | msg raw where "stk_send msg raw (Some (rq_reply req)) False now s d = (r, s', d')"
    by (auto simp: handle_request_def split: if_splits option.splits sum.splits)
  then show ?thesis
  proof cases
    case (2 msg raw)
    from accounted_send [OF 2 session_okD(2) [OF assms(1)]] show ?thesis by simp
  qed (fact refused)
qed

section \<open>The thread\<close>

lemma answered_fail_pendings: "answered (fail_pendings e ps d) = answered d + mset (replies_due ps)"
proof (induction ps arbitrary: d)
  case (Cons tp ps)
  obtain t p where tp: "tp = (t, p)" by (cases tp)
  then have "fail_pendings e (tp # ps) d =
      fail_pendings e ps (case p_reply p of Some r \<Rightarrow> emit (Replied r (Stk_error 503 e)) d | None \<Rightarrow> d)"
    by (simp add: fail_pendings_def)
  then show ?case using Cons tp by (simp add: replies_due_def split: option.split)
qed (simp add: fail_pendings_def replies_due_def)

definition books :: "worker \<Rightarrow> nat multiset" where
  "books w = answered (dev w) + owed w"

lemma books_settle: "books (settle (r, s, d) w) = accounted s d"
  by (cases r) (simp_all add: books_def settle_def owed_def accounted_def answered_fail_pendings)

lemma books_publish [simp]: "books (publish w) = books w"
  by (simp add: publish_def books_def owed_def)

lemma books_poll:
  assumes "\<And>s. session w = Some s \<Longrightarrow> session_ok now s"
  shows "books (after_poll p now w) = books w"
proof (cases "session w")
  case (Some s)
  obtain r s' d' where o: "poll_outcome p now s (dev w) = (r, s', d')" by (metis prod.exhaust)
  with Some accounted_poll [OF assms [OF Some] o] show ?thesis
    by (simp add: after_poll_def books_settle) (simp add: accounted_def books_def owed_def)
qed (simp add: after_poll_def)

lemma books_connect: "books (connect_for req conn now w) = books w"
proof (cases "session w = None \<and> rq_action req = ''menu''")
  case True
  have "accounted s d' = answered (dev w)" if "session_connect ms now (dev w) = (r, s, d')" for ms r s d'
    using accounted_send [OF that [unfolded session_connect_def]] by (simp add: accounted_def session_new_def replies_due_def)
  moreover have "replies_due (pendings s) = []" if "session_connect ms now (dev w) = (r, s, d')" for ms r s d'
    using that by (auto simp: session_connect_def stk_send_def Let_def session_new_def replies_due_def split: prod.splits option.splits)
  ultimately show ?thesis
    using True by (auto simp: connect_for_def books_def owed_def accounted_def split: sum.split prod.split)
qed (auto simp: connect_for_def)

lemma books_dispatch:
  assumes "\<And>s. session w = Some s \<Longrightarrow> session_ok now s"
  shows "books (dispatch req conn now w) = books w + {#rq_reply req#}"
proof -
  define v where "v = connect_for req conn now w"
  have ok: "session_ok now s" if "session v = Some s" for s
  proof (cases "session w")
    case None
    with that obtain ms u d' where "session_connect ms now (dev w) = (Inr u, s, d')"
      unfolding v_def connect_for_def by (auto split: if_splits sum.splits prod.splits)
    then show ?thesis by (rule ok_connect)
  next
    case (Some s0)
    with that assms show ?thesis by (simp add: v_def connect_for_def)
  qed
  have "books (dispatch req conn now w) = books v + {#rq_reply req#}"
  proof (cases "session v")
    case None
    then show ?thesis by (simp add: dispatch_def books_def owed_def flip: v_def)
  next
    case (Some s)
    obtain r s' d' where "handle_request req now s (dev v) = (r, s', d')" by (metis prod.exhaust)
    with Some accounted_request [OF ok [OF Some] this] show ?thesis
      by (simp add: dispatch_def books_settle flip: v_def) (simp add: accounted_def books_def owed_def)
  qed
  then show ?thesis by (simp add: v_def books_connect)
qed

text \<open>A read is answered once at most in its own log, so holding its answer back loses nothing.\<close>

abbreviation replies_to :: "nat \<Rightarrow> io \<Rightarrow> stk_event list" where
  "replies_to r d \<equiv> filter (replied_to r) (stk_log d)"

lemma send_silent:
  "stk_send msg raw None init now s d = (r, s', d') \<Longrightarrow> replies_to q d' = replies_to q d"
  "stk_send msg raw None init now s d = (Inl e, s', d') \<Longrightarrow> pendings s' = pendings s"
  by (auto simp: stk_send_def Let_def emit_def next_write_def split: prod.splits option.splits list.splits)

lemma read_replies_once:
  assumes "is_read req" and "stk_log (dev w) = []"
  shows "length (replies_to (rq_reply req) (dev (dispatch req conn now w))) \<le> 1"
proof -
  define v where "v = connect_for req conn now w"
  have none: "replies_to (rq_reply req) (dev v) = []"
    using assms(2) send_silent(1) [of 103 "[]" True now _ "dev w"]
    by (auto simp: v_def connect_for_def session_connect_def split: sum.split prod.split)
  show ?thesis
  proof (cases "session v")
    case None
    then show ?thesis using none by (simp add: dispatch_def emit_def flip: v_def)
  next
    case (Some s)
    have "length (replies_to (rq_reply req) (dev (settle (answer_read req now s (dev v)) v))) \<le> 1"
    proof (cases "rq_action req = ''menu'' \<and> phase s = ''menu_unavailable'' \<and> pendings s = []")
      case True
      let ?s = "s\<lparr>phase := ''initializing'', reason := ''Requesting the SIM Toolkit menu''\<rparr>"
      obtain r s1 d1 where sent: "stk_send 103 [] None True now ?s (dev v) = (r, s1, d1)" by (metis prod.exhaust)
      from send_silent(1) [OF sent] none have quiet: "replies_to (rq_reply req) d1 = []" by simp
      show ?thesis
      proof (cases r)
        case (Inl e)
        then have "pendings s1 = []" using send_silent(2) [OF sent [unfolded Inl]] True by simp
        with Inl sent True quiet show ?thesis by (simp add: answer_read_def settle_def fail_pendings_def emit_def)
      next
        case (Inr u)
        with sent True quiet show ?thesis by (simp add: answer_read_def settle_def emit_def)
      qed
    next
      case False
      then have "answer_read req now s (dev v) = (Ok (), s, emit (Replied (rq_reply req) (Stk_session (snapshot_of s))) (dev v))"
        by (auto simp: answer_read_def)
      with none show ?thesis by (simp add: settle_def emit_def)
    qed
    with Some assms(1) show ?thesis by (simp add: dispatch_def handle_request_def flip: v_def)
  qed
qed

lemma mset_settles_split:
  assumes "length (filter P es) \<le> 1"
  shows "mset (concat (map settles (filter (Not \<circ> P) es))) + mset (concat (map settles (take 1 (filter P es)))) =
    mset (concat (map settles es))"
proof -
  have "take 1 (filter P es) = filter P es" using assms by simp
  moreover have "mset (concat (map settles es)) =
      mset (concat (map settles (filter P es))) + mset (concat (map settles (filter (Not \<circ> P) es)))"
    by (induction es) simp_all
  ultimately show ?thesis by (simp add: add.commute)
qed

lemma books_serve:
  assumes "\<And>s. session w = Some s \<Longrightarrow> session_ok now s"
  shows "books (serve req conn now w) = books w + {#rq_reply req#}"
proof -
  define v where "v = dispatch req conn now (w\<lparr>dev := (dev w)\<lparr>stk_log := []\<rparr>\<rparr>)"
  have v: "books v = owed w + {#rq_reply req#}"
    unfolding v_def using books_dispatch [of "w\<lparr>dev := (dev w)\<lparr>stk_log := []\<rparr>\<rparr>" now req conn] assms
    by (simp add: books_def owed_def answered_def)
  have log: "stk_log (dev (publish z)) = stk_log (dev z) \<or> stk_log (dev (publish z)) = stk_log (dev z) @ [Told]" for z
    by (simp add: publish_def emit_def)
  have "answered (dev (serve req conn now w)) = answered (dev w) + answered (dev v)"
  proof (cases "is_read req")
    case True
    have "length (replies_to (rq_reply req) (dev v)) \<le> 1" unfolding v_def by (rule read_replies_once [OF True]) simp
    from mset_settles_split [OF this]
    have split: "answered (dev v) = mset (concat (map settles (filter (Not \<circ> replied_to (rq_reply req)) (stk_log (dev v)))))
        + mset (concat (map settles (take 1 (replies_to (rq_reply req) (dev v)))))"
      by (simp add: answered_def)
    show ?thesis
      using True log [of "v\<lparr>dev := (dev v)\<lparr>stk_log := stk_log (dev w) @ filter (Not \<circ> replied_to (rq_reply req)) (stk_log (dev v))\<rparr>\<rparr>"] split
      by (auto simp: serve_def Let_def answered_def simp flip: v_def)
  next
    case False
    then show ?thesis
      using log [of "v\<lparr>dev := (dev v)\<lparr>stk_log := stk_log (dev w) @ stk_log (dev v)\<rparr>\<rparr>"]
      by (auto simp: serve_def Let_def answered_def simp flip: v_def)
  qed
  moreover have "owed (serve req conn now w) = owed v" by (simp add: serve_def Let_def owed_def flip: v_def)
  ultimately show ?thesis using v by (simp add: books_def)
qed

fun requested :: "stk_input \<Rightarrow> nat list" where
  "requested (Serve req conn now) = [rq_reply req]"
| "requested (Polled p now) = []"

text \<open>C40: no request is lost and none is answered twice: at every moment of every run the requests that were answered, with those
  whose channel was let go without an answer, and those the session still owes an answer are the requests that came, each as
  often as it came.\<close>

theorem requests_accounted:
  assumes "stk_reach past t w"
  shows "answered (dev w) + owed w = mset (concat (map requested past))"
  using assms
proof (induction rule: stk_reach.induct)
  case (started results)
  then show ?case by (simp add: worker_new_def answered_def owed_def)
next
  case (stepped past t w i)
  have ok: "session w = Some s \<Longrightarrow> session_ok (input_time i) s" for s
    using reach_ok [OF stepped.hyps(1)] ok_later stepped.hyps(2) by blast
  show ?case
  proof (cases i)
    case (Serve req conn now)
    with books_serve [of w now req conn] ok stepped.IH show ?thesis by (simp add: books_def)
  next
    case (Polled p now)
    with books_poll [of w now p] ok stepped.IH show ?thesis by (simp add: books_def)
  qed
qed

definition ask :: "nat \<Rightarrow> string \<Rightarrow> stk_request" where
  "ask r action = \<lparr>rq_reply = r, rq_action = action, rq_command_id = None, rq_item = None, rq_answer = \<lparr>ans_yes = None, ans_text = None\<rparr>\<rparr>"

theorem requests_accounted_witness:
  "\<exists>w. stk_reach [Serve (ask 6 ''menu'') (Inr 900) 40, Serve (ask 5 ''menu'') (Inl ''gone'') 30] 40 w \<and>
    answered (dev w) + owed w = {#6, 5#}"
proof -
  have "stk_reach [Serve (ask 6 ''menu'') (Inr 900) 40, Serve (ask 5 ''menu'') (Inl ''gone'') 30] 40
    (stk_step (Serve (ask 6 ''menu'') (Inr 900) 40) (stk_step (Serve (ask 5 ''menu'') (Inl ''gone'') 30) (worker_new [])))"
    using stk_reach.stepped [OF stk_reach.stepped [OF stk_reach.started, of "Serve (ask 5 ''menu'') (Inl ''gone'') 30"],
        of "Serve (ask 6 ''menu'') (Inr 900) 40"] by simp
  with requests_accounted [OF this] show ?thesis by (auto simp: ask_def add.commute)
qed

text \<open>An answer is withheld only when the menu was to be asked for again and the write failed.\<close>

lemma dropped_only_by_failed_menu:
  "(case handle_request req now s d of (r, s', d') \<Rightarrow>
     filter (\<lambda>e. e = Dropped (rq_reply req)) (stk_log d') = filter (\<lambda>e. e = Dropped (rq_reply req)) (stk_log d) \<or>
     rq_action req = ''menu'' \<and> phase s = ''menu_unavailable'' \<and> isl r)"
  by (auto simp: handle_request_def answer_read_def refuse_def stk_send_def next_write_def Let_def emit_def is_read_def
      split: option.split sum.split prod.split list.split)

end
