(* ===== verification/Stk_Stream.thy ===== *)
theory Stk_Stream
  imports Stk_Safety "HOL-Library.Code_Target_Nat"
begin

text \<open>
  The stream of the RIL socket and what the thread says to the SIM on its own: records do not depend on how the stream is cut
  into reads, and no frame makes the thread choose anything. The runs that apply the theorems on the session are here too.
\<close>

section \<open>Records\<close>

lemma number_be4: "n < 2 ^ 32 \<Longrightarrow> number (be4 n @ rest) 0 = Ok n"
proof -
  assume n: "n < 2 ^ 32"
  define a where "a = n div 256"
  define b where "b = a div 256"
  have "n div 256 ^ 2 = b" "n div 256 ^ 3 = b div 256"
    unfolding b_def a_def by (simp_all add: div_mult2_eq [symmetric] power2_eq_square power3_eq_cube)
  moreover have "b div 256 < 256" using n unfolding b_def a_def by (simp add: div_mult2_eq [symmetric] div_less_iff_less_mult)
  ultimately have "be_value (be4 n) = ((b div 256 * 256 + b mod 256) * 256 + a mod 256) * 256 + n mod 256"
    by (simp add: be4_def be_value_def unat_of_nat a_def)
  also have "\<dots> = n" unfolding div_mult_mod_eq b_def unfolding div_mult_mod_eq a_def unfolding div_mult_mod_eq ..
  finally show ?thesis by (simp add: number_def be4_def)
qed

text \<open>What the thread writes is one record of its own stream's form: its length, and after it nothing.\<close>

theorem written_is_one_record:
  assumes "12 + length payload \<le> 65536"
  shows "next_record (stk_record msg tok payload) = Ok (Some (le_bytes 4 msg @ le_bytes 8 tok @ payload, []))"
proof -
  have "number (be4 (12 + length payload) @ rest) 0 = Ok (12 + length payload)" for rest
    using assms by (intro number_be4) simp
  then have n: "be_value (be4 (12 + length payload)) = 12 + length payload" by (simp add: number_def be4_def)
  have "length (be4 k) = 4" for k by (simp add: be4_def)
  with n assms show ?thesis by (simp add: next_record_def stk_record_def Let_def le_bytes_def)
qed

theorem written_is_one_record_witness:
  "next_record (stk_record 103 1 []) = Ok (Some (le_bytes 4 103 @ le_bytes 8 1 @ [], []))"
  by (rule written_is_one_record) simp

lemma next_record_more: "next_record buf = Ok (Some (frame, rest)) \<Longrightarrow> next_record (buf @ extra) = Ok (Some (frame, rest @ extra))"
  by (auto simp: next_record_def Let_def split: if_split_asm)

text \<open>A frame is handled without a look at the buffer.\<close>

lemma send_any_buffer:
  assumes "stk_send msg raw reply init now s d = (r, s', d')"
  shows "stk_send msg raw reply init now (s\<lparr>buffer := b\<rparr>) d = (r, s'\<lparr>buffer := b\<rparr>, d')"
proof -
  obtain failed d1 where "next_write d = (failed, d1)" by (cases "next_write d")
  with assms show ?thesis by (cases failed) (auto simp: stk_send_def Let_def)
qed

lemma snapshot_any_buffer [simp]: "snapshot_of (s\<lparr>buffer := b\<rparr>) = snapshot_of s"
  by (simp add: snapshot_of_def)

lemma acknowledged_any_buffer: "acknowledged p now (s\<lparr>buffer := b\<rparr>) = (acknowledged p now s)\<lparr>buffer := b\<rparr>"
  by (simp add: acknowledged_def)

lemma response_any_buffer:
  assumes "on_response frame now s d = (r, s', d')"
  shows "on_response frame now (s\<lparr>buffer := b\<rparr>) d = (r, s'\<lparr>buffer := b\<rparr>, d')"
proof -
  have upd: "s\<lparr>buffer := b, pendings := ps\<rparr> = (s\<lparr>pendings := ps\<rparr>)\<lparr>buffer := b\<rparr>" for ps by simp
  show ?thesis
    using assms
    by (cases "length frame < 12"; cases "number frame 12"; cases "map_of (pendings s) (be_value (take 8 (drop 4 frame)))")
      (auto simp: on_response_def Let_def upd acknowledged_any_buffer split: if_splits option.splits)
qed

lemma proactive_any_buffer:
  assumes "proactive cmd now s d = (r, s', d')"
  shows "proactive cmd now (s\<lparr>buffer := b\<rparr>) d = (r, s'\<lparr>buffer := b\<rparr>, d')"
proof (cases "details cmd ! 1 = 0x25")
  case True
  define s1 where "s1 = s\<lparr>generation := generation s + 1, waiting_since := None, root := (if items cmd = [] then None else Some cmd),
    current := (if items cmd = [] then None else Some cmd), phase := (if items cmd = [] then ''menu_unavailable'' else ''ready''),
    reason := (if items cmd = [] then ''SIM removed its toolkit menu'' else [])\<rparr>"
  have "stk_send 70 (response cmd 0 []) None False now s1 d = (r, s', d')"
    using assms True by (cases "items cmd = []") (simp_all add: proactive_def Let_def s1_def)
  from send_any_buffer [OF this, of b] True show ?thesis
    by (cases "items cmd = []"; cases s) (simp_all add: proactive_def Let_def s1_def)
next
  case menu: False
  show ?thesis
  proof (cases "0x21 \<le> details cmd ! 1 \<and> details cmd ! 1 \<le> 0x24")
    case True
    with menu assms show ?thesis by (auto simp: proactive_def Let_def)
  next
    case False
    define s1 where "s1 = s\<lparr>generation := generation s + 1, waiting_since := None, phase := ''unsupported_command'',
      reason := ''SIM command '' @ hex_byte (details cmd ! 1) @ '' is not implemented'', current := None\<rparr>"
    have c: "proactive cmd now z d = stk_send 70 (response cmd 0x30 []) None False now
        (z\<lparr>generation := generation z + 1, waiting_since := None, phase := ''unsupported_command'',
          reason := ''SIM command '' @ hex_byte (details cmd ! 1) @ '' is not implemented'', current := None\<rparr>) d" for z
      using menu False by (simp only: proactive_def Let_def if_False)
    have "stk_send 70 (response cmd 0x30 []) None False now s1 d = (r, s', d')" using assms unfolding c s1_def .
    from send_any_buffer [OF this, of b] show ?thesis unfolding c s1_def by (cases s) simp
  qed
qed

lemma indication_any_buffer:
  assumes "on_indication frame now s d = (r, s', d')"
  shows "on_indication frame now (s\<lparr>buffer := b\<rparr>) d = (r, s'\<lparr>buffer := b\<rparr>, d')"
proof (cases "number frame 4")
  case (Inl e)
  with assms show ?thesis by (auto simp: on_indication_def)
next
  case (Inr kind)
  show ?thesis
  proof (cases "kind = 1013")
    case True
    show ?thesis
    proof (cases "proactive_of frame")
      case (Inl e)
      with assms Inr True show ?thesis by (auto simp: on_indication_def)
    next
      case cmd: (Inr cmd)
      with assms Inr True have "proactive cmd now s d = (r, s', d')" by (simp add: on_indication_def)
      from proactive_any_buffer [OF this, of b] cmd Inr True show ?thesis by (simp add: on_indication_def)
    qed
  next
    case False
    have ended: "session_ended (s\<lparr>buffer := b\<rparr>) = (session_ended s)\<lparr>buffer := b\<rparr>" by (cases s) (simp add: session_ended_def)
    have noted: "(s\<lparr>buffer := b\<rparr>)\<lparr>reason := x\<rparr> = (s\<lparr>reason := x\<rparr>)\<lparr>buffer := b\<rparr>" for x by (cases s) simp
    consider "kind = 1012" | "kind = 1017" | "kind = 1014 \<or> kind = 1015" | "kind \<notin> {1012, 1013, 1014, 1015, 1017}" using False by blast
    then show ?thesis
    proof cases
      case 1
      with assms Inr ended show ?thesis by (simp add: on_indication_def)
    next
      case 2
      with assms Inr show ?thesis by (auto simp: on_indication_def)
    next
      case 3
      then have "kind \<noteq> 1012" "kind \<noteq> 1017" by auto
      with 3 assms Inr False noted show ?thesis by (auto simp: on_indication_def)
    next
      case 4
      with assms Inr show ?thesis by (auto simp: on_indication_def)
    qed
  qed
qed

lemma frame_any_buffer:
  assumes "on_frame frame now s d = (r, s', d')"
  shows "on_frame frame now (s\<lparr>buffer := b\<rparr>) d = (r, s'\<lparr>buffer := b\<rparr>, d')"
proof (cases "number frame 0")
  case (Inl e)
  with assms show ?thesis by (auto simp: on_frame_def)
next
  case (Inr kind)
  consider "kind = 0" | "kind = 1" | "kind \<noteq> 0" "kind \<noteq> 1" by blast
  then show ?thesis
  proof cases
    case 1
    with assms Inr response_any_buffer [of frame now s d r s' d' b] show ?thesis by (simp add: on_frame_def)
  next
    case 2
    with assms Inr indication_any_buffer [of frame now s d r s' d' b] show ?thesis by (simp add: on_frame_def)
  next
    case 3
    with assms Inr show ?thesis by (auto simp: on_frame_def)
  qed
qed

lemma read_records_more:
  "read_records now s d = (Inr u, s', d') \<Longrightarrow>
    read_records now (s\<lparr>buffer := buffer s @ extra\<rparr>) d = read_records now (s'\<lparr>buffer := buffer s' @ extra\<rparr>) d'"
proof (induction now s d rule: read_records.induct)
  case (1 now s d)
  from "1.prems" consider "s' = s" "d' = d" |
      frame rest v s1 d1 where "next_record (buffer s) = Inr (Some (frame, rest))" "on_frame frame now (s\<lparr>buffer := rest\<rparr>) d = (Inr v, s1, d1)"
        "read_records now s1 d1 = (Inr u, s', d')"
    by (subst (asm) read_records.simps) (auto split: sum.splits option.splits prod.splits)
  then show ?case
  proof cases
    case 1
    then show ?thesis by simp
  next
    case 2
    have b: "buffer s1 = rest" using frame_keeps_buffer [OF 2(2)] by simp
    have "on_frame frame now (s\<lparr>buffer := rest @ extra\<rparr>) d = (Inr v, s1\<lparr>buffer := rest @ extra\<rparr>, d1)"
      using frame_any_buffer [OF 2(2), of "rest @ extra"] by simp
    then have "read_records now (s\<lparr>buffer := buffer s @ extra\<rparr>) d = read_records now (s1\<lparr>buffer := buffer s1 @ extra\<rparr>) d1"
      using next_record_more [OF 2(1), of extra] b by (subst read_records.simps) simp
    also have "\<dots> = read_records now (s'\<lparr>buffer := buffer s' @ extra\<rparr>) d'"
      using "1.IH" [OF 2(1) refl refl 2(2) [symmetric] refl refl] 2(3) by blast
    finally show ?thesis .
  qed
qed

text \<open>The socket may hand over the stream in any pieces: when a piece has kept the session, the next one leads where both
  together would have led.\<close>

theorem pieces_do_not_matter:
  assumes "read_socket (Got a) now s d = (Inr u, s', d')" and "b \<noteq> []"
  shows "read_socket (Got b) now s' d' = read_socket (Got (a @ b)) now s d"
proof -
  from assms(1) obtain x xs where a: "a = x # xs" by (cases a) (auto simp: read_socket_def)
  obtain y ys where b: "b = y # ys" using assms(2) by (cases b) auto
  have "read_records now (s\<lparr>buffer := buffer s @ a\<rparr>) d = (Inr u, s', d')" using assms(1) a by (simp add: read_socket_def)
  from read_records_more [OF this, of b] a b show ?thesis by (simp add: read_socket_def)
qed

definition quiet :: io where
  "quiet = \<lparr>writes = [], stk_log = []\<rparr>"

theorem pieces_do_not_matter_witness:
  "read_socket (Got [8, 0, 0, 0, 1, 0, 0, 3, 0xF4]) 9 ((session_new 900)\<lparr>buffer := [0, 0, 0]\<rparr>) quiet =
    read_socket (Got ([0, 0, 0] @ [8, 0, 0, 0, 1, 0, 0, 3, 0xF4])) 9 (session_new 900) quiet"
  by (rule pieces_do_not_matter) (simp_all add: read_socket_def read_records.simps next_record_def session_new_def)

section \<open>What the thread says on its own\<close>

definition frame_reply :: "bytes \<Rightarrow> bytes \<Rightarrow> bool" where
  "frame_reply frame b \<longleftrightarrow>
     (\<exists>cmd t. proactive_of frame = Ok cmd \<and>
        (details cmd ! 1 = 0x25 \<and> b = stk_record 70 t (marshal_hex (response cmd 0 [])) \<or>
         \<not> (0x21 \<le> details cmd ! 1 \<and> details cmd ! 1 \<le> 0x25) \<and> b = stk_record 70 t (marshal_hex (response cmd 0x30 []))))"

lemma frame_replyI:
  assumes "proactive_of frame = Ok cmd"
  shows "details cmd ! 1 = 0x25 \<Longrightarrow> frame_reply frame (stk_record 70 t (marshal_hex (response cmd 0 [])))"
    and "\<not> (0x21 \<le> details cmd ! 1 \<and> details cmd ! 1 \<le> 0x25) \<Longrightarrow> frame_reply frame (stk_record 70 t (marshal_hex (response cmd 0x30 [])))"
  unfolding frame_reply_def using assms by (intro exI [of _ cmd] exI [of _ t] conjI disjI1 disjI2; simp)+

abbreviation writes_of :: "io \<Rightarrow> stk_event list" where
  "writes_of d \<equiv> filter is_written (stk_log d)"

lemma send_written:
  assumes "stk_send msg raw None init now s d = (r, s', d')" and "msg \<noteq> 103"
  shows "writes_of d' = writes_of d \<or> (\<exists>t. writes_of d' = writes_of d @ [Wrote (stk_record msg t (marshal_hex raw))])"
  using assms by (auto simp: stk_send_def Let_def emit_def next_write_def split: prod.splits option.splits list.splits)

lemma response_written: "on_response frame now s d = (r, s', d') \<Longrightarrow> writes_of d' = writes_of d"
  by (cases "length frame < 12"; cases "number frame 12"; cases "map_of (pendings s) (be_value (take 8 (drop 4 frame)))")
    (auto simp: on_response_def Let_def emit_def split: if_splits option.splits)

lemma proactive_written:
  assumes "proactive cmd now s d = (r, s', d')" and "proactive_of frame = Ok cmd"
  shows "writes_of d' = writes_of d \<or> (\<exists>b. writes_of d' = writes_of d @ [Wrote b] \<and> frame_reply frame b)"
proof -
  have upto: "0x21 \<le> k \<and> k \<le> 0x25 \<longleftrightarrow> 0x21 \<le> k \<and> k \<le> 0x24 \<or> k = 0x25" for k :: u8
    unfolding word_le_nat_alt word_unat_eq_iff by simp linarith
  from assms(1) consider s1 where "details cmd ! 1 = 0x25" "stk_send 70 (response cmd 0 []) None False now s1 d = (r, s', d')"
    | s1 where "\<not> (0x21 \<le> details cmd ! 1 \<and> details cmd ! 1 \<le> 0x25)" "stk_send 70 (response cmd 0x30 []) None False now s1 d = (r, s', d')"
    | "d' = d"
    unfolding upto by (simp add: proactive_def Let_def split: if_split_asm)
  then show ?thesis
  proof cases
    case 1
    with send_written [OF 1(2)] frame_replyI(1) [OF assms(2) 1(1)] show ?thesis by auto
  next
    case 2
    with send_written [OF 2(2)] frame_replyI(2) [OF assms(2) 2(1)] show ?thesis by auto
  qed simp
qed

text \<open>No frame of the modem makes the thread choose, confirm or start anything: all it ever writes for a frame is that it took
  over a root menu, or that it does not know the SIM's command.\<close>

theorem frames_never_choose:
  "(case on_frame frame now s d of (r, s', d') \<Rightarrow>
     writes_of d' = writes_of d \<or> (\<exists>b. writes_of d' = writes_of d @ [Wrote b] \<and> frame_reply frame b))"
proof -
  obtain r s' d' where f: "on_frame frame now s d = (r, s', d')" by (metis prod.exhaust)
  consider "on_response frame now s d = (r, s', d')" | cmd where "proactive cmd now s d = (r, s', d')" "proactive_of frame = Ok cmd" | "d' = d"
    using f unfolding on_frame_def on_indication_def
    by (cases "number frame 0"; cases "number frame 4"; cases "proactive_of frame") (auto split: if_split_asm)
  then have "writes_of d' = writes_of d \<or> (\<exists>b. writes_of d' = writes_of d @ [Wrote b] \<and> frame_reply frame b)"
    by cases (use response_written proactive_written in blast)+
  with f show ?thesis by simp
qed

section \<open>A run\<close>

text \<open>The user opens the menu, the modem accepts it and shows a text of the SIM, the user confirms it, the SIM takes that and shows
  another.\<close>

definition display_text :: bytes where
  "display_text = [0xD0, 9, 0x81, 3, 1, 0x21, 0, 0x82, 2, 0x81, 0x82]"

definition framed :: "bytes \<Rightarrow> bytes" where
  "framed f = be4 (length f) @ f"

definition shows_text :: bytes where
  "shows_text = framed (be4 1 @ be4 1013 @ marshal_hex display_text)"

definition accepted :: "nat \<Rightarrow> bytes" where
  "accepted tok = framed (be4 0 @ be4 0 @ be4 tok @ be4 0)"

definition asking :: "nat \<Rightarrow> string \<Rightarrow> string option \<Rightarrow> stk_request" where
  "asking r action named =
     \<lparr>rq_reply = r, rq_action = action, rq_command_id = named, rq_item = None, rq_answer = \<lparr>ans_yes = None, ans_text = None\<rparr>\<rparr>"

definition choosing :: "nat \<Rightarrow> nat \<Rightarrow> stk_request" where
  "choosing r g = asking r ''respond'' (Some (show_nat g))"

definition opened :: worker where
  "opened = stk_step (Polled (Readable (Got (accepted 1 @ shows_text))) 30)
     (stk_step (Serve (asking 5 ''menu'' None) (Inr 900) 10) (worker_new []))"

definition after_choice :: worker where
  "after_choice = serve (choosing 6 901) (Inl []) 40 opened"

definition asked_again :: worker where
  "asked_again = stk_step (Polled (Readable (Got (accepted 2 @ shows_text))) 60) after_choice"

definition text_shown :: "nat \<Rightarrow> nat \<Rightarrow> session" where
  "text_shown g tok =
     (session_new g)\<lparr>tokens := tok, current := Some (blank_command\<lparr>details := [1, 0x21, 0]\<rparr>), phase := ''ready'', reason := []\<rparr>"

lemma opened_session: "session opened = Some (text_shown 901 1) \<and> writes (dev opened) = []"
  by code_simp

definition text_confirmed :: session where
  "text_confirmed = (text_shown 901 1)\<lparr>tokens := 2,
     pendings := [(2, \<lparr>p_deadline = 40 + STK_TIMEOUT, p_reply = Some 6, p_generation = 901, p_init = False\<rparr>)]\<rparr>"

lemma after_choice_session: "session after_choice = Some text_confirmed \<and> writes (dev after_choice) = []"
proof -
  let ?cmd = "blank_command\<lparr>details := [1, 0x21, 0]\<rparr>" and ?w = "opened\<lparr>dev := (dev opened)\<lparr>stk_log := []\<rparr>\<rparr>"
  have "details ?cmd ! 1 = 0x21" by simp
  then have "user_message (choosing 6 901) ?cmd = Ok (70, response ?cmd 0 [])"
    by (simp add: user_message_def choosing_def asking_def input_response_def)
  then have "handle_request (choosing 6 901) 40 (text_shown 901 1) (dev ?w) = stk_send 70 (response ?cmd 0 []) (Some 6) False 40 (text_shown 901 1) (dev ?w)"
    by (simp add: handle_request_def choosing_def asking_def is_read_def text_shown_def session_new_def)
  also obtain b where "\<dots> = (Ok (), text_confirmed, emit (Wrote b) (dev ?w))"
    using opened_session by (simp add: stk_send_def Let_def next_write_def text_confirmed_def text_shown_def session_new_def)
  finally show ?thesis
    using opened_session
    by (simp add: after_choice_def serve_def dispatch_def connect_for_def settle_def Let_def choosing_def asking_def is_read_def
        publish_def emit_def)
qed

lemma second_text:
  "(case poll_outcome (Readable (Got (accepted 2 @ shows_text))) 60 text_confirmed \<lparr>writes = [], stk_log = es\<rparr> of
     (r, s, d) \<Rightarrow> r = Ok () \<and> s = text_shown 903 2 \<and> writes d = [])"
  by code_simp

lemma asked_again_session: "session asked_again = Some (text_shown 903 2) \<and> writes (dev asked_again) = []"
proof -
  have d: "dev after_choice = \<lparr>writes = [], stk_log = stk_log (dev after_choice)\<rparr>" using after_choice_session by simp
  obtain d' where "poll_outcome (Readable (Got (accepted 2 @ shows_text))) 60 text_confirmed (dev after_choice) = (Ok (), text_shown 903 2, d')"
    and "writes d' = []"
    using second_text [of "stk_log (dev after_choice)"] unfolding d [symmetric] by (auto split: prod.splits)
  then show ?thesis
    using after_choice_session by (simp add: asked_again_def after_poll_def settle_def publish_def emit_def)
qed

lemma written_when_chosen:
  assumes "session w = Some s" and "\<not> is_read req" and "pendings s = []" and "phase s \<noteq> ''waiting''"
    and "rq_command_id req = Some (show_nat (generation s))" and "current s = Some cmd" and "user_message req cmd = Ok m"
    and "writes (dev w) = []"
  shows "written (serve req conn now w) \<noteq> written w"
proof -
  let ?w = "w\<lparr>dev := (dev w)\<lparr>stk_log := []\<rparr>\<rparr>"
  obtain msg raw where m: "m = (msg, raw)" by (cases m)
  have h: "handle_request req now s (dev ?w) = stk_send msg raw (Some (rq_reply req)) False now s (dev ?w)"
    using assms(2-7) m by (simp add: handle_request_def)
  obtain u s' b where sent: "stk_send msg raw (Some (rq_reply req)) False now s (dev ?w) = (Ok u, s', emit (Wrote b) (dev ?w))"
    using assms(8) by (simp add: stk_send_def Let_def next_write_def)
  have "written (serve req conn now w) = written w @ filter is_written (stk_log (dev (settle (handle_request req now s (dev ?w)) ?w)))"
    using assms(1,2) by (simp add: written_def serve_def dispatch_def connect_for_def Let_def)
  also have "\<dots> = written w @ [Wrote b]" unfolding h sent by (simp add: settle_def emit_def)
  finally show ?thesis by simp
qed

lemma choosing_written:
  assumes "session w = Some (text_shown g tok)" and "writes (dev w) = []"
  shows "written (serve (choosing r g) conn now w) \<noteq> written w"
proof (rule written_when_chosen [OF assms(1) _ _ _ _ _ _ assms(2)])
  let ?cmd = "blank_command\<lparr>details := [1, 0x21, 0]\<rparr>"
  have "details ?cmd ! 1 = 0x21" by simp
  then show "user_message (choosing r g) ?cmd = Ok (70, response ?cmd 0 [])"
    by (simp add: user_message_def choosing_def asking_def input_response_def)
qed (simp_all add: choosing_def asking_def is_read_def text_shown_def session_new_def)

lemma opened_reached: "\<exists>past. stk_reach past 30 opened"
  unfolding opened_def
  using stk_reach.stepped [OF stk_reach.stepped [OF stk_reach.started, of "Serve (asking 5 ''menu'' None) (Inr 900) 10" "[]"],
      of "Polled (Readable (Got (accepted 1 @ shows_text))) 30"]
  by (auto simp del: stk_step.simps)

theorem choice_never_repeated_witness:
  "rq_command_id (choosing 7 903) \<noteq> rq_command_id (choosing 6 901) \<and>
   written (serve (choosing 7 903) (Inl []) 70 asked_again) \<noteq> written asked_again"
proof -
  obtain past where r: "stk_reach past 30 opened" using opened_reached by blast
  let ?i = "Polled (Readable (Got (accepted 2 @ shows_text))) 60"
  have alive: "session after_choice \<noteq> None" using after_choice_session by simp
  have "session (stk_step ?i after_choice) \<noteq> None"
    unfolding asked_again_def [symmetric] using asked_again_session by (simp del: stk_step.simps)
  from lasts.further [OF lasts.here [OF alive, of 40] _ this] have l: "lasts 40 after_choice 60 asked_again"
    unfolding asked_again_def by simp
  have w: "written (serve (choosing 6 901) (Inl []) 40 opened) \<noteq> written opened"
    using opened_session by (intro choosing_written) blast+
  have w': "written (serve (choosing 7 903) (Inl []) 70 asked_again) \<noteq> written asked_again"
    using asked_again_session by (intro choosing_written) blast+
  have "\<not> is_read (choosing x g)" for x g by (simp add: choosing_def asking_def is_read_def)
  from choice_never_repeated [OF r _ _ this w l [unfolded after_choice_def] _ this w'] opened_session w'
  show ?thesis by simp
qed

theorem busy_session_ends_witness:
  "\<exists>s u. session after_choice = Some s \<and> stk_next_wake s = Some u \<and>
    session (after_poll Not_readable (40 + WAITING_LIMIT) after_choice) = None"
proof -
  obtain past where "stk_reach past 30 opened" using opened_reached by blast
  from stk_reach.stepped [OF this, of "Serve (choosing 6 901) (Inl []) 40"] have r: "stk_reach (Serve (choosing 6 901) (Inl []) 40 # past) 40 after_choice"
    by (simp add: after_choice_def)
  have s: "session after_choice = Some text_confirmed" "busy (snapshot_of text_confirmed)"
    using after_choice_session by (simp_all add: snapshot_of_def text_confirmed_def)
  from busy_session_ends [OF r s order.refl] s(1) show ?thesis by blast
qed

end
