(* ===== verification/Stk_Text.thy ===== *)
theory Stk_Text
  imports Stk_Codec "HOL-Library.Code_Target_Nat"
begin

text \<open>
  What the codec of the SIM toolkit writes, it reads back: septets packed and unpacked, texts in the two alphabets, hex, and
  the answer to a SIM's request for input. Packed text whose length is one below a multiple of eight is read with one more
  character, an \<open>@\<close>, in the seven bits that are left.
\<close>

section \<open>Septets\<close>

lemma nth_put_septet:
  assumes "\<forall>k \<ge> 7. \<not> bit b k" and "j < length packed" and "m < 8"
  shows "bit (put_septet packed (i, b) ! j) m \<longleftrightarrow>
    bit (packed ! j) m \<or> i * 7 \<le> 8 * j + m \<and> 8 * j + m < i * 7 + 7 \<and> bit b (8 * j + m - i * 7)"
proof -
  define q r where "q = i * 7 div 8" and "r = i * 7 mod 8"
  then have pos: "i * 7 = 8 * q + r" and r: "r < 8" by simp_all
  have short: "bit b k \<Longrightarrow> k < 7" for k using assms(1) by (meson not_less)
  consider "j = q" | "j = q + 1" | "j \<noteq> q" "j \<noteq> q + 1" by blast
  then show ?thesis
  proof cases
    case 1
    then have "bit (put_septet packed (i, b) ! j) m \<longleftrightarrow> bit (packed ! j) m \<or> bit (push_bit r b) m"
      using assms(2,3) by (simp add: put_septet_def Let_def bit_or_iff flip: q_def r_def)
    with 1 assms(3) pos short [of "m - r"] show ?thesis by (auto simp: bit_push_bit_iff)
  next
    case 2
    then have "bit (put_septet packed (i, b) ! j) m \<longleftrightarrow> bit (packed ! j) m \<or> r > 1 \<and> bit (drop_bit (8 - r) b) m"
      using assms(2,3) by (simp add: put_septet_def Let_def bit_or_iff flip: q_def r_def)
    moreover have "\<not> (8 * j + m < i * 7 + 7)" if "\<not> r > 1" using 2 pos that by simp
    moreover have at: "8 * j + m - i * 7 = 8 - r + m" "i * 7 \<le> 8 * j + m" using 2 pos r by simp_all
    moreover have "8 * j + m < i * 7 + 7" if "bit b (8 - r + m)" using short [OF that] at by simp
    ultimately show ?thesis using r by (simp only: bit_drop_bit_eq comp_apply) blast
  next
    case 3
    then have "put_septet packed (i, b) ! j = packed ! j"
      by (simp add: put_septet_def Let_def flip: q_def)
    moreover have "8 * j + m < i * 7 \<or> i * 7 + 7 \<le> 8 * j + m"
    proof (cases "j < q")
      case False
      then have "q + 2 \<le> j" using 3 by simp
      with pos r show ?thesis by simp
    qed (use pos assms(3) in simp)
    ultimately show ?thesis by (simp add: not_less) (meson not_less)
  qed
qed

lemma length_put_septet [simp]: "length (put_septet packed ib) = length packed"
  by (simp add: put_septet_def Let_def split: prod.split)

lemma length_pack_from: "length (foldl put_septet packed ibs) = length packed"
  by (induction ibs arbitrary: packed) simp_all

definition packed_length :: "nat \<Rightarrow> nat" where
  "packed_length n = (n * 7 + 7) div 8"

lemma length_pack: "length (pack ss) = packed_length (length ss)"
  by (simp add: pack_def length_pack_from packed_length_def)

definition is_septet :: "u8 \<Rightarrow> bool" where
  "is_septet b \<longleftrightarrow> b < 128"

lemma septet_bits: "is_septet b \<Longrightarrow> \<forall>k \<ge> 7. \<not> bit b k"
proof (intro allI impI)
  fix k :: nat assume b: "is_septet b" and k: "7 \<le> k"
  have "unat b < 2 ^ 7" using b by (simp add: is_septet_def word_less_nat_alt)
  also have "(2 :: nat) ^ 7 \<le> 2 ^ k" using k by (intro power_increasing) simp_all
  finally have "\<not> bit (unat b) k" by (simp add: bit_iff_odd)
  then show "\<not> bit b k" by (auto simp: bit_unsigned_iff dest: bit_imp_le_length)
qed

lemma appended_septet:
  "length ss * 7 \<le> p \<and> p < length ss * 7 + 7 \<and> bit b (p - length ss * 7) \<or> p < length ss * 7 \<and> bit (ss ! (p div 7)) (p mod 7) \<longleftrightarrow>
    p < length (ss @ [b]) * 7 \<and> bit ((ss @ [b]) ! (p div 7)) (p mod 7)"
proof (cases "p < length ss * 7")
  case True
  then have "p div 7 < length ss" by (simp add: div_less_iff_less_mult)
  with True show ?thesis by (simp add: nth_append)
next
  case False
  show ?thesis
  proof (cases "p < length ss * 7 + 7")
    case True
    define d where "d = p - length ss * 7"
    then have p: "p = length ss * 7 + d" and "d < 7" using False True by simp_all
    then have "p div 7 = length ss" "p mod 7 = d" by simp_all
    with p \<open>d < 7\<close> show ?thesis by simp
  qed (use False in simp)
qed

lemma bit_pack_prefix:
  assumes "list_all is_septet ss" and "j < length packed" and "m < 8"
  shows "bit (foldl put_septet packed (enumerate 0 ss) ! j) m \<longleftrightarrow>
    bit (packed ! j) m \<or> (8 * j + m < length ss * 7 \<and> bit (ss ! ((8 * j + m) div 7)) ((8 * j + m) mod 7))"
  using assms(1)
proof (induction ss rule: rev_induct)
  case Nil
  then show ?case by simp
next
  case (snoc b ss)
  let ?p = "8 * j + m" and ?n = "length ss"
  have "bit (foldl put_septet packed (enumerate 0 (ss @ [b])) ! j) m \<longleftrightarrow>
    bit (foldl put_septet packed (enumerate 0 ss) ! j) m \<or> ?n * 7 \<le> ?p \<and> ?p < ?n * 7 + 7 \<and> bit b (?p - ?n * 7)"
    using snoc.prems assms(2,3) by (simp add: enumerate_append_eq nth_put_septet septet_bits length_pack_from)
  moreover have "bit (foldl put_septet packed (enumerate 0 ss) ! j) m \<longleftrightarrow>
    bit (packed ! j) m \<or> (?p < ?n * 7 \<and> bit (ss ! (?p div 7)) (?p mod 7))"
    using snoc by simp
  moreover have "?n * 7 \<le> ?p \<and> ?p < ?n * 7 + 7 \<and> bit b (?p - ?n * 7) \<or> ?p < ?n * 7 \<and> bit (ss ! (?p div 7)) (?p mod 7) \<longleftrightarrow>
    ?p < length (ss @ [b]) * 7 \<and> bit ((ss @ [b]) ! (?p div 7)) (?p mod 7)"
    by (rule appended_septet)
  ultimately show ?case by blast
qed

lemma bit_pack:
  assumes "list_all is_septet ss" and "p < 8 * length (pack ss)"
  shows "bit (pack ss ! (p div 8)) (p mod 8) \<longleftrightarrow> p < length ss * 7 \<and> bit (ss ! (p div 7)) (p mod 7)"
proof -
  have "p div 8 < packed_length (length ss)" using assms(2) by (simp add: length_pack div_less_iff_less_mult mult.commute)
  then show ?thesis
    using bit_pack_prefix [OF assms(1), of "p div 8" "replicate (packed_length (length ss)) 0" "p mod 8"]
    by (simp add: pack_def packed_length_def)
qed

lemma eighth: "d < 8 \<Longrightarrow> (8 * q + d) div 8 = q \<and> (8 * q + d) mod 8 = (d :: nat)"
  by simp

lemma bit_low7: "bit (ucast (w AND 127 :: u16) :: u8) k \<longleftrightarrow> k < 7 \<and> bit w k"
proof -
  have "(127 :: u16) = mask 7" by (simp add: mask_eq_exp_minus_1)
  then have "bit (w AND 127) k \<longleftrightarrow> bit w k \<and> k < 7" by (simp only: bit_and_iff bit_mask_iff) auto
  then show ?thesis by (auto simp: bit_ucast_iff)
qed

lemma bit_septet_at:
  assumes "i * 7 + 7 \<le> 8 * length data"
  shows "bit (septet_at data i) k \<longleftrightarrow> k < 7 \<and> bit (data ! ((i * 7 + k) div 8)) ((i * 7 + k) mod 8)"
proof -
  define q r where "q = i * 7 div 8" and "r = i * 7 mod 8"
  then have pos: "i * 7 = 8 * q + r" and r: "r < 8" by simp_all
  have "bit (septet_at data i) k \<longleftrightarrow> k < 7 \<and>
    bit ((ucast (data ! q) :: u16) OR push_bit 8 (ucast (if q + 1 < length data then data ! (q + 1) else 0))) (r + k)"
    by (simp only: septet_at_def Let_def bit_low7 bit_drop_bit_eq comp_apply flip: q_def r_def)
  also have "\<dots> \<longleftrightarrow> k < 7 \<and> bit (data ! ((i * 7 + k) div 8)) ((i * 7 + k) mod 8)"
  proof (cases "r + k < 8")
    case True
    have e: "i * 7 + k = 8 * q + (r + k)" using pos by simp
    have "(i * 7 + k) div 8 = q" "(i * 7 + k) mod 8 = r + k" unfolding e using eighth [OF True] by blast+
    with True show ?thesis by (simp add: bit_or_iff bit_push_bit_iff bit_ucast_iff)
  next
    case False
    show ?thesis
    proof (cases "k < 7")
      case True
      have e: "i * 7 + k = 8 * (q + 1) + (r + k - 8)" using False pos by simp
      have "(i * 7 + k) div 8 = q + 1" "(i * 7 + k) mod 8 = r + k - 8" unfolding e using eighth [of "r + k - 8" "q + 1"] True r by auto
      moreover have "q + 1 < length data" using e True assms by simp
      moreover have "\<not> bit (data ! q) (r + k)" using False by (auto dest: bit_imp_le_length)
      moreover have "r + k - 8 < 16" "r + k < 16" using True r by simp_all
      ultimately show ?thesis using True False by (simp add: bit_or_iff bit_push_bit_iff bit_ucast_iff)
    qed simp
  qed
  finally show ?thesis .
qed

lemma septet_at_pack:
  assumes "list_all is_septet ss" and "i * 7 + 7 \<le> 8 * length (pack ss)"
  shows "septet_at (pack ss) i = (if i < length ss then ss ! i else 0)"
proof (rule bit_eqI)
  fix k
  have ends: "k \<ge> 7 \<Longrightarrow> i < length ss \<Longrightarrow> \<not> bit (ss ! i) k" using assms(1) septet_bits by (auto simp: list_all_length)
  have at: "k < 7 \<Longrightarrow> (i * 7 + k) div 7 = i \<and> (i * 7 + k) mod 7 = k \<and> i * 7 + k < 8 * length (pack ss)" using assms(2) by simp
  have "bit (septet_at (pack ss) i) k \<longleftrightarrow> k < 7 \<and> i * 7 + k < length ss * 7 \<and> bit (ss ! i) k"
    using bit_septet_at [OF assms(2), of k] bit_pack [OF assms(1), of "i * 7 + k"] at by auto
  then show "bit (septet_at (pack ss) i) k \<longleftrightarrow> bit (if i < length ss then ss ! i else 0) k" using ends by auto
qed

lemma packed_length_septets: "packed_length n * 8 div 7 = (if n mod 8 = 7 then n + 1 else n)"
proof -
  obtain a c where n: "n = 8 * a + c" and c: "c < 8" using div_mult_mod_eq [of n 8] mod_less_divisor [of 8 n] by (metis mult.commute zero_less_numeral)
  have "packed_length n = 7 * a + c"
    unfolding packed_length_def n using c by (simp add: add_mult_distrib algebra_simps div_nat_eqI)
  moreover have "(7 * a + c) * 8 div 7 = 8 * a + c * 8 div 7" by (simp add: add_mult_distrib)
  moreover have "c * 8 div 7 = (if c = 7 then 8 else c)" using c by (auto intro!: div_nat_eqI)
  moreover have "n mod 8 = c" using n c by simp
  ultimately show ?thesis using n by simp
qed

theorem unpack_pack:
  assumes "list_all is_septet ss"
  shows "unpack (pack ss) = ss @ (if length ss mod 8 = 7 then [0] else [])"
proof -
  have "septet_at (pack ss) i = (if i < length ss then ss ! i else 0)" if "i < length (pack ss) * 8 div 7" for i
    using that by (intro septet_at_pack [OF assms]) (simp add: less_eq_div_iff_mult_less_eq flip: Suc_le_eq)
  then have "unpack (pack ss) = map (\<lambda>i. if i < length ss then ss ! i else 0) [0 ..< length (pack ss) * 8 div 7]"
    by (simp add: unpack_def)
  also have "\<dots> = ss @ (if length ss mod 8 = 7 then [0] else [])"
    by (rule nth_equalityI) (auto simp: length_pack packed_length_septets nth_append)
  finally show ?thesis .
qed

section \<open>The alphabets\<close>

text \<open>No two places of the alphabet hold the same character, so the place found is the character's own.\<close>

lemma gsm_positionD:
  "gsm_position c gs = Some i \<Longrightarrow> i < length gs \<and> gs ! i = c \<and> c \<noteq> 0x1B"
  by (induction gs arbitrary: i) (auto split: if_splits)

lemma GSM_length: "length GSM = 128"
  by code_simp

lemma gsm_place:
  assumes "gsm_position c GSM = Some i"
  shows "i < 128" and "i \<noteq> 27" and "GSM ! i = c"
proof -
  have "GSM ! 27 = 0x1B" by code_simp
  then show "i < 128" "i \<noteq> 27" "GSM ! i = c" using gsm_positionD [OF assms] GSM_length by auto
qed

lemma gsm_encode_septets: "gsm_encode s = Ok ss \<Longrightarrow> list_all is_septet ss \<and> length ss = length s"
proof (induction s arbitrary: ss)
  case (Cons c s)
  then obtain i ss' where "gsm_position c GSM = Some i" and ss: "gsm_encode s = Ok ss'" "ss = word_of_nat i # ss'"
    by (auto simp: and_then_Inr_iff split: option.splits)
  with gsm_place(1) [OF this(1)] have "is_septet (word_of_nat i)"
    by (simp add: is_septet_def word_less_nat_alt unat_of_nat)
  with ss Cons.IH show ?case by simp
qed simp

lemma gsm_of_encode: "gsm_encode s = Ok ss \<Longrightarrow> gsm_from (ss @ rest) False out = gsm_from rest False (out @ s)"
proof (induction s arbitrary: ss out)
  case (Cons c s)
  then obtain i ss' where i: "gsm_position c GSM = Some i" and ss: "gsm_encode s = Ok ss'" "ss = word_of_nat i # ss'"
    by (auto simp: and_then_Inr_iff split: option.splits)
  from gsm_place [OF i] have "unat (word_of_nat i :: u8) = i" "(word_of_nat i :: u8) \<noteq> 27" "GSM ! i = c" "i < length GSM"
    by (auto simp: unat_of_nat GSM_length dest: arg_cong [of _ _ unat])
  with ss Cons.IH [of ss' "out @ [c]"] show ?case by simp
qed simp

lemma gsm_encode_decode: "gsm_encode s = Ok ss \<Longrightarrow> gsm ss = Ok s"
  using gsm_of_encode [of s ss "[]" "[]"] by (simp add: gsm_def)

lemma gsm_encode_decode_at: "gsm_encode s = Ok ss \<Longrightarrow> gsm (ss @ [0]) = Ok (s @ [64])"
proof -
  have "GSM ! 0 = 64" "0 < length GSM" by (code_simp, simp add: GSM_length)
  then show "gsm_encode s = Ok ss \<Longrightarrow> gsm (ss @ [0]) = Ok (s @ [64])"
    using gsm_of_encode [of s ss "[0]" "[]"] by (simp add: gsm_def)
qed

lemma ucs2_encode_decode: "ucs2_encode s = Ok bs \<Longrightarrow> list_all is_scalar s \<Longrightarrow> ucs2 bs = Ok s"
proof (induction s arbitrary: bs)
  case Nil
  then show ?case by (simp add: ucs2_def)
next
  case (Cons c s)
  then obtain bs' where bs: "ucs2_encode s = Ok bs'" "bs = word_of_nat (c div 256) # word_of_nat (c mod 256) # bs'" and c: "c < 0x10000"
    by (auto simp: and_then_Inr_iff split: if_splits)
  from c have "c div 256 < 256" by (simp add: div_less_iff_less_mult)
  then have "unat (word_of_nat (c div 256) :: u8) * 256 + unat (word_of_nat (c mod 256) :: u8) = c"
    by (simp add: unat_of_nat)
  with bs Cons.IH [OF bs(1)] Cons.prems(2) show ?case
    by (simp add: ucs2_def from_u32_def split: if_splits)
qed

section \<open>Answers\<close>

lemma encoded_text_reads_back:
  assumes "encode_text c s = Ok bs" and "list_all is_scalar s"
  shows "text_string bs = Ok (s @ (if bs ! 0 = 0 \<and> length s mod 8 = 7 then [64] else []))"
proof -
  from assms(1) consider
      (wide) u where "ucs2_encode s = Ok u" "bs = 8 # u"
    | (packed) ss where "gsm_encode s = Ok ss" "bs = 0 # pack ss"
    | (plain) ss where "gsm_encode s = Ok ss" "bs = 4 # ss"
    by (auto simp: encode_text_def Let_def and_then_Inr_iff split: if_splits)
  then show ?thesis
  proof cases
    case wide
    with ucs2_encode_decode [OF _ assms(2)] show ?thesis by (simp add: text_string_def)
  next
    case packed
    with gsm_encode_septets [OF packed(1)] gsm_encode_decode [OF packed(1)] gsm_encode_decode_at [OF packed(1)]
    show ?thesis by (simp add: text_string_def unpack_pack)
  next
    case plain
    with gsm_encode_decode [OF plain(1)] show ?thesis by (simp add: text_string_def)
  qed
qed

lemma next_cat_written:
  assumes "length bs \<le> 255"
  shows "next_cat (tag # (if length bs \<ge> 128 then [0x81] else []) @ [word_of_nat (length bs)] @ bs) = Ok (tag, bs, [])"
proof -
  have n: "unat (word_of_nat (length bs) :: u8) = length bs" using assms by (simp add: unat_of_nat)
  have "(word_of_nat (length bs) :: u8) \<le> 0x7F \<and> word_of_nat (length bs) \<noteq> (0x81 :: u8) \<and> word_of_nat (length bs) \<noteq> (0x82 :: u8)"
    if "length bs < 128" using that n by (auto simp: word_le_nat_alt dest: arg_cong [of _ _ unat])
  with n show ?thesis by (simp add: next_cat_def cat_length_def take_cat_def Let_def)
qed

text \<open>An answer is the SIM's own details, the devices, success and the text as one element; the codec's reader finds in
  that element the text the user gave, whichever alphabet the SIM asked for. Packed into septets, a text of a multiple of eight
  characters less one gains an at sign.\<close>

theorem answer_reads_back:
  assumes "input_response c value = Ok out" and "ans_text value = Some t" and "list_all is_scalar t"
    and "details c ! 1 = 0x22 \<and> details c ! 2 AND 4 = 0 \<or> details c ! 1 = 0x23"
  shows "\<exists>element bs. out = response c 0 element \<and> next_cat element = Ok (0x8D, bs, []) \<and>
    text_string bs = Ok (t @ (if bs ! 0 = 0 \<and> length t mod 8 = 7 then [64] else []))"
proof -
  from assms obtain bs where "encode_text c t = Ok bs" and small: "length bs \<le> 255"
    and "out = response c 0 ([0x8D] @ (if length bs \<ge> 128 then [0x81] else []) @ [word_of_nat (length bs)] @ bs)"
    by (auto simp: input_response_def encode_answer_def and_then_Inr_iff ok_or_Inr_iff split: if_splits)
  moreover from this(1) have "text_string bs = Ok (t @ (if bs ! 0 = 0 \<and> length t mod 8 = 7 then [64] else []))"
    by (rule encoded_text_reads_back [OF _ assms(3)])
  ultimately show ?thesis using next_cat_written [OF small, of "0x8D"]
    unfolding append_Cons append_Nil by blast
qed

text \<open>A request for four to eight packed characters, answered with seven.\<close>

definition ask_packed :: command where
  "ask_packed = blank_command\<lparr>details := [1, 0x23, 9], lo := 4, hi := 8\<rparr>"

definition seven_letters :: "uchar list" where
  "seven_letters = map of_char ''letters''"

theorem answer_reads_back_witness:
  "\<exists>out element bs. input_response ask_packed \<lparr>ans_yes = None, ans_text = Some seven_letters\<rparr> = Ok out \<and>
     out = response ask_packed 0 element \<and> next_cat element = Ok (0x8D, bs, []) \<and>
     text_string bs = Ok (seven_letters @ (if bs ! 0 = 0 \<and> length seven_letters mod 8 = 7 then [64] else []))"
proof -
  have "case input_response ask_packed \<lparr>ans_yes = None, ans_text = Some seven_letters\<rparr> of Inl _ \<Rightarrow> False | Inr _ \<Rightarrow> True" by code_simp
  then obtain out where out: "input_response ask_packed \<lparr>ans_yes = None, ans_text = Some seven_letters\<rparr> = Ok out"
    by (auto split: sum.splits)
  have "list_all is_scalar seven_letters" "details ask_packed ! 1 = 0x23" by code_simp+
  with answer_reads_back [OF out] out show ?thesis by auto
qed

end
