(* ===== verification/Stuck_Safety.thy ===== *)
theory Stuck_Safety
  imports Stuck_Script Run_Invariant
begin

text \<open>
  What the watchdog of \<open>Stuck_Script\<close> stops and what it does not: only copies of the script, none before it
  is stuck, and none that is stuck is forgotten.
\<close>

section \<open>One copy\<close>

lemma ages: "STUCK_AGE < MAX_AGE" "0 < SLACK" "0 < MONITOR_RETRY" "0 < SCAN_RETRY"
  by (simp_all add: STUCK_AGE_def MAX_AGE_def SLACK_def MONITOR_RETRY_def SCAN_RETRY_def from_secs_def)

lemma for_outlook_Endless_iff:
  "for_outlook ol = Endless n \<longleftrightarrow> (\<exists>x. ol = Some x \<and> endless x \<and> n = reachable x)"
  by (auto simp: for_outlook_def split: option.split)

text \<open>The four things that can come of a copy.\<close>

lemma check_copy_cases:
  obtains (old) "MAX_AGE \<le> now - c_start c" "check_copy sc now c t = (None, t, None, False)"
  | (stuck) n where "STUCK_AGE \<le> now - c_start c" "for_outlook (s_outlook sc) = Endless n" "n \<le> fresh sc c"
      "t_rule t \<noteq> Age" "check_copy sc now c t = (None, t\<lparr>t_rule := Endless n\<rparr>, None, False)"
  | (again) at u w r where "now - c_start c < MAX_AGE" "now < at" "at \<le> c_start c + MAX_AGE + SLACK" "t_start u = t_start t"
      "t_rule t = Age \<Longrightarrow> t_rule u = Age" "check_copy sc now c t = (Some at, u, w, r)"
proof (cases "MAX_AGE \<le> now - c_start c")
  case True
  then show ?thesis by (intro old) (simp_all add: check_copy_def)
next
  case False
  note young = this
  have last: "now < c_start c + MAX_AGE + SLACK" using False ages by linarith
  show ?thesis
  proof (cases "t_rule t")
    case Age
    then show ?thesis using False last by (intro again) (simp_all add: check_copy_def Let_def)
  next
    case (Endless k)
    show ?thesis
    proof (cases "now - c_start c < STUCK_AGE")
      case True
      then have "now < c_start c + STUCK_AGE + SLACK" using ages by linarith
      moreover have "c_start c + STUCK_AGE + SLACK \<le> c_start c + MAX_AGE + SLACK" using ages by simp
      moreover have "check_copy sc now c t = (Some (c_start c + STUCK_AGE + SLACK), t, None, False)"
        using True young Endless by (simp add: check_copy_def Let_def)
      ultimately show ?thesis using young by (intro again) simp_all
    next
      case False
      show ?thesis
      proof (cases "for_outlook (s_outlook sc)")
        case Age
        then show ?thesis using young False Endless last by (intro again) (simp_all add: check_copy_def Let_def)
      next
        case e: (Endless n)
        show ?thesis
        proof (cases "n \<le> fresh sc c")
          case True
          then show ?thesis using young False Endless e by (intro stuck) (simp_all add: check_copy_def Let_def)
        next
          case n: False
          have "now < now + MONITOR_RETRY" using ages by simp
          then show ?thesis
            using young False Endless e n last by (intro again) (simp_all add: check_copy_def Let_def)
        qed
      qed
    qed
  qed
qed

definition is_kill :: "int \<Rightarrow> script_action \<Rightarrow> bool" where
  "is_kill p a \<longleftrightarrow> (case a of Kill q _ _ \<Rightarrow> p = q | _ \<Rightarrow> False)"

lemma is_kill_simps [simp]:
  "is_kill p (Kill q age r) \<longleftrightarrow> p = q" "\<not> is_kill p Scan" "\<not> is_kill p (Watch q at r)"
  "\<not> is_kill p (Wait q n k)" "\<not> is_kill p (Relax q at)"
  by (simp_all add: is_kill_def)

text \<open>One step of the loop over the copies: the copy is stopped, or entered with a time to look again.\<close>

lemma see_copy_cases:
  fixes sc now acts m before c
  defines "t \<equiv> fst (entry_of sc before c)"
  obtains (stop) r b' where "see_copy sc now (acts, m, before) c =
        (acts @ [Kill (c_pid c) (now - c_start c) r], m, b')" "b' = before(c_pid c := None)"
      "MAX_AGE \<le> now - c_start c \<or> STUCK_AGE \<le> now - c_start c \<and> t_rule t \<noteq> Age \<and>
        r = for_outlook (s_outlook sc) \<and> (\<exists>n. r = Endless n \<and> n \<le> fresh sc c)"
  | (keep) at u more b' where "see_copy sc now (acts, m, before) c =
        (acts @ more, \<lparr>deadline = Some (sooner (deadline m) at), tracked = (tracked m)(c_pid c \<mapsto> u)\<rparr>, b')" "b' = before(c_pid c := None)"
      "list_all (\<lambda>a. \<forall>p. \<not> is_kill p a) more" "now - c_start c < MAX_AGE" "now < at"
      "at \<le> c_start c + MAX_AGE + SLACK" "t_start u = c_start c" "t_rule t = Age \<Longrightarrow> t_rule u = Age"
proof -
  obtain new where e: "entry_of sc before c = (t, new)" by (metis prod.collapse t_def)
  have s: "t_start t = c_start c"
    by (auto simp: t_def entry_of_def Let_def split: option.split)
  show ?thesis
  proof (cases rule: check_copy_cases [of now c sc t])
    case old
    then show ?thesis by (intro stop) (auto simp: see_copy_def e)
  next
    case (stuck n)
    then show ?thesis by (intro stop) (auto simp: see_copy_def e)
  next
    case (again at u w r)
    show ?thesis
      by (rule keep [of "(if new then [Watch (c_pid c) at (t_rule u)] else [])
               @ (case w of Some n \<Rightarrow> [Wait (c_pid c) (fresh sc c) n] | None \<Rightarrow> [])
               @ (if r then [Relax (c_pid c) at] else [])" at u])
        (use again s in \<open>auto simp: see_copy_def e split: option.split\<close>)
  qed
qed

section \<open>One scan\<close>

lemma see_copies_kills:
  assumes "Kill p age r \<in> set (fst (foldl (see_copy sc now) (acts, m, before) cs))"
  shows "Kill p age r \<in> set acts \<or>
    (\<exists>c \<in> set cs. c_pid c = p \<and> age = now - c_start c \<and>
      (MAX_AGE \<le> age \<or> STUCK_AGE \<le> age \<and> r = for_outlook (s_outlook sc) \<and> (\<exists>n. r = Endless n \<and> n \<le> fresh sc c)))"
  using assms
proof (induction cs arbitrary: acts m before)
  case (Cons c cs)
  show ?case
  proof (cases rule: see_copy_cases [of sc now acts m before c])
    case (stop r' b')
    show ?thesis
      using Cons.prems Cons.IH [of "acts @ [Kill (c_pid c) (now - c_start c) r']" m b'] stop(1,3) by (auto 0 3)
  next
    case (keep at u more b')
    have "Kill p age r \<notin> set more" using keep(3) by (fastforce simp: list_all_iff)
    with keep(1) Cons.prems Cons.IH [of "acts @ more" _ b'] show ?thesis by fastforce
  qed
qed simp

lemma on_scanned_kills:
  assumes "Kill p age r \<in> set (fst (on_scanned sc now m))"
  obtains c where "c \<in> set (copies sc)" "c_pid c = p" "age = now - c_start c"
    "MAX_AGE \<le> age \<or> STUCK_AGE \<le> age \<and> r = for_outlook (s_outlook sc) \<and> (\<exists>n. r = Endless n \<and> n \<le> fresh sc c)"
proof -
  have "Kill p age r \<in> set (fst (foldl (see_copy sc now) ([], machine_new, tracked m) (copies sc)))"
    using assms by (auto simp: on_scanned_def split: prod.splits)
  from see_copies_kills [OF this] show ?thesis using that by auto
qed

text \<open>What the loop does for a copy stays done: an action stays, a deadline only moves closer.\<close>

lemma see_copies_keep:
  "a \<in> set acts \<Longrightarrow> a \<in> set (fst (foldl (see_copy sc now) (acts, m, before) cs))"
proof (induction cs arbitrary: acts m before)
  case (Cons c cs)
  show ?case
    by (cases rule: see_copy_cases [of sc now acts m before c]) (use Cons in auto)
qed simp

definition armed :: "duration \<Rightarrow> duration \<Rightarrow> machine \<Rightarrow> bool" where
  "armed now lim m \<longleftrightarrow> (\<exists>d. deadline m = Some d \<and> now < d \<and> d \<le> lim)"

lemma see_copies_armed:
  "armed now lim m \<Longrightarrow> armed now lim (fst (snd (foldl (see_copy sc now) (acts, m, before) cs)))"
proof (induction cs arbitrary: acts m before)
  case (Cons c cs)
  show ?case
  proof (cases rule: see_copy_cases [of sc now acts m before c])
    case (stop r b')
    with Cons show ?thesis by simp
  next
    case (keep at u more b')
    then have "armed now lim \<lparr>deadline = Some (sooner (deadline m) at), tracked = (tracked m)(c_pid c \<mapsto> u)\<rparr>"
      using Cons.prems by (auto simp: armed_def sooner_def)
    from Cons.IH [OF this] keep(1) show ?thesis by simp
  qed
qed simp

lemma see_copies_each:
  assumes "c \<in> set cs" and "deadline m = None \<or> armed now lim m"
  shows "(\<exists>r. Kill (c_pid c) (now - c_start c) r \<in> set (fst (foldl (see_copy sc now) (acts, m, before) cs))) \<or>
    now - c_start c < MAX_AGE \<and>
    armed now (c_start c + MAX_AGE + SLACK) (fst (snd (foldl (see_copy sc now) (acts, m, before) cs)))"
  using assms
proof (induction cs arbitrary: acts m before lim)
  case (Cons a cs)
  show ?case
  proof (cases rule: see_copy_cases [of sc now acts m before a])
    case (stop r b')
    show ?thesis
    proof (cases "c = a")
      case True
      have "Kill (c_pid c) (now - c_start c) r \<in> set (fst (foldl (see_copy sc now)
          (acts @ [Kill (c_pid a) (now - c_start a) r], m, b') cs))"
        by (rule see_copies_keep) (simp add: True)
      with stop(1) show ?thesis by auto
    next
      case False
      with Cons.prems(1) have "c \<in> set cs" by simp
      from Cons.IH [OF this Cons.prems(2), of "acts @ [Kill (c_pid a) (now - c_start a) r]" b']
      show ?thesis using stop(1) by simp
    qed
  next
    case (keep at u more b')
    let ?m = "\<lparr>deadline = Some (sooner (deadline m) at), tracked = (tracked m)(c_pid a \<mapsto> u)\<rparr>"
    have arm: "armed now (a_last) ?m" if "at \<le> a_last" for a_last
      using Cons.prems(2) keep(5) that by (auto simp: armed_def sooner_def)
    show ?thesis
    proof (cases "c = a")
      case True
      from see_copies_armed [OF arm [OF keep(6)]] keep(1,4) True show ?thesis by simp
    next
      case False
      with Cons.prems(1) have "c \<in> set cs" by simp
      from Cons.IH [OF this disjI2 [OF arm [OF order_refl]], of "acts @ more" b']
      show ?thesis using keep(1) by simp
    qed
  qed
qed simp

lemma on_scanned_each:
  assumes "c \<in> set (copies sc)"
  shows "(\<exists>r. Kill (c_pid c) (now - c_start c) r \<in> set (fst (on_scanned sc now m))) \<or>
    now - c_start c < MAX_AGE \<and> armed now (c_start c + MAX_AGE + SLACK) (snd (on_scanned sc now m))"
proof -
  have "deadline machine_new = None \<or> armed now now machine_new" by (simp add: machine_new_def)
  from see_copies_each [OF assms this, of sc "[]" "tracked m"] show ?thesis
    by (auto simp: on_scanned_def split: prod.splits)
qed

section \<open>A wake-up\<close>

lemma handle_trigger: "handle hz Trigger now pr rt = runtime_scan hz pr rt"
  by (simp add: handle_def machine_step_def act_def case_prod_unfold)

lemma handle_timer:
  "handle hz Timer now pr rt =
     (case deadline (rt_machine rt) of
        Some at \<Rightarrow>
          if at \<le> now then runtime_scan hz pr (rt\<lparr>rt_machine := (rt_machine rt)\<lparr>deadline := None\<rparr>\<rparr>) else ([], rt)
      | None \<Rightarrow> ([], rt))"
  by (simp add: handle_def machine_step_def act_def case_prod_unfold split: option.split)

lemma runtime_scan_Some:
  "p_entries pr = Some entries \<Longrightarrow> runtime_scan hz pr rt =
     (map Did (fst (on_scanned (judged_scan hz entries (p_config pr)) (p_now pr) (rt_machine rt))),
      \<lparr>rt_machine = snd (on_scanned (judged_scan hz entries (p_config pr)) (p_now pr) (rt_machine rt)), scan_failing = False\<rparr>)"
  by (simp add: runtime_scan_def machine_step_def case_prod_unfold)

lemma runtime_scan_None:
  "p_entries pr = None \<Longrightarrow> runtime_scan hz pr rt =
     (if scan_failing rt then [] else [Complained],
      \<lparr>rt_machine = (rt_machine rt)\<lparr>deadline := Some (sooner (deadline (rt_machine rt)) (p_now pr + SCAN_RETRY))\<rparr>,
       scan_failing = True\<rparr>)"
  by (simp add: runtime_scan_def machine_step_def)

lemma handle_scans:
  assumes "ev \<in> {Trigger, Timer}"
  obtains (idle) "handle hz ev now pr rt = ([], rt)" "ev = Timer"
  | (scans) rt' where "handle hz ev now pr rt = runtime_scan hz pr rt'" "tracked (rt_machine rt') = tracked (rt_machine rt)"
      "deadline (rt_machine rt') \<in> {None, deadline (rt_machine rt)}"
proof (cases "ev = Trigger")
  case True
  then show ?thesis by (intro scans [of rt]) (simp_all add: handle_trigger)
next
  case False
  with assms have ev: "ev = Timer" by simp
  show ?thesis
  proof (cases "case deadline (rt_machine rt) of Some at \<Rightarrow> at \<le> now | None \<Rightarrow> False")
    case True
    then show ?thesis
      by (intro scans [of "rt\<lparr>rt_machine := (rt_machine rt)\<lparr>deadline := None\<rparr>\<rparr>"])
        (simp_all add: ev handle_timer split: option.splits)
  next
    case False
    then show ?thesis by (intro idle) (simp_all add: ev handle_timer split: option.splits)
  qed
qed

text \<open>Where the copies and monitors of a scan come from.\<close>

definition shows_copy :: "nat \<Rightarrow> proc_entry \<Rightarrow> found_proc \<Rightarrow> bool" where
  "shows_copy hz e f \<longleftrightarrow>
     (\<exists>cmdline stat ticks. parse_i32 (e_name e) = Some (f_pid f) \<and> e_cmdline e = Some cmdline \<and> is_post_wifi_cmdline cmdline \<and>
       e_stat e = Some stat \<and> parse_stat stat = Some (f_ppid f, ticks) \<and> f_start f = ticks_to_duration ticks hz)"

lemma read_entry_copy: "read_entry hz e = Some (False, f) \<Longrightarrow> shows_copy hz e f"
  by (auto simp: read_entry_def shows_copy_def bind_eq_Some_conv split: if_splits)

lemma scan_proc_copies:
  assumes "c \<in> set (copies (scan_proc hz entries))"
  obtains e f where "e \<in> set entries" "shows_copy hz e f" "c = \<lparr>c_pid = f_pid f, c_start = f_start f\<rparr>"
    "\<not> (\<exists>e' \<in> set entries. \<exists>f'. read_entry hz e' = Some (False, f') \<and> f_pid f' = f_ppid f)"
proof -
  define found where "found = map snd (filter (\<lambda>(monitor, _). \<not> monitor) (List.map_filter (read_entry hz) entries))"
  have inf: "f \<in> set found \<longleftrightarrow> (\<exists>e \<in> set entries. read_entry hz e = Some (False, f))" for f
    by (force simp: found_def in_map_filter image_iff)
  have "copies (scan_proc hz entries) = top_level found"
    by (simp add: scan_proc_def found_def Let_def)
  then obtain f where f: "f \<in> set found" "c = \<lparr>c_pid = f_pid f, c_start = f_start f\<rparr>" "f_ppid f \<notin> f_pid ` set found"
    using assms by (auto simp: top_level_def)
  from f(1) obtain e where "e \<in> set entries" "read_entry hz e = Some (False, f)" by (auto simp: inf)
  moreover have "\<not> (\<exists>e' \<in> set entries. \<exists>f'. read_entry hz e' = Some (False, f') \<and> f_pid f' = f_ppid f)"
    using f(3) inf by (metis imageI)
  ultimately show ?thesis using that read_entry_copy f(2) by blast
qed

lemma judged_scan_copies [simp]: "copies (judged_scan hz entries config) = copies (scan_proc hz entries)"
  by (simp add: judged_scan_def Let_def)

lemma judged_scan_endless:
  "for_outlook (s_outlook (judged_scan hz entries config)) = Endless n \<Longrightarrow>
     \<exists>t. config = Some t \<and> endless (from_config t) \<and> n = reachable (from_config t)"
  by (auto simp: for_outlook_Endless_iff judged_scan_def scan_proc_def Let_def split: if_splits)

text \<open>
  C16: the watchdog signals nothing but stuck copies of the script. A process it stops was in this scan of
  \<open>/proc\<close> with the script's command line, is not a child of another copy, and has run for two minutes; or it has run
  for five seconds, the configuration read by this scan says that it can never finish, and the monitors it can
  start have been started since it began.
\<close>

theorem only_stuck_copies_stopped:
  assumes "ev \<in> {Trigger, Timer}" and "Did (Kill p age r) \<in> set (fst (handle hz ev now pr rt))"
  shows "\<exists>entries e f. p_entries pr = Some entries \<and> e \<in> set entries \<and> shows_copy hz e f \<and> f_pid f = p \<and>
    \<not> (\<exists>e' \<in> set entries. \<exists>f'. read_entry hz e' = Some (False, f') \<and> f_pid f' = f_ppid f) \<and>
    age = p_now pr - f_start f \<and>
    (MAX_AGE \<le> age \<or>
      STUCK_AGE \<le> age \<and> (\<exists>t. p_config pr = Some t \<and> endless (from_config t) \<and> r = Endless (reachable (from_config t)) \<and>
        reachable (from_config t) \<le> length (filter (\<lambda>m. f_start f \<le> m) (monitors (judged_scan hz entries (p_config pr))))))"
  using assms(1)
proof (cases rule: handle_scans [of ev hz now pr rt])
  case idle
  with assms(2) show ?thesis by simp
next
  case (scans rt')
  then have k: "Did (Kill p age r) \<in> set (fst (runtime_scan hz pr rt'))" using assms(2) by simp
  obtain entries where e: "p_entries pr = Some entries"
    using k by (cases "p_entries pr") (auto simp: runtime_scan_None split: if_splits)
  have "Kill p age r \<in> set (fst (on_scanned (judged_scan hz entries (p_config pr)) (p_now pr) (rt_machine rt')))"
    using k by (auto simp: runtime_scan_Some [OF e])
  then obtain c where c: "c \<in> set (copies (scan_proc hz entries))" "c_pid c = p" "age = p_now pr - c_start c"
    and why: "MAX_AGE \<le> age \<or> STUCK_AGE \<le> age \<and> r = for_outlook (s_outlook (judged_scan hz entries (p_config pr))) \<and>
      (\<exists>n. r = Endless n \<and> n \<le> fresh (judged_scan hz entries (p_config pr)) c)"
    by (rule on_scanned_kills) simp
  obtain en f where f: "en \<in> set entries" "shows_copy hz en f" "c = \<lparr>c_pid = f_pid f, c_start = f_start f\<rparr>"
    "\<not> (\<exists>e' \<in> set entries. \<exists>f'. read_entry hz e' = Some (False, f') \<and> f_pid f' = f_ppid f)"
    by (rule scan_proc_copies [OF c(1)])
  have "MAX_AGE \<le> age \<or>
      STUCK_AGE \<le> age \<and> (\<exists>t. p_config pr = Some t \<and> endless (from_config t) \<and> r = Endless (reachable (from_config t)) \<and>
        reachable (from_config t) \<le> length (filter (\<lambda>m. f_start f \<le> m) (monitors (judged_scan hz entries (p_config pr)))))"
    using why f(3) judged_scan_endless [of hz entries "p_config pr"] by (auto simp: fresh_def)
  moreover have "f_pid f = p" "age = p_now pr - f_start f" using c f(3) by simp_all
  ultimately show ?thesis using e f by blast
qed

text \<open>
  No copy is forgotten. Whenever a scan runs, each copy it finds is stopped, or it is younger than two minutes
  and the timer is set to an instant ahead at which it is looked at again, at the latest a second past its two
  minutes; a copy of two minutes is always stopped.
\<close>

theorem copies_are_followed:
  assumes "p_entries pr = Some entries" and "c \<in> set (copies (scan_proc hz entries))"
    and "ev = Trigger \<or> ev = Timer \<and> deadline (rt_machine rt) = Some at \<and> at \<le> now"
  shows "(\<exists>r. Did (Kill (c_pid c) (p_now pr - c_start c) r) \<in> set (fst (handle hz ev now pr rt))) \<or>
    p_now pr - c_start c < MAX_AGE \<and>
    (\<exists>d. deadline (rt_machine (snd (handle hz ev now pr rt))) = Some d \<and> p_now pr < d \<and> d \<le> c_start c + from_secs 121)"
proof -
  obtain rt' where h: "handle hz ev now pr rt = runtime_scan hz pr rt'"
    using assms(3) by (auto simp: handle_trigger handle_timer)
  have "MAX_AGE + SLACK = from_secs 121" by (simp add: MAX_AGE_def SLACK_def from_secs_def)
  then show ?thesis
    using on_scanned_each [of c "judged_scan hz entries (p_config pr)" "p_now pr" "rt_machine rt'"] assms(2)
    by (auto simp: h runtime_scan_Some [OF assms(1)] armed_def add.assoc)
qed

section \<open>Runs\<close>

text \<open>The thread's wake-ups, with those so far.\<close>

type_synonym wake_up = "bool \<times> duration \<times> proc_read"

definition wake :: "nat \<Rightarrow> wake_up \<Rightarrow> wake_up list \<times> script_runtime \<Rightarrow> wake_up list \<times> script_runtime" where
  "wake hz = (\<lambda>(timer, now, pr) (past, rt). ((timer, now, pr) # past, snd (handle hz (if timer then Timer else Trigger) now pr rt)))"

definition timer_covers :: "wake_up list \<times> script_runtime \<Rightarrow> bool" where
  "timer_covers w \<longleftrightarrow> (\<forall>p t. tracked (rt_machine (snd w)) p = Some t \<longrightarrow>
     (\<exists>d. deadline (rt_machine (snd w)) = Some d \<and>
       (d \<le> t_start t + from_secs 121 \<or> (\<exists>(_, _, pr) \<in> set (fst w). p_entries pr = None \<and> d \<le> p_now pr + from_secs 30))))"

lemma see_copies_covered:
  assumes "\<And>p t. tracked m p = Some t \<Longrightarrow> \<exists>d. deadline m = Some d \<and> d \<le> t_start t + from_secs 121"
    and "tracked (fst (snd (foldl (see_copy sc now) (acts, m, before) cs))) p = Some t"
  shows "\<exists>d. deadline (fst (snd (foldl (see_copy sc now) (acts, m, before) cs))) = Some d \<and> d \<le> t_start t + from_secs 121"
  using assms
proof (induction cs arbitrary: acts m before)
  case (Cons c cs)
  show ?case
  proof (cases rule: see_copy_cases [of sc now acts m before c])
    case (stop r b')
    from Cons.IH [where acts = "acts @ [Kill (c_pid c) (now - c_start c) r]" and before = b', OF Cons.prems(1)] Cons.prems(2) stop(1)
    show ?thesis by simp
  next
    case (keep at u more b')
    let ?m = "\<lparr>deadline = Some (sooner (deadline m) at), tracked = (tracked m)(c_pid c \<mapsto> u)\<rparr>"
    have at: "at \<le> t_start u + from_secs 121"
      using keep(6,7) by (simp add: MAX_AGE_def SLACK_def from_secs_def)
    have "\<exists>d. deadline ?m = Some d \<and> d \<le> t_start v + from_secs 121" if "tracked ?m q = Some v" for q v
    proof (cases "q = c_pid c")
      case True
      with that at show ?thesis by (auto simp: sooner_def split: option.split)
    next
      case False
      with that Cons.prems(1) [of q v] show ?thesis by (auto simp: sooner_def)
    qed
    from Cons.IH [where acts = "acts @ more" and before = b', OF this] Cons.prems(2) keep(1) show ?thesis by simp
  qed
qed simp

lemma on_scanned_covered:
  assumes "tracked (snd (on_scanned sc now m)) p = Some t"
  shows "\<exists>d. deadline (snd (on_scanned sc now m)) = Some d \<and> d \<le> t_start t + from_secs 121"
  using see_copies_covered [of machine_new sc now "[]" "tracked m" "copies sc" p t] assms
  by (auto simp: on_scanned_def machine_new_def split: prod.splits)

lemma timer_covers_scan:
  assumes "timer_covers (past, rt)" and "tracked (rt_machine rt') = tracked (rt_machine rt)"
  shows "timer_covers ((timer, now, pr) # past, snd (runtime_scan hz pr rt'))"
proof (cases "p_entries pr")
  case None
  then show ?thesis
    by (auto simp: timer_covers_def runtime_scan_None sooner_def SCAN_RETRY_def split: option.split)
next
  case (Some entries)
  show ?thesis
    unfolding timer_covers_def runtime_scan_Some [OF Some] using on_scanned_covered by fastforce
qed

interpretation stuck_machine: invariant_machine "wake hz" timer_covers for hz
proof unfold_locales
  fix w and i :: wake_up
  assume w: "timer_covers w"
  obtain timer now pr where i: "i = (timer, now, pr)" by (cases i)
  obtain past rt where v: "w = (past, rt)" by (cases w)
  have "(if timer then Timer else Trigger) \<in> {Trigger, Timer}" by simp
  then show "timer_covers (wake hz i w)"
  proof (cases rule: handle_scans [of _ hz now pr rt])
    case idle
    with w show ?thesis by (fastforce simp: wake_def i v timer_covers_def)
  next
    case (scans rt')
    with timer_covers_scan [OF w [unfolded v] scans(2)] show ?thesis by (simp add: wake_def i v)
  qed
qed

text \<open>
  C17: as long as a copy is being watched the timer is armed: for two minutes and a second after the copy
  began at the latest, or, where \<open>/proc\<close> could not be read, for thirty seconds after such a failure. So over any
  sequence of wake-ups, early or spurious ones and failing scans among them, the thread never sleeps on a copy.
\<close>

theorem timer_never_lost:
  assumes "fold (wake hz) wakes ([], runtime_new) = (past, rt)" and "tracked (rt_machine rt) p = Some t"
  shows "\<exists>d. deadline (rt_machine rt) = Some d \<and>
    (d \<le> t_start t + from_secs 121 \<or> (\<exists>(_, _, pr) \<in> set past. p_entries pr = None \<and> d \<le> p_now pr + from_secs 30))"
proof -
  have "timer_covers ([], runtime_new)" by (simp add: timer_covers_def runtime_new_def machine_new_def)
  from stuck_machine.inv_run [OF this, of hz wakes] show ?thesis
    using assms by (simp add: timer_covers_def)
qed

section \<open>A healthy copy\<close>

lemma see_copies_others:
  assumes "p \<notin> c_pid ` set cs"
  shows "filter (is_kill p) (fst (foldl (see_copy sc now) (acts, m, before) cs)) = filter (is_kill p) acts \<and>
    tracked (fst (snd (foldl (see_copy sc now) (acts, m, before) cs))) p = tracked m p \<and>
    snd (snd (foldl (see_copy sc now) (acts, m, before) cs)) p = before p"
  using assms
proof (induction cs arbitrary: acts m before)
  case (Cons c cs)
  then have p: "p \<noteq> c_pid c" "p \<notin> c_pid ` set cs" by auto
  show ?case
  proof (cases rule: see_copy_cases [of sc now acts m before c])
    case (stop r b')
    have "b' p = before p" using stop(2) p(1) by simp
    then show ?thesis
      using Cons.IH [OF p(2), of "acts @ [Kill (c_pid c) (now - c_start c) r]" m b'] p(1) stop(1) by simp
  next
    case (keep at u more b')
    have "b' p = before p" using keep(2) p(1) by simp
    moreover have "filter (is_kill p) more = []" using keep(3) by (auto simp: filter_empty_conv list_all_iff)
    ultimately show ?thesis using Cons.IH [OF p(2), of "acts @ more" _ b'] keep(1) p(1) by simp
  qed
qed simp

definition by_age :: "script_copy \<Rightarrow> tracked_copy option \<Rightarrow> bool" where
  "by_age c t \<longleftrightarrow> (\<exists>u. t = Some u \<and> t_start u = c_start c \<and> t_rule u = Age)"

lemma on_scanned_by_age:
  assumes "c \<in> set (copies sc)" and "distinct (map c_pid (copies sc))" and "now - c_start c < MAX_AGE"
    and "by_age c (tracked m (c_pid c)) \<or> tracked m (c_pid c) = None \<and> for_outlook (s_outlook sc) = Age"
  shows "filter (is_kill (c_pid c)) (fst (on_scanned sc now m)) = [] \<and> by_age c (tracked (snd (on_scanned sc now m)) (c_pid c))"
proof -
  obtain xs ys where cs: "copies sc = xs @ c # ys" using assms(1) by (meson split_list)
  have x: "c_pid c \<notin> c_pid ` set xs" and y: "c_pid c \<notin> c_pid ` set ys" using assms(2) cs by auto
  obtain a1 m1 b1 where 1: "foldl (see_copy sc now) ([], machine_new, tracked m) xs = (a1, m1, b1)" by (metis prod_cases3)
  have a1: "filter (is_kill (c_pid c)) a1 = []" "b1 (c_pid c) = tracked m (c_pid c)"
    using see_copies_others [OF x, of sc now "[]" machine_new "tracked m"] 1 by simp_all
  have e: "t_rule (fst (entry_of sc b1 c)) = Age"
    using assms(4) a1(2) by (auto simp: entry_of_def by_age_def Let_def)
  obtain at u more b2 where 2: "see_copy sc now (a1, m1, b1) c =
      (a1 @ more, \<lparr>deadline = Some (sooner (deadline m1) at), tracked = (tracked m1)(c_pid c \<mapsto> u)\<rparr>, b2)"
    and more: "list_all (\<lambda>a. \<forall>p. \<not> is_kill p a) more" and u: "t_start u = c_start c" "t_rule u = Age"
  proof (cases rule: see_copy_cases [of sc now a1 m1 b1 c])
    case (stop r b')
    with e assms(3) show ?thesis by simp
  next
    case (keep at u more b')
    show ?thesis by (rule that [OF keep(1) keep(3) keep(7) keep(8) [OF e]])
  qed
  have "filter (is_kill (c_pid c)) more = []" using more by (auto simp: filter_empty_conv list_all_iff)
  then show ?thesis
    using see_copies_others [OF y, of sc now "a1 @ more" "\<lparr>deadline = Some (sooner (deadline m1) at), tracked = (tracked m1)(c_pid c \<mapsto> u)\<rparr>" b2]
      1 2 a1(1) u by (simp add: on_scanned_def cs by_age_def case_prod_unfold)
qed

fun scan_run :: "(scan \<times> duration) list \<Rightarrow> machine \<Rightarrow> script_action list \<times> machine" where
  "scan_run [] m = ([], m)"
| "scan_run ((sc, now) # ss) m =
     (fst (on_scanned sc now m) @ fst (scan_run ss (snd (on_scanned sc now m))), snd (scan_run ss (snd (on_scanned sc now m))))"

lemma scan_run_by_age:
  assumes "\<forall>(sc, now) \<in> set ss. c \<in> set (copies sc) \<and> distinct (map c_pid (copies sc)) \<and> now - c_start c < MAX_AGE"
    and "by_age c (tracked m (c_pid c))"
  shows "filter (is_kill (c_pid c)) (fst (scan_run ss m)) = []"
  using assms
proof (induction ss m rule: scan_run.induct)
  case (2 sc now ss m)
  then have "filter (is_kill (c_pid c)) (fst (on_scanned sc now m)) = [] \<and> by_age c (tracked (snd (on_scanned sc now m)) (c_pid c))"
    by (intro on_scanned_by_age) auto
  with 2 show ?case by simp
qed simp

text \<open>
  A copy that could finish when it was first seen has its two minutes: whatever the configuration says
  later, no scan stops it before.
\<close>

theorem healthy_copies_have_two_minutes:
  assumes "\<forall>(sc, now) \<in> set ((sc\<^sub>1, now\<^sub>1) # scans).
      c \<in> set (copies sc) \<and> distinct (map c_pid (copies sc)) \<and> now - c_start c < MAX_AGE"
    and "tracked m (c_pid c) = None" and "for_outlook (s_outlook sc\<^sub>1) = Age"
  shows "filter (is_kill (c_pid c)) (fst (scan_run ((sc\<^sub>1, now\<^sub>1) # scans) m)) = []"
proof -
  have "filter (is_kill (c_pid c)) (fst (on_scanned sc\<^sub>1 now\<^sub>1 m)) = [] \<and> by_age c (tracked (snd (on_scanned sc\<^sub>1 now\<^sub>1 m)) (c_pid c))"
    using assms by (intro on_scanned_by_age) auto
  with scan_run_by_age [of scans c "snd (on_scanned sc\<^sub>1 now\<^sub>1 m)"] assms(1) show ?thesis by simp
qed

section \<open>A copy on a router\<close>

definition demo_entry :: proc_entry where
  "demo_entry = \<lparr>e_name = ''7'', e_cmdline = Some (''sh'' @ CHR 0x00 # POST_WIFI_SCRIPT @ [CHR 0x00]),
     e_stat = Some ''7 (sh) R 1 7 7 0 -1 4 0 0 0 0 0 0 0 0 20 0 1 0 100 0''\<rparr>"

definition demo_scan :: "duration \<Rightarrow> proc_read" where
  "demo_scan now = \<lparr>p_now = now, p_entries = Some [demo_entry], p_config = None\<rparr>"

lemma demo_stat: "parse_stat ''7 (sh) R 1 7 7 0 -1 4 0 0 0 0 0 0 0 0 20 0 1 0 100 0'' = Some (1, 100)"
  by (simp add: parse_stat_def split_whitespace_def is_whitespace_def is_ascii_whitespace_def parse_i32_def parse_uint_def
      is_ascii_digit_def less_eq_char_def parse_digits_def digit_value_def)

lemma demo_cmdline: "is_post_wifi_cmdline (''sh'' @ CHR 0x00 # POST_WIFI_SCRIPT @ [CHR 0x00])"
    "\<not> is_hostapd_monitor (''sh'' @ CHR 0x00 # POST_WIFI_SCRIPT @ [CHR 0x00])"
  by (code_simp, code_simp)

lemma demo_pid: "parse_i32 ''7'' = Some 7"
  by (simp add: parse_i32_def parse_uint_def is_ascii_digit_def less_eq_char_def parse_digits_def digit_value_def)

lemma demo_read: "read_entry 100 demo_entry = Some (False, \<lparr>f_pid = 7, f_ppid = 1, f_start = from_secs 1\<rparr>)"
  by (simp add: read_entry_def demo_entry_def demo_stat demo_cmdline demo_pid ticks_to_duration_def Let_def del: append.simps)

lemma demo_copies: "copies (scan_proc 100 [demo_entry]) = [\<lparr>c_pid = 7, c_start = from_secs 1\<rparr>]"
  by (auto simp: scan_proc_def List.map_filter_simps demo_read top_level_def)

lemma demo_scanned: "judged_scan 100 [demo_entry] None = \<lparr>copies = [\<lparr>c_pid = 7, c_start = from_secs 1\<rparr>], monitors = [], s_outlook = None\<rparr>"
  by (auto simp: judged_scan_def scan_proc_def List.map_filter_simps demo_read top_level_def monitors_up_def)

lemmas demo_run = handle_trigger demo_scan_def runtime_scan_Some demo_scanned on_scanned_def see_copy_def entry_of_def
  check_copy_def Let_def machine_new_def runtime_new_def for_outlook_def MAX_AGE_def SLACK_def sooner_def from_secs_def

theorem only_stuck_copies_stopped_witness:
  "\<exists>f. shows_copy 100 demo_entry f \<and> f_pid f = 7 \<and> from_secs 199 = from_secs 200 - f_start f"
proof -
  have "Did (Kill 7 (from_secs 199) Age) \<in> set (fst (handle 100 Trigger 0 (demo_scan (from_secs 200)) runtime_new))"
    by (simp add: demo_run)
  from only_stuck_copies_stopped [OF _ this] show ?thesis by (auto simp: demo_scan_def)
qed

theorem copies_are_followed_witness:
  "\<exists>d. deadline (rt_machine (snd (handle 100 Trigger 0 (demo_scan (from_secs 10)) runtime_new))) = Some d \<and>
     from_secs 10 < d \<and> d \<le> from_secs 1 + from_secs 121"
proof -
  have "\<not> (\<exists>r. Did (Kill 7 (from_secs 10 - from_secs 1) r) \<in> set (fst (handle 100 Trigger 0 (demo_scan (from_secs 10)) runtime_new)))"
    by (simp add: demo_run)
  then show ?thesis
    using copies_are_followed [of "demo_scan (from_secs 10)" "[demo_entry]" "\<lparr>c_pid = 7, c_start = from_secs 1\<rparr>" 100 Trigger runtime_new 0 0]
    by (simp add: demo_copies) (simp add: demo_scan_def)
qed

theorem timer_never_lost_witness:
  "\<exists>d. deadline (rt_machine (snd (wake 100 (False, 0, demo_scan (from_secs 10)) ([], runtime_new)))) = Some d"
proof -
  obtain past rt where run: "fold (wake 100) [(False, 0, demo_scan (from_secs 10))] ([], runtime_new) = (past, rt)" by fastforce
  then have "rt = snd (handle 100 Trigger 0 (demo_scan (from_secs 10)) runtime_new)" by (simp add: wake_def)
  then have "tracked (rt_machine rt) 7 = Some \<lparr>t_start = from_secs 1, t_rule = Age, t_waited = False\<rparr>"
    by (simp add: demo_run)
  from timer_never_lost [OF run this] run show ?thesis by auto
qed

theorem healthy_copies_have_two_minutes_witness:
  "filter (is_kill 7) (fst (scan_run [(judged_scan 100 [demo_entry] None, from_secs 10), (judged_scan 100 [demo_entry] None, from_secs 100)] machine_new)) = []"
  using healthy_copies_have_two_minutes [of "judged_scan 100 [demo_entry] None" "from_secs 10" "[(judged_scan 100 [demo_entry] None, from_secs 100)]"
      "\<lparr>c_pid = 7, c_start = from_secs 1\<rparr>" machine_new]
  by (simp add: demo_scanned machine_new_def for_outlook_def MAX_AGE_def from_secs_def)

end
