(* ===== verification/Tls_Edge.thy ===== *)
theory Tls_Edge
  imports Request_Safety
begin

text \<open>
  The HTTPS listener's translation (\<open>zte-agent/src/httpd/tls.rs\<close>) keeps the two origins of one host
  apart: the app behind it sees only the cookies that can only have been set over HTTPS, and takes a page
  for its own only when that page came over HTTPS from the same host and port.
\<close>

section \<open>Trimming\<close>

lemma trim_space [simp]: "trim (CHR '' '' # s) = trim s"
  by (simp add: trim_def is_whitespace_def is_ascii_whitespace_def)

definition trimmed :: "string \<Rightarrow> bool" where
  "trimmed s \<longleftrightarrow> s = [] \<or> \<not> is_whitespace (hd s) \<and> \<not> is_whitespace (last s)"

lemma trimmed_trim [simp]: "trimmed (trim s)"
proof -
  let ?t = "dropWhile is_whitespace s"
  have "trim s = [] \<or> \<not> is_whitespace (last (trim s))"
    using hd_dropWhile [of is_whitespace "rev ?t"] by (auto simp: trim_def last_rev)
  moreover have "trim s = [] \<or> hd (trim s) = hd ?t"
  proof -
    have "trim s @ rev (takeWhile is_whitespace (rev ?t)) = ?t"
      by (metis trim_def rev_append rev_rev_ident takeWhile_dropWhile_id)
    then show ?thesis by (metis hd_append2)
  qed
  moreover have "?t = [] \<or> \<not> is_whitespace (hd ?t)" using hd_dropWhile [of is_whitespace s] by auto
  moreover have "trim s = []" if "?t = []" unfolding trim_def that by simp
  ultimately show ?thesis unfolding trimmed_def by metis
qed

lemma trim_trimmed [simp]: "trimmed s \<Longrightarrow> trim s = s"
  unfolding trimmed_def by (rule trim_fixed)

lemma trim_left: "s = [] \<or> \<not> is_whitespace (hd s) \<Longrightarrow> \<exists>w. s = trim s @ w \<and> list_all is_whitespace w"
proof -
  assume "s = [] \<or> \<not> is_whitespace (hd s)"
  then have "dropWhile is_whitespace s = s" by (cases s) auto
  then have "s = trim s @ rev (takeWhile is_whitespace (rev s))"
    by (metis trim_def rev_append rev_rev_ident takeWhile_dropWhile_id)
  moreover have "list_all is_whitespace (rev (takeWhile is_whitespace (rev s)))"
    by (auto simp: list_all_iff dest: set_takeWhileD)
  ultimately show ?thesis by blast
qed

lemma trim_append_spaces: "trimmed s \<Longrightarrow> list_all is_whitespace w \<Longrightarrow> trim (s @ w) = s"
proof -
  assume s: "trimmed s" and w: "list_all is_whitespace w"
  show "trim (s @ w) = s"
  proof (cases "s = []")
    case True
    have d: "dropWhile is_whitespace w = []" using w by (simp add: dropWhile_eq_Nil_conv list_all_iff)
    have "trim w = []" by (simp only: trim_def d) simp
    with True show ?thesis by simp
  next
    case False
    with s have h: "\<not> is_whitespace (hd s)" "\<not> is_whitespace (last s)" by (simp_all add: trimmed_def)
    with False have "dropWhile is_whitespace (s @ w) = s @ w" by (cases s) auto
    moreover have "dropWhile is_whitespace (rev w @ rev s) = dropWhile is_whitespace (rev s)"
      using w by (intro dropWhile_append2) (simp add: list_all_iff)
    moreover have "dropWhile is_whitespace (rev s) = rev s" using False h(2) by (cases s rule: rev_cases) auto
    ultimately show ?thesis by (simp add: trim_def)
  qed
qed

section \<open>Cookies\<close>

lemma split_join_cookies:
  "ps \<noteq> [] \<Longrightarrow> \<forall>p \<in> set ps. CHR '';'' \<notin> set p \<Longrightarrow>
     split_char CHR '';'' (join ''; '' ps) = hd ps # map (Cons CHR '' '') (tl ps)"
proof (induction ps)
  case (Cons p ps)
  show ?case
  proof (cases "ps = []")
    case True
    with Cons show ?thesis by (simp add: split_char_no)
  next
    case False
    have "split_char CHR '';'' (join ''; '' (p # ps)) = p # split_char CHR '';'' (CHR '' '' # join ''; '' ps)"
      using Cons.prems False split_char_append [of "CHR '';''" p "CHR '' '' # join ''; '' ps"] by (simp add: join_Cons)
    also have "split_char CHR '';'' (CHR '' '' # join ''; '' ps) = map (Cons CHR '' '') ps"
      using Cons False by (cases ps) auto
    finally show ?thesis by simp
  qed
qed simp

definition host_app :: string where "host_app = ''__Host-zte_ui_''"

lemma prefixes: "COOKIE_PREFIX @ APP = host_app" "CHR ''='' \<notin> set host_app" "CHR ''='' \<notin> set APP" "CHR ''='' \<notin> set COOKIE_PREFIX"
  "\<not> is_whitespace (hd COOKIE_PREFIX)" "APP \<noteq> []" "COOKIE_PREFIX \<noteq> []" "\<not> is_whitespace (hd APP)"
  by code_simp+

lemma split_once_prefix:
  assumes "split_once CHR ''='' t = Some (a, b)" and "prefix p t" and "CHR ''='' \<notin> set p"
  shows "prefix p a"
proof -
  have t: "t = a @ CHR ''='' # b" using split_once_SomeD [OF assms(1)] by simp
  show ?thesis
  proof (rule ccontr)
    assume "\<not> prefix p a"
    with assms(2) t have "prefix (a @ [CHR ''='']) p"
      by (metis append_Cons append_Nil append_assoc prefix_order.trans prefixI prefix_same_cases not_Cons_self2 same_prefix_prefix prefix_append prefix_snoc)
    with assms(3) show False by (auto simp: prefix_def)
  qed
qed

text \<open>
  A cookie as the listener passes it on and as it came, with and without the prefix.
\<close>

lemma own_cookie_pair:
  "Option.bind (own_cookie r) cookie_pair =
     Option.bind (cookie_pair r) (\<lambda>(k, v). map_option (\<lambda>k. (k, v)) (if prefix host_app k then strip_prefix COOKIE_PREFIX k else None))"
proof (cases "split_once CHR ''='' (trim r)")
  case None
  have "cookie_pair p = None" if "own_cookie r = Some p" for p
  proof -
    have "trim r = COOKIE_PREFIX @ p" using that strip_prefix_SomeD by (auto simp: own_cookie_def split: option.splits if_splits)
    with None have "CHR ''='' \<notin> set p" by (auto simp: split_once_def split: if_splits)
    then have "CHR ''='' \<notin> set (trim p)" using in_set_trim by blast
    then show ?thesis by (simp add: cookie_pair_def split_once_def)
  qed
  with None show ?thesis by (cases "own_cookie r") (simp_all add: cookie_pair_def)
next
  case (Some ab)
  obtain a b where ab: "ab = (a, b)" by force
  have t: "trim r = a @ CHR ''='' # b" "CHR ''='' \<notin> set a" using split_once_SomeD [OF Some [unfolded ab]] by simp_all
  have pair: "cookie_pair r = Some (trim a, trim b)" using Some ab by (simp add: cookie_pair_def)
  show ?thesis
  proof (cases "prefix host_app a")
    case False
    have "\<not> prefix host_app (trim r)" using split_once_prefix [OF Some [unfolded ab] _ prefixes(2)] False by blast
    then have "own_cookie r = None"
      by (auto simp: own_cookie_def strip_prefix_def prefixes(1) [symmetric] split: option.split)
        (metis append_eq_conv_conj prefix_def same_prefix_prefix)
    moreover have "\<not> prefix host_app (trim a)"
    proof (cases "a = [] \<or> \<not> is_whitespace (hd a)")
      case True
      from trim_left [OF this] False show ?thesis by (metis prefix_order.trans prefixI)
    next
      case ws: False
      with t(1) have "is_whitespace (hd (trim r))" "trim r \<noteq> []" by auto
      with trimmed_trim [of r] show ?thesis by (simp add: trimmed_def)
    qed
    ultimately show ?thesis by (simp add: pair)
  next
    case True
    then obtain n where a: "a = COOKIE_PREFIX @ APP @ n" by (auto simp: prefix_def prefixes(1) [symmetric])
    define p where "p = APP @ n @ CHR ''='' # b"
    have tr: "trim r = COOKIE_PREFIX @ p" by (simp add: t a p_def)
    then have own: "own_cookie r = Some p" by (simp add: own_cookie_def p_def)
    have "trimmed p"
      using trimmed_trim [of r] tr prefixes by (auto simp: trimmed_def p_def)
    moreover have "split_once CHR ''='' p = Some (APP @ n, b)"
      using split_once_append [of "CHR ''=''" "APP @ n" b] t(2) by (simp add: a p_def)
    ultimately have cp: "cookie_pair p = Some (trim (APP @ n), trim b)" by (simp add: cookie_pair_def)
    obtain w where w: "APP @ n = trim (APP @ n) @ w" "list_all is_whitespace w"
      using trim_left [of "APP @ n"] prefixes by auto
    have "\<not> is_whitespace (hd (trim (APP @ n)))" and ne: "trim (APP @ n) \<noteq> []"
    proof -
      show "trim (APP @ n) \<noteq> []"
      proof
        assume "trim (APP @ n) = []"
        with w have "list_all is_whitespace (APP @ n)" by simp
        then show False using prefixes(6,8) hd_in_set [of APP] by (auto simp: list_all_iff)
      qed
      then show "\<not> is_whitespace (hd (trim (APP @ n)))"
        using trimmed_trim [of "APP @ n"] by (simp add: trimmed_def)
    qed
    then have "trimmed (COOKIE_PREFIX @ trim (APP @ n))"
      using prefixes trimmed_trim [of "APP @ n"] by (auto simp: trimmed_def)
    then have "trim a = COOKIE_PREFIX @ trim (APP @ n)"
      using trim_append_spaces [OF _ w(2), of "COOKIE_PREFIX @ trim (APP @ n)"] w(1) a by (metis append_assoc)
    moreover have "prefix APP (trim (APP @ n))"
    proof -
      have plain: "list_all (\<lambda>c. \<not> is_whitespace c) APP" by code_simp
      have "prefix APP (trim (APP @ n)) \<or> prefix (trim (APP @ n)) APP"
        using w(1) by (metis prefixI prefix_same_cases)
      then show ?thesis
      proof
        assume "prefix (trim (APP @ n)) APP"
        then obtain r where r: "APP = trim (APP @ n) @ r" by (auto simp: prefix_def)
        then have "r @ n = w" using w(1) by (metis append_assoc same_append_eq)
        then have "list_all is_whitespace r" using w(2) by auto
        moreover have "list_all (\<lambda>c. \<not> is_whitespace c) r" using plain by (subst (asm) r) simp
        ultimately have "r = []" by (cases r) auto
        with r show ?thesis by simp
      qed
    qed
    ultimately have "prefix host_app (trim a)" "strip_prefix COOKIE_PREFIX (trim a) = Some (trim (APP @ n))"
      by (simp_all add: prefixes(1) [symmetric])
    then show ?thesis by (simp add: own cp pair)
  qed
qed

definition raw_cookies :: "headers \<Rightarrow> string list" where
  "raw_cookies h = concat (map (split_char CHR '';'') (List.map_filter to_str (get_all h ''cookie'')))"

lemma get_all_simps:
  "get_all (a @ b) n = get_all a n @ get_all b n" "get_all [] n = []"
  "get_all [(k, v)] n = (if k = n then [v] else [])"
  "get_all (remove_header m h) n = (if m = n then [] else get_all h n)"
  by (auto simp: get_all_def remove_header_def intro: arg_cong [where f = "map snd"] filter_cong)

lemma get_all_map_origin:
  "get_all (map_origin m h) n =
     (if m = n then (case get_all h n of [] \<Rightarrow> []
        | v # _ \<Rightarrow> [case Option.bind (to_str v) (strip_prefix ''https://'') of Some rest \<Rightarrow> ''http://'' @ rest | None \<Rightarrow> ''null''])
      else get_all h n)"
  by (simp add: map_origin_def get_all_simps split: list.split)

lemma get_all_inbound:
  "get_all (inbound h) ''cookie'' = (if own_cookies h = [] then [] else [join ''; '' (own_cookies h)])"
  "get_all (inbound h) ''origin'' = (case get_all h ''origin'' of [] \<Rightarrow> []
     | v # _ \<Rightarrow> [case Option.bind (to_str v) (strip_prefix ''https://'') of Some rest \<Rightarrow> ''http://'' @ rest | None \<Rightarrow> ''null''])"
  "get_all (inbound h) ''host'' = get_all h ''host''"
  by (simp_all add: inbound_def Let_def get_all_map_origin get_all_simps)

lemma raw_cookie_chars: "r \<in> set (raw_cookies h) \<Longrightarrow> CHR '';'' \<notin> set r \<and> list_all visible r"
proof -
  assume "r \<in> set (raw_cookies h)"
  then obtain v where v: "list_all visible v" "r \<in> set (split_char CHR '';'' v)"
    by (auto simp: raw_cookies_def in_map_filter to_str_def split: if_splits)
  obtain p t where "v = p @ r @ t" using split_char_infix [OF v(2)] by blast
  with v(1) split_char_notin [OF v(2)] show ?thesis by simp
qed

lemma own_cookie_chars: "p \<in> set (own_cookies h) \<Longrightarrow> CHR '';'' \<notin> set p \<and> list_all visible p"
proof -
  assume "p \<in> set (own_cookies h)"
  then obtain r where r: "r \<in> set (raw_cookies h)" "own_cookie r = Some p"
    by (auto simp: own_cookies_def raw_cookies_def in_map_filter)
  then have "trim r = COOKIE_PREFIX @ p"
    using strip_prefix_SomeD by (auto simp: own_cookie_def split: option.splits if_splits)
  then have "set p \<subseteq> set r" using in_set_trim [of _ r] by auto
  with raw_cookie_chars [OF r(1)] show ?thesis by (auto simp: list_all_iff)
qed

lemma map_filter_bind: "List.map_filter g (List.map_filter f xs) = List.map_filter (\<lambda>x. Option.bind (f x) g) xs"
  by (induction xs) (auto simp: List.map_filter_simps split: option.split)

lemma cookie_pairs_inbound: "cookie_pairs (inbound h) = List.map_filter cookie_pair (own_cookies h)"
proof (cases "own_cookies h = []")
  case True
  then show ?thesis by (simp add: cookie_pairs_def get_all_inbound List.map_filter_simps)
next
  case False
  have "list_all visible (join ''; '' ps)" if "\<forall>p \<in> set ps. list_all visible p" for ps
  proof -
    have "visible CHR '';''" "visible CHR '' ''" by code_simp+
    with that show ?thesis by (induction "''; ''" ps rule: join.induct) auto
  qed
  with False own_cookie_chars have "to_str (join ''; '' (own_cookies h)) = Some (join ''; '' (own_cookies h))"
    by (simp add: to_str_def)
  moreover have "split_char CHR '';'' (join ''; '' (own_cookies h)) = hd (own_cookies h) # map (Cons CHR '' '') (tl (own_cookies h))"
    using False own_cookie_chars by (intro split_join_cookies) auto
  ultimately have "cookie_pairs (inbound h) = List.map_filter cookie_pair (hd (own_cookies h) # map (Cons CHR '' '') (tl (own_cookies h)))"
    using False by (simp add: cookie_pairs_def get_all_inbound List.map_filter_simps)
  also have "\<dots> = List.map_filter cookie_pair (own_cookies h)"
  proof -
    have "cookie_pair (CHR '' '' # p) = cookie_pair p" for p by (simp add: cookie_pair_def)
    then have "List.map_filter cookie_pair (map (Cons CHR '' '') ps) = List.map_filter cookie_pair ps" for ps
      by (induction ps) (simp_all add: List.map_filter_simps split: option.split)
    with False show ?thesis by (cases "own_cookies h") (simp_all add: List.map_filter_simps split: option.split)
  qed
  finally show ?thesis .
qed

lemma cookies_inbound: "cookies (inbound h) (APP @ n) = cookies h (COOKIE_PREFIX @ APP @ n)"
proof -
  let ?f = "\<lambda>(k, v). map_option (\<lambda>k. (k, v)) (if prefix host_app k then strip_prefix COOKIE_PREFIX k else None)"
  have "cookie_pairs (inbound h) = List.map_filter ?f (cookie_pairs h)"
    by (subst cookie_pairs_inbound) (simp only: own_cookies_def map_filter_bind own_cookie_pair cookie_pairs_def)
  moreover have "map snd (filter (\<lambda>kv. fst kv = APP @ n) (List.map_filter ?f ps)) =
      map snd (filter (\<lambda>kv. fst kv = COOKIE_PREFIX @ APP @ n) ps)" for ps
  proof (induction ps)
    case (Cons kv ps)
    obtain k v where kv: "kv = (k, v)" by force
    have "prefix host_app k \<and> strip_prefix COOKIE_PREFIX k = Some (APP @ n) \<longleftrightarrow> k = COOKIE_PREFIX @ APP @ n"
      using strip_prefix_SomeD [of COOKIE_PREFIX k] by (auto simp: prefixes(1) [symmetric])
    with Cons kv show ?case
      by (cases "prefix host_app k"; cases "strip_prefix COOKIE_PREFIX k") (auto simp: List.map_filter_simps)
  qed (simp add: List.map_filter_simps)
  ultimately show ?thesis by (simp add: cookies_def)
qed

section \<open>The cookies set\<close>

lemma trimmed_join: "ps \<noteq> [] \<Longrightarrow> \<forall>p \<in> set ps. CHR '';'' \<notin> set p \<and> trimmed p \<Longrightarrow>
    map trim (split_char CHR '';'' (join ''; '' ps)) = ps"
  by (cases ps) (auto simp: split_join_cookies intro!: map_idI)

lemma secure_attribute_cases:
  assumes "secure_attribute p = Some a"
  shows "a = ''Path=/'' \<or> a = p \<and> \<not> prefix ''path='' (to_ascii_lowercase p) \<and> \<not> prefix ''domain='' (to_ascii_lowercase p)"
  using assms by (auto simp: secure_attribute_def Let_def split: if_splits)

lemma attribute_plain:
  "CHR '';'' \<notin> set ''Path=/''" "trimmed ''Path=/''" "CHR '';'' \<notin> set ''Secure''" "trimmed ''Secure''"
  "prefix ''path='' (to_ascii_lowercase ''Path=/'')" "\<not> prefix ''domain='' (to_ascii_lowercase ''Path=/'')"
  "\<not> prefix ''path='' (to_ascii_lowercase ''Secure'')" "\<not> prefix ''domain='' (to_ascii_lowercase ''Secure'')"
  "CHR '';'' \<notin> set COOKIE_PREFIX" "\<not> is_whitespace (last COOKIE_PREFIX)"
  by code_simp+

definition cookie_parts :: "string \<Rightarrow> string list" where
  "cookie_parts s = map trim (split_char CHR '';'' s)"

lemma cookie_parts_props: "cookie_parts s \<noteq> []" "p \<in> set (cookie_parts s) \<Longrightarrow> trimmed p \<and> CHR '';'' \<notin> set p"
  using split_char_notin in_set_trim by (fastforce simp: cookie_parts_def)+

text \<open>The attributes a cookie keeps on its way out.\<close>

definition kept_attribute :: "string \<Rightarrow> bool" where
  "kept_attribute a \<longleftrightarrow> a \<noteq> [] \<and> \<not> prefix ''path='' (to_ascii_lowercase a) \<and> \<not> prefix ''domain='' (to_ascii_lowercase a) \<and>
     to_ascii_lowercase a \<noteq> ''secure''"

lemma kept_plain: "\<not> kept_attribute ''Path=/''" "\<not> kept_attribute ''Secure''"
  by code_simp+

lemma secure_cookie_parts:
  "\<exists>attrs. cookie_parts (secure_cookie s) = (COOKIE_PREFIX @ hd (cookie_parts s)) # attrs @ [''Secure''] \<and> ''Path=/'' \<in> set attrs \<and>
     set attrs \<subseteq> insert ''Path=/'' (set (List.map_filter secure_attribute (tl (cookie_parts s)))) \<and>
     filter kept_attribute attrs = filter kept_attribute (List.map_filter secure_attribute (tl (cookie_parts s)))"
proof -
  define ps where "ps = cookie_parts s"
  define attrs where "attrs = List.map_filter secure_attribute (tl ps)"
  define full where "full = (if ''Path=/'' \<in> set attrs then attrs else attrs @ [''Path=/''])"
  have first: "COOKIE_PREFIX @ hd ps \<noteq> ''Path=/''" by (simp add: COOKIE_PREFIX_def)
  have "ps \<noteq> []" by (simp add: ps_def cookie_parts_props)
  then have hd: "trimmed (hd ps) \<and> CHR '';'' \<notin> set (hd ps)" using cookie_parts_props(2) [of "hd ps" s] by (simp add: ps_def)
  then have hd': "trimmed (COOKIE_PREFIX @ hd ps)" "CHR '';'' \<notin> set (COOKIE_PREFIX @ hd ps)"
    using prefixes(5,7) attribute_plain(9,10) by (cases "hd ps = []"; auto simp: trimmed_def)+
  have "trimmed a \<and> CHR '';'' \<notin> set a" if a: "a \<in> set attrs" for a
  proof -
    obtain p where p: "p \<in> set (tl ps)" "secure_attribute p = Some a"
      using a by (auto simp: attrs_def in_map_filter)
    from p(1) have "p \<in> set ps" using \<open>ps \<noteq> []\<close> by (rule list.set_sel(2) [rotated])
    with secure_attribute_cases [OF p(2)] cookie_parts_props(2) [of p s] attribute_plain show ?thesis by (auto simp: ps_def)
  qed
  then have ok: "\<forall>a \<in> set full. trimmed a \<and> CHR '';'' \<notin> set a" using attribute_plain(1,2) by (auto simp: full_def)
  have "secure_cookie s = join ''; '' (((COOKIE_PREFIX @ hd ps) # full) @ [''Secure''])"
    using first by (auto simp: secure_cookie_def ps_def cookie_parts_def full_def attrs_def Let_def)
  moreover have "map trim (split_char CHR '';'' (join ''; '' (((COOKIE_PREFIX @ hd ps) # full) @ [''Secure'']))) =
      ((COOKIE_PREFIX @ hd ps) # full) @ [''Secure'']"
    using ok hd' attribute_plain(3,4) by (intro trimmed_join) auto
  ultimately have "cookie_parts (secure_cookie s) = (COOKIE_PREFIX @ hd ps) # full @ [''Secure'']"
    by (simp add: cookie_parts_def)
  moreover have "''Path=/'' \<in> set full" "set full \<subseteq> insert ''Path=/'' (set attrs)" "filter kept_attribute full = filter kept_attribute attrs"
    using kept_plain(1) by (auto simp: full_def)
  ultimately show ?thesis unfolding ps_def attrs_def by blast
qed

text \<open>The \<open>__Host-\<close> cookie \<open>w\<close> that stands for the cookie \<open>s\<close>, as a browser demands one to be.\<close>

definition host_cookie_of :: "string \<Rightarrow> string \<Rightarrow> bool" where
  "host_cookie_of s w \<longleftrightarrow>
     (let attrs = tl (cookie_parts w) in
       hd (cookie_parts w) = ''__Host-'' @ hd (cookie_parts s) \<and> ''Secure'' \<in> set attrs \<and>
       set (filter (\<lambda>a. prefix ''path='' (to_ascii_lowercase a)) attrs) = {''Path=/''} \<and>
       filter (\<lambda>a. prefix ''domain='' (to_ascii_lowercase a)) attrs = [] \<and>
       filter kept_attribute attrs = filter kept_attribute (tl (cookie_parts s)))"

lemma filter_secure_attribute: "filter kept_attribute (List.map_filter secure_attribute ps) = filter kept_attribute ps"
proof (induction ps)
  case (Cons p ps)
  show ?case
  proof (cases "kept_attribute p")
    case True
    then have "secure_attribute p = Some p" by (simp add: kept_attribute_def secure_attribute_def Let_def)
    with True Cons show ?thesis by simp
  next
    case False
    then have "secure_attribute p = None \<or> secure_attribute p = Some ''Path=/''"
      by (auto simp: kept_attribute_def secure_attribute_def Let_def)
    with False Cons kept_plain show ?thesis by auto
  qed
qed simp

lemma secure_cookie_host: "host_cookie_of s (secure_cookie s)"
proof -
  obtain attrs where attrs: "cookie_parts (secure_cookie s) = (COOKIE_PREFIX @ hd (cookie_parts s)) # attrs @ [''Secure'']"
    "''Path=/'' \<in> set attrs" "set attrs \<subseteq> insert ''Path=/'' (set (List.map_filter secure_attribute (tl (cookie_parts s))))"
    "filter kept_attribute attrs = filter kept_attribute (List.map_filter secure_attribute (tl (cookie_parts s)))"
    using secure_cookie_parts by blast
  have "a = ''Path=/'' \<or> \<not> prefix ''path='' (to_ascii_lowercase a) \<and> \<not> prefix ''domain='' (to_ascii_lowercase a)"
    if "a \<in> set attrs" for a
    using that attrs(3) secure_attribute_cases by (fastforce simp: in_map_filter)
  with attrs(2) attribute_plain have "set (filter (\<lambda>a. prefix ''path='' (to_ascii_lowercase a)) (attrs @ [''Secure''])) = {''Path=/''}"
    "filter (\<lambda>a. prefix ''domain='' (to_ascii_lowercase a)) (attrs @ [''Secure'']) = []"
    by (auto simp: filter_empty_conv)
  moreover have t: "tl (cookie_parts (secure_cookie s)) = attrs @ [''Secure'']"
    "hd (cookie_parts (secure_cookie s)) = ''__Host-'' @ hd (cookie_parts s)"
    by (simp_all add: attrs(1) COOKIE_PREFIX_def)
  moreover have "''Secure'' \<in> set (attrs @ [''Secure''])" unfolding set_append by simp
  moreover have "filter kept_attribute (attrs @ [''Secure'']) = filter kept_attribute (tl (cookie_parts s))"
    using kept_plain(2) attrs(4) by (simp add: filter_secure_attribute)
  ultimately show ?thesis unfolding host_cookie_of_def Let_def t by blast
qed

definition header_char :: "char \<Rightarrow> bool" where "header_char c \<longleftrightarrow> CHR '' '' \<le> c \<and> c \<noteq> CHR 0x7F \<or> c = CHR 0x09"

lemma plain_constants: "list_all header_char ''; ''" "list_all header_char ''Path=/''" "list_all header_char ''Secure''"
    "list_all header_char COOKIE_PREFIX"
  by code_simp+

lemma plain_join: "list_all header_char sep \<Longrightarrow> list_all (list_all header_char) ps \<Longrightarrow> list_all header_char (join sep ps)"
  by (induction sep ps rule: join.induct) auto

lemma plain_parts: "list_all header_char s \<Longrightarrow> list_all (list_all header_char) (cookie_parts s)"
  unfolding list_all_iff cookie_parts_def
  by (auto dest!: in_set_trim split_char_infix)

lemma plain_attributes:
  "list_all (list_all header_char) ps \<Longrightarrow> list_all (list_all header_char) (List.map_filter secure_attribute ps)"
proof (induction ps)
  case (Cons p ps)
  then show ?case
    using secure_attribute_cases [of p] plain_constants by (cases "secure_attribute p") auto
qed simp

lemma secure_cookie_ok:
  assumes "list_all visible s"
  shows "header_value_ok (secure_cookie s)"
proof -
  have "header_char c" if "visible c" for c using that by (auto simp: visible_def header_char_def)
  with assms have parts: "list_all (list_all header_char) (cookie_parts s)" by (intro plain_parts) (simp add: list_all_iff)
  obtain p ps where ps: "cookie_parts s = p # ps" using cookie_parts_props(1) by (cases "cookie_parts s") auto
  let ?parts = "(COOKIE_PREFIX @ p) # List.map_filter secure_attribute ps"
  have ok: "list_all (list_all header_char) ?parts" using parts plain_attributes [of ps] plain_constants by (simp add: ps)
  have "secure_cookie s = join ''; '' ((if ''Path=/'' \<in> set ?parts then ?parts else ?parts @ [''Path=/'']) @ [''Secure''])"
    unfolding secure_cookie_def Let_def cookie_parts_def [symmetric] ps list.sel ..
  moreover have "list_all (list_all header_char) ((if ''Path=/'' \<in> set ?parts then ?parts else ?parts @ [''Path=/'']) @ [''Secure''])"
    using ok plain_constants by (cases "''Path=/'' \<in> set ?parts") (simp_all only: if_True if_False list_all_append list.pred_inject simp_thms)
  ultimately have "list_all header_char (secure_cookie s)" using plain_join [OF plain_constants(1)] by (simp only:)
  then show ?thesis unfolding header_value_ok_def header_char_def [abs_def] .
qed

lemma outbound_value_is:
  "\<exists>w. outbound_value v = Some w \<and>
     (case to_str v of Some s \<Rightarrow> if prefix ''zte_ui_'' s then host_cookie_of s w else w = v | None \<Rightarrow> w = v)"
  using secure_cookie_ok [of v] secure_cookie_host [of v]
  by (auto simp: outbound_value_def APP_def to_str_def)

lemma outbound_values:
  "list_all2 (\<lambda>v w. case to_str v of Some s \<Rightarrow> if prefix ''zte_ui_'' s then host_cookie_of s w else w = v | None \<Rightarrow> w = v)
     vs (List.map_filter outbound_value vs)"
proof (induction vs)
  case (Cons v vs)
  obtain w where w: "outbound_value v = Some w"
    "case to_str v of Some s \<Rightarrow> if prefix ''zte_ui_'' s then host_cookie_of s w else w = v | None \<Rightarrow> w = v"
    using outbound_value_is by blast
  from Cons w(2) show ?case by (simp add: w(1))
qed simp

text \<open>
  C7: the two origins of a host do not share cookies: of a request over HTTPS the app is shown exactly
  the values the browser sent for the \<open>__Host-\<close> cookie of each name, so none that the plain origin set;
  and of a response over HTTPS every cookie of the app leaves, in its order, with that prefix, \<open>Secure\<close>, no path
  but \<open>/\<close> and no domain, which is what a browser demands before it stores a cookie of such a name, and its other
  attributes as they were; other cookies and other headers leave unchanged.
\<close>

theorem tls_cookies_kept_apart:
  "cookies (inbound h) (''zte_ui_'' @ n) = cookies h (''__Host-zte_ui_'' @ n) \<and>
   list_all2 (\<lambda>v w. case to_str v of Some s \<Rightarrow> if prefix ''zte_ui_'' s then host_cookie_of s w else w = v | None \<Rightarrow> w = v)
     (get_all r ''set-cookie'') (get_all (outbound r) ''set-cookie'') \<and>
   filter (\<lambda>kv. fst kv \<noteq> ''set-cookie'') (outbound r) = filter (\<lambda>kv. fst kv \<noteq> ''set-cookie'') r"
proof (intro conjI)
  show "cookies (inbound h) (''zte_ui_'' @ n) = cookies h (''__Host-zte_ui_'' @ n)"
    using cookies_inbound [of h n] by (simp add: APP_def COOKIE_PREFIX_def)
  have "get_all (map (Pair k) vs) k = vs" for k :: string and vs :: "string list"
    by (simp add: get_all_def filter_map comp_def)
  then have "get_all (outbound r) ''set-cookie'' = List.map_filter outbound_value (get_all r ''set-cookie'')"
    by (simp add: outbound_def get_all_simps)
  then show "list_all2 (\<lambda>v w. case to_str v of Some s \<Rightarrow> if prefix ''zte_ui_'' s then host_cookie_of s w else w = v | None \<Rightarrow> w = v)
     (get_all r ''set-cookie'') (get_all (outbound r) ''set-cookie'')"
    by (simp only: outbound_values)
  show "filter (\<lambda>kv. fst kv \<noteq> ''set-cookie'') (outbound r) = filter (\<lambda>kv. fst kv \<noteq> ''set-cookie'') r"
    by (simp add: outbound_def remove_header_def filter_map comp_def)
qed

section \<open>Origins over HTTPS\<close>

definition mapped_origin :: "string option \<Rightarrow> string" where
  "mapped_origin v = (case Option.bind v (strip_prefix ''https://'') of Some rest \<Rightarrow> ''http://'' @ rest | None \<Rightarrow> ''null'')"

lemma mapped_origin_visible: "to_str (mapped_origin (to_str v)) = Some (mapped_origin (to_str v))"
proof (cases "Option.bind (to_str v) (strip_prefix ''https://'')")
  case None
  have "to_str ''null'' = Some ''null''" by code_simp
  with None show ?thesis by (simp only: mapped_origin_def option.case)
next
  case (Some rest)
  then obtain u where u: "to_str v = Some u" "strip_prefix ''https://'' u = Some rest"
    unfolding Option.bind_eq_Some_conv by blast
  have "list_all visible (''https://'' @ rest)"
    using u(1) strip_prefix_SomeD [OF u(2)] by (cases "list_all visible v") (simp_all only: to_str_def if_True if_False option.inject option.distinct)
  moreover have "list_all visible ''http://''" by code_simp
  ultimately have "list_all visible (''http://'' @ rest)" unfolding list_all_append by blast
  with Some show ?thesis by (simp only: mapped_origin_def option.case to_str_def if_True)
qed

lemma header_of_inbound:
  "header_of (inbound h) ''host'' = header_of h ''host''"
  "header_of (inbound h) ''origin'' = (if get_all h ''origin'' = [] then None else Some (mapped_origin (header_of h ''origin'')))"
  using mapped_origin_visible
  by (simp_all add: header_of_def get_all_inbound flip: mapped_origin_def split: list.split)

text \<open>
  Over HTTPS a page is of the same origin exactly when it came over HTTPS from the host and port of
  the request: a page of the plain origin of the same host, or one whose origin is \<open>null\<close> or malformed, is
  a foreign one; only a request without \<open>Origin\<close> counts as having none.
\<close>

theorem tls_same_origin:
  "(origin_verdict (req_headers_of (inbound h)) = Same \<longleftrightarrow>
     (\<exists>auth hv a p q. header_of h ''origin'' = Some (''https://'' @ auth) \<and> header_of h ''host'' = Some hv \<and>
       parse_authority auth = Some (a, p) \<and> parse_authority hv = Some (a, q) \<and> port_or_80 p = port_or_80 q)) \<and>
   (origin_verdict (req_headers_of (inbound h)) = Absent \<longleftrightarrow> get_all h ''origin'' = [])"
proof (cases "get_all h ''origin'' = []")
  case True
  then have "header_of h ''origin'' = None" by (simp add: header_of_def)
  with True show ?thesis by (simp add: origin_verdict_def req_headers_of_def header_of_inbound)
next
  case False
  show ?thesis
  proof (cases "Option.bind (header_of h ''origin'') (strip_prefix ''https://'')")
    case None
    have "header_of h ''origin'' \<noteq> Some (''https://'' @ a)" for a
      using None strip_prefix_append [of "''https://''" a] by (auto simp del: append.simps strip_prefix_append)
    moreover have "split_scheme (mapped_origin (header_of h ''origin'')) = None"
    proof -
      have "split_scheme ''null'' = None" by code_simp
      with None show ?thesis by (simp only: mapped_origin_def option.case)
    qed
    then have "origin_verdict (req_headers_of (inbound h)) = Cross"
      using False by (simp add: origin_verdict_def req_headers_of_def header_of_inbound)
    ultimately show ?thesis using False by (simp del: append.simps)
  next
    case (Some auth)
    then have o1: "header_of h ''origin'' = Some (''https://'' @ auth)"
      by (auto simp: Option.bind_eq_Some_conv dest: strip_prefix_SomeD)
    have "split_scheme (''http://'' @ auth) = Some (''http'', auth)" by (simp add: strip_prefix_def)
    then have "split_scheme (mapped_origin (header_of h ''origin'')) = Some (''http'', auth)"
      using Some by (simp only: mapped_origin_def option.case)
    with False have "origin_verdict (req_headers_of (inbound h)) = same_as_host ''http'' auth (header_of h ''host'')"
      by (simp add: origin_verdict_def req_headers_of_def header_of_inbound)
    moreover have "eq_ignore_ascii_case ''http'' ''http''" by (simp add: eq_ignore_ascii_case_def)
    ultimately show ?thesis
      using False o1 same_as_host_present [of "''http''" auth "header_of h ''host''"]
      by (auto simp: same_as_host_Same)
  qed
qed

end
