(* ===== verification/Ubus_Cache.thy ===== *)
theory Ubus_Cache
  imports Boot_Clock
begin

text \<open>
  The single-flight cache of \<open>ubus\<close> reads (\<open>zte-agent/src/cache.rs\<close>): a slot per key with its value, the window in which it
  is kept short and its generation, and the gate that lets one fetch per key run. A reader goes through
  \<open>get_or_fetch\<close> in the steps between which other threads run: it looks, it gets the gate, it looks again, its fetch ends. A value is a JSON
  value, \<open>None\<close> for \<open>Null\<close>; \<open>Instant\<close> is read as nanoseconds.
\<close>

section \<open>A slot\<close>

type_synonym cache_key = string

definition CLIENTS :: cache_key where "CLIENTS = ''network/clients''"
definition WAN :: cache_key where "WAN = ''network/wan''"
definition WAN6 :: cache_key where "WAN6 = ''network/wan6''"
definition BATTERY_INFO :: cache_key where "BATTERY_INFO = ''device/battery-info''"
definition CHARGER :: cache_key where "CHARGER = ''device/charger''"
definition MODEM_DATA :: cache_key where "MODEM_DATA = ''modem/data''"
definition SIM_INFO :: cache_key where "SIM_INFO = ''sim/info''"
definition SETTLE_WINDOW :: duration where "SETTLE_WINDOW = from_secs 20"
definition SETTLE_TTL :: duration where "SETTLE_TTL = from_secs 1"

record 'v slot =
  s_value :: "(duration \<times> 'v option) option"
  settle_until :: "duration option"
  generation :: u64

definition slot_new :: "'v slot" where
  "slot_new = \<lparr>s_value = None, settle_until = None, generation = 0\<rparr>"

definition effective_ttl :: "'v slot \<Rightarrow> duration \<Rightarrow> duration \<Rightarrow> duration" where
  "effective_ttl s ttl now =
     (case settle_until s of
        Some t \<Rightarrow> if now < t then min ttl SETTLE_TTL else ttl
      | None \<Rightarrow> ttl)"

definition fresh :: "'v slot \<Rightarrow> duration \<Rightarrow> duration \<Rightarrow> 'v option option" where
  "fresh s ttl now =
     (case s_value s of
        None \<Rightarrow> None
      | Some (at, v) \<Rightarrow> if saturating_duration_since now at < effective_ttl s ttl now then Some v else None)"

definition invalidate_slot :: "duration option \<Rightarrow> duration \<Rightarrow> 'v slot \<Rightarrow> 'v slot" where
  "invalidate_slot settle now s =
     s\<lparr>s_value := None, generation := generation s + 1,
       settle_until := (case settle of Some window \<Rightarrow> Some (now + window) | None \<Rightarrow> settle_until s)\<rparr>"

section \<open>The cache and its readers\<close>

datatype phase =
    Idle
  | At_gate cache_key duration
  | Holding cache_key duration duration
  | Fetching cache_key duration u64

record 'v ubus_cache =
  slots :: "cache_key \<Rightarrow> 'v slot"
  gates :: "cache_key \<Rightarrow> nat option"
  phases :: "nat \<Rightarrow> phase"
  observed :: "(cache_key \<times> duration option) list"

definition cache_new :: "'v ubus_cache" where
  "cache_new = \<lparr>slots = (\<lambda>_. slot_new), gates = (\<lambda>_. None), phases = (\<lambda>_. Idle), observed = []\<rparr>"

text \<open>\<open>get_or_fetch\<close> up to the gate: a fresh value is the answer.\<close>

definition enter :: "nat \<Rightarrow> cache_key \<Rightarrow> duration \<Rightarrow> duration \<Rightarrow> 'v ubus_cache \<Rightarrow> 'v option option \<times> 'v ubus_cache" where
  "enter r key ttl now c =
     (case fresh (slots c key) ttl now of
        Some v \<Rightarrow> (Some v, c)
      | None \<Rightarrow> (None, c\<lparr>phases := (phases c)(r := At_gate key ttl)\<rparr>))"

text \<open>The reader takes the gate and the time.\<close>

definition take_gate :: "nat \<Rightarrow> cache_key \<Rightarrow> duration \<Rightarrow> duration \<Rightarrow> 'v ubus_cache \<Rightarrow> 'v ubus_cache" where
  "take_gate r key ttl now c = c\<lparr>gates := (gates c)(key := Some r), phases := (phases c)(r := Holding key ttl now)\<rparr>"

text \<open>With the gate: the slot is looked at again, and otherwise the fetch begins, under the generation of now.\<close>

definition look_again :: "nat \<Rightarrow> cache_key \<Rightarrow> duration \<Rightarrow> duration \<Rightarrow> 'v ubus_cache \<Rightarrow> 'v option option \<times> 'v ubus_cache" where
  "look_again r key ttl started c =
     (case fresh (slots c key) ttl started of
        Some v \<Rightarrow> (Some v, c\<lparr>gates := (gates c)(key := None), phases := (phases c)(r := Idle)\<rparr>)
      | None \<Rightarrow> (None, c\<lparr>phases := (phases c)(r := Fetching key started (generation (slots c key)))\<rparr>))"

text \<open>What a fetch stores: neither an error nor \<open>Null\<close>, and nothing an invalidation has overtaken.\<close>

definition store_fetched :: "duration \<Rightarrow> u64 \<Rightarrow> string + 'v option \<Rightarrow> 'v slot \<Rightarrow> 'v slot" where
  "store_fetched started gen got s =
     (case got of
        Inl e \<Rightarrow> s
      | Inr None \<Rightarrow> s
      | Inr (Some v) \<Rightarrow> if generation s = gen then s\<lparr>s_value := Some (started, Some v)\<rparr> else s)"

text \<open>The fetch has ended; the gate opens as the call returns.\<close>

definition finish_fetch :: "nat \<Rightarrow> cache_key \<Rightarrow> duration \<Rightarrow> u64 \<Rightarrow> string + 'v option \<Rightarrow> 'v ubus_cache \<Rightarrow> 'v ubus_cache" where
  "finish_fetch r key started gen got c =
     c\<lparr>slots := (slots c)(key := store_fetched started gen got (slots c key)),
       gates := (gates c)(key := None), phases := (phases c)(r := Idle)\<rparr>"

definition invalidate_key :: "cache_key \<Rightarrow> duration option \<Rightarrow> duration \<Rightarrow> 'v ubus_cache \<Rightarrow> 'v ubus_cache" where
  "invalidate_key key settle now c =
     c\<lparr>slots := (slots c)(key := invalidate_slot settle now (slots c key)), observed := observed c @ [(key, settle)]\<rparr>"

section \<open>What makes values stale\<close>

text \<open>The invalidations of an event; its payload counts by the interface it names.\<close>

definition event_invalidations :: "string \<Rightarrow> string option \<Rightarrow> (cache_key \<times> duration option) list" where
  "event_invalidations name interface =
     (if name = ''router_event_wan_connect_status'' then [(WAN, None), (WAN6, None), (MODEM_DATA, Some SETTLE_WINDOW)]
      else if name = ''network.interface'' then
        (if interface = Some ''zte_wan'' then [(WAN, None), (MODEM_DATA, Some SETTLE_WINDOW)]
         else if interface = Some ''zte_wan6'' then [(WAN6, None), (MODEM_DATA, Some SETTLE_WINDOW)]
         else [])
      else if name = ''BSP_CHARGER_EVENT'' then [(BATTERY_INFO, None), (CHARGER, None)]
      else if name = ''BSP_POWERBANK_EVENT'' then [(CHARGER, None)]
      else if name = ''zwrt_card_state_event'' then [(SIM_INFO, None)]
      else [])"

definition invalidate_all :: "(cache_key \<times> duration option) list \<Rightarrow> duration \<Rightarrow> 'v ubus_cache \<Rightarrow> 'v ubus_cache" where
  "invalidate_all ks now c = foldl (\<lambda>c (key, settle). invalidate_key key settle now c) c ks"

definition on_cache_event :: "string \<Rightarrow> string option \<Rightarrow> duration \<Rightarrow> 'v ubus_cache \<Rightarrow> 'v ubus_cache" where
  "on_cache_event name interface now c = invalidate_all (event_invalidations name interface) now c"

definition on_sim_identity :: "string \<Rightarrow> duration \<Rightarrow> 'v ubus_cache \<Rightarrow> 'v ubus_cache" where
  "on_sim_identity identity_phase now c =
     invalidate_all ([(MODEM_DATA, None), (WAN, None), (WAN6, None)]
       @ (if identity_phase = ''changed'' then [(SIM_INFO, Some SETTLE_WINDOW)] else [(SIM_INFO, None)])) now c"

section \<open>Threads interleaved\<close>

datatype 'v cache_label =
    Entered nat cache_key duration
  | Took nat cache_key duration
  | Looked nat cache_key duration
  | Finished nat cache_key duration "string + 'v option"
  | Invalidated cache_key "duration option" duration

text \<open>
  The runs: what happened, newest first, the time, and the cache. Time does not go back. A reader enters when it is idle and
  takes a gate nobody holds; a key is invalidated with no window or with the one the program uses.
\<close>

inductive cache_run :: "'v cache_label list \<Rightarrow> duration \<Rightarrow> 'v ubus_cache \<Rightarrow> bool" where
  start: "cache_run [] 0 cache_new"
| enters: "cache_run past t c \<Longrightarrow> t \<le> now \<Longrightarrow> phases c r = Idle \<Longrightarrow>
    cache_run (Entered r key now # past) now (snd (enter r key ttl now c))"
| takes: "cache_run past t c \<Longrightarrow> t \<le> now \<Longrightarrow> phases c r = At_gate key ttl \<Longrightarrow> gates c key = None \<Longrightarrow>
    cache_run (Took r key now # past) now (take_gate r key ttl now c)"
| looks: "cache_run past t c \<Longrightarrow> t \<le> now \<Longrightarrow> phases c r = Holding key ttl started \<Longrightarrow>
    cache_run (Looked r key started # past) now (snd (look_again r key ttl started c))"
| finishes: "cache_run past t c \<Longrightarrow> t \<le> now \<Longrightarrow> phases c r = Fetching key started gen \<Longrightarrow>
    cache_run (Finished r key started got # past) now (finish_fetch r key started gen got c)"
| invalidates: "cache_run past t c \<Longrightarrow> t \<le> now \<Longrightarrow> settle = None \<or> settle = Some SETTLE_WINDOW \<Longrightarrow>
    cache_run (Invalidated key settle now # past) now (invalidate_key key settle now c)"

text \<open>The invalidations of a key among what happened.\<close>

fun invalidation_of :: "cache_key \<Rightarrow> 'v cache_label \<Rightarrow> bool" where
  "invalidation_of key (Invalidated k settle now) = (k = key)"
| "invalidation_of key _ = False"

abbreviation invalidations :: "cache_key \<Rightarrow> 'v cache_label list \<Rightarrow> 'v cache_label list" where
  "invalidations key \<equiv> filter (invalidation_of key)"

section \<open>What is served is current\<close>

text \<open>A fetch carries the number of invalidations before it looked.\<close>

definition fetch_ok :: "'v cache_label list \<Rightarrow> nat \<Rightarrow> cache_key \<Rightarrow> duration \<Rightarrow> u64 \<Rightarrow> bool" where
  "fetch_ok past r key started gen \<longleftrightarrow>
     (\<exists>since before. past = since @ Looked r key started # before \<and> gen = of_nat (length (invalidations key before)))"

text \<open>A value is from a fetch no invalidation came after.\<close>

definition current_value :: "'v cache_label list \<Rightarrow> cache_key \<Rightarrow> duration \<Rightarrow> 'v option \<Rightarrow> bool" where
  "current_value past key at v \<longleftrightarrow>
     v \<noteq> None \<and>
     (\<exists>after during before r. past = after @ Finished r key at (Inr v) # during @ Looked r key at # before \<and>
        invalidations key after = [] \<and> invalidations key during = [])"

text \<open>After an invalidation that settles, the slot keeps values short until its window is over.\<close>

definition settled :: "'v cache_label list \<Rightarrow> cache_key \<Rightarrow> duration option \<Rightarrow> bool" where
  "settled past key bound \<longleftrightarrow>
     (\<forall>i. Invalidated key (Some SETTLE_WINDOW) i \<in> set past \<longrightarrow> (\<exists>u. bound = Some u \<and> i + SETTLE_WINDOW \<le> u))"

definition slot_ok :: "'v cache_label list \<Rightarrow> cache_key \<Rightarrow> 'v slot \<Rightarrow> bool" where
  "slot_ok past key s \<longleftrightarrow>
     generation s = of_nat (length (invalidations key past)) \<and>
     (\<forall>at v. s_value s = Some (at, v) \<longrightarrow> current_value past key at v) \<and>
     settled past key (settle_until s)"

fun phase_ok :: "'v cache_label list \<Rightarrow> 'v ubus_cache \<Rightarrow> nat \<Rightarrow> phase \<Rightarrow> bool" where
  "phase_ok past c r (Holding key ttl started) = (gates c key = Some r)"
| "phase_ok past c r (Fetching key started gen) = (gates c key = Some r \<and> fetch_ok past r key started gen)"
| "phase_ok past c r _ = True"

fun label_by :: "duration \<Rightarrow> 'v cache_label \<Rightarrow> bool" where
  "label_by t (Invalidated k settle now) = (now \<le> t)"
| "label_by t _ = True"

definition cache_ok :: "'v cache_label list \<Rightarrow> duration \<Rightarrow> 'v ubus_cache \<Rightarrow> bool" where
  "cache_ok past t c \<longleftrightarrow>
     (\<forall>key. slot_ok past key (slots c key)) \<and> (\<forall>r. phase_ok past c r (phases c r)) \<and> list_all (label_by t) past"

lemma cache_okD:
  assumes "cache_ok past t c"
  shows "slot_ok past key (slots c key)" and "phase_ok past c r (phases c r)" and "list_all (label_by t) past"
  using assms by (simp_all add: cache_ok_def)

lemma label_by_later: "list_all (label_by t) past \<Longrightarrow> t \<le> now \<Longrightarrow> list_all (label_by now) past"
  by (induction past) (auto elim!: label_by.elims)

lemma cache_ok_step:
  assumes "cache_ok past t c" and "t \<le> now" and "label_by now l"
    and "\<And>key. slot_ok (l # past) key (slots c' key)" and "\<And>r. phase_ok (l # past) c' r (phases c' r)"
  shows "cache_ok (l # past) now c'"
  using assms(3-5) label_by_later [OF cache_okD(3) [OF assms(1)] assms(2)] by (simp add: cache_ok_def)

lemma fetch_ok_more: "fetch_ok past r key started gen \<Longrightarrow> fetch_ok (l # past) r key started gen"
  unfolding fetch_ok_def by (metis append_Cons)

lemma current_value_more: "current_value past key at v \<Longrightarrow> \<not> invalidation_of key l \<Longrightarrow> current_value (l # past) key at v"
  unfolding current_value_def by (metis append_Cons filter.simps(2))

lemma slot_ok_more:
  assumes "slot_ok past key s" and "\<not> invalidation_of key l"
  shows "slot_ok (l # past) key s"
  using assms by (auto simp: slot_ok_def settled_def current_value_more)

lemma phase_ok_more:
  assumes "phase_ok past c r p" and "gates c' = gates c"
  shows "phase_ok (l # past) c' r p"
  using assms by (cases p) (simp_all add: fetch_ok_more)

text \<open>The gate of one key moves; the readers of it were none, or the one that moves it.\<close>

lemma phase_ok_gate:
  assumes "phase_ok past c q p" and "gates c key = None \<or> gates c key = Some r" and "q \<noteq> r"
    and "gates c' = (gates c)(key := g)"
  shows "phase_ok (l # past) c' q p"
  using assms by (cases p) (auto simp: fetch_ok_more)

lemma fetched_current:
  assumes ok: "fetch_ok past r key started gen" and gen: "gen = of_nat (length (invalidations key past))"
    and small: "length past < 2 ^ 64"
  shows "current_value (Finished r key started (Inr (Some v)) # past) key started (Some v)"
proof -
  obtain since before where past: "past = since @ Looked r key started # before"
    and "gen = of_nat (length (invalidations key before))"
    using ok by (auto simp: fetch_ok_def)
  then have "of_nat (length (invalidations key before)) = (of_nat (length (invalidations key past)) :: u64)" using gen by simp
  moreover have "length (invalidations key before) < 2 ^ 64" "length (invalidations key past) < 2 ^ 64"
    using small past length_filter_le [of "invalidation_of key" before] length_filter_le [of "invalidation_of key" past] by simp_all
  ultimately have "length (invalidations key before) = length (invalidations key past)"
    by (auto dest: arg_cong [of _ _ unat] simp: unat_of_nat)
  then have "invalidations key since = []" using past by simp
  with past show ?thesis
    unfolding current_value_def by (intro conjI exI [of _ "[]"] exI [of _ since] exI [of _ before] exI [of _ r]) simp_all
qed

lemma ok_enter:
  assumes "cache_ok past t c" and "t \<le> now"
  shows "cache_ok (Entered r key now # past) now (snd (enter r key ttl now c))"
proof -
  let ?c = "snd (enter r key ttl now c)"
  have "slots ?c = slots c" "gates ?c = gates c" "phases ?c q = phases c q \<or> phases ?c q = At_gate key ttl" for q
    by (auto simp: enter_def split: option.splits)
  moreover have "phase_ok (Entered r key now # past) ?c q (phases ?c q)" for q
    using calculation(3) [of q] phase_ok_more [OF cache_okD(2) [OF assms(1), of q] calculation(2)] by auto
  ultimately show ?thesis using slot_ok_more [OF cache_okD(1) [OF assms(1)]] by (intro cache_ok_step [OF assms(1,2)]) simp_all
qed

lemma ok_take:
  assumes "cache_ok past t c" and "t \<le> now" and "gates c key = None"
  shows "cache_ok (Took r key now # past) now (take_gate r key ttl now c)"
proof -
  have "phase_ok (Took r key now # past) (take_gate r key ttl now c) q (phases (take_gate r key ttl now c) q)" for q
    using phase_ok_gate [OF cache_okD(2) [OF assms(1), of q], of key r] assms(3) by (auto simp: take_gate_def)
  moreover have "slots (take_gate r key ttl now c) = slots c" by (simp add: take_gate_def)
  ultimately show ?thesis using slot_ok_more [OF cache_okD(1) [OF assms(1)]] by (intro cache_ok_step [OF assms(1,2)]) simp_all
qed

lemma ok_look:
  assumes "cache_ok past t c" and "t \<le> now" and "phases c r = Holding key ttl started"
  shows "cache_ok (Looked r key started # past) now (snd (look_again r key ttl started c))"
proof -
  let ?c = "snd (look_again r key ttl started c)" and ?past = "Looked r key started # past"
  have gate: "gates c key = Some r" using cache_okD(2) [OF assms(1), of r] assms(3) by simp
  have "fetch_ok ?past r key started (generation (slots c key))"
    using cache_okD(1) [OF assms(1), of key] unfolding fetch_ok_def slot_ok_def by (metis append_Nil)
  then have "phase_ok ?past ?c r (phases ?c r)" using gate by (auto simp: look_again_def split: option.split)
  moreover have "phase_ok ?past ?c q (phases ?c q)" if "q \<noteq> r" for q
    using phase_ok_gate [OF cache_okD(2) [OF assms(1), of q], of key r] phase_ok_more [OF cache_okD(2) [OF assms(1), of q]] gate that
    by (auto simp: look_again_def split: option.split)
  ultimately have "phase_ok ?past ?c q (phases ?c q)" for q by (cases "q = r") simp_all
  moreover have "slots ?c = slots c" by (simp add: look_again_def split: option.split)
  ultimately show ?thesis using slot_ok_more [OF cache_okD(1) [OF assms(1)]] by (intro cache_ok_step [OF assms(1,2)]) simp_all
qed

lemma ok_finish:
  assumes "cache_ok past t c" and "t \<le> now" and "phases c r = Fetching key started gen" and "length past < 2 ^ 64"
  shows "cache_ok (Finished r key started got # past) now (finish_fetch r key started gen got c)"
proof -
  let ?c = "finish_fetch r key started gen got c" and ?past = "Finished r key started got # past"
  have gate: "gates c key = Some r" and fetch: "fetch_ok past r key started gen"
    using cache_okD(2) [OF assms(1), of r] assms(3) by simp_all
  have phase: "phase_ok ?past ?c q (phases ?c q)" for q
    using phase_ok_gate [OF cache_okD(2) [OF assms(1), of q], of key r] gate by (auto simp: finish_fetch_def)
  have gen: "generation (slots c key) = of_nat (length (invalidations key past))" using cache_okD(1) [OF assms(1), of key] by (simp add: slot_ok_def)
  have stays: "slot_ok ?past k (slots c k)" for k using slot_ok_more [OF cache_okD(1) [OF assms(1)]] by simp
  have "slot_ok ?past key (store_fetched started gen got (slots c key))"
    using stays [of key] fetched_current [OF fetch _ assms(4)] gen
    by (auto simp: store_fetched_def slot_ok_def split: sum.split option.split)
  then have "slot_ok ?past k (slots ?c k)" for k using stays [of k] by (simp add: finish_fetch_def)
  then show ?thesis using phase by (intro cache_ok_step [OF assms(1,2)]) simp_all
qed

lemma ok_invalidate:
  assumes "cache_ok past t c" and "t \<le> now" and "settle = None \<or> settle = Some SETTLE_WINDOW"
  shows "cache_ok (Invalidated key settle now # past) now (invalidate_key key settle now c)"
proof -
  let ?c = "invalidate_key key settle now c" and ?past = "Invalidated key settle now # past"
  have "i \<le> t" if "Invalidated key (Some SETTLE_WINDOW) i \<in> set past" for i
    using cache_okD(3) [OF assms(1)] that by (auto simp: list_all_iff)
  then have "settled ?past key (settle_until (invalidate_slot settle now (slots c key)))"
    using cache_okD(1) [OF assms(1), of key] assms(2,3)
    by (fastforce simp: slot_ok_def settled_def invalidate_slot_def)
  then have "slot_ok ?past key (invalidate_slot settle now (slots c key))"
    using cache_okD(1) [OF assms(1), of key] by (simp add: slot_ok_def invalidate_slot_def)
  moreover have "phase_ok ?past ?c q (phases ?c q)" for q
    using phase_ok_more [OF cache_okD(2) [OF assms(1), of q]] by (simp add: invalidate_key_def)
  moreover have "slot_ok ?past k (slots c k)" if "k \<noteq> key" for k
    using slot_ok_more [OF cache_okD(1) [OF assms(1)]] that by simp
  ultimately show ?thesis by (intro cache_ok_step [OF assms(1,2)]) (simp_all add: invalidate_key_def)
qed

lemma run_ok: "cache_run past t c \<Longrightarrow> length past < 2 ^ 64 \<Longrightarrow> cache_ok past t c"
proof (induction rule: cache_run.induct)
  case start
  show ?case by (simp add: cache_ok_def cache_new_def slot_ok_def slot_new_def settled_def)
next
  case (enters past t c now r key ttl)
  then show ?case using ok_enter by simp
next
  case (takes past t c now r key ttl)
  then show ?case using ok_take by simp
next
  case (looks past t c now r key ttl started)
  then show ?case using ok_look by simp
next
  case (finishes past t c now r key started gen got)
  then show ?case by (intro ok_finish) simp_all
next
  case (invalidates past t c now settle key)
  then show ?case using ok_invalidate by simp
qed

text \<open>C31: what the cache serves is a reply that was not \<open>Null\<close>, of a fetch that had looked at the slot, with the gate, after
  every invalidation of its key so far: an invalidation while the fetch ran or since has not been overlooked. It is younger
  than the reader asks for, and younger than a second as long as the window of any settling invalidation lasts.\<close>

theorem served_values_are_current:
  assumes "cache_run past t c" and "length past < 2 ^ 64" and "fresh (slots c key) ttl now = Some v"
  shows "\<exists>at. current_value past key at v \<and> now - at < ttl \<and>
    ((\<exists>i. Invalidated key (Some SETTLE_WINDOW) i \<in> set past \<and> now < i + SETTLE_WINDOW) \<longrightarrow> now - at < SETTLE_TTL)"
proof -
  have slot: "slot_ok past key (slots c key)" by (rule cache_okD(1) [OF run_ok [OF assms(1,2)]])
  obtain at where stored: "s_value (slots c key) = Some (at, v)" and young: "now - at < effective_ttl (slots c key) ttl now"
    using assms(3) by (auto simp: fresh_def saturating_duration_since_def split: option.splits if_splits)
  have "now - at < SETTLE_TTL" if "Invalidated key (Some SETTLE_WINDOW) i \<in> set past" "now < i + SETTLE_WINDOW" for i
    using slot that young by (fastforce simp: slot_ok_def settled_def effective_ttl_def)
  moreover have "now - at < ttl" using young by (auto simp: effective_ttl_def split: option.splits if_splits)
  ultimately show ?thesis using slot stored by (auto simp: slot_ok_def)
qed

definition fetched_once :: "nat ubus_cache" where
  "fetched_once =
     finish_fetch 3 WAN 5 0 (Inr (Some 7))
       (snd (look_again 3 WAN 30 5 (take_gate 3 WAN 30 5 (snd (enter 3 WAN 30 4 cache_new)))))"

lemma fetched_once_run:
  "cache_run [Finished 3 WAN 5 (Inr (Some 7)), Looked 3 WAN 5, Took 3 WAN 5, Entered 3 WAN 4] 8 fetched_once"
  unfolding fetched_once_def
proof (intro cache_run.finishes [where t = 5] cache_run.looks [where t = 5] cache_run.takes [where t = 4] cache_run.enters [where t = 0] cache_run.start)
qed (simp_all add: cache_new_def slot_new_def enter_def take_gate_def look_again_def fresh_def)

theorem served_values_are_current_witness:
  "\<exists>at. current_value [Finished 3 WAN 5 (Inr (Some 7)), Looked 3 WAN 5, Took 3 WAN 5, Entered 3 WAN 4] WAN at (Some (7 :: nat)) \<and> 9 - at < (30 :: nat)"
proof -
  have "fresh (slots fetched_once WAN) 30 9 = Some (Some 7)" by code_simp
  from served_values_are_current [OF fetched_once_run _ this] show ?thesis by auto
qed

text \<open>Two readers never fetch the same key at the same time, however many have found nothing fresh.\<close>

theorem one_fetch_per_key:
  assumes "cache_run past t c" and "length past < 2 ^ 64"
    and "phases c r = Fetching key started gen" and "phases c q = Fetching key started' gen'"
  shows "r = q"
  using cache_okD(2) [OF run_ok [OF assms(1,2)], of r] cache_okD(2) [OF run_ok [OF assms(1,2)], of q] assms(3,4) by simp

theorem one_fetch_per_key_witness:
  "\<exists>past t (c :: nat ubus_cache). cache_run past t c \<and> phases c 3 = Fetching WAN 5 0 \<and> (\<forall>q started gen. phases c q = Fetching WAN started gen \<longrightarrow> 3 = q)"
proof -
  let ?c = "snd (look_again 3 WAN 30 5 (take_gate 3 WAN 30 5 (snd (enter 3 WAN 30 4 (cache_new :: nat ubus_cache)))))"
  have run: "cache_run [Looked 3 WAN 5, Took 3 WAN 5, Entered 3 WAN 4] 5 ?c"
    by (intro cache_run.looks [where t = 5] cache_run.takes [where t = 4] cache_run.enters [where t = 0] cache_run.start)
      (simp_all add: cache_new_def slot_new_def enter_def take_gate_def look_again_def fresh_def)
  have f: "phases ?c 3 = Fetching WAN 5 0" by (simp add: cache_new_def slot_new_def enter_def take_gate_def look_again_def fresh_def)
  show ?thesis using run f one_fetch_per_key [OF run _ f] by (intro exI conjI) (assumption, assumption, auto)
qed

text \<open>Whoever waited at the gate while a fetch ran, and finds its value young enough, answers with it.\<close>

theorem waiters_share_the_fetch:
  assumes "generation (slots c key) = gen" and "saturating_duration_since now started < effective_ttl (slots c key) ttl now"
  shows "fst (look_again q key ttl now (take_gate q key ttl now (finish_fetch r key started gen (Inr (Some v)) c))) = Some (Some v)"
  using assms by (simp add: look_again_def take_gate_def finish_fetch_def store_fetched_def fresh_def effective_ttl_def)

theorem waiters_share_the_fetch_witness:
  "fst (look_again 4 WAN 30 6 (take_gate 4 WAN 30 6 (finish_fetch 3 WAN 5 0 (Inr (Some (7 :: nat))) cache_new))) = Some (Some 7)"
  by (rule waiters_share_the_fetch) (simp_all add: cache_new_def slot_new_def saturating_duration_since_def effective_ttl_def)

end
