(* ===== verification/Watchdog_Executor.thy ===== *)
theory Watchdog_Executor
  imports Conn_Watchdog
begin

text \<open>
  The connectivity watchdog's executor (\<open>zte-agent/src/conn_watchdog.rs\<close>, \<open>Executor\<close>, \<open>Persisted\<close> and
  \<open>bring_online\<close>): carrying out the machine's actions and keeping the state file. The device and the
  file system are a \<open>world\<close> whose coming answers are a script: any call may fail, a failed call may or
  may not have had its effect, and a failed write leaves the old file or an unreadable one.
\<close>

record action_record =
  ar_rung :: rung
  ar_at :: nat

record persisted =
  restore_flag :: bool
  saved_actions :: "action_record list"

definition persisted_default :: persisted where
  "persisted_default = \<lparr>restore_flag = False, saved_actions = []\<rparr>"

definition persisted_prune :: "nat \<Rightarrow> persisted \<Rightarrow> persisted" where
  "persisted_prune unix p =
     p\<lparr>saved_actions := filter (\<lambda>r. ar_at r \<le> unix \<and> unix - ar_at r < dur_as_secs DAY) (saved_actions p)\<rparr>"

section \<open>The world\<close>

datatype effect = Pdn | Lpm | Reset | Fast_boot bool | Restart | Notify string

datatype answer = Done | Failed string bool

datatype write_answer = Written | Kept string | Lost string

text \<open>The effects asked for so far, each with the state file as it was then, and the answers to come.\<close>

record world =
  state_file :: "persisted option"
  fast_boot :: bool
  rebooting :: bool
  effects :: "(effect \<times> persisted option) list"
  answers :: "answer list"
  writes :: "write_answer list"

definition next_answer :: "world \<Rightarrow> answer" where
  "next_answer w = (case answers w of [] \<Rightarrow> Done | a # _ \<Rightarrow> a)"

text \<open>An effect: what it does to the device when it takes place.\<close>

fun takes_place :: "effect \<Rightarrow> world \<Rightarrow> world" where
  "takes_place (Fast_boot on) w = w\<lparr>fast_boot := on\<rparr>"
| "takes_place Restart w = w\<lparr>rebooting := True\<rparr>"
| "takes_place _ w = w"

definition call :: "effect \<Rightarrow> world \<Rightarrow> (string + unit) \<times> world" where
  "call e w =
     (let a = next_answer w; w = w\<lparr>effects := effects w @ [(e, state_file w)], answers := tl (answers w)\<rparr>
      in case a of
           Done \<Rightarrow> (Ok (), takes_place e w)
         | Failed why anyway \<Rightarrow> (Err why, if anyway then takes_place e w else w))"

definition notify :: "string \<Rightarrow> world \<Rightarrow> world" where
  "notify s w = w\<lparr>effects := effects w @ [(Notify s, state_file w)]\<rparr>"

definition save :: "persisted \<Rightarrow> world \<Rightarrow> (string + unit) \<times> world" where
  "save p w =
     (let a = (case writes w of [] \<Rightarrow> Written | a # _ \<Rightarrow> a); w = w\<lparr>writes := tl (writes w)\<rparr>
      in case a of
           Written \<Rightarrow> (Ok (), w\<lparr>state_file := Some p\<rparr>)
         | Kept why \<Rightarrow> (Err why, w)
         | Lost why \<Rightarrow> (Err why, w\<lparr>state_file := None\<rparr>))"

definition load_or_default :: "world \<Rightarrow> persisted" where
  "load_or_default w = (case state_file w of Some p \<Rightarrow> p | None \<Rightarrow> persisted_default)"

section \<open>Executing an action\<close>

definition record_rung :: "nat \<Rightarrow> rung \<Rightarrow> bool \<Rightarrow> world \<Rightarrow> (string + unit) \<times> world" where
  "record_rung unix r flag w =
     (let saved = persisted_prune unix (load_or_default w);
          saved = saved\<lparr>saved_actions := saved_actions saved @ [\<lparr>ar_rung = r, ar_at = unix\<rparr>], restore_flag := flag\<rparr>
      in save saved w)"

definition set_restore_flag :: "bool \<Rightarrow> world \<Rightarrow> (string + unit) \<times> world" where
  "set_restore_flag flag w = save ((load_or_default w)\<lparr>restore_flag := flag\<rparr>) w"

definition undo_fast_boot_off :: "world \<Rightarrow> world" where
  "undo_fast_boot_off w =
     (case call (Fast_boot True) w of
        (Inr _, w) \<Rightarrow> snd (set_restore_flag False w)
      | (Inl _, w) \<Rightarrow> snd (set_restore_flag True w))"

definition reboot_with_fast_boot_off :: "nat \<Rightarrow> world \<Rightarrow> (string + unit) \<times> world" where
  "reboot_with_fast_boot_off unix w =
     (case call (Fast_boot False) w of
        (Inl e, w) \<Rightarrow> (Err e, w)
      | (Inr _, w) \<Rightarrow>
          (case record_rung unix Reboot True w of
             (Inl e, w) \<Rightarrow> (Err (''not rebooting: '' @ e), undo_fast_boot_off w)
           | (Inr _, w) \<Rightarrow>
               (case call Restart w of
                  (Inl e, w) \<Rightarrow> (Err e, undo_fast_boot_off w)
                | (Inr _, w) \<Rightarrow> (Ok (), w))))"

text \<open>\<open>perform\<close>, without the lines it logs.\<close>

fun perform :: "nat \<Rightarrow> wd_action \<Rightarrow> world \<Rightarrow> world" where
  "perform unix (Log s) w = w"
| "perform unix (Act r) w =
     (let w = notify (''rung '' @ show_nat (number r) @ '': '' @ label r) w;
          w = (if r \<noteq> Reboot then snd (record_rung unix r False w) else w)
      in snd (case r of
           PdnReconnect \<Rightarrow> call Pdn w
         | LpmOnline \<Rightarrow> call Lpm w
         | ModemReset \<Rightarrow> call Reset w
         | Reboot \<Rightarrow> reboot_with_fast_boot_off unix w))"

section \<open>At the thread's start\<close>

definition FAST_BOOT_RESTORE_ATTEMPTS :: nat where "FAST_BOOT_RESTORE_ATTEMPTS = 5"

fun restore_attempts :: "nat \<Rightarrow> world \<Rightarrow> bool \<times> world" where
  "restore_attempts 0 w = (False, w)"
| "restore_attempts (Suc n) w =
     (case call (Fast_boot True) w of
        (Inr _, w) \<Rightarrow> (True, w)
      | (Inl _, w) \<Rightarrow> restore_attempts n w)"

definition restore_fast_boot :: "world \<Rightarrow> bool \<times> world" where
  "restore_fast_boot w = restore_attempts FAST_BOOT_RESTORE_ATTEMPTS w"

definition retry_restore_fast_boot :: "world \<Rightarrow> bool \<times> world" where
  "retry_restore_fast_boot w =
     (case call (Fast_boot True) w of
        (Inr _, w) \<Rightarrow> (False, snd (set_restore_flag False w))
      | (Inl _, w) \<Rightarrow> (True, w))"

text \<open>
  A rung's time on the boot clock, \<open>now.checked_sub(age).unwrap_or(now)\<close>: a rung from before the clock's origin counts
  as taken now.
\<close>

definition instant_of :: "nat \<Rightarrow> duration \<Rightarrow> nat \<Rightarrow> duration" where
  "instant_of unix now at =
     (let age = from_secs (unix - at) in if age \<le> now then now - age else now)"

definition restore_state :: "nat \<Rightarrow> duration \<Rightarrow> machine \<Rightarrow> world \<Rightarrow> bool \<times> machine \<times> world" where
  "restore_state unix now m w =
     (case state_file w of
        None \<Rightarrow> (False, m, w)
      | Some before \<Rightarrow>
          let (saved, pending, w) =
                (if restore_flag before then
                   (case restore_fast_boot w of
                      (True, w) \<Rightarrow> (before\<lparr>restore_flag := False\<rparr>, False, w)
                    | (False, w) \<Rightarrow> (before, True, w))
                 else (before, False, w));
              saved = persisted_prune unix saved;
              m = fold (\<lambda>r m. record_action (ar_rung r) (instant_of unix now (ar_at r)) m) (saved_actions saved) m;
              w = (if saved \<noteq> before then snd (save saved w) else w)
          in (pending, m, w))"

section \<open>Rebooting without fast boot\<close>

definition flagged :: "world \<Rightarrow> bool" where
  "flagged w \<longleftrightarrow> (case state_file w of Some p \<Rightarrow> restore_flag p | None \<Rightarrow> False)"

definition next_write :: "world \<Rightarrow> write_answer" where
  "next_write w = (case writes w of [] \<Rightarrow> Written | a # _ \<Rightarrow> a)"

lemma world_keeps [simp]:
  "state_file (takes_place e w) = state_file w" "writes (takes_place e w) = writes w"
  "effects (takes_place e w) = effects w" "answers (takes_place e w) = answers w"
  by (cases e; simp)+

lemma call_cases:
  obtains (well) "call e w = (Inr (), takes_place e (w\<lparr>effects := effects w @ [(e, state_file w)], answers := tl (answers w)\<rparr>))"
    "next_answer w = Done"
  | (failed) why where "call e w = (Inl why, w\<lparr>effects := effects w @ [(e, state_file w)], answers := tl (answers w)\<rparr>)"
    "next_answer w = Failed why False"
  | (unsure) why where "call e w = (Inl why, takes_place e (w\<lparr>effects := effects w @ [(e, state_file w)], answers := tl (answers w)\<rparr>))"
    "next_answer w = Failed why True"
  by (cases "next_answer w") (auto simp: call_def Let_def)

lemma save_cases:
  obtains (written) "save p w = (Inr (), w\<lparr>writes := tl (writes w), state_file := Some p\<rparr>)" "next_write w = Written"
  | (kept) why where "save p w = (Inl why, w\<lparr>writes := tl (writes w)\<rparr>)" "next_write w = Kept why"
  | (lost) why where "save p w = (Inl why, w\<lparr>writes := tl (writes w), state_file := None\<rparr>)" "next_write w = Lost why"
  by (cases "next_write w") (auto simp: save_def next_write_def Let_def)

lemma set_restore_flag_world:
  "fast_boot (snd (set_restore_flag f w)) = fast_boot w" "effects (snd (set_restore_flag f w)) = effects w"
  "next_write w = Written \<Longrightarrow> flagged (snd (set_restore_flag f w)) = f"
  by (cases rule: save_cases [of "(load_or_default w)\<lparr>restore_flag := f\<rparr>" w]; simp add: set_restore_flag_def flagged_def)+

lemma undo_ok:
  "fast_boot (undo_fast_boot_off w) \<or> (next_write w = Written \<and> flagged (undo_fast_boot_off w)) \<or> next_write w \<noteq> Written"
proof (cases rule: call_cases [of "Fast_boot True" w])
  case well
  then show ?thesis by (simp add: undo_fast_boot_off_def set_restore_flag_world)
next
  case (failed why)
  have "next_write (w\<lparr>effects := e, answers := a\<rparr>) = next_write w" for e a by (simp add: next_write_def)
  with failed show ?thesis by (auto simp: undo_fast_boot_off_def set_restore_flag_world)
next
  case (unsure why)
  then show ?thesis by (simp add: undo_fast_boot_off_def set_restore_flag_world)
qed

lemma record_rung_world:
  "fast_boot (snd (record_rung unix r f w)) = fast_boot w" "rebooting (snd (record_rung unix r f w)) = rebooting w"
  "effects (snd (record_rung unix r f w)) = effects w" "answers (snd (record_rung unix r f w)) = answers w"
  "writes (snd (record_rung unix r f w)) = tl (writes w)"
  by (cases rule: save_cases [of "(persisted_prune unix (load_or_default w))\<lparr>saved_actions :=
        saved_actions (persisted_prune unix (load_or_default w)) @ [\<lparr>ar_rung = r, ar_at = unix\<rparr>], restore_flag := f\<rparr>" w];
      simp add: record_rung_def Let_def)+

lemma record_rung_result:
  "next_write w = Written \<longleftrightarrow> fst (record_rung unix r f w) = Inr ()"
  "next_write w = Written \<Longrightarrow>
     state_file (snd (record_rung unix r f w)) = Some ((persisted_prune unix (load_or_default w))\<lparr>saved_actions :=
        saved_actions (persisted_prune unix (load_or_default w)) @ [\<lparr>ar_rung = r, ar_at = unix\<rparr>], restore_flag := f\<rparr>)"
  by (cases rule: save_cases [of "(persisted_prune unix (load_or_default w))\<lparr>saved_actions :=
        saved_actions (persisted_prune unix (load_or_default w)) @ [\<lparr>ar_rung = r, ar_at = unix\<rparr>], restore_flag := f\<rparr>" w];
      simp add: record_rung_def Let_def)+

lemma undo_effects: "effects (undo_fast_boot_off w) = effects w @ [(Fast_boot True, state_file w)]"
  by (cases rule: call_cases [of "Fast_boot True" w]) (simp_all add: undo_fast_boot_off_def set_restore_flag_world)

lemma write_fails: "next_write w \<noteq> Written \<Longrightarrow> list_ex (\<lambda>a. a \<noteq> Written) (take (Suc n) (writes w))"
  by (cases "writes w") (simp_all add: next_write_def)

lemma second_write_fails: "next_write w \<noteq> Written \<Longrightarrow> writes w = tl ws \<Longrightarrow> list_ex (\<lambda>a. a \<noteq> Written) (take 2 ws)"
  using write_fails [of w 0] by (cases ws) (simp_all add: numeral_2_eq_2)

definition record_and_restart :: "nat \<Rightarrow> world \<Rightarrow> (string + unit) \<times> world" where
  "record_and_restart unix w =
     (case record_rung unix Reboot True w of
        (Inl e, w) \<Rightarrow> (Err (''not rebooting: '' @ e), undo_fast_boot_off w)
      | (Inr _, w) \<Rightarrow>
          (case call Restart w of
             (Inl e, w) \<Rightarrow> (Err e, undo_fast_boot_off w)
           | (Inr _, w) \<Rightarrow> (Ok (), w)))"

text \<open>A restart is asked for with the rung and the note to restore fast boot in the file.\<close>

definition on_record :: "nat \<Rightarrow> effect \<times> persisted option \<Rightarrow> bool" where
  "on_record unix = (\<lambda>(e, file).
     if e = Restart
     then (case file of
             Some p \<Rightarrow> restore_flag p \<and> saved_actions p \<noteq> [] \<and> last (saved_actions p) = \<lparr>ar_rung = Reboot, ar_at = unix\<rparr>
           | None \<Rightarrow> False)
     else True)"

lemma record_and_restart_ok:
  assumes "record_and_restart unix w = (res, w')"
  shows "(fast_boot w' \<or> flagged w' \<or> list_ex (\<lambda>a. a \<noteq> Written) (take 2 (writes w))) \<and>
    (\<exists>es. effects w' = effects w @ es \<and> list_all (on_record unix) es)"
proof -
  define r where "r = record_rung unix Reboot True w"
  have r: "effects (snd r) = effects w" "writes (snd r) = tl (writes w)"
    by (simp_all add: r_def record_rung_world)
  show ?thesis
  proof (cases "fst r")
    case (Inl e)
    then have "w' = undo_fast_boot_off (snd r)" and fails: "next_write w \<noteq> Written"
      using assms record_rung_result(1) [of w unix Reboot True]
      by (simp_all add: record_and_restart_def r_def split: prod.splits)
    then show ?thesis using write_fails [OF fails, of 1] r by (simp add: undo_effects numeral_2_eq_2 on_record_def)
  next
    case (Inr u)
    then have written: "next_write w = Written" "flagged (snd r)" "on_record unix (Restart, state_file (snd r))"
      using record_rung_result [of w unix Reboot True] by (simp_all add: r_def flagged_def on_record_def)
    have "(if fst (call Restart (snd r)) = Inr () then w' = snd (call Restart (snd r))
        else w' = undo_fast_boot_off (snd (call Restart (snd r))))"
      using assms Inr by (auto simp: record_and_restart_def simp flip: r_def split: prod.splits sum.splits)
    moreover have "on_record unix (Fast_boot True, f)" for f by (simp add: on_record_def)
    ultimately show ?thesis
      using written r undo_ok [of "snd (call Restart (snd r))"] second_write_fails [of "snd (call Restart (snd r))" "writes w"]
      by (cases rule: call_cases [of Restart "snd r"]) (auto simp: flagged_def undo_effects)
  qed
qed

lemma reboot_halves:
  "reboot_with_fast_boot_off unix w =
     (case call (Fast_boot False) w of
        (Inl e, w) \<Rightarrow> (Err e, w)
      | (Inr _, w) \<Rightarrow> record_and_restart unix w)"
  by (simp add: reboot_with_fast_boot_off_def record_and_restart_def split: prod.split sum.split)

lemma reboot_ok:
  assumes "fast_boot w"
  shows "(fast_boot (snd (reboot_with_fast_boot_off unix w)) \<or> flagged (snd (reboot_with_fast_boot_off unix w)) \<or>
      list_ex (\<lambda>a. a \<noteq> Written) (take 2 (writes w)) \<or> (\<exists>why. next_answer w = Failed why True)) \<and>
    (\<exists>es. effects (snd (reboot_with_fast_boot_off unix w)) = effects w @ es \<and> list_all (on_record unix) es)"
proof (cases rule: call_cases [of "Fast_boot False" w])
  case well
  define w2 where "w2 = takes_place (Fast_boot False) (w\<lparr>effects := effects w @ [(Fast_boot False, state_file w)], answers := tl (answers w)\<rparr>)"
  have "effects w2 = effects w @ [(Fast_boot False, state_file w)]" "writes w2 = writes w" "next_write w2 = next_write w"
    by (simp_all add: w2_def next_write_def)
  moreover have "reboot_with_fast_boot_off unix w = record_and_restart unix w2"
    using well(1) by (simp only: reboot_halves w2_def) simp
  moreover have "on_record unix (Fast_boot False, f)" for f by (simp add: on_record_def)
  ultimately show ?thesis
    using record_and_restart_ok [of unix w2 "fst (record_and_restart unix w2)" "snd (record_and_restart unix w2)"]
    by auto
qed (use assms in \<open>simp_all add: reboot_halves on_record_def\<close>)


definition demo_world :: world where
  "demo_world = \<lparr>state_file = None, fast_boot = True, rebooting = False, effects = [],
     answers = [Done, Failed ''ubus'' True, Failed ''ubus'' False], writes = []\<rparr>"


section \<open>Across a restart\<close>

definition seed :: "nat \<Rightarrow> duration \<Rightarrow> persisted \<Rightarrow> machine \<Rightarrow> machine" where
  "seed unix now p m = fold (\<lambda>r m. record_action (ar_rung r) (instant_of unix now (ar_at r)) m) (saved_actions p) m"

lemma fold_record:
  "history (fold (\<lambda>r m. record_action (ar_rung r) (f r) m) rs m) = history m @ map (\<lambda>r. (ar_rung r, f r)) rs"
  by (induction rs arbitrary: m) (simp_all add: record_action_def)

lemma restore_history:
  assumes "state_file w = Some p"
  shows "history (fst (snd (restore_state unix now m w))) =
    history m @ map (\<lambda>r. (ar_rung r, instant_of unix now (ar_at r))) (saved_actions (persisted_prune unix p))"
proof -
  have "saved_actions (persisted_prune unix (p\<lparr>restore_flag := f\<rparr>)) = saved_actions (persisted_prune unix p)" for f
    by (simp add: persisted_prune_def)
  then show ?thesis
    using assms by (cases "fst (restore_fast_boot w)") (auto simp: restore_state_def Let_def fold_record split: prod.splits)
qed

lemma restore_attempts_turn_on:
  "fst (restore_attempts n w) \<Longrightarrow> fast_boot (snd (restore_attempts n w))"
proof (induction n arbitrary: w)
  case (Suc n)
  then show ?case by (cases rule: call_cases [of "Fast_boot True" w]) simp_all
qed simp

lemma instant_of_recent: "instant_of unix now at + from_secs (unix - at) = now \<or> instant_of unix now at = now"
  by (simp add: instant_of_def Let_def)

text \<open>
  A watchdog's pace survives its own restart. When the agent starts again within a day of a rung
  in the state file, the machine it starts has that rung in its history, at the same age, and refuses
  to repeat it until the rung's cooldown, counted from when it was taken, is over.
\<close>

theorem restart_keeps_cooldowns:
  assumes "state_file w = Some p" and "\<lparr>ar_rung = r, ar_at = at\<rparr> \<in> set (saved_actions p)"
    and "at \<le> unix" and "unix - at < 24 * 3600" and "from_secs (unix - at) \<le> now"
    and "length (history m) + length (saved_actions p) < 2 ^ 32"
    and "t + from_secs (unix - at) < now + cooldown r"
  shows "(r, now - from_secs (unix - at)) \<in> set (history (fst (snd (restore_state unix now m w)))) \<and>
    blocked_until busy (fst (snd (restore_state unix now m w))) r t \<noteq> None"
proof -
  let ?m = "fst (snd (restore_state unix now m w))"
  have hist: "history ?m = history m @ map (\<lambda>r. (ar_rung r, instant_of unix now (ar_at r))) (saved_actions (persisted_prune unix p))"
    by (rule restore_history [OF assms(1)])
  have "\<lparr>ar_rung = r, ar_at = at\<rparr> \<in> set (saved_actions (persisted_prune unix p))"
    using assms(2-4) by (simp add: persisted_prune_def DAY_def dur_as_secs_def from_secs_def)
  then have mem: "(r, now - from_secs (unix - at)) \<in> set (history ?m)"
    using assms(5) by (force simp: hist instant_of_def)
  have "\<not> allowed busy (user_activity ?m) (history ?m) r t"
    using mem assms(5,7) by (auto simp: allowed_def list_all_iff dest!: bspec)
  moreover have "length (saved_actions (persisted_prune unix p)) \<le> length (saved_actions p)"
    by (simp add: persisted_prune_def)
  then have "length (history ?m) < 2 ^ 32"
    using assms(6) by (simp only: hist length_append length_map)
  ultimately show ?thesis using mem blocked_until_iff by blast
qed

definition demo_saved :: world where
  "demo_saved = demo_world\<lparr>state_file := Some \<lparr>restore_flag = True, saved_actions = [\<lparr>ar_rung = Reboot, ar_at = 1700000000\<rparr>]\<rparr>\<rparr>"

theorem restart_keeps_cooldowns_witness:
  "blocked_until None (fst (snd (restore_state 1700003600 (from_secs 5000)
     (machine_new \<lparr>wd_enabled = True, allow_reboot = True\<rparr>) demo_saved))) Reboot (from_secs 87000) \<noteq> None"
  using restart_keeps_cooldowns [where w = demo_saved and r = Reboot and at = 1700000000 and unix = 1700003600 and
      now = "from_secs 5000" and t = "from_secs 87000" and busy = None and
      m = "machine_new \<lparr>wd_enabled = True, allow_reboot = True\<rparr>" and
      p = "\<lparr>restore_flag = True, saved_actions = [\<lparr>ar_rung = Reboot, ar_at = 1700000000\<rparr>]\<rparr>"]
  by (simp add: demo_saved_def from_secs_def machine_new_def DAY_def)

lemma call_keeps_file [simp]: "state_file (snd (call e w)) = state_file w"
  by (cases rule: call_cases [of e w]) simp_all

lemma perform_rung:
  "r \<noteq> Reboot \<Longrightarrow> \<exists>e s. perform unix (Act r) w = snd (call e (snd (record_rung unix r False (notify s w))))"
  by (cases r; simp; blast)

lemma next_write_notify [simp]: "next_write (notify s w) = next_write w"
  by (simp add: next_write_def notify_def)

lemma rung_clears_flag:
  assumes "r \<noteq> Reboot" and "next_write w = Written"
  shows "\<exists>p. state_file (perform unix (Act r) w) = Some p \<and> \<not> restore_flag p"
proof -
  obtain e s where "perform unix (Act r) w = snd (call e (snd (record_rung unix r False (notify s w))))"
    using perform_rung [OF assms(1)] by blast
  moreover have "next_write (notify s w) = Written" using assms(2) by simp
  ultimately show ?thesis using record_rung_result(2) [of "notify s w" unix r False] by simp
qed

lemma save_keeps_effects [simp]: "effects (snd (save p w)) = effects w"
  by (cases rule: save_cases [of p w]) simp_all

text \<open>
  Any rung but the reboot, when it is recorded, clears the note that fast boot must be restored:
  a restore still pending from an earlier reboot (its calls having failed so far) is then known to the
  running thread only, and an agent that starts again leaves fast boot off.
\<close>

theorem rung_forgets_restore:
  assumes "r \<noteq> Reboot" and "next_write w = Written"
  shows "\<not> flagged (perform unix (Act r) w) \<and>
    effects (snd (snd (restore_state unix' now m (perform unix (Act r) w)))) = effects (perform unix (Act r) w)"
  using rung_clears_flag [OF assms, of unix]
  by (auto simp: flagged_def restore_state_def Let_def simp del: perform.simps)

theorem rung_forgets_restore_witness:
  "flagged demo_saved \<and> \<not> flagged (perform 1700003600 (Act PdnReconnect) demo_saved)"
  using rung_forgets_restore [of PdnReconnect demo_saved 1700003600]
  by (simp add: flagged_def demo_saved_def demo_world_def next_write_def)

end
