(* ===== verification/Watchdog_Safety.thy ===== *)
theory Watchdog_Safety
  imports Conn_Watchdog "HOL-Library.Code_Target_Nat"
begin

text \<open>
  What the connectivity watchdog may do: its invariant, that every rung it takes is allowed, has an
  outage behind it and climbs the ladder, and that over any run the cooldowns and daily caps hold.
\<close>

section \<open>The invariant\<close>

text \<open>The times of the failed probes since the last successful one.\<close>

fun probe_trail :: "duration list \<Rightarrow> input list \<Rightarrow> duration list" where
  "probe_trail tr [] = tr"
| "probe_trail tr (i # is) =
     probe_trail (case in_event i of Probe True \<Rightarrow> [] | Probe False \<Rightarrow> tr @ [in_now i] | _ \<Rightarrow> tr) is"

definition outage :: "duration list \<Rightarrow> duration \<Rightarrow> bool" where
  "outage tr t \<longleftrightarrow> 3 \<le> length tr \<and> list_ex (\<lambda>f. f + from_secs 600 \<le> t) tr"

text \<open>A rung is the first one, or the one after the last rung taken, whose recovery window is over.\<close>

definition climbs :: "(rung \<times> duration) list \<Rightarrow> rung \<Rightarrow> duration \<Rightarrow> bool" where
  "climbs h r t \<longleftrightarrow> r = PdnReconnect \<or>
     (h \<noteq> [] \<and> next_rung (fst (last h)) True = Some r \<and> snd (last h) + RECOVERY_WINDOW \<le> t)"

definition failures_inv :: "duration list \<Rightarrow> machine \<Rightarrow> bool" where
  "failures_inv tr m \<longleftrightarrow> failures m \<le> length tr \<and> (\<forall>f. first_failure m = Some f \<longrightarrow> f \<in> set tr)"

definition state_inv :: "duration list \<Rightarrow> machine \<Rightarrow> bool" where
  "state_inv tr m \<longleftrightarrow>
     (case state m of
        Idle \<Rightarrow> deadline m = None
      | Waiting r at fails \<Rightarrow>
          wd_enabled (config m) \<and> history m \<noteq> [] \<and> last (history m) = (r, at) \<and>
          (deadline m = None \<or> deadline m = Some (at + RECOVERY_WINDOW)) \<and> outage tr at
      | Cooling r until \<Rightarrow>
          wd_enabled (config m) \<and> wan_connected m = Some True \<and> deadline m = Some until \<and>
          climbs (history m) r until \<and> outage tr until)"

definition watch_inv :: "duration list \<Rightarrow> machine \<Rightarrow> bool" where
  "watch_inv tr m \<longleftrightarrow> failures_inv tr m \<and> state_inv tr m"

text \<open>What a step may do: take no rung, or take one that is due, on the machine's current evidence.\<close>

definition due :: "duration list \<Rightarrow> machine \<Rightarrow> rung \<Rightarrow> duration \<Rightarrow> bool" where
  "due tr m r now \<longleftrightarrow>
     wd_enabled (config m) \<and> wan_connected m = Some True \<and> climbs (history m) r now \<and> outage tr now"

definition steps_ok :: "string option \<Rightarrow> duration \<Rightarrow> duration list \<Rightarrow> machine \<Rightarrow> wd_action list \<times> machine \<Rightarrow> bool" where
  "steps_ok busy now tr m res \<longleftrightarrow>
     watch_inv tr (snd res) \<and> user_activity (snd res) = user_activity m \<and>
     ((acts_of (fst res) = [] \<and> history (snd res) = history m) \<or>
      (\<exists>r. acts_of (fst res) = [r] \<and> history (snd res) = history m @ [(r, now)] \<and>
           blocked_until busy m r now = None \<and> due tr m r now))"

lemma outage_mono: "outage tr t \<Longrightarrow> t \<le> u \<Longrightarrow> outage tr u"
  by (auto simp: outage_def list_ex_iff intro: le_trans)

lemma climbs_mono: "climbs h r t \<Longrightarrow> t \<le> u \<Longrightarrow> climbs h r u"
  by (auto simp: climbs_def)

lemma acts_of_Log [simp]: "acts_of (Log s # as) = acts_of as"
  by simp

lemma blocked_until_same:
  "history m' = history m \<Longrightarrow> user_activity m' = user_activity m \<Longrightarrow> blocked_until busy m' r now = blocked_until busy m r now"
  by (simp add: blocked_until_def reasons_def)

lemma try_act_ok:
  assumes "due tr m r now" and "failures_inv tr m"
    and "history m = history m0" "user_activity m = user_activity m0" "config m = config m0"
      "wan_connected m = wan_connected m0"
  shows "steps_ok busy now tr m0 (try_act busy r now m)"
proof (cases "blocked_until busy m r now")
  case None
  then show ?thesis
    using assms blocked_until_same [of m0 m busy r now]
    by (simp add: steps_ok_def try_act_def watch_inv_def failures_inv_def state_inv_def due_def)
next
  case (Some b)
  obtain until why where b: "b = (until, why)" by (cases b)
  have "now \<le> until" using blocked_later Some b by fastforce
  then show ?thesis
    using Some b assms outage_mono [of tr now until] climbs_mono [of "history m" r now until]
    by (simp add: steps_ok_def try_act_def watch_inv_def failures_inv_def state_inv_def due_def)
qed

lemma steps_ok_log [simp]: "steps_ok busy now tr m (Log s # as, m') = steps_ok busy now tr m (as, m')"
  by (simp add: steps_ok_def)

lemma steps_ok_quiet:
  "watch_inv tr m' \<Longrightarrow> user_activity m' = user_activity m \<Longrightarrow> history m' = history m \<Longrightarrow> acts_of as = [] \<Longrightarrow>
     steps_ok busy now tr m (as, m')"
  by (simp add: steps_ok_def)

lemma next_rung_any: "next_rung r allow = Some r' \<Longrightarrow> next_rung r True = Some r'"
  by (cases r) (auto split: if_splits)

lemma steps_ok_note:
  "steps_ok busy now tr m (case p of (as, m') \<Rightarrow> (Log s # as, m')) \<longleftrightarrow> steps_ok busy now tr m p"
  by (cases p) (simp add: steps_ok_def)

lemma escalate_ok:
  assumes "state_inv tr m" "failures_inv tr m" "state m = Waiting r at k" "wan_connected m = Some True"
    "at + RECOVERY_WINDOW \<le> now"
    and "history m = history m0" "user_activity m = user_activity m0" "config m = config m0"
      "wan_connected m = wan_connected m0"
  shows "steps_ok busy now tr m0 (escalate busy r now m)"
proof (cases "next_rung r (allow_reboot (config m))")
  case None
  then show ?thesis
    using assms by (simp add: escalate_def clear_failures_def steps_ok_def watch_inv_def failures_inv_def state_inv_def)
next
  case (Some r')
  have "outage tr now" using assms(1,3,5) outage_mono [of tr at now] by (auto simp: state_inv_def)
  with assms next_rung_any [OF Some] have "due tr m r' now"
    by (auto simp: due_def state_inv_def climbs_def)
  then show ?thesis
    using Some try_act_ok [OF _ assms(2) assms(6-9)] by (simp add: escalate_def Let_def steps_ok_note)
qed

lemma clear_failures_inv [simp]:
  "failures_inv tr (clear_failures m)" "state_inv tr (clear_failures m) = state_inv tr m"
  "state (clear_failures m) = state m" "history (clear_failures m) = history m"
  "user_activity (clear_failures m) = user_activity m" "config (clear_failures m) = config m"
  by (simp_all add: clear_failures_def failures_inv_def state_inv_def split: state.split)

lemma reset_ok:
  "history m = history m0 \<Longrightarrow> user_activity m = user_activity m0 \<Longrightarrow> steps_ok busy now tr m0 (reset why m)"
  by (simp add: reset_def steps_ok_def watch_inv_def failures_inv_def state_inv_def)

lemma on_wan_ok: "watch_inv tr m \<Longrightarrow> steps_ok busy now tr m (on_wan connected now m)"
  by (cases "state m")
    (auto simp: on_wan_def Let_def watch_inv_def state_inv_def failures_inv_def clear_failures_def
      intro!: reset_ok steps_ok_quiet)

lemma on_config_ok: "watch_inv tr m \<Longrightarrow> steps_ok busy now tr m (on_config cfg m)"
  by (auto simp: on_config_def Let_def watch_inv_def state_inv_def failures_inv_def clear_failures_def
      split: state.splits intro!: steps_ok_quiet)

lemma on_timer_ok:
  assumes "watch_inv tr m"
  shows "steps_ok busy now tr m (on_timer busy now m)"
proof -
  let ?m = "m\<lparr>deadline := None\<rparr>"
  have inv: "state_inv tr m" "failures_inv tr ?m"
    using assms by (simp_all add: watch_inv_def failures_inv_def)
  show ?thesis
  proof (cases "state m")
    case Idle
    then show ?thesis using inv assms by (simp add: on_timer_def state_inv_def steps_ok_quiet)
  next
    case (Waiting r at k)
    then have "state_inv tr ?m" using inv(1) by (simp add: state_inv_def)
    moreover from Waiting have "deadline m = None \<or> deadline m = Some (at + RECOVERY_WINDOW)"
      using inv(1) by (simp add: state_inv_def)
    moreover from calculation(1) have "steps_ok busy now tr m (escalate busy r now ?m)"
      if "at + RECOVERY_WINDOW \<le> now" "wan_connected m = Some True"
      using escalate_ok [of tr ?m r at k now m] inv(2) Waiting that by simp
    ultimately show ?thesis
      using Waiting inv assms
      by (auto simp: on_timer_def Let_def watch_inv_def intro!: reset_ok steps_ok_quiet)
  next
    case (Cooling r until)
    have "due tr ?m r now" if "until \<le> now"
      using inv(1) Cooling that outage_mono climbs_mono by (auto simp: due_def state_inv_def)
    then show ?thesis
      using Cooling inv assms try_act_ok [of tr ?m r now m]
      by (auto simp: on_timer_def Let_def state_inv_def intro!: steps_ok_quiet)
  qed
qed

lemma state_inv_trail: "state_inv tr m \<Longrightarrow> state_inv (tr @ [now]) m"
  by (auto simp: state_inv_def outage_def split: state.splits)

lemma on_probe_ok:
  assumes "watch_inv tr m"
  shows "steps_ok busy now (if ok then [] else tr @ [now]) m (on_probe busy ok now m)"
proof (cases "ok \<or> \<not> wd_enabled (config m) \<or> wan_connected m \<noteq> Some True")
  case True
  then show ?thesis
    using assms state_inv_trail [of tr m now]
    by (auto simp: on_probe_def Let_def watch_inv_def failures_inv_def state_inv_def clear_failures_def
        split: state.splits intro!: steps_ok_quiet)
next
  case False
  have inv: "state_inv (tr @ [now]) m" "failures_inv (tr @ [now]) m"
    using assms state_inv_trail by (auto simp: watch_inv_def failures_inv_def)
  show ?thesis
  proof (cases "state m")
    case Idle
    define first where "first = (case first_failure m of Some f \<Rightarrow> f | None \<Rightarrow> now)"
    let ?m = "m\<lparr>failures := u32_succ (failures m), first_failure := Some first\<rparr>"
    have first: "first \<in> set (tr @ [now])"
      using assms by (auto simp: first_def watch_inv_def failures_inv_def split: option.split)
    have "u32_succ (failures m) \<le> failures m + 1" by (simp add: u32_succ_def)
    with assms have le: "u32_succ (failures m) \<le> length (tr @ [now])"
      by (simp add: watch_inv_def failures_inv_def)
    then have fi: "failures_inv (tr @ [now]) ?m" using first by (simp add: failures_inv_def)
    have "due (tr @ [now]) ?m PdnReconnect now"
      if "TRIGGER_FAILURES \<le> u32_succ (failures m)" "TRIGGER_MIN_AGE \<le> now - first"
      using that le first False
      by (auto simp: due_def climbs_def outage_def TRIGGER_FAILURES_def TRIGGER_MIN_AGE_def from_secs_def list_ex_iff
          intro!: bexI [of _ first])
    with fi have "steps_ok busy now (tr @ [now]) m (try_act busy PdnReconnect now ?m)"
      if "TRIGGER_FAILURES \<le> u32_succ (failures m)" "TRIGGER_MIN_AGE \<le> now - first"
      using that try_act_ok [of "tr @ [now]" ?m PdnReconnect now m] by simp
    moreover have "watch_inv (tr @ [now]) ?m"
      using fi inv(1) Idle by (simp add: watch_inv_def state_inv_def)
    ultimately show ?thesis
      using False Idle by (simp add: on_probe_def Let_def first_def steps_ok_note steps_ok_quiet)
  next
    case (Waiting r at k)
    let ?m = "m\<lparr>state := Waiting r at (u32_succ k)\<rparr>"
    have "state_inv (tr @ [now]) ?m" "failures_inv (tr @ [now]) ?m"
      using inv Waiting by (simp_all add: state_inv_def failures_inv_def)
    then show ?thesis
      using False Waiting inv escalate_ok [of "tr @ [now]" ?m r at "u32_succ k" now m]
      by (auto simp: on_probe_def Let_def watch_inv_def intro!: steps_ok_quiet)
  next
    case (Cooling r until)
    then show ?thesis using False inv by (simp add: on_probe_def watch_inv_def steps_ok_quiet)
  qed
qed

lemma apply_event_ok:
  assumes "watch_inv tr m"
  shows "steps_ok (in_busy i) (in_now i) (probe_trail tr [i]) (set_user_activity (in_user i) m) (apply_event i m)"
proof -
  have inv: "watch_inv tr (set_user_activity (in_user i) m)"
    using assms by (cases "state m") (simp_all add: set_user_activity_def watch_inv_def failures_inv_def state_inv_def)
  show ?thesis
  proof (cases "in_event i")
    case (Probe ok)
    then show ?thesis
      using on_probe_ok [OF inv, where now = "in_now i" and ok = ok and busy = "in_busy i"]
      by (cases ok) (simp_all add: apply_event_def)
  qed (simp_all add: apply_event_def on_wan_ok on_timer_ok on_config_ok inv)
qed

section \<open>Runs\<close>

text \<open>
  A machine as the thread starts it: idle, nothing counted, and in its history only what was recorded
  before the agent restarted.
\<close>

definition starting :: "machine \<Rightarrow> bool" where
  "starting m \<longleftrightarrow> state m = Idle \<and> deadline m = None \<and> failures m = 0 \<and> first_failure m = None \<and> wan_connected m = None"

definition after :: "input list \<Rightarrow> machine \<Rightarrow> machine" where
  "after is m = snd (run is m)"

lemma after_simps [simp]:
  "after [] m = m"
  "after (i # is) m = after is (snd (apply_event i m))"
  by (simp_all add: after_def case_prod_beta)

lemma after_snoc: "after (is @ [i]) m = snd (apply_event i (after is m))"
  by (induction "is" arbitrary: m) simp_all

lemma probe_trail_append: "probe_trail tr (is @ js) = probe_trail (probe_trail tr is) js"
  by (induction "is" arbitrary: tr) simp_all

lemma starting_inv: "starting m \<Longrightarrow> watch_inv [] m"
  by (simp add: starting_def watch_inv_def failures_inv_def state_inv_def)

lemma after_inv: "watch_inv tr m \<Longrightarrow> watch_inv (probe_trail tr is) (after is m)"
proof (induction "is" arbitrary: tr m)
  case (Cons i "is")
  have "watch_inv (probe_trail tr [i]) (snd (apply_event i m))"
    using apply_event_ok [OF Cons.prems, of i] by (simp add: steps_ok_def)
  then show ?case using Cons.IH by simp
qed simp

lemma set_user_keeps [simp]:
  "history (set_user_activity u m) = history m" "user_activity (set_user_activity u m) = u"
  "config (set_user_activity u m) = config m" "wan_connected (set_user_activity u m) = wan_connected m"
  by (simp_all add: set_user_activity_def)

lemma length_history_step:
  "watch_inv tr m \<Longrightarrow> length (history (snd (apply_event i m))) \<le> length (history m) + 1"
  using apply_event_ok [of tr m i] by (auto simp: steps_ok_def)

lemma length_history_after:
  "watch_inv tr m \<Longrightarrow> length (history (after is m)) \<le> length (history m) + length is"
proof (induction "is" arbitrary: tr m)
  case (Cons i "is")
  have "watch_inv (probe_trail tr [i]) (snd (apply_event i m))"
    using apply_event_ok [OF Cons.prems, of i] by (simp add: steps_ok_def)
  with Cons.IH length_history_step [OF Cons.prems, of i] show ?case by fastforce
qed simp

text \<open>One step of a run, in the terms of the promise.\<close>

lemma step_of_run:
  assumes "starting m0" and "length (history m0) + length is < 2 ^ 32" and "apply_event i (after is m0) = (as, m)"
  shows "(acts_of as = [] \<and> history m = history (after is m0)) \<or>
    (\<exists>r. acts_of as = [r] \<and> history m = history (after is m0) @ [(r, in_now i)] \<and>
      allowed (in_busy i) (in_user i) (history (after is m0)) r (in_now i) \<and>
      due (probe_trail [] (is @ [i])) (after is m0) r (in_now i))"
proof -
  let ?m = "after is m0"
  have inv: "watch_inv (probe_trail [] is) ?m" by (rule after_inv [OF starting_inv [OF assms(1)]])
  have "length (history ?m) < 2 ^ 32"
    using length_history_after [OF starting_inv [OF assms(1)], of "is"] assms(2) by simp
  then have "blocked_until (in_busy i) (set_user_activity (in_user i) ?m) r (in_now i) = None \<longleftrightarrow>
      allowed (in_busy i) (in_user i) (history ?m) r (in_now i)" for r
    using blocked_until_iff [of "set_user_activity (in_user i) ?m" "in_busy i" r "in_now i"] by simp
  moreover have "due tr (set_user_activity u ?m) r t = due tr ?m r t" for tr u r t by (simp add: due_def)
  ultimately show ?thesis
    using apply_event_ok [OF inv, of i] assms(3) by (simp add: steps_ok_def probe_trail_append)
qed

text \<open>
  C15: whatever sequence of WAN, probe, timer and configuration events the watchdog has seen, a rung it
  takes now is taken on good grounds: it is enabled and the WAN reported connected; no call, USSD
  session or speed test is running and the user changed nothing in the last two minutes; at least
  three probes failed since the last that succeeded, one of them ten minutes ago or more; the rung is
  the first or the one after the rung last taken, whose five minutes are over; its cooldown is over
  and its daily cap not reached; and it is recorded.
\<close>

theorem rung_needs_outage:
  assumes "starting m0" and "length (history m0) + length is < 2 ^ 32"
    and "apply_event i (after is m0) = (as, m)" and "r \<in> set (acts_of as)"
  shows "wd_enabled (config (after is m0)) \<and> wan_connected (after is m0) = Some True \<and>
    outage (probe_trail [] (is @ [i])) (in_now i) \<and> climbs (history (after is m0)) r (in_now i) \<and>
    allowed (in_busy i) (in_user i) (history (after is m0)) r (in_now i) \<and>
    acts_of as = [r] \<and> history m = history (after is m0) @ [(r, in_now i)]"
  using step_of_run [OF assms(1-3)] assms(4) by (auto simp: due_def)

definition demo_config :: wd_config where
  "demo_config = \<lparr>wd_enabled = True, allow_reboot = True\<rparr>"

definition input_at :: "nat \<Rightarrow> event \<Rightarrow> input" where
  "input_at s e = \<lparr>in_event = e, in_now = from_secs s, in_busy = None, in_user = None\<rparr>"

definition demo_outage :: "input list" where
  "demo_outage = [input_at 0 (Wan True), input_at 10 (Probe False), input_at 300 (Probe False)]"

lemma starting_new: "starting (machine_new cfg)"
  by (simp add: starting_def machine_new_def)

lemma demo_reconnect: "apply_event (input_at 610 (Probe False)) (after demo_outage (machine_new demo_config)) =
    ([Log ''WAN connected but 3 probes failed over 10 min; starting recovery ladder'', Act PdnReconnect],
     snd (apply_event (input_at 610 (Probe False)) (after demo_outage (machine_new demo_config))))"
  by code_simp

theorem rung_needs_outage_witness:
  "outage (probe_trail [] (demo_outage @ [input_at 610 (Probe False)])) (from_secs 610) \<and>
   acts_of (fst (apply_event (input_at 610 (Probe False)) (after demo_outage (machine_new demo_config)))) = [PdnReconnect]"
proof -
  have small: "length (history (machine_new demo_config)) + length demo_outage < 2 ^ 32"
    by (simp add: machine_new_def demo_outage_def)
  have now: "in_now (input_at 610 (Probe False)) = from_secs 610" by (simp add: input_at_def)
  have "PdnReconnect \<in> set (acts_of [Log ''WAN connected but 3 probes failed over 10 min; starting recovery ladder'', Act PdnReconnect])"
    by simp
  from rung_needs_outage [OF starting_new small demo_reconnect this, unfolded now]
  show ?thesis using arg_cong [OF demo_reconnect, of "\<lambda>p. acts_of (fst p)"] by (simp only: fst_conv)
qed

section \<open>Cooldowns and daily caps over a run\<close>

definition in_window :: "rung \<Rightarrow> duration \<Rightarrow> (rung \<times> duration) list \<Rightarrow> (rung \<times> duration) list" where
  "in_window r w h = filter (\<lambda>(r', t). r' = r \<and> w \<le> t \<and> t < w + DAY) h"

text \<open>
  The rungs from the \<open>n\<close>th on are at their pace, with regard to all before them: a day that holds one of
  them holds no more of its kind than the cap, and none comes within its cooldown of an earlier one.
\<close>

definition paced_since :: "nat \<Rightarrow> (rung \<times> duration) list \<Rightarrow> bool" where
  "paced_since n h \<longleftrightarrow>
     (\<forall>r cap w. daily_cap r = Some cap \<longrightarrow> in_window r w (drop n h) \<noteq> [] \<longrightarrow> length (in_window r w h) \<le> cap) \<and>
     (\<forall>i j. i < j \<longrightarrow> n \<le> j \<longrightarrow> j < length h \<longrightarrow> fst (h ! i) = fst (h ! j) \<longrightarrow>
        snd (h ! i) + cooldown (fst (h ! j)) \<le> snd (h ! j))"

lemma window_snoc:
  assumes "daily_cap r = Some cap" and "in_window r w (drop n h) \<noteq> [] \<Longrightarrow> length (in_window r w h) \<le> cap"
    and "allowed busy user h r' now" and "n \<le> length h" and "in_window r w (drop n (h @ [(r', now)])) \<noteq> []"
  shows "length (in_window r w (h @ [(r', now)])) \<le> cap"
proof (cases "r' = r \<and> w \<le> now \<and> now < w + DAY")
  case True
  then have "length (in_window r w h) \<le> length (filter (\<lambda>(r', t). r' = r \<and> now < t + DAY) h)"
    unfolding in_window_def by (intro length_filter_imp) auto
  moreover have "length (filter (\<lambda>(r', t). r' = r \<and> now < t + DAY) h) < cap"
    using assms(1,3) True by (simp add: allowed_def)
  ultimately show ?thesis by (simp add: in_window_def)
next
  case False
  then have "in_window r w (h @ [(r', now)]) = in_window r w h" "in_window r w (drop n (h @ [(r', now)])) = in_window r w (drop n h)"
    using assms(4) by (auto simp: in_window_def)
  with assms(2,5) show ?thesis by simp
qed

lemma paced_snoc:
  assumes "paced_since n h" and "allowed busy user h r now" and "n \<le> length h"
  shows "paced_since n (h @ [(r, now)])"
  unfolding paced_since_def
proof (intro conjI allI impI)
  fix q cap w
  assume "daily_cap q = Some cap" and "in_window q w (drop n (h @ [(r, now)])) \<noteq> []"
  with assms show "length (in_window q w (h @ [(r, now)])) \<le> cap"
    by (intro window_snoc) (auto simp: paced_since_def)
next
  fix i j
  assume ij: "i < j" "n \<le> j" "j < length (h @ [(r, now)])" "fst ((h @ [(r, now)]) ! i) = fst ((h @ [(r, now)]) ! j)"
  have "snd (h ! i) + cooldown r \<le> now" if "i < length h" "fst (h ! i) = r" for i
    using assms(2) that nth_mem [OF that(1)] by (cases "h ! i") (auto simp: allowed_def list_all_iff)
  with ij assms(1) show "snd ((h @ [(r, now)]) ! i) + cooldown (fst ((h @ [(r, now)]) ! j)) \<le> snd ((h @ [(r, now)]) ! j)"
    by (auto simp: paced_since_def nth_append)
qed

lemma history_grows:
  assumes "starting m0"
  shows "length (history m0) + length is < 2 ^ 32 \<Longrightarrow> length (history m0) \<le> length (history (after is m0))"
proof (induction "is" rule: rev_induct)
  case (snoc i "is")
  obtain as m where step: "apply_event i (after is m0) = (as, m)" by (cases "apply_event i (after is m0)")
  from step_of_run [OF assms _ step] snoc step show ?case by (auto simp: after_snoc)
qed simp

text \<open>
  C2: over any run of the watchdog, however its events fall, and whatever history of rungs it starts
  with (the ones its state file says were taken before a restart): no twenty-four hours in which the run
  takes a modem reset hold more than three, none in which it reboots hold more than one reboot, the ones
  before the start included; and it takes no rung within its cooldown of an earlier one, be that of the
  run or from before it.
\<close>

theorem watchdog_paces_itself:
  assumes "starting m0" and "length (history m0) + length is < 2 ^ 32"
  shows "paced_since (length (history m0)) (history (after is m0))"
  using assms(2)
proof (induction "is" rule: rev_induct)
  case Nil
  then show ?case by (auto simp: paced_since_def in_window_def)
next
  case (snoc i "is")
  obtain as m where step: "apply_event i (after is m0) = (as, m)" by (cases "apply_event i (after is m0)")
  have "paced_since (length (history m0)) (history (after is m0))" using snoc by simp
  moreover have "length (history m0) \<le> length (history (after is m0))" using history_grows [OF assms(1)] snoc.prems by simp
  ultimately show ?case
    using step_of_run [OF assms(1) _ step] snoc.prems step paced_snoc by (auto simp: after_snoc)
qed

definition demo_ladder :: "input list" where
  "demo_ladder = demo_outage @ [input_at 610 (Probe False), input_at 700 (Probe False), input_at 910 Timer]"

theorem watchdog_paces_itself_witness:
  "paced_since 0 (history (after demo_ladder (machine_new demo_config))) \<and>
   history (after demo_ladder (machine_new demo_config)) = [(PdnReconnect, from_secs 610), (LpmOnline, from_secs 910)]"
proof -
  have "history (after demo_ladder (machine_new demo_config)) = [(PdnReconnect, from_secs 610), (LpmOnline, from_secs 910)]"
    by code_simp
  then show ?thesis
    using watchdog_paces_itself [OF starting_new, of demo_config demo_ladder]
    by (simp add: demo_ladder_def demo_outage_def machine_new_def)
qed

section \<open>Opting in to reboots\<close>

text \<open>
  The watchdog reboots on the user's leave only when it decides to: without it the ladder ends at
  the modem reset, with no rung taken and nothing pending. But leave given up while a reboot is
  deferred is not looked at again: the reboot still happens when its wait is over.
\<close>

theorem reboot_leave_read_once:
  assumes "state m = Cooling Reboot until" and "deadline m = Some until" and "until \<le> now"
    and "wd_enabled cfg" and "\<not> allow_reboot cfg"
    and "blocked_until busy m Reboot now = None"
    and "\<not> allow_reboot (config n)"
  shows "acts_of (fst (escalate busy ModemReset t n)) = [] \<and> state (snd (escalate busy ModemReset t n)) = Idle \<and>
    acts_of (fst (step busy Timer now (snd (step busy' (Config cfg) t m)))) = [Reboot]"
proof -
  have "blocked_until busy (m\<lparr>config := cfg, deadline := None\<rparr>) Reboot now = None"
    using assms(6) by (simp add: blocked_until_def reasons_def)
  with assms show ?thesis
    by (simp add: escalate_def clear_failures_def on_config_def on_timer_def try_act_def)
qed

definition demo_deferred :: machine where
  "demo_deferred = after (demo_ladder @ [input_at 1000 (Probe False), input_at 1210 Timer, input_at 1300 (Probe False),
     (input_at 1510 Timer)\<lparr>in_busy := Some ''call''\<rparr>]) (machine_new demo_config)"

theorem reboot_leave_read_once_witness:
  "acts_of (fst (step None Timer (from_secs 1570)
     (snd (step None (Config (demo_config\<lparr>allow_reboot := False\<rparr>)) (from_secs 1520) demo_deferred)))) = [Reboot]"
proof -
  have "state demo_deferred = Cooling Reboot (from_secs 1570)" "deadline demo_deferred = Some (from_secs 1570)"
    "blocked_until None demo_deferred Reboot (from_secs 1570) = None"
    by code_simp+
  with reboot_leave_read_once [of demo_deferred "from_secs 1570" "from_secs 1570" "demo_config\<lparr>allow_reboot := False\<rparr>"
      None "machine_new (demo_config\<lparr>allow_reboot := False\<rparr>)" "from_secs 1520" None]
  show ?thesis by (simp add: demo_config_def machine_new_def)
qed

end
