(* ===== verification/Web_Navigation.thy ===== *)
theory Web_Navigation
  imports Web_Session
begin

text \<open>
  Where the web UI sends a browser: a \<open>next\<close> target stays on a page of the UI however the browser
  resolves it, the login comes back to the page asked for, the marker hop ends, and a live session's
  cookie is found among others.
\<close>

section \<open>How a browser resolves a path\<close>

text \<open>
  The URL standard's path state: a segment that is \<open>.\<close> or \<open>..\<close>, also with \<open>%2e\<close> for a dot, is resolved.
\<close>

fun undot :: "string \<Rightarrow> string" where
  "undot (a # b # c # s) =
     (if a = CHR ''%'' \<and> b = CHR ''2'' \<and> (c = CHR ''e'' \<or> c = CHR ''E'') then CHR ''.'' # undot s
      else a # undot (b # c # s))"
| "undot s = s"

fun resolve :: "string list \<Rightarrow> string list \<Rightarrow> string list" where
  "resolve acc [] = rev acc"
| "resolve acc (s # ss) =
     (if undot s = ''.'' then resolve (if ss = [] then [] # acc else acc) ss
      else if undot s = ''..''
      then (let up = (if length acc \<le> 1 then acc else tl acc) in resolve (if ss = [] then [] # up else up) ss)
      else resolve (s # acc) ss)"

definition browser_path :: "string \<Rightarrow> string" where
  "browser_path s = join ''/'' (resolve [] (split_char CHR ''/'' (path_part s)))"

lemma resolve_plain: "\<forall>s \<in> set ss. undot s \<noteq> ''.'' \<and> undot s \<noteq> ''..'' \<Longrightarrow> resolve acc ss = rev acc @ ss"
  by (induction ss arbitrary: acc) auto

lemma lower_e: "eq_ignore_ascii_case [c] ''e'' \<longleftrightarrow> c = CHR ''e'' \<or> c = CHR ''E''"
proof -
  have "char_of (of_char c + 32 :: nat) = CHR ''e'' \<longleftrightarrow> c = CHR ''E''" if "CHR ''A'' \<le> c" "c \<le> CHR ''Z''"
  proof
    assume "char_of (of_char c + 32 :: nat) = CHR ''e''"
    then have "of_char (char_of (of_char c + 32 :: nat) :: char) = (of_char CHR ''e'' :: nat)" by simp
    with that have "of_char c = (69 :: nat)" by (simp add: less_eq_char_def of_char_of)
    then have "of_char c = (of_char (CHR ''E'') :: nat)" by simp
    then show "c = CHR ''E''" by (simp only: of_char_eq_iff)
  next
    have "char_of (of_char CHR ''E'' + 32 :: nat) = CHR ''e''" by code_simp
    then show "c = CHR ''E'' \<Longrightarrow> char_of (of_char c + 32 :: nat) = CHR ''e''" by blast
  qed
  then show ?thesis
    by (auto simp: eq_ignore_ascii_case_def to_ascii_lowercase_def less_eq_char_def)
qed

lemma undot_plain: "\<not> encoded_dot s \<Longrightarrow> undot s = s"
  by (induction s rule: encoded_dot.induct) (auto simp: lower_e)

lemma encoded_dot_Cons: "encoded_dot s \<Longrightarrow> encoded_dot (c # s)"
  by (cases s rule: encoded_dot.cases) auto

lemma encoded_dot_append: "encoded_dot s \<Longrightarrow> encoded_dot (s @ t)"
  by (induction s rule: encoded_dot.induct) auto

lemma encoded_dot_infix: "encoded_dot s \<Longrightarrow> encoded_dot (p @ s @ t)"
  by (induction p) (simp_all add: encoded_dot_append encoded_dot_Cons)

lemma path_part_takeWhile: "path_part s = takeWhile (\<lambda>c. c \<noteq> CHR ''?'') s"
proof (induction s)
  case (Cons c s)
  then show ?case by (cases "split_char CHR ''?'' s") (auto simp: path_part_def)
qed (simp add: path_part_def)

lemma path_part_prefix: "prefix p s \<Longrightarrow> CHR ''?'' \<notin> set p \<Longrightarrow> prefix p (path_part s)"
proof -
  assume "prefix p s" and "CHR ''?'' \<notin> set p"
  then obtain t where "s = p @ t" "takeWhile (\<lambda>c. c \<noteq> CHR ''?'') (p @ t) = p @ takeWhile (\<lambda>c. c \<noteq> CHR ''?'') t"
    by (auto simp: prefix_def intro: takeWhile_append2)
  then show ?thesis by (simp add: path_part_takeWhile)
qed

lemma prefix_path_part: "prefix p (path_part s) \<Longrightarrow> prefix p s"
  by (metis path_part_takeWhile prefix_order.trans takeWhile_is_prefix)

lemma browser_path_plain:
  assumes "\<not> has_dot_segment s"
  shows "browser_path s = path_part s"
proof -
  have "undot x = x \<and> x \<noteq> ''.'' \<and> x \<noteq> ''..''" if x: "x \<in> set (split_char CHR ''/'' (path_part s))" for x
  proof -
    obtain p t where "path_part s = p @ x @ t" using split_char_infix [OF x] by blast
    then have "\<not> encoded_dot x" using assms encoded_dot_infix [of x p t] by (auto simp: has_dot_segment_def)
    with assms x show ?thesis by (auto simp: has_dot_segment_def list_ex_iff undot_plain)
  qed
  then have "resolve [] (split_char CHR ''/'' (path_part s)) = split_char CHR ''/'' (path_part s)"
    by (simp add: resolve_plain)
  then show ?thesis by (simp add: browser_path_def join_split_char)
qed

lemma safe_next_is_safe: "is_safe_next (safe_next s)"
proof -
  have "is_safe_next ''/ui/''" by code_simp
  then show ?thesis by (simp add: safe_next_def split: option.split)
qed

text \<open>
  C10: no open redirect: whatever a request gives as \<open>next\<close>, the target used is a path of this site that a
  browser, after resolving dot segments (also \<open>%2e\<close> ones), fetches exactly as written, under \<open>/ui/\<close>, and
  not the login, the logout, a live stream, an asset or an operation.
\<close>

theorem next_stays_in_ui:
  "let t = safe_next s in
    browser_path t = path_part t \<and> prefix ''/ui/'' (browser_path t) \<and>
    \<not> list_ex (\<lambda>p. prefix p (browser_path t)) EXCLUDED \<and> length t \<le> 200 \<and> list_all plain_char t"
proof -
  define t where "t = safe_next s"
  have t: "is_safe_next t" by (simp add: t_def safe_next_is_safe)
  then have b: "browser_path t = path_part t" by (simp add: is_safe_next_def browser_path_plain)
  moreover have "prefix ''/ui/'' (path_part t)" using t by (intro path_part_prefix) (simp_all add: is_safe_next_def)
  moreover have "\<not> list_ex (\<lambda>p. prefix p (path_part t)) EXCLUDED"
    using t prefix_path_part by (auto simp: is_safe_next_def list_ex_iff)
  ultimately show ?thesis using t by (simp add: is_safe_next_def NEXT_MAX_def flip: t_def)
qed

section \<open>The login's way back\<close>

lemma plain_ascii: "list_all plain_char s \<Longrightarrow> valid_text s"
proof -
  assume s: "list_all plain_char s"
  have "\<forall>c \<in> set ''/_-.?=&%''. byte_of c < 0x80" by code_simp
  then have "byte_of c < 0x80" if "c \<in> set s" for c
    using that s ascii_alphanumeric [of c] by (auto simp: list_all_iff plain_char_def)
  then show ?thesis
    unfolding valid_text_def by (intro from_utf8_ok_ascii) (auto simp: as_bytes_def)
qed

lemma header_value_okI: "set s \<subseteq> insert CHR ''%'' (Collect unreserved) \<union> set ''/?=&'' \<Longrightarrow> header_value_ok s"
proof -
  assume "set s \<subseteq> insert CHR ''%'' (Collect unreserved) \<union> set ''/?=&''"
  moreover have "CHR '' '' \<le> c \<and> c \<noteq> CHR 0x7F" if "is_ascii_alphanumeric c" for c
    using that by (auto simp: is_ascii_alphanumeric_def is_ascii_digit_def less_eq_char_def)
  moreover have "\<not> is_ascii_alphanumeric CHR 0x7F" by code_simp
  ultimately show ?thesis
    by (auto simp: header_value_ok_def list_all_iff unreserved_def less_eq_char_def dest!: subsetD)
qed

lemma login_location:
  assumes "set rest \<subseteq> set ''&expired=1''"
  shows "see_other (''/ui/login?next='' @ percent_encode t @ rest) =
    \<lparr>answer = See_other (Some (''/ui/login?next='' @ percent_encode t @ rest)), set_cookies = []\<rparr>"
proof -
  have "set ''/ui/login?next='' \<subseteq> Collect unreserved \<union> set ''/?=&''" "set ''&expired=1'' \<subseteq> Collect unreserved \<union> set ''/?=&''"
    by code_simp+
  with assms set_percent_encode [of t]
  have "set (''/ui/login?next='' @ percent_encode t @ rest) \<subseteq> insert CHR ''%'' (Collect unreserved) \<union> set ''/?=&''"
    unfolding set_append by blast
  from header_value_okI [OF this] show ?thesis unfolding see_other_def by (rule if_P [THEN arg_cong])
qed

lemma next_read:
  assumes "valid_text t"
  shows "query_param (Some (''next='' @ percent_encode t)) ''next'' = Some t"
    and "query_param (Some (''next='' @ percent_encode t @ ''&expired=1'')) ''next'' = Some t"
proof -
  have "percent_encode ''next'' = ''next''" by code_simp
  with query_param_encoded [OF assms, of "''next''"] show
    "query_param (Some (''next='' @ percent_encode t)) ''next'' = Some t"
    "query_param (Some (''next='' @ percent_encode t @ ''&expired=1'')) ''next'' = Some t"
    by (simp_all del: percent_encode_simps)
qed

definition page_target :: "string \<Rightarrow> string option \<Rightarrow> string" where
  "page_target path query =
     (if parts_without ''q'' query = [] then path else path @ ''?'' @ join ''&'' (parts_without ''q'' query))"

lemma login_redirect_page:
  "m = ''GET'' \<or> m = ''HEAD'' \<Longrightarrow> login_redirect routes m path q =
     (if is_safe_next (page_target path q) then see_other (''/ui/login?next='' @ percent_encode (page_target path q))
      else see_other ''/ui/login'')"
  unfolding login_redirect_def page_target_def Let_def by (cases "parts_without ''q'' q = []") simp_all

text \<open>
  The login leads back: a request without a session is sent to the login page, and the target the
  login then reads from that address is, for a page, the page itself with its query but without search
  text (or the dashboard, when the page is no allowed target), and for a post, which is never run, the
  page of its form.
\<close>

theorem login_comes_back:
  assumes "valid_text (form_page routes path)"
  shows "\<exists>query. answer (login_redirect routes m path q) = See_other (Some (''/ui/login'' @ query)) \<and>
    safe_next (query_param (strip_prefix ''?'' query) ''next'') =
      safe_next (Some (if m = ''GET'' \<or> m = ''HEAD'' then page_target path q else form_page routes path))"
proof (cases "m = ''GET'' \<or> m = ''HEAD''")
  case True
  show ?thesis
  proof (cases "is_safe_next (page_target path q)")
    case safe: True
    then have "valid_text (page_target path q)" by (intro plain_ascii) (simp add: is_safe_next_def)
    moreover have "login_redirect routes m path q = see_other (''/ui/login?next='' @ percent_encode (page_target path q))"
      using True safe by (simp add: login_redirect_page)
    ultimately show ?thesis
      using True next_read(1) [of "page_target path q"] login_location [of "[]" "page_target path q"]
      by (intro exI [of _ "''?next='' @ percent_encode (page_target path q)"]) (simp add: strip_prefix_def)
  next
    case False
    have "header_value_ok ''/ui/login''" by code_simp
    moreover from False True have "login_redirect routes m path q = see_other ''/ui/login''"
      by (simp add: login_redirect_page)
    ultimately show ?thesis
      using False True by (intro exI [of _ "[]"]) (simp add: see_other_def strip_prefix_def query_param_def safe_next_def)
  qed
next
  case False
  with next_read(2) [OF assms] login_location [of "''&expired=1''" "form_page routes path"] show ?thesis
    by (intro exI [of _ "''?next='' @ percent_encode (form_page routes path) @ ''&expired=1''"])
      (simp add: login_redirect_def strip_prefix_def)
qed

theorem login_comes_back_witness:
  "answer (login_redirect (\<lambda>_. None) ''GET'' ''/ui/sms'' (Some ''q=55&store=sim'')) =
     See_other (Some ''/ui/login?next=%2Fui%2Fsms%3Fstore%3Dsim'') \<and>
   valid_text (form_page (\<lambda>_. None) ''/ui/sms'') \<and>
   (\<exists>query. safe_next (query_param (strip_prefix ''?'' query) ''next'') = ''/ui/sms?store=sim'')"
proof (intro conjI)
  show "answer (login_redirect (\<lambda>_. None) ''GET'' ''/ui/sms'' (Some ''q=55&store=sim'')) =
     See_other (Some ''/ui/login?next=%2Fui%2Fsms%3Fstore%3Dsim'')"
    by code_simp
  have "list_all plain_char (form_page (\<lambda>_. None) ''/ui/sms'')" by code_simp
  then show v: "valid_text (form_page (\<lambda>_. None) ''/ui/sms'')" by (rule plain_ascii)
  have "safe_next (Some (page_target ''/ui/sms'' (Some ''q=55&store=sim''))) = ''/ui/sms?store=sim''" by code_simp
  then show "\<exists>query. safe_next (query_param (strip_prefix ''?'' query) ''next'') = ''/ui/sms?store=sim''"
    using login_comes_back [OF v, of "''GET''" "Some ''q=55&store=sim''"] by auto
qed

section \<open>The hop\<close>

lemma hopped_target: "hopped (Some (join ''&'' ps @ ''&'' @ HOP))" "hopped (Some HOP)"
proof -
  have "CHR ''&'' \<notin> set HOP" by code_simp
  then show "hopped (Some (join ''&'' ps @ ''&'' @ HOP))" "hopped (Some HOP)"
    by (simp_all add: hopped_def split_char_app split_char_no)
qed

lemma hop_target_query:
  "hop_target path query = Some target \<Longrightarrow> \<exists>q. target = path @ ''?'' @ q \<and> hopped (Some q)"
  using hopped_target by (auto simp: hop_target_def Let_def split: if_splits)

lemma without_hop_clean: "without_hop query = Some q \<Longrightarrow> \<not> hopped (Some q)"
proof -
  assume q: "without_hop query = Some q"
  define kept where "kept = parts_without ''hop'' query"
  have "q = join ''&'' kept" "kept \<noteq> []" using q by (auto simp: without_hop_def kept_def Let_def split: if_splits)
  moreover have "\<forall>x \<in> set kept. CHR ''&'' \<notin> set x"
    by (auto simp: kept_def parts_without_def dest: split_char_notin)
  ultimately have "split_char CHR ''&'' q = kept" by (simp add: split_char_join)
  moreover have "HOP \<notin> set kept" by (simp add: kept_def parts_without_def HOP_def)
  ultimately show ?thesis by (simp add: hopped_def)
qed

lemma answer_add_cookie [simp]: "answer (add_cookie resp c) = answer resp"
  by (simp add: add_cookie_def)

text \<open>
  C11: the hop ends: a page that answers with the hop sends the browser to its own path with a query by
  which the next request is known as the hop's, whatever headers come with it: without a session that one
  gets the login's answer (and the marker is cleared), never another hop; with one it is sent on to the
  page, or the page with the rest of the query, where nothing is left of the hop.
\<close>

theorem hop_ends:
  assumes "CHR ''?'' \<notin> set path" and "answer (without_session h m path query to) = Hop_page target"
    and "\<And>q. \<exists>l. answer (to q) = See_other l"
  shows "\<exists>q. split_once CHR ''?'' target = Some (path, q) \<and>
    (\<forall>h' m'. without_session h' m' path (Some q) to =
       (if has_marker h' then add_cookie (to (without_hop (Some q))) CLEAR_MARKER else to (without_hop (Some q)))) \<and>
    (\<exists>rest. after_hop path (Some q) = Some (see_other (path @ rest)) \<and>
      (rest = [] \<or> (\<exists>q'. rest = ''?'' @ q' \<and> after_hop path (Some q') = None)))"
proof -
  have "hop_target path (without_hop query) = Some target"
    using assms(2) assms(3) [of "without_hop query"]
    by (auto simp: without_session_def Let_def split: if_splits option.splits)
  then obtain q where q: "target = path @ ''?'' @ q" "hopped (Some q)" using hop_target_query by blast
  have "\<exists>rest. after_hop path (Some q) = Some (see_other (path @ rest)) \<and>
      (rest = [] \<or> (\<exists>q'. rest = ''?'' @ q' \<and> after_hop path (Some q') = None))"
  proof (cases "without_hop (Some q)")
    case None
    with q show ?thesis by (intro exI [of _ "[]"]) (simp add: after_hop_def)
  next
    case (Some q')
    with q without_hop_clean [OF Some] show ?thesis by (intro exI [of _ "''?'' @ q'"]) (simp add: after_hop_def)
  qed
  with q assms(1) show ?thesis
    by (intro exI [of _ q]) (simp add: split_once_append without_session_def Let_def)
qed

definition demo_marker :: headers where
  "demo_marker = [(''cookie'', ''zte_ui_signed_in=1''), (''sec-fetch-site'', ''cross-site'')]"

theorem hop_ends_witness:
  "answer (without_session demo_marker ''GET'' ''/ui/sms'' (Some ''store=sim'') (login_redirect (\<lambda>_. None) ''GET'' ''/ui/sms'')) =
     Hop_page ''/ui/sms?store=sim&hop=1'' \<and>
   (\<exists>q. split_once CHR ''?'' ''/ui/sms?store=sim&hop=1'' = Some (''/ui/sms'', q) \<and>
     set_cookies (without_session demo_marker ''GET'' ''/ui/sms'' (Some q) (login_redirect (\<lambda>_. None) ''GET'' ''/ui/sms'')) = [CLEAR_MARKER])"
proof -
  let ?to = "login_redirect (\<lambda>_. None) ''GET'' ''/ui/sms''"
  have hop: "answer (without_session demo_marker ''GET'' ''/ui/sms'' (Some ''store=sim'') ?to) = Hop_page ''/ui/sms?store=sim&hop=1''"
    by code_simp
  have to: "\<exists>l. answer (?to q) = See_other l" "set_cookies (?to q) = []" for q
    by (simp_all add: login_redirect_def see_other_def Let_def)
  have "has_marker demo_marker" "header_value_ok CLEAR_MARKER" by code_simp+
  with hop_ends [OF _ hop to(1)] to(2) hop show ?thesis by (auto simp: add_cookie_def)
qed

end
