(* ===== verification/Spec2Isabelle.thy ===== *)
theory Spec2Isabelle
  imports
    Agent_Prelude Auth_Guessing Auth_Sessions Auth_State Base64_Decode Boot_Clock Calendar
    Card_Exchange Card_Session Charge_Policy Codec_Interface Conn_Watchdog Decimal_Text
    Der_Codec Dns_Packet Dns_Proxy Dns_Service Es10_Notifications Es10_Profiles
    Es8_Metadata Event_Hub Event_Topics Hex_Codec Hub_Delivery Hub_Entries Hub_Schedule
    Job_Scheduler Key_Log Line_Blocks Login_Limiter Mobile_Safety Mobile_Side Oos_Executor
    Oos_Knobs Oos_Modem Oos_Policy Oos_Safety Request_Admission Request_Guard
    Request_Safety Run_Invariant Rust_Text Session_Table Signal_History Standby_Guard
    Standby_Inputs Standby_Safety Stk_Codec Stk_Commands Stk_Requests Stk_Safety
    Stk_Session Stk_Stream Stk_Text Stuck_Safety Stuck_Script Text_Ops Tls_Edge Ubus_Cache
    Uci_Config Url_Text Watchdog_Executor Watchdog_Safety Web_Navigation Web_Session
    Wifi_Outlook
begin

text \<open>
  A verification library for \<open>open-u60-pro\<close>, the open agent of a 5G router, written in Rust: the
  daemon \<open>zte-agent\<close> (\<open>src/zte-agent/src\<close>) that serves the router's API and web pages and keeps its
  connectivity, and the crate \<open>euicc\<close> (\<open>src/euicc/src\<close>) with which it manages the profiles of an
  eSIM. Every definition that models code bears the code's name where Isabelle allows it.

  \<^bold>\<open>The parts, and the theories that model them.\<close>

  \<^item> \<open>Agent_Prelude\<close>, \<open>Rust_Text\<close> and \<open>Decimal_Text\<close> hold what the components share: the result type
    (\<open>Ok\<close>, \<open>Err\<close>), lemmas on lists, searches and maps, and the text operations of Rust's library
    (trimming, splitting, decimal numbers).
  \<^item> The eUICC crate. \<open>Hex_Codec\<close> (\<open>hex.rs\<close>), \<open>Base64_Decode\<close> (\<open>b64.rs\<close>) and \<open>Der_Codec\<close>
    (\<open>der.rs\<close>) are its codecs, \<open>Codec_Interface\<close> the locale of their round trips. \<open>Card_Session\<close>
    (\<open>lib.rs\<close>) runs commands on the card through a transport that is a parameter, and \<open>Card_Exchange\<close> shows
    that a card written after the standard gets the whole request and its whole response comes back; \<open>Es10_Profiles\<close>
    (\<open>es10c.rs\<close>), \<open>Es10_Notifications\<close> (\<open>es10b.rs\<close>) and \<open>Es8_Metadata\<close> (\<open>es8p.rs\<close>) build its
    requests and read its answers.
  \<^item> Authentication (\<open>boottime.rs\<close>, \<open>auth/\<close>). \<open>Boot_Clock\<close> is the clock, \<open>Login_Limiter\<close> the
    blocks and the token bucket of wrong passwords, \<open>Session_Table\<close> the table of sessions with its
    expiry and its evictions. \<open>Auth_State\<close> composes them into the operations of \<open>auth/mod.rs\<close>;
    \<open>Auth_Sessions\<close> shows who is let in, \<open>Auth_Guessing\<close> how many passwords can be tried and which
    form tokens are accepted. SHA-256, HMAC and the random source are parameters.
  \<^item> Encrypted DNS (\<open>doh/\<close>). \<open>Dns_Packet\<close> reads and writes messages, \<open>Dns_Proxy\<close> is the cache, the
    listener, the workers and the network generation, \<open>Dns_Service\<close> the step relation of listener
    and workers interleaved with its reachable states.
  \<^item> \<open>Job_Scheduler\<close> (\<open>scheduler.rs\<close>): the tick and the handlers of scheduled jobs.
  \<^item> The connectivity watchdog (\<open>conn_watchdog.rs\<close>). \<open>Conn_Watchdog\<close> is its state machine,
    \<open>Watchdog_Safety\<close> what no sequence of events can make it do, \<open>Watchdog_Executor\<close> how an action is
    carried out, recorded and read again after a restart; the device's answers are scripted by the
    initial world, so a theorem over all worlds is over all ways calls can fail.
  \<^item> \<open>Charge_Policy\<close> (\<open>charge_policy.rs\<close>): the charge limit, its loop and handlers.
  \<^item> \<open>Calendar\<close> (\<open>calendar.rs\<close>): days and civil dates.
  \<^item> Live updates (\<open>events/\<close>). \<open>Event_Topics\<close> (\<open>mod.rs\<close>) are the topics and their sets,
    \<open>Signal_History\<close> (\<open>history.rs\<close>) the ring of signal readings, \<open>Event_Hub\<close> (\<open>hub.rs\<close>) the values,
    versions, demand and subscriptions.
    \<open>Hub_Entries\<close> adds the open subscriptions to the hub and shows its bookkeeping and who gets a
    stream, \<open>Hub_Delivery\<close> that no change is lost, \<open>Hub_Schedule\<close> what the sampler reads next and
    how often.
  \<^item> The no-service policy (\<open>oos_policy.rs\<close>). \<open>Oos_Policy\<close> is its configuration and its machine,
    \<open>Oos_Safety\<close> the machine's invariant, when it parks the modem and how its probes spread,
    \<open>Oos_Executor\<close> how actions reach the device and how the thread composes them, with a script that
    says which call fails. \<open>Oos_Knobs\<close> shows that the owner's firmware settings survive every failure
    and restart, \<open>Oos_Modem\<close> that the modem comes back to the user, and the restart after which it does
    not.
  \<^item> \<open>Run_Invariant\<close> holds the locales of machines that step under an invariant or make progress; the
    components interpret them on their own steps.
  \<^item> The web boundary. \<open>Text_Ops\<close> and \<open>Url_Text\<close> are the text operations, percent encoding and forms.
    \<open>Request_Guard\<close> (\<open>httpd/guard.rs\<close>) reads authorities and judges origins, \<open>Web_Session\<close>
    (\<open>web/session.rs\<close>) is the cookies, redirects and the marker hop of the web UI, \<open>Request_Admission\<close>
    what \<open>server.rs\<close> decides before a body is read and how \<open>httpd/tls.rs\<close> translates a request.
    \<open>Request_Safety\<close> shows who is let in, \<open>Tls_Edge\<close> that the HTTPS and the plain origin stay apart,
    \<open>Web_Navigation\<close> where a browser is sent.
  \<^item> \<open>Mobile_Side\<close> (\<open>httpd/mobile.rs\<close>) decides which peers an interface table admits and keeps that
    table; \<open>Mobile_Safety\<close> shows which ones that are, and that for any sequence of connections and of
    reads that succeed, fail or come late the mobile-data side is shut out unless no table of the last ten
    minutes is known.
  \<^item> The Wi-Fi watchdog (\<open>wifi_watchdog.rs\<close>). \<open>Uci_Config\<close> reads OpenWrt's configuration files,
    \<open>Wifi_Outlook\<close> judges from the Wi-Fi configuration whether the firmware's script can finish,
    \<open>Stuck_Script\<close> finds its copies in \<open>/proc\<close> and decides when one is stopped; \<open>Stuck_Safety\<close> shows what
    is stopped and that no copy is forgotten.
  \<^item> The standby guard. \<open>Line_Blocks\<close> is text cut at line feeds, \<open>Key_Log\<close> (\<open>key_log.rs\<close>) the backward
    search of the firmware's log; its loop ends for every window that is not empty. \<open>Standby_Inputs\<close> are the modes and reports the guard of
    \<open>standby_guard.rs\<close> reads and the follower of the test log, \<open>Standby_Guard\<close> its machine, the firmware
    steps of a switch and the runtime. \<open>Standby_Safety\<close> shows when and how often Wi-Fi is turned off and on,
    and that a switch overtaken by a power change gives up and leaves nothing half done.
  \<^item> \<open>Ubus_Cache\<close> (\<open>cache.rs\<close>) is the cache between the readers and \<open>ubus\<close>, as an inductive relation of
    readers, fetches and invalidations interleaved: a value served is of a fetch that began after every
    invalidation so far, and one fetch per key runs.
  \<^item> The SIM toolkit (\<open>stk/\<close>). \<open>Stk_Codec\<close> (\<open>codec.rs\<close>) reads the SIM's commands and alphabets and writes the
    answers; \<open>Stk_Commands\<close> shows that what it accepts is well typed, \<open>Stk_Text\<close> that a text answered is the text the
    SIM reads. \<open>Stk_Session\<close> (\<open>mod.rs\<close>) is the session on the modem's socket and the one thread that owns it, with
    a script of which writes fail. \<open>Stk_Safety\<close> shows that a choice goes out once and that a waiting session ends,
    \<open>Stk_Requests\<close> that every request is answered once, \<open>Stk_Stream\<close> that the pieces of the stream do not matter and
    that no frame makes the thread choose.

  \<^bold>\<open>How they interact.\<close> A request is let in by \<open>authenticate\<close>, which reads the session table under the
  clock; a failed login feeds the limiter. The watchdog's machine emits actions which its executor
  carries out; the executor's records seed the machine at the next start. The scheduler, the watchdog
  and the charge limit call the device, whose answers are arguments. Sessions that end are told to the
  hub, which ends their streams.

  \<^bold>\<open>What the lemmas show.\<close> Codecs: round trips, and that decoders accept exactly what the code says.
  State machines: invariants by induction over every sequence of operations, then safety from the
  invariant. Tables and rings: refinement of a plain list or map. Handlers: every branch, with the
  errors as values of a sum. Where the code does something other than its comments say, the theorem
  states what it does and the manifest's findings say so.

  \<^bold>\<open>Bounds.\<close> Machine integers are words or natural numbers with the bound in the definition. Loops are
  structural or have a termination proof; the DER iterator and names with compression pointers carry the
  code's own limits, which are their measures. Only GET RESPONSE has no limit in the code: that loop is a partial
  function (\<open>None\<close> is a card that never stops), shown to end whenever each answer leaves the card less to say.

  \<^bold>\<open>What is not modelled.\<close> Sockets, threads and condition variables (a step of the model is a critical
  section or a handler), files and subprocesses (their contents and results are arguments), JSON text
  (values are given by the members the code reads), HTML, and the parts of the agent that only move
  device state into JSON. The manifest lists every component and its status.
\<close>

end
